(* ===== verification/Prelude.thy ===== *)
theory Prelude
  imports Main "HOL-Library.Word"
begin

section \<open>Shared vocabulary of the development\<close>

text \<open>
  What every component theory uses: outcomes of fallible Rust code, bytes and strings,
  checked machine arithmetic, and association lists standing for \<open>HashMap\<close>.

  \<^item> \<open>'a res\<close> is Rust's \<open>Result\<close> with a third outcome \<open>Panic\<close>. The workspace
    builds with \<open>overflow-checks = true\<close> and \<open>panic = "abort"\<close> (src/Cargo.toml), so an
    arithmetic overflow, a slice index out of range and a length mismatch of
    \<open>copy_from_slice\<close> end the process: each such site is a \<open>Panic\<close> branch here.
  \<^item> A Rust \<open>String\<close> is its UTF-8 byte sequence, written as a HOL \<open>string\<close> (a HOL
    \<open>char\<close> is one byte); \<open>bytes_of\<close> and \<open>str_of\<close> convert, \<open>utf8_valid\<close> is the check
    of \<open>std::str::from_utf8\<close>.
  \<^item> \<open>u64\<close> and \<open>usize\<close> values are natural numbers and \<open>i64\<close> values integers, with
    the overflow of \<open>+\<close> and \<open>-\<close> written out (\<open>add_u64\<close>, \<open>add_i64\<close>, \<open>sub_i64\<close>).
  \<^item> A \<open>HashMap\<close> is an association list with distinct keys. The list order stands for
    the (unspecified) iteration order; the theorems hold for every order.
\<close>

named_theorems res_splits "case splits for outcomes"
named_theorems table_laws "laws of hash tables"

subsection \<open>Outcomes\<close>

datatype 'a res = Ok 'a | Err string | Panic

primrec and_then :: "'a res \<Rightarrow> ('a \<Rightarrow> 'b res) \<Rightarrow> 'b res" where
  "and_then (Ok a) f = f a"
| "and_then (Err e) f = Err e"
| "and_then Panic f = Panic"

primrec map_err :: "string \<Rightarrow> 'a res \<Rightarrow> 'a res" where
  "map_err msg (Ok a) = Ok a"
| "map_err msg (Err e) = Err msg"
| "map_err msg Panic = Panic"

primrec ok_or :: "string \<Rightarrow> 'a option \<Rightarrow> 'a res" where
  "ok_or msg None = Err msg"
| "ok_or msg (Some a) = Ok a"

primrec is_ok :: "'a res \<Rightarrow> bool" where
  "is_ok (Ok a) = True"
| "is_ok (Err e) = False"
| "is_ok Panic = False"

declare res.split [res_splits] res.split_asm [res_splits]

lemma and_then_eq_Ok [simp]: "and_then r f = Ok b \<longleftrightarrow> (\<exists>a. r = Ok a \<and> f a = Ok b)"
  by (cases r) auto

lemma map_err_eq_Ok [simp]: "map_err msg r = Ok a \<longleftrightarrow> r = Ok a"
  by (cases r) auto

lemma ok_or_eq_Ok [simp]: "ok_or msg p = Ok a \<longleftrightarrow> p = Some a"
  by (cases p) auto

lemma and_then_eq_Panic [simp]:
  "and_then r f = Panic \<longleftrightarrow> r = Panic \<or> (\<exists>a. r = Ok a \<and> f a = Panic)"
  by (cases r) auto

lemma and_then_eq_Err [simp]:
  "and_then r f = Err e \<longleftrightarrow> r = Err e \<or> (\<exists>a. r = Ok a \<and> f a = Err e)"
  by (cases r) auto

lemma map_err_not_Panic [simp]: "map_err msg r = Panic \<longleftrightarrow> r = Panic"
  by (cases r) auto

lemma ok_or_not_Panic [simp]: "ok_or msg p \<noteq> Panic"
  by (cases p) auto

subsection \<open>Bytes and strings\<close>

type_synonym byte = "8 word"

definition byte_of_char :: "char \<Rightarrow> byte" where
  "byte_of_char c = word_of_nat (of_char c)"

definition char_of_byte :: "byte \<Rightarrow> char" where
  "char_of_byte b = char_of (unat b)"

definition bytes_of :: "string \<Rightarrow> byte list" where
  "bytes_of s = map byte_of_char s"

definition str_of :: "byte list \<Rightarrow> string" where
  "str_of bs = map char_of_byte bs"

lemma char_of_byte_of_char [simp]: "char_of_byte (byte_of_char c) = c"
  by (simp add: char_of_byte_def byte_of_char_def unat_of_nat)

lemma byte_of_char_of_byte [simp]: "byte_of_char (char_of_byte b) = b"
proof -
  have "unat b < 256" using unsigned_less [of b] by simp
  then show ?thesis by (simp add: char_of_byte_def byte_of_char_def)
qed

lemma str_of_bytes_of [simp]: "str_of (bytes_of s) = s"
  by (simp add: str_of_def bytes_of_def comp_def)

lemma bytes_of_str_of [simp]: "bytes_of (str_of bs) = bs"
  by (simp add: str_of_def bytes_of_def comp_def)

lemma length_bytes_of [simp]: "length (bytes_of s) = length s"
  by (simp add: bytes_of_def)

lemma length_str_of [simp]: "length (str_of bs) = length bs"
  by (simp add: str_of_def)

lemma bytes_of_eq_iff [simp]: "bytes_of s = bytes_of t \<longleftrightarrow> s = t"
  by (metis str_of_bytes_of)

lemma bytes_of_eq_Nil [simp]: "bytes_of s = [] \<longleftrightarrow> s = []"
  by (simp add: bytes_of_def)

lemma bytes_of_Nil [simp]: "bytes_of [] = []"
  by simp

lemma bytes_of_append [simp]: "bytes_of (s @ t) = bytes_of s @ bytes_of t"
  by (simp add: bytes_of_def)

lemma str_of_append [simp]: "str_of (s @ t) = str_of s @ str_of t"
  by (simp add: str_of_def)

lemma take_bytes_of [simp]: "take n (bytes_of s) = bytes_of (take n s)"
  by (simp add: bytes_of_def take_map)

lemma drop_bytes_of [simp]: "drop n (bytes_of s) = bytes_of (drop n s)"
  by (simp add: bytes_of_def drop_map)

text \<open>The well-formed byte sequences of UTF-8 (what \<open>std::str::from_utf8\<close> accepts).\<close>

definition utf8_cont :: "byte \<Rightarrow> bool" where
  "utf8_cont b \<longleftrightarrow> 0x80 \<le> b \<and> b \<le> 0xBF"

fun utf8_valid :: "byte list \<Rightarrow> bool" where
  "utf8_valid [] = True"
| "utf8_valid (a # r) =
     (if a < 0x80 then utf8_valid r
      else if 0xC2 \<le> a \<and> a \<le> 0xDF then
        (case r of b # r1 \<Rightarrow> utf8_cont b \<and> utf8_valid r1 | _ \<Rightarrow> False)
      else if 0xE0 \<le> a \<and> a \<le> 0xEF then
        (case r of b # c # r2 \<Rightarrow>
            utf8_cont b \<and> (a = 0xE0 \<longrightarrow> 0xA0 \<le> b) \<and> (a = 0xED \<longrightarrow> b \<le> 0x9F)
            \<and> utf8_cont c \<and> utf8_valid r2
         | _ \<Rightarrow> False)
      else if 0xF0 \<le> a \<and> a \<le> 0xF4 then
        (case r of b # c # d # r3 \<Rightarrow>
            utf8_cont b \<and> (a = 0xF0 \<longrightarrow> 0x90 \<le> b) \<and> (a = 0xF4 \<longrightarrow> b \<le> 0x8F)
            \<and> utf8_cont c \<and> utf8_cont d \<and> utf8_valid r3
         | _ \<Rightarrow> False)
      else False)"

definition from_utf8 :: "byte list \<Rightarrow> string option" where
  "from_utf8 bs = (if utf8_valid bs then Some (str_of bs) else None)"

definition ascii :: "string \<Rightarrow> bool" where
  "ascii s \<longleftrightarrow> (\<forall>c\<in>set s. of_char c < (128::nat))"

lemma byte_of_char_less:
  assumes "of_char c < (128::nat)"
  shows "byte_of_char c < 0x80"
  using assms by (simp add: byte_of_char_def word_less_nat_alt unat_of_nat)

lemma utf8_valid_ascii: "ascii s \<Longrightarrow> utf8_valid (bytes_of s)"
  by (induction s) (auto simp: ascii_def bytes_of_def byte_of_char_less)

lemma from_utf8_ascii [simp]: "ascii s \<Longrightarrow> from_utf8 (bytes_of s) = Some s"
  by (simp add: from_utf8_def utf8_valid_ascii)

lemma from_utf8_Some_iff [simp]: "from_utf8 bs = Some s \<longleftrightarrow> utf8_valid bs \<and> bs = bytes_of s"
  by (auto simp: from_utf8_def)

text \<open>
  \<open>str::trim\<close> removes the characters with the Unicode property White_Space at both ends;
  \<open>ws_len\<close> is the length of the UTF-8 encoding of such a character at the front (0 when
  there is none) and \<open>ws_len_rev\<close> the same for a reversed byte list.
\<close>

fun ws3 :: "byte \<Rightarrow> byte \<Rightarrow> byte \<Rightarrow> bool" where
  "ws3 a b c \<longleftrightarrow>
     (a = 0xE1 \<and> b = 0x9A \<and> c = 0x80)
   \<or> (a = 0xE2 \<and> b = 0x80 \<and> (0x80 \<le> c \<and> c \<le> 0x8A \<or> c = 0xA8 \<or> c = 0xA9 \<or> c = 0xAF))
   \<or> (a = 0xE2 \<and> b = 0x81 \<and> c = 0x9F)
   \<or> (a = 0xE3 \<and> b = 0x80 \<and> c = 0x80)"

definition ws1 :: "byte \<Rightarrow> bool" where
  "ws1 a \<longleftrightarrow> 9 \<le> a \<and> a \<le> 13 \<or> a = 32"

fun ws_len :: "byte list \<Rightarrow> nat" where
  "ws_len (a # b # c # r) = (if ws1 a then 1 else if a = 0xC2 \<and> (b = 0x85 \<or> b = 0xA0) then 2
     else if ws3 a b c then 3 else 0)"
| "ws_len [a, b] = (if ws1 a then 1 else if a = 0xC2 \<and> (b = 0x85 \<or> b = 0xA0) then 2 else 0)"
| "ws_len [a] = (if ws1 a then 1 else 0)"
| "ws_len [] = 0"

fun ws_len_rev :: "byte list \<Rightarrow> nat" where
  "ws_len_rev (c # b # a # r) = (if ws1 c then 1 else if b = 0xC2 \<and> (c = 0x85 \<or> c = 0xA0) then 2
     else if ws3 a b c then 3 else 0)"
| "ws_len_rev [b, a] = (if ws1 b then 1 else if a = 0xC2 \<and> (b = 0x85 \<or> b = 0xA0) then 2 else 0)"
| "ws_len_rev [a] = (if ws1 a then 1 else 0)"
| "ws_len_rev [] = 0"

function drop_ws :: "(byte list \<Rightarrow> nat) \<Rightarrow> byte list \<Rightarrow> byte list" where
  "drop_ws f bs = (if bs = [] \<or> f bs = 0 then bs else drop_ws f (drop (f bs) bs))"
  by pat_completeness auto
termination
  by (relation "measure (\<lambda>(f, bs). length bs)") auto

declare drop_ws.simps [simp del]

definition trim_bytes :: "byte list \<Rightarrow> byte list" where
  "trim_bytes bs = rev (drop_ws ws_len_rev (rev (drop_ws ws_len bs)))"

definition trim :: "string \<Rightarrow> string" where
  "trim s = str_of (trim_bytes (bytes_of s))"

lemma drop_ws_stop [simp]: "f bs = 0 \<Longrightarrow> drop_ws f bs = bs"
  by (simp add: drop_ws.simps)

lemma ws_len_graphic:
  assumes "\<forall>b\<in>set bs. 33 \<le> b \<and> b < 128"
  shows "ws_len bs = 0" and "ws_len_rev bs = 0"
proof -
  have no1: "\<not> ws1 b" if "b \<in> set bs" for b
    using assms that by (fastforce simp: ws1_def word_le_nat_alt)
  have neq: "b \<noteq> 0xC2 \<and> b \<noteq> 0xE1 \<and> b \<noteq> 0xE2 \<and> b \<noteq> 0xE3" if "b \<in> set bs" for b
    using assms that by fastforce
  have no3: "\<not> ws3 a b c" if "a \<in> set bs" for a b c
    using neq [OF that] by (simp only: ws3.simps) blast
  show "ws_len bs = 0"
    using no1 neq no3 by (cases bs rule: ws_len.cases) (simp_all del: ws3.simps)
  show "ws_len_rev bs = 0"
    using no1 neq no3 by (cases bs rule: ws_len_rev.cases) (simp_all del: ws3.simps)
qed

lemma trim_graphic [simp]:
  assumes "\<forall>b\<in>set (bytes_of s). 33 \<le> b \<and> b < 128"
  shows "trim s = s"
proof -
  have "ws_len (bytes_of s) = 0" "ws_len_rev (rev (bytes_of s)) = 0"
    using ws_len_graphic [of "bytes_of s"] ws_len_graphic [of "rev (bytes_of s)"] assms by auto
  then show ?thesis by (simp add: trim_def trim_bytes_def)
qed

lemma length_drop_ws: "length (drop_ws f bs) \<le> length bs"
proof (induction f bs rule: drop_ws.induct)
  case (1 f bs)
  then show ?case by (cases "bs = [] \<or> f bs = 0") (auto simp: drop_ws.simps [of f bs])
qed

lemma length_trim: "length (trim s) \<le> length s"
  using length_drop_ws [of ws_len_rev "rev (drop_ws ws_len (bytes_of s))"] length_drop_ws [of ws_len "bytes_of s"]
  by (simp add: trim_def trim_bytes_def)

subsection \<open>Integers as bytes\<close>

text \<open>
  \<open>be_bytes k n\<close> is \<open>to_be_bytes\<close> of a \<open>k\<close>-byte unsigned value after the \<open>as\<close> cast (the
  low \<open>k\<close> bytes of \<open>n\<close>); \<open>be_val\<close> is \<open>from_be_bytes\<close>; little endian is the reverse.
\<close>

primrec be_bytes :: "nat \<Rightarrow> nat \<Rightarrow> byte list" where
  "be_bytes 0 n = []"
| "be_bytes (Suc k) n = word_of_nat (n div 256 ^ k) # be_bytes k n"

definition be_val :: "byte list \<Rightarrow> nat" where
  "be_val bs = foldl (\<lambda>a b. a * 256 + unat b) 0 bs"

definition le_bytes :: "nat \<Rightarrow> nat \<Rightarrow> byte list" where
  "le_bytes k n = rev (be_bytes k n)"

definition le_val :: "byte list \<Rightarrow> nat" where
  "le_val bs = be_val (rev bs)"

lemma length_be_bytes [simp]: "length (be_bytes k n) = k"
  by (induction k) auto

lemma length_le_bytes [simp]: "length (le_bytes k n) = k"
  by (simp add: le_bytes_def)

lemma foldl_be_bytes: "foldl (\<lambda>a b. a * 256 + unat b) acc (be_bytes k n) = acc * 256 ^ k + n mod 256 ^ k"
proof (induction k arbitrary: acc)
  case 0
  then show ?case by simp
next
  case (Suc k)
  have "foldl (\<lambda>a b. a * 256 + unat b) acc (be_bytes (Suc k) n)
      = (acc * 256 + (n div 256 ^ k) mod 256) * 256 ^ k + n mod 256 ^ k"
    using Suc [of "acc * 256 + (n div 256 ^ k) mod 256"] by (simp add: unat_of_nat)
  also have "\<dots> = acc * 256 ^ Suc k + (256 ^ k * (n div 256 ^ k mod 256) + n mod 256 ^ k)"
    by (simp add: algebra_simps)
  also have "256 ^ k * (n div 256 ^ k mod 256) + n mod 256 ^ k = n mod 256 ^ Suc k"
    by (metis mod_mult2_eq power_Suc2)
  finally show ?case .
qed

lemma be_val_be_bytes: "be_val (be_bytes k n) = n mod 256 ^ k"
  using foldl_be_bytes [of 0 k n] by (simp add: be_val_def)

lemma be_val_bytes_id [simp]: "n < 256 ^ k \<Longrightarrow> be_val (be_bytes k n) = n"
  by (simp add: be_val_be_bytes)

lemma le_val_bytes_id [simp]: "n < 256 ^ k \<Longrightarrow> le_val (le_bytes k n) = n"
  by (simp add: le_val_def le_bytes_def)

lemma byte_of_nat_mod: "word_of_nat (n mod 256) = (word_of_nat n :: byte)"
  by (rule word_unat_eq_iff [THEN iffD2]) (simp add: unat_of_nat)

lemma be_bytes_snoc: "be_bytes (Suc k) n = be_bytes k (n div 256) @ [word_of_nat n]"
  by (induction k arbitrary: n) (simp_all add: div_mult2_eq mult.commute)

lemma be_val_snoc: "be_val (bs @ [b]) div 256 = be_val bs" "word_of_nat (be_val (bs @ [b])) = b"
proof -
  have b: "unat b < 256" using unsigned_less [of b] by simp
  then show "be_val (bs @ [b]) div 256 = be_val bs" by (simp add: be_val_def)
  have "be_val (bs @ [b]) mod 256 = unat b" using b by (simp add: be_val_def)
  then have "(word_of_nat (be_val (bs @ [b])) :: byte) = word_of_nat (unat b)" by (metis byte_of_nat_mod)
  then show "word_of_nat (be_val (bs @ [b])) = b" by simp
qed

lemma be_bytes_val_id [simp]: "be_bytes (length bs) (be_val bs) = bs"
  by (induction bs rule: rev_induct) (simp_all add: be_bytes_snoc be_val_snoc del: be_bytes.simps(2))

lemma le_bytes_val_id: "length bs = n \<Longrightarrow> le_bytes n (le_val bs) = bs"
  using be_bytes_val_id [of "rev bs"] by (simp add: le_bytes_def le_val_def)

lemma foldl_be_bound: "foldl (\<lambda>a b. a * 256 + unat (b::byte)) acc bs < (acc + 1) * 256 ^ length bs"
proof (induction bs arbitrary: acc)
  case Nil
  then show ?case by simp
next
  case (Cons b bs)
  have "unat b < 256" using unsigned_less [of b] by simp
  then have le: "(acc * 256 + unat b + 1) * 256 ^ length bs \<le> ((acc + 1) * 256) * 256 ^ length bs"
    by (intro mult_le_mono1) simp
  show ?case using less_le_trans [OF Cons [of "acc * 256 + unat b"] le] by (simp add: algebra_simps)
qed

lemma be_val_bound: "be_val bs < 256 ^ length bs"
  using foldl_be_bound [of 0 bs] by (simp add: be_val_def)

lemma le_val_bound: "le_val bs < 256 ^ length bs"
  using be_val_bound [of "rev bs"] by (simp add: le_val_def)

lemma le_val_take: "le_val (take n bs) < 256 ^ n"
  by (rule less_le_trans [OF le_val_bound power_increasing]) simp_all

subsection \<open>Checked and saturating arithmetic\<close>

abbreviation U64_MAX :: nat where "U64_MAX \<equiv> 18446744073709551615"
abbreviation U32_MAX :: nat where "U32_MAX \<equiv> 4294967295"
abbreviation I64_MAX :: int where "I64_MAX \<equiv> 9223372036854775807"
abbreviation I64_MIN :: int where "I64_MIN \<equiv> -9223372036854775808"

definition add_u64 :: "nat \<Rightarrow> nat \<Rightarrow> nat res" where
  "add_u64 a b = (if a + b \<le> U64_MAX then Ok (a + b) else Panic)"

definition sat_add :: "nat \<Rightarrow> nat \<Rightarrow> nat \<Rightarrow> nat" where
  "sat_add mx a b = min mx (a + b)"

definition add_i64 :: "int \<Rightarrow> int \<Rightarrow> int res" where
  "add_i64 a b = (if I64_MIN \<le> a + b \<and> a + b \<le> I64_MAX then Ok (a + b) else Panic)"

definition sub_i64 :: "int \<Rightarrow> int \<Rightarrow> int res" where
  "sub_i64 a b = (if I64_MIN \<le> a - b \<and> a - b \<le> I64_MAX then Ok (a - b) else Panic)"

lemma add_u64_eq_Ok [simp]: "add_u64 a b = Ok c \<longleftrightarrow> c = a + b \<and> a + b \<le> U64_MAX"
  by (auto simp: add_u64_def)

lemma add_i64_eq_Ok [simp]: "add_i64 a b = Ok c \<longleftrightarrow> c = a + b \<and> I64_MIN \<le> a + b \<and> a + b \<le> I64_MAX"
  by (auto simp: add_i64_def)

text \<open>\<open>&data[a..b]\<close>: the slice, or a panic when it is out of range.\<close>

definition slice :: "nat \<Rightarrow> nat \<Rightarrow> 'a list \<Rightarrow> 'a list res" where
  "slice a b xs = (if a \<le> b \<and> b \<le> length xs then Ok (take (b - a) (drop a xs)) else Panic)"

lemma slice_eq_Ok [simp]:
  "slice a b xs = Ok ys \<longleftrightarrow> a \<le> b \<and> b \<le> length xs \<and> ys = take (b - a) (drop a xs)"
  by (auto simp: slice_def)

text \<open>\<open>str::strip_prefix\<close> and \<open>u8::is_ascii_hexdigit\<close>.\<close>

definition strip_prefix :: "string \<Rightarrow> string \<Rightarrow> string option" where
  "strip_prefix p s = (if take (length p) s = p then Some (drop (length p) s) else None)"

definition is_ascii_hexdigit :: "byte \<Rightarrow> bool" where
  "is_ascii_hexdigit b \<longleftrightarrow> (48 \<le> b \<and> b \<le> 57) \<or> (65 \<le> b \<and> b \<le> 70) \<or> (97 \<le> b \<and> b \<le> 102)"

lemma strip_prefix_append [simp]: "strip_prefix p (p @ s) = Some s"
  by (simp add: strip_prefix_def)

subsection \<open>Decimal numbers\<close>

text \<open>\<open>to_string\<close> of an integer, and \<open>str::parse\<close>: an optional sign, at least one digit, a checked range.\<close>

definition digit_char :: "nat \<Rightarrow> char" where
  "digit_char d = char_of (48 + d)"

fun show_nat :: "nat \<Rightarrow> string" where
  "show_nat n = (if n < 10 then [digit_char n] else show_nat (n div 10) @ [digit_char (n mod 10)])"

declare show_nat.simps [simp del]

definition show_int :: "int \<Rightarrow> string" where
  "show_int i = (if i < 0 then CHR ''-'' # show_nat (nat (- i)) else show_nat (nat i))"

definition digit_val :: "char \<Rightarrow> nat option" where
  "digit_val c = (if 48 \<le> (of_char c :: nat) \<and> (of_char c :: nat) \<le> 57 then Some (of_char c - 48) else None)"

fun parse_digits :: "nat \<Rightarrow> string \<Rightarrow> nat option" where
  "parse_digits acc [] = Some acc"
| "parse_digits acc (c # cs) = (case digit_val c of None \<Rightarrow> None | Some d \<Rightarrow> parse_digits (acc * 10 + d) cs)"

definition parse_nat :: "string \<Rightarrow> nat option" where
  "parse_nat s = (if s = [] then None else parse_digits 0 s)"

definition parse_i64 :: "string \<Rightarrow> int option" where
  "parse_i64 s =
     (case s of
        [] \<Rightarrow> None
      | c # cs \<Rightarrow>
          if c = CHR ''-'' then
            (case parse_nat cs of Some n \<Rightarrow> (if - int n \<ge> I64_MIN then Some (- int n) else None) | None \<Rightarrow> None)
          else
            (case parse_nat (if c = CHR ''+'' then cs else s) of
               Some n \<Rightarrow> (if int n \<le> I64_MAX then Some (int n) else None) | None \<Rightarrow> None))"

definition parse_u8 :: "string \<Rightarrow> byte option" where
  "parse_u8 s =
     (case parse_nat (case s of c # cs \<Rightarrow> (if c = CHR ''+'' then cs else s) | [] \<Rightarrow> []) of
        Some n \<Rightarrow> (if n \<le> 255 then Some (word_of_nat n) else None) | None \<Rightarrow> None)"

lemma digit_val_digit_char [simp]: "d < 10 \<Longrightarrow> digit_val (digit_char d) = Some d"
  by (simp add: digit_val_def digit_char_def)

lemma parse_digits_append:
  "parse_digits acc (xs @ ys) = (case parse_digits acc xs of None \<Rightarrow> None | Some a \<Rightarrow> parse_digits a ys)"
  by (induction xs arbitrary: acc) (auto split: option.split)

lemma parse_show_nat: "parse_digits 0 (show_nat n) = Some n"
proof (induction n rule: show_nat.induct)
  case (1 n)
  then show ?case
    by (cases "n < 10") (simp_all add: show_nat.simps [of n] parse_digits_append)
qed

lemma show_nat_hd: "\<exists>d cs. show_nat n = digit_char d # cs \<and> d < 10"
proof (induction n rule: show_nat.induct)
  case (1 n)
  then show ?case by (cases "n < 10") (fastforce simp: show_nat.simps [of n])+
qed

lemma digit_char_sign: "d < 10 \<Longrightarrow> digit_char d \<noteq> CHR ''-'' \<and> digit_char d \<noteq> CHR ''+''"
proof -
  assume "d < 10"
  then have "of_char (digit_char d) = 48 + d" by (simp add: digit_char_def)
  then show ?thesis by auto
qed

lemma parse_nat_show: "parse_nat (show_nat n) = Some n"
  using show_nat_hd [of n] by (auto simp: parse_nat_def parse_show_nat)

lemma parse_i64_show_int: "I64_MIN \<le> i \<Longrightarrow> i \<le> I64_MAX \<Longrightarrow> parse_i64 (show_int i) = Some i"
proof (cases "i < 0")
  case True
  assume "I64_MIN \<le> i"
  with True show ?thesis by (simp add: parse_i64_def show_int_def parse_nat_show)
next
  case False
  assume "i \<le> I64_MAX"
  moreover obtain d cs where "show_nat (nat i) = digit_char d # cs" "d < 10" using show_nat_hd by blast
  ultimately show ?thesis
    using False digit_char_sign [of d] parse_nat_show [of "nat i"] by (simp add: parse_i64_def show_int_def)
qed

lemma unat_byte_le: "unat (b::byte) \<le> 255"
proof -
  have "unat b < 256" using unsigned_less [of b] by simp
  then show ?thesis by simp
qed

lemma parse_u8_show: "parse_u8 (show_nat (unat b)) = Some b"
proof -
  obtain d cs where "show_nat (unat b) = digit_char d # cs" "d < 10" using show_nat_hd by blast
  moreover note unat_byte_le [of b]
  ultimately show ?thesis
    using digit_char_sign [of d] parse_nat_show [of "unat b"] by (simp add: parse_u8_def)
qed

end
