(* ===== verification/Tables.thy ===== *)
theory Tables
  imports Prelude
begin

section \<open>Hash tables, hash sets and capped queues\<close>

text \<open>
  The containers of the standard library the components keep their state in, and the
  interfaces the components rely on.

  \<^item> \<open>HashMap\<close>: \<open>map_of\<close> looks up, \<open>hm_put\<close> inserts or overwrites, \<open>hm_del\<close> removes,
    \<open>hm_retain\<close> filters, \<open>length\<close> counts. \<open>HashSet\<close>: \<open>hs_insert\<close>, \<open>hs_remove\<close>.
  \<^item> locale \<open>table\<close>: what a client may assume of a table (lookup after update, size, the
    invariant); its lemmas give the cap arguments of the routing table, the link table and the
    session store.
  \<^item> locale \<open>safe_machine\<close>: a component as its initial states and its steps, with an invariant every
    step keeps; the invariant then holds in every reachable state.
  \<^item> locale \<open>fifo\<close>: a bounded queue that drops its oldest element, as the deduplication and
    delivery queues of the mesh node do.
\<close>

type_synonym ('k, 'v) hmap = "('k \<times> 'v) list"

primrec hm_put :: "'k \<Rightarrow> 'v \<Rightarrow> ('k, 'v) hmap \<Rightarrow> ('k, 'v) hmap" where
  "hm_put k v [] = [(k, v)]"
| "hm_put k v (p # m) = (if fst p = k then (k, v) # m else p # hm_put k v m)"

definition hm_del :: "'k \<Rightarrow> ('k, 'v) hmap \<Rightarrow> ('k, 'v) hmap" where
  "hm_del k m = filter (\<lambda>p. fst p \<noteq> k) m"

definition hm_retain :: "('k \<Rightarrow> 'v \<Rightarrow> bool) \<Rightarrow> ('k, 'v) hmap \<Rightarrow> ('k, 'v) hmap" where
  "hm_retain P m = filter (\<lambda>(k, v). P k v) m"

definition hm_has :: "'k \<Rightarrow> ('k, 'v) hmap \<Rightarrow> bool" where
  "hm_has k m \<longleftrightarrow> k \<in> set (map fst m)"

definition hm_wf :: "('k, 'v) hmap \<Rightarrow> bool" where
  "hm_wf m \<longleftrightarrow> distinct (map fst m)"

definition hs_insert :: "'a \<Rightarrow> 'a list \<Rightarrow> 'a list" where
  "hs_insert x xs = (if x \<in> set xs then xs else xs @ [x])"

definition hs_remove :: "'a \<Rightarrow> 'a list \<Rightarrow> 'a list" where
  "hs_remove x xs = filter (\<lambda>y. y \<noteq> x) xs"

lemma map_of_hm_put [simp]: "map_of (hm_put k v m) = (map_of m)(k \<mapsto> v)"
  by (induction m) (auto simp: fun_eq_iff)

lemma map_of_hm_del [simp]: "map_of (hm_del k m) = (map_of m)(k := None)"
  by (induction m) (auto simp: hm_del_def fun_eq_iff)

lemma keys_hm_put [simp]: "set (map fst (hm_put k v m)) = insert k (set (map fst m))"
  by (induction m) auto

lemma fst_set_hm_put [simp]: "fst ` set (hm_put k v m) = insert k (fst ` set m)"
  using keys_hm_put [of k v m] by simp

lemma hm_has_iff: "hm_has k m \<longleftrightarrow> map_of m k \<noteq> None"
  by (simp add: hm_has_def map_of_eq_None_iff)

lemma hm_wf_put [simp]: "hm_wf m \<Longrightarrow> hm_wf (hm_put k v m)"
  by (induction m) (auto simp: hm_wf_def)

lemma hm_wf_del [simp]: "hm_wf m \<Longrightarrow> hm_wf (hm_del k m)"
  by (auto simp: hm_wf_def hm_del_def distinct_map_filter)

lemma hm_wf_retain [simp]: "hm_wf m \<Longrightarrow> hm_wf (hm_retain P m)"
  by (auto simp: hm_wf_def hm_retain_def distinct_map_filter)

lemma hm_wf_Nil [simp]: "hm_wf []"
  by (simp add: hm_wf_def)

lemma length_hm_put [simp]:
  "length (hm_put k v m) = (if map_of m k = None then Suc (length m) else length m)"
  by (induction m) auto

lemma length_hm_del: "length (hm_del k m) \<le> length m"
  by (simp add: hm_del_def)

lemma length_hm_retain: "length (hm_retain P m) \<le> length m"
  by (simp add: hm_retain_def)

lemma map_of_filter_wf:
  "hm_wf m \<Longrightarrow> map_of (filter (\<lambda>(k, v). P k v) m) k
     = (case map_of m k of None \<Rightarrow> None | Some v \<Rightarrow> if P k v then Some v else None)"
  by (induction m) (fastforce simp: hm_wf_def map_of_eq_None_iff split: option.splits)+

lemma map_of_hm_retain:
  "hm_wf m \<Longrightarrow> map_of (hm_retain P m) k
     = (case map_of m k of None \<Rightarrow> None | Some v \<Rightarrow> if P k v then Some v else None)"
  by (simp add: hm_retain_def map_of_filter_wf)

lemma set_hm_put: "hm_wf m \<Longrightarrow> set (hm_put k v m) = insert (k, v) {p \<in> set m. fst p \<noteq> k}"
  by (induction m) (auto simp: hm_wf_def intro: rev_image_eqI)

lemma set_hm_del: "set (hm_del k m) = {p \<in> set m. fst p \<noteq> k}"
  by (auto simp: hm_del_def)

lemma set_hm_retain: "set (hm_retain P m) = {p \<in> set m. P (fst p) (snd p)}"
  by (auto simp: hm_retain_def)

lemma set_hs_insert [simp]: "set (hs_insert x xs) = insert x (set xs)"
  by (auto simp: hs_insert_def)

lemma set_hs_remove [simp]: "set (hs_remove x xs) = set xs - {x}"
  by (auto simp: hs_remove_def)

lemma distinct_hs_insert [simp]: "distinct (hs_insert x xs) = distinct xs"
  by (auto simp: hs_insert_def)

lemma distinct_hs_remove [simp]: "distinct xs \<Longrightarrow> distinct (hs_remove x xs)"
  by (simp add: hs_remove_def)

lemma length_hs_insert: "length (hs_insert x xs) \<le> Suc (length xs)"
  by (simp add: hs_insert_def)

lemma length_hs_remove: "length (hs_remove x xs) \<le> length xs"
  by (simp add: hs_remove_def)

subsection \<open>The table interface\<close>

locale table =
  fixes look :: "'m \<Rightarrow> 'k \<Rightarrow> 'v option"
    and put :: "'k \<Rightarrow> 'v \<Rightarrow> 'm \<Rightarrow> 'm"
    and del :: "'k \<Rightarrow> 'm \<Rightarrow> 'm"
    and keep :: "('k \<Rightarrow> 'v \<Rightarrow> bool) \<Rightarrow> 'm \<Rightarrow> 'm"
    and size_of :: "'m \<Rightarrow> nat"
    and wf :: "'m \<Rightarrow> bool"
  assumes look_put: "wf m \<Longrightarrow> look (put k v m) = (look m)(k \<mapsto> v)"
    and look_del: "wf m \<Longrightarrow> look (del k m) = (look m)(k := None)"
    and look_keep: "wf m \<Longrightarrow> look (keep P m) k
          = (case look m k of None \<Rightarrow> None | Some v \<Rightarrow> if P k v then Some v else None)"
    and size_put: "wf m \<Longrightarrow> size_of (put k v m) = (if look m k = None then Suc (size_of m) else size_of m)"
    and size_del: "wf m \<Longrightarrow> size_of (del k m) \<le> size_of m"
    and size_keep: "wf m \<Longrightarrow> size_of (keep P m) \<le> size_of m"
    and wf_put: "wf m \<Longrightarrow> wf (put k v m)"
    and wf_del: "wf m \<Longrightarrow> wf (del k m)"
    and wf_keep: "wf m \<Longrightarrow> wf (keep P m)"
begin

text \<open>The cap discipline: overwriting, or inserting below the cap, keeps the cap.\<close>

lemma put_within_cap:
  "wf m \<Longrightarrow> size_of m \<le> cap \<Longrightarrow> look m k \<noteq> None \<or> size_of m < cap \<Longrightarrow> size_of (put k v m) \<le> cap"
  by (auto simp: size_put)

lemma del_within_cap: "wf m \<Longrightarrow> size_of m \<le> cap \<Longrightarrow> size_of (del k m) \<le> cap"
  using size_del [of m k] by linarith

lemma keep_within_cap: "wf m \<Longrightarrow> size_of m \<le> cap \<Longrightarrow> size_of (keep P m) \<le> cap"
  using size_keep [of m P] by linarith

text \<open>A predicate of all entries survives a write of an entry that satisfies it.\<close>

lemma put_all_entries:
  assumes "wf m" "\<forall>k v. look m k = Some v \<longrightarrow> Q k v" "Q k0 v0"
  shows "\<forall>k v. look (put k0 v0 m) k = Some v \<longrightarrow> Q k v"
  using assms by (auto simp: look_put split: if_splits)

lemma del_all_entries:
  assumes "wf m" "\<forall>k v. look m k = Some v \<longrightarrow> Q k v"
  shows "\<forall>k v. look (del k0 m) k = Some v \<longrightarrow> Q k v"
  using assms by (auto simp: look_del split: if_splits)

lemma keep_all_entries:
  assumes "wf m" "\<forall>k v. look m k = Some v \<longrightarrow> Q k v"
  shows "\<forall>k v. look (keep P m) k = Some v \<longrightarrow> Q k v"
  using assms by (auto simp: look_keep split: option.splits if_splits)

end

interpretation hm: table "\<lambda>m. map_of m" hm_put hm_del hm_retain length hm_wf
  by unfold_locales (auto simp: map_of_hm_retain length_hm_del length_hm_retain)

subsection \<open>Components as machines\<close>

locale safe_machine =
  fixes init :: "'s \<Rightarrow> bool"
    and step :: "'s \<Rightarrow> 's \<Rightarrow> bool"
    and inv :: "'s \<Rightarrow> bool"
  assumes init_inv: "init s \<Longrightarrow> inv s"
    and step_inv: "inv s \<Longrightarrow> step s s' \<Longrightarrow> inv s'"
begin

lemma steps_inv: "step\<^sup>*\<^sup>* s s' \<Longrightarrow> inv s \<Longrightarrow> inv s'"
  by (induction rule: rtranclp_induct) (auto intro: step_inv)

lemma reachable_inv: "init s \<Longrightarrow> step\<^sup>*\<^sup>* s s' \<Longrightarrow> inv s'"
  using steps_inv init_inv by blast

end

subsection \<open>Bounded queues\<close>

text \<open>\<open>if q.len() >= cap \<lbrace> q.pop_front(); \<rbrace> q.push_back(x)\<close>\<close>

definition push_capped :: "nat \<Rightarrow> 'a \<Rightarrow> 'a list \<Rightarrow> 'a list" where
  "push_capped cap x q = (if length q \<ge> cap then tl q else q) @ [x]"

locale fifo =
  fixes push :: "'a \<Rightarrow> 'q \<Rightarrow> 'q"
    and items :: "'q \<Rightarrow> 'a list"
    and cap :: nat
  assumes cap_pos: "0 < cap"
    and items_push: "items (push x q) = (if cap \<le> length (items q) then tl (items q) else items q) @ [x]"
begin

lemma push_bound: "length (items q) \<le> cap \<Longrightarrow> length (items (push x q)) \<le> cap"
  using cap_pos by (auto simp: items_push)

lemma push_member: "x \<in> set (items (push x q))"
  by (simp add: items_push)

lemma push_subset: "set (items (push x q)) \<subseteq> insert x (set (items q))"
  by (cases "items q") (auto simp: items_push)

lemma fold_push_items:
  "length (items q) + length xs \<le> cap \<Longrightarrow> items (fold push xs q) = items q @ xs"
proof (induction xs arbitrary: q)
  case Nil
  then show ?case by simp
next
  case (Cons x xs)
  then have "items (push x q) = items q @ [x]" by (simp add: items_push)
  with Cons show ?case by simp
qed

end

lemma length_push_capped: "0 < cap \<Longrightarrow> length q \<le> cap \<Longrightarrow> length (push_capped cap x q) \<le> cap"
  by (auto simp: push_capped_def)


subsection \<open>Tables of the database\<close>

text \<open>\<open>UPDATE ... WHERE key = k\<close>\<close>

definition update_row :: "'k \<Rightarrow> ('v \<Rightarrow> 'v) \<Rightarrow> ('k, 'v) hmap \<Rightarrow> ('k, 'v) hmap" where
  "update_row k f m = map (\<lambda>(k', v). (k', if k' = k then f v else v)) m"

lemma map_of_update_row: "map_of (update_row k f m) x = (if x = k then map_option f (map_of m x) else map_of m x)"
  by (induction m) (auto simp: update_row_def)

lemma update_row_twice: "(\<And>v. f (f v) = f v) \<Longrightarrow> update_row k f (update_row k f m) = update_row k f m"
  by (induction m) (auto simp: update_row_def)

lemma keys_update_row [simp]: "map fst (update_row k f m) = map fst m"
  by (induction m) (auto simp: update_row_def)

subsection \<open>Ordered maps\<close>

text \<open>A \<open>BTreeMap\<close> is the list of its entries in ascending order of the keys.\<close>

text \<open>\<open>BTreeMap::insert\<close>\<close>

fun bt_insert :: "nat \<Rightarrow> 'v \<Rightarrow> (nat \<times> 'v) list \<Rightarrow> (nat \<times> 'v) list" where
  "bt_insert k v [] = [(k, v)]"
| "bt_insert k v ((k', v') # m) =
     (if k < k' then (k, v) # (k', v') # m else if k = k' then (k, v) # m else (k', v') # bt_insert k v m)"

lemma map_of_bt_insert [simp]: "map_of (bt_insert k v m) = (map_of m)(k \<mapsto> v)"
  by (induction k v m rule: bt_insert.induct) (auto simp: fun_eq_iff)

lemma set_bt_insert: "set (bt_insert k v m) \<subseteq> insert (k, v) (set m)"
  by (induction k v m rule: bt_insert.induct) auto

lemma keys_bt_insert [simp]: "fst ` set (bt_insert k v m) = insert k (fst ` set m)"
  by (induction k v m rule: bt_insert.induct) auto

lemma sorted_bt_insert: "sorted_wrt (<) (map fst m) \<Longrightarrow> sorted_wrt (<) (map fst (bt_insert k v m))"
proof (induction k v m rule: bt_insert.induct)
  case (2 k v k' v' m)
  have "set (map fst (bt_insert k v m)) = insert k (fst ` set m)" by simp
  then show ?case using 2 by auto
qed simp

end
