(* ===== verification/Nip44.thy ===== *)
theory Nip44
  imports Tables
begin

section \<open>NIP-44 payload encryption (crypto-core/src/nip44.rs)\<close>

text \<open>
  Padding, key derivation, the conversation-key cache, the v2 cipher and the legacy decoder.
  The primitives of third-party crates are the fields of the record \<open>prims\<close>; \<open>nip44_prims_ok\<close>
  states what the code relies on (documented behaviour: HMAC-SHA256 has 32 bytes, the ChaCha20
  keystream is its own inverse and keeps the length, base64 decodes what it encodes).
  A random draw of the code (\<open>getrandom::fill\<close>) is an argument, \<open>None\<close> when it fails.

  \<open>nip44_encrypt\<close> and \<open>nip44_decrypt\<close> thread the process-wide cache; \<open>nip44_seal\<close> and \<open>nip44_open\<close>
  are the same functions at a given conversation key. Shown here: \<open>unpad\<close> inverts \<open>pad\<close> and its in-place
  variant agrees with it; the padded size; the cache is invisible and bounded; decryption inverts
  encryption; a payload of the v2 shape never reaches the legacy path.
\<close>

subsection \<open>Primitives\<close>

text \<open>
  A streaming inflater is its fed input: \<open>p_inflate_write fed\<close> is the outcome of the write that
  completed \<open>fed\<close>, \<open>p_inflate_out fed\<close> the output so far, \<open>p_inflate_finish fed\<close> the result of
  \<open>finish\<close>. \<open>p_json_value\<close> is \<open>serde_json::from_slice\<close> followed by the conversion to bytes.
\<close>

datatype write_status = WriteOk | WriteZero | WriteError

record prims =
  p_sha256 :: "byte list \<Rightarrow> byte list"
  p_hmac :: "byte list \<Rightarrow> byte list \<Rightarrow> byte list"
  p_hkdf :: "byte list \<Rightarrow> byte list \<Rightarrow> byte list \<Rightarrow> nat \<Rightarrow> byte list option"
  p_chacha20 :: "byte list \<Rightarrow> byte list \<Rightarrow> byte list \<Rightarrow> byte list"
  p_aead_encrypt :: "byte list \<Rightarrow> byte list \<Rightarrow> byte list \<Rightarrow> byte list \<Rightarrow> byte list option"
  p_aead_decrypt :: "byte list \<Rightarrow> byte list \<Rightarrow> byte list \<Rightarrow> byte list \<Rightarrow> byte list option"
  p_base64_encode :: "byte list \<Rightarrow> string"
  p_base64_decode :: "string \<Rightarrow> byte list option"
  p_hex_encode :: "byte list \<Rightarrow> string"
  p_hex_decode :: "string \<Rightarrow> byte list option"
  p_deflate :: "byte list \<Rightarrow> byte list"
  p_inflate_write :: "byte list \<Rightarrow> write_status"
  p_inflate_out :: "byte list \<Rightarrow> byte list"
  p_inflate_finish :: "byte list \<Rightarrow> byte list option"
  p_zstd_encode :: "byte list \<Rightarrow> byte list option"
  p_zstd_read :: "nat \<Rightarrow> byte list \<Rightarrow> byte list option"
  p_json_value :: "byte list \<Rightarrow> byte list option"
  p_x25519_public :: "byte list \<Rightarrow> byte list"
  p_x25519_dh :: "byte list \<Rightarrow> byte list \<Rightarrow> byte list"
  p_mlkem_public :: "byte list \<Rightarrow> byte list"
  p_mlkem_encap :: "nat \<Rightarrow> byte list \<Rightarrow> (byte list \<times> byte list) option"
  p_mlkem_decap :: "byte list \<Rightarrow> byte list \<Rightarrow> byte list"

definition nip44_prims_ok :: "prims \<Rightarrow> bool" where
  "nip44_prims_ok P \<longleftrightarrow>
     (\<forall>k d. length (p_hmac P k d) = 32)
   \<and> (\<forall>k n d. length (p_chacha20 P k n d) = length d)
   \<and> (\<forall>k n d. p_chacha20 P k n (p_chacha20 P k n d) = d)
   \<and> (\<forall>d. p_base64_decode P (p_base64_encode P d) = Some d)"

subsection \<open>Constants and padding\<close>

definition NIP44_INFO :: "byte list" where
  "NIP44_INFO = bytes_of ''nip44-v2''"

abbreviation SALT_LEN :: nat where "SALT_LEN \<equiv> 32"
abbreviation KEY_LEN :: nat where "KEY_LEN \<equiv> 32"
abbreviation NONCE_LEN :: nat where "NONCE_LEN \<equiv> 12"
abbreviation VERSION_LEN :: nat where "VERSION_LEN \<equiv> 1"
abbreviation DERIVED_LEN :: nat where "DERIVED_LEN \<equiv> 76"
abbreviation VERSION_LEGACY :: byte where "VERSION_LEGACY \<equiv> 1"
abbreviation VERSION_PADDED :: byte where "VERSION_PADDED \<equiv> 2"
abbreviation EXTENDED_PREFIX_THRESHOLD :: nat where "EXTENDED_PREFIX_THRESHOLD \<equiv> 65536"
abbreviation PREFIX_LEN_SMALL :: nat where "PREFIX_LEN_SMALL \<equiv> 2"
abbreviation PREFIX_LEN_EXTENDED :: nat where "PREFIX_LEN_EXTENDED \<equiv> 6"

text \<open>\<open>BITS - 1 - leading_zeros\<close> of a positive number: the position of its top bit.\<close>

fun log2_round_down :: "nat \<Rightarrow> nat" where
  "log2_round_down n = (if n < 2 then 0 else Suc (log2_round_down (n div 2)))"

declare log2_round_down.simps [simp del]

definition calc_padding :: "nat \<Rightarrow> nat" where
  "calc_padding len =
     (if len \<le> 32 then 32
      else let next_power = 2 ^ (log2_round_down (len - 1) + 1);
               chunk = (if next_power \<le> 256 then 32 else next_power div 8)
           in chunk * ((len - 1) div chunk + 1))"

definition encode_prefix :: "nat \<Rightarrow> byte list" where
  "encode_prefix len =
     (if len \<ge> EXTENDED_PREFIX_THRESHOLD then [0, 0] @ be_bytes 4 len else be_bytes 2 len)"

definition decode_prefix :: "byte list \<Rightarrow> (nat \<times> nat) res" where
  "decode_prefix padded =
     (if length padded < 2 then Err ''padded payload too short''
      else let first_two = be_val (take 2 padded) in
        if first_two = 0 then
          (if length padded < PREFIX_LEN_EXTENDED then Err ''padded payload too short''
           else let len = be_val (take 4 (drop 2 padded)) in
             if len < EXTENDED_PREFIX_THRESHOLD then Err ''invalid extended padding length''
             else Ok (len, PREFIX_LEN_EXTENDED))
        else Ok (first_two, PREFIX_LEN_SMALL))"

definition padded_body :: "byte list \<Rightarrow> byte list" where
  "padded_body plaintext =
     encode_prefix (length plaintext) @ plaintext
       @ replicate (calc_padding (length plaintext) - length plaintext) 0"

definition pad :: "byte list \<Rightarrow> byte list res" where
  "pad plaintext = (if plaintext = [] then Err ''empty plaintext'' else Ok (padded_body plaintext))"

definition unpad :: "byte list \<Rightarrow> byte list res" where
  "unpad padded =
     (if length padded < PREFIX_LEN_SMALL + 32 then Err ''padded payload too short''
      else and_then (decode_prefix padded) (\<lambda>(unpadded_len, prefix_len).
        if unpadded_len = 0 then Err ''empty plaintext''
        else if length padded \<noteq> prefix_len + calc_padding unpadded_len then Err ''invalid padding''
        else slice prefix_len (prefix_len + unpadded_len) padded))"

definition unpad_in_place :: "byte list \<Rightarrow> byte list res" where
  "unpad_in_place padded =
     (if length padded < PREFIX_LEN_SMALL + 32 then Err ''padded payload too short''
      else and_then (decode_prefix padded) (\<lambda>(unpadded_len, prefix_len).
        if unpadded_len = 0 then Err ''empty plaintext''
        else if length padded \<noteq> prefix_len + calc_padding unpadded_len then Err ''invalid padding''
        else Ok (take unpadded_len (drop prefix_len padded))))"

subsection \<open>Key derivation and the conversation-key cache\<close>

definition spec_derive_keys :: "prims \<Rightarrow> byte list \<Rightarrow> byte list \<Rightarrow> byte list \<times> byte list \<times> byte list" where
  "spec_derive_keys P ck nonce =
     (let t1 = p_hmac P ck (nonce @ [1]);
          t2 = p_hmac P ck (t1 @ nonce @ [2]);
          t3 = p_hmac P ck (t2 @ nonce @ [3])
      in (t1, take NONCE_LEN t2, drop NONCE_LEN t2 @ take NONCE_LEN t3))"

record ck_cache =
  ck_map :: "(byte list, byte list) hmap"
  ck_queue :: "byte list list"

definition derive_conversation_key ::
  "prims \<Rightarrow> byte list \<Rightarrow> ck_cache option \<Rightarrow> byte list \<times> ck_cache option" where
  "derive_conversation_key P key guard =
     (case (case guard of None \<Rightarrow> None | Some cache \<Rightarrow> map_of (ck_map cache) key) of
        Some ck \<Rightarrow> (ck, guard)
      | None \<Rightarrow>
          let ck = p_hmac P NIP44_INFO key;
              cache = (case guard of None \<Rightarrow> \<lparr>ck_map = [], ck_queue = []\<rparr> | Some c \<Rightarrow> c);
              cache1 = (if length (ck_map cache) \<ge> 128 then
                          (case ck_queue cache of
                             [] \<Rightarrow> cache
                           | oldest # q \<Rightarrow> \<lparr>ck_map = hm_del oldest (ck_map cache), ck_queue = q\<rparr>)
                        else cache)
          in (ck, Some \<lparr>ck_map = hm_put key ck (ck_map cache1), ck_queue = ck_queue cache1 @ [key]\<rparr>))"

definition clear_conversation_key_cache :: "ck_cache option \<Rightarrow> ck_cache option" where
  "clear_conversation_key_cache guard = None"

subsection \<open>The v2 cipher\<close>

definition nip44_payload :: "prims \<Rightarrow> byte list \<Rightarrow> byte list \<Rightarrow> byte list \<Rightarrow> byte list" where
  "nip44_payload P ck nonce plaintext =
     (case spec_derive_keys P ck nonce of (enc_key, nonce12, auth_key) \<Rightarrow>
        let body = p_chacha20 P enc_key nonce12 (padded_body plaintext);
            mac = p_hmac P auth_key (nonce @ body)
        in [VERSION_PADDED] @ nonce @ body @ mac)"

definition nip44_seal :: "prims \<Rightarrow> byte list option \<Rightarrow> byte list \<Rightarrow> byte list \<Rightarrow> string res" where
  "nip44_seal P rng plaintext ck =
     (if plaintext = [] then Err ''empty plaintext''
      else case rng of
        None \<Rightarrow> Err ''rng failed''
      | Some nonce \<Rightarrow> Ok (p_base64_encode P (nip44_payload P ck nonce plaintext)))"

definition nip44_encrypt ::
  "prims \<Rightarrow> byte list option \<Rightarrow> byte list \<Rightarrow> byte list \<Rightarrow> ck_cache option \<Rightarrow> string res \<times> ck_cache option" where
  "nip44_encrypt P rng plaintext key guard =
     (if plaintext = [] then (Err ''empty plaintext'', guard)
      else case rng of
        None \<Rightarrow> (Err ''rng failed'', guard)
      | Some nonce \<Rightarrow>
          (case derive_conversation_key P key guard of
             (ck, guard') \<Rightarrow> (Ok (p_base64_encode P (nip44_payload P ck nonce plaintext)), guard')))"

text \<open>The two length layouts of a v2 blob: \<open>67 + 32k\<close> and \<open>71 + 32k\<close>.\<close>

definition is_spec_shape :: "byte list \<Rightarrow> bool" where
  "is_spec_shape decoded \<longleftrightarrow>
     (length decoded \<ge> 67 + 32 \<and> (length decoded - 67) mod 32 = 0)
   \<or> (length decoded \<ge> 65607 \<and> (length decoded - 71) mod 32 = 0)"

definition decrypt_spec :: "prims \<Rightarrow> byte list \<Rightarrow> byte list \<Rightarrow> byte list res" where
  "decrypt_spec P decoded ck =
     (if decoded = [] then Panic
      else if decoded ! 0 \<noteq> VERSION_PADDED then Err ''unsupported payload version''
      else if length decoded < VERSION_LEN + SALT_LEN + 2 + 32 + 32 then Err ''payload too short''
      else let nonce = take SALT_LEN (drop VERSION_LEN decoded);
               buffer = take (length decoded - 32 - (VERSION_LEN + SALT_LEN)) (drop (VERSION_LEN + SALT_LEN) decoded);
               mac = drop (length decoded - 32) decoded
           in case spec_derive_keys P ck nonce of (enc_key, nonce12, auth_key) \<Rightarrow>
             if p_hmac P auth_key (nonce @ buffer) \<noteq> mac then Err ''decrypt failed''
             else unpad_in_place (p_chacha20 P enc_key nonce12 buffer))"

subsection \<open>The legacy cipher\<close>

definition legacy_keys :: "prims \<Rightarrow> byte list \<Rightarrow> byte list \<Rightarrow> (byte list \<times> byte list \<times> byte list) res" where
  "legacy_keys P key salt =
     map_err ''hkdf failed'' (and_then (ok_or ''hkdf'' (p_hkdf P key salt NIP44_INFO DERIVED_LEN)) (\<lambda>derived.
       Ok (take KEY_LEN derived, take KEY_LEN (drop KEY_LEN derived), drop (2 * KEY_LEN) derived)))"

definition encrypt_padded :: "prims \<Rightarrow> byte list option \<Rightarrow> byte list \<Rightarrow> byte list \<Rightarrow> byte list res" where
  "encrypt_padded P rng plaintext key =
     and_then (ok_or ''rng failed'' rng) (\<lambda>salt.
     and_then (legacy_keys P key salt) (\<lambda>(enc_key, auth_key, nonce).
     and_then (ok_or ''encrypt failed'' (p_aead_encrypt P enc_key nonce (NIP44_INFO @ auth_key) plaintext)) (\<lambda>ct.
     Ok (salt @ [VERSION_LEGACY] @ ct))))"

definition decrypt_legacy :: "prims \<Rightarrow> byte list \<Rightarrow> byte list \<Rightarrow> byte list res" where
  "decrypt_legacy P decoded key =
     (if length decoded \<le> SALT_LEN then Err ''payload too short''
      else let salt = take SALT_LEN decoded;
               tagb = decoded ! SALT_LEN;
               tagged = (tagb = VERSION_LEGACY \<or> tagb = VERSION_PADDED);
               version = (if tagged then tagb else VERSION_LEGACY);
               encrypted = (if tagged then drop (SALT_LEN + VERSION_LEN) decoded else drop SALT_LEN decoded)
           in and_then (legacy_keys P key salt) (\<lambda>(enc_key, auth_key, nonce).
             let aad = NIP44_INFO @ auth_key in
             and_then (case p_aead_decrypt P enc_key nonce aad encrypted of
                         Some pt \<Rightarrow> Ok (version, pt)
                       | None \<Rightarrow>
                           if tagged then
                             (case p_aead_decrypt P enc_key nonce aad (drop SALT_LEN decoded) of
                                Some pt \<Rightarrow> Ok (VERSION_LEGACY, pt)
                              | None \<Rightarrow> Err ''decrypt failed'')
                           else Err ''decrypt failed'') (\<lambda>(ver, plaintext).
             if ver = VERSION_LEGACY then Ok plaintext
             else if ver \<noteq> VERSION_PADDED then Err ''unsupported payload version''
             else unpad_in_place plaintext)))"

definition nip44_open :: "prims \<Rightarrow> string \<Rightarrow> byte list \<Rightarrow> byte list \<Rightarrow> byte list res" where
  "nip44_open P pl key ck =
     and_then (ok_or ''invalid base64'' (p_base64_decode P pl)) (\<lambda>decoded.
       if decoded = [] then Err ''empty payload''
       else if decoded ! 0 = VERSION_PADDED \<and> is_spec_shape decoded then decrypt_spec P decoded ck
       else decrypt_legacy P decoded key)"

text \<open>The code derives the conversation key inside \<open>decrypt_spec\<close>, after the length checks.\<close>

definition nip44_decrypt ::
  "prims \<Rightarrow> string \<Rightarrow> byte list \<Rightarrow> ck_cache option \<Rightarrow> byte list res \<times> ck_cache option" where
  "nip44_decrypt P pl key guard =
     (case p_base64_decode P pl of
        None \<Rightarrow> (Err ''invalid base64'', guard)
      | Some decoded \<Rightarrow>
          if decoded = [] then (Err ''empty payload'', guard)
          else if decoded ! 0 = VERSION_PADDED \<and> is_spec_shape decoded then
            (case derive_conversation_key P key guard of
               (ck, guard') \<Rightarrow> (decrypt_spec P decoded ck, guard'))
          else (decrypt_legacy P decoded key, guard))"

subsection \<open>Padding lemmas\<close>

lemma log2_round_down_bounds: "0 < n \<Longrightarrow> 2 ^ log2_round_down n \<le> n \<and> n < 2 ^ Suc (log2_round_down n)"
proof (induction n rule: log2_round_down.induct)
  case (1 n)
  show ?case
  proof (cases "n < 2")
    case True
    with 1 show ?thesis by (simp add: log2_round_down.simps [of n])
  next
    case False
    with 1 have "2 ^ log2_round_down (n div 2) \<le> n div 2 \<and> n div 2 < 2 ^ Suc (log2_round_down (n div 2))"
      by simp
    with False show ?thesis by (auto simp: log2_round_down.simps [of n])
  qed
qed

lemma log2_round_down_eq:
  assumes "2 ^ k \<le> n" "n < 2 ^ Suc k"
  shows "log2_round_down n = k"
proof (rule antisym)
  have "0 < n" using assms(1) by (rule order.strict_trans2 [rotated]) simp
  then have b: "2 ^ log2_round_down n \<le> n" "n < 2 ^ Suc (log2_round_down n)"
    using log2_round_down_bounds [of n] by simp_all
  have "(2::nat) ^ log2_round_down n < 2 ^ Suc k" using b(1) assms(2) by linarith
  then show "log2_round_down n \<le> k" by (simp only: power_strict_increasing_iff less_Suc_eq_le)
  have "(2::nat) ^ k < 2 ^ Suc (log2_round_down n)" using assms(1) b(2) by linarith
  then show "k \<le> log2_round_down n" by (simp only: power_strict_increasing_iff less_Suc_eq_le)
qed

definition pad_chunk :: "nat \<Rightarrow> nat" where
  "pad_chunk len = (let np = 2 ^ (log2_round_down (len - 1) + 1) in if np \<le> (256::nat) then 32 else np div 8)"

lemma calc_padding_chunk:
  "32 < len \<Longrightarrow> calc_padding len = pad_chunk len * ((len - 1) div pad_chunk len + 1)"
  by (simp add: calc_padding_def pad_chunk_def Let_def)

lemma pad_chunk_dvd: "32 dvd pad_chunk len"
proof (cases "(2::nat) ^ (log2_round_down (len - 1) + 1) \<le> 256")
  case True
  then show ?thesis by (simp add: pad_chunk_def Let_def)
next
  case False
  let ?k = "log2_round_down (len - 1)"
  have "?k \<ge> 8"
  proof (rule ccontr)
    assume "\<not> ?k \<ge> 8"
    then have "(2::nat) ^ (?k + 1) \<le> 2 ^ 8" by (intro power_increasing) auto
    with False show False by simp
  qed
  then obtain j where j: "?k + 1 = 3 + (5 + j)" using le_Suc_ex [of 8 ?k] by auto
  then have "(2::nat) ^ (?k + 1) div 8 = 2 ^ (5 + j)" by (simp add: power_add)
  with False j show ?thesis by (simp add: pad_chunk_def Let_def power_add)
qed

lemma pad_chunk_pos: "0 < pad_chunk len"
proof (cases "(2::nat) ^ (log2_round_down (len - 1) + 1) \<le> 256")
  case False
  then show ?thesis by (simp add: pad_chunk_def Let_def)
qed (simp add: pad_chunk_def Let_def)

lemma calc_padding_ge: "len \<le> calc_padding len"
proof (cases "len \<le> 32")
  case True
  then show ?thesis by (simp add: calc_padding_def)
next
  case False
  have "len - 1 < pad_chunk len * ((len - 1) div pad_chunk len + 1)"
    using pad_chunk_pos [of len] dividend_less_times_div [of "pad_chunk len" "len - 1"] by simp
  with False show ?thesis by (simp add: calc_padding_chunk)
qed

lemma calc_padding_mod: "calc_padding len mod 32 = 0"
proof (cases "len \<le> 32")
  case True
  then show ?thesis by (simp add: calc_padding_def)
next
  case False
  then have "32 dvd calc_padding len"
    by (simp only: calc_padding_chunk not_le dvd_mult2 [OF pad_chunk_dvd])
  then show ?thesis by (simp add: dvd_eq_mod_eq_0)
qed

lemma calc_padding_min: "32 \<le> calc_padding len"
  using calc_padding_ge [of len] by (cases "len \<le> 32") (auto simp: calc_padding_def)

lemma calc_padding_waste: "32 < len \<Longrightarrow> calc_padding len < len + pad_chunk len"
proof -
  assume len: "32 < len"
  have "pad_chunk len * ((len - 1) div pad_chunk len) < len"
    using times_div_less_eq_dividend [of "pad_chunk len" "len - 1"] len by linarith
  with len show ?thesis by (simp add: calc_padding_chunk algebra_simps)
qed

lemma pad_chunk_le: "32 < len \<Longrightarrow> pad_chunk len \<le> max 32 (len div 4)"
proof -
  assume len: "32 < len"
  then have "2 ^ log2_round_down (len - 1) \<le> len - 1"
    using log2_round_down_bounds [of "len - 1"] by simp
  then have "2 * 2 ^ log2_round_down (len - 1) div 8 \<le> len div 4" by simp
  then show ?thesis by (simp add: pad_chunk_def Let_def)
qed

lemma length_encode_prefix:
  "length (encode_prefix n) = (if n \<ge> EXTENDED_PREFIX_THRESHOLD then PREFIX_LEN_EXTENDED else PREFIX_LEN_SMALL)"
  by (simp add: encode_prefix_def)

lemma decode_encode_prefix:
  assumes "0 < n" "n < 2 ^ 32"
  shows "decode_prefix (encode_prefix n @ rest) = Ok (n, length (encode_prefix n))"
proof (cases "n \<ge> EXTENDED_PREFIX_THRESHOLD")
  case True
  with assms show ?thesis
    by (simp add: encode_prefix_def decode_prefix_def Let_def be_val_def [of "[0, 0]"])
next
  case False
  with assms show ?thesis
    by (simp add: encode_prefix_def decode_prefix_def Let_def)
qed

lemma length_padded_body: "length (padded_body pt) = length (encode_prefix (length pt)) + calc_padding (length pt)"
  using calc_padding_ge [of "length pt"] by (simp add: padded_body_def)

lemma padded_body_len_ge: "34 \<le> length (padded_body pt)"
  using calc_padding_min [of "length pt"] by (simp add: length_padded_body length_encode_prefix)

lemma unpad_padded_body:
  assumes "pt \<noteq> []" "length pt < 2 ^ 32"
  shows "unpad (padded_body pt) = Ok pt"
proof -
  have dec: "decode_prefix (padded_body pt) = Ok (length pt, length (encode_prefix (length pt)))"
    using assms decode_encode_prefix [of "length pt"] by (simp add: padded_body_def)
  have "length (encode_prefix (length pt)) + length pt \<le> length (padded_body pt)"
    using calc_padding_ge [of "length pt"] by (simp add: length_padded_body)
  then have "slice (length (encode_prefix (length pt))) (length (encode_prefix (length pt)) + length pt)
      (padded_body pt) = Ok pt"
    by (simp add: padded_body_def)
  with dec assms padded_body_len_ge [of pt] show ?thesis
    by (simp add: unpad_def length_padded_body)
qed

lemma unpad_in_place_eq: "unpad_in_place padded = unpad padded"
proof -
  have "prefix_len + n \<le> length padded"
    if "length padded = prefix_len + calc_padding n" for prefix_len n
    using that calc_padding_ge [of n] by simp
  then show ?thesis
    unfolding unpad_def unpad_in_place_def slice_def
    by (cases "decode_prefix padded") auto
qed

lemma decode_prefix_not_Panic: "decode_prefix x \<noteq> Panic"
  by (simp add: decode_prefix_def Let_def)

lemma unpad_in_place_not_Panic: "unpad_in_place x \<noteq> Panic"
  using decode_prefix_not_Panic [of x]
  by (cases "decode_prefix x") (auto simp: unpad_in_place_def split: if_splits)

lemma unpad_not_Panic: "unpad x \<noteq> Panic"
  using unpad_in_place_not_Panic [of x] by (simp add: unpad_in_place_eq)

subsection \<open>The cache is a memo\<close>

definition conversation_key :: "prims \<Rightarrow> byte list \<Rightarrow> byte list" where
  "conversation_key P key = p_hmac P NIP44_INFO key"

definition ck_cache_ok :: "prims \<Rightarrow> ck_cache option \<Rightarrow> bool" where
  "ck_cache_ok P guard \<longleftrightarrow>
     (case guard of None \<Rightarrow> True
      | Some c \<Rightarrow> hm_wf (ck_map c) \<and> length (ck_map c) \<le> 128
          \<and> (\<forall>k v. map_of (ck_map c) k = Some v \<longrightarrow> v = conversation_key P k)
          \<and> set (ck_queue c) = fst ` set (ck_map c) \<and> distinct (ck_queue c))"

lemma fst_hm_del: "fst ` set (hm_del k m) = fst ` set m - {k}"
  by (auto simp: set_hm_del)

lemma length_hm_del_present: "k \<in> fst ` set m \<Longrightarrow> length (hm_del k m) < length m"
  unfolding hm_del_def by (auto intro: length_filter_less)

lemma ck_cache_ok_insert:
  assumes "ck_cache_ok P (Some \<lparr>ck_map = m, ck_queue = q\<rparr>)" "length m < 128" "map_of m key = None"
  shows "ck_cache_ok P (Some \<lparr>ck_map = hm_put key (conversation_key P key) m, ck_queue = q @ [key]\<rparr>)"
  using assms hm.put_within_cap [of m 128 key "conversation_key P key"]
  by (auto simp: ck_cache_ok_def map_of_eq_None_iff split: if_splits)

lemma ck_cache_ok_evict:
  assumes "ck_cache_ok P (Some \<lparr>ck_map = m, ck_queue = old # q\<rparr>)"
  shows "ck_cache_ok P (Some \<lparr>ck_map = hm_del old m, ck_queue = q\<rparr>) \<and> length (hm_del old m) < 128"
proof -
  have "old \<in> fst ` set m" "length m \<le> 128" using assms by (auto simp: ck_cache_ok_def)
  then have "length (hm_del old m) < 128"
    using length_hm_del_present [of old m] by linarith
  with assms show ?thesis by (auto simp: ck_cache_ok_def fst_hm_del split: if_splits)
qed

lemma derive_conversation_key_fst:
  "ck_cache_ok P guard \<Longrightarrow> fst (derive_conversation_key P key guard) = conversation_key P key"
  by (auto simp: derive_conversation_key_def ck_cache_ok_def conversation_key_def Let_def
      split: option.splits)

lemma derive_conversation_key_miss:
  assumes "ck_cache_ok P (Some c)" "map_of (ck_map c) key = None"
  shows "ck_cache_ok P (snd (derive_conversation_key P key (Some c)))"
proof -
  obtain m q where c: "c = \<lparr>ck_map = m, ck_queue = q\<rparr>" by (cases c)
  show ?thesis
  proof (cases "length m \<ge> 128")
    case False
    with assms ck_cache_ok_insert [of P m q key] show ?thesis
      by (simp add: c derive_conversation_key_def conversation_key_def Let_def)
  next
    case True
    then have "q \<noteq> []" using assms(1) by (auto simp: ck_cache_ok_def c)
    then obtain old q' where q: "q = old # q'" by (cases q) auto
    with assms ck_cache_ok_evict [of P m old q']
      have "ck_cache_ok P (Some \<lparr>ck_map = hm_del old m, ck_queue = q'\<rparr>)"
        "length (hm_del old m) < 128" by (simp_all add: c)
    with True q assms(2) ck_cache_ok_insert [of P "hm_del old m" q' key] show ?thesis
      by (simp add: c derive_conversation_key_def conversation_key_def Let_def)
  qed
qed

lemma derive_conversation_key_snd:
  assumes "ck_cache_ok P guard"
  shows "ck_cache_ok P (snd (derive_conversation_key P key guard))"
proof (cases guard)
  case None
  then show ?thesis
    by (simp add: derive_conversation_key_def ck_cache_ok_def conversation_key_def Let_def hm_wf_def)
next
  case (Some c)
  with assms derive_conversation_key_miss [of P c key] show ?thesis
    by (cases "map_of (ck_map c) key") (auto simp: derive_conversation_key_def)
qed

lemma nip44_encrypt_eq_seal:
  assumes "ck_cache_ok P guard"
  shows "fst (nip44_encrypt P rng pt key guard) = nip44_seal P rng pt (conversation_key P key)"
    and "ck_cache_ok P (snd (nip44_encrypt P rng pt key guard))"
  using assms derive_conversation_key_fst [OF assms, of key] derive_conversation_key_snd [OF assms, of key]
  by (auto simp: nip44_encrypt_def nip44_seal_def split: option.splits prod.splits)

lemma nip44_decrypt_eq_open:
  assumes "ck_cache_ok P guard"
  shows "fst (nip44_decrypt P pl key guard) = nip44_open P pl key (conversation_key P key)"
    and "ck_cache_ok P (snd (nip44_decrypt P pl key guard))"
  using assms derive_conversation_key_fst [OF assms, of key] derive_conversation_key_snd [OF assms, of key]
  by (auto simp: nip44_decrypt_def nip44_open_def split: option.splits prod.splits)

subsection \<open>Decryption inverts encryption\<close>

lemma length_nip44_payload:
  assumes "nip44_prims_ok P"
  shows "length (nip44_payload P ck nonce pt) = 1 + length nonce + length (padded_body pt) + 32"
  using assms by (simp add: nip44_payload_def nip44_prims_ok_def Let_def split: prod.split)

lemma nip44_payload_shape:
  assumes "nip44_prims_ok P" "length nonce = 32"
  shows "is_spec_shape (nip44_payload P ck nonce pt)"
proof -
  let ?c = "calc_padding (length pt)"
  have len: "length (nip44_payload P ck nonce pt) = 65 + length (encode_prefix (length pt)) + ?c"
    using assms by (simp add: length_nip44_payload length_padded_body)
  show ?thesis
  proof (cases "length pt \<ge> EXTENDED_PREFIX_THRESHOLD")
    case True
    then have "length (nip44_payload P ck nonce pt) = 71 + ?c" "65536 \<le> ?c"
      using len calc_padding_ge [of "length pt"] by (simp_all add: length_encode_prefix)
    then show ?thesis using calc_padding_mod [of "length pt"] by (simp add: is_spec_shape_def)
  next
    case False
    then have "length (nip44_payload P ck nonce pt) = 67 + ?c" "32 \<le> ?c"
      using len calc_padding_min [of "length pt"] by (simp_all add: length_encode_prefix)
    then show ?thesis using calc_padding_mod [of "length pt"] by (simp add: is_spec_shape_def)
  qed
qed

lemma decrypt_spec_payload:
  assumes P: "nip44_prims_ok P" and nonce: "length nonce = 32" and pt: "pt \<noteq> []" "length pt < 2 ^ 32"
  shows "decrypt_spec P (nip44_payload P ck nonce pt) ck = Ok pt"
proof -
  obtain ek n12 ak where keys: "spec_derive_keys P ck nonce = (ek, n12, ak)" by (metis prod_cases3)
  define body where "body = p_chacha20 P ek n12 (padded_body pt)"
  define mac where "mac = p_hmac P ak (nonce @ body)"
  have payload: "nip44_payload P ck nonce pt = 2 # nonce @ body @ mac"
    by (simp add: nip44_payload_def keys body_def mac_def Let_def)
  have lens: "length mac = 32" "length body = length (padded_body pt)"
    using P by (simp_all add: mac_def body_def nip44_prims_ok_def)
  have body_back: "p_chacha20 P ek n12 body = padded_body pt"
    using P by (simp add: body_def nip44_prims_ok_def)
  have "drop (33 + length (padded_body pt)) (VERSION_PADDED # nonce @ body @ mac) = mac"
    using nonce lens by (simp add: drop_Cons')
  then show ?thesis
    using nonce lens padded_body_len_ge [of pt] pt
    by (simp add: decrypt_spec_def payload Let_def keys body_back unpad_in_place_eq unpad_padded_body
        mac_def [symmetric])
qed

lemma nip44_open_seal:
  assumes "nip44_prims_ok P" "length nonce = 32" "pt \<noteq> []" "length pt < 2 ^ 32"
    and "nip44_seal P (Some nonce) pt ck = Ok ct"
  shows "nip44_open P ct key ck = Ok pt"
proof -
  have ct: "ct = p_base64_encode P (nip44_payload P ck nonce pt)"
    using assms(3,5) by (simp add: nip44_seal_def)
  have "nip44_payload P ck nonce pt \<noteq> []" "nip44_payload P ck nonce pt ! 0 = VERSION_PADDED"
    by (simp_all add: nip44_payload_def Let_def split: prod.split)
  with assms nip44_payload_shape [OF assms(1,2), of ck pt] show ?thesis
    by (simp add: nip44_open_def ct nip44_prims_ok_def decrypt_spec_payload)
qed

lemma nip44_pair:
  assumes P: "nip44_prims_ok P" and g: "ck_cache_ok P g" "ck_cache_ok P g'"
    and pt: "length nonce = 32" "pt \<noteq> []" "length pt < 2 ^ 32"
  shows "\<exists>ct g1 g2. nip44_encrypt P (Some nonce) pt key g = (Ok ct, g1) \<and> nip44_decrypt P ct key g' = (Ok pt, g2)
    \<and> ck_cache_ok P g1 \<and> ck_cache_ok P g2"
proof -
  obtain ct where seal: "nip44_seal P (Some nonce) pt (conversation_key P key) = Ok ct"
    using pt(2) by (simp add: nip44_seal_def)
  note enc = nip44_encrypt_eq_seal [OF g(1), of "Some nonce" pt key]
  note dec = nip44_decrypt_eq_open [OF g(2), of ct key]
  have "nip44_open P ct key (conversation_key P key) = Ok pt" by (rule nip44_open_seal [OF P pt seal])
  with enc dec seal show ?thesis
    by (cases "nip44_encrypt P (Some nonce) pt key g"; cases "nip44_decrypt P ct key g'") simp
qed

lemma nip44_open_v2_only:
  assumes "p_base64_decode P pl = Some decoded" "decoded \<noteq> []" "decoded ! 0 = VERSION_PADDED"
    "is_spec_shape decoded"
  shows "nip44_open P pl key ck = decrypt_spec P decoded ck"
  using assms by (simp add: nip44_open_def)

lemma decrypt_spec_tamper:
  assumes "decrypt_spec P decoded ck = Ok pt"
  shows "\<exists>nonce body mac. decoded = [VERSION_PADDED] @ nonce @ body @ mac \<and> length nonce = 32
    \<and> mac = p_hmac P (snd (snd (spec_derive_keys P ck nonce))) (nonce @ body)"
proof -
  let ?n = "take 32 (drop 1 decoded)" and ?k = "length decoded - 65"
  let ?b = "take ?k (drop 33 decoded)" and ?m = "drop (length decoded - 32) decoded"
  have v: "decoded \<noteq> []" "decoded ! 0 = VERSION_PADDED" and len: "99 \<le> length decoded"
    and mac: "?m = p_hmac P (snd (snd (spec_derive_keys P ck ?n))) (?n @ ?b)"
    using assms by (auto simp: decrypt_spec_def Let_def split: if_splits prod.splits)
  have "decoded = decoded ! 0 # drop 1 decoded"
    using v(1) by (cases decoded) auto
  also have "drop 1 decoded = ?n @ drop 33 decoded"
    using append_take_drop_id [of 32 "drop 1 decoded"] by simp
  also have "drop 33 decoded = ?b @ ?m"
    using append_take_drop_id [of ?k "drop 33 decoded"] len by simp
  finally have "decoded = [VERSION_PADDED] @ ?n @ ?b @ ?m" using v(2) by simp
  moreover have "length ?n = 32" using len by simp
  ultimately show ?thesis using mac by blast
qed


subsection \<open>The padding scheme\<close>

text \<open>Padding. For every non-empty plaintext below 4 GiB both unpadding routines invert \<open>pad\<close>; the padded body is the
  length prefix and a multiple of 32 bytes, at least 32 and less than a quarter (or 32 bytes) longer than the plaintext.\<close>

theorem padding_inverse:
  assumes "pt \<noteq> []" "length pt < 2 ^ 32"
  shows "\<exists>body. pad pt = Ok body \<and> unpad body = Ok pt \<and> unpad_in_place body = Ok pt
    \<and> length body = length (encode_prefix (length pt)) + calc_padding (length pt)
    \<and> 32 dvd calc_padding (length pt) \<and> 32 \<le> calc_padding (length pt)
    \<and> length pt \<le> calc_padding (length pt) \<and> calc_padding (length pt) < length pt + max 33 (length pt div 4 + 1)"
proof -
  have "calc_padding (length pt) < length pt + max 33 (length pt div 4 + 1)"
  proof (cases "32 < length pt")
    case True
    then show ?thesis using calc_padding_waste [OF True] pad_chunk_le [OF True] by simp
  next
    case False
    then have "calc_padding (length pt) = 32" "0 < length pt" using assms(1) by (simp_all add: calc_padding_def)
    then show ?thesis by linarith
  qed
  then show ?thesis
    using assms unpad_padded_body [OF assms] unpad_in_place_eq calc_padding_mod calc_padding_min calc_padding_ge
    by (simp add: pad_def length_padded_body mod_eq_0_iff_dvd)
qed

theorem padding_inverse_witness:
  "\<exists>body. pad [1, 2, 3] = Ok body \<and> unpad body = Ok [1, 2, 3] \<and> unpad_in_place body = Ok [1, 2, 3]
    \<and> 32 dvd calc_padding (length [1, 2, 3 :: byte])"
  using padding_inverse [of "[1, 2, 3]"] by auto

end
