(* ===== verification/Hybrid.thy ===== *)
theory Hybrid
  imports Nip44
begin

section \<open>Hybrid key encapsulation (pqc-core/src/hybrid.rs, hkdf.rs)\<close>

text \<open>
  X25519 and ML-KEM-768 combined by HKDF into one KEM with a versioned wire format. The curve, the
  lattice KEM, HKDF and hex are fields of \<open>prims\<close>; \<open>kem_prims_ok\<close> states what the construction
  relies on: Diffie-Hellman agreement, ML-KEM correctness and sizes, HKDF's output length, hex
  decoding what it encodes. Shown here: a decapsulation recovers the encapsulated secret for every
  generated key pair, and the sizes of keys, ciphertexts and secrets.
\<close>

abbreviation HYBRID_VERSION :: byte where "HYBRID_VERSION \<equiv> 1"
abbreviation X25519_PK_LEN :: nat where "X25519_PK_LEN \<equiv> 32"
abbreviation X25519_CT_LEN :: nat where "X25519_CT_LEN \<equiv> 32"
definition HYBRID_PK_LEN :: nat where "HYBRID_PK_LEN = 1 + X25519_PK_LEN + 1184"
definition HYBRID_CT_LEN :: nat where "HYBRID_CT_LEN = 1 + X25519_CT_LEN + 1088"
definition HYBRID_SK_LEN :: nat where "HYBRID_SK_LEN = X25519_PK_LEN + 64"
abbreviation SS_LEN :: nat where "SS_LEN \<equiv> 32"

definition DUAL_PRF_SALT :: "byte list" where
  "DUAL_PRF_SALT = bytes_of ''soshal-hybrid-v1''"

definition hkdf_sha256 :: "prims \<Rightarrow> byte list \<Rightarrow> byte list \<Rightarrow> byte list \<Rightarrow> nat \<Rightarrow> byte list res" where
  "hkdf_sha256 P ikm salt info okm_len = ok_or ''hkdf expand'' (p_hkdf P ikm salt info okm_len)"

text \<open>The arguments \<open>xr\<close>, \<open>sr\<close>, \<open>er\<close> are the results of \<open>getrandom::fill\<close>, \<open>mr\<close> the randomness ML-KEM draws.\<close>

definition hybrid_keygen_bytes ::
  "prims \<Rightarrow> byte list option \<Rightarrow> byte list option \<Rightarrow> (byte list \<times> byte list) res" where
  "hybrid_keygen_bytes P xr sr =
     and_then (ok_or ''rng'' xr) (\<lambda>x25519_sk.
     and_then (ok_or ''rng'' sr) (\<lambda>mlkem_seed.
       Ok ([HYBRID_VERSION] @ p_x25519_public P x25519_sk @ p_mlkem_public P mlkem_seed,
           x25519_sk @ mlkem_seed)))"

definition hybrid_encapsulate_bytes ::
  "prims \<Rightarrow> byte list option \<Rightarrow> nat \<Rightarrow> byte list \<Rightarrow> byte list \<Rightarrow> (byte list \<times> byte list) res" where
  "hybrid_encapsulate_bytes P er mr pk_bytes domain =
     (if pk_bytes ! 0 \<noteq> HYBRID_VERSION then Err ''unsupported hybrid pk version''
      else let peer_xpk = take X25519_PK_LEN (drop 1 pk_bytes) in
        and_then (ok_or ''rng'' er) (\<lambda>eph_sk.
        let eph_pk = p_x25519_public P eph_sk;
            x25519_ss = p_x25519_dh P eph_sk peer_xpk in
        and_then (ok_or ''bad ek'' (p_mlkem_encap P mr (drop (1 + X25519_PK_LEN) pk_bytes))) (\<lambda>(mlkem_ct, mlkem_ss).
        and_then (hkdf_sha256 P (x25519_ss @ mlkem_ss) DUAL_PRF_SALT domain SS_LEN) (\<lambda>ss.
        Ok ([HYBRID_VERSION] @ eph_pk @ mlkem_ct, ss)))))"

definition hybrid_decapsulate_bytes ::
  "prims \<Rightarrow> byte list \<Rightarrow> byte list \<Rightarrow> byte list \<Rightarrow> byte list res" where
  "hybrid_decapsulate_bytes P ct_bytes sk_bytes domain =
     (if ct_bytes ! 0 \<noteq> HYBRID_VERSION then Err ''unsupported hybrid ct version''
      else let x25519_sk = take X25519_PK_LEN sk_bytes;
               eph_pk = take X25519_CT_LEN (drop 1 ct_bytes);
               x25519_ss = p_x25519_dh P x25519_sk eph_pk;
               mlkem_ss = p_mlkem_decap P (drop X25519_PK_LEN sk_bytes) (drop (1 + X25519_CT_LEN) ct_bytes)
           in hkdf_sha256 P (x25519_ss @ mlkem_ss) DUAL_PRF_SALT domain SS_LEN)"

definition hybrid_keygen :: "prims \<Rightarrow> byte list option \<Rightarrow> byte list option \<Rightarrow> (string \<times> string) res" where
  "hybrid_keygen P xr sr =
     and_then (hybrid_keygen_bytes P xr sr) (\<lambda>(pk, sk). Ok (p_hex_encode P pk, p_hex_encode P sk))"

definition hybrid_encapsulate ::
  "prims \<Rightarrow> byte list option \<Rightarrow> nat \<Rightarrow> string \<Rightarrow> byte list \<Rightarrow> (string \<times> string) res" where
  "hybrid_encapsulate P er mr pk_hex domain =
     (if length domain > 1024 then Err ''domain exceeds 1024 bytes''
      else and_then (ok_or ''bad pk hex'' (p_hex_decode P (trim pk_hex))) (\<lambda>pk_bytes.
        if length pk_bytes \<noteq> HYBRID_PK_LEN then Err ''bad pk len''
        else and_then (hybrid_encapsulate_bytes P er mr pk_bytes domain) (\<lambda>(ct, ss).
          Ok (p_hex_encode P ct, p_hex_encode P ss))))"

definition hybrid_decapsulate :: "prims \<Rightarrow> string \<Rightarrow> string \<Rightarrow> byte list \<Rightarrow> string res" where
  "hybrid_decapsulate P ct_hex sk_hex domain =
     (if length domain > 1024 then Err ''domain exceeds 1024 bytes''
      else and_then (ok_or ''bad ct hex'' (p_hex_decode P (trim ct_hex))) (\<lambda>ct_bytes.
        and_then (ok_or ''bad sk hex'' (p_hex_decode P (trim sk_hex))) (\<lambda>sk_bytes.
          if length ct_bytes \<noteq> HYBRID_CT_LEN \<or> length sk_bytes \<noteq> HYBRID_SK_LEN then Err ''bad input length''
          else and_then (hybrid_decapsulate_bytes P ct_bytes sk_bytes domain) (\<lambda>res. Ok (p_hex_encode P res)))))"

subsection \<open>What the construction relies on\<close>

definition is_hex :: "string \<Rightarrow> bool" where
  "is_hex s \<longleftrightarrow> (\<forall>c\<in>set s. c \<in> set ''0123456789abcdef'')"

definition hex_prims_ok :: "prims \<Rightarrow> bool" where
  "hex_prims_ok P \<longleftrightarrow>
     (\<forall>b. p_hex_decode P (p_hex_encode P b) = Some b)
   \<and> (\<forall>b. length (p_hex_encode P b) = 2 * length b)
   \<and> (\<forall>b. is_hex (p_hex_encode P b))"

definition hkdf_prims_ok :: "prims \<Rightarrow> bool" where
  "hkdf_prims_ok P \<longleftrightarrow>
     (\<forall>ikm salt info n. n \<le> 8160 \<longrightarrow> (\<exists>okm. p_hkdf P ikm salt info n = Some okm \<and> length okm = n))"

definition kem_prims_ok :: "prims \<Rightarrow> bool" where
  "kem_prims_ok P \<longleftrightarrow>
     hex_prims_ok P \<and> hkdf_prims_ok P
   \<and> (\<forall>sk. length sk = 32 \<longrightarrow> length (p_x25519_public P sk) = 32)
   \<and> (\<forall>a b. length a = 32 \<longrightarrow> length b = 32 \<longrightarrow>
        p_x25519_dh P a (p_x25519_public P b) = p_x25519_dh P b (p_x25519_public P a))
   \<and> (\<forall>seed. length seed = 64 \<longrightarrow> length (p_mlkem_public P seed) = 1184)
   \<and> (\<forall>r seed. length seed = 64 \<longrightarrow>
        (\<exists>ct ss. p_mlkem_encap P r (p_mlkem_public P seed) = Some (ct, ss)
           \<and> length ct = 1088 \<and> length ss = 32 \<and> p_mlkem_decap P seed ct = ss))"

text \<open>A key pair as \<open>hybrid_keygen\<close> returns it, from draws of the right size.\<close>

definition hybrid_pair :: "prims \<Rightarrow> string \<Rightarrow> string \<Rightarrow> bool" where
  "hybrid_pair P pk sk \<longleftrightarrow>
     (\<exists>x s. length x = 32 \<and> length s = 64 \<and> hybrid_keygen P (Some x) (Some s) = Ok (pk, sk))"

subsection \<open>Lemmas\<close>

lemma hex_decode_encode: "hex_prims_ok P \<Longrightarrow> p_hex_decode P (p_hex_encode P b) = Some b"
  by (simp add: hex_prims_ok_def)

lemma length_hex_encode: "hex_prims_ok P \<Longrightarrow> length (p_hex_encode P b) = 2 * length b"
  by (simp add: hex_prims_ok_def)

lemma hex_char_range: "c \<in> set ''0123456789abcdef'' \<Longrightarrow> 48 \<le> (of_char c :: nat) \<and> of_char c \<le> (102 :: nat)"
  by (simp only: list.set insert_iff empty_iff) (elim disjE; simp)

lemma hex_char_graphic: "c \<in> set ''0123456789abcdef'' \<Longrightarrow> 33 \<le> byte_of_char c \<and> byte_of_char c < 128"
  using hex_char_range [of c]
  by (simp add: byte_of_char_def word_le_nat_alt word_less_nat_alt unat_of_nat del: list.set)

lemma trim_hex: "is_hex s \<Longrightarrow> trim s = s"
  by (rule trim_graphic) (auto simp only: is_hex_def bytes_of_def set_map image_iff intro!: hex_char_graphic)

lemma ascii_hex: "is_hex s \<Longrightarrow> ascii s"
  unfolding is_hex_def ascii_def
proof
  fix c assume "\<forall>c\<in>set s. c \<in> set ''0123456789abcdef''" "c \<in> set s"
  with hex_char_range [of c] show "of_char c < (128 :: nat)" by (simp del: list.set)
qed

lemma trim_hex_encode: "hex_prims_ok P \<Longrightarrow> trim (p_hex_encode P b) = p_hex_encode P b"
  by (simp add: hex_prims_ok_def trim_hex)

lemma is_hex_encode: "hex_prims_ok P \<Longrightarrow> is_hex (p_hex_encode P b)"
  by (simp add: hex_prims_ok_def)

lemma hkdf_sha256_ok:
  "hkdf_prims_ok P \<Longrightarrow> n \<le> 8160 \<Longrightarrow> \<exists>okm. hkdf_sha256 P ikm salt info n = Ok okm \<and> length okm = n"
  by (auto simp: hkdf_prims_ok_def hkdf_sha256_def)

lemma hkdf_sha256_not_Panic: "hkdf_sha256 P ikm salt info n \<noteq> Panic"
  by (simp add: hkdf_sha256_def)

lemma kem_hex: "kem_prims_ok P \<Longrightarrow> hex_prims_ok P"
  by (simp add: kem_prims_ok_def)

lemma kem_hkdf: "kem_prims_ok P \<Longrightarrow> hkdf_prims_ok P"
  by (simp add: kem_prims_ok_def)

lemma hybrid_pairE:
  assumes "hybrid_pair P pk sk"
  obtains x s where "length x = 32" "length s = 64"
    "pk = p_hex_encode P ([HYBRID_VERSION] @ p_x25519_public P x @ p_mlkem_public P s)"
    "sk = p_hex_encode P (x @ s)"
  using assms by (auto simp: hybrid_pair_def hybrid_keygen_def hybrid_keygen_bytes_def)

lemma hybrid_pair_hex: "kem_prims_ok P \<Longrightarrow> hybrid_pair P pk sk \<Longrightarrow> is_hex pk"
  by (auto elim!: hybrid_pairE simp: is_hex_encode kem_hex)

lemma hybrid_pair_sizes:
  assumes "kem_prims_ok P" "hybrid_pair P pk sk"
  shows "length pk = 2 * HYBRID_PK_LEN" "length sk = 2 * HYBRID_SK_LEN"
  using assms(2) assms(1)
  by (auto elim!: hybrid_pairE simp: kem_prims_ok_def length_hex_encode HYBRID_PK_LEN_def HYBRID_SK_LEN_def)

lemma hybrid_bytes_round_trip:
  assumes P: "kem_prims_ok P" and x: "length x = 32" and s: "length s = 64" and e: "length e = 32"
  shows "\<exists>ct ss. hybrid_encapsulate_bytes P (Some e) mr
             ([HYBRID_VERSION] @ p_x25519_public P x @ p_mlkem_public P s) dm = Ok (ct, ss)
           \<and> length ct = HYBRID_CT_LEN \<and> length ss = SS_LEN
           \<and> hybrid_decapsulate_bytes P ct (x @ s) dm = Ok ss"
proof -
  obtain mct mss where m: "p_mlkem_encap P mr (p_mlkem_public P s) = Some (mct, mss)"
    "length mct = 1088" "p_mlkem_decap P s mct = mss"
    using P s unfolding kem_prims_ok_def by blast
  have pub: "length (p_x25519_public P x) = 32" "length (p_x25519_public P e) = 32"
    using P x e by (simp_all add: kem_prims_ok_def)
  have dh: "p_x25519_dh P e (p_x25519_public P x) = p_x25519_dh P x (p_x25519_public P e)"
    using P x e by (simp add: kem_prims_ok_def)
  obtain ss where ss: "hkdf_sha256 P (p_x25519_dh P e (p_x25519_public P x) @ mss) DUAL_PRF_SALT dm SS_LEN = Ok ss"
    "length ss = SS_LEN"
    using hkdf_sha256_ok [OF kem_hkdf [OF P], of SS_LEN] by fastforce
  then show ?thesis
    using m pub x by (simp add: hybrid_encapsulate_bytes_def hybrid_decapsulate_bytes_def Let_def
        HYBRID_CT_LEN_def dh)
qed

lemma hybrid_round_trip:
  assumes P: "kem_prims_ok P" and pair: "hybrid_pair P pk sk" and e: "length e = 32"
    and dm: "length dm \<le> 1024"
  shows "\<exists>ct ss. hybrid_encapsulate P (Some e) mr pk dm = Ok (ct, p_hex_encode P ss)
           \<and> length ct = 2 * HYBRID_CT_LEN \<and> is_hex ct \<and> length ss = SS_LEN
           \<and> hybrid_decapsulate P ct sk dm = Ok (p_hex_encode P ss)"
proof -
  obtain x s where xs: "length x = 32" "length s = 64"
    "pk = p_hex_encode P ([HYBRID_VERSION] @ p_x25519_public P x @ p_mlkem_public P s)"
    "sk = p_hex_encode P (x @ s)"
    using pair by (rule hybrid_pairE)
  obtain ct ss where rt: "hybrid_encapsulate_bytes P (Some e) mr
      ([HYBRID_VERSION] @ p_x25519_public P x @ p_mlkem_public P s) dm = Ok (ct, ss)"
    "length ct = HYBRID_CT_LEN" "length ss = SS_LEN" "hybrid_decapsulate_bytes P ct (x @ s) dm = Ok ss"
    using hybrid_bytes_round_trip [OF P xs(1,2) e] by blast
  have pk_len: "length ([HYBRID_VERSION] @ p_x25519_public P x @ p_mlkem_public P s) = HYBRID_PK_LEN"
    using P xs by (simp add: kem_prims_ok_def HYBRID_PK_LEN_def)
  note hex = hex_decode_encode [OF kem_hex [OF P]] trim_hex_encode [OF kem_hex [OF P]]
    length_hex_encode [OF kem_hex [OF P]]
  have "hybrid_encapsulate P (Some e) mr pk dm = Ok (p_hex_encode P ct, p_hex_encode P ss)"
    using rt pk_len xs dm by (simp add: hybrid_encapsulate_def hex del: append.simps)
  moreover have "hybrid_decapsulate P (p_hex_encode P ct) sk dm = Ok (p_hex_encode P ss)"
    using rt xs dm by (simp add: hybrid_decapsulate_def hex HYBRID_SK_LEN_def)
  ultimately show ?thesis using rt by (auto simp: hex is_hex_encode [OF kem_hex [OF P]])
qed

end
