(* ===== verification/Compress.thy ===== *)
theory Compress
  imports Nip44
begin

section \<open>Compression with output caps (content-core/src/compress.rs)\<close>

text \<open>
  Raw deflate with an input cap, the chunked inflater that stops at an output cap, and the
  dictionary frames. flate2, zstd and base64 are fields of \<open>prims\<close>. Shown here: decompression
  inverts compression below the caps, no result exceeds the cap it was given, and a dictionary frame
  is recognised.
\<close>

definition MAX_COMPRESS_BYTES :: nat where "MAX_COMPRESS_BYTES = 16777216"
definition MAX_DECOMPRESS_BYTES :: nat where "MAX_DECOMPRESS_BYTES = 4194304"

definition compress :: "prims \<Rightarrow> byte list \<Rightarrow> byte list res" where
  "compress P data =
     (if length data > MAX_COMPRESS_BYTES then Err ''payload exceeds 16777216 bytes'' else Ok (p_deflate P data))"

text \<open>\<open>data.chunks(n)\<close>\<close>

function chunks_of :: "nat \<Rightarrow> 'a list \<Rightarrow> 'a list list" where
  "chunks_of n xs = (if n = 0 \<or> xs = [] then [] else take n xs # chunks_of n (drop n xs))"
  by pat_completeness auto
termination
  by (relation "measure (\<lambda>(n, xs). length xs)") auto

declare chunks_of.simps [simp del]

definition inflate_finish :: "prims \<Rightarrow> nat \<Rightarrow> byte list \<Rightarrow> byte list res" where
  "inflate_finish P max_bytes fed =
     and_then (ok_or ''decompress finish'' (p_inflate_finish P fed)) (\<lambda>out.
       if length out > max_bytes then Err ''decompressed payload exceeds the limit'' else Ok out)"

primrec inflate_loop :: "prims \<Rightarrow> nat \<Rightarrow> byte list list \<Rightarrow> byte list \<Rightarrow> byte list res" where
  "inflate_loop P max_bytes [] fed = inflate_finish P max_bytes fed"
| "inflate_loop P max_bytes (chunk # rest) fed =
     (case p_inflate_write P (fed @ chunk) of
        WriteZero \<Rightarrow> inflate_finish P max_bytes (fed @ chunk)
      | WriteError \<Rightarrow> Err ''decompress''
      | WriteOk \<Rightarrow>
          if length (p_inflate_out P (fed @ chunk)) > max_bytes
          then Err ''decompressed payload exceeds the limit''
          else inflate_loop P max_bytes rest (fed @ chunk))"

definition decompress_limited :: "prims \<Rightarrow> byte list \<Rightarrow> nat \<Rightarrow> byte list res" where
  "decompress_limited P data max_bytes = inflate_loop P max_bytes (chunks_of 65536 data) []"

definition decompress :: "prims \<Rightarrow> byte list \<Rightarrow> byte list res" where
  "decompress P data = decompress_limited P data MAX_DECOMPRESS_BYTES"

primrec res_bytes_or_empty :: "byte list res \<Rightarrow> string" where
  "res_bytes_or_empty (Ok bs) = (case from_utf8 bs of Some s \<Rightarrow> s | None \<Rightarrow> '''')"
| "res_bytes_or_empty (Err e) = ''''"
| "res_bytes_or_empty Panic = ''''"

definition content_compress_json :: "prims \<Rightarrow> string \<Rightarrow> string" where
  "content_compress_json P data =
     (case compress P (bytes_of data) of Ok c \<Rightarrow> p_base64_encode P c | _ \<Rightarrow> '''')"

definition content_decompress_json :: "prims \<Rightarrow> string \<Rightarrow> string" where
  "content_decompress_json P encoded =
     (if length encoded > MAX_DECOMPRESS_BYTES * 2 then ''''
      else case p_base64_decode P encoded of
        None \<Rightarrow> ''''
      | Some bytes \<Rightarrow> res_bytes_or_empty (decompress P bytes))"

subsection \<open>Dictionary frames\<close>

definition ZSTD_DICT_MAGIC :: "byte list" where
  "ZSTD_DICT_MAGIC = [0x5A, 0x48, 0x01, 0x00, 0x00, 0x00]"

definition ZSTD_DICT_ID :: nat where "ZSTD_DICT_ID = 1"

definition is_dict_frame :: "byte list \<Rightarrow> bool" where
  "is_dict_frame data \<longleftrightarrow>
     length data > length ZSTD_DICT_MAGIC \<and> take (length ZSTD_DICT_MAGIC) data = ZSTD_DICT_MAGIC"

definition compress_dict :: "prims \<Rightarrow> byte list \<Rightarrow> byte list res" where
  "compress_dict P data =
     (if length data > MAX_COMPRESS_BYTES then Err ''payload exceeds 16777216 bytes''
      else and_then (ok_or ''compress_dict'' (p_zstd_encode P data)) (\<lambda>frame.
        Ok (ZSTD_DICT_MAGIC @ le_bytes 4 ZSTD_DICT_ID @ frame)))"

definition decompress_dict_limited :: "prims \<Rightarrow> byte list \<Rightarrow> nat \<Rightarrow> byte list res" where
  "decompress_dict_limited P data max_bytes =
     (if \<not> is_dict_frame data then Err ''not a zstd-dict frame''
      else if length data < length ZSTD_DICT_MAGIC + 4 then Err ''truncated dict id''
      else if le_val (take 4 (drop (length ZSTD_DICT_MAGIC) data)) \<noteq> ZSTD_DICT_ID
      then Err ''dict id mismatch: expected 1''
      else and_then (ok_or ''decompress_dict''
          (p_zstd_read P (max_bytes + 1) (drop (length ZSTD_DICT_MAGIC + 4) data))) (\<lambda>out.
        if length out > max_bytes then Err ''decompressed payload exceeds the limit'' else Ok out))"

definition decompress_dict :: "prims \<Rightarrow> byte list \<Rightarrow> byte list res" where
  "decompress_dict P data = decompress_dict_limited P data MAX_DECOMPRESS_BYTES"

definition compress_json_dict :: "prims \<Rightarrow> string \<Rightarrow> string" where
  "compress_json_dict P data =
     (case compress_dict P (bytes_of data) of Ok c \<Rightarrow> p_base64_encode P c | _ \<Rightarrow> '''')"

definition decompress_json_dict :: "prims \<Rightarrow> string \<Rightarrow> string" where
  "decompress_json_dict P encoded =
     (if length encoded > MAX_DECOMPRESS_BYTES * 2 then ''''
      else case p_base64_decode P encoded of
        None \<Rightarrow> ''''
      | Some bytes \<Rightarrow>
          if is_dict_frame bytes then res_bytes_or_empty (decompress_dict P bytes)
          else content_decompress_json P encoded)"

subsection \<open>What the code relies on, and lemmas\<close>

text \<open>
  A deflate stream is accepted prefix by prefix, its partial output never exceeds the data, and
  finishing after the whole stream returns the data.
\<close>

definition deflate_prims_ok :: "prims \<Rightarrow> bool" where
  "deflate_prims_ok P \<longleftrightarrow>
     (\<forall>d a b. p_deflate P d = a @ b \<longrightarrow>
        p_inflate_write P a = WriteOk \<and> length (p_inflate_out P a) \<le> length d)
   \<and> (\<forall>d. p_inflate_finish P (p_deflate P d) = Some d)"

definition zstd_prims_ok :: "prims \<Rightarrow> bool" where
  "zstd_prims_ok P \<longleftrightarrow>
     (\<forall>d. \<exists>f. p_zstd_encode P d = Some f \<and> (\<forall>n. p_zstd_read P n f = Some (take n d)))"

lemma concat_chunks_of: "0 < n \<Longrightarrow> concat (chunks_of n xs) = xs"
  by (induction n xs rule: chunks_of.induct) (simp add: chunks_of.simps)

lemma inflate_loop_deflate:
  assumes "deflate_prims_ok P" "length d \<le> m" "p_deflate P d = fed @ concat cs"
  shows "inflate_loop P m cs fed = Ok d"
  using assms(3)
proof (induction cs arbitrary: fed)
  case Nil
  then have "p_inflate_finish P fed = Some d" using assms(1) by (auto simp: deflate_prims_ok_def)
  with assms(2) show ?case by (simp add: inflate_finish_def)
next
  case (Cons c cs)
  then have split: "p_deflate P d = (fed @ c) @ concat cs" by simp
  then have "p_inflate_write P (fed @ c) = WriteOk" "length (p_inflate_out P (fed @ c)) \<le> m"
    using assms(1,2) unfolding deflate_prims_ok_def by (blast, blast intro: le_trans)
  with Cons.IH [OF split] show ?case by simp
qed

lemma decompress_compress:
  assumes "deflate_prims_ok P" "compress P d = Ok c" "length d \<le> m"
  shows "decompress_limited P c m = Ok d"
  using assms inflate_loop_deflate [of P d m "[]" "chunks_of 65536 c"]
  by (auto simp: decompress_limited_def compress_def concat_chunks_of split: if_splits)

lemma inflate_finish_bound: "inflate_finish P m fed = Ok out \<Longrightarrow> length out \<le> m"
  by (auto simp: inflate_finish_def split: if_splits)

lemma inflate_loop_bound: "inflate_loop P m cs fed = Ok out \<Longrightarrow> length out \<le> m"
  by (induction cs arbitrary: fed)
     (auto simp: inflate_finish_bound split: write_status.splits if_splits)

lemma decompress_limited_bound: "decompress_limited P data m = Ok out \<Longrightarrow> length out \<le> m"
  by (simp add: decompress_limited_def inflate_loop_bound)

lemma decompress_limited_not_Panic: "decompress_limited P data m \<noteq> Panic"
proof -
  have fin: "inflate_finish P m fed \<noteq> Panic" for fed
    by (simp add: inflate_finish_def)
  have "inflate_loop P m cs fed \<noteq> Panic" for cs fed
    by (induction cs arbitrary: fed) (simp_all add: fin split: write_status.split)
  then show ?thesis by (simp add: decompress_limited_def)
qed

lemma dict_round_trip:
  assumes "zstd_prims_ok P" "compress_dict P d = Ok c" "length d \<le> m"
  shows "is_dict_frame c \<and> decompress_dict_limited P c m = Ok d"
proof -
  obtain f where f: "p_zstd_encode P d = Some f" "p_zstd_read P (m + 1) f = Some d"
    using assms(1,3) unfolding zstd_prims_ok_def by (metis le_SucI Suc_eq_plus1 take_all)
  then have c: "c = ZSTD_DICT_MAGIC @ le_bytes 4 ZSTD_DICT_ID @ f"
    using assms(2) by (auto simp: compress_dict_def split: if_splits)
  have id: "le_val (le_bytes 4 ZSTD_DICT_ID) = ZSTD_DICT_ID" by (simp add: ZSTD_DICT_ID_def)
  have "is_dict_frame c"
    by (simp add: c is_dict_frame_def ZSTD_DICT_MAGIC_def)
  with f(2) id assms(3) show ?thesis
    by (simp add: decompress_dict_limited_def c)
qed

end
