(* ===== verification/Ratchet.thy ===== *)
theory Ratchet
  imports Hybrid Compress
begin

section \<open>The post-quantum double ratchet (crypto-core/src/pqc_ratchet)\<close>

text \<open>
  Session state, key derivation, \<open>encrypt_ratchet\<close> and \<open>decrypt_ratchet\<close> with the skipped-key
  buffers, the header MAC, and the tag encoding of headers. Keys are hex strings as in the source.
  The random draws of one operation are the record \<open>draws\<close>. A message is sealed with a fresh
  message key; the conversation key of that message key is taken through \<open>conversation_key\<close>, the value the
  cache of \<open>Nip44\<close> returns (\<open>nip44_encrypt_eq_seal\<close>). The lemmas about the definitions of this
  theory are in \<open>Ratchet_Props\<close>.
\<close>

definition RATCHET_VERSION :: byte where "RATCHET_VERSION = 3"
definition MAX_RATCHET_WINDOW :: int where "MAX_RATCHET_WINDOW = 1024"
definition MAX_RATCHET_CIPHERTEXT :: nat where "MAX_RATCHET_CIPHERTEXT = 65536"

definition RATCHET_DOMAIN :: "byte list" where "RATCHET_DOMAIN = bytes_of ''soshal-ratchet-v3''"
definition INIT_SALT :: "byte list" where "INIT_SALT = bytes_of ''soshal-ratchet-v3-init''"
definition CHAIN_SALT :: "byte list" where "CHAIN_SALT = bytes_of ''soshal-ratchet-v3-chain''"
definition MAX_INPUT_LEN :: nat where "MAX_INPUT_LEN = 65536"
definition MAX_OUTPUT :: nat where "MAX_OUTPUT = 4194304"
definition RAW_PLAINTEXT_TAG :: byte where "RAW_PLAINTEXT_TAG = 0x52"

definition hex_decode :: "prims \<Rightarrow> string \<Rightarrow> byte list res" where
  "hex_decode P hex_str =
     (if odd (length hex_str) then Err ''odd hex length''
      else if length hex_str > 524288 then Err ''hex too large''
      else ok_or ''invalid hex'' (p_hex_decode P hex_str))"

subsection \<open>State and header\<close>

record skipped_key =
  sk_seq :: int
  sk_key :: string

record ratchet_state =
  rs_version :: byte
  root_key :: string
  current_sk :: string
  current_pk :: string
  peer_pk :: string
  rs_context :: string
  chain_counter :: int
  sending_chain_key :: string
  sending_chain_counter :: int
  sending_epoch_peer_pk :: string
  sending_ct :: string
  receiving_chain_key :: string
  receiving_chain_counter :: int
  skipped :: "skipped_key list"
  prev_epoch_skipped :: "skipped_key list"

record header =
  hd_version :: byte
  hd_pk :: string
  hd_ct :: string
  hd_seq :: int
  hd_chain_counter :: int
  hd_mac :: string

record draws =
  dr_eph :: "byte list option"
  dr_mlkem :: nat
  dr_x25519 :: "byte list option"
  dr_seed :: "byte list option"
  dr_nonce :: "byte list option"

definition init_state :: "string \<Rightarrow> string \<Rightarrow> string \<Rightarrow> string \<Rightarrow> ratchet_state" where
  "init_state peer ctx sk pk =
     \<lparr>rs_version = RATCHET_VERSION, root_key = '''', current_sk = sk, current_pk = pk,
      peer_pk = peer, rs_context = ctx, chain_counter = 0, sending_chain_key = '''',
      sending_chain_counter = 0, sending_epoch_peer_pk = '''', sending_ct = '''',
      receiving_chain_key = '''', receiving_chain_counter = 0, skipped = [], prev_epoch_skipped = []\<rparr>"

subsection \<open>Compression and key derivation (ratchet_crypto.rs)\<close>

definition decompress_json :: "prims \<Rightarrow> byte list \<Rightarrow> byte list res" where
  "decompress_json P compressed =
     (if take 2 compressed = bytes_of ''z:'' then
        and_then (ok_or ''bad utf8'' (from_utf8 (drop 2 compressed))) (\<lambda>src.
        and_then (ok_or ''bad b64'' (p_base64_decode P src)) (\<lambda>bytes.
        map_err ''inflate err'' (decompress_limited P bytes MAX_OUTPUT)))
      else map_err ''inflate err'' (decompress_limited P compressed MAX_OUTPUT))"

definition compress_bytes :: "prims \<Rightarrow> byte list \<Rightarrow> byte list res" where
  "compress_bytes P bytes =
     (if length bytes > MAX_INPUT_LEN then Err ''input too large''
      else and_then (map_err ''deflate err'' (compress P bytes)) (\<lambda>compressed.
        Ok (RAW_PLAINTEXT_TAG # compressed)))"

definition decompress_bytes :: "prims \<Rightarrow> byte list \<Rightarrow> byte list res" where
  "decompress_bytes P compressed =
     (if compressed \<noteq> [] \<and> compressed ! 0 = RAW_PLAINTEXT_TAG
      then map_err ''inflate err'' (decompress_limited P (drop 1 compressed) MAX_OUTPUT)
      else and_then (decompress_json P compressed) (\<lambda>inflated.
        ok_or ''bad json'' (p_json_value P inflated)))"

definition hkdf_r :: "prims \<Rightarrow> byte list \<Rightarrow> byte list \<Rightarrow> byte list \<Rightarrow> nat \<Rightarrow> byte list res" where
  "hkdf_r P ikm salt info len = map_err ''hkdf failed'' (hkdf_sha256 P ikm salt info len)"

definition init_root :: "prims \<Rightarrow> byte list \<Rightarrow> string \<Rightarrow> byte list res" where
  "init_root P ss ctx = hkdf_r P ss INIT_SALT (bytes_of (''soshal-ratchet-v3:'' @ ctx)) 32"

definition derive_root_step :: "prims \<Rightarrow> byte list \<Rightarrow> string \<Rightarrow> string \<Rightarrow> (byte list \<times> byte list) res" where
  "derive_root_step P ss root_hex ctx =
     and_then (map_err ''bad root hex'' (hex_decode P root_hex)) (\<lambda>root.
     and_then (hkdf_r P ss root (bytes_of (''soshal-ratchet-v3:root:'' @ ctx)) 64) (\<lambda>out.
     Ok (take 32 out, take 32 (drop 32 out))))"

definition derive_chain :: "prims \<Rightarrow> string \<Rightarrow> string \<Rightarrow> byte list res" where
  "derive_chain P root_hex ctx =
     and_then (map_err ''bad root hex'' (hex_decode P root_hex)) (\<lambda>root.
       hkdf_r P root CHAIN_SALT (bytes_of (''soshal-ratchet-v3:chain:'' @ ctx)) 32)"

definition derive_msg_key_bytes :: "prims \<Rightarrow> byte list \<Rightarrow> string \<Rightarrow> (byte list \<times> byte list) res" where
  "derive_msg_key_bytes P chain_key ctx =
     and_then (hkdf_r P chain_key (bytes_of ''soshal-pqc-ratchet-msg-salt-v3'')
                 (bytes_of ''pqc-ratchet-msg-v3:'' @ bytes_of ctx) 64) (\<lambda>out.
     Ok (take 32 out, take 32 (drop 32 out)))"

definition derive_msg_key :: "prims \<Rightarrow> string \<Rightarrow> string \<Rightarrow> (byte list \<times> byte list) res" where
  "derive_msg_key P chain_hex ctx = and_then (hex_decode P chain_hex) (\<lambda>ck. derive_msg_key_bytes P ck ctx)"

text \<open>The root step of an epoch, the same on both sides: session init when the root is empty, else the
  root ratchet. The result is the new root (hex) and the new chain.\<close>

definition root_step :: "prims \<Rightarrow> byte list \<Rightarrow> string \<Rightarrow> string \<Rightarrow> (string \<times> byte list) res" where
  "root_step P ss root ctx =
     (if root = '''' then
        and_then (init_root P ss ctx) (\<lambda>new_root.
        let root_hex = p_hex_encode P new_root in
        and_then (derive_chain P root_hex ctx) (\<lambda>chain. Ok (root_hex, chain)))
      else
        and_then (derive_root_step P ss root ctx) (\<lambda>(new_root, new_chain).
        Ok (p_hex_encode P new_root, new_chain)))"

subsection \<open>Header authentication\<close>

text \<open>\<open>i64::to_le_bytes\<close>: two's complement, least significant byte first.\<close>

definition i64_le_bytes :: "int \<Rightarrow> byte list" where
  "i64_le_bytes i = le_bytes 8 (nat (i mod 2 ^ 64))"

definition header_mac_key :: "prims \<Rightarrow> string \<Rightarrow> byte list" where
  "header_mac_key P root = p_sha256 P (bytes_of root @ bytes_of ''soshal-ratchet-header-mac'')"

definition header_mac_bytes :: "prims \<Rightarrow> byte list \<Rightarrow> header \<Rightarrow> byte list" where
  "header_mac_bytes P key h =
     p_hmac P key (bytes_of (hd_pk h) @ bytes_of (hd_ct h) @ i64_le_bytes (hd_seq h)
       @ i64_le_bytes (hd_chain_counter h))"

definition compute_header_mac :: "prims \<Rightarrow> byte list \<Rightarrow> header \<Rightarrow> string" where
  "compute_header_mac P key h = p_hex_encode P (header_mac_bytes P key h)"

definition verify_header_mac :: "prims \<Rightarrow> byte list \<Rightarrow> header \<Rightarrow> bool" where
  "verify_header_mac P key h =
     (case p_hex_decode P (hd_mac h) of
        None \<Rightarrow> False
      | Some provided \<Rightarrow> provided = header_mac_bytes P key h)"

subsection \<open>Encryption\<close>

definition need_new_epoch :: "ratchet_state \<Rightarrow> bool" where
  "need_new_epoch st \<longleftrightarrow> sending_chain_key st = '''' \<or> peer_pk st \<noteq> sending_epoch_peer_pk st"

text \<open>The epoch fields after the conditional KEM step: the state with its root key, sending chain, chain
  counter, sequence number, epoch key, ciphertext and key pair in place.\<close>

definition sending_epoch :: "prims \<Rightarrow> draws \<Rightarrow> ratchet_state \<Rightarrow> ratchet_state res" where
  "sending_epoch P d st =
     (if need_new_epoch st then
        and_then (map_err ''bad peer pk hex'' (hybrid_encapsulate P (dr_eph d) (dr_mlkem d) (peer_pk st) RATCHET_DOMAIN)) (\<lambda>(ct_hex, ss_hex).
        and_then (map_err ''bad ss hex'' (hex_decode P ss_hex)) (\<lambda>ss.
        and_then (root_step P ss (root_key st) (rs_context st)) (\<lambda>(root_hex, chain).
        and_then (map_err ''rng failed'' (hybrid_keygen P (dr_x25519 d) (dr_seed d))) (\<lambda>(pk, sk).
        and_then (add_i64 (chain_counter st) 1) (\<lambda>cc.
        Ok (st\<lparr>root_key := root_hex, sending_chain_key := p_hex_encode P chain, chain_counter := cc,
               sending_chain_counter := 0, sending_epoch_peer_pk := peer_pk st, sending_ct := ct_hex,
               current_sk := sk, current_pk := pk\<rparr>))))))
      else Ok st)"

text \<open>The header of the next message of an epoch, with its MAC.\<close>

definition new_header :: "prims \<Rightarrow> ratchet_state \<Rightarrow> header" where
  "new_header P ep =
     (let h = \<lparr>hd_version = RATCHET_VERSION, hd_pk = current_pk ep, hd_ct = sending_ct ep,
               hd_seq = sending_chain_counter ep, hd_chain_counter = chain_counter ep, hd_mac = ''''\<rparr>
      in h\<lparr>hd_mac := compute_header_mac P (header_mac_key P (root_key ep)) h\<rparr>)"

definition encrypt_ratchet ::
  "prims \<Rightarrow> draws \<Rightarrow> ratchet_state \<Rightarrow> byte list \<Rightarrow> (ratchet_state \<times> header \<times> string) res" where
  "encrypt_ratchet P d st plaintext =
     (if rs_version st \<noteq> RATCHET_VERSION then Err ''ratchet v3 required''
      else if peer_pk st = '''' then Err ''no peer public key''
      else and_then (sending_epoch P d st) (\<lambda>ep.
        let seq = sending_chain_counter ep in
        and_then (derive_msg_key P (sending_chain_key ep) (rs_context st)) (\<lambda>(msg_key, next_chain).
        and_then (compress_bytes P plaintext) (\<lambda>compressed.
        and_then (nip44_seal P (dr_nonce d) compressed (conversation_key P msg_key)) (\<lambda>ciphertext.
        and_then (add_i64 seq 1) (\<lambda>next_seq.
        Ok (ep\<lparr>rs_version := RATCHET_VERSION, sending_chain_key := p_hex_encode P next_chain,
               sending_chain_counter := next_seq\<rparr>, new_header P ep, ciphertext)))))))"

subsection \<open>Decryption\<close>

text \<open>Moving the skipped keys one epoch back, evicting the oldest past the window.\<close>

primrec retain_prev :: "skipped_key list \<Rightarrow> skipped_key list \<Rightarrow> skipped_key list" where
  "retain_prev [] prev = prev"
| "retain_prev (s # rest) prev =
     retain_prev rest ((if int (length prev) \<ge> MAX_RATCHET_WINDOW then tl prev else prev) @ [s])"

text \<open>The root step of a chain-counter transition, or the current receiving chain: the updated state,
  the receiving chain and the next expected sequence number.\<close>

definition receiving_epoch ::
  "prims \<Rightarrow> draws \<Rightarrow> ratchet_state \<Rightarrow> header \<Rightarrow> bool \<Rightarrow> (ratchet_state \<times> byte list \<times> int) res" where
  "receiving_epoch P d st h cc_transition =
     (if cc_transition then
        and_then (map_err ''bad ct/sk hex'' (hybrid_decapsulate P (hd_ct h) (current_sk st) RATCHET_DOMAIN)) (\<lambda>ss_hex.
        and_then (map_err ''bad ss hex'' (hex_decode P ss_hex)) (\<lambda>ss.
        and_then (root_step P ss (root_key st) (rs_context st)) (\<lambda>(root_hex, recv_chain).
        and_then (map_err ''rng failed'' (hybrid_keygen P (dr_x25519 d) (dr_seed d))) (\<lambda>(pk, sk).
        Ok (st\<lparr>root_key := root_hex, chain_counter := hd_chain_counter h, receiving_chain_counter := 0,
               prev_epoch_skipped := retain_prev (skipped st) [], skipped := [],
               current_sk := sk, current_pk := pk\<rparr>, recv_chain, 0)))))
      else if receiving_chain_key st = '''' then Err ''no receiving chain for chain_counter''
      else and_then (map_err ''bad chain hex'' (hex_decode P (receiving_chain_key st))) (\<lambda>chain.
        Ok (st, chain, receiving_chain_counter st)))"

text \<open>\<open>copy_from_slice\<close> into a 32-byte array.\<close>

definition to_array32 :: "byte list \<Rightarrow> byte list res" where
  "to_array32 bs = (if length bs = 32 then Ok bs else Panic)"

text \<open>Taking the buffered key of a sequence number out of a buffer: \<open>position\<close>, \<open>remove\<close>, hex, array.\<close>

fun take_key :: "int \<Rightarrow> skipped_key list \<Rightarrow> (string \<times> skipped_key list) option" where
  "take_key n [] = None"
| "take_key n (s # ss) =
     (if sk_seq s = n then Some (sk_key s, ss)
      else case take_key n ss of None \<Rightarrow> None | Some (k, ss') \<Rightarrow> Some (k, s # ss'))"

definition buffered_key :: "prims \<Rightarrow> int \<Rightarrow> skipped_key list \<Rightarrow> (byte list \<times> skipped_key list) res" where
  "buffered_key P n buf =
     (case take_key n buf of
        None \<Rightarrow> Err ''replay''
      | Some (key_hex, rest) \<Rightarrow>
          and_then (hex_decode P key_hex) (\<lambda>bytes.
          and_then (to_array32 bytes) (\<lambda>arr. Ok (arr, rest))))"

text \<open>The loop that buffers the keys of a gap: \<open>n\<close> keys from sequence number \<open>i\<close>.\<close>

fun skip_keys ::
  "prims \<Rightarrow> string \<Rightarrow> nat \<Rightarrow> int \<Rightarrow> byte list \<Rightarrow> skipped_key list \<Rightarrow> (byte list \<times> skipped_key list) res" where
  "skip_keys P ctx 0 i chain buf = Ok (chain, buf)"
| "skip_keys P ctx (Suc n) i chain buf =
     and_then (derive_msg_key_bytes P chain ctx) (\<lambda>(key, next).
       let buf' = buf @ [\<lparr>sk_seq = i, sk_key = p_hex_encode P key\<rparr>] in
       skip_keys P ctx n (i + 1) next (if int (length buf') > MAX_RATCHET_WINDOW then tl buf' else buf'))"

text \<open>The message key of a header: the updated state, the key, and whether the header MAC is checked.\<close>

definition message_key ::
  "prims \<Rightarrow> ratchet_state \<Rightarrow> header \<Rightarrow> bool \<Rightarrow> ratchet_state \<Rightarrow> byte list \<Rightarrow> int
    \<Rightarrow> (ratchet_state \<times> byte list \<times> bool) res" where
  "message_key P st h prev_epoch out recv_chain prev_counter =
     (if prev_epoch then
        and_then (buffered_key P (hd_seq h) (prev_epoch_skipped out)) (\<lambda>(key, rest).
        Ok (out\<lparr>prev_epoch_skipped := rest\<rparr>, key, False))
      else if hd_seq h < prev_counter then
        and_then (buffered_key P (hd_seq h) (skipped out)) (\<lambda>(key, rest).
        Ok (out\<lparr>skipped := rest\<rparr>, key, True))
      else
        and_then (sub_i64 (hd_seq h) prev_counter) (\<lambda>gap.
        if gap > MAX_RATCHET_WINDOW
        then Err ''message too far ahead of ratchet (lost messages; re-sync required)''
        else
          and_then (skip_keys P (rs_context st) (nat gap) prev_counter recv_chain (skipped out)) (\<lambda>(chain, buf).
          and_then (derive_msg_key_bytes P chain (rs_context st)) (\<lambda>(mk, next).
          and_then (add_i64 (hd_seq h) 1) (\<lambda>next_seq.
          Ok (out\<lparr>skipped := buf, receiving_chain_key := p_hex_encode P next,
                   receiving_chain_counter := next_seq\<rparr>, mk, True))))))"

definition decrypt_ratchet ::
  "prims \<Rightarrow> draws \<Rightarrow> ratchet_state \<Rightarrow> header \<Rightarrow> string \<Rightarrow> (ratchet_state \<times> byte list) res" where
  "decrypt_ratchet P d st h ciphertext =
     (if rs_version st \<noteq> RATCHET_VERSION then Err ''ratchet v3 required''
      else if hd_version h \<noteq> RATCHET_VERSION then Err ''unsupported ratchet header version''
      else if length (hd_pk h) \<noteq> HYBRID_PK_LEN * 2 then Err ''bad pk size''
      else if length (hd_ct h) \<noteq> HYBRID_CT_LEN * 2 then Err ''bad ct size''
      else if length ciphertext > MAX_RATCHET_CIPHERTEXT then Err ''ciphertext too large''
      else and_then (add_i64 (hd_chain_counter h) 1) (\<lambda>hcc1.
        if hcc1 < chain_counter st then Err ''replay''
        else and_then (add_i64 (chain_counter st) 1) (\<lambda>scc1.
          if hd_chain_counter h > scc1
          then Err ''message too far ahead of ratchet (lost messages; re-sync required)''
          else
            and_then (receiving_epoch P d st h (hd_chain_counter h = scc1)) (\<lambda>(out, recv_chain, prev_counter).
            and_then (message_key P st h (hcc1 = chain_counter st) out recv_chain prev_counter) (\<lambda>(out', msg_key, mac_ok).
            and_then (nip44_open P ciphertext msg_key (conversation_key P msg_key)) (\<lambda>compressed.
            and_then (decompress_bytes P compressed) (\<lambda>plaintext.
            if mac_ok then
              (if verify_header_mac P (header_mac_key P (root_key out')) h
               then Ok (out'\<lparr>peer_pk := hd_pk h\<rparr>, plaintext)
               else Err ''bad header mac'')
            else Ok (out', plaintext))))))))"

subsection \<open>Direct-message helpers\<close>

definition state_key :: "string \<Rightarrow> string" where
  "state_key peer = ''pqc_state:'' @ peer"

text \<open>Rust compares strings by their bytes, lexicographically.\<close>

fun str_le :: "string \<Rightarrow> string \<Rightarrow> bool" where
  "str_le [] t = True"
| "str_le (c # s) [] = False"
| "str_le (c # s) (d # t) =
     ((of_char c :: nat) < of_char d \<or> (c = d \<and> str_le s t))"

definition ratchet_context :: "string \<Rightarrow> string \<Rightarrow> string" where
  "ratchet_context my_pubkey peer =
     (case (if str_le my_pubkey peer then (my_pubkey, peer) else (peer, my_pubkey)) of
        (first, second) \<Rightarrow> ''dm:'' @ first @ '':'' @ second)"

definition ratchet_wrapper_tags :: "ratchet_state \<Rightarrow> header \<Rightarrow> string list list" where
  "ratchet_wrapper_tags out h =
     [[''p'', peer_pk out], [''pqc_pk'', current_pk out], [''pqc_pk_version'', ''1''],
      [''ratchet_pk'', hd_pk h], [''ratchet_ct'', hd_ct h], [''ratchet_seq'', show_int (hd_seq h)],
      [''ratchet_cc'', show_int (hd_chain_counter h)], [''ratchet_header_mac'', hd_mac h],
      [''ratchet_version'', show_nat (unat (hd_version h))]]"

text \<open>\<open>tag_of\<close>: the second element of the first tag with the name.\<close>

fun tag_of :: "string list list \<Rightarrow> string \<Rightarrow> string option" where
  "tag_of [] nm = None"
| "tag_of (t # ts) nm =
     (case t of
        [] \<Rightarrow> tag_of ts nm
      | k # rest \<Rightarrow> if k = nm then (case rest of [] \<Rightarrow> None | v # _ \<Rightarrow> Some v) else tag_of ts nm)"

definition ratchet_header_from_tags :: "string list list \<Rightarrow> header option" where
  "ratchet_header_from_tags tags =
     (case (tag_of tags ''ratchet_pk'', tag_of tags ''ratchet_ct'', tag_of tags ''ratchet_seq'',
            tag_of tags ''ratchet_cc'', tag_of tags ''ratchet_version'') of
        (Some pk, Some ct, Some h_seq, Some h_cc, Some h_version) \<Rightarrow>
          (case (parse_i64 h_seq, parse_i64 h_cc, parse_u8 h_version) of
             (Some seq, Some cc, Some version) \<Rightarrow>
               if version \<noteq> RATCHET_VERSION then None
               else Some \<lparr>hd_version = version, hd_pk = pk, hd_ct = ct, hd_seq = seq, hd_chain_counter = cc,
                         hd_mac = (case tag_of tags ''ratchet_header_mac'' of None \<Rightarrow> '''' | Some m \<Rightarrow> m)\<rparr>
           | _ \<Rightarrow> None)
      | _ \<Rightarrow> None)"

end
