(* ===== verification/Ratchet_Props.thy ===== *)
theory Ratchet_Props
  imports Ratchet
begin

section \<open>Correctness of the ratchet\<close>

text \<open>
  The lemmas about \<open>Ratchet\<close>. \<open>ratchet_prims_ok\<close> collects what the third-party primitives promise,
  \<open>draws_ok\<close> that the random draws succeeded with their sizes, \<open>msg_ok\<close> the size of a message that the
  peer's ciphertext cap admits. \<open>session\<close> is the invariant of two states that have exchanged everything
  sent so far: whoever speaks next is understood. \<open>open_chain\<close> is the receiver's side of one epoch under
  arbitrary delivery order.
\<close>

subsection \<open>Assumptions\<close>

definition ratchet_prims_ok :: "prims \<Rightarrow> bool" where
  "ratchet_prims_ok P \<longleftrightarrow>
     nip44_prims_ok P \<and> kem_prims_ok P \<and> deflate_prims_ok P
   \<and> (\<forall>b. length (p_base64_encode P b) = 4 * ((length b + 2) div 3) \<and> ascii (p_base64_encode P b))"

definition draws_ok :: "draws \<Rightarrow> bool" where
  "draws_ok d \<longleftrightarrow>
     (\<exists>e. dr_eph d = Some e \<and> length e = 32) \<and> (\<exists>x. dr_x25519 d = Some x \<and> length x = 32)
   \<and> (\<exists>s. dr_seed d = Some s \<and> length s = 64) \<and> (\<exists>n. dr_nonce d = Some n \<and> length n = 32)"

definition msg_ok :: "prims \<Rightarrow> byte list \<Rightarrow> bool" where
  "msg_ok P pt \<longleftrightarrow> length pt \<le> MAX_INPUT_LEN \<and> length (p_deflate P pt) < 40960"

lemma ratchet_primsD:
  assumes "ratchet_prims_ok P"
  shows "nip44_prims_ok P" "kem_prims_ok P" "deflate_prims_ok P" "hex_prims_ok P" "hkdf_prims_ok P"
  using assms by (simp_all add: ratchet_prims_ok_def kem_prims_ok_def)

subsection \<open>Hex and key derivation\<close>

lemma hex_decode_hex:
  "hex_prims_ok P \<Longrightarrow> length b \<le> 262144 \<Longrightarrow> hex_decode P (p_hex_encode P b) = Ok b"
  by (simp add: hex_decode_def length_hex_encode hex_decode_encode)

lemma hex_encode_neq_Nil: "hex_prims_ok P \<Longrightarrow> b \<noteq> [] \<Longrightarrow> p_hex_encode P b \<noteq> ''''"
  using length_hex_encode [of P b] by auto

lemma hex_encode32: "hex_prims_ok P \<Longrightarrow> length b = 32 \<Longrightarrow> p_hex_encode P b \<noteq> ''''"
  by (rule hex_encode_neq_Nil) auto

lemma hkdf_r_ok:
  "hkdf_prims_ok P \<Longrightarrow> n \<le> 8160 \<Longrightarrow> \<exists>okm. hkdf_r P ikm salt info n = Ok okm \<and> length okm = n"
  using hkdf_sha256_ok [of P n ikm salt info] by (auto simp: hkdf_r_def)

lemma hkdf_r_okE:
  assumes "hkdf_prims_ok P" "n \<le> 8160"
  obtains okm where "hkdf_r P ikm salt info n = Ok okm" "length okm = n"
  using hkdf_r_ok [OF assms, of ikm salt info] by blast

lemma derive_msg_key_bytes_ok:
  assumes "hkdf_prims_ok P"
  obtains mk ck' where "derive_msg_key_bytes P ck ctx = Ok (mk, ck')" "length mk = 32" "length ck' = 32"
proof -
  obtain okm where "hkdf_r P ck (bytes_of ''soshal-pqc-ratchet-msg-salt-v3'')
      (bytes_of ''pqc-ratchet-msg-v3:'' @ bytes_of ctx) 64 = Ok okm" "length okm = 64"
    by (rule hkdf_r_okE [OF assms, of 64]) simp_all
  then have "derive_msg_key_bytes P ck ctx = Ok (take 32 okm, take 32 (drop 32 okm))"
    "length (take 32 okm) = 32" "length (take 32 (drop 32 okm)) = 32"
    by (simp_all add: derive_msg_key_bytes_def)
  then show thesis by (rule that)
qed

definition root_ok :: "prims \<Rightarrow> string \<Rightarrow> bool" where
  "root_ok P root \<longleftrightarrow> root = '''' \<or> (\<exists>r. root = p_hex_encode P r \<and> length r = 32)"

lemma root_step_ok:
  assumes P: "hex_prims_ok P" "hkdf_prims_ok P" and root: "root_ok P root"
  obtains r c where "root_step P ss root ctx = Ok (p_hex_encode P r, c)" "length r = 32" "length c = 32"
proof (cases "root = ''''")
  case True
  obtain r where r: "init_root P ss ctx = Ok r" "length r = 32"
    by (rule hkdf_r_okE [OF P(2), of 32]) (simp_all add: init_root_def)
  obtain c where "hkdf_r P r CHAIN_SALT (bytes_of (''soshal-ratchet-v3:chain:'' @ ctx)) 32 = Ok c" "length c = 32"
    by (rule hkdf_r_okE [OF P(2), of 32]) simp_all
  with r have "root_step P ss root ctx = Ok (p_hex_encode P r, c)"
    by (simp add: root_step_def True derive_chain_def hex_decode_hex [OF P(1)])
  with r \<open>length c = 32\<close> show thesis by (intro that)
next
  case False
  then obtain r0 where r0: "root = p_hex_encode P r0" "length r0 = 32"
    using root by (auto simp: root_ok_def)
  obtain out where "hkdf_r P ss r0 (bytes_of (''soshal-ratchet-v3:root:'' @ ctx)) 64 = Ok out" "length out = 64"
    by (rule hkdf_r_okE [OF P(2), of 64]) simp_all
  then have "root_step P ss root ctx = Ok (p_hex_encode P (take 32 out), take 32 (drop 32 out))"
    "length (take 32 out) = 32" "length (take 32 (drop 32 out)) = 32"
    using False r0 by (simp_all add: root_step_def derive_root_step_def hex_decode_hex [OF P(1)])
  then show thesis by (rule that)
qed

lemma verify_new_header:
  assumes "hex_prims_ok P"
  shows "verify_header_mac P (header_mac_key P (root_key ep)) (new_header P ep)"
  using assms by (simp add: verify_header_mac_def new_header_def compute_header_mac_def
      header_mac_bytes_def hex_decode_encode Let_def)

lemma new_header_sel [simp]:
  "hd_version (new_header P ep) = RATCHET_VERSION" "hd_pk (new_header P ep) = current_pk ep"
  "hd_ct (new_header P ep) = sending_ct ep" "hd_seq (new_header P ep) = sending_chain_counter ep"
  "hd_chain_counter (new_header P ep) = chain_counter ep"
  by (simp_all add: new_header_def Let_def)

subsection \<open>Sealing and opening one message\<close>

lemma calc_padding_small:
  assumes "len \<le> 40960"
  shows "calc_padding len \<le> 40960"
proof (cases "len \<le> 32768")
  case True
  then show ?thesis
    using calc_padding_waste [of len] pad_chunk_le [of len] by (cases "32 < len") (auto simp: calc_padding_def)
next
  case False
  then have "calc_padding len = 8192 * ((len - 1) div 8192 + 1)"
    using assms log2_round_down_eq [of 15 "len - 1"] by (simp add: calc_padding_def Let_def)
  moreover have "(len - 1) div 8192 \<le> 4" using assms by simp
  ultimately show ?thesis by simp
qed

lemma calc_padding_large:
  assumes "40960 < len"
  shows "49152 \<le> calc_padding len"
proof (cases "len \<le> 49152")
  case False
  then show ?thesis using calc_padding_ge [of len] by simp
next
  case True
  then have "calc_padding len = 8192 * ((len - 1) div 8192 + 1)"
    using assms log2_round_down_eq [of 15 "len - 1"] by (simp add: calc_padding_def Let_def)
  moreover have "5 \<le> (len - 1) div 8192" using assms by simp
  ultimately show ?thesis by simp
qed

lemma compress_bytes_ok:
  assumes "length pt \<le> MAX_INPUT_LEN"
  shows "compress_bytes P pt = Ok (RAW_PLAINTEXT_TAG # p_deflate P pt)"
  using assms by (simp add: compress_bytes_def compress_def MAX_INPUT_LEN_def MAX_COMPRESS_BYTES_def)

lemma decompress_compress_bytes:
  assumes "deflate_prims_ok P" "length pt \<le> MAX_INPUT_LEN"
  shows "decompress_bytes P (RAW_PLAINTEXT_TAG # p_deflate P pt) = Ok pt"
proof -
  have "compress P pt = Ok (p_deflate P pt)" "length pt \<le> MAX_OUTPUT"
    using assms(2) by (simp_all add: compress_def MAX_INPUT_LEN_def MAX_COMPRESS_BYTES_def MAX_OUTPUT_def)
  with decompress_compress [OF assms(1)] show ?thesis
    by (simp add: decompress_bytes_def)
qed

lemma length_sealed:
  assumes "ratchet_prims_ok P" "length nonce = 32" "z \<noteq> []"
    and "nip44_seal P (Some nonce) z ck = Ok c"
  shows "length c = 4 * ((67 + length (encode_prefix (length z)) + calc_padding (length z)) div 3)"
  using assms length_nip44_payload [OF ratchet_primsD(1) [OF assms(1)], of ck nonce z]
  by (auto simp: nip44_seal_def ratchet_prims_ok_def length_padded_body add.commute add.left_commute)

lemma sealed_message:
  assumes P: "ratchet_prims_ok P" and n: "length nonce = 32" and pt: "msg_ok P pt"
  obtains z c where "compress_bytes P pt = Ok z" "nip44_seal P (Some nonce) z ck = Ok c"
    "length c \<le> MAX_RATCHET_CIPHERTEXT" "\<And>key. nip44_open P c key ck = Ok z"
    "decompress_bytes P z = Ok pt" "ascii c" "c \<noteq> ''''"
proof -
  define z where "z = RAW_PLAINTEXT_TAG # p_deflate P pt"
  obtain c where c: "nip44_seal P (Some nonce) z ck = Ok c" by (simp add: nip44_seal_def z_def)
  have len: "length z \<le> 40960" "length pt \<le> MAX_INPUT_LEN" using pt by (simp_all add: z_def msg_ok_def)
  have "length c \<le> MAX_RATCHET_CIPHERTEXT"
    using length_sealed [OF P n _ c] calc_padding_small [OF len(1)] len
    by (simp add: z_def length_encode_prefix MAX_RATCHET_CIPHERTEXT_def)
  moreover have "nip44_open P c key ck = Ok z" for key
    using len c by (intro nip44_open_seal [OF ratchet_primsD(1) [OF P] n]) (simp_all add: z_def)
  moreover have "ascii c" "c \<noteq> ''''"
    using c P length_sealed [OF P n _ c] by (auto simp: nip44_seal_def z_def ratchet_prims_ok_def)
  ultimately show thesis
    using that c compress_bytes_ok [OF len(2), of P]
      decompress_compress_bytes [OF ratchet_primsD(3) [OF P] len(2)] by (simp add: z_def)
qed

lemma encrypt_ratchet_ok:
  assumes P: "ratchet_prims_ok P" and d: "draws_ok d" and pt: "msg_ok P pt"
    and S: "rs_version S = RATCHET_VERSION" "peer_pk S \<noteq> ''''"
    and ep: "sending_epoch P d S = Ok ep" "sending_chain_key ep = p_hex_encode P k" "length k = 32"
    and key: "derive_msg_key_bytes P k (rs_context S) = Ok (mk, k')"
    and seq: "0 \<le> sending_chain_counter ep" "sending_chain_counter ep < I64_MAX"
  obtains z c where
    "encrypt_ratchet P d S pt = Ok (ep\<lparr>rs_version := RATCHET_VERSION, sending_chain_key := p_hex_encode P k',
        sending_chain_counter := sending_chain_counter ep + 1\<rparr>, new_header P ep, c)"
    "length c \<le> MAX_RATCHET_CIPHERTEXT" "nip44_open P c mk (conversation_key P mk) = Ok z"
    "decompress_bytes P z = Ok pt" "ascii c" "c \<noteq> ''''"
proof -
  obtain nonce where n: "dr_nonce d = Some nonce" "length nonce = 32" using d by (auto simp: draws_ok_def)
  obtain z c where zc: "compress_bytes P pt = Ok z" "nip44_seal P (Some nonce) z (conversation_key P mk) = Ok c"
    "length c \<le> MAX_RATCHET_CIPHERTEXT" "\<And>key. nip44_open P c key (conversation_key P mk) = Ok z"
    "decompress_bytes P z = Ok pt" "ascii c" "c \<noteq> ''''"
    using sealed_message [OF P n(2) pt] by metis
  have mk: "derive_msg_key P (sending_chain_key ep) (rs_context S) = Ok (mk, k')"
    using key ep(3) by (simp add: derive_msg_key_def ep(2) hex_decode_hex [OF ratchet_primsD(4) [OF P]])
  have add: "add_i64 (sending_chain_counter ep) 1 = Ok (sending_chain_counter ep + 1)"
    using seq by simp
  have "encrypt_ratchet P d S pt = Ok (ep\<lparr>rs_version := RATCHET_VERSION, sending_chain_key := p_hex_encode P k',
        sending_chain_counter := sending_chain_counter ep + 1\<rparr>, new_header P ep, c)"
    using S by (simp add: encrypt_ratchet_def ep(1) mk zc(1) n(1) zc(2) add Let_def)
  with zc show thesis by (intro that)
qed

lemma decrypt_ratchet_finish:
  assumes "rs_version R = RATCHET_VERSION" "hd_version h = RATCHET_VERSION"
    "length (hd_pk h) = HYBRID_PK_LEN * 2" "length (hd_ct h) = HYBRID_CT_LEN * 2"
    "length c \<le> MAX_RATCHET_CIPHERTEXT"
    and cc: "hd_chain_counter h = chain_counter R \<or> hd_chain_counter h = chain_counter R + 1"
    "0 \<le> chain_counter R" "hd_chain_counter h < I64_MAX" "chain_counter R < I64_MAX"
    and ep: "receiving_epoch P d R h (hd_chain_counter h = chain_counter R + 1) = Ok (out, k, n)"
    and key: "message_key P R h False out k n = Ok (out', mk, True)"
    and pt: "nip44_open P c mk (conversation_key P mk) = Ok z" "decompress_bytes P z = Ok pt"
    and mac: "verify_header_mac P (header_mac_key P (root_key out')) h"
  shows "decrypt_ratchet P d R h c = Ok (out'\<lparr>peer_pk := hd_pk h\<rparr>, pt)"
proof -
  have add: "add_i64 (hd_chain_counter h) 1 = Ok (hd_chain_counter h + 1)"
    "add_i64 (chain_counter R) 1 = Ok (chain_counter R + 1)" using cc by auto
  have ne: "(hd_chain_counter h + 1 = chain_counter R) = False" using cc by auto
  show ?thesis
    using assms(1-5) cc(1) by (auto simp: decrypt_ratchet_def add ep ne key pt mac)
qed

lemma message_key_in_order:
  assumes "hd_seq h = n" "derive_msg_key_bytes P k (rs_context R) = Ok (mk, k')" "0 \<le> n" "n < I64_MAX"
  shows "message_key P R h False out k n
    = Ok (out\<lparr>receiving_chain_key := p_hex_encode P k', receiving_chain_counter := n + 1\<rparr>, mk, True)"
proof -
  have "sub_i64 (hd_seq h) n = Ok 0" "add_i64 (hd_seq h) 1 = Ok (n + 1)"
    using assms by (simp_all add: sub_i64_def)
  with assms(1,2) show ?thesis by (simp add: message_key_def MAX_RATCHET_WINDOW_def)
qed

subsection \<open>Two states in step\<close>

definition same_chain :: "prims \<Rightarrow> ratchet_state \<Rightarrow> ratchet_state \<Rightarrow> bool" where
  "same_chain P S R \<longleftrightarrow>
     (\<exists>k. length k = 32 \<and> sending_chain_key S = p_hex_encode P k \<and> receiving_chain_key R = p_hex_encode P k)
   \<and> sending_chain_counter S = receiving_chain_counter R \<and> 0 \<le> sending_chain_counter S
   \<and> hybrid_pair P (current_pk S) (current_sk S) \<and> length (sending_ct S) = 2 * HYBRID_CT_LEN \<and> is_hex (sending_ct S)
   \<and> peer_pk R = current_pk S \<and> need_new_epoch R"

definition can_reach :: "prims \<Rightarrow> ratchet_state \<Rightarrow> ratchet_state \<Rightarrow> bool" where
  "can_reach P S R \<longleftrightarrow>
     (if need_new_epoch S then peer_pk S = '''' \<or> hybrid_pair P (peer_pk S) (current_sk R) else same_chain P S R)"

definition session :: "prims \<Rightarrow> string set \<Rightarrow> int \<Rightarrow> ratchet_state \<Rightarrow> ratchet_state \<Rightarrow> bool" where
  "session P used n A B \<longleftrightarrow>
     rs_version A = RATCHET_VERSION \<and> rs_version B = RATCHET_VERSION \<and> rs_context A = rs_context B
   \<and> root_key A = root_key B \<and> root_ok P (root_key A)
   \<and> chain_counter A = chain_counter B \<and> 0 \<le> chain_counter A \<and> chain_counter A \<le> n
   \<and> sending_chain_counter A \<le> n \<and> sending_chain_counter B \<le> n
   \<and> sending_epoch_peer_pk A \<in> used \<and> sending_epoch_peer_pk B \<in> used
   \<and> peer_pk A \<in> used \<and> peer_pk B \<in> used \<and> '''' \<in> used
   \<and> can_reach P A B \<and> can_reach P B A"

lemma session_sym: "session P used n A B \<Longrightarrow> session P used n B A"
  by (auto simp: session_def)

lemma session_init:
  assumes "hybrid_pair P pkB skB" "peer_of_B = '''' \<or> hybrid_pair P peer_of_B skA"
  shows "session P {'''', pkB, peer_of_B} 0 (init_state pkB ctx skA pkA) (init_state peer_of_B ctx skB pkB)"
  using assms by (simp add: session_def init_state_def root_ok_def can_reach_def need_new_epoch_def)

text \<open>The public key the draws of an operation generate.\<close>

definition drawn_pk :: "prims \<Rightarrow> draws \<Rightarrow> string" where
  "drawn_pk P d = (case hybrid_keygen P (dr_x25519 d) (dr_seed d) of Ok (pk, sk) \<Rightarrow> pk | _ \<Rightarrow> '''')"

lemma drawn_pair:
  assumes "draws_ok d"
  obtains sk where "hybrid_keygen P (dr_x25519 d) (dr_seed d) = Ok (drawn_pk P d, sk)" "hybrid_pair P (drawn_pk P d) sk"
proof -
  obtain x s where xs: "dr_x25519 d = Some x" "length x = 32" "dr_seed d = Some s" "length s = 64"
    using assms by (auto simp: draws_ok_def)
  obtain pk sk where "hybrid_keygen P (Some x) (Some s) = Ok (pk, sk)"
    by (simp add: hybrid_keygen_def hybrid_keygen_bytes_def)
  with xs that show thesis by (auto simp: drawn_pk_def hybrid_pair_def)
qed

lemma RATCHET_DOMAIN_len: "length RATCHET_DOMAIN \<le> 1024"
  by (simp add: RATCHET_DOMAIN_def)

text \<open>Both sides of a KEM step: the sender's new epoch and the receiver's transition agree.\<close>

lemma kem_step:
  assumes P: "ratchet_prims_ok P" and d: "draws_ok d"
    and pair: "hybrid_pair P (peer_pk S) (current_sk R)" and new: "need_new_epoch S"
    and eq: "root_key S = root_key R" "rs_context S = rs_context R" "root_ok P (root_key S)"
    and cc: "0 \<le> chain_counter S" "chain_counter S < I64_MAX"
  obtains r k ct sk where
    "sending_epoch P d S = Ok (S\<lparr>root_key := p_hex_encode P r, sending_chain_key := p_hex_encode P k,
       chain_counter := chain_counter S + 1, sending_chain_counter := 0,
       sending_epoch_peer_pk := peer_pk S, sending_ct := ct, current_sk := sk, current_pk := drawn_pk P d\<rparr>)"
    "\<forall>h d'. draws_ok d' \<and> hd_ct h = ct \<longrightarrow> (\<exists>sk'. receiving_epoch P d' R h True =
       Ok (R\<lparr>root_key := p_hex_encode P r, chain_counter := hd_chain_counter h, receiving_chain_counter := 0,
             prev_epoch_skipped := retain_prev (skipped R) [], skipped := [],
             current_sk := sk', current_pk := drawn_pk P d'\<rparr>, k, 0))"
    "length r = 32" "length k = 32" "length ct = 2 * HYBRID_CT_LEN" "hybrid_pair P (drawn_pk P d) sk" "is_hex ct"
proof -
  note hex = ratchet_primsD(4) [OF P]
  obtain e where e: "dr_eph d = Some e" "length e = 32" using d by (auto simp: draws_ok_def)
  obtain ct ss where kem: "hybrid_encapsulate P (Some e) (dr_mlkem d) (peer_pk S) RATCHET_DOMAIN = Ok (ct, p_hex_encode P ss)"
    "length ct = 2 * HYBRID_CT_LEN \<and> is_hex ct" "length ss = 32"
    "hybrid_decapsulate P ct (current_sk R) RATCHET_DOMAIN = Ok (p_hex_encode P ss)"
    using hybrid_round_trip [OF ratchet_primsD(2) [OF P] pair e(2) RATCHET_DOMAIN_len] by blast
  have ss: "hex_decode P (p_hex_encode P ss) = Ok ss" using kem(3) by (simp add: hex_decode_hex [OF hex])
  obtain r k where rk: "root_step P ss (root_key S) (rs_context S) = Ok (p_hex_encode P r, k)"
    "length r = 32" "length k = 32"
    using root_step_ok [OF hex ratchet_primsD(5) [OF P] eq(3)] by metis
  obtain sk where sk: "hybrid_keygen P (dr_x25519 d) (dr_seed d) = Ok (drawn_pk P d, sk)" "hybrid_pair P (drawn_pk P d) sk"
    by (rule drawn_pair [OF d])
  have add: "add_i64 (chain_counter S) 1 = Ok (chain_counter S + 1)" using cc by simp
  have "sending_epoch P d S = Ok (S\<lparr>root_key := p_hex_encode P r, sending_chain_key := p_hex_encode P k,
       chain_counter := chain_counter S + 1, sending_chain_counter := 0,
       sending_epoch_peer_pk := peer_pk S, sending_ct := ct, current_sk := sk, current_pk := drawn_pk P d\<rparr>)"
    by (simp add: sending_epoch_def new e(1) kem(1) ss rk(1) sk(1) add)
  moreover have "\<exists>sk'. receiving_epoch P d' R h True =
       Ok (R\<lparr>root_key := p_hex_encode P r, chain_counter := hd_chain_counter h, receiving_chain_counter := 0,
             prev_epoch_skipped := retain_prev (skipped R) [], skipped := [],
             current_sk := sk', current_pk := drawn_pk P d'\<rparr>, k, 0)" if "draws_ok d'" "hd_ct h = ct" for h d'
    by (rule drawn_pair [OF that(1), of P])
       (rule exI, simp add: receiving_epoch_def that(2) kem(4) ss rk(1) eq(1,2) [symmetric])
  ultimately show thesis using rk kem(2) sk(2) by (intro that) blast+
qed

lemma hybrid_pair_neq_Nil: "kem_prims_ok P \<Longrightarrow> hybrid_pair P pk sk \<Longrightarrow> pk \<noteq> ''''"
  using hybrid_pair_sizes(1) [of P pk sk] by (auto simp: HYBRID_PK_LEN_def)

text \<open>What a message looks like on the wire: hex fields of fixed size, counters in range, ASCII ciphertext.\<close>

definition wire_ok :: "header \<Rightarrow> string \<Rightarrow> bool" where
  "wire_ok h c \<longleftrightarrow>
     is_hex (hd_pk h) \<and> is_hex (hd_ct h) \<and> is_hex (hd_mac h)
   \<and> length (hd_pk h) = 2 * HYBRID_PK_LEN \<and> length (hd_ct h) = 2 * HYBRID_CT_LEN \<and> length (hd_mac h) = 64
   \<and> 0 \<le> hd_seq h \<and> hd_seq h < I64_MAX \<and> 0 \<le> hd_chain_counter h \<and> hd_chain_counter h < I64_MAX
   \<and> ascii c \<and> c \<noteq> '''' \<and> length c \<le> MAX_RATCHET_CIPHERTEXT"

lemma wire_ok_new_header:
  assumes P: "ratchet_prims_ok P" and pk: "hybrid_pair P (current_pk ep) sk"
    and ct: "length (sending_ct ep) = 2 * HYBRID_CT_LEN" "is_hex (sending_ct ep)"
    and n: "0 \<le> sending_chain_counter ep" "sending_chain_counter ep < I64_MAX" "0 \<le> chain_counter ep" "chain_counter ep < I64_MAX"
    and c: "length c \<le> MAX_RATCHET_CIPHERTEXT" "ascii c" "c \<noteq> ''''"
  shows "wire_ok (new_header P ep) c"
proof -
  have "\<exists>b. hd_mac (new_header P ep) = p_hex_encode P b \<and> length b = 32"
    using ratchet_primsD(1) [OF P] by (auto simp: new_header_def Let_def compute_header_mac_def
        header_mac_bytes_def nip44_prims_ok_def)
  then have "is_hex (hd_mac (new_header P ep))" "length (hd_mac (new_header P ep)) = 64"
    using ratchet_primsD(4) [OF P] by (auto simp: is_hex_encode length_hex_encode)
  then show ?thesis
    using hybrid_pair_sizes(1) [OF ratchet_primsD(2) [OF P] pk] hybrid_pair_hex [OF ratchet_primsD(2) [OF P] pk] ct n c
    by (simp add: wire_ok_def)
qed

text \<open>The states after the first message of an epoch, by their fields.\<close>

lemma session_after_epoch:
  assumes P: "kem_prims_ok P" and pair: "hybrid_pair P pk sk" and k: "length k = 32"
    and r: "length r = 32" and ct: "length ct = 2 * HYBRID_CT_LEN" "is_hex ct"
    and fresh: "pk \<notin> used" and used: "peer_pk A \<in> used" "sending_epoch_peer_pk B \<in> used" "'''' \<in> used"
    and ver: "rs_version A = RATCHET_VERSION" "rs_version B = RATCHET_VERSION" "rs_context A = rs_context B"
    and root: "root_key A = p_hex_encode P r" "root_key B = p_hex_encode P r"
    and cc: "chain_counter A = chain_counter B" "0 \<le> chain_counter A" "chain_counter A \<le> n"
    and seq: "sending_chain_counter A = 1" "sending_chain_counter B \<le> n" "1 \<le> n" "receiving_chain_counter B = 1"
    and chain: "sending_chain_key A = p_hex_encode P k" "receiving_chain_key B = p_hex_encode P k"
    and A: "sending_epoch_peer_pk A = peer_pk A" "sending_ct A = ct" "current_sk A = sk" "current_pk A = pk"
    and B: "peer_pk B = pk"
  shows "session P (insert pk used) n A B"
proof -
  have "pk \<noteq> ''''" "p_hex_encode P k \<noteq> ''''"
    using hybrid_pair_neq_Nil [OF P pair] hex_encode32 [OF kem_hex [OF P] k] by simp_all
  then have old: "\<not> need_new_epoch A" and new: "need_new_epoch B"
    using fresh used(2) by (auto simp: need_new_epoch_def chain A B)
  have "same_chain P A B" using pair k ct new by (auto simp: same_chain_def chain A B seq)
  with old have "can_reach P A B" by (simp add: can_reach_def)
  moreover have "can_reach P B A" using new pair by (simp add: can_reach_def A B)
  moreover have "root_ok P (root_key A)" using r by (auto simp: root_ok_def root)
  ultimately show ?thesis
    using used cc(2,3) seq by (simp add: session_def ver root A B cc(1) [symmetric])
qed

lemma deliver_new_epoch:
  assumes P: "ratchet_prims_ok P" and d: "draws_ok d" "draws_ok d'" and pt: "msg_ok P pt"
    and S: "session P used n A B" "n + 2 \<le> I64_MAX" "peer_pk A \<noteq> ''''"
    and new: "need_new_epoch A" and fresh: "drawn_pk P d \<notin> used"
  shows "\<exists>A' h c B'. encrypt_ratchet P d A pt = Ok (A', h, c) \<and> wire_ok h c \<and> decrypt_ratchet P d' B h c = Ok (B', pt)
    \<and> session P (insert (drawn_pk P d) used) (n + 1) A' B' \<and> peer_pk A' \<noteq> '''' \<and> peer_pk B' \<noteq> ''''"
proof -
  note hex = ratchet_primsD(4) [OF P]
  have inv: "rs_version A = RATCHET_VERSION" "rs_version B = RATCHET_VERSION" "rs_context A = rs_context B"
    "root_key A = root_key B" "root_ok P (root_key A)" "chain_counter A = chain_counter B"
    "0 \<le> chain_counter A" "chain_counter A \<le> n" "hybrid_pair P (peer_pk A) (current_sk B)"
    "sending_chain_counter B \<le> n" "sending_epoch_peer_pk B \<in> used" "peer_pk A \<in> used" "'''' \<in> used"
    using S new by (auto simp: session_def can_reach_def)
  from inv S(2) have cc: "chain_counter A < I64_MAX" by linarith
  obtain r k ct sk where ep:
    "sending_epoch P d A = Ok (A\<lparr>root_key := p_hex_encode P r, sending_chain_key := p_hex_encode P k,
       chain_counter := chain_counter A + 1, sending_chain_counter := 0,
       sending_epoch_peer_pk := peer_pk A, sending_ct := ct, current_sk := sk, current_pk := drawn_pk P d\<rparr>)"
      (is "_ = Ok ?ep")
    and recv: "\<forall>h d'. draws_ok d' \<and> hd_ct h = ct \<longrightarrow> (\<exists>sk'. receiving_epoch P d' B h True =
       Ok (B\<lparr>root_key := p_hex_encode P r, chain_counter := hd_chain_counter h, receiving_chain_counter := 0,
             prev_epoch_skipped := retain_prev (skipped B) [], skipped := [],
             current_sk := sk', current_pk := drawn_pk P d'\<rparr>, k, 0))"
    and sizes: "length r = 32" "length k = 32" "length ct = 2 * HYBRID_CT_LEN"
      "hybrid_pair P (drawn_pk P d) sk" "is_hex ct"
    by (rule kem_step [OF P d(1) inv(9) new inv(4,3,5,7) cc]) blast
  obtain mk k' where mk: "derive_msg_key_bytes P k (rs_context A) = Ok (mk, k')" "length k' = 32"
    using derive_msg_key_bytes_ok [OF ratchet_primsD(5) [OF P]] by metis
  obtain z c where enc: "encrypt_ratchet P d A pt = Ok (?ep\<lparr>rs_version := RATCHET_VERSION,
        sending_chain_key := p_hex_encode P k', sending_chain_counter := 0 + 1\<rparr>, new_header P ?ep, c)"
    and c: "length c \<le> MAX_RATCHET_CIPHERTEXT" "nip44_open P c mk (conversation_key P mk) = Ok z"
      "decompress_bytes P z = Ok pt" "ascii c" "c \<noteq> ''''"
    by (rule encrypt_ratchet_ok [OF P d(1) pt inv(1) S(3) ep _ sizes(2) mk(1)]) auto
  obtain sk' where recv1: "receiving_epoch P d' B (new_header P ?ep) True =
      Ok (B\<lparr>root_key := p_hex_encode P r, chain_counter := hd_chain_counter (new_header P ?ep),
             receiving_chain_counter := 0, prev_epoch_skipped := retain_prev (skipped B) [], skipped := [],
             current_sk := sk', current_pk := drawn_pk P d'\<rparr>, k, 0)"
    using recv [rule_format, of d' "new_header P ?ep"] d(2) by auto
  let ?B = "B\<lparr>root_key := p_hex_encode P r, chain_counter := chain_counter A + 1, receiving_chain_counter := 0,
             prev_epoch_skipped := retain_prev (skipped B) [], skipped := [],
             current_sk := sk', current_pk := drawn_pk P d'\<rparr>"
  have recv': "receiving_epoch P d' B (new_header P ?ep)
      (hd_chain_counter (new_header P ?ep) = chain_counter B + 1) = Ok (?B, k, 0)"
    using recv1 inv(6) by simp
  have key: "message_key P B (new_header P ?ep) False ?B k 0
    = Ok (?B\<lparr>receiving_chain_key := p_hex_encode P k', receiving_chain_counter := 0 + 1\<rparr>, mk, True)"
    using mk(1) inv(3) by (intro message_key_in_order) simp_all
  have dec: "decrypt_ratchet P d' B (new_header P ?ep) c
    = Ok (?B\<lparr>receiving_chain_key := p_hex_encode P k', receiving_chain_counter := 0 + 1\<rparr>
            \<lparr>peer_pk := hd_pk (new_header P ?ep)\<rparr>, pt)"
    using verify_new_header [OF hex, of ?ep] inv S(2) sizes c(1)
      hybrid_pair_sizes(1) [OF ratchet_primsD(2) [OF P] sizes(4)]
    by (intro decrypt_ratchet_finish [OF _ _ _ _ _ _ _ _ _ recv' key c(2,3)])
       (simp_all add: mult.commute)
  have "session P (insert (drawn_pk P d) used) (n + 1)
      (?ep\<lparr>rs_version := RATCHET_VERSION, sending_chain_key := p_hex_encode P k', sending_chain_counter := 0 + 1\<rparr>)
      (?B\<lparr>receiving_chain_key := p_hex_encode P k', receiving_chain_counter := 0 + 1\<rparr>
         \<lparr>peer_pk := hd_pk (new_header P ?ep)\<rparr>)"
    by (rule session_after_epoch [OF ratchet_primsD(2) [OF P] sizes(4) mk(2) sizes(1,3,5) fresh])
       (use inv S(2,3) in simp_all)
  moreover have "wire_ok (new_header P ?ep) c"
    using sizes inv S(2) c(1,4,5) by (intro wire_ok_new_header [OF P, where sk = sk]) simp_all
  ultimately show ?thesis
    using enc dec S(3) hybrid_pair_neq_Nil [OF ratchet_primsD(2) [OF P] sizes(4)] by simp
qed

text \<open>The states after a further message of the running epoch, by their fields.\<close>

lemma session_continue:
  assumes S: "session P used n A B" and old: "\<not> need_new_epoch A" and P: "kem_prims_ok P" and k: "length k = 32"
    and A': "A' = A\<lparr>rs_version := RATCHET_VERSION, sending_chain_key := p_hex_encode P k,
                  sending_chain_counter := sending_chain_counter A + 1\<rparr>"
    and B': "B' = B\<lparr>receiving_chain_key := p_hex_encode P k,
                  receiving_chain_counter := sending_chain_counter A + 1, peer_pk := current_pk A\<rparr>"
  shows "session P used (n + 1) A' B'"
proof -
  have k0: "p_hex_encode P k \<noteq> ''''" by (rule hex_encode32 [OF kem_hex [OF P] k])
  have same: "same_chain P A B" using S old by (simp add: session_def can_reach_def)
  have needs: "need_new_epoch A' = False" "need_new_epoch B' = need_new_epoch B"
    using old k0 same by (simp_all add: A' B' need_new_epoch_def same_chain_def)
  have "same_chain P A' B'" using same k needs(2) by (auto simp: same_chain_def A' B')
  then have "can_reach P A' B'" by (simp add: can_reach_def needs)
  moreover have "can_reach P B' A'"
    using same S by (simp add: can_reach_def needs session_def) (simp add: A' B' same_chain_def)
  ultimately show ?thesis
    using S same by (auto simp: session_def A' B' same_chain_def)
qed

lemma deliver_same_epoch:
  assumes P: "ratchet_prims_ok P" and d: "draws_ok d" and pt: "msg_ok P pt"
    and S: "session P used n A B" "n + 2 \<le> I64_MAX" "peer_pk A \<noteq> ''''" and old: "\<not> need_new_epoch A"
  shows "\<exists>A' h c B'. encrypt_ratchet P d A pt = Ok (A', h, c) \<and> wire_ok h c \<and> decrypt_ratchet P d' B h c = Ok (B', pt)
    \<and> session P used (n + 1) A' B' \<and> peer_pk A' \<noteq> '''' \<and> peer_pk B' \<noteq> ''''"
proof -
  note hex = ratchet_primsD(4) [OF P] and kem = ratchet_primsD(2) [OF P]
  have inv: "rs_version A = RATCHET_VERSION" "rs_version B = RATCHET_VERSION" "rs_context A = rs_context B"
    "root_key A = root_key B" "chain_counter A = chain_counter B" "0 \<le> chain_counter A" "chain_counter A \<le> n"
    "sending_chain_counter A \<le> n" "same_chain P A B"
    using S old by (auto simp: session_def can_reach_def)
  then obtain k where k: "length k = 32" "sending_chain_key A = p_hex_encode P k" "receiving_chain_key B = p_hex_encode P k"
    and seq: "receiving_chain_counter B = sending_chain_counter A" "0 \<le> sending_chain_counter A"
    and pk: "hybrid_pair P (current_pk A) (current_sk A)" "length (sending_ct A) = 2 * HYBRID_CT_LEN" "is_hex (sending_ct A)"
    by (auto simp: same_chain_def)
  have ep: "sending_epoch P d A = Ok A" using old by (simp add: sending_epoch_def)
  obtain mk k' where mk: "derive_msg_key_bytes P k (rs_context A) = Ok (mk, k')" "length k' = 32"
    using derive_msg_key_bytes_ok [OF ratchet_primsD(5) [OF P]] by metis
  have bound: "sending_chain_counter A < I64_MAX" using inv(8) S(2) by linarith
  obtain z c where enc: "encrypt_ratchet P d A pt = Ok (A\<lparr>rs_version := RATCHET_VERSION,
        sending_chain_key := p_hex_encode P k', sending_chain_counter := sending_chain_counter A + 1\<rparr>, new_header P A, c)"
    and c: "length c \<le> MAX_RATCHET_CIPHERTEXT" "nip44_open P c mk (conversation_key P mk) = Ok z"
      "decompress_bytes P z = Ok pt" "ascii c" "c \<noteq> ''''"
    by (rule encrypt_ratchet_ok [OF P d pt inv(1) S(3) ep k(2,1) mk(1) seq(2) bound])
  have recv: "receiving_epoch P d' B (new_header P A) (hd_chain_counter (new_header P A) = chain_counter B + 1)
      = Ok (B, k, sending_chain_counter A)"
    using hex_encode32 [OF hex k(1)] k inv(5) by (simp add: receiving_epoch_def hex_decode_hex [OF hex] seq(1))
  have key: "message_key P B (new_header P A) False B k (sending_chain_counter A)
    = Ok (B\<lparr>receiving_chain_key := p_hex_encode P k', receiving_chain_counter := sending_chain_counter A + 1\<rparr>, mk, True)"
    using mk(1) inv(3) seq(2) bound by (intro message_key_in_order) simp_all
  have dec: "decrypt_ratchet P d' B (new_header P A) c
    = Ok (B\<lparr>receiving_chain_key := p_hex_encode P k', receiving_chain_counter := sending_chain_counter A + 1\<rparr>
            \<lparr>peer_pk := hd_pk (new_header P A)\<rparr>, pt)"
    using verify_new_header [OF hex, of A] inv S(2) pk(2) c(1) hybrid_pair_sizes(1) [OF kem pk(1)]
    by (intro decrypt_ratchet_finish [OF _ _ _ _ _ _ _ _ _ recv key c(2,3)]) (simp_all add: mult.commute)
  have "wire_ok (new_header P A) c"
    using pk inv(6,7) S(2) seq(2) bound c(1,4,5) by (intro wire_ok_new_header [OF P, where sk = "current_sk A"]) simp_all
  with session_continue [OF S(1) old kem mk(2) refl refl] enc dec S(3) hybrid_pair_neq_Nil [OF kem pk(1)]
  show ?thesis by simp
qed

lemma session_used_mono: "session P used n A B \<Longrightarrow> session P (insert pk used) n A B"
  by (auto simp: session_def)

lemma deliver:
  assumes "ratchet_prims_ok P" "draws_ok d" "draws_ok d'" "msg_ok P pt"
    and "session P used n A B" "n + 2 \<le> I64_MAX" "peer_pk A \<noteq> ''''" "drawn_pk P d \<notin> used"
  shows "\<exists>A' h c B'. encrypt_ratchet P d A pt = Ok (A', h, c) \<and> wire_ok h c \<and> decrypt_ratchet P d' B h c = Ok (B', pt)
    \<and> session P (insert (drawn_pk P d) used) (n + 1) A' B' \<and> peer_pk A' \<noteq> '''' \<and> peer_pk B' \<noteq> ''''"
proof (cases "need_new_epoch A")
  case True
  with assms show ?thesis by (intro deliver_new_epoch)
next
  case False
  with assms deliver_same_epoch [of P d pt used n A B d'] show ?thesis
    by (blast intro: session_used_mono)
qed

subsection \<open>Conversations\<close>

text \<open>
  A script is a list of turns: who speaks (true for the first party), the draws of the sender and of the
  receiver, the plaintext. \<open>converse\<close> runs it: each message is encrypted, transmitted and decrypted
  before the next, and the plaintexts the receivers obtain are collected.
\<close>

type_synonym turn = "bool \<times> draws \<times> draws \<times> byte list"

fun converse :: "prims \<Rightarrow> ratchet_state \<Rightarrow> ratchet_state \<Rightarrow> turn list \<Rightarrow> byte list list res" where
  "converse P A B [] = Ok []"
| "converse P A B ((first, d, d', pt) # rest) =
     and_then (encrypt_ratchet P d (if first then A else B) pt) (\<lambda>(S', h, c).
     and_then (decrypt_ratchet P d' (if first then B else A) h c) (\<lambda>(R', out).
     and_then (converse P (if first then S' else R') (if first then R' else S') rest) (\<lambda>outs.
     Ok (out # outs))))"

definition turn_pk :: "prims \<Rightarrow> turn \<Rightarrow> string" where
  "turn_pk P t = drawn_pk P (fst (snd t))"

definition turn_ok :: "prims \<Rightarrow> turn \<Rightarrow> bool" where
  "turn_ok P t \<longleftrightarrow> (case t of (first, d, d', pt) \<Rightarrow> draws_ok d \<and> draws_ok d' \<and> msg_ok P pt)"

definition said :: "turn \<Rightarrow> byte list" where
  "said t = snd (snd (snd t))"

lemma converse_session:
  assumes "ratchet_prims_ok P" "\<forall>t\<in>set ts. turn_ok P t" "distinct (map (turn_pk P) ts)"
    "set (map (turn_pk P) ts) \<inter> used = {}" "session P used n A B" "n + int (length ts) < I64_MAX"
    "ts \<noteq> [] \<Longrightarrow> peer_pk (if fst (hd ts) then A else B) \<noteq> ''''"
  shows "converse P A B ts = Ok (map said ts)"
  using assms(2-)
proof (induction ts arbitrary: used n A B)
  case Nil
  then show ?case by simp
next
  case (Cons t ts)
  obtain first d d' pt where t: "t = (first, d, d', pt)" by (metis prod_cases4)
  let ?S = "if first then A else B" and ?R = "if first then B else A"
  have "session P used n ?S ?R" "peer_pk ?S \<noteq> ''''"
    using Cons.prems session_sym [of P used n A B] by (simp_all add: t)
  then obtain S' h c R' where step: "encrypt_ratchet P d ?S pt = Ok (S', h, c)" "decrypt_ratchet P d' ?R h c = Ok (R', pt)"
    "session P (insert (drawn_pk P d) used) (n + 1) S' R'" "peer_pk S' \<noteq> ''''" "peer_pk R' \<noteq> ''''"
    using Cons.prems deliver [OF assms(1), of d d' pt used n ?S ?R]
    by (auto simp: turn_ok_def turn_pk_def t)
  let ?A = "if first then S' else R'" and ?B = "if first then R' else S'"
  have "converse P ?A ?B ts = Ok (map said ts)"
    using Cons.prems step session_sym [OF step(3)]
    by (intro Cons.IH [where n = "n + 1" and used = "insert (drawn_pk P d) used"])
       (auto simp: turn_pk_def t)
  then show ?case using step by (simp add: t said_def)
qed

subsection \<open>One epoch under arbitrary delivery order\<close>

text \<open>The chain of an epoch from its first chain key: \<open>chain_at i\<close> and the message key \<open>key_at i\<close>.\<close>

definition kdf :: "prims \<Rightarrow> string \<Rightarrow> byte list \<Rightarrow> byte list \<times> byte list" where
  "kdf P ctx k = (case derive_msg_key_bytes P k ctx of Ok p \<Rightarrow> p | _ \<Rightarrow> ([], []))"

primrec chain_at :: "prims \<Rightarrow> string \<Rightarrow> byte list \<Rightarrow> nat \<Rightarrow> byte list" where
  "chain_at P ctx k 0 = k"
| "chain_at P ctx k (Suc i) = snd (kdf P ctx (chain_at P ctx k i))"

definition key_at :: "prims \<Rightarrow> string \<Rightarrow> byte list \<Rightarrow> nat \<Rightarrow> byte list" where
  "key_at P ctx k i = fst (kdf P ctx (chain_at P ctx k i))"

definition kept_key :: "prims \<Rightarrow> string \<Rightarrow> byte list \<Rightarrow> nat \<Rightarrow> skipped_key" where
  "kept_key P ctx k i = \<lparr>sk_seq = int i, sk_key = p_hex_encode P (key_at P ctx k i)\<rparr>"

lemma kept_key_sel [simp]:
  "sk_seq (kept_key P ctx k i) = int i" "sk_key (kept_key P ctx k i) = p_hex_encode P (key_at P ctx k i)"
  by (simp_all add: kept_key_def)

lemma derive_chain_at:
  assumes "hkdf_prims_ok P"
  shows "derive_msg_key_bytes P (chain_at P ctx k i) ctx = Ok (key_at P ctx k i, chain_at P ctx k (Suc i))"
    and "length (key_at P ctx k i) = 32"
  by (rule derive_msg_key_bytes_ok [OF assms, of "chain_at P ctx k i" ctx]; simp add: key_at_def kdf_def)+

lemma length_chain_at:
  assumes "hkdf_prims_ok P" "length k = 32"
  shows "length (chain_at P ctx k i) = 32"
proof (cases i)
  case (Suc j)
  then show ?thesis
    by (simp add: kdf_def) (rule derive_msg_key_bytes_ok [OF assms(1), of "chain_at P ctx k j" ctx], simp)
qed (use assms in simp)

lemma skip_keys_chain:
  assumes "hkdf_prims_ok P" "length buf + n \<le> 1024"
  shows "skip_keys P ctx n (int r) (chain_at P ctx k r) buf
    = Ok (chain_at P ctx k (r + n), buf @ map (kept_key P ctx k) [r..<r + n])"
  using assms(2)
proof (induction n arbitrary: r buf)
  case 0
  then show ?case by simp
next
  case (Suc n)
  have "skip_keys P ctx n (int (Suc r)) (chain_at P ctx k (Suc r)) (buf @ [kept_key P ctx k r])
    = Ok (chain_at P ctx k (Suc r + n), (buf @ [kept_key P ctx k r]) @ map (kept_key P ctx k) [Suc r..<Suc r + n])"
    using Suc.prems by (intro Suc.IH) simp
  moreover have "[r..<r + Suc n] = r # [Suc r..<Suc r + n]" by (simp add: upt_conv_Cons del: upt_Suc)
  ultimately show ?case
    using Suc.prems by (simp add: derive_chain_at(1) [OF assms(1)] MAX_RATCHET_WINDOW_def Let_def
        kept_key_def add.commute del: chain_at.simps upt_Suc)
qed

lemma take_key_kept:
  assumes "distinct xs"
  shows "take_key (int i) (map (kept_key P ctx k) xs) =
    (if i \<in> set xs then Some (p_hex_encode P (key_at P ctx k i), map (kept_key P ctx k) (filter (\<lambda>j. j \<noteq> i) xs))
     else None)"
  using assms
proof (induction xs)
  case (Cons x xs)
  then have "x = i \<Longrightarrow> filter (\<lambda>j. j \<noteq> i) xs = xs" by (auto intro: filter_True)
  with Cons show ?case by auto
qed simp

definition pending :: "nat set \<Rightarrow> nat \<Rightarrow> nat list" where
  "pending dn r = filter (\<lambda>i. i \<notin> dn) [0..<r]"

lemma pending_ahead: "dn \<subseteq> {..<r} \<Longrightarrow> r \<le> i \<Longrightarrow> pending (insert i dn) (Suc i) = pending dn r @ [r..<i]"
proof -
  assume dn: "dn \<subseteq> {..<r}" and "r \<le> i"
  then have "[0..<Suc i] = [0..<r] @ [r..<i] @ [i]"
    using upt_add_eq_append [of 0 r "i - r"] by simp
  moreover have "filter (\<lambda>j. j \<noteq> i \<and> j \<notin> dn) [0..<r] = filter (\<lambda>j. j \<notin> dn) [0..<r]"
    "filter (\<lambda>j. j \<noteq> i \<and> j \<notin> dn) [r..<i] = [r..<i]"
    using dn \<open>r \<le> i\<close> by (auto intro!: filter_cong filter_True)
  ultimately show ?thesis by (simp add: pending_def)
qed

lemma pending_behind: "pending (insert i dn) r = filter (\<lambda>j. j \<noteq> i) (pending dn r)"
  by (auto simp: pending_def filter_filter intro: filter_cong)

lemma length_pending: "length (pending dn r) \<le> r"
  unfolding pending_def by (metis length_filter_le length_upt minus_nat.diff_0)

text \<open>The receiver inside an epoch: \<open>r\<close> is the next expected number, \<open>dn\<close> what was delivered.\<close>

definition chain_pos :: "prims \<Rightarrow> string \<Rightarrow> byte list \<Rightarrow> nat \<Rightarrow> nat set \<Rightarrow> ratchet_state \<Rightarrow> bool" where
  "chain_pos P ctx k r dn R \<longleftrightarrow>
     dn \<subseteq> {..<r} \<and> receiving_chain_counter R = int r \<and> skipped R = map (kept_key P ctx k) (pending dn r)"

lemma message_key_ahead:
  assumes P: "hkdf_prims_ok P" and R: "chain_pos P ctx k r dn out" "rs_context R = ctx"
    and i: "hd_seq h = int i" "r \<le> i" "i < 1024"
  obtains out' where
    "message_key P R h False out (chain_at P ctx k r) (int r) = Ok (out', key_at P ctx k i, True)"
    "out' = out\<lparr>skipped := map (kept_key P ctx k) (pending (insert i dn) (Suc i)),
       receiving_chain_key := p_hex_encode P (chain_at P ctx k (Suc i)), receiving_chain_counter := int i + 1\<rparr>"
    "chain_pos P ctx k (Suc i) (insert i dn) out'"
proof -
  have dn: "dn \<subseteq> {..<r}" and sk: "skipped out = map (kept_key P ctx k) (pending dn r)"
    using R(1) by (simp_all add: chain_pos_def)
  have "length (skipped out) + (i - r) \<le> 1024"
    using i length_pending [of dn r] by (simp add: sk)
  from skip_keys_chain [OF P this]
  have loop: "skip_keys P ctx (nat (int i - int r)) (int r) (chain_at P ctx k r) (skipped out)
    = Ok (chain_at P ctx k i, map (kept_key P ctx k) (pending (insert i dn) (Suc i)))"
    using i(2) by (simp add: sk pending_ahead [OF dn i(2)] nat_diff_distrib)
  have ar: "sub_i64 (int i) (int r) = Ok (int i - int r)" "add_i64 (int i) 1 = Ok (int i + 1)"
    using i by (simp_all add: sub_i64_def)
  let ?out = "out\<lparr>skipped := map (kept_key P ctx k) (pending (insert i dn) (Suc i)),
       receiving_chain_key := p_hex_encode P (chain_at P ctx k (Suc i)), receiving_chain_counter := int i + 1\<rparr>"
  have "message_key P R h False out (chain_at P ctx k r) (int r) = Ok (?out, key_at P ctx k i, True)"
    using i by (simp add: message_key_def MAX_RATCHET_WINDOW_def R(2) ar loop derive_chain_at(1) [OF P]
        del: chain_at.simps)
  moreover have "insert i dn \<subseteq> {..<Suc i}" using dn i(2) by auto
  then have "chain_pos P ctx k (Suc i) (insert i dn) ?out" by (simp add: chain_pos_def)
  ultimately show thesis by (rule that [OF _ refl])
qed

lemma message_key_behind:
  assumes P: "hkdf_prims_ok P" "hex_prims_ok P" and R: "chain_pos P ctx k r dn out"
    and i: "hd_seq h = int i" "i < r"
  shows "i \<notin> dn \<Longrightarrow> message_key P R h False out ch (int r)
      = Ok (out\<lparr>skipped := map (kept_key P ctx k) (pending (insert i dn) r)\<rparr>, key_at P ctx k i, True)"
    and "i \<in> dn \<Longrightarrow> message_key P R h False out ch (int r) = Err ''replay''"
proof -
  have sk: "skipped out = map (kept_key P ctx k) (pending dn r)" and d: "distinct (pending dn r)"
    using R by (simp_all add: chain_pos_def pending_def)
  have m: "i \<in> set (pending dn r) \<longleftrightarrow> i \<notin> dn" using i by (simp add: pending_def)
  show "i \<notin> dn \<Longrightarrow> message_key P R h False out ch (int r)
      = Ok (out\<lparr>skipped := map (kept_key P ctx k) (pending (insert i dn) r)\<rparr>, key_at P ctx k i, True)"
    using i m derive_chain_at(2) [OF P(1), of ctx k i]
    by (simp add: message_key_def buffered_key_def sk take_key_kept [OF d] hex_decode_hex [OF P(2)]
        to_array32_def pending_behind)
  show "i \<in> dn \<Longrightarrow> message_key P R h False out ch (int r) = Err ''replay''"
    using i m by (simp add: message_key_def buffered_key_def sk take_key_kept [OF d])
qed

text \<open>The sender inside an epoch (next number \<open>i\<close>), and a message of the epoch with number \<open>i\<close>.\<close>

record epoch =
  e_context :: string
  e_chain :: "byte list"
  e_root :: string
  e_pk :: string
  e_ct :: string
  e_cc :: int

definition sender_at :: "prims \<Rightarrow> epoch \<Rightarrow> nat \<Rightarrow> ratchet_state \<Rightarrow> bool" where
  "sender_at P e i S \<longleftrightarrow>
     rs_version S = RATCHET_VERSION \<and> rs_context S = e_context e \<and> root_key S = e_root e
   \<and> current_pk S = e_pk e \<and> sending_ct S = e_ct e \<and> chain_counter S = e_cc e
   \<and> sending_chain_key S = p_hex_encode P (chain_at P (e_context e) (e_chain e) i)
   \<and> sending_chain_counter S = int i \<and> peer_pk S \<noteq> '''' \<and> peer_pk S = sending_epoch_peer_pk S"

definition epoch_msg :: "prims \<Rightarrow> epoch \<Rightarrow> nat \<Rightarrow> byte list \<Rightarrow> header \<times> string \<Rightarrow> bool" where
  "epoch_msg P e i pt m \<longleftrightarrow> (case m of (h, c) \<Rightarrow>
     hd_version h = RATCHET_VERSION \<and> hd_pk h = e_pk e \<and> hd_ct h = e_ct e \<and> hd_seq h = int i
   \<and> hd_chain_counter h = e_cc e \<and> verify_header_mac P (header_mac_key P (e_root e)) h
   \<and> length c \<le> MAX_RATCHET_CIPHERTEXT
   \<and> (let mk = key_at P (e_context e) (e_chain e) i in
       \<exists>z. nip44_open P c mk (conversation_key P mk) = Ok z \<and> decompress_bytes P z = Ok pt))"

fun send_all :: "prims \<Rightarrow> ratchet_state \<Rightarrow> (draws \<times> byte list) list \<Rightarrow> (ratchet_state \<times> (header \<times> string) list) res" where
  "send_all P S [] = Ok (S, [])"
| "send_all P S ((d, pt) # rest) =
     and_then (encrypt_ratchet P d S pt) (\<lambda>(S', h, c).
     and_then (send_all P S' rest) (\<lambda>(S'', ms). Ok (S'', (h, c) # ms)))"

fun receive_all :: "prims \<Rightarrow> ratchet_state \<Rightarrow> (draws \<times> header \<times> string) list \<Rightarrow> (ratchet_state \<times> byte list list) res" where
  "receive_all P R [] = Ok (R, [])"
| "receive_all P R ((d, h, c) # rest) =
     and_then (decrypt_ratchet P d R h c) (\<lambda>(R', pt).
     and_then (receive_all P R' rest) (\<lambda>(R'', pts). Ok (R'', pt # pts)))"

lemma encrypt_in_epoch:
  assumes P: "ratchet_prims_ok P" and d: "draws_ok d" and pt: "msg_ok P pt" and k: "length (e_chain e) = 32"
    and S: "rs_version S = RATCHET_VERSION" "peer_pk S \<noteq> ''''" "rs_context S = e_context e"
    and ep: "sending_epoch P d S = Ok ep" "sender_at P e i ep" "int i < I64_MAX"
  obtains S' m where "encrypt_ratchet P d S pt = Ok (S', m)" "sender_at P e (Suc i) S'" "epoch_msg P e i pt m"
proof -
  have len: "length (chain_at P (e_context e) (e_chain e) i) = 32"
    using k by (rule length_chain_at [OF ratchet_primsD(5) [OF P]])
  obtain z c where enc: "encrypt_ratchet P d S pt = Ok (ep\<lparr>rs_version := RATCHET_VERSION,
      sending_chain_key := p_hex_encode P (chain_at P (e_context e) (e_chain e) (Suc i)),
      sending_chain_counter := sending_chain_counter ep + 1\<rparr>, new_header P ep, c)"
    and c: "length c \<le> MAX_RATCHET_CIPHERTEXT"
      "nip44_open P c (key_at P (e_context e) (e_chain e) i) (conversation_key P (key_at P (e_context e) (e_chain e) i)) = Ok z"
      "decompress_bytes P z = Ok pt"
    using ep S(3) derive_chain_at(1) [OF ratchet_primsD(5) [OF P], of "e_context e" "e_chain e" i]
    by (rule_tac encrypt_ratchet_ok [OF P d pt S(1,2) ep(1) _ len])
       (auto simp: sender_at_def simp del: chain_at.simps)
  have "epoch_msg P e i pt (new_header P ep, c)"
    using ep(2) c verify_new_header [OF ratchet_primsD(4) [OF P], of ep]
    by (simp add: epoch_msg_def sender_at_def)
  moreover have "sender_at P e (Suc i) (ep\<lparr>rs_version := RATCHET_VERSION,
      sending_chain_key := p_hex_encode P (chain_at P (e_context e) (e_chain e) (Suc i)),
      sending_chain_counter := sending_chain_counter ep + 1\<rparr>)"
    using ep(2) by (auto simp: sender_at_def simp del: chain_at.simps)
  ultimately show thesis using enc by (intro that)
qed

lemma sending_epoch_running:
  assumes "hex_prims_ok P" "hkdf_prims_ok P" "length (e_chain e) = 32" "sender_at P e i S"
  shows "sending_epoch P d S = Ok S"
proof -
  have "p_hex_encode P (chain_at P (e_context e) (e_chain e) i) \<noteq> ''''"
    using length_chain_at [OF assms(2,3)] by (rule hex_encode32 [OF assms(1)])
  with assms(4) show ?thesis by (simp add: sending_epoch_def need_new_epoch_def sender_at_def)
qed

lemma send_all_epoch:
  assumes P: "ratchet_prims_ok P" and k: "length (e_chain e) = 32"
    and "\<forall>(d, pt)\<in>set xs. draws_ok d \<and> msg_ok P pt" "sender_at P e i S" "int (i + length xs) < I64_MAX"
  shows "\<exists>S' ms. send_all P S xs = Ok (S', ms) \<and> length ms = length xs
    \<and> (\<forall>j < length xs. epoch_msg P e (i + j) (snd (xs ! j)) (ms ! j))"
  using assms(3-)
proof (induction xs arbitrary: i S)
  case Nil
  then show ?case by simp
next
  case (Cons x xs)
  obtain d pt where x: "x = (d, pt)" by (cases x)
  have S: "rs_version S = RATCHET_VERSION" "peer_pk S \<noteq> ''''" "rs_context S = e_context e"
    using Cons.prems(2) by (auto simp: sender_at_def)
  have ep: "sending_epoch P d S = Ok S"
    by (rule sending_epoch_running [OF ratchet_primsD(4,5) [OF P] k Cons.prems(2)])
  have ok: "draws_ok d" "msg_ok P pt" "int i < I64_MAX" using Cons.prems by (simp_all add: x)
  obtain S1 m where step: "encrypt_ratchet P d S pt = Ok (S1, m)" "sender_at P e (Suc i) S1" "epoch_msg P e i pt m"
    by (rule encrypt_in_epoch [OF P ok(1,2) k S ep Cons.prems(2) ok(3)])
  obtain S' ms where rest: "send_all P S1 xs = Ok (S', ms)" "length ms = length xs"
    "\<forall>j < length xs. epoch_msg P e (Suc i + j) (snd (xs ! j)) (ms ! j)"
    using Cons.IH [OF _ step(2)] Cons.prems by auto
  have "epoch_msg P e (i + j) (snd ((x # xs) ! j)) ((m # ms) ! j)" if "j < Suc (length xs)" for j
    using that step(3) rest(3) by (cases j) (simp_all add: x)
  with rest step show ?case by (cases m) (auto simp: x)
qed

definition receiver_at :: "prims \<Rightarrow> epoch \<Rightarrow> nat set \<Rightarrow> ratchet_state \<Rightarrow> bool" where
  "receiver_at P e dn R \<longleftrightarrow>
     rs_version R = RATCHET_VERSION \<and> rs_context R = e_context e \<and> root_key R = e_root e
   \<and> chain_counter R = e_cc e
   \<and> (\<exists>r. chain_pos P (e_context e) (e_chain e) r dn R
        \<and> receiving_chain_key R = p_hex_encode P (chain_at P (e_context e) (e_chain e) r))"

definition epoch_ok :: "epoch \<Rightarrow> bool" where
  "epoch_ok e \<longleftrightarrow> length (e_chain e) = 32 \<and> length (e_pk e) = 2 * HYBRID_PK_LEN
     \<and> length (e_ct e) = 2 * HYBRID_CT_LEN \<and> 0 \<le> e_cc e \<and> e_cc e < I64_MAX"

lemma receiving_epoch_running:
  assumes P: "ratchet_prims_ok P" and e: "epoch_ok e" and R: "receiver_at P e dn R" and h: "hd_chain_counter h = e_cc e"
  obtains r where "chain_pos P (e_context e) (e_chain e) r dn R"
    "receiving_epoch P d R h (hd_chain_counter h = chain_counter R + 1)
      = Ok (R, chain_at P (e_context e) (e_chain e) r, int r)"
proof -
  obtain r where r: "chain_pos P (e_context e) (e_chain e) r dn R"
    "receiving_chain_key R = p_hex_encode P (chain_at P (e_context e) (e_chain e) r)"
    using R by (auto simp: receiver_at_def)
  have len: "length (chain_at P (e_context e) (e_chain e) r) = 32"
    using e by (intro length_chain_at [OF ratchet_primsD(5) [OF P]]) (simp add: epoch_ok_def)
  have "receiving_epoch P d R h (hd_chain_counter h = chain_counter R + 1)
      = Ok (R, chain_at P (e_context e) (e_chain e) r, int r)"
    using R h r hex_encode32 [OF ratchet_primsD(4) [OF P] len] len
    by (simp add: receiving_epoch_def receiver_at_def chain_pos_def hex_decode_hex [OF ratchet_primsD(4) [OF P]])
  with r(1) show thesis by (rule that)
qed

text \<open>Whatever the position of the receiver, a message not yet delivered is opened.\<close>

lemma receive_new:
  assumes P: "ratchet_prims_ok P" and e: "epoch_ok e" and R: "receiver_at P e dn R"
    and m: "epoch_msg P e i pt (h, c)" "i < 1024" "i \<notin> dn"
  shows "\<exists>R'. decrypt_ratchet P d R h c = Ok (R', pt) \<and> receiver_at P e (insert i dn) R'"
proof -
  let ?k = "e_chain e" and ?x = "e_context e"
  have h: "hd_version h = RATCHET_VERSION" "hd_pk h = e_pk e" "hd_ct h = e_ct e" "hd_seq h = int i"
    "hd_chain_counter h = e_cc e" "verify_header_mac P (header_mac_key P (e_root e)) h"
    "length c \<le> MAX_RATCHET_CIPHERTEXT" using m(1) by (simp_all add: epoch_msg_def)
  obtain z where z: "nip44_open P c (key_at P ?x ?k i) (conversation_key P (key_at P ?x ?k i)) = Ok z"
    "decompress_bytes P z = Ok pt" using m(1) by (auto simp: epoch_msg_def Let_def)
  have ctx: "rs_context R = ?x" using R by (simp add: receiver_at_def)
  obtain r where r: "chain_pos P ?x ?k r dn R" and ep: "receiving_epoch P d R h (hd_chain_counter h = chain_counter R + 1)
      = Ok (R, chain_at P ?x ?k r, int r)"
    by (rule receiving_epoch_running [OF P e R h(5)])
  have fin: "decrypt_ratchet P d R h c = Ok (out\<lparr>peer_pk := hd_pk h\<rparr>, pt)"
    if "message_key P R h False R (chain_at P ?x ?k r) (int r) = Ok (out, key_at P ?x ?k i, True)"
      "root_key out = root_key R" for out
    using R e h that(2) by (intro decrypt_ratchet_finish [OF _ _ _ _ _ _ _ _ _ ep that(1) z])
      (simp_all add: receiver_at_def epoch_ok_def)
  show ?thesis
  proof (cases "r \<le> i")
    case True
    obtain out where "message_key P R h False R (chain_at P ?x ?k r) (int r) = Ok (out, key_at P ?x ?k i, True)"
      and out: "out = R\<lparr>skipped := map (kept_key P ?x ?k) (pending (insert i dn) (Suc i)),
         receiving_chain_key := p_hex_encode P (chain_at P ?x ?k (Suc i)), receiving_chain_counter := int i + 1\<rparr>"
      and pos: "chain_pos P ?x ?k (Suc i) (insert i dn) out"
      by (rule message_key_ahead [OF ratchet_primsD(5) [OF P] r ctx h(4) True m(2)])
    with fin have "decrypt_ratchet P d R h c = Ok (out\<lparr>peer_pk := hd_pk h\<rparr>, pt)" by simp
    moreover have "receiver_at P e (insert i dn) (out\<lparr>peer_pk := hd_pk h\<rparr>)"
      using R pos by (auto simp: receiver_at_def chain_pos_def out simp del: chain_at.simps intro!: exI [of _ "Suc i"])
    ultimately show ?thesis by blast
  next
    case False
    then have "decrypt_ratchet P d R h c
        = Ok (R\<lparr>skipped := map (kept_key P ?x ?k) (pending (insert i dn) r)\<rparr>\<lparr>peer_pk := hd_pk h\<rparr>, pt)"
      using message_key_behind(1) [OF ratchet_primsD(5,4) [OF P] r h(4) _ m(3)] by (intro fin) simp_all
    moreover have "receiver_at P e (insert i dn)
        (R\<lparr>skipped := map (kept_key P ?x ?k) (pending (insert i dn) r)\<rparr>\<lparr>peer_pk := hd_pk h\<rparr>)"
      using R r False by (auto simp: receiver_at_def chain_pos_def)
    ultimately show ?thesis by blast
  qed
qed

lemma receive_replay:
  assumes P: "ratchet_prims_ok P" and e: "epoch_ok e" and R: "receiver_at P e dn R"
    and m: "epoch_msg P e i pt (h, c)" "i \<in> dn"
  shows "decrypt_ratchet P d R h c = Err ''replay''"
proof -
  let ?k = "e_chain e" and ?x = "e_context e"
  have h: "hd_version h = RATCHET_VERSION" "hd_pk h = e_pk e" "hd_ct h = e_ct e" "hd_seq h = int i"
    "hd_chain_counter h = e_cc e" "length c \<le> MAX_RATCHET_CIPHERTEXT" using m(1) by (simp_all add: epoch_msg_def)
  obtain r where r: "chain_pos P ?x ?k r dn R" and ep: "receiving_epoch P d R h (hd_chain_counter h = chain_counter R + 1)
      = Ok (R, chain_at P ?x ?k r, int r)"
    by (rule receiving_epoch_running [OF P e R h(5)])
  have key: "message_key P R h False R (chain_at P ?x ?k r) (int r) = Err ''replay''"
    using r m(2) by (intro message_key_behind(2) [OF ratchet_primsD(5,4) [OF P] r h(4)]) (auto simp: chain_pos_def)
  have cc: "chain_counter R = e_cc e" "0 \<le> e_cc e" "e_cc e < I64_MAX"
    using R e by (simp_all add: receiver_at_def epoch_ok_def)
  have add: "add_i64 (e_cc e) 1 = Ok (e_cc e + 1)" using cc by simp
  show ?thesis
    using R e h(1-3,6) ep by (simp add: decrypt_ratchet_def h(5) cc(1) add key receiver_at_def epoch_ok_def mult.commute)
qed

text \<open>The first message of an epoch to arrive performs the root step, whatever its number.\<close>

lemma receive_first:
  assumes P: "ratchet_prims_ok P" and e: "epoch_ok e" and m: "epoch_msg P e i pt (h, c)" "i < 1024"
    and R: "rs_version R = RATCHET_VERSION" "rs_context R = e_context e" "chain_counter R + 1 = e_cc e"
      "0 \<le> chain_counter R"
    and ep: "receiving_epoch P d R h True = Ok (out, e_chain e, 0)"
    and out: "out = R\<lparr>root_key := e_root e, chain_counter := e_cc e, receiving_chain_counter := 0,
       prev_epoch_skipped := prev, skipped := [], current_sk := sk, current_pk := pk\<rparr>"
  shows "\<exists>R'. decrypt_ratchet P d R h c = Ok (R', pt) \<and> receiver_at P e {i} R'"
proof -
  let ?k = "e_chain e" and ?x = "e_context e"
  have h: "hd_version h = RATCHET_VERSION" "hd_pk h = e_pk e" "hd_ct h = e_ct e" "hd_seq h = int i"
    "hd_chain_counter h = e_cc e" "verify_header_mac P (header_mac_key P (e_root e)) h"
    "length c \<le> MAX_RATCHET_CIPHERTEXT" using m(1) by (simp_all add: epoch_msg_def)
  obtain z where z: "nip44_open P c (key_at P ?x ?k i) (conversation_key P (key_at P ?x ?k i)) = Ok z"
    "decompress_bytes P z = Ok pt" using m(1) by (auto simp: epoch_msg_def Let_def)
  have pos: "chain_pos P ?x ?k 0 {} out" by (simp add: chain_pos_def pending_def out)
  obtain out' where key: "message_key P R h False out (chain_at P ?x ?k 0) (int 0) = Ok (out', key_at P ?x ?k i, True)"
    and out': "out' = out\<lparr>skipped := map (kept_key P ?x ?k) (pending {i} (Suc i)),
         receiving_chain_key := p_hex_encode P (chain_at P ?x ?k (Suc i)), receiving_chain_counter := int i + 1\<rparr>"
    and pos': "chain_pos P ?x ?k (Suc i) {i} out'"
    by (rule message_key_ahead [OF ratchet_primsD(5) [OF P] pos R(2) h(4) _ m(2)]) simp
  have ep': "receiving_epoch P d R h (hd_chain_counter h = chain_counter R + 1) = Ok (out, chain_at P ?x ?k 0, int 0)"
    using ep R(3) by (simp add: h(5))
  have "decrypt_ratchet P d R h c = Ok (out'\<lparr>peer_pk := hd_pk h\<rparr>, pt)"
    using R e h by (intro decrypt_ratchet_finish [OF _ _ _ _ _ _ _ _ _ ep' key z])
      (simp_all add: epoch_ok_def out' out)
  moreover have "receiver_at P e {i} (out'\<lparr>peer_pk := hd_pk h\<rparr>)"
    using R pos' by (auto simp: receiver_at_def chain_pos_def out' out simp del: chain_at.simps intro!: exI [of _ "Suc i"])
  ultimately show ?thesis by blast
qed

lemma receive_all_epoch:
  assumes P: "ratchet_prims_ok P" and e: "epoch_ok e"
    and ms: "\<forall>i < length pts. epoch_msg P e i (pts ! i) (ms ! i)" "length pts \<le> 1024"
    and order: "distinct (map snd xs)" "\<forall>(d, i)\<in>set xs. i < length pts \<and> i \<notin> dn" "receiver_at P e dn R"
  shows "\<exists>R'. receive_all P R (map (\<lambda>(d, i). (d, ms ! i)) xs) = Ok (R', map (\<lambda>(d, i). pts ! i) xs)
    \<and> receiver_at P e (dn \<union> set (map snd xs)) R'"
  using order
proof (induction xs arbitrary: R dn)
  case Nil
  then show ?case by simp
next
  case (Cons x xs)
  obtain d i h c where x: "x = (d, i)" and m: "ms ! i = (h, c)" by (metis prod.exhaust)
  have i: "i < length pts" "i \<notin> dn" "i \<notin> set (map snd xs)" using Cons.prems by (auto simp: x)
  obtain R1 where R1: "decrypt_ratchet P d R h c = Ok (R1, pts ! i)" "receiver_at P e (insert i dn) R1"
    using receive_new [OF P e Cons.prems(3), of i "pts ! i" h c d] ms i m by force
  have "\<forall>(d, j)\<in>set xs. j < length pts \<and> j \<notin> insert i dn" using Cons.prems i(3) by (force simp: x)
  with Cons.IH [OF _ _ R1(2)] Cons.prems(1) obtain R' where
    "receive_all P R1 (map (\<lambda>(d, i). (d, ms ! i)) xs) = Ok (R', map (\<lambda>(d, i). pts ! i) xs)"
    "receiver_at P e (insert i dn \<union> set (map snd xs)) R'" by (auto simp: x)
  with R1(1) show ?case by (auto simp: x m)
qed

text \<open>A new epoch, seen from both sides: the sender at its start and every receiver's transition into it.\<close>

lemma epoch_start:
  assumes P: "ratchet_prims_ok P" and d: "draws_ok d"
    and S: "session P used n A B" "n + 2 \<le> I64_MAX" "peer_pk A \<noteq> ''''" "need_new_epoch A"
  obtains e ep where "epoch_ok e" "e_context e = rs_context A" "sending_epoch P d A = Ok ep" "sender_at P e 0 ep"
    "e_cc e = chain_counter A + 1"
    "\<forall>i pt h c d'. draws_ok d' \<and> epoch_msg P e i pt (h, c) \<and> i < 1024 \<longrightarrow>
       (\<exists>B'. decrypt_ratchet P d' B h c = Ok (B', pt) \<and> receiver_at P e {i} B')"
proof -
  have inv: "rs_version A = RATCHET_VERSION" "rs_version B = RATCHET_VERSION" "rs_context A = rs_context B"
    "root_key A = root_key B" "root_ok P (root_key A)" "chain_counter A = chain_counter B"
    "0 \<le> chain_counter A" "chain_counter A \<le> n" "hybrid_pair P (peer_pk A) (current_sk B)"
    using S by (auto simp: session_def can_reach_def)
  have cc: "chain_counter A < I64_MAX" using inv(8) S(2) by linarith
  obtain r k ct sk where ep: "sending_epoch P d A = Ok (A\<lparr>root_key := p_hex_encode P r, sending_chain_key := p_hex_encode P k,
       chain_counter := chain_counter A + 1, sending_chain_counter := 0,
       sending_epoch_peer_pk := peer_pk A, sending_ct := ct, current_sk := sk, current_pk := drawn_pk P d\<rparr>)"
      (is "_ = Ok ?ep")
    and recv: "\<forall>h d'. draws_ok d' \<and> hd_ct h = ct \<longrightarrow> (\<exists>sk'. receiving_epoch P d' B h True =
       Ok (B\<lparr>root_key := p_hex_encode P r, chain_counter := hd_chain_counter h, receiving_chain_counter := 0,
             prev_epoch_skipped := retain_prev (skipped B) [], skipped := [],
             current_sk := sk', current_pk := drawn_pk P d'\<rparr>, k, 0))"
    and sizes: "length k = 32" "length ct = 2 * HYBRID_CT_LEN" "hybrid_pair P (drawn_pk P d) sk"
    by (rule kem_step [OF P d inv(9) S(4) inv(4,3,5,7) cc]) blast
  define e where "e = \<lparr>e_context = rs_context A, e_chain = k, e_root = p_hex_encode P r, e_pk = drawn_pk P d,
    e_ct = ct, e_cc = chain_counter A + 1\<rparr>"
  have e: "epoch_ok e" using sizes inv(7,8) S(2) hybrid_pair_sizes(1) [OF ratchet_primsD(2) [OF P] sizes(3)]
    by (simp add: epoch_ok_def e_def)
  have at: "sender_at P e 0 ?ep" using inv(1) S(3) by (simp add: sender_at_def e_def)
  have "\<exists>B'. decrypt_ratchet P d' B h c = Ok (B', pt) \<and> receiver_at P e {i} B'"
    if d': "draws_ok d'" and m: "epoch_msg P e i pt (h, c)" "i < 1024" for i pt h c d'
  proof -
    have h: "hd_ct h = ct" "hd_chain_counter h = chain_counter A + 1" using m by (simp_all add: epoch_msg_def e_def)
    with recv [rule_format, of d' h] d' obtain sk' where "receiving_epoch P d' B h True = Ok (B\<lparr>root_key := e_root e,
        chain_counter := e_cc e, receiving_chain_counter := 0, prev_epoch_skipped := retain_prev (skipped B) [],
        skipped := [], current_sk := sk', current_pk := drawn_pk P d'\<rparr>, e_chain e, 0)" by (auto simp: e_def)
    note ep' = this
    show ?thesis
      by (rule receive_first [OF P e m _ _ _ _ ep' refl]) (use inv in \<open>simp_all add: e_def\<close>)
  qed
  with e ep at show thesis by (intro that [of e ?ep]) (simp add: e_def | blast)+
qed

text \<open>A whole epoch: the sender's messages, received in any order.\<close>

lemma send_new_epoch:
  assumes P: "ratchet_prims_ok P" and xs: "\<forall>(d, pt)\<in>set xs. draws_ok d \<and> msg_ok P pt" "xs \<noteq> []" "length xs \<le> 1024"
    and S: "session P used n A B" "n + 2 \<le> I64_MAX" "peer_pk A \<noteq> ''''" "need_new_epoch A"
  obtains A' ms e where "send_all P A xs = Ok (A', ms)" "length ms = length xs" "epoch_ok e"
    "\<forall>i < length (map snd xs). epoch_msg P e i (map snd xs ! i) (ms ! i)"
    "\<forall>i d. i < length xs \<and> draws_ok d \<longrightarrow>
        (\<exists>B'. decrypt_ratchet P d B (fst (ms ! i)) (snd (ms ! i)) = Ok (B', snd (xs ! i)) \<and> receiver_at P e {i} B')"
proof -
  obtain d pt ys where x: "xs = (d, pt) # ys" using xs(2) by (metis neq_Nil_conv prod.exhaust)
  have d: "draws_ok d" "msg_ok P pt" using xs(1) by (simp_all add: x)
  have ver: "rs_version A = RATCHET_VERSION" using S by (simp add: session_def)
  obtain e ep where e: "epoch_ok e" "e_context e = rs_context A" "sending_epoch P d A = Ok ep" "sender_at P e 0 ep"
    "e_cc e = chain_counter A + 1"
    and recv: "\<forall>i pt h c d'. draws_ok d' \<and> epoch_msg P e i pt (h, c) \<and> i < 1024 \<longrightarrow>
       (\<exists>B'. decrypt_ratchet P d' B h c = Ok (B', pt) \<and> receiver_at P e {i} B')"
    by (rule epoch_start [OF P d(1) S])
  have k: "length (e_chain e) = 32" using e(1) by (simp add: epoch_ok_def)
  obtain A1 m where first: "encrypt_ratchet P d A pt = Ok (A1, m)" "sender_at P e (Suc 0) A1" "epoch_msg P e 0 pt m"
    by (rule encrypt_in_epoch [OF P d k ver S(3) e(2) [symmetric] e(3,4)]) simp_all
  obtain A' ms where rest: "send_all P A1 ys = Ok (A', ms)" "length ms = length ys"
    "\<forall>j < length ys. epoch_msg P e (Suc 0 + j) (snd (ys ! j)) (ms ! j)"
    using send_all_epoch [OF P k _ first(2), of ys] xs by (auto simp: x)
  have msgs: "epoch_msg P e i (snd (xs ! i)) ((m # ms) ! i)" if "i < length xs" for i
    using that first(3) rest(3) by (cases i) (simp_all add: x)
  have got: "\<exists>B'. decrypt_ratchet P d B (fst ((m # ms) ! i)) (snd ((m # ms) ! i)) = Ok (B', snd (xs ! i))
      \<and> receiver_at P e {i} B'" if "i < length xs" "draws_ok d" for i d
    using recv [rule_format, of d i "snd (xs ! i)" "fst ((m # ms) ! i)" "snd ((m # ms) ! i)"] msgs [OF that(1)] that xs(3)
    by (simp only: prod.collapse) simp
  have sent: "send_all P A xs = Ok (A', m # ms)" using first(1) rest(1) by (cases m) (simp add: x)
  show thesis
  proof (rule that [OF sent _ e(1)])
    show "length (m # ms) = length xs" using rest(2) by (simp add: x)
    show "\<forall>i < length (map snd xs). epoch_msg P e i (map snd xs ! i) ((m # ms) ! i)"
    proof (intro allI impI)
      fix i assume "i < length (map snd xs)"
      then show "epoch_msg P e i (map snd xs ! i) ((m # ms) ! i)" using msgs [of i] by simp
    qed
  qed (use got in blast)
qed

subsection \<open>Bounds, authentication and failures\<close>

definition buffers_ok :: "ratchet_state \<Rightarrow> bool" where
  "buffers_ok st \<longleftrightarrow> length (skipped st) \<le> 1024 \<and> length (prev_epoch_skipped st) \<le> 1024"

lemma length_retain_prev: "length prev \<le> 1024 \<Longrightarrow> length (retain_prev ss prev) \<le> 1024"
  by (induction ss arbitrary: prev) (auto simp: MAX_RATCHET_WINDOW_def)

lemma skip_keys_bound:
  "skip_keys P ctx n i chain buf = Ok (chain', buf') \<Longrightarrow> length buf \<le> 1024 \<Longrightarrow> length buf' \<le> 1024"
  by (induction n arbitrary: i chain buf) (fastforce simp: Let_def MAX_RATCHET_WINDOW_def split: if_splits)+

lemma take_key_length: "take_key n buf = Some (k, rest) \<Longrightarrow> length buf = Suc (length rest)"
  by (induction buf arbitrary: rest) (auto split: if_splits option.splits)

lemma buffered_key_length: "buffered_key P n buf = Ok (k, rest) \<Longrightarrow> length rest \<le> length buf"
  by (auto simp: buffered_key_def dest!: take_key_length split: option.splits)

lemma receiving_epoch_buffers:
  "receiving_epoch P d st h t = Ok (out, k, n) \<Longrightarrow> buffers_ok st \<Longrightarrow> buffers_ok out"
  using length_retain_prev [of "[]" "skipped st"]
  by (auto simp: receiving_epoch_def buffers_ok_def split: if_splits prod.splits)

lemma message_key_buffers:
  assumes "message_key P st h prev out k n = Ok (out', mk, m)" "buffers_ok out"
  shows "buffers_ok out'"
  using assms by (auto simp: message_key_def buffers_ok_def split: if_splits prod.splits
      dest!: buffered_key_length dest: skip_keys_bound)

lemma decrypt_ratchet_OkE:
  assumes "decrypt_ratchet P d st h c = Ok (st', pt)"
  obtains t out k n out' mk m where
    "receiving_epoch P d st h t = Ok (out, k, n)"
    "message_key P st h (hd_chain_counter h + 1 = chain_counter st) out k n = Ok (out', mk, m)"
    "m \<Longrightarrow> st' = out'\<lparr>peer_pk := hd_pk h\<rparr> \<and> verify_header_mac P (header_mac_key P (root_key out')) h"
    "\<not> m \<Longrightarrow> st' = out'"
  using assms by (auto simp: decrypt_ratchet_def split: if_splits prod.splits)

lemma decrypt_keeps_buffers:
  assumes "decrypt_ratchet P d st h c = Ok (st', pt)" "buffers_ok st"
  shows "buffers_ok st'"
  using assms(1)
proof (rule decrypt_ratchet_OkE)
  fix t out k n out' mk m
  assume "receiving_epoch P d st h t = Ok (out, k, n)"
    "message_key P st h (hd_chain_counter h + 1 = chain_counter st) out k n = Ok (out', mk, m)"
    and st': "m \<Longrightarrow> st' = out'\<lparr>peer_pk := hd_pk h\<rparr> \<and> verify_header_mac P (header_mac_key P (root_key out')) h"
      "\<not> m \<Longrightarrow> st' = out'"
  then have "buffers_ok out'" using receiving_epoch_buffers message_key_buffers assms(2) by blast
  with st' show ?thesis by (cases m) (auto simp: buffers_ok_def)
qed

lemma encrypt_keeps_buffers:
  assumes "encrypt_ratchet P d st pt = Ok (st', h, c)" "buffers_ok st"
  shows "buffers_ok st'"
proof -
  have "buffers_ok ep" if "sending_epoch P d st = Ok ep" for ep
    using that assms(2) by (auto simp: sending_epoch_def buffers_ok_def split: if_splits)
  with assms(1) show ?thesis
    by (auto simp: encrypt_ratchet_def buffers_ok_def Let_def split: if_splits)
qed

lemma receiving_epoch_peer: "receiving_epoch P d st h t = Ok (out, k, n) \<Longrightarrow> peer_pk out = peer_pk st"
  by (auto simp: receiving_epoch_def split: if_splits prod.splits)

lemma message_key_peer: "message_key P st h prev out k n = Ok (out', mk, m) \<Longrightarrow> peer_pk out' = peer_pk out"
  by (auto simp: message_key_def split: if_splits prod.splits)

lemma decrypt_adopts_authenticated:
  assumes "decrypt_ratchet P d st h c = Ok (st', pt)" "peer_pk st' \<noteq> peer_pk st"
  shows "peer_pk st' = hd_pk h \<and> verify_header_mac P (header_mac_key P (root_key st')) h"
  using assms(1)
proof (rule decrypt_ratchet_OkE)
  fix t out k n out' mk m
  assume "receiving_epoch P d st h t = Ok (out, k, n)"
    "message_key P st h (hd_chain_counter h + 1 = chain_counter st) out k n = Ok (out', mk, m)"
    and st': "m \<Longrightarrow> st' = out'\<lparr>peer_pk := hd_pk h\<rparr> \<and> verify_header_mac P (header_mac_key P (root_key out')) h"
      "\<not> m \<Longrightarrow> st' = out'"
  then have "peer_pk out' = peer_pk st" using receiving_epoch_peer message_key_peer by metis
  with st' assms(2) show ?thesis by (cases m) auto
qed

lemma decrypt_i64_max:
  assumes "rs_version st = RATCHET_VERSION" "hd_version h = RATCHET_VERSION"
    "length (hd_pk h) = HYBRID_PK_LEN * 2" "length (hd_ct h) = HYBRID_CT_LEN * 2"
    "length c \<le> MAX_RATCHET_CIPHERTEXT" "hd_chain_counter h = I64_MAX"
  shows "decrypt_ratchet P d st h c = Panic"
  using assms by (simp add: decrypt_ratchet_def add_i64_def)

lemma header_tags_round_trip:
  assumes "hd_version h = RATCHET_VERSION" "I64_MIN \<le> hd_seq h" "hd_seq h \<le> I64_MAX"
    "I64_MIN \<le> hd_chain_counter h" "hd_chain_counter h \<le> I64_MAX"
  shows "ratchet_header_from_tags (ratchet_wrapper_tags out h) = Some h"
  using assms parse_u8_show [of "hd_version h"]
  by (simp add: ratchet_header_from_tags_def ratchet_wrapper_tags_def parse_i64_show_int RATCHET_VERSION_def)

lemma str_le_total: "str_le s t \<or> str_le t s"
proof (induction s t rule: str_le.induct)
  case (3 c s d t)
  then show ?case by (metis linorder_neqE_nat of_char_eq_iff str_le.simps(3))
qed auto

lemma str_le_antisym: "str_le s t \<Longrightarrow> str_le t s \<Longrightarrow> s = t"
proof (induction s t rule: str_le.induct)
  case (1 t)
  then show ?case by (cases t) auto
qed auto

lemma ratchet_context_sym: "ratchet_context a b = ratchet_context b a"
  using str_le_total [of a b] str_le_antisym [of a b] by (auto simp: ratchet_context_def)

lemma decrypt_no_chain:
  assumes "rs_version st = RATCHET_VERSION" "hd_version h = RATCHET_VERSION"
    "length (hd_pk h) = HYBRID_PK_LEN * 2" "length (hd_ct h) = HYBRID_CT_LEN * 2"
    "length c \<le> MAX_RATCHET_CIPHERTEXT" "hd_chain_counter h = chain_counter st" "receiving_chain_key st = ''''"
    "0 \<le> chain_counter st" "chain_counter st < I64_MAX"
  shows "decrypt_ratchet P d st h c = Err ''no receiving chain for chain_counter''"
proof -
  have "add_i64 (chain_counter st) 1 = Ok (chain_counter st + 1)" using assms by simp
  with assms show ?thesis by (simp add: decrypt_ratchet_def receiving_epoch_def)
qed

lemma encrypt_receiving_key:
  assumes "encrypt_ratchet P d st pt = Ok (st', h, c)"
  shows "receiving_chain_key st' = receiving_chain_key st"
proof -
  have "receiving_chain_key ep = receiving_chain_key st" if "sending_epoch P d st = Ok ep" for ep
    using that by (auto simp: sending_epoch_def split: if_splits)
  with assms show ?thesis by (auto simp: encrypt_ratchet_def Let_def split: if_splits)
qed

lemma first_send:
  assumes P: "ratchet_prims_ok P" and d: "draws_ok d" and pt: "msg_ok P pt"
    and S: "session P used n A B" "n + 2 \<le> I64_MAX" "peer_pk A \<noteq> ''''" "need_new_epoch A"
  obtains A' h c e where "encrypt_ratchet P d A pt = Ok (A', h, c)" "epoch_ok e" "epoch_msg P e 0 pt (h, c)"
    "sender_at P e 1 A'" "e_cc e = chain_counter A + 1"
proof -
  obtain e ep where e: "epoch_ok e" "e_context e = rs_context A" "sending_epoch P d A = Ok ep" "sender_at P e 0 ep"
    "e_cc e = chain_counter A + 1"
    by (rule epoch_start [OF P d S])
  have k: "length (e_chain e) = 32" using e(1) by (simp add: epoch_ok_def)
  have ver: "rs_version A = RATCHET_VERSION" using S by (simp add: session_def)
  obtain A' m where "encrypt_ratchet P d A pt = Ok (A', m)" "sender_at P e (Suc 0) A'" "epoch_msg P e 0 pt m"
    by (rule encrypt_in_epoch [OF P d pt k ver S(3) e(2) [symmetric] e(3,4)]) simp_all
  with e(1,5) that [of A' "fst m" "snd m" e] show thesis by simp
qed

text \<open>Two peers whose first messages cross: neither can open the other's.\<close>

lemma crossed_message:
  assumes "sender_at P eA 1 A" "epoch_ok eA" "receiving_chain_key A = ''''"
    "epoch_msg P eB 0 pt (h, c)" "epoch_ok eB" "e_cc eB = e_cc eA"
  shows "decrypt_ratchet P d A h c = Err ''no receiving chain for chain_counter''"
  using assms by (intro decrypt_no_chain) (simp_all add: sender_at_def epoch_msg_def epoch_ok_def)

lemma sealed_too_large:
  assumes P: "ratchet_prims_ok P" and d: "draws_ok d" and enc: "encrypt_ratchet P d st pt = Ok (st', h, c)"
    and big: "40960 \<le> length (p_deflate P pt)"
  shows "MAX_RATCHET_CIPHERTEXT < length c"
proof -
  obtain nonce where n: "dr_nonce d = Some nonce" "length nonce = 32" using d by (auto simp: draws_ok_def)
  obtain z ck where z: "compress_bytes P pt = Ok z" "nip44_seal P (Some nonce) z ck = Ok c"
    using enc n(1) by (auto simp: encrypt_ratchet_def Let_def split: if_splits)
  then have "z = RAW_PLAINTEXT_TAG # p_deflate P pt"
    by (auto simp: compress_bytes_def compress_def split: if_splits)
  then have "40960 < length z" "z \<noteq> []" using big by simp_all
  with calc_padding_large [of "length z"] length_sealed [OF P n(2) _ z(2)] show ?thesis
    by (simp add: MAX_RATCHET_CIPHERTEXT_def length_encode_prefix)
qed

lemma encrypt_oversize:
  assumes P: "ratchet_prims_ok P" and d: "draws_ok d" and len: "length pt \<le> MAX_INPUT_LEN"
    and S: "session P used n A B" "n + 2 \<le> I64_MAX" "peer_pk A \<noteq> ''''" "need_new_epoch A"
  shows "\<exists>A' h c. encrypt_ratchet P d A pt = Ok (A', h, c) \<and> sending_chain_counter A' = 1
    \<and> chain_counter A' = chain_counter A + 1"
proof -
  obtain e ep where e: "epoch_ok e" "e_context e = rs_context A" "sending_epoch P d A = Ok ep" "sender_at P e 0 ep"
    "e_cc e = chain_counter A + 1"
    by (rule epoch_start [OF P d S])
  obtain nonce where n: "dr_nonce d = Some nonce" using d by (auto simp: draws_ok_def)
  have k: "length (e_chain e) = 32" "sending_chain_key ep = p_hex_encode P (e_chain e)"
    "sending_chain_counter ep = 0" "chain_counter ep = e_cc e"
    using e(1,4) by (simp_all add: epoch_ok_def sender_at_def)
  obtain mk k' where "derive_msg_key_bytes P (e_chain e) (rs_context A) = Ok (mk, k')"
    by (rule derive_msg_key_bytes_ok [OF ratchet_primsD(5) [OF P]])
  then have "derive_msg_key P (sending_chain_key ep) (rs_context A) = Ok (mk, k')"
    using k(1) by (simp add: derive_msg_key_def k(2) hex_decode_hex [OF ratchet_primsD(4) [OF P]])
  moreover have "rs_version A = RATCHET_VERSION" using S(1) by (simp add: session_def)
  ultimately show ?thesis
    using S(3) by (simp add: encrypt_ratchet_def e(3,5) compress_bytes_ok [OF len] n nip44_seal_def k(3,4) Let_def)
qed

lemma decrypt_too_large:
  "MAX_RATCHET_CIPHERTEXT < length c \<Longrightarrow> \<exists>msg. decrypt_ratchet P d st h c = Err msg"
  by (simp add: decrypt_ratchet_def)

text \<open>A ratchet state as a machine: whatever is sent or received successfully.\<close>

inductive ratchet_step :: "prims \<Rightarrow> ratchet_state \<Rightarrow> ratchet_state \<Rightarrow> bool" for P where
  sends: "encrypt_ratchet P d st pt = Ok (st', h, c) \<Longrightarrow> ratchet_step P st st'"
| receives: "decrypt_ratchet P d st h c = Ok (st', pt) \<Longrightarrow> ratchet_step P st st'"

inductive_cases ratchet_stepE: "ratchet_step P st st'"

lemma buffers_ok_init: "buffers_ok (init_state peer ctx sk pk)"
  by (simp add: buffers_ok_def init_state_def)

interpretation buffers: safe_machine "\<lambda>st. \<exists>peer ctx sk pk. st = init_state peer ctx sk pk" "ratchet_step P" buffers_ok for P
  by unfold_locales
    (auto simp: buffers_ok_init elim!: ratchet_stepE intro: encrypt_keeps_buffers decrypt_keeps_buffers)

end
