(* ===== verification/PqcLink.thy ===== *)
theory PqcLink
  imports Ratchet_Props
begin

section \<open>Ratchet sessions of a network link (mesh-core/src/pqc_link.rs)\<close>

text \<open>
  The in-memory session store of \<open>PqcLinkCrypto\<close>: handshakes, the keygen budget, framing, and the
  encrypt and decrypt steps. An operation takes the state and the clock (\<open>now\<close>, seconds) and returns its
  result with the new state. The code holds a lock stripe of the peer across each get-derive-put
  (\<open>step_guard\<close>), so a step is atomic here; the clock is read once per operation. The JSON codec of
  headers is third-party code: the record \<open>serde\<close>.
\<close>

definition FRAME_TAG_HANDSHAKE :: byte where "FRAME_TAG_HANDSHAKE = 0"
definition FRAME_TAG_RATCHET :: byte where "FRAME_TAG_RATCHET = 1"
definition MAX_LINK_HEADER_JSON :: nat where "MAX_LINK_HEADER_JSON = 8192"
definition MAX_LINK_FRAME :: nat where "MAX_LINK_FRAME = 98304"
definition MAX_LINK_PAYLOAD :: nat where "MAX_LINK_PAYLOAD = 49152"
definition MAX_SESSIONS :: nat where "MAX_SESSIONS = 256"
definition MAX_KEYGEN_PER_SOURCE :: nat where "MAX_KEYGEN_PER_SOURCE = 4"
definition KEYGEN_WINDOW_SECS :: nat where "KEYGEN_WINDOW_SECS = 60"
definition STEP_STRIPES :: nat where "STEP_STRIPES = 32"

record serde =
  to_json :: "header \<Rightarrow> string option"
  from_json :: "string \<Rightarrow> header option"

record pqc_link =
  states :: "(string, ratchet_state \<times> nat \<times> nat) hmap"
  keygens :: "(string, nat \<times> nat) hmap"

definition new_link :: pqc_link where
  "new_link = \<lparr>states = [], keygens = []\<rparr>"

text \<open>The lock stripe of a peer: a 64-bit polynomial hash.\<close>

definition step_stripe :: "string \<Rightarrow> nat" where
  "step_stripe peer = unat (foldl (\<lambda>h c. h * 31 + word_of_nat (of_char c)) (0 :: 64 word) peer) mod STEP_STRIPES"

definition prune_stale_sessions :: "nat \<Rightarrow> pqc_link \<Rightarrow> pqc_link" where
  "prune_stale_sessions now L =
     L\<lparr>states := hm_retain (\<lambda>_ (s, created_at, last_act).
         if peer_pk s = '''' \<and> now - created_at > 60 then False
         else if now - last_act > 86400 then False else True) (states L)\<rparr>"

definition at_session_capacity :: "nat \<Rightarrow> pqc_link \<Rightarrow> bool \<times> pqc_link" where
  "at_session_capacity now L =
     (let L' = prune_stale_sessions now L in (length (states L') \<ge> MAX_SESSIONS, L'))"

definition keygen_budget :: "nat \<Rightarrow> string \<Rightarrow> pqc_link \<Rightarrow> bool \<times> pqc_link" where
  "keygen_budget now peer L =
     (let ks = (if length (keygens L) > 4096
                then hm_retain (\<lambda>_ (_, ts). now - ts < KEYGEN_WINDOW_SECS) (keygens L) else keygens L);
          entry = (case map_of ks peer of None \<Rightarrow> (0, now) | Some e \<Rightarrow> e);
          entry1 = (if now - snd entry \<ge> KEYGEN_WINDOW_SECS then (0, now) else entry)
      in if fst entry1 \<ge> MAX_KEYGEN_PER_SOURCE
         then (False, L\<lparr>keygens := hm_put peer entry1 ks\<rparr>)
         else (True, L\<lparr>keygens := hm_put peer (fst entry1 + 1, snd entry1) ks\<rparr>))"

definition get_state :: "string \<Rightarrow> pqc_link \<Rightarrow> ratchet_state res" where
  "get_state peer L = ok_or ''no ratchet session for peer'' (map_option fst (map_of (states L) peer))"

definition put_state :: "nat \<Rightarrow> string \<Rightarrow> ratchet_state \<Rightarrow> pqc_link \<Rightarrow> pqc_link" where
  "put_state now peer st L =
     (let created_at = (case map_of (states L) peer of Some (_, c, _) \<Rightarrow> c | None \<Rightarrow> now)
      in L\<lparr>states := hm_put peer (st, created_at, now) (states L)\<rparr>)"

text \<open>The part the three handshake entry points share: capacity, budget, key pair, fresh state.\<close>

definition register_session ::
  "prims \<Rightarrow> draws \<Rightarrow> nat \<Rightarrow> string \<Rightarrow> string \<Rightarrow> string \<Rightarrow> pqc_link \<Rightarrow> string res \<times> pqc_link" where
  "register_session P d now peer ctx peer_key L =
     (case at_session_capacity now L of (full, L1) \<Rightarrow>
        if full then (Err ''ratchet session limit reached'', L1)
        else case keygen_budget now peer L1 of (granted, L2) \<Rightarrow>
          if \<not> granted then (Err ''handshake keygen rate limited'', L2)
          else case hybrid_keygen P (dr_x25519 d) (dr_seed d) of
              Ok (pk, sk) \<Rightarrow> (Ok pk, put_state now peer (init_state peer_key ctx sk pk) L2)
            | Err e \<Rightarrow> (Err (''hybrid keygen failed: '' @ e), L2)
            | Panic \<Rightarrow> (Panic, L2))"

definition begin_handshake ::
  "prims \<Rightarrow> draws \<Rightarrow> nat \<Rightarrow> string \<Rightarrow> string \<Rightarrow> pqc_link \<Rightarrow> string res \<times> pqc_link" where
  "begin_handshake P d now peer ctx L =
     (case map_of (states L) peer of
        Some (existing, created_at, _) \<Rightarrow>
          if peer_pk existing = '''' \<and> now - created_at > 60
          then register_session P d now peer ctx '''' (L\<lparr>states := hm_del peer (states L)\<rparr>)
          else (Err ''ratchet session already exists for peer'', L)
      | None \<Rightarrow> register_session P d now peer ctx '''' L)"

definition complete_handshake :: "nat \<Rightarrow> string \<Rightarrow> string \<Rightarrow> pqc_link \<Rightarrow> unit res \<times> pqc_link" where
  "complete_handshake now peer key L =
     (if trim key = '''' then (Err ''empty peer public key'', L)
      else case get_state peer L of
        Ok st \<Rightarrow> (Ok (), put_state now peer (st\<lparr>peer_pk := key\<rparr>) L)
      | Err e \<Rightarrow> (Err e, L)
      | Panic \<Rightarrow> (Panic, L))"

definition has_session :: "string \<Rightarrow> pqc_link \<Rightarrow> bool" where
  "has_session peer L = hm_has peer (states L)"

definition accept_handshake_pk ::
  "prims \<Rightarrow> draws \<Rightarrow> nat \<Rightarrow> string \<Rightarrow> string \<Rightarrow> string \<Rightarrow> pqc_link \<Rightarrow> string res \<times> pqc_link" where
  "accept_handshake_pk P d now peer ctx key L =
     (if trim key = '''' then (Err ''empty peer public key'', L)
      else if has_session peer L then (Err ''ratchet session already exists for peer'', L)
      else register_session P d now peer ctx key L)"

definition handshake_frame :: "string \<Rightarrow> string \<Rightarrow> byte list" where
  "handshake_frame sid pk_hex =
     [FRAME_TAG_HANDSHAKE] @ be_bytes 4 (length sid) @ bytes_of sid @ bytes_of pk_hex"

definition parse_handshake_frame :: "byte list \<Rightarrow> (string \<times> string) res" where
  "parse_handshake_frame frame =
     (if length frame < 5 \<or> length frame > MAX_LINK_FRAME \<or> frame ! 0 \<noteq> FRAME_TAG_HANDSHAKE
      then Err ''bad handshake frame''
      else let sid_len = be_val (take 4 (drop 1 frame)) in
        if sid_len > 1024 \<or> length frame < 5 + sid_len + 1 then Err ''bad handshake frame''
        else and_then (ok_or ''handshake sid not ascii'' (from_utf8 (take sid_len (drop 5 frame)))) (\<lambda>sid.
          and_then (ok_or ''handshake pk not ascii'' (from_utf8 (drop (5 + sid_len) frame))) (\<lambda>pk.
          Ok (sid, pk))))"

definition accept_handshake ::
  "prims \<Rightarrow> draws \<Rightarrow> nat \<Rightarrow> string \<Rightarrow> string \<Rightarrow> byte list \<Rightarrow> pqc_link \<Rightarrow> (string \<times> string) res \<times> pqc_link" where
  "accept_handshake P d now ctx key frame L =
     (case parse_handshake_frame frame of
        Ok (_, pk) \<Rightarrow>
          (case accept_handshake_pk P d now key ctx pk L of
             (r, L') \<Rightarrow> (and_then r (\<lambda>own. Ok (key, own)), L'))
      | Err e \<Rightarrow> (Err e, L)
      | Panic \<Rightarrow> (Panic, L))"

definition own_pk :: "string \<Rightarrow> pqc_link \<Rightarrow> string option" where
  "own_pk peer L = (case get_state peer L of Ok st \<Rightarrow> Some (current_pk st) | _ \<Rightarrow> None)"

definition ensure_session ::
  "prims \<Rightarrow> draws \<Rightarrow> nat \<Rightarrow> string \<Rightarrow> string \<Rightarrow> string \<Rightarrow> pqc_link \<Rightarrow> unit res \<times> pqc_link" where
  "ensure_session P d now peer ctx key L =
     (case (if has_session peer L then (Ok '''', L) else begin_handshake P d now peer ctx L) of
        (Ok _, L') \<Rightarrow> complete_handshake now peer key L'
      | (Err e, L') \<Rightarrow> (Err e, L')
      | (Panic, L') \<Rightarrow> (Panic, L'))"

definition ratchet_frame :: "string \<Rightarrow> string \<Rightarrow> byte list" where
  "ratchet_frame header_json ct =
     [FRAME_TAG_RATCHET] @ be_bytes 2 (length header_json) @ bytes_of header_json @ bytes_of ct"

definition link_encrypt ::
  "prims \<Rightarrow> serde \<Rightarrow> draws \<Rightarrow> nat \<Rightarrow> string \<Rightarrow> byte list \<Rightarrow> pqc_link \<Rightarrow> byte list res \<times> pqc_link" where
  "link_encrypt P js d now peer payload L =
     (if length payload > MAX_LINK_PAYLOAD then (Err ''payload too large for ratchet link frame'', L)
      else case get_state peer L of
          Err e \<Rightarrow> (Err e, L)
        | Panic \<Rightarrow> (Panic, L)
        | Ok st \<Rightarrow>
            if peer_pk st = '''' then (Err ''ratchet handshake incomplete: no peer public key'', L)
            else case encrypt_ratchet P d st payload of
                Err e \<Rightarrow> (Err e, L)
              | Panic \<Rightarrow> (Panic, L)
              | Ok (st', h, ct) \<Rightarrow>
                  (let L' = put_state now peer st' L in
                   case to_json js h of
                     None \<Rightarrow> (Err ''header serialization failed'', L')
                   | Some j \<Rightarrow>
                       if length j > MAX_LINK_HEADER_JSON then (Err ''ratchet header too large'', L')
                       else (Ok (ratchet_frame j ct), L')))"

definition parse_ratchet_frame :: "serde \<Rightarrow> byte list \<Rightarrow> (header \<times> string) res" where
  "parse_ratchet_frame js frame =
     (if length frame < 3 \<or> frame ! 0 \<noteq> FRAME_TAG_RATCHET then Err ''bad ratchet frame''
      else if length frame > MAX_LINK_FRAME then Err ''ratchet frame too large''
      else let hlen = be_val (take 2 (drop 1 frame)) in
        if hlen > MAX_LINK_HEADER_JSON \<or> length frame < 3 + hlen + 1 then Err ''bad ratchet header length''
        else and_then (ok_or ''header not utf8'' (from_utf8 (take hlen (drop 3 frame)))) (\<lambda>j.
          and_then (ok_or ''bad ratchet header json'' (from_json js j)) (\<lambda>h.
          and_then (ok_or ''ciphertext not utf8'' (from_utf8 (drop (3 + hlen) frame))) (\<lambda>ct.
          Ok (h, ct)))))"

definition link_decrypt ::
  "prims \<Rightarrow> serde \<Rightarrow> draws \<Rightarrow> nat \<Rightarrow> string \<Rightarrow> byte list \<Rightarrow> pqc_link \<Rightarrow> byte list res \<times> pqc_link" where
  "link_decrypt P js d now peer frame L =
     (case and_then (parse_ratchet_frame js frame) (\<lambda>(h, ct).
             and_then (get_state peer L) (\<lambda>st. decrypt_ratchet P d st h ct)) of
        Ok (st', plaintext) \<Rightarrow> (Ok plaintext, put_state now peer st' L)
      | Err e \<Rightarrow> (Err e, L)
      | Panic \<Rightarrow> (Panic, L))"

definition remove_session :: "string \<Rightarrow> pqc_link \<Rightarrow> pqc_link" where
  "remove_session peer L = L\<lparr>states := hm_del peer (states L), keygens := hm_del peer (keygens L)\<rparr>"

subsection \<open>Invariant\<close>

definition link_ok :: "pqc_link \<Rightarrow> bool" where
  "link_ok L \<longleftrightarrow>
     hm_wf (states L) \<and> length (states L) \<le> MAX_SESSIONS \<and> hm_wf (keygens L)
   \<and> (\<forall>peer e. map_of (keygens L) peer = Some e \<longrightarrow> fst e \<le> MAX_KEYGEN_PER_SOURCE)"

lemma link_ok_new: "link_ok new_link"
  by (simp add: link_ok_def new_link_def)

lemma link_ok_prune: "link_ok L \<Longrightarrow> link_ok (prune_stale_sessions now L)"
  by (auto simp: link_ok_def prune_stale_sessions_def intro: hm.keep_within_cap)

lemma keygen_budget_ok:
  assumes "link_ok L"
  shows "link_ok (snd (keygen_budget now peer L))" and "states (snd (keygen_budget now peer L)) = states L"
proof -
  let ?Q = "\<lambda>(_::string) e. fst e \<le> MAX_KEYGEN_PER_SOURCE"
  define ks where "ks = (if length (keygens L) > 4096
    then hm_retain (\<lambda>_ (_, ts). now - ts < KEYGEN_WINDOW_SECS) (keygens L) else keygens L)"
  have ks: "hm_wf ks" "\<forall>k e. map_of ks k = Some e \<longrightarrow> ?Q k e"
    using assms hm.keep_all_entries [of "keygens L" ?Q] by (simp_all add: ks_def link_ok_def)
  then have "link_ok (L\<lparr>keygens := hm_put peer e ks\<rparr>)" if "fst e \<le> MAX_KEYGEN_PER_SOURCE" for e
    using assms that hm.put_all_entries [OF ks, where ?k0.0 = peer and ?v0.0 = e] by (simp add: link_ok_def)
  moreover have "fst (case map_of ks peer of None \<Rightarrow> (0, now) | Some e \<Rightarrow> e) \<le> MAX_KEYGEN_PER_SOURCE"
    using ks(2) by (auto split: option.split)
  ultimately show "link_ok (snd (keygen_budget now peer L))"
    by (auto simp: keygen_budget_def Let_def ks_def [symmetric] MAX_KEYGEN_PER_SOURCE_def)
  show "states (snd (keygen_budget now peer L)) = states L"
    by (simp add: keygen_budget_def Let_def)
qed

lemma link_ok_put:
  assumes "link_ok L" "map_of (states L) peer \<noteq> None \<or> length (states L) < MAX_SESSIONS"
  shows "link_ok (put_state now peer st L)"
  using assms hm.put_within_cap [of "states L" MAX_SESSIONS peer]
  by (auto simp: link_ok_def put_state_def Let_def)

lemma link_ok_del: "link_ok L \<Longrightarrow> link_ok (L\<lparr>states := hm_del peer (states L)\<rparr>)"
  by (auto simp: link_ok_def intro: hm.del_within_cap)

lemma register_session_ok:
  assumes "link_ok L"
  shows "link_ok (snd (register_session P d now peer ctx key L))"
proof -
  let ?L1 = "prune_stale_sessions now L"
  note ok = link_ok_prune [OF assms, of now]
  obtain g L2 where b: "keygen_budget now peer ?L1 = (g, L2)" by (cases "keygen_budget now peer ?L1")
  have L2: "link_ok L2" "states L2 = states ?L1" using keygen_budget_ok [OF ok, of now peer] by (simp_all add: b)
  then have "link_ok (put_state now peer st L2)" if "\<not> MAX_SESSIONS \<le> length (states ?L1)" for st
    using that by (intro link_ok_put) simp_all
  with ok L2(1) show ?thesis
    by (auto simp: register_session_def at_session_capacity_def Let_def b split: res.split)
qed

lemma begin_handshake_ok: "link_ok L \<Longrightarrow> link_ok (snd (begin_handshake P d now peer ctx L))"
  by (auto simp: begin_handshake_def register_session_ok link_ok_del split: option.split)

lemma get_state_Ok: "get_state peer L = Ok st \<Longrightarrow> map_of (states L) peer \<noteq> None"
  by (auto simp: get_state_def)

lemma complete_handshake_ok: "link_ok L \<Longrightarrow> link_ok (snd (complete_handshake now peer key L))"
  by (auto simp: complete_handshake_def intro!: link_ok_put dest: get_state_Ok split: res.split)

lemma accept_handshake_pk_ok: "link_ok L \<Longrightarrow> link_ok (snd (accept_handshake_pk P d now peer ctx key L))"
  by (simp add: accept_handshake_pk_def register_session_ok)

lemma accept_handshake_ok: "link_ok L \<Longrightarrow> link_ok (snd (accept_handshake P d now ctx key frame L))"
  using accept_handshake_pk_ok [of L P d now key ctx]
  by (auto simp: accept_handshake_def split: res.split prod.split) (metis snd_conv)

lemma ensure_session_ok: "link_ok L \<Longrightarrow> link_ok (snd (ensure_session P d now peer ctx key L))"
  using begin_handshake_ok [of L P d now peer ctx]
  by (cases "begin_handshake P d now peer ctx L"; cases "fst (begin_handshake P d now peer ctx L)")
     (auto simp: ensure_session_def complete_handshake_ok)

lemma link_encrypt_ok: "link_ok L \<Longrightarrow> link_ok (snd (link_encrypt P js d now peer payload L))"
  by (auto simp: link_encrypt_def Let_def intro!: link_ok_put dest: get_state_Ok split: res.split option.split)

lemma link_decrypt_ok: "link_ok L \<Longrightarrow> link_ok (snd (link_decrypt P js d now peer frame L))"
  by (auto simp: link_decrypt_def intro!: link_ok_put dest: get_state_Ok split: res.split)

lemma remove_session_ok: "link_ok L \<Longrightarrow> link_ok (remove_session peer L)"
  by (auto simp: remove_session_def link_ok_def intro: hm.del_within_cap)

text \<open>Every call on the store as a step; the invariant holds after any sequence of calls.\<close>

inductive link_step :: "prims \<Rightarrow> serde \<Rightarrow> pqc_link \<Rightarrow> pqc_link \<Rightarrow> bool" for P js where
  "link_step P js L (snd (begin_handshake P d now peer ctx L))"
| "link_step P js L (snd (complete_handshake now peer key L))"
| "link_step P js L (snd (accept_handshake P d now ctx key frame L))"
| "link_step P js L (snd (accept_handshake_pk P d now peer ctx key L))"
| "link_step P js L (snd (ensure_session P d now peer ctx key L))"
| "link_step P js L (snd (link_encrypt P js d now peer payload L))"
| "link_step P js L (snd (link_decrypt P js d now peer frame L))"
| "link_step P js L (remove_session peer L)"

inductive_cases link_stepE: "link_step P js L L'"

lemmas link_op_ok = begin_handshake_ok complete_handshake_ok accept_handshake_ok accept_handshake_pk_ok
  ensure_session_ok link_encrypt_ok link_decrypt_ok remove_session_ok

interpretation store: safe_machine "\<lambda>L. L = new_link" "link_step P js" link_ok for P js
proof
  show "link_ok s'" if "link_ok s" "link_step P js s s'" for s s'
    using that by (auto elim!: link_stepE simp: link_op_ok)
qed (simp add: link_ok_new)

subsection \<open>Frames\<close>

lemma handshake_frame_round_trip:
  assumes "utf8_valid (bytes_of sid)" "utf8_valid (bytes_of pk)" "length sid \<le> 1024" "pk \<noteq> ''''"
    "length sid + length pk + 5 \<le> MAX_LINK_FRAME"
  shows "parse_handshake_frame (handshake_frame sid pk) = Ok (sid, pk)"
proof -
  have len: "be_val (be_bytes 4 (length sid)) = length sid" using assms(3) by simp
  have "0 < length pk" using assms(4) by simp
  then show ?thesis
    using assms by (simp add: parse_handshake_frame_def handshake_frame_def len Let_def drop_Cons')
qed

text \<open>What the header codec promises: JSON of a header of hex fields is ASCII, is read back, and adds at
  most 256 characters for names, punctuation and numbers.\<close>

definition serde_ok :: "serde \<Rightarrow> bool" where
  "serde_ok js \<longleftrightarrow>
     (\<forall>h. is_hex (hd_pk h) \<and> is_hex (hd_ct h) \<and> is_hex (hd_mac h)
        \<and> I64_MIN \<le> hd_seq h \<and> hd_seq h \<le> I64_MAX
        \<and> I64_MIN \<le> hd_chain_counter h \<and> hd_chain_counter h \<le> I64_MAX \<longrightarrow>
       (\<exists>j. to_json js h = Some j \<and> from_json js j = Some h \<and> ascii j
          \<and> length j \<le> 256 + length (hd_pk h) + length (hd_ct h) + length (hd_mac h)))"

lemma ratchet_frame_round_trip:
  assumes "ascii j" "from_json js j = Some h" "length j \<le> MAX_LINK_HEADER_JSON"
    "ascii ct" "ct \<noteq> ''''" "length ct \<le> MAX_RATCHET_CIPHERTEXT"
  shows "parse_ratchet_frame js (ratchet_frame j ct) = Ok (h, ct)"
proof -
  have len: "be_val (be_bytes 2 (length j)) = length j" using assms(3) by (simp add: MAX_LINK_HEADER_JSON_def)
  have caps: "length j \<le> 8192" "0 < length ct" "length ct \<le> 65536"
    using assms by (simp_all add: MAX_LINK_HEADER_JSON_def MAX_RATCHET_CIPHERTEXT_def)
  show ?thesis
    using assms(1,2,4) caps
    by (simp add: parse_ratchet_frame_def ratchet_frame_def len MAX_LINK_FRAME_def MAX_LINK_HEADER_JSON_def
        utf8_valid_ascii Let_def drop_Cons')
qed

lemma wire_header_json:
  assumes "serde_ok js" "wire_ok h c"
  obtains j where "to_json js h = Some j" "from_json js j = Some h" "ascii j" "length j \<le> MAX_LINK_HEADER_JSON"
proof -
  obtain j where "to_json js h = Some j" "from_json js j = Some h" "ascii j"
    "length j \<le> 256 + length (hd_pk h) + length (hd_ct h) + length (hd_mac h)"
    using assms(1) [unfolded serde_ok_def, rule_format, of h] assms(2) by (auto simp: wire_ok_def)
  moreover have "length (hd_pk h) + length (hd_ct h) + length (hd_mac h) = 4740"
    using assms(2) by (simp add: wire_ok_def HYBRID_PK_LEN_def HYBRID_CT_LEN_def)
  moreover from calculation have "length j \<le> MAX_LINK_HEADER_JSON"
    unfolding MAX_LINK_HEADER_JSON_def by linarith
  ultimately show thesis by (intro that)
qed

subsection \<open>Delivery over two stores\<close>

lemma get_put_state [simp]:
  "get_state q (put_state now peer st L) = (if q = peer then Ok st else get_state q L)"
  by (simp add: get_state_def put_state_def Let_def)

lemma link_deliver:
  assumes P: "ratchet_prims_ok P" "serde_ok js" and d: "draws_ok d" "draws_ok d'"
    and A: "get_state b LA = Ok A" and B: "get_state a LB = Ok B"
    and S: "session P used n A B" "n + 2 \<le> I64_MAX" "peer_pk A \<noteq> ''''" "drawn_pk P d \<notin> used"
    and pt: "msg_ok P pt" "length pt \<le> MAX_LINK_PAYLOAD"
  shows "\<exists>frame LA' LB' A' B'. link_encrypt P js d now b pt LA = (Ok frame, LA')
    \<and> link_decrypt P js d' now' a frame LB = (Ok pt, LB')
    \<and> get_state b LA' = Ok A' \<and> get_state a LB' = Ok B'
    \<and> session P (insert (drawn_pk P d) used) (n + 1) A' B' \<and> peer_pk A' \<noteq> '''' \<and> peer_pk B' \<noteq> ''''"
proof -
  obtain A' h c B' where step: "encrypt_ratchet P d A pt = Ok (A', h, c)" "wire_ok h c"
    "decrypt_ratchet P d' B h c = Ok (B', pt)"
    "session P (insert (drawn_pk P d) used) (n + 1) A' B'" "peer_pk A' \<noteq> ''''" "peer_pk B' \<noteq> ''''"
    using deliver [OF P(1) d pt(1) S] by blast
  obtain j where j: "to_json js h = Some j" "from_json js j = Some h" "ascii j" "length j \<le> MAX_LINK_HEADER_JSON"
    by (rule wire_header_json [OF P(2) step(2)])
  have "parse_ratchet_frame js (ratchet_frame j c) = Ok (h, c)"
    using step(2) j by (intro ratchet_frame_round_trip) (simp_all add: wire_ok_def)
  then have "link_decrypt P js d' now' a (ratchet_frame j c) LB = (Ok pt, put_state now' a B' LB)"
    by (simp add: link_decrypt_def B step(3))
  moreover have "link_encrypt P js d now b pt LA = (Ok (ratchet_frame j c), put_state now b A' LA)"
    using pt(2) S(3) j(1,4) by (simp add: link_encrypt_def A step(1) Let_def)
  ultimately show ?thesis using step(4-) by simp
qed

lemma link_decrypt_failed:
  "\<not> is_ok (fst (link_decrypt P js d now peer frame L)) \<Longrightarrow> snd (link_decrypt P js d now peer frame L) = L"
  by (auto simp: link_decrypt_def split: res.split)

subsection \<open>A handshake establishes a session\<close>

lemma register_session_fresh:
  assumes "draws_ok d" "fst (register_session P d now peer ctx key L) = Ok pk"
  shows "\<exists>sk. hybrid_pair P pk sk \<and> pk = drawn_pk P d
    \<and> get_state peer (snd (register_session P d now peer ctx key L)) = Ok (init_state key ctx sk pk)"
  by (rule drawn_pair [OF assms(1), of P])
     (use assms(2) in \<open>auto simp: register_session_def split: prod.splits if_splits\<close>)

lemma length_prune: "length (states (prune_stale_sessions now L)) \<le> length (states L)"
  by (simp add: prune_stale_sessions_def length_hm_retain)

lemma register_session_granted:
  assumes "draws_ok d" "length (states L) < MAX_SESSIONS" "map_of (keygens L) peer = None" "length (keygens L) \<le> 4096"
  shows "fst (register_session P d now peer ctx key L) = Ok (drawn_pk P d)"
proof -
  have "length (states (prune_stale_sessions now L)) < MAX_SESSIONS"
    using length_prune assms(2) by (rule order_le_less_trans)
  moreover have "keygens (prune_stale_sessions now L) = keygens L" by (simp add: prune_stale_sessions_def)
  ultimately show ?thesis
    by (rule_tac drawn_pair [OF assms(1), of P])
       (simp add: register_session_def at_session_capacity_def keygen_budget_def Let_def assms(3) not_less [THEN iffD2, OF assms(4)]
         KEYGEN_WINDOW_SECS_def MAX_KEYGEN_PER_SOURCE_def)
qed

lemma handshake_session:
  assumes P: "kem_prims_ok P" and d: "draws_ok d" "draws_ok d'"
    and A: "begin_handshake P d nw b ctx LA = (Ok pkA, LA1)"
    and B: "accept_handshake_pk P d' nw' a ctx pkA LB = (Ok pkB, LB1)"
    and C: "complete_handshake nw'' b pkB LA1 = (Ok (), LA2)"
  shows "\<exists>A B. get_state b LA2 = Ok A \<and> get_state a LB1 = Ok B
    \<and> session P {'''', pkA, pkB} 0 A B \<and> peer_pk A \<noteq> '''' \<and> peer_pk B \<noteq> ''''"
proof -
  obtain L where "register_session P d nw b ctx '''' L = (Ok pkA, LA1)"
    using A by (auto simp: begin_handshake_def split: option.splits if_splits)
  with register_session_fresh [OF d(1), of P nw b ctx "''''" L pkA]
  obtain skA where A1: "hybrid_pair P pkA skA" "get_state b LA1 = Ok (init_state '''' ctx skA pkA)" by auto
  have "register_session P d' nw' a ctx pkA LB = (Ok pkB, LB1)"
    using B by (auto simp: accept_handshake_pk_def split: if_splits)
  with register_session_fresh [OF d(2), of P nw' a ctx pkA LB pkB]
  obtain skB where B1: "hybrid_pair P pkB skB" "get_state a LB1 = Ok (init_state pkA ctx skB pkB)" by auto
  have "get_state b LA2 = Ok (init_state pkB ctx skA pkA)"
    using C A1(2) by (auto simp: complete_handshake_def init_state_def split: if_splits)
  moreover have "session P {'''', pkB, pkA} 0 (init_state pkB ctx skA pkA) (init_state pkA ctx skB pkB)"
    using session_init [OF B1(1)] A1(1) by blast
  ultimately show ?thesis
    using B1(2) hybrid_pair_neq_Nil [OF P A1(1)] hybrid_pair_neq_Nil [OF P B1(1)]
    by (simp add: insert_commute init_state_def)
qed

subsection \<open>Keygen budget\<close>

text \<open>A refused request consumed nothing: its source already had the full budget in this window.\<close>

lemma keygen_budget_iff:
  assumes "length (keygens L) \<le> 4096"
  shows "fst (keygen_budget now peer L) \<longleftrightarrow>
    (case map_of (keygens L) peer of None \<Rightarrow> True
     | Some (cnt, start) \<Rightarrow> cnt < MAX_KEYGEN_PER_SOURCE \<or> KEYGEN_WINDOW_SECS \<le> now - start)"
  using assms by (auto simp: keygen_budget_def Let_def MAX_KEYGEN_PER_SOURCE_def KEYGEN_WINDOW_SECS_def split: option.split)


subsection \<open>Conversations between two stores\<close>

text \<open>A turn: who speaks (the first store or the second), the draws of the two ends, the time, the plaintext.\<close>

type_synonym link_turn = "bool \<times> draws \<times> draws \<times> nat \<times> byte list"

fun link_converse ::
    "prims \<Rightarrow> serde \<Rightarrow> string \<Rightarrow> string \<Rightarrow> pqc_link \<Rightarrow> pqc_link \<Rightarrow> link_turn list \<Rightarrow> byte list list res" where
  "link_converse P js a b LA LB [] = Ok []"
| "link_converse P js a b LA LB ((True, d, d', now, pt) # rest) =
     (case link_encrypt P js d now b pt LA of (r, LA') \<Rightarrow> and_then r (\<lambda>frame.
      case link_decrypt P js d' now a frame LB of (r', LB') \<Rightarrow> and_then r' (\<lambda>out.
      and_then (link_converse P js a b LA' LB' rest) (\<lambda>outs. Ok (out # outs)))))"
| "link_converse P js a b LA LB ((False, d, d', now, pt) # rest) =
     (case link_encrypt P js d now a pt LB of (r, LB') \<Rightarrow> and_then r (\<lambda>frame.
      case link_decrypt P js d' now b frame LA of (r', LA') \<Rightarrow> and_then r' (\<lambda>out.
      and_then (link_converse P js a b LA' LB' rest) (\<lambda>outs. Ok (out # outs)))))"

definition link_turn_ok :: "prims \<Rightarrow> link_turn \<Rightarrow> bool" where
  "link_turn_ok P t \<longleftrightarrow> (case t of (first, d, d', now, pt) \<Rightarrow>
     draws_ok d \<and> draws_ok d' \<and> msg_ok P pt \<and> length pt \<le> MAX_LINK_PAYLOAD)"

definition link_turn_pk :: "prims \<Rightarrow> link_turn \<Rightarrow> string" where
  "link_turn_pk P t = drawn_pk P (fst (snd t))"

definition link_said :: "link_turn \<Rightarrow> byte list" where
  "link_said t = snd (snd (snd (snd t)))"

lemma link_converse_session:
  assumes "ratchet_prims_ok P" "serde_ok js" "\<forall>t\<in>set ts. link_turn_ok P t" "distinct (map (link_turn_pk P) ts)"
    "set (map (link_turn_pk P) ts) \<inter> used = {}" "session P used n A B" "n + int (length ts) < I64_MAX"
    "get_state b LA = Ok A" "get_state a LB = Ok B" "peer_pk A \<noteq> ''''" "peer_pk B \<noteq> ''''"
  shows "link_converse P js a b LA LB ts = Ok (map link_said ts)"
  using assms(3-)
proof (induction ts arbitrary: used n A B LA LB)
  case (Cons t ts)
  obtain first d d' now pt where t: "t = (first, d, d', now, pt)" by (cases t) blast
  have ok: "draws_ok d" "draws_ok d'" "msg_ok P pt" "length pt \<le> MAX_LINK_PAYLOAD"
    using Cons.prems(1) t by (simp_all add: link_turn_ok_def)
  have fresh: "drawn_pk P d \<notin> used" "n + 2 \<le> I64_MAX" using Cons.prems(3,5) t by (auto simp: link_turn_pk_def)
  have rest: "\<forall>t\<in>set ts. link_turn_ok P t" "distinct (map (link_turn_pk P) ts)"
    "set (map (link_turn_pk P) ts) \<inter> insert (drawn_pk P d) used = {}" "n + 1 + int (length ts) < I64_MAX"
    using Cons.prems(1-3,5) t by (simp_all, auto simp: link_turn_pk_def)
  show ?case
  proof (cases first)
    case True
    from link_deliver [OF assms(1,2) ok(1,2) Cons.prems(6,7,4) fresh(2) Cons.prems(8) fresh(1) ok(3,4), of now now]
    obtain frame LA' LB' A' B' where step: "link_encrypt P js d now b pt LA = (Ok frame, LA')"
      "link_decrypt P js d' now a frame LB = (Ok pt, LB')" and st: "get_state b LA' = Ok A'" "get_state a LB' = Ok B'"
      "session P (insert (drawn_pk P d) used) (n + 1) A' B'" "peer_pk A' \<noteq> ''''" "peer_pk B' \<noteq> ''''" by blast
    from Cons.IH [OF rest(1-3) st(3) rest(4) st(1,2,4,5)] step True show ?thesis by (simp add: t link_said_def)
  next
    case False
    from link_deliver [OF assms(1,2) ok(1,2) Cons.prems(7,6) session_sym [OF Cons.prems(4)] fresh(2) Cons.prems(9) fresh(1) ok(3,4),
        of now now]
    obtain frame LB' LA' B' A' where step: "link_encrypt P js d now a pt LB = (Ok frame, LB')"
      "link_decrypt P js d' now b frame LA = (Ok pt, LA')" and st: "get_state a LB' = Ok B'" "get_state b LA' = Ok A'"
      "session P (insert (drawn_pk P d) used) (n + 1) B' A'" "peer_pk B' \<noteq> ''''" "peer_pk A' \<noteq> ''''" by blast
    from Cons.IH [OF rest(1-3) session_sym [OF st(3)] rest(4) st(2,1,5,4)] step False show ?thesis
      by (simp add: t link_said_def)
  qed
qed simp

text \<open>From empty stores the handshake itself succeeds.\<close>

lemma begin_on_new:
  assumes "draws_ok d"
  shows "fst (begin_handshake P d now b ctx new_link) = Ok (drawn_pk P d)"
  using register_session_granted [OF assms, of new_link b P now ctx "''''"]
  by (simp add: begin_handshake_def new_link_def MAX_SESSIONS_def)

lemma accept_on_new:
  assumes "draws_ok d" "trim key \<noteq> ''''"
  shows "fst (accept_handshake_pk P d now a ctx key new_link) = Ok (drawn_pk P d)"
  using register_session_granted [OF assms(1), of new_link a P now ctx key] assms(2)
  by (simp add: accept_handshake_pk_def new_link_def has_session_def hm_has_def MAX_SESSIONS_def)


text \<open>A run of budget requests of one source, as the list of answers.\<close>

primrec budget_run :: "nat list \<Rightarrow> string \<Rightarrow> pqc_link \<Rightarrow> bool list" where
  "budget_run [] peer L = []"
| "budget_run (t # ts) peer L = (case keygen_budget t peer L of (g, L1) \<Rightarrow> g # budget_run ts peer L1)"

lemma keygen_budget_running:
  assumes "hm_wf (keygens L)" "map_of (keygens L) peer = Some (c, w)" "now - w < KEYGEN_WINDOW_SECS"
  shows "fst (keygen_budget now peer L) \<longleftrightarrow> c < MAX_KEYGEN_PER_SOURCE"
    and "map_of (keygens (snd (keygen_budget now peer L))) peer = Some (if c < MAX_KEYGEN_PER_SOURCE then c + 1 else c, w)"
    and "hm_wf (keygens (snd (keygen_budget now peer L)))"
  using assms by (simp_all add: keygen_budget_def Let_def map_of_hm_retain)

lemma budget_run_window:
  "hm_wf (keygens L) \<Longrightarrow> map_of (keygens L) peer = Some (c, w) \<Longrightarrow> \<forall>t \<in> set ts. t - w < KEYGEN_WINDOW_SECS
    \<Longrightarrow> c \<le> MAX_KEYGEN_PER_SOURCE \<Longrightarrow> length (filter (\<lambda>g. g) (budget_run ts peer L)) = min (MAX_KEYGEN_PER_SOURCE - c) (length ts)"
proof (induction ts arbitrary: L c)
  case (Cons t ts)
  obtain g L1 where b: "keygen_budget t peer L = (g, L1)" by fastforce
  have t: "t - w < KEYGEN_WINDOW_SECS" using Cons.prems(3) by simp
  have "length (filter (\<lambda>g. g) (budget_run ts peer L1))
      = min (MAX_KEYGEN_PER_SOURCE - (if c < MAX_KEYGEN_PER_SOURCE then c + 1 else c)) (length ts)"
    using Cons.prems keygen_budget_running [OF Cons.prems(1,2) t] b by (intro Cons.IH) auto
  then show ?case using keygen_budget_running(1) [OF Cons.prems(1,2) t] b Cons.prems(4)
    by (cases "c < MAX_KEYGEN_PER_SOURCE") auto
qed simp

lemma budget_run_fresh:
  assumes "hm_wf (keygens L)" "map_of (keygens L) peer = None" "\<forall>x \<in> set ts. x - t < KEYGEN_WINDOW_SECS"
  shows "length (filter (\<lambda>g. g) (budget_run (t # ts) peer L)) = min MAX_KEYGEN_PER_SOURCE (Suc (length ts))"
proof -
  obtain g L1 where b: "keygen_budget t peer L = (g, L1)" by fastforce
  have pos: "0 < MAX_KEYGEN_PER_SOURCE" "0 < KEYGEN_WINDOW_SECS" by (simp_all add: MAX_KEYGEN_PER_SOURCE_def KEYGEN_WINDOW_SECS_def)
  have "map_of (hm_retain (\<lambda>_ (_, ts). t - ts < KEYGEN_WINDOW_SECS) (keygens L)) peer = None"
    using assms(1,2) by (simp add: map_of_hm_retain)
  then have g: "g" "map_of (keygens L1) peer = Some (1, t)" "hm_wf (keygens L1)"
    using b assms(1,2) pos by (auto simp: keygen_budget_def Let_def split: if_splits)
  have "length (filter (\<lambda>g. g) (budget_run ts peer L1)) = min (MAX_KEYGEN_PER_SOURCE - 1) (length ts)"
    using pos by (intro budget_run_window [OF g(3,2) assms(3)]) simp
  then show ?thesis using b g(1) pos by auto
qed

end
