(* ===== verification/Instance.thy ===== *)
theory Instance
  imports PqcLink
begin

section \<open>A concrete instance of the primitives\<close>

text \<open>
  The assumptions on third-party code can hold: \<open>sample_prims\<close> has the real hexadecimal and base64 codecs
  and simple stand-ins of the right sizes for the ciphers, hashes, KEMs and compressors. The witnesses of
  the properties evaluate the components on it.
\<close>

unbundle bit_operations_syntax

subsection \<open>Hexadecimal\<close>

definition hexd :: "nat \<Rightarrow> char" where
  "hexd n = ''0123456789abcdef'' ! n"

definition hexv :: "char \<Rightarrow> nat option" where
  "hexv c = (let n = (of_char c :: nat) in
     if 48 \<le> n \<and> n \<le> 57 then Some (n - 48) else if 97 \<le> n \<and> n \<le> 102 then Some (n - 87)
     else if 65 \<le> n \<and> n \<le> 70 then Some (n - 55) else None)"

fun sample_hex_encode :: "byte list \<Rightarrow> string" where
  "sample_hex_encode [] = []"
| "sample_hex_encode (b # bs) = hexd (unat b div 16) # hexd (unat b mod 16) # sample_hex_encode bs"

fun sample_hex_decode :: "string \<Rightarrow> byte list option" where
  "sample_hex_decode [] = Some []"
| "sample_hex_decode [c] = None"
| "sample_hex_decode (c # d # s) =
     (case (hexv c, hexv d, sample_hex_decode s) of
        (Some h, Some l, Some bs) \<Rightarrow> Some (word_of_nat (16 * h + l) # bs) | _ \<Rightarrow> None)"

lemma hexv_hexd [simp]:
  assumes "n < 16" shows "hexv (hexd n) = Some n"
proof -
  have "\<forall>n\<in>set [0..<16]. hexv (hexd n) = Some n" by code_simp
  moreover have "n \<in> set [0..<16]" unfolding set_upt using assms by simp
  ultimately show ?thesis by (rule bspec)
qed

lemma hexd_is_hex:
  assumes "n < 16" shows "hexd n \<in> set ''0123456789abcdef''"
  unfolding hexd_def by (rule nth_mem) (use assms in simp)

lemma sample_hex_round_trip: "sample_hex_decode (sample_hex_encode b) = Some b"
proof (induction b)
  case (Cons x xs)
  have "unat x div 16 < 16" using unat_byte_le [of x] by simp
  moreover have "16 * (unat x div 16) + unat x mod 16 = unat x" by simp
  ultimately show ?case using Cons by (simp del: mult_div_mod_eq)
qed simp

lemma sample_hex_facts: "length (sample_hex_encode b) = 2 * length b \<and> is_hex (sample_hex_encode b)"
proof (induction b)
  case Nil
  then show ?case by (simp add: is_hex_def)
next
  case (Cons x xs)
  have "unat x div 16 < 16" using unat_byte_le [of x] by simp
  then have "hexd (unat x div 16) \<in> set ''0123456789abcdef''" "hexd (unat x mod 16) \<in> set ''0123456789abcdef''"
    by (auto intro!: hexd_is_hex simp del: list.set)
  with Cons show ?case by (simp add: is_hex_def del: list.set) (simp del: list.set add: set_simps(2))
qed

subsection \<open>Base64\<close>

definition b64c :: "nat \<Rightarrow> char" where
  "b64c n = char_of (if n < 26 then n + 65 else if n < 52 then n + 71 else if n < 62 then n - 4
     else if n = 62 then 43 else 47)"

definition b64v :: "char \<Rightarrow> nat option" where
  "b64v c = (let n = (of_char c :: nat) in
     if 65 \<le> n \<and> n \<le> 90 then Some (n - 65) else if 97 \<le> n \<and> n \<le> 122 then Some (n - 71)
     else if 48 \<le> n \<and> n \<le> 57 then Some (n + 4) else if n = 43 then Some 62 else if n = 47 then Some 63 else None)"

fun sample_b64_encode :: "byte list \<Rightarrow> string" where
  "sample_b64_encode [] = []"
| "sample_b64_encode [a] = [b64c (unat a div 4), b64c (unat a mod 4 * 16), CHR ''='', CHR ''='']"
| "sample_b64_encode [a, b] =
     [b64c (unat a div 4), b64c (unat a mod 4 * 16 + unat b div 16), b64c (unat b mod 16 * 4), CHR ''='']"
| "sample_b64_encode (a # b # c # r) =
     b64c (unat a div 4) # b64c (unat a mod 4 * 16 + unat b div 16)
     # b64c (unat b mod 16 * 4 + unat c div 64) # b64c (unat c mod 64) # sample_b64_encode r"

definition b64_fst :: "nat \<Rightarrow> nat \<Rightarrow> byte" where "b64_fst i j = word_of_nat (i * 4 + j div 16)"
definition b64_snd :: "nat \<Rightarrow> nat \<Rightarrow> byte" where "b64_snd j k = word_of_nat (j mod 16 * 16 + k div 4)"
definition b64_trd :: "nat \<Rightarrow> nat \<Rightarrow> byte" where "b64_trd k l = word_of_nat (k mod 4 * 64 + l)"

fun sample_b64_decode :: "string \<Rightarrow> byte list option" where
  "sample_b64_decode [] = Some []"
| "sample_b64_decode (w # x # y # z # r) =
     (case (b64v w, b64v x) of
        (Some i, Some j) \<Rightarrow>
          (let a = b64_fst i j in
           if y = CHR ''='' \<and> z = CHR ''='' \<and> r = [] then Some [a]
           else case b64v y of
               None \<Rightarrow> None
             | Some k \<Rightarrow>
                 (let b = b64_snd j k in
                  if z = CHR ''='' \<and> r = [] then Some [a, b]
                  else case (b64v z, sample_b64_decode r) of
                      (Some l, Some bs) \<Rightarrow> Some (a # b # b64_trd k l # bs)
                    | _ \<Rightarrow> None))
      | _ \<Rightarrow> None)"
| "sample_b64_decode _ = None"

lemma b64_table:
  assumes "n < 64"
  shows "b64v (b64c n) = Some n" "b64c n \<noteq> CHR ''=''" "of_char (b64c n) < (128 :: nat)"
proof -
  let ?m = "if n < 26 then n + 65 else if n < 52 then n + 71 else if n < 62 then n - 4 else if n = 62 then 43 else 47"
  have m: "of_char (b64c n) = ?m" using assms by (simp add: b64c_def)
  then show "b64v (b64c n) = Some n" using assms by (auto simp: b64v_def Let_def)
  show "b64c n \<noteq> CHR ''=''"
  proof
    assume "b64c n = CHR ''=''"
    with m have "?m = 61" by simp
    with assms show False by (simp split: if_splits)
  qed
  from m show "of_char (b64c n) < (128 :: nat)" using assms by (auto split: if_splits)
qed

lemma b64_idx:
  fixes a b c :: byte
  shows "unat a div 4 < 64" "unat a mod 4 * 16 + unat b div 16 < 64" "unat a mod 4 * 16 < 64"
    "unat b mod 16 * 4 + unat c div 64 < 64" "unat b mod 16 * 4 < 64" "unat c mod 64 < 64"
proof -
  have r: "unat a mod 4 \<le> 3" "unat b mod 16 \<le> 15" "unat a \<le> 255" "unat b \<le> 255" "unat c \<le> 255"
    using unat_byte_le by (simp_all add: less_Suc_eq_le [symmetric])
  then have "unat b div 16 \<le> 15" "unat c div 64 \<le> 3" by simp_all
  with r show "unat a div 4 < 64" "unat a mod 4 * 16 + unat b div 16 < 64" "unat a mod 4 * 16 < 64"
    "unat b mod 16 * 4 + unat c div 64 < 64" "unat b mod 16 * 4 < 64" "unat c mod 64 < 64"
    by simp_all
qed

lemma b64_bytes:
  fixes a b c :: byte
  shows "b64_fst (unat a div 4) (unat a mod 4 * 16 + unat b div 16) = a"
    "b64_fst (unat a div 4) (unat a mod 4 * 16) = a"
    "b64_snd (unat a mod 4 * 16 + unat b div 16) (unat b mod 16 * 4 + unat c div 64) = b"
    "b64_snd (unat a mod 4 * 16 + unat b div 16) (unat b mod 16 * 4) = b"
    "b64_trd (unat b mod 16 * 4 + unat c div 64) (unat c mod 64) = c"
proof -
  have r: "unat b div 16 < 16" "unat c div 64 < 4" using unat_byte_le [of b] unat_byte_le [of c] by simp_all
  have "unat a div 4 * 4 + (unat a mod 4 * 16 + unat b div 16) div 16 = unat a" using r by simp
  then show "b64_fst (unat a div 4) (unat a mod 4 * 16 + unat b div 16) = a"
    unfolding b64_fst_def by (simp only:) simp
  have "unat a div 4 * 4 + unat a mod 4 * 16 div 16 = unat a" by simp
  then show "b64_fst (unat a div 4) (unat a mod 4 * 16) = a" unfolding b64_fst_def by (simp only:) simp
  have "(unat a mod 4 * 16 + unat b div 16) mod 16 * 16 + (unat b mod 16 * 4 + unat c div 64) div 4 = unat b"
    using r by simp
  then show "b64_snd (unat a mod 4 * 16 + unat b div 16) (unat b mod 16 * 4 + unat c div 64) = b"
    unfolding b64_snd_def by (simp only:) simp
  have "(unat a mod 4 * 16 + unat b div 16) mod 16 * 16 + unat b mod 16 * 4 div 4 = unat b" using r by simp
  then show "b64_snd (unat a mod 4 * 16 + unat b div 16) (unat b mod 16 * 4) = b"
    unfolding b64_snd_def by (simp only:) simp
  have "(unat b mod 16 * 4 + unat c div 64) mod 4 * 64 + unat c mod 64 = unat c" using r by simp
  then show "b64_trd (unat b mod 16 * 4 + unat c div 64) (unat c mod 64) = c"
    unfolding b64_trd_def by (simp only:) simp
qed

lemma sample_b64_round_trip: "sample_b64_decode (sample_b64_encode b) = Some b"
  by (induction b rule: sample_b64_encode.induct)
     (simp_all add: b64_table b64_idx b64_bytes)

lemma sample_b64_length: "length (sample_b64_encode b) = 4 * ((length b + 2) div 3)"
proof (induction b rule: sample_b64_encode.induct)
  case (4 a b c r)
  have "(length (a # b # c # r) + 2) div 3 = Suc ((length r + 2) div 3)"
    using div_add_self1 [of 3 "length r + 2"] by simp
  with 4 show ?case by simp
qed simp_all

lemma sample_b64_ascii: "ascii (sample_b64_encode b)"
  by (induction b rule: sample_b64_encode.induct) (simp_all add: ascii_def b64_table b64_idx)

subsection \<open>The instance\<close>

definition pad32 :: "byte list \<Rightarrow> byte list" where
  "pad32 d = take 32 (d @ replicate 32 0)"

definition sample_prims :: prims where
  "sample_prims = \<lparr>
     p_sha256 = pad32,
     p_hmac = (\<lambda>k d. pad32 (k @ d)),
     p_hkdf = (\<lambda>ikm salt info n. if n \<le> 8160 then Some (take n (ikm @ salt @ info @ replicate n 0)) else None),
     p_chacha20 = (\<lambda>k n d. map (\<lambda>b. b XOR 0x5A) d),
     p_aead_encrypt = (\<lambda>k n aad pt. Some pt),
     p_aead_decrypt = (\<lambda>k n aad ct. Some ct),
     p_base64_encode = sample_b64_encode,
     p_base64_decode = sample_b64_decode,
     p_hex_encode = sample_hex_encode,
     p_hex_decode = sample_hex_decode,
     p_deflate = (\<lambda>d. d),
     p_inflate_write = (\<lambda>fed. WriteOk),
     p_inflate_out = (\<lambda>fed. fed),
     p_inflate_finish = Some,
     p_zstd_encode = Some,
     p_zstd_read = (\<lambda>n f. Some (take n f)),
     p_json_value = Some,
     p_x25519_public = (\<lambda>sk. sk),
     p_x25519_dh = (\<lambda>a b. map2 (XOR) a b),
     p_mlkem_public = (\<lambda>seed. seed @ replicate 1120 0),
     p_mlkem_encap = (\<lambda>r pk. Some (replicate 1088 (word_of_nat r), take 32 pk)),
     p_mlkem_decap = (\<lambda>seed ct. take 32 seed)\<rparr>"

lemma length_pad32 [simp]: "length (pad32 d) = 32"
  by (simp add: pad32_def)

lemma map2_xor_commute: "map2 (XOR) a b = map2 (XOR) b (a :: byte list)"
proof (induction a arbitrary: b)
  case (Cons x xs)
  then show ?case by (cases b) (simp_all add: xor.commute)
qed simp

lemma sample_nip44_ok: "nip44_prims_ok sample_prims"
  by (simp add: nip44_prims_ok_def sample_prims_def sample_b64_round_trip comp_def xor.assoc)

lemma sample_hex_ok: "hex_prims_ok sample_prims"
  using sample_hex_facts by (simp add: hex_prims_ok_def sample_prims_def sample_hex_round_trip)

lemma sample_kem_ok: "kem_prims_ok sample_prims"
proof -
  have "hkdf_prims_ok sample_prims" by (auto simp: hkdf_prims_ok_def sample_prims_def min_def)
  moreover have "p_x25519_dh sample_prims a (p_x25519_public sample_prims b)
      = p_x25519_dh sample_prims b (p_x25519_public sample_prims a)" for a b
    by (simp add: sample_prims_def map2_xor_commute [of a b])
  ultimately show ?thesis
    using sample_hex_ok unfolding kem_prims_ok_def by (simp add: sample_prims_def)
qed

lemma sample_deflate_ok: "deflate_prims_ok sample_prims"
  by (simp add: deflate_prims_ok_def sample_prims_def)

lemma sample_zstd_ok: "zstd_prims_ok sample_prims"
  by (simp add: zstd_prims_ok_def sample_prims_def)

lemma sample_ratchet_ok: "ratchet_prims_ok sample_prims"
  using sample_nip44_ok sample_kem_ok sample_deflate_ok
  by (simp add: ratchet_prims_ok_def) (simp add: sample_prims_def sample_b64_length sample_b64_ascii)

lemma sample_sel [simp]:
  "p_hex_encode sample_prims = sample_hex_encode" "p_hex_decode sample_prims = sample_hex_decode"
  "p_base64_encode sample_prims = sample_b64_encode" "p_base64_decode sample_prims = sample_b64_decode"
  "p_deflate sample_prims = (\<lambda>d. d)"
  by (simp_all add: sample_prims_def)

text \<open>Draws numbered by a byte; their key pairs are distinct.\<close>

definition sample_draws :: "byte \<Rightarrow> draws" where
  "sample_draws b = \<lparr>dr_eph = Some (replicate 32 b), dr_mlkem = 7, dr_x25519 = Some (replicate 32 b),
     dr_seed = Some (replicate 64 b), dr_nonce = Some (replicate 32 b)\<rparr>"

definition sample_pk :: "byte \<Rightarrow> string" where
  "sample_pk b = sample_hex_encode (1 # replicate 32 b @ replicate 64 b @ replicate 1120 0)"

definition sample_sk :: "byte \<Rightarrow> string" where
  "sample_sk b = sample_hex_encode (replicate 96 b)"

lemma sample_draws_ok: "draws_ok (sample_draws b)"
  by (simp add: draws_ok_def sample_draws_def)

lemma sample_keygen:
  "hybrid_keygen sample_prims (Some (replicate 32 b)) (Some (replicate 64 b)) = Ok (sample_pk b, sample_sk b)"
proof -
  have "replicate 32 b @ replicate 64 b = replicate 96 b" by (simp add: replicate_add [symmetric])
  then show ?thesis
    by (simp add: hybrid_keygen_def hybrid_keygen_bytes_def sample_pk_def sample_sk_def sample_prims_def
        del: sample_hex_encode.simps)
qed

lemma sample_drawn_pk [simp]: "drawn_pk sample_prims (sample_draws b) = sample_pk b"
  by (simp add: drawn_pk_def sample_draws_def sample_keygen)

lemma sample_pair: "hybrid_pair sample_prims (sample_pk b) (sample_sk b)"
  unfolding hybrid_pair_def using sample_keygen [of b]
  by (intro exI [of _ "replicate 32 b"] exI [of _ "replicate 64 b"]) simp

lemma sample_pk_inj [simp]: "sample_pk a = sample_pk b \<longleftrightarrow> a = b"
proof
  assume "sample_pk a = sample_pk b"
  then have "sample_hex_decode (sample_pk a) = sample_hex_decode (sample_pk b)" by simp
  then have "replicate 32 a @ replicate 64 a @ replicate 1120 0 = replicate 32 b @ replicate 64 b @ replicate 1120 0"
    by (simp only: sample_pk_def sample_hex_round_trip option.inject list.inject)
  then have "hd (replicate 32 a @ replicate 64 a @ replicate 1120 0) = hd (replicate 32 b @ replicate 64 b @ replicate 1120 0)"
    by (rule arg_cong)
  then show "a = b" by simp
qed simp

lemma sample_pk_neq_Nil [simp]: "sample_pk a \<noteq> ''''"
  by (simp add: sample_pk_def)

lemma sample_msg_ok: "length pt < 40960 \<Longrightarrow> msg_ok sample_prims pt"
  by (simp add: msg_ok_def MAX_INPUT_LEN_def)

subsection \<open>A header codec\<close>

definition i64_hex :: "int \<Rightarrow> string" where
  "i64_hex i = sample_hex_encode (be_bytes 8 (nat (i mod 2 ^ 64)))"

definition i64_unhex :: "string \<Rightarrow> int" where
  "i64_unhex s = (case sample_hex_decode s of
     Some b \<Rightarrow> (let v = int (be_val b) in if v < 2 ^ 63 then v else v - 2 ^ 64) | None \<Rightarrow> 0)"

definition before_comma :: "string \<Rightarrow> string" where
  "before_comma s = takeWhile (\<lambda>c. c \<noteq> CHR '','') s"

definition after_comma :: "string \<Rightarrow> string" where
  "after_comma s = tl (dropWhile (\<lambda>c. c \<noteq> CHR '','') s)"

definition sample_serde :: serde where
  "sample_serde = \<lparr>
     to_json = (\<lambda>h. Some (i64_hex (hd_seq h) @ i64_hex (hd_chain_counter h) @ sample_hex_encode [hd_version h]
        @ hd_pk h @ '','' @ hd_ct h @ '','' @ hd_mac h)),
     from_json = (\<lambda>s. case sample_hex_decode (take 2 (drop 32 s)) of
        Some [v] \<Rightarrow>
          (let r = drop 34 s in
           Some \<lparr>hd_version = v, hd_pk = before_comma r, hd_ct = before_comma (after_comma r),
             hd_seq = i64_unhex (take 16 s), hd_chain_counter = i64_unhex (take 16 (drop 16 s)),
             hd_mac = after_comma (after_comma r)\<rparr>)
      | _ \<Rightarrow> None)\<rparr>"

lemma length_i64_hex [simp]: "length (i64_hex i) = 16"
  using sample_hex_facts by (simp add: i64_hex_def)

lemma i64_hex_round_trip:
  assumes "I64_MIN \<le> i" "i \<le> I64_MAX" shows "i64_unhex (i64_hex i) = i"
proof -
  have "nat (i mod 2 ^ 64) < 256 ^ 8" by (simp add: nat_less_iff)
  then have v: "int (be_val (be_bytes 8 (nat (i mod 2 ^ 64)))) = i mod 2 ^ 64" by simp
  have "i mod 2 ^ 64 = (if 0 \<le> i then i else i + 2 ^ 64)"
  proof (cases "0 \<le> i")
    case False
    then have "(i + 2 ^ 64) mod 2 ^ 64 = i + 2 ^ 64" using assms by (intro mod_pos_pos_trivial) simp_all
    with False show ?thesis by (simp only: mod_add_self2 if_False)
  qed (use assms in simp)
  with assms show ?thesis
    by (simp only: i64_unhex_def i64_hex_def sample_hex_round_trip option.case Let_def v) simp
qed

lemma comma_split:
  assumes "is_hex p"
  shows "before_comma (p @ CHR '','' # r) = p" "after_comma (p @ CHR '','' # r) = r"
proof -
  have "CHR '','' \<notin> set p" using assms hex_char_range [of "CHR '',''"] by (auto simp: is_hex_def simp del: list.set)
  then have all: "\<And>c. c \<in> set p \<Longrightarrow> c \<noteq> CHR '',''" by metis
  then show "before_comma (p @ CHR '','' # r) = p"
    unfolding before_comma_def by (subst takeWhile_append2) simp_all
  from all show "after_comma (p @ CHR '','' # r) = r"
    unfolding after_comma_def by (subst dropWhile_append2) simp_all
qed

lemma ascii_append [simp]: "ascii (s @ t) \<longleftrightarrow> ascii s \<and> ascii t"
  by (auto simp: ascii_def)

lemma ascii_comma: "ascii (CHR '','' # s) \<longleftrightarrow> ascii s"
  by (simp add: ascii_def)

lemma sample_serde_ok: "serde_ok sample_serde"
  unfolding serde_ok_def
proof (intro allI impI, elim conjE)
  fix h :: header
  assume hex: "is_hex (hd_pk h)" "is_hex (hd_ct h)" "is_hex (hd_mac h)"
    and r: "I64_MIN \<le> hd_seq h" "hd_seq h \<le> I64_MAX" "I64_MIN \<le> hd_chain_counter h" "hd_chain_counter h \<le> I64_MAX"
  define j where "j = i64_hex (hd_seq h) @ i64_hex (hd_chain_counter h) @ sample_hex_encode [hd_version h]
        @ hd_pk h @ '','' @ hd_ct h @ '','' @ hd_mac h"
  have v: "length (sample_hex_encode [hd_version h]) = 2" using sample_hex_facts [of "[hd_version h]"] by simp
  have "take 2 (drop 32 j) = sample_hex_encode [hd_version h]" using v by (simp add: j_def del: sample_hex_encode.simps)
  moreover have "drop 34 j = hd_pk h @ '','' @ hd_ct h @ '','' @ hd_mac h"
    using v by (simp add: j_def del: sample_hex_encode.simps)
  ultimately have "from_json sample_serde j = Some h"
    using r by (simp add: sample_serde_def sample_hex_round_trip comma_split hex Let_def del: sample_hex_encode.simps)
      (simp add: j_def i64_hex_round_trip)
  moreover have "ascii j"
    using ascii_hex [OF conjunct2 [OF sample_hex_facts]] hex [THEN ascii_hex]
    by (simp add: j_def i64_hex_def ascii_comma del: sample_hex_encode.simps)
  ultimately show "\<exists>j. to_json sample_serde h = Some j \<and> from_json sample_serde j = Some h \<and> ascii j
      \<and> length j \<le> 256 + length (hd_pk h) + length (hd_ct h) + length (hd_mac h)"
    using v by (intro exI [of _ j]) (simp add: j_def sample_serde_def del: sample_hex_encode.simps)
qed

end
