(* ===== verification/Crypto_Theorems.thy ===== *)
theory Crypto_Theorems
  imports Ratchet_Props Instance
begin

section \<open>What the ratchet guarantees\<close>

text \<open>
  The properties of the double ratchet of crypto-core/src/pqc\_ratchet over whole conversations, with witnesses on the
  concrete primitives of \<^theory_text>\<open>Instance\<close>. The proofs rest on the invariant \<open>session\<close> and on the epoch lemmas of
  \<^theory_text>\<open>Ratchet_Props\<close>.
\<close>

lemma session_fresh_pair:
  assumes "hybrid_pair P pkA skA" "hybrid_pair P pkB skB" "peerB = pkA \<or> peerB = ''''"
  shows "session P {'''', pkA, pkB} 0 (init_state pkB ctx skA pkA) (init_state peerB ctx skB pkB)"
proof -
  have "session P {'''', pkB, peerB} 0 (init_state pkB ctx skA pkA) (init_state peerB ctx skB pkB)"
    using assms by (intro session_init) auto
  then have "session P (insert pkA {'''', pkB, peerB}) 0 (init_state pkB ctx skA pkA) (init_state peerB ctx skB pkB)"
    by (rule session_used_mono)
  moreover have "insert pkA {'''', pkB, peerB} = {'''', pkA, pkB}" using assms(3) by auto
  ultimately show ?thesis by simp
qed

lemma init_state_sel [simp]:
  "peer_pk (init_state peer ctx sk pk) = peer" "need_new_epoch (init_state peer ctx sk pk)"
  "receiving_chain_key (init_state peer ctx sk pk) = ''''" "chain_counter (init_state peer ctx sk pk) = 0"
  "rs_version (init_state peer ctx sk pk) = RATCHET_VERSION" "rs_context (init_state peer ctx sk pk) = ctx"
  by (simp_all add: init_state_def need_new_epoch_def)

text \<open>The first message between two peers on the sample primitives, the shared input of several witnesses.\<close>

lemma sample_first_message:
  assumes "peerB = sample_pk 1 \<or> peerB = ''''"
  shows "\<exists>A' h c B'.
    encrypt_ratchet sample_prims (sample_draws 3) (init_state (sample_pk 2) ''c'' (sample_sk 1) (sample_pk 1)) [7] = Ok (A', h, c)
    \<and> wire_ok h c
    \<and> decrypt_ratchet sample_prims (sample_draws 4) (init_state peerB ''c'' (sample_sk 2) (sample_pk 2)) h c = Ok (B', [7])
    \<and> peer_pk B' \<noteq> ''''"
proof -
  have S: "session sample_prims {'''', sample_pk 1, sample_pk 2} 0
      (init_state (sample_pk 2) ''c'' (sample_sk 1) (sample_pk 1)) (init_state peerB ''c'' (sample_sk 2) (sample_pk 2))"
    by (rule session_fresh_pair [OF sample_pair sample_pair assms])
  have m: "msg_ok sample_prims [7]" by (rule sample_msg_ok) simp
  have "(0::int) + 2 \<le> I64_MAX" "peer_pk (init_state (sample_pk 2) ''c'' (sample_sk 1) (sample_pk 1)) \<noteq> ''''"
    "drawn_pk sample_prims (sample_draws 3) \<notin> {'''', sample_pk 1, sample_pk 2}" by simp_all
  from deliver [OF sample_ratchet_ok sample_draws_ok sample_draws_ok m S this] show ?thesis by blast
qed

text \<open>C1. A conversation. Two peers start from fresh states, each with the other's public key (or the second with
  none, and then the first one speaks first). They exchange any number of messages in any alternation, each delivered
  before the next is sent. If the random draws succeed and the drawn key pairs are fresh, every encryption and every
  decryption succeeds and each decryption returns the plaintext that was sent.\<close>

theorem ratchet_conversation:
  assumes "ratchet_prims_ok P" "hybrid_pair P pkA skA" "hybrid_pair P pkB skB"
    and "peerB = pkA \<or> peerB = '''' \<and> fst (hd ts)"
    and "\<forall>t\<in>set ts. turn_ok P t" "distinct (map (turn_pk P) ts)" "set (map (turn_pk P) ts) \<inter> {'''', pkA, pkB} = {}"
    and "int (length ts) < I64_MAX"
  shows "converse P (init_state pkB ctx skA pkA) (init_state peerB ctx skB pkB) ts = Ok (map said ts)"
proof (rule converse_session [OF assms(1,5,6,7), of 0])
  show "session P {'''', pkA, pkB} 0 (init_state pkB ctx skA pkA) (init_state peerB ctx skB pkB)"
    using assms(2-4) by (intro session_fresh_pair) auto
  have "pkA \<noteq> ''''" "pkB \<noteq> ''''"
    using hybrid_pair_neq_Nil [OF ratchet_primsD(2) [OF assms(1)]] assms(2,3) by blast+
  then show "peer_pk (if fst (hd ts) then init_state pkB ctx skA pkA else init_state peerB ctx skB pkB) \<noteq> ''''"
    using assms(4) by auto
qed (use assms(8) in simp)

theorem ratchet_conversation_witness:
  "converse sample_prims (init_state (sample_pk 2) ''dm'' (sample_sk 1) (sample_pk 1))
      (init_state '''' ''dm'' (sample_sk 2) (sample_pk 2))
      [(True, sample_draws 3, sample_draws 4, [1, 2]), (False, sample_draws 5, sample_draws 6, []),
       (False, sample_draws 7, sample_draws 8, [9])] = Ok [[1, 2], [], [9]]"
proof -
  let ?ts = "[(True, sample_draws 3, sample_draws 4, [1, 2]), (False, sample_draws 5, sample_draws 6, []),
       (False, sample_draws 7, sample_draws 8, [9])] :: turn list"
  have "converse sample_prims (init_state (sample_pk 2) ''dm'' (sample_sk 1) (sample_pk 1))
      (init_state '''' ''dm'' (sample_sk 2) (sample_pk 2)) ?ts = Ok (map said ?ts)"
    by (rule ratchet_conversation [OF sample_ratchet_ok sample_pair sample_pair])
      (simp_all add: turn_ok_def turn_pk_def sample_draws_ok sample_msg_ok)
  then show ?thesis by (simp add: said_def)
qed

text \<open>C3. Out-of-order delivery and replay. One peer sends up to 1024 messages of a new epoch; the other receives any of
  them in any order, with any gaps. Each delivery returns its plaintext, and afterwards a second delivery of any
  received message is refused as a replay.\<close>

theorem ratchet_any_order:
  assumes P: "ratchet_prims_ok P" and xs: "\<forall>(d, pt)\<in>set xs. draws_ok d \<and> msg_ok P pt" "xs \<noteq> []" "length xs \<le> 1024"
    and S: "session P used n A B" "n + 2 \<le> I64_MAX" "peer_pk A \<noteq> ''''" "need_new_epoch A"
    and ds: "distinct (map snd ds)" "\<forall>(d, i)\<in>set ds. draws_ok d \<and> i < length xs"
  shows "\<exists>A' ms B'. send_all P A xs = Ok (A', ms) \<and> length ms = length xs
    \<and> receive_all P B (map (\<lambda>(d, i). (d, ms ! i)) ds) = Ok (B', map (\<lambda>(d, i). snd (xs ! i)) ds)
    \<and> (\<forall>(d, i)\<in>set ds. \<forall>d'. decrypt_ratchet P d' B' (fst (ms ! i)) (snd (ms ! i)) = Err ''replay'')"
proof -
  obtain A' ms e where send: "send_all P A xs = Ok (A', ms)" "length ms = length xs" and e: "epoch_ok e"
    and ms: "\<forall>i < length (map snd xs). epoch_msg P e i (map snd xs ! i) (ms ! i)"
    and start: "\<forall>i d. i < length xs \<and> draws_ok d \<longrightarrow>
        (\<exists>B'. decrypt_ratchet P d B (fst (ms ! i)) (snd (ms ! i)) = Ok (B', snd (xs ! i)) \<and> receiver_at P e {i} B')"
    using send_new_epoch [OF P xs S] by metis
  have "\<exists>B'. receive_all P B (map (\<lambda>(d, i). (d, ms ! i)) ds) = Ok (B', map (\<lambda>(d, i). snd (xs ! i)) ds)
    \<and> (ds \<noteq> [] \<longrightarrow> receiver_at P e (set (map snd ds)) B')"
  proof (cases ds)
    case (Cons p ds')
    obtain d i where p: "p = (d, i)" by fastforce
    have "i < length xs" "draws_ok d" using ds(2) Cons p by auto
    then obtain B1 where B1: "decrypt_ratchet P d B (fst (ms ! i)) (snd (ms ! i)) = Ok (B1, snd (xs ! i))"
      "receiver_at P e {i} B1" using start by blast
    have "\<forall>(d, j)\<in>set ds'. j < length (map snd xs) \<and> j \<notin> {i}" using ds Cons p by force
    then obtain B2 where B2: "receive_all P B1 (map (\<lambda>(d, i). (d, ms ! i)) ds') = Ok (B2, map (\<lambda>(d, i). map snd xs ! i) ds')"
      "receiver_at P e ({i} \<union> set (map snd ds')) B2"
      using receive_all_epoch [OF P e ms _ _ _ B1(2), of ds'] ds(1) xs(3) Cons by auto
    have "map (\<lambda>(d, i). map snd xs ! i) ds' = map (\<lambda>(d, i). snd (xs ! i)) ds'" using ds(2) Cons by auto
    then show ?thesis using B1 B2 Cons p by (cases "ms ! i") simp
  qed simp
  then obtain B' where B': "receive_all P B (map (\<lambda>(d, i). (d, ms ! i)) ds) = Ok (B', map (\<lambda>(d, i). snd (xs ! i)) ds)"
    "ds \<noteq> [] \<longrightarrow> receiver_at P e (set (map snd ds)) B'" by blast
  have "decrypt_ratchet P d' B' (fst (ms ! i)) (snd (ms ! i)) = Err ''replay''" if "(d, i) \<in> set ds" for d i d'
  proof -
    have "i \<in> set (map snd ds)" "i < length (map snd xs)" "ds \<noteq> []" using that ds(2) by force+
    then have "receiver_at P e (set (map snd ds)) B'" "epoch_msg P e i (map snd xs ! i) (fst (ms ! i), snd (ms ! i))"
      using B'(2) ms by simp_all
    then show ?thesis using receive_replay [OF P e] \<open>i \<in> set (map snd ds)\<close> by blast
  qed
  with send B'(1) show ?thesis by fastforce
qed

theorem ratchet_any_order_witness:
  "\<exists>A' ms B'. send_all sample_prims (init_state (sample_pk 2) ''c'' (sample_sk 1) (sample_pk 1))
        [(sample_draws 3, [1]), (sample_draws 4, [2]), (sample_draws 5, [3])] = Ok (A', ms)
    \<and> length ms = length [(sample_draws 3, [1]), (sample_draws 4, [2]), (sample_draws 5, [3 :: byte])]
    \<and> receive_all sample_prims (init_state (sample_pk 1) ''c'' (sample_sk 2) (sample_pk 2))
        (map (\<lambda>(d, i). (d, ms ! i)) [(sample_draws 6, 2), (sample_draws 7, 0)])
      = Ok (B', map (\<lambda>(d, i). snd ([(sample_draws 3, [1]), (sample_draws 4, [2]), (sample_draws 5, [3])] ! i))
          [(sample_draws 6, 2), (sample_draws 7, 0)])
    \<and> (\<forall>(d, i)\<in>set [(sample_draws 6, 2), (sample_draws 7, 0)].
        \<forall>d'. decrypt_ratchet sample_prims d' B' (fst (ms ! i)) (snd (ms ! i)) = Err ''replay'')"
proof (rule ratchet_any_order [OF sample_ratchet_ok])
  show "session sample_prims {'''', sample_pk 1, sample_pk 2} 0
      (init_state (sample_pk 2) ''c'' (sample_sk 1) (sample_pk 1)) (init_state (sample_pk 1) ''c'' (sample_sk 2) (sample_pk 2))"
    by (rule session_fresh_pair [OF sample_pair sample_pair]) simp
qed (simp_all add: sample_draws_ok sample_msg_ok)

text \<open>C21. The skipped-key buffers stay bounded. From any fresh state, after any sequence of successful sends and
  receives of arbitrary (also hostile) messages, neither buffer holds more than 1024 keys.\<close>

theorem ratchet_buffers_bounded:
  assumes "(ratchet_step P)\<^sup>*\<^sup>* (init_state peer ctx sk pk) st"
  shows "length (skipped st) \<le> 1024 \<and> length (prev_epoch_skipped st) \<le> 1024"
  using buffers.reachable_inv [OF _ assms] unfolding buffers_ok_def by blast

theorem ratchet_buffers_bounded_witness:
  "\<exists>st. ratchet_step sample_prims (init_state (sample_pk 2) ''c'' (sample_sk 1) (sample_pk 1)) st
    \<and> length (skipped st) \<le> 1024 \<and> length (prev_epoch_skipped st) \<le> 1024"
proof -
  obtain st h c where
    "encrypt_ratchet sample_prims (sample_draws 3) (init_state (sample_pk 2) ''c'' (sample_sk 1) (sample_pk 1)) [7] = Ok (st, h, c)"
    using sample_first_message by blast
  then have "ratchet_step sample_prims (init_state (sample_pk 2) ''c'' (sample_sk 1) (sample_pk 1)) st"
    by (rule ratchet_step.sends)
  then show ?thesis using ratchet_buffers_bounded [OF r_into_rtranclp] by blast
qed

text \<open>A peer key is adopted only from an authenticated header: when a decryption changes the stored peer key, the new
  key is the header's and the header's MAC verifies under the root key of the state that is returned.\<close>

theorem ratchet_adopts_authenticated:
  assumes "decrypt_ratchet P d st h c = Ok (st', pt)" "peer_pk st' \<noteq> peer_pk st"
  shows "peer_pk st' = hd_pk h \<and> verify_header_mac P (header_mac_key P (root_key st')) h"
  using decrypt_adopts_authenticated [OF assms] .

theorem ratchet_adopts_authenticated_witness:
  "\<exists>h c st'. decrypt_ratchet sample_prims (sample_draws 4) (init_state '''' ''c'' (sample_sk 2) (sample_pk 2)) h c = Ok (st', [7])
    \<and> peer_pk st' = hd_pk h \<and> verify_header_mac sample_prims (header_mac_key sample_prims (root_key st')) h"
proof -
  obtain h c st' where "decrypt_ratchet sample_prims (sample_draws 4) (init_state '''' ''c'' (sample_sk 2) (sample_pk 2)) h c
      = Ok (st', [7])" "peer_pk st' \<noteq> ''''"
    using sample_first_message by blast
  then show ?thesis using ratchet_adopts_authenticated [OF \<open>decrypt_ratchet _ _ _ h c = _\<close>]
    by (intro exI [of _ h] exI [of _ c] exI [of _ st']) simp
qed


text \<open>C39. Crossing first messages. Two fresh peers that know each other's key and both send before receiving: both
  encryptions succeed, and each peer refuses the other's message, whatever is drawn. (The epochs of the two messages
  have the same number, so the receiver takes the message for one of its own running epoch, for which it has no
  receiving chain.)\<close>

theorem ratchet_crossed_first_messages:
  assumes P: "ratchet_prims_ok P" and pairs: "hybrid_pair P pkA skA" "hybrid_pair P pkB skB"
    and d: "draws_ok d" "draws_ok d'" and pt: "msg_ok P ptA" "msg_ok P ptB"
  shows "\<exists>A hA cA B hB cB.
    encrypt_ratchet P d (init_state pkB ctx skA pkA) ptA = Ok (A, hA, cA)
    \<and> encrypt_ratchet P d' (init_state pkA ctx skB pkB) ptB = Ok (B, hB, cB)
    \<and> (\<forall>x. decrypt_ratchet P x B hA cA = Err ''no receiving chain for chain_counter''
         \<and> decrypt_ratchet P x A hB cB = Err ''no receiving chain for chain_counter'')"
proof -
  let ?A = "init_state pkB ctx skA pkA" and ?B = "init_state pkA ctx skB pkB"
  have SA: "session P {'''', pkA, pkB} 0 ?A ?B" using pairs by (intro session_fresh_pair) auto
  note SB = session_sym [OF SA]
  have ne: "pkA \<noteq> ''''" "pkB \<noteq> ''''"
    using hybrid_pair_neq_Nil [OF ratchet_primsD(2) [OF P]] pairs by blast+
  obtain A hA cA eA where A: "encrypt_ratchet P d ?A ptA = Ok (A, hA, cA)" "epoch_ok eA" "epoch_msg P eA 0 ptA (hA, cA)"
    "sender_at P eA 1 A" "e_cc eA = chain_counter ?A + 1"
    by (rule first_send [OF P d(1) pt(1) SA]) (simp_all add: ne)
  obtain B hB cB eB where B: "encrypt_ratchet P d' ?B ptB = Ok (B, hB, cB)" "epoch_ok eB" "epoch_msg P eB 0 ptB (hB, cB)"
    "sender_at P eB 1 B" "e_cc eB = chain_counter ?B + 1"
    by (rule first_send [OF P d(2) pt(2) SB]) (simp_all add: ne)
  have rk: "receiving_chain_key A = ''''" "receiving_chain_key B = ''''"
    using encrypt_receiving_key [OF A(1)] encrypt_receiving_key [OF B(1)] by simp_all
  have cc: "e_cc eA = e_cc eB" using A(5) B(5) by simp
  have "decrypt_ratchet P x B hA cA = Err ''no receiving chain for chain_counter''"
    "decrypt_ratchet P x A hB cB = Err ''no receiving chain for chain_counter''" for x
    using crossed_message [OF B(4,2) rk(2) A(3,2) cc] crossed_message [OF A(4,2) rk(1) B(3,2) cc [symmetric]] by blast+
  with A(1) B(1) show ?thesis by blast
qed

theorem ratchet_crossed_first_messages_witness:
  "\<exists>A hA cA B hB cB.
    encrypt_ratchet sample_prims (sample_draws 3) (init_state (sample_pk 2) ''c'' (sample_sk 1) (sample_pk 1)) [5] = Ok (A, hA, cA)
    \<and> encrypt_ratchet sample_prims (sample_draws 4) (init_state (sample_pk 1) ''c'' (sample_sk 2) (sample_pk 2)) [6] = Ok (B, hB, cB)
    \<and> (\<forall>x. decrypt_ratchet sample_prims x B hA cA = Err ''no receiving chain for chain_counter''
         \<and> decrypt_ratchet sample_prims x A hB cB = Err ''no receiving chain for chain_counter'')"
  by (rule ratchet_crossed_first_messages [OF sample_ratchet_ok sample_pair sample_pair sample_draws_ok sample_draws_ok])
    (simp_all add: sample_msg_ok)

text \<open>Messages between the compression bound and the input bound. A payload within the 64 KiB input limit whose
  deflated form has 40960 bytes or more is encrypted successfully at the start of an epoch, the sender's ratchet
  advances, and the ciphertext exceeds the limit of \<open>decrypt_ratchet\<close>: every receiver refuses it.\<close>

theorem ratchet_oversize_refused:
  assumes P: "ratchet_prims_ok P" and d: "draws_ok d"
    and pt: "length pt \<le> MAX_INPUT_LEN" "40960 \<le> length (p_deflate P pt)"
    and S: "session P used n A B" "n + 2 \<le> I64_MAX" "peer_pk A \<noteq> ''''" "need_new_epoch A"
  shows "\<exists>A' h c. encrypt_ratchet P d A pt = Ok (A', h, c)
    \<and> chain_counter A' = chain_counter A + 1 \<and> sending_chain_counter A' = 1
    \<and> (\<forall>R d'. \<exists>msg. decrypt_ratchet P d' R h c = Err msg)"
proof -
  obtain A' h c where enc: "encrypt_ratchet P d A pt = Ok (A', h, c)" "sending_chain_counter A' = 1"
    "chain_counter A' = chain_counter A + 1"
    using encrypt_oversize [OF P d pt(1) S] by blast
  from sealed_too_large [OF P d enc(1) pt(2)] have "\<exists>msg. decrypt_ratchet P d' R h c = Err msg" for R d'
    by (rule decrypt_too_large)
  with enc show ?thesis by blast
qed

theorem ratchet_oversize_refused_witness:
  "\<exists>A' h c. encrypt_ratchet sample_prims (sample_draws 3) (init_state (sample_pk 2) ''c'' (sample_sk 1) (sample_pk 1))
        (replicate 50000 0) = Ok (A', h, c)
    \<and> chain_counter A' = chain_counter (init_state (sample_pk 2) ''c'' (sample_sk 1) (sample_pk 1)) + 1
    \<and> sending_chain_counter A' = 1
    \<and> (\<forall>R d'. \<exists>msg. decrypt_ratchet sample_prims d' R h c = Err msg)"
proof (rule ratchet_oversize_refused [OF sample_ratchet_ok sample_draws_ok])
  show "session sample_prims {'''', sample_pk 1, sample_pk 2} 0
      (init_state (sample_pk 2) ''c'' (sample_sk 1) (sample_pk 1)) (init_state (sample_pk 1) ''c'' (sample_sk 2) (sample_pk 2))"
    by (rule session_fresh_pair [OF sample_pair sample_pair]) simp
qed (simp_all add: MAX_INPUT_LEN_def)

text \<open>A header with the largest chain counter stops the process. \<open>decrypt_ratchet\<close> computes
  \<open>header.chain_counter + 1\<close> before anything of the message is authenticated; in a build with overflow checks a
  header with \<open>i64::MAX\<close> and fields of the right sizes panics, in every state of the current version.\<close>

theorem ratchet_counter_overflow:
  assumes "rs_version st = RATCHET_VERSION" "hd_version h = RATCHET_VERSION"
    "length (hd_pk h) = HYBRID_PK_LEN * 2" "length (hd_ct h) = HYBRID_CT_LEN * 2"
    "length c \<le> MAX_RATCHET_CIPHERTEXT" "hd_chain_counter h = I64_MAX"
  shows "decrypt_ratchet P d st h c = Panic"
  using assms by (rule decrypt_i64_max)

theorem ratchet_counter_overflow_witness:
  "decrypt_ratchet sample_prims (sample_draws 1) (init_state '''' ''c'' (sample_sk 2) (sample_pk 2))
     \<lparr>hd_version = RATCHET_VERSION, hd_pk = replicate (HYBRID_PK_LEN * 2) CHR ''0'',
      hd_ct = replicate (HYBRID_CT_LEN * 2) CHR ''0'', hd_seq = 0, hd_chain_counter = I64_MAX, hd_mac = ''''\<rparr> '''' = Panic"
  by (rule ratchet_counter_overflow) simp_all

text \<open>Headers survive the wrapper event. The tags that carry a header in a direct message give back exactly that
  header, for every header of the current version whose counters are \<open>i64\<close> values, whatever else the tags hold; the
  context of a direct message is the same on both sides.\<close>

theorem ratchet_tags_round_trip:
  assumes "hd_version h = RATCHET_VERSION" "I64_MIN \<le> hd_seq h" "hd_seq h \<le> I64_MAX"
    "I64_MIN \<le> hd_chain_counter h" "hd_chain_counter h \<le> I64_MAX"
  shows "ratchet_header_from_tags (ratchet_wrapper_tags out h) = Some h \<and> ratchet_context a b = ratchet_context b a"
  using header_tags_round_trip [OF assms] ratchet_context_sym by blast

theorem ratchet_tags_round_trip_witness:
  "ratchet_header_from_tags (ratchet_wrapper_tags (init_state ''npub'' ''c'' ''s'' ''k'')
     \<lparr>hd_version = RATCHET_VERSION, hd_pk = ''aa'', hd_ct = ''bb'', hd_seq = 12, hd_chain_counter = -3, hd_mac = ''cc''\<rparr>)
   = Some \<lparr>hd_version = RATCHET_VERSION, hd_pk = ''aa'', hd_ct = ''bb'', hd_seq = 12, hd_chain_counter = -3, hd_mac = ''cc''\<rparr>
   \<and> ratchet_context ''a'' ''b'' = ratchet_context ''b'' ''a''"
  by (rule ratchet_tags_round_trip) simp_all


subsection \<open>NIP-44, the hybrid KEM and compression\<close>

text \<open>C9. NIP-44 decryption inverts encryption, through the process-wide conversation-key cache: with any two sound caches
  (cold, warm or full) a non-empty plaintext below 4 GiB is encrypted and decrypted to itself, and both operations leave
  a sound cache of at most 128 entries.\<close>

theorem nip44_round_trip:
  assumes P: "nip44_prims_ok P" and g: "ck_cache_ok P g" "ck_cache_ok P g'"
    and pt: "length nonce = 32" "pt \<noteq> []" "length pt < 2 ^ 32"
  shows "\<exists>ct g1 g2. nip44_encrypt P (Some nonce) pt key g = (Ok ct, g1) \<and> nip44_decrypt P ct key g' = (Ok pt, g2)
    \<and> ck_cache_ok P g1 \<and> ck_cache_ok P g2"
  by (rule nip44_pair [OF assms])

theorem nip44_round_trip_witness:
  "\<exists>ct g1 g2. nip44_encrypt sample_prims (Some (replicate 32 9)) [1, 2, 3] [4] None = (Ok ct, g1)
    \<and> nip44_decrypt sample_prims ct [4] None = (Ok [1, 2, 3], g2) \<and> ck_cache_ok sample_prims g1 \<and> ck_cache_ok sample_prims g2"
  by (rule nip44_round_trip [OF sample_nip44_ok]) (simp_all add: ck_cache_ok_def)

text \<open>A version-2 payload is never opened by the unauthenticated-version fallback: when a payload of the v2 shape
  decrypts at all, its last 32 bytes are the HMAC, under the key derived for its nonce, of nonce and body.\<close>

theorem nip44_v2_authenticated:
  assumes "ck_cache_ok P g" "p_base64_decode P pl = Some decoded" "decoded ! 0 = VERSION_PADDED" "is_spec_shape decoded"
    "fst (nip44_decrypt P pl key g) = Ok pt"
  shows "\<exists>nonce body mac. decoded = [VERSION_PADDED] @ nonce @ body @ mac \<and> length nonce = 32
    \<and> mac = p_hmac P (snd (snd (spec_derive_keys P (conversation_key P key) nonce))) (nonce @ body)"
proof -
  have "decoded \<noteq> []" using assms(4) by (auto simp: is_spec_shape_def)
  then have "decrypt_spec P decoded (conversation_key P key) = Ok pt"
    using nip44_open_v2_only [OF assms(2) _ assms(3,4)] nip44_decrypt_eq_open(1) [OF assms(1)] assms(5) by metis
  then show ?thesis by (rule decrypt_spec_tamper)
qed

theorem nip44_v2_authenticated_witness:
  "\<exists>nonce body mac. nip44_payload sample_prims (conversation_key sample_prims [4]) (replicate 32 9) [1, 2, 3]
      = [VERSION_PADDED] @ nonce @ body @ mac \<and> length nonce = 32
    \<and> mac = p_hmac sample_prims (snd (snd (spec_derive_keys sample_prims (conversation_key sample_prims [4]) nonce))) (nonce @ body)"
proof -
  let ?ck = "conversation_key sample_prims [4]"
  let ?pl = "nip44_payload sample_prims ?ck (replicate 32 9) [1, 2, 3]"
  have shape: "is_spec_shape ?pl" by (rule nip44_payload_shape [OF sample_nip44_ok]) simp
  have seal: "nip44_seal sample_prims (Some (replicate 32 9)) [1, 2, 3] ?ck = Ok (sample_b64_encode ?pl)"
    by (simp add: nip44_seal_def)
  have "nip44_open sample_prims (sample_b64_encode ?pl) [4] ?ck = Ok [1, 2, 3]"
    by (rule nip44_open_seal [OF sample_nip44_ok _ _ _ seal]) simp_all
  then have "fst (nip44_decrypt sample_prims (sample_b64_encode ?pl) [4] None) = Ok [1, 2, 3]"
    using nip44_decrypt_eq_open(1) [of sample_prims None] by (simp add: ck_cache_ok_def)
  then show ?thesis
    by (rule nip44_v2_authenticated [OF _ _ _ shape, rotated 3])
      (simp_all add: ck_cache_ok_def sample_b64_round_trip nip44_payload_def Let_def split_beta)
qed

text \<open>The hybrid KEM. For every key pair produced by \<open>hybrid_keygen\<close>, encapsulation to the public key and
  decapsulation with the secret key give the same 32-byte secret, for every domain of at most 1024 bytes.\<close>

theorem hybrid_kem_agrees:
  assumes "kem_prims_ok P" "length x = 32" "length s = 64" "length e = 32" "length dm \<le> 1024"
  shows "\<exists>pk sk ct ss. hybrid_keygen P (Some x) (Some s) = Ok (pk, sk)
    \<and> hybrid_encapsulate P (Some e) mr pk dm = Ok (ct, ss) \<and> hybrid_decapsulate P ct sk dm = Ok ss
    \<and> length ss = 2 * SS_LEN \<and> length ct = 2 * HYBRID_CT_LEN"
proof -
  let ?d = "\<lparr>dr_eph = Some e, dr_mlkem = mr, dr_x25519 = Some x, dr_seed = Some s, dr_nonce = Some x\<rparr>"
  have "draws_ok ?d" using assms by (simp add: draws_ok_def)
  then obtain sk where "hybrid_keygen P (Some x) (Some s) = Ok (drawn_pk P ?d, sk)" "hybrid_pair P (drawn_pk P ?d) sk"
    using drawn_pair [of ?d P] by auto
  with hybrid_round_trip [OF assms(1) _ assms(4,5), of "drawn_pk P ?d" sk mr] length_hex_encode [OF kem_hex [OF assms(1)]]
  show ?thesis by fastforce
qed

theorem hybrid_kem_agrees_witness:
  "\<exists>pk sk ct ss. hybrid_keygen sample_prims (Some (replicate 32 1)) (Some (replicate 64 2)) = Ok (pk, sk)
    \<and> hybrid_encapsulate sample_prims (Some (replicate 32 3)) 7 pk [100] = Ok (ct, ss)
    \<and> hybrid_decapsulate sample_prims ct sk [100] = Ok ss \<and> length ss = 2 * SS_LEN \<and> length ct = 2 * HYBRID_CT_LEN"
  by (rule hybrid_kem_agrees [OF sample_kem_ok]) simp_all

text \<open>Decompression is bounded and total: whatever the input, neither decompressor panics or returns more than the
  limit; and each gives back what its compressor was given, when that is within the limit.\<close>

theorem decompress_bounded_round_trip:
  assumes "deflate_prims_ok P" "zstd_prims_ok P" "length d \<le> m" "length d \<le> MAX_COMPRESS_BYTES"
  shows "decompress_limited P data m \<noteq> Panic \<and> (decompress_limited P data m = Ok out \<longrightarrow> length out \<le> m)
    \<and> (\<exists>c. compress P d = Ok c \<and> decompress_limited P c m = Ok d)
    \<and> (\<exists>c. compress_dict P d = Ok c \<and> is_dict_frame c \<and> decompress_dict_limited P c m = Ok d)"
proof -
  have "compress P d = Ok (p_deflate P d)" using assms(4) by (simp add: compress_def)
  with decompress_compress [OF assms(1) this assms(3)]
  have "\<exists>c. compress P d = Ok c \<and> decompress_limited P c m = Ok d" by blast
  moreover obtain c where c: "compress_dict P d = Ok c" using assms(2,4) by (fastforce simp: compress_dict_def zstd_prims_ok_def)
  ultimately show ?thesis
    using decompress_limited_not_Panic decompress_limited_bound dict_round_trip [OF assms(2) c assms(3)] c by blast
qed

theorem decompress_bounded_round_trip_witness:
  "decompress_limited sample_prims [1, 2] 3 \<noteq> Panic
    \<and> (\<exists>c. compress sample_prims [7, 8] = Ok c \<and> decompress_limited sample_prims c 3 = Ok [7, 8])
    \<and> (\<exists>c. compress_dict sample_prims [7, 8] = Ok c \<and> is_dict_frame c \<and> decompress_dict_limited sample_prims c 3 = Ok [7, 8])"
  using decompress_bounded_round_trip [OF sample_deflate_ok sample_zstd_ok, of "[7, 8]" 3 "[1, 2]"] by (simp add: MAX_COMPRESS_BYTES_def)

end
