(* ===== verification/Packet.thy ===== *)
theory Packet
  imports Prelude
begin

section \<open>Reticulum addresses, packets and interfaces\<close>

text \<open>
  mesh-core/src/reticulum/address.rs, packet.rs and interface.rs. A destination address is
  sixteen bytes (\<open>address_wf\<close> is what Rust's type \<open>[u8; 16]\<close> guarantees); a packet is the
  record of the source. SHA-256 and the \<open>hex\<close> crate are parameters. Shown here: the wire format
  round-trips in both directions, exactly which byte strings parse, and the hop limit.
\<close>

type_synonym address = "byte list"

definition address_wf :: "address \<Rightarrow> bool" where
  "address_wf a \<longleftrightarrow> length a = 16"

definition is_broadcast :: "address \<Rightarrow> bool" where
  "is_broadcast a \<longleftrightarrow> list_all (\<lambda>b. b = 0xff) a"

definition from_pubkey :: "(byte list \<Rightarrow> byte list) \<Rightarrow> string \<Rightarrow> address" where
  "from_pubkey sha256 pubkey = take 16 (sha256 (bytes_of ''soshal.reticulum.pubkey:'' @ bytes_of pubkey))"

definition from_aspect :: "(byte list \<Rightarrow> byte list) \<Rightarrow> string \<Rightarrow> string \<Rightarrow> address" where
  "from_aspect sha256 app_name aspect =
     take 16 (sha256 (bytes_of app_name @ bytes_of ''.'' @ bytes_of aspect))"

text \<open>\<open>to_hex\<close> and \<open>from_hex\<close> over the \<open>hex\<close> crate's encoder and decoder.\<close>

definition to_hex :: "(byte list \<Rightarrow> string) \<Rightarrow> address \<Rightarrow> string" where
  "to_hex hex_encode a = hex_encode a"

definition from_hex :: "(string \<Rightarrow> byte list option) \<Rightarrow> string \<Rightarrow> address res" where
  "from_hex hex_decode hex_str =
     (let trimmed = trim hex_str in
      if length trimmed \<noteq> 32 then Err ''Expected 32 hex characters (16 bytes)''
      else ok_or ''Invalid hex'' (hex_decode trimmed))"

definition MAX_HOPS :: nat where
  "MAX_HOPS = 128"

datatype packet_type = Data | Announce | LinkRequest | Proof

primrec packet_type_byte :: "packet_type \<Rightarrow> byte" where
  "packet_type_byte Data = 0x00"
| "packet_type_byte Announce = 0x01"
| "packet_type_byte LinkRequest = 0x02"
| "packet_type_byte Proof = 0x03"

definition packet_type_from_u8 :: "byte \<Rightarrow> packet_type option" where
  "packet_type_from_u8 val =
     (if val = 0x00 then Some Data
      else if val = 0x01 then Some Announce
      else if val = 0x02 then Some LinkRequest
      else if val = 0x03 then Some Proof
      else None)"

record packet =
  flags :: byte
  hops :: byte
  destination :: address
  ptype :: packet_type
  payload :: "byte list"

definition new_packet :: "address \<Rightarrow> packet_type \<Rightarrow> byte list \<Rightarrow> packet" where
  "new_packet dest pt pl = \<lparr>flags = 0x00, hops = 0, destination = dest, ptype = pt, payload = pl\<rparr>"

definition to_bytes :: "packet \<Rightarrow> byte list" where
  "to_bytes p = [flags p, hops p] @ destination p @ [packet_type_byte (ptype p)] @ payload p"

definition from_bytes :: "byte list \<Rightarrow> packet res" where
  "from_bytes data =
     (if length data < 19 then Err ''Packet too short (minimum 19 bytes)''
      else let flg = data ! 0; hps = data ! 1 in
        if unat hps > MAX_HOPS then Err ''Exceeded MAX_HOPS''
        else let dest = take 16 (drop 2 data) in
          case packet_type_from_u8 (data ! 18) of
            None \<Rightarrow> Err ''Unknown packet type''
          | Some pt \<Rightarrow>
              Ok \<lparr>flags = flg, hops = hps, destination = dest, ptype = pt, payload = drop 19 data\<rparr>)"

definition increment_hops :: "packet \<Rightarrow> packet option" where
  "increment_hops p = (if unat (hops p) \<ge> MAX_HOPS then None else Some (p\<lparr>hops := hops p + 1\<rparr>))"

text \<open>The in-place variant returns the flag and the packet it leaves behind.\<close>

definition increment_hops_in_place :: "packet \<Rightarrow> bool \<times> packet" where
  "increment_hops_in_place p =
     (if unat (hops p) \<ge> MAX_HOPS then (False, p) else (True, p\<lparr>hops := hops p + 1\<rparr>))"

text \<open>Packets as the code builds and accepts them.\<close>

definition packet_wf :: "packet \<Rightarrow> bool" where
  "packet_wf p \<longleftrightarrow> address_wf (destination p) \<and> unat (hops p) \<le> MAX_HOPS"

subsection \<open>Interface descriptions\<close>

datatype interface_kind = UdpUnicast | UdpMulticast | RNodeSerial

record interface_status =
  iname :: string
  kind :: interface_kind
  bind_address :: string
  active :: bool
  rx_packets :: nat
  tx_packets :: nat

definition new_udp :: "string \<Rightarrow> bool \<Rightarrow> interface_status" where
  "new_udp bnd multicast =
     \<lparr>iname = (if multicast then ''UDP Multicast (Auto)'' else ''UDP Socket''),
      kind = (if multicast then UdpMulticast else UdpUnicast),
      bind_address = bnd, active = True, rx_packets = 0, tx_packets = 0\<rparr>"

definition new_rnode :: "string \<Rightarrow> interface_status" where
  "new_rnode port =
     \<lparr>iname = ''RNode Serial ('' @ port @ '')'', kind = RNodeSerial,
      bind_address = port, active = True, rx_packets = 0, tx_packets = 0\<rparr>"

subsection \<open>Lemmas\<close>

lemma packet_type_round_trip [simp]: "packet_type_from_u8 (packet_type_byte t) = Some t"
  by (cases t) (simp_all add: packet_type_from_u8_def)

lemma packet_type_from_u8_Some: "packet_type_from_u8 b = Some t \<longleftrightarrow> b = packet_type_byte t"
  by (cases t) (auto simp: packet_type_from_u8_def split: if_splits)

lemma address_wf_from_pubkey: "length (sha256 x) = 32 \<Longrightarrow> x = bytes_of ''soshal.reticulum.pubkey:'' @ bytes_of pk
  \<Longrightarrow> address_wf (from_pubkey sha256 pk)"
  by (simp add: address_wf_def from_pubkey_def)

lemma from_bytes_to_bytes:
  assumes "packet_wf p"
  shows "from_bytes (to_bytes p) = Ok p"
proof -
  have len: "length (destination p) = 16" and hop: "unat (hops p) \<le> MAX_HOPS"
    using assms by (auto simp: packet_wf_def address_wf_def)
  have nth18: "to_bytes p ! 18 = packet_type_byte (ptype p)"
    using len by (simp add: to_bytes_def nth_append)
  have dest: "take 16 (drop 2 (to_bytes p)) = destination p" and pl: "drop 19 (to_bytes p) = payload p"
    using len by (simp_all add: to_bytes_def)
  have "length (to_bytes p) \<ge> 19" "to_bytes p ! 0 = flags p" "to_bytes p ! 1 = hops p"
    using len by (simp_all add: to_bytes_def)
  with nth18 dest pl hop show ?thesis by (simp add: from_bytes_def Let_def)
qed

lemma from_bytes_Ok_iff:
  "from_bytes data = Ok p \<longleftrightarrow> packet_wf p \<and> data = to_bytes p"
proof
  assume ok: "from_bytes data = Ok p"
  then obtain t where len: "length data \<ge> 19" and hop: "unat (data ! 1) \<le> MAX_HOPS"
    and t: "packet_type_from_u8 (data ! 18) = Some t"
    and p: "p = \<lparr>flags = data ! 0, hops = data ! 1, destination = take 16 (drop 2 data), ptype = t,
               payload = drop 19 data\<rparr>"
    by (auto simp: from_bytes_def Let_def split: if_splits option.splits)
  have "data = data ! 0 # data ! 1 # drop 2 data"
    using len Cons_nth_drop_Suc [of 0 data] Cons_nth_drop_Suc [of 1 data] by (force simp: numeral_2_eq_2)
  also have "drop 2 data = take 16 (drop 2 data) @ drop 18 data"
    using append_take_drop_id [of 16 "drop 2 data"] by simp
  also have "drop 18 data = data ! 18 # drop 19 data"
    using len Cons_nth_drop_Suc [of 18 data] by simp
  finally have "data = to_bytes p"
    using t by (simp add: p to_bytes_def packet_type_from_u8_Some)
  moreover have "packet_wf p"
    using len hop by (simp add: p packet_wf_def address_wf_def)
  ultimately show "packet_wf p \<and> data = to_bytes p" by simp
next
  assume "packet_wf p \<and> data = to_bytes p"
  then show "from_bytes data = Ok p" by (simp add: from_bytes_to_bytes)
qed

lemma from_bytes_not_Panic: "from_bytes data \<noteq> Panic"
  by (simp add: from_bytes_def Let_def split: option.split)

lemma length_to_bytes: "packet_wf p \<Longrightarrow> length (to_bytes p) = 19 + length (payload p)"
  by (simp add: packet_wf_def address_wf_def to_bytes_def)

lemma unat_hops_Suc: "unat (hops p) < MAX_HOPS \<Longrightarrow> unat (hops p + 1) = Suc (unat (hops p))"
  by (simp add: MAX_HOPS_def unat_word_ariths)

lemma increment_hops_Some:
  "increment_hops p = Some q \<Longrightarrow>
     q = p\<lparr>hops := hops p + 1\<rparr> \<and> unat (hops q) = Suc (unat (hops p)) \<and> unat (hops q) \<le> MAX_HOPS"
  using unat_hops_Suc [of p] by (auto simp: increment_hops_def split: if_splits)

lemma increment_in_place_agrees:
  "increment_hops_in_place p = (case increment_hops p of None \<Rightarrow> (False, p) | Some q \<Rightarrow> (True, q))"
  by (simp add: increment_hops_in_place_def increment_hops_def)

lemma packet_wf_increment: "packet_wf p \<Longrightarrow> increment_hops p = Some q \<Longrightarrow> packet_wf q"
  by (auto simp: packet_wf_def dest: increment_hops_Some)

lemma packet_wf_new: "address_wf d \<Longrightarrow> packet_wf (new_packet d t pl)"
  by (simp add: packet_wf_def new_packet_def MAX_HOPS_def)


subsection \<open>The wire format\<close>

text \<open>Packets and their bytes correspond exactly: \<open>from_bytes\<close> accepts precisely the serialisations of well-formed
  packets (a 16-byte address, at most 128 hops, a known type), returns the packet that was serialised, and never panics.\<close>

theorem packet_wire_format:
  "(from_bytes data = Ok p \<longleftrightarrow> packet_wf p \<and> data = to_bytes p) \<and> from_bytes data \<noteq> Panic"
  using from_bytes_Ok_iff from_bytes_not_Panic by blast

end
