(* ===== verification/Routing.thy ===== *)
theory Routing
  imports Packet Tables
begin

section \<open>The path table (mesh-core/src/reticulum/routing.rs)\<close>

text \<open>
  The distance-vector routing table of a mesh node: \<open>update_route\<close> with its three acceptance
  conditions and its cap, \<open>get_route\<close>, \<open>prune_expired\<close> and the accessors. Time is in seconds
  (a \<open>u64\<close>); the expiry \<open>now + 7200\<close> is a checked addition. Shown here: the table invariant
  (distinct destinations, every entry filed under its own destination, at most 4096 entries) and
  that every operation keeps it; what an update writes and when it is refused; that an accepted
  update never makes a live route longer unless it comes from the current next hop.
\<close>

definition DEFAULT_ROUTE_TTL_SECS :: nat where
  "DEFAULT_ROUTE_TTL_SECS = 7200"

definition MAX_PATH_TABLE_ROUTES :: nat where
  "MAX_PATH_TABLE_ROUTES = 4096"

record path_entry =
  pe_destination :: address
  next_hop :: address
  hop_count :: byte
  expires_at :: nat

type_synonym path_table = "(address, path_entry) hmap"

definition new_path_table :: path_table where
  "new_path_table = []"

definition prune_expired :: "nat \<Rightarrow> path_table \<Rightarrow> nat \<times> path_table" where
  "prune_expired now_secs t =
     (let t' = hm_retain (\<lambda>_ e. expires_at e > now_secs) t in (length t - length t', t'))"

definition update_route ::
  "address \<Rightarrow> address \<Rightarrow> byte \<Rightarrow> nat \<Rightarrow> path_table \<Rightarrow> (bool \<times> path_table) res" where
  "update_route dest nhop hopcnt now_secs t =
     and_then (add_u64 now_secs DEFAULT_ROUTE_TTL_SECS) (\<lambda>exp.
       case map_of t dest of
         Some existing \<Rightarrow>
           if next_hop existing = nhop \<or> hopcnt \<le> hop_count existing \<or> expires_at existing < now_secs
           then Ok (True, hm_put dest
                  (existing\<lparr>next_hop := nhop, hop_count := hopcnt, expires_at := exp\<rparr>) t)
           else Ok (False, t)
       | None \<Rightarrow>
           let t1 = (if length t \<ge> MAX_PATH_TABLE_ROUTES then snd (prune_expired now_secs t) else t) in
           if length t1 \<ge> MAX_PATH_TABLE_ROUTES then Ok (False, t1)
           else Ok (True, hm_put dest
                  \<lparr>pe_destination = dest, next_hop = nhop, hop_count = hopcnt, expires_at = exp\<rparr> t1))"

definition get_route :: "address \<Rightarrow> path_table \<Rightarrow> path_entry option" where
  "get_route dest t = map_of t dest"

definition entries :: "path_table \<Rightarrow> path_entry list" where
  "entries t = map snd t"

definition path_len :: "path_table \<Rightarrow> nat" where
  "path_len t = length t"

definition path_is_empty :: "path_table \<Rightarrow> bool" where
  "path_is_empty t \<longleftrightarrow> t = []"

definition path_table_wf :: "path_table \<Rightarrow> bool" where
  "path_table_wf t \<longleftrightarrow>
     hm_wf t \<and> length t \<le> MAX_PATH_TABLE_ROUTES \<and> (\<forall>k e. map_of t k = Some e \<longrightarrow> pe_destination e = k)"

subsection \<open>Lemmas\<close>

lemma path_table_wf_new: "path_table_wf new_path_table"
  by (simp add: path_table_wf_def new_path_table_def)

lemma path_table_wf_put:
  assumes "path_table_wf t" "pe_destination e = k"
    and "map_of t k \<noteq> None \<or> length t < MAX_PATH_TABLE_ROUTES"
  shows "path_table_wf (hm_put k e t)"
  using assms hm.put_within_cap [of t MAX_PATH_TABLE_ROUTES k e]
  by (auto simp: path_table_wf_def split: if_splits)

lemma path_table_wf_retain: "path_table_wf t \<Longrightarrow> path_table_wf (hm_retain P t)"
  using hm.keep_within_cap [of t MAX_PATH_TABLE_ROUTES P]
    hm.keep_all_entries [of t "\<lambda>k e. pe_destination e = k" P]
  by (simp add: path_table_wf_def)

lemma prune_expired_wf: "path_table_wf t \<Longrightarrow> path_table_wf (snd (prune_expired now t))"
  by (simp add: prune_expired_def Let_def path_table_wf_retain)

lemma map_of_prune_expired:
  "hm_wf t \<Longrightarrow> map_of (snd (prune_expired now t)) k
     = (case map_of t k of None \<Rightarrow> None | Some e \<Rightarrow> if now < expires_at e then Some e else None)"
  by (simp add: prune_expired_def Let_def map_of_hm_retain)

lemma length_prune_expired: "length (snd (prune_expired now t)) \<le> length t"
  by (simp add: prune_expired_def Let_def length_hm_retain)

lemma prune_expired_count:
  "fst (prune_expired now t) + length (snd (prune_expired now t)) = length t"
  using length_hm_retain [of "\<lambda>_ e. expires_at e > now" t] by (simp add: prune_expired_def Let_def)

lemma update_route_wf:
  assumes "path_table_wf t" "update_route d n h now t = Ok (b, t')"
  shows "path_table_wf t'"
proof (cases "map_of t d")
  case (Some e)
  with assms(1) have "pe_destination e = d" by (simp add: path_table_wf_def)
  with Some assms show ?thesis
    by (auto simp: update_route_def split: if_splits intro!: path_table_wf_put)
next
  case None
  define t1 where "t1 = (if length t \<ge> MAX_PATH_TABLE_ROUTES then snd (prune_expired now t) else t)"
  have "path_table_wf t1" using assms(1) by (simp add: t1_def prune_expired_wf)
  with None assms(2) show ?thesis
    by (auto simp: update_route_def Let_def t1_def [symmetric] split: if_splits intro!: path_table_wf_put)
qed

lemma update_route_accepted:
  assumes "update_route d n h now t = Ok (True, t')"
  shows "\<exists>e. get_route d t' = Some e \<and> next_hop e = n \<and> hop_count e = h
             \<and> expires_at e = now + DEFAULT_ROUTE_TTL_SECS"
  using assms by (auto simp: update_route_def get_route_def Let_def split: option.splits if_splits)

lemma update_route_Some_iff:
  assumes "map_of t d = Some e" "now + DEFAULT_ROUTE_TTL_SECS \<le> U64_MAX"
  shows "update_route d n h now t =
    (if next_hop e = n \<or> h \<le> hop_count e \<or> expires_at e < now
     then Ok (True, hm_put d (e\<lparr>next_hop := n, hop_count := h, expires_at := now + DEFAULT_ROUTE_TTL_SECS\<rparr>) t)
     else Ok (False, t))"
  using assms by (simp add: update_route_def add_u64_def)

lemma update_route_other:
  assumes "hm_wf t" "update_route d n h now t = Ok (b, t')" "k \<noteq> d" "map_of t k = Some e" "now < expires_at e"
  shows "map_of t' k = Some e"
  using assms by (auto simp: update_route_def Let_def map_of_prune_expired split: option.splits if_splits)

lemma update_route_Panic_iff:
  "update_route d n h now t = Panic \<longleftrightarrow> U64_MAX < now + DEFAULT_ROUTE_TTL_SECS"
  by (auto simp: update_route_def add_u64_def Let_def split: option.splits)


subsection \<open>Route updates\<close>

text \<open>C18. An announcement updates the table as the protocol says. The update never fails before the clock overflows; it keeps
  the table well-formed and capped; an accepted route is the one looked up afterwards, valid for two hours; a known
  destination is overwritten exactly by the same next hop, by a path that is not longer, or after expiry; and no other
  destination loses a route that has not expired.\<close>

theorem route_update:
  assumes "path_table_wf t" "now + DEFAULT_ROUTE_TTL_SECS \<le> U64_MAX"
  shows "\<exists>accepted t'. update_route d n h now t = Ok (accepted, t') \<and> path_table_wf t'
    \<and> (accepted \<longrightarrow> (\<exists>e. get_route d t' = Some e \<and> next_hop e = n \<and> hop_count e = h
                         \<and> expires_at e = now + DEFAULT_ROUTE_TTL_SECS))
    \<and> (\<forall>e. get_route d t = Some e \<longrightarrow>
         (accepted \<longleftrightarrow> next_hop e = n \<or> h \<le> hop_count e \<or> expires_at e < now))
    \<and> (\<forall>k e. k \<noteq> d \<longrightarrow> get_route k t = Some e \<longrightarrow> now < expires_at e \<longrightarrow> get_route k t' = Some e)"
proof -
  have wf: "hm_wf t" using assms(1) by (simp add: path_table_wf_def)
  have "update_route d n h now t \<noteq> Panic" using assms(2) by (simp add: update_route_Panic_iff)
  moreover have "update_route d n h now t \<noteq> Err e" for e
    using assms(2) by (auto simp: update_route_def add_u64_def Let_def split: option.split if_split)
  ultimately obtain r where "update_route d n h now t = Ok r" by (cases "update_route d n h now t") auto
  then obtain b t' where u: "update_route d n h now t = Ok (b, t')" by (cases r) auto
  have "b \<longleftrightarrow> next_hop e = n \<or> h \<le> hop_count e \<or> expires_at e < now" if "map_of t d = Some e" for e
    using update_route_Some_iff [OF that assms(2), of n h] u by (auto split: if_splits)
  moreover have "\<exists>e. get_route d t' = Some e \<and> next_hop e = n \<and> hop_count e = h \<and> expires_at e = now + DEFAULT_ROUTE_TTL_SECS" if b
    using that u by (intro update_route_accepted) simp
  ultimately show ?thesis
    using u update_route_wf [OF assms(1) u] update_route_other [OF wf u] by (auto simp: get_route_def)
qed

theorem route_update_witness:
  "\<exists>accepted t'. update_route (replicate 16 1) (replicate 16 2) 3 1000 new_path_table = Ok (accepted, t') \<and> path_table_wf t'"
  using route_update [OF path_table_wf_new, of 1000 "replicate 16 1" "replicate 16 2" 3]
  by (auto simp: DEFAULT_ROUTE_TTL_SECS_def)

end
