(* ===== verification/Link.thy ===== *)
theory Link
  imports PqcLink Packet
begin

section \<open>Link management (mesh-core/src/reticulum/link.rs)\<close>

text \<open>
  The link table of a mesh node over the session store of \<open>PqcLink\<close>: link requests, proofs, activity,
  closing and pruning. The record \<open>link_manager\<close> holds both parts; an operation returns its result with
  the new manager, also on its error paths (the session store may have changed). \<open>HashMap::iter().find\<close>
  follows the list order, which stands for the unspecified iteration order.
\<close>

definition LINK_TIMEOUT_SECS :: nat where "LINK_TIMEOUT_SECS = 300"
definition MAX_PENDING_LINKS :: nat where "MAX_PENDING_LINKS = 50"
abbreviation LINK_REQUEST_PQC :: byte where "LINK_REQUEST_PQC \<equiv> 1"
abbreviation LINK_REQUEST_PQC_SENDER :: byte where "LINK_REQUEST_PQC_SENDER \<equiv> 2"
abbreviation PROOF_PQC_SENDER :: byte where "PROOF_PQC_SENDER \<equiv> 2"

definition link_peer_id :: "prims \<Rightarrow> address \<Rightarrow> string" where
  "link_peer_id P dest = ''reticulum:'' @ p_hex_encode P dest"

definition link_context :: "prims \<Rightarrow> address \<Rightarrow> string" where
  "link_context P dest = ''reticulum-link:'' @ p_hex_encode P dest"

datatype link_state = Pending | Established | Closed

record link_info =
  remote_destination :: address
  li_state :: link_state
  created_at :: nat
  last_activity :: nat
  li_tx_packets :: nat
  li_rx_packets :: nat

record link_manager =
  links :: "(address, link_info) hmap"
  crypto :: pqc_link

definition new_link_manager :: link_manager where
  "new_link_manager = \<lparr>links = [], crypto = new_link\<rparr>"

definition fresh_link :: "address \<Rightarrow> link_state \<Rightarrow> nat \<Rightarrow> link_info" where
  "fresh_link dest st now =
     \<lparr>remote_destination = dest, li_state = st, created_at = now, last_activity = now,
      li_tx_packets = 0, li_rx_packets = 0\<rparr>"

definition request_link_from ::
  "prims \<Rightarrow> draws \<Rightarrow> nat \<Rightarrow> address option \<Rightarrow> address \<Rightarrow> link_manager \<Rightarrow> packet res \<times> link_manager" where
  "request_link_from P d now sender_dest remote_dest M =
     (if length (links M) \<ge> MAX_PENDING_LINKS then (Err ''Maximum pending links reached'', M)
      else case begin_handshake P d now (link_peer_id P remote_dest) (link_context P remote_dest) (crypto M) of
          (Err e, C) \<Rightarrow> (Err e, M\<lparr>crypto := C\<rparr>)
        | (Panic, C) \<Rightarrow> (Panic, M\<lparr>crypto := C\<rparr>)
        | (Ok own, C) \<Rightarrow>
            (let pl = (case sender_dest of
                         Some snd_addr \<Rightarrow> [LINK_REQUEST_PQC_SENDER] @ snd_addr
                       | None \<Rightarrow> [LINK_REQUEST_PQC]) @ bytes_of own
             in (Ok (new_packet remote_dest LinkRequest pl),
                 M\<lparr>links := hm_put remote_dest (fresh_link remote_dest Pending now) (links M), crypto := C\<rparr>)))"

definition request_link :: "prims \<Rightarrow> draws \<Rightarrow> nat \<Rightarrow> address \<Rightarrow> link_manager \<Rightarrow> packet res \<times> link_manager" where
  "request_link P d now remote_dest M = request_link_from P d now None remote_dest M"

text \<open>The sender address and public key of a link request payload.\<close>

definition parse_link_request :: "address \<Rightarrow> byte list \<Rightarrow> (address \<times> string) res" where
  "parse_link_request from_dest req =
     (if req = [] then Err ''empty link request payload''
      else if req ! 0 = LINK_REQUEST_PQC_SENDER \<and> length req > 17 then
        and_then (ok_or ''link request pk not ascii'' (from_utf8 (drop 17 req))) (\<lambda>pk.
        Ok (take 16 (drop 1 req), pk))
      else if req ! 0 = LINK_REQUEST_PQC then
        and_then (ok_or ''link request pk not ascii'' (from_utf8 (drop 1 req))) (\<lambda>pk. Ok (from_dest, pk))
      else Err ''unsupported link request payload'')"

definition handle_link_request_with_own_dest ::
  "prims \<Rightarrow> draws \<Rightarrow> nat \<Rightarrow> address option \<Rightarrow> address \<Rightarrow> byte list \<Rightarrow> link_manager \<Rightarrow> packet res \<times> link_manager" where
  "handle_link_request_with_own_dest P d now own_dest from_dest req M =
     (case parse_link_request from_dest req of
        Err e \<Rightarrow> (Err e, M)
      | Panic \<Rightarrow> (Panic, M)
      | Ok (actual, initiator_pk) \<Rightarrow>
          if length (links M) \<ge> MAX_PENDING_LINKS then (Err ''Maximum pending links reached'', M)
          else case accept_handshake_pk P d now (link_peer_id P actual) (link_context P actual) initiator_pk (crypto M) of
              (Err e, C) \<Rightarrow> (Err e, M\<lparr>crypto := C\<rparr>)
            | (Panic, C) \<Rightarrow> (Panic, M\<lparr>crypto := C\<rparr>)
            | (Ok own, C) \<Rightarrow>
                (let pl = (case own_dest of Some od \<Rightarrow> [PROOF_PQC_SENDER] @ od | None \<Rightarrow> []) @ bytes_of own
                 in (Ok (new_packet actual Proof pl),
                     M\<lparr>links := hm_put actual (fresh_link actual Established now) (links M), crypto := C\<rparr>)))"

definition handle_link_request ::
  "prims \<Rightarrow> draws \<Rightarrow> nat \<Rightarrow> address \<Rightarrow> byte list \<Rightarrow> link_manager \<Rightarrow> packet res \<times> link_manager" where
  "handle_link_request P d now from_dest req M = handle_link_request_with_own_dest P d now None from_dest req M"

fun find_pending :: "(address, link_info) hmap \<Rightarrow> address option" where
  "find_pending [] = None"
| "find_pending ((a, l) # m) = (if li_state l = Pending then Some a else find_pending m)"

definition parse_link_proof :: "address \<Rightarrow> byte list \<Rightarrow> link_manager \<Rightarrow> (address \<times> string) res" where
  "parse_link_proof from_dest proof_data M =
     (if proof_data \<noteq> [] \<and> proof_data ! 0 = PROOF_PQC_SENDER \<and> length proof_data > 17 then
        and_then (ok_or ''link proof pk not ascii'' (from_utf8 (drop 17 proof_data))) (\<lambda>pk.
        Ok (take 16 (drop 1 proof_data), pk))
      else
        and_then (ok_or ''link proof pk not ascii'' (from_utf8 proof_data)) (\<lambda>pk.
        Ok (if hm_has from_dest (links M) then from_dest
            else case find_pending (links M) of Some dest \<Rightarrow> dest | None \<Rightarrow> from_dest, pk)))"

definition handle_link_proof ::
  "prims \<Rightarrow> nat \<Rightarrow> address \<Rightarrow> byte list \<Rightarrow> link_manager \<Rightarrow> unit res \<times> link_manager" where
  "handle_link_proof P now from_dest proof_data M =
     (case parse_link_proof from_dest proof_data M of
        Err e \<Rightarrow> (Err e, M)
      | Panic \<Rightarrow> (Panic, M)
      | Ok (target, responder_pk) \<Rightarrow>
          (case map_of (links M) target of
             None \<Rightarrow> (Err ''Unknown link'', M)
           | Some link \<Rightarrow>
               if li_state link = Pending then
                 (case complete_handshake now (link_peer_id P target) responder_pk (crypto M) of
                    (Err e, C) \<Rightarrow> (Err e, M\<lparr>crypto := C\<rparr>)
                  | (Panic, C) \<Rightarrow> (Panic, M\<lparr>crypto := C\<rparr>)
                  | (Ok _, C) \<Rightarrow>
                      (Ok (), M\<lparr>links := hm_put target (link\<lparr>li_state := Established, last_activity := now\<rparr>) (links M),
                               crypto := C\<rparr>))
               else (Err ''Link not in pending state'', M)))"

definition encrypt_for_link ::
  "prims \<Rightarrow> serde \<Rightarrow> draws \<Rightarrow> nat \<Rightarrow> address \<Rightarrow> byte list \<Rightarrow> link_manager \<Rightarrow> byte list res \<times> link_manager" where
  "encrypt_for_link P js d now dest data M =
     (case link_encrypt P js d now (link_peer_id P dest) data (crypto M) of (r, C) \<Rightarrow> (r, M\<lparr>crypto := C\<rparr>))"

definition decrypt_from_link ::
  "prims \<Rightarrow> serde \<Rightarrow> draws \<Rightarrow> nat \<Rightarrow> address \<Rightarrow> byte list \<Rightarrow> link_manager \<Rightarrow> byte list res \<times> link_manager" where
  "decrypt_from_link P js d now dest data M =
     (case link_decrypt P js d now (link_peer_id P dest) data (crypto M) of (r, C) \<Rightarrow> (r, M\<lparr>crypto := C\<rparr>))"

definition update_activity :: "nat \<Rightarrow> address \<Rightarrow> link_manager \<Rightarrow> link_manager" where
  "update_activity now dest M =
     (case map_of (links M) dest of
        Some link \<Rightarrow> M\<lparr>links := hm_put dest (link\<lparr>last_activity := now\<rparr>) (links M)\<rparr>
      | None \<Rightarrow> M)"

definition close_link :: "prims \<Rightarrow> address \<Rightarrow> link_manager \<Rightarrow> link_manager" where
  "close_link P dest M =
     M\<lparr>links := hm_del dest (links M), crypto := remove_session (link_peer_id P dest) (crypto M)\<rparr>"

text \<open>\<open>retain\<close> with its side effect on the session store: the sessions of the dropped links go too.\<close>

definition stale :: "nat \<Rightarrow> link_info \<Rightarrow> bool" where
  "stale now l \<longleftrightarrow> now - last_activity l > LINK_TIMEOUT_SECS"

definition prune_stale_links :: "prims \<Rightarrow> nat \<Rightarrow> link_manager \<Rightarrow> nat \<times> link_manager" where
  "prune_stale_links P now M =
     (let kept = hm_retain (\<lambda>_ l. \<not> stale now l) (links M);
          dropped = filter (\<lambda>(_, l). stale now l) (links M);
          C = fold (\<lambda>(dest, _) c. remove_session (link_peer_id P dest) c) dropped (crypto M)
      in (length (links M) - length kept, M\<lparr>links := kept, crypto := C\<rparr>))"

definition get_link_info :: "address \<Rightarrow> link_manager \<Rightarrow> link_info option" where
  "get_link_info dest M = map_of (links M) dest"

definition get_active_links :: "link_manager \<Rightarrow> link_info list" where
  "get_active_links M = filter (\<lambda>l. li_state l = Established) (map snd (links M))"

definition announce :: "link_manager \<Rightarrow> bool res" where
  "announce M = (if links M = [] then Ok False else Ok (list_ex (\<lambda>(_, l). li_state l = Established) (links M)))"

subsection \<open>Invariant\<close>

definition manager_ok :: "link_manager \<Rightarrow> bool" where
  "manager_ok M \<longleftrightarrow>
     hm_wf (links M) \<and> length (links M) \<le> MAX_PENDING_LINKS \<and> link_ok (crypto M)
   \<and> (\<forall>a l. map_of (links M) a = Some l \<longrightarrow> remote_destination l = a \<and> li_state l \<noteq> Closed)"

lemma manager_ok_new: "manager_ok new_link_manager"
  by (simp add: manager_ok_def new_link_manager_def link_ok_new)

lemma manager_ok_crypto: "manager_ok M \<Longrightarrow> link_ok C \<Longrightarrow> manager_ok (M\<lparr>crypto := C\<rparr>)"
  by (simp add: manager_ok_def)

lemma manager_ok_put:
  assumes "manager_ok M" "link_ok C" "remote_destination l = a" "li_state l \<noteq> Closed"
    "map_of (links M) a \<noteq> None \<or> length (links M) < MAX_PENDING_LINKS"
  shows "manager_ok (M\<lparr>links := hm_put a l (links M), crypto := C\<rparr>)"
  using assms hm.put_within_cap [of "links M" MAX_PENDING_LINKS a l] by (auto simp: manager_ok_def)

lemma fresh_link_sel [simp]: "remote_destination (fresh_link a s n) = a" "li_state (fresh_link a s n) = s"
  by (simp_all add: fresh_link_def)

lemma request_link_from_ok:
  assumes "manager_ok M"
  shows "manager_ok (snd (request_link_from P d now s a M))"
proof -
  obtain r C where hs: "begin_handshake P d now (link_peer_id P a) (link_context P a) (crypto M) = (r, C)"
    by fastforce
  have C: "link_ok C"
    using begin_handshake_ok [of "crypto M" P d now "link_peer_id P a" "link_context P a"] assms
    by (simp add: hs manager_ok_def)
  show ?thesis
    using assms C manager_ok_put [OF assms C, of "fresh_link a Pending now" a]
    by (cases r) (auto simp: request_link_from_def hs Let_def manager_ok_crypto)
qed

lemma handle_link_request_ok:
  assumes "manager_ok M"
  shows "manager_ok (snd (handle_link_request_with_own_dest P d now od from req M))"
proof (cases "parse_link_request from req")
  case (Ok ap)
  obtain a pk where ap: "ap = (a, pk)" by (cases ap)
  obtain r C where hs: "accept_handshake_pk P d now (link_peer_id P a) (link_context P a) pk (crypto M) = (r, C)"
    by fastforce
  have C: "link_ok C"
    using accept_handshake_pk_ok [of "crypto M" P d now "link_peer_id P a" "link_context P a" pk] assms
    by (simp add: hs manager_ok_def)
  show ?thesis
    using assms C manager_ok_put [OF assms C, of "fresh_link a Established now" a]
    by (cases r) (auto simp: handle_link_request_with_own_dest_def Ok ap hs Let_def manager_ok_crypto)
qed (simp_all add: handle_link_request_with_own_dest_def assms)

lemma handle_link_proof_ok:
  assumes "manager_ok M"
  shows "manager_ok (snd (handle_link_proof P now from pf M))"
proof (cases "parse_link_proof from pf M")
  case (Ok ap)
  obtain a pk where ap: "ap = (a, pk)" by (cases ap)
  obtain r C where hs: "complete_handshake now (link_peer_id P a) pk (crypto M) = (r, C)" by fastforce
  have C: "link_ok C"
    using complete_handshake_ok [of "crypto M" now "link_peer_id P a" pk] assms by (simp add: hs manager_ok_def)
  have "manager_ok (M\<lparr>links := hm_put a (l\<lparr>li_state := Established, last_activity := now\<rparr>) (links M), crypto := C\<rparr>)"
    if "map_of (links M) a = Some l" for l
    using assms that by (intro manager_ok_put [OF assms C]) (auto simp: manager_ok_def)
  then show ?thesis
    using assms C by (cases r) (auto simp: handle_link_proof_def Ok ap hs manager_ok_crypto split: option.split)
qed (simp_all add: handle_link_proof_def assms)

lemma encrypt_for_link_ok: "manager_ok M \<Longrightarrow> manager_ok (snd (encrypt_for_link P js d now dest data M))"
  using link_encrypt_ok [of "crypto M" P js d now "link_peer_id P dest" data]
  by (auto simp: encrypt_for_link_def manager_ok_def split: prod.split)

lemma decrypt_from_link_ok: "manager_ok M \<Longrightarrow> manager_ok (snd (decrypt_from_link P js d now dest data M))"
  using link_decrypt_ok [of "crypto M" P js d now "link_peer_id P dest" data]
  by (auto simp: decrypt_from_link_def manager_ok_def split: prod.split)

lemma update_activity_ok: "manager_ok M \<Longrightarrow> manager_ok (update_activity now dest M)"
proof (cases "map_of (links M) dest")
  case (Some l)
  assume "manager_ok M"
  then have "manager_ok (M\<lparr>links := hm_put dest (l\<lparr>last_activity := now\<rparr>) (links M), crypto := crypto M\<rparr>)"
    using Some by (intro manager_ok_put) (auto simp: manager_ok_def)
  then show ?thesis by (simp add: update_activity_def Some)
qed (simp add: update_activity_def)

lemma close_link_ok: "manager_ok M \<Longrightarrow> manager_ok (close_link P dest M)"
  using hm.del_within_cap [of "links M" MAX_PENDING_LINKS dest]
  by (auto simp: close_link_def manager_ok_def remove_session_ok)

lemma fold_remove_ok: "link_ok C \<Longrightarrow> link_ok (fold (\<lambda>(dest, _) c. remove_session (f dest) c) xs C)"
  by (induction xs arbitrary: C) (auto simp: remove_session_ok)

lemma prune_stale_links_ok: "manager_ok M \<Longrightarrow> manager_ok (snd (prune_stale_links P now M))"
  using hm.keep_within_cap [of "links M" MAX_PENDING_LINKS "\<lambda>_ l. \<not> stale now l"]
    hm.keep_all_entries [of "links M" "\<lambda>a l. remote_destination l = a \<and> li_state l \<noteq> Closed"]
  by (auto simp: prune_stale_links_def Let_def manager_ok_def fold_remove_ok)

text \<open>The manager as a machine: every public operation is a step.\<close>

inductive manager_step :: "prims \<Rightarrow> serde \<Rightarrow> link_manager \<Rightarrow> link_manager \<Rightarrow> bool" for P js where
  "manager_step P js M (snd (request_link_from P d now s a M))"
| "manager_step P js M (snd (handle_link_request_with_own_dest P d now od from req M))"
| "manager_step P js M (snd (handle_link_proof P now from pf M))"
| "manager_step P js M (snd (encrypt_for_link P js d now dest data M))"
| "manager_step P js M (snd (decrypt_from_link P js d now dest data M))"
| "manager_step P js M (update_activity now dest M)"
| "manager_step P js M (close_link P dest M)"
| "manager_step P js M (snd (prune_stale_links P now M))"

inductive_cases manager_stepE: "manager_step P js M M'"

lemmas manager_op_ok = request_link_from_ok handle_link_request_ok handle_link_proof_ok encrypt_for_link_ok
  decrypt_from_link_ok update_activity_ok close_link_ok prune_stale_links_ok

interpretation manager: safe_machine "\<lambda>M. M = new_link_manager" "manager_step P js" manager_ok for P js
proof
  show "manager_ok s'" if "manager_ok s" "manager_step P js s s'" for s s'
    using that by (auto elim!: manager_stepE simp: manager_op_ok)
qed (simp add: manager_ok_new)

subsection \<open>The handshake over two managers\<close>

lemma hex_utf8: "is_hex s \<Longrightarrow> utf8_valid (bytes_of s)"
  by (simp add: ascii_hex utf8_valid_ascii)

lemma parse_link_request_sender:
  assumes "length a = 16" "is_hex pk" "pk \<noteq> ''''"
  shows "parse_link_request from (LINK_REQUEST_PQC_SENDER # a @ bytes_of pk) = Ok (a, pk)"
proof -
  have "0 < length pk" using assms(3) by simp
  with assms show ?thesis by (simp add: parse_link_request_def hex_utf8 drop_Cons')
qed

lemma parse_link_proof_sender:
  assumes "length b = 16" "is_hex pk" "pk \<noteq> ''''"
  shows "parse_link_proof from (PROOF_PQC_SENDER # b @ bytes_of pk) M = Ok (b, pk)"
proof -
  have "0 < length pk" using assms(3) by simp
  with assms show ?thesis by (simp add: parse_link_proof_def hex_utf8 drop_Cons')
qed

lemma request_link_from_Ok:
  assumes "request_link_from P d now (Some a) b M = (Ok req, M')" "draws_ok d" "kem_prims_ok P"
  obtains pk sk where "req = new_packet b LinkRequest (LINK_REQUEST_PQC_SENDER # a @ bytes_of pk)"
    "hybrid_pair P pk sk" "get_state (link_peer_id P b) (crypto M') = Ok (init_state '''' (link_context P b) sk pk)"
    "map_of (links M') b = Some (fresh_link b Pending now)"
proof -
  obtain r C where hs: "begin_handshake P d now (link_peer_id P b) (link_context P b) (crypto M) = (r, C)"
    by fastforce
  obtain pk where r: "r = Ok pk" "req = new_packet b LinkRequest (LINK_REQUEST_PQC_SENDER # a @ bytes_of pk)"
    and M': "M' = M\<lparr>links := hm_put b (fresh_link b Pending now) (links M), crypto := C\<rparr>"
    using assms(1) by (cases r) (auto simp: request_link_from_def hs Let_def split: if_splits)
  obtain L where "register_session P d now (link_peer_id P b) (link_context P b) '''' L = (Ok pk, C)"
    using hs r(1) by (auto simp: begin_handshake_def split: option.splits if_splits)
  with register_session_fresh [OF assms(2), of P now "link_peer_id P b" "link_context P b" "''''" L pk]
  obtain sk where "hybrid_pair P pk sk" "get_state (link_peer_id P b) C = Ok (init_state '''' (link_context P b) sk pk)"
    by auto
  with r(2) show thesis by (intro that [of pk sk]) (simp_all add: M')
qed

lemma handle_link_request_Ok:
  assumes "handle_link_request_with_own_dest P d now (Some b) from (LINK_REQUEST_PQC_SENDER # a @ bytes_of key) M = (Ok rsp, M')"
    and "draws_ok d" "length a = 16" "is_hex key" "key \<noteq> ''''"
  obtains pk sk where "rsp = new_packet a Proof (PROOF_PQC_SENDER # b @ bytes_of pk)"
    "hybrid_pair P pk sk" "get_state (link_peer_id P a) (crypto M') = Ok (init_state key (link_context P a) sk pk)"
    "map_of (links M') a = Some (fresh_link a Established now)"
proof -
  obtain r C where hs: "accept_handshake_pk P d now (link_peer_id P a) (link_context P a) key (crypto M) = (r, C)"
    by fastforce
  obtain pk where r: "r = Ok pk" "rsp = new_packet a Proof (PROOF_PQC_SENDER # b @ bytes_of pk)"
    and M': "M' = M\<lparr>links := hm_put a (fresh_link a Established now) (links M), crypto := C\<rparr>"
    using assms(1) parse_link_request_sender [OF assms(3-5), of "from"]
    by (cases r) (auto simp: handle_link_request_with_own_dest_def hs Let_def split: if_splits)
  have "register_session P d now (link_peer_id P a) (link_context P a) key (crypto M) = (Ok pk, C)"
    using hs r(1) by (auto simp: accept_handshake_pk_def split: if_splits)
  with register_session_fresh [OF assms(2), of P now "link_peer_id P a" "link_context P a" key "crypto M" pk]
  obtain sk where "hybrid_pair P pk sk" "get_state (link_peer_id P a) C = Ok (init_state key (link_context P a) sk pk)"
    by auto
  with r(2) show thesis by (intro that [of pk sk]) (simp_all add: M')
qed

lemma manager_handshake:
  assumes P: "kem_prims_ok P" and d: "draws_ok d" "draws_ok d'" and ab: "length a = 16" "length b = 16"
    and req: "request_link_from P d n1 (Some a) b MA = (Ok req, MA1)"
    and rsp: "handle_link_request_with_own_dest P d' n2 (Some b) x (payload req) MB = (Ok rsp, MB1)"
  shows "\<exists>MA2 skA pkA skB pkB. handle_link_proof P n3 y (payload rsp) MA1 = (Ok (), MA2)
    \<and> destination req = b \<and> destination rsp = a
    \<and> map_option li_state (get_link_info b MA2) = Some Established
    \<and> map_option li_state (get_link_info a MB1) = Some Established
    \<and> hybrid_pair P pkA skA \<and> hybrid_pair P pkB skB
    \<and> get_state (link_peer_id P b) (crypto MA2) = Ok (init_state pkB (link_context P b) skA pkA)
    \<and> get_state (link_peer_id P a) (crypto MB1) = Ok (init_state pkA (link_context P a) skB pkB)"
proof -
  obtain pkA skA where A: "req = new_packet b LinkRequest (LINK_REQUEST_PQC_SENDER # a @ bytes_of pkA)"
    "hybrid_pair P pkA skA" "get_state (link_peer_id P b) (crypto MA1) = Ok (init_state '''' (link_context P b) skA pkA)"
    "map_of (links MA1) b = Some (fresh_link b Pending n1)"
    by (rule request_link_from_Ok [OF req d(1) P])
  note hexA = hybrid_pair_hex [OF P A(2)] hybrid_pair_neq_Nil [OF P A(2)]
  obtain pkB skB where B: "rsp = new_packet a Proof (PROOF_PQC_SENDER # b @ bytes_of pkB)"
    "hybrid_pair P pkB skB" "get_state (link_peer_id P a) (crypto MB1) = Ok (init_state pkA (link_context P a) skB pkB)"
    "map_of (links MB1) a = Some (fresh_link a Established n2)"
    using rsp by (rule_tac handle_link_request_Ok [OF _ d(2) ab(1) hexA]) (simp_all add: A(1) new_packet_def)
  note hexB = hybrid_pair_hex [OF P B(2)] hybrid_pair_neq_Nil [OF P B(2)]
  have "complete_handshake n3 (link_peer_id P b) pkB (crypto MA1)
      = (Ok (), put_state n3 (link_peer_id P b) (init_state pkB (link_context P b) skA pkA) (crypto MA1))"
    using hexB by (simp add: complete_handshake_def A(3) trim_hex init_state_def)
  then have "handle_link_proof P n3 y (payload rsp) MA1
      = (Ok (), MA1\<lparr>links := hm_put b ((fresh_link b Pending n1)\<lparr>li_state := Established, last_activity := n3\<rparr>) (links MA1),
           crypto := put_state n3 (link_peer_id P b) (init_state pkB (link_context P b) skA pkA) (crypto MA1)\<rparr>)"
    using parse_link_proof_sender [OF ab(2) hexB] A(4) by (simp add: handle_link_proof_def B(1) new_packet_def)
  with A B show ?thesis by (simp add: new_packet_def get_link_info_def) blast
qed

text \<open>The two ends of a link derive their keys in the contexts of the respective remote address.\<close>

lemma link_context_inj:
  assumes "hex_prims_ok P" shows "link_context P a = link_context P b \<longleftrightarrow> a = b"
proof
  assume "link_context P a = link_context P b"
  then have "p_hex_decode P (p_hex_encode P a) = p_hex_decode P (p_hex_encode P b)" by (simp add: link_context_def)
  then show "a = b" by (simp add: hex_decode_encode [OF assms])
qed simp

end
