(* ===== verification/PrivateIp.thy ===== *)
theory PrivateIp
  imports Prelude
begin

section \<open>Private address space (common-core/src/url.rs)\<close>

text \<open>
  The classification of IP addresses that guards the mesh socket and outbound requests. An IPv4 address
  is its four octets, an IPv6 address its eight 16-bit segments, as the standard library exposes
  them. Shown here: the IPv4 test is membership in a list of CIDR blocks, and an IPv6 address that embeds
  an IPv4 address is judged by it.
\<close>

unbundle bit_operations_syntax

datatype ip_addr = V4 byte byte byte byte | V6 "16 word" "16 word" "16 word" "16 word" "16 word" "16 word" "16 word" "16 word"

definition is_private_ipv4 :: "byte \<Rightarrow> byte \<Rightarrow> byte \<Rightarrow> byte \<Rightarrow> bool" where
  "is_private_ipv4 o0 o1 o2 o3 \<longleftrightarrow>
     o0 = 0 \<or> o0 = 10 \<or> o0 = 127
   \<or> o0 = 169 \<and> o1 = 254
   \<or> o0 = 172 \<and> 16 \<le> o1 \<and> o1 \<le> 31
   \<or> o0 = 192 \<and> o1 = 168
   \<or> o0 = 100 \<and> 64 \<le> o1 \<and> o1 \<le> 127
   \<or> o0 = 198 \<and> (o1 = 18 \<or> o1 = 19)
   \<or> o0 \<ge> 240
   \<or> 224 \<le> o0 \<and> o0 \<le> 239"

text \<open>The octets of a pair of segments: \<open>((s >> 8) & 0xff) as u8\<close> and \<open>(s & 0xff) as u8\<close>.\<close>

definition hi8 :: "16 word \<Rightarrow> byte" where "hi8 s = ucast (drop_bit 8 s AND 0xff)"
definition lo8 :: "16 word \<Rightarrow> byte" where "lo8 s = ucast (s AND 0xff)"

definition embedded_private :: "16 word \<Rightarrow> 16 word \<Rightarrow> bool" where
  "embedded_private s t = is_private_ipv4 (hi8 s) (lo8 s) (hi8 t) (lo8 t)"

text \<open>\<open>to_ipv4_mapped\<close>: \<open>::ffff:a.b.c.d\<close>.\<close>

fun is_v4_mapped :: "ip_addr \<Rightarrow> bool" where
  "is_v4_mapped (V6 s0 s1 s2 s3 s4 s5 s6 s7) =
     (s0 = 0 \<and> s1 = 0 \<and> s2 = 0 \<and> s3 = 0 \<and> s4 = 0 \<and> s5 = 0xffff)"
| "is_v4_mapped (V4 _ _ _ _) = False"

definition is_private_ipv6 ::
  "16 word \<Rightarrow> 16 word \<Rightarrow> 16 word \<Rightarrow> 16 word \<Rightarrow> 16 word \<Rightarrow> 16 word \<Rightarrow> 16 word \<Rightarrow> 16 word \<Rightarrow> bool" where
  "is_private_ipv6 s0 s1 s2 s3 s4 s5 s6 s7 =
     (if s0 = 0 \<and> s1 = 0 \<and> s2 = 0 \<and> s3 = 0 \<and> s4 = 0 \<and> s5 = 0 \<and> s6 = 0 \<and> (s7 = 0 \<or> s7 = 1)
         \<or> s0 AND 0xff00 = 0xff00 then True
      else if s0 AND 0xffc0 = 0xfe80 then True
      else if s0 AND 0xfe00 = 0xfc00 then True
      else if is_v4_mapped (V6 s0 s1 s2 s3 s4 s5 s6 s7) then embedded_private s6 s7
      else if s0 = 0 \<and> s1 = 0 \<and> s2 = 0 \<and> s3 = 0 \<and> s4 = 0xffff \<and> s5 = 0 then embedded_private s6 s7
      else if s0 = 0x64 \<and> s1 = 0xff9b \<and> (s2 = 0 \<or> s2 = 1) \<and> s3 = 0 \<and> s4 = 0 \<and> s5 = 0 then embedded_private s6 s7
      else if s0 = 0x2001 \<and> s1 = 0 then True
      else if s0 = 0x2002 then embedded_private s1 s2
      else if s0 = 0 \<and> s1 = 0 \<and> s2 = 0 \<and> s3 = 0 \<and> s4 = 0 \<and> s5 = 0 then embedded_private s6 s7
      else False)"

fun is_private_ip :: "ip_addr \<Rightarrow> bool" where
  "is_private_ip (V4 o0 o1 o2 o3) = is_private_ipv4 o0 o1 o2 o3"
| "is_private_ip (V6 s0 s1 s2 s3 s4 s5 s6 s7) =
     (if is_v4_mapped (V6 s0 s1 s2 s3 s4 s5 s6 s7) then embedded_private s6 s7
      else is_private_ipv6 s0 s1 s2 s3 s4 s5 s6 s7)"

subsection \<open>The reference: CIDR blocks\<close>

definition v4_num :: "byte \<Rightarrow> byte \<Rightarrow> byte \<Rightarrow> byte \<Rightarrow> nat" where
  "v4_num o0 o1 o2 o3 = ((unat o0 * 256 + unat o1) * 256 + unat o2) * 256 + unat o3"

text \<open>A block is its base octets and its prefix length.\<close>

definition in_cidr :: "nat \<Rightarrow> (byte \<times> byte) \<times> nat \<Rightarrow> bool" where
  "in_cidr n blk = (case blk of ((b0, b1), len) \<Rightarrow> n div 2 ^ (32 - len) = v4_num b0 b1 0 0 div 2 ^ (32 - len))"

definition private_blocks :: "((byte \<times> byte) \<times> nat) list" where
  "private_blocks =
     [((0, 0), 8), ((10, 0), 8), ((127, 0), 8), ((169, 254), 16), ((172, 16), 12), ((192, 168), 16),
      ((100, 64), 10), ((198, 18), 15), ((224, 0), 4), ((240, 0), 4)]"

lemma v4_num_prefix:
  "v4_num o0 o1 o2 o3 div 2 ^ 24 = unat o0"
  "v4_num o0 o1 o2 o3 div 2 ^ 16 = unat o0 * 256 + unat o1"
proof -
  have b: "unat o1 \<le> 255" "unat o2 \<le> 255" "unat o3 \<le> 255" by (rule unat_byte_le)+
  then show "v4_num o0 o1 o2 o3 div 2 ^ 24 = unat o0"
    "v4_num o0 o1 o2 o3 div 2 ^ 16 = unat o0 * 256 + unat o1" by (simp_all add: v4_num_def)
qed

lemma byte_eq_unat: "unat a = unat b \<longleftrightarrow> a = (b :: byte)"
  by (auto intro: unsigned_word_eqI)

lemma cidr8: "in_cidr (v4_num o0 o1 o2 o3) ((b0, b1), 8) \<longleftrightarrow> o0 = b0"
  using v4_num_prefix(1) [of o0 o1 o2 o3] v4_num_prefix(1) [of b0 b1 0 0] by (simp add: in_cidr_def byte_eq_unat)

lemma digits_eq:
  fixes a c m x y :: nat
  assumes "x < m" "y < m"
  shows "a * m + x = c * m + y \<longleftrightarrow> a = c \<and> x = y"
proof
  assume eq: "a * m + x = c * m + y"
  have "(a * m + x) div m = a" "(c * m + y) div m = c" "(a * m + x) mod m = x" "(c * m + y) mod m = y"
    using assms by simp_all
  with eq show "a = c \<and> x = y" by metis
qed simp

lemma octet_div: "(a * 256 + b) div 2 ^ k = a * 2 ^ (8 - k) + b div 2 ^ k" if "k \<le> 8" for a b k :: nat
proof -
  have "a * 256 = a * 2 ^ (8 - k) * 2 ^ k" using that by (simp add: power_add [symmetric] mult.assoc)
  then show ?thesis by (simp only: div_mult_self3 [OF power_not_zero])
qed

lemma cidr16: "in_cidr (v4_num o0 o1 o2 o3) ((b0, b1), 16) \<longleftrightarrow> o0 = b0 \<and> o1 = b1"
proof -
  have "unat o1 < 256" "unat b1 < 256" using unat_byte_le [of o1] unat_byte_le [of b1] by simp_all
  from digits_eq [OF this, of "unat o0" "unat b0"] show ?thesis
    using v4_num_prefix(2) [of o0 o1 o2 o3] v4_num_prefix(2) [of b0 b1 0 0] by (simp add: in_cidr_def byte_eq_unat)
qed

lemma cidr_low:
  assumes "k \<le> 8"
  shows "in_cidr (v4_num o0 o1 o2 o3) ((b0, b1), 16 - k) \<longleftrightarrow>
    (unat o0 * 256 + unat o1) div 2 ^ k = (unat b0 * 256 + unat b1) div 2 ^ k"
proof -
  have k: "32 - (16 - k) = 16 + k" using assms by simp
  have "n div 2 ^ (32 - (16 - k)) = n div 2 ^ 16 div 2 ^ k" for n :: nat
    unfolding k power_add by (rule div_mult2_eq)
  then show ?thesis
    using v4_num_prefix(2) [of o0 o1 o2 o3] v4_num_prefix(2) [of b0 b1 0 0]
    by (simp only: in_cidr_def prod.case)
qed

lemma cidr4: "in_cidr (v4_num o0 o1 o2 o3) ((b0, b1), 4) \<longleftrightarrow> unat o0 div 16 = unat b0 div 16"
proof -
  have "n div 2 ^ (32 - 4) = n div 2 ^ 24 div 16" for n :: nat by (simp add: div_mult2_eq [symmetric])
  then show ?thesis
    using v4_num_prefix(1) [of o0 o1 o2 o3] v4_num_prefix(1) [of b0 b1 0 0]
    by (simp only: in_cidr_def prod.case)
qed

text \<open>The three blocks whose boundary lies inside the second octet.\<close>

lemma cidr12: "in_cidr (v4_num o0 o1 o2 o3) ((172, 16), 12) \<longleftrightarrow> o0 = 172 \<and> 16 \<le> o1 \<and> o1 \<le> 31"
proof -
  have "unat o1 div 16 < 16" using unat_byte_le [of o1] by simp
  from digits_eq [OF this, of 1 "unat o0" 172]
  have "unat o0 * 16 + unat o1 div 16 = 2753 \<longleftrightarrow> unat o0 = 172 \<and> unat o1 div 16 = 1" by simp
  moreover have "unat o1 div 16 = 1 \<longleftrightarrow> 16 \<le> unat o1 \<and> unat o1 \<le> 31" by arith
  ultimately show ?thesis
    using cidr_low [of 4 o0 o1 o2 o3 172 16] octet_div [of 4]
    by (simp add: word_le_nat_alt flip: byte_eq_unat)
qed

lemma cidr10: "in_cidr (v4_num o0 o1 o2 o3) ((100, 64), 10) \<longleftrightarrow> o0 = 100 \<and> 64 \<le> o1 \<and> o1 \<le> 127"
proof -
  have "unat o1 div 64 < 4" using unat_byte_le [of o1] by simp
  from digits_eq [OF this, of 1 "unat o0" 100]
  have "unat o0 * 4 + unat o1 div 64 = 401 \<longleftrightarrow> unat o0 = 100 \<and> unat o1 div 64 = 1" by simp
  moreover have "unat o1 div 64 = 1 \<longleftrightarrow> 64 \<le> unat o1 \<and> unat o1 \<le> 127" by arith
  ultimately show ?thesis
    using cidr_low [of 6 o0 o1 o2 o3 100 64] octet_div [of 6]
    by (simp add: word_le_nat_alt flip: byte_eq_unat)
qed

lemma cidr15: "in_cidr (v4_num o0 o1 o2 o3) ((198, 18), 15) \<longleftrightarrow> o0 = 198 \<and> (o1 = 18 \<or> o1 = 19)"
proof -
  have "unat o1 div 2 < 128" using unat_byte_le [of o1] by simp
  from digits_eq [OF this, of 9 "unat o0" 198]
  have "unat o0 * 128 + unat o1 div 2 = 25353 \<longleftrightarrow> unat o0 = 198 \<and> unat o1 div 2 = 9" by simp
  moreover have "unat o1 div 2 = 9 \<longleftrightarrow> unat o1 = 18 \<or> unat o1 = 19" by arith
  ultimately show ?thesis
    using cidr_low [of 1 o0 o1 o2 o3 198 18] octet_div [of 1]
    by (simp flip: byte_eq_unat)
qed

lemma cidr_top:
  "in_cidr (v4_num o0 o1 o2 o3) ((224, 0), 4) \<longleftrightarrow> 224 \<le> o0 \<and> o0 \<le> 239"
  "in_cidr (v4_num o0 o1 o2 o3) ((240, 0), 4) \<longleftrightarrow> 240 \<le> o0"
proof -
  have "unat o0 div 16 = 14 \<longleftrightarrow> 224 \<le> unat o0 \<and> unat o0 \<le> 239" by arith
  then show "in_cidr (v4_num o0 o1 o2 o3) ((224, 0), 4) \<longleftrightarrow> 224 \<le> o0 \<and> o0 \<le> 239"
    by (simp add: cidr4 word_le_nat_alt)
  have "unat o0 div 16 = 15 \<longleftrightarrow> 240 \<le> unat o0" using unat_byte_le [of o0] by arith
  then show "in_cidr (v4_num o0 o1 o2 o3) ((240, 0), 4) \<longleftrightarrow> 240 \<le> o0"
    by (simp add: cidr4 word_le_nat_alt)
qed

lemma private_ipv4_blocks:
  "is_private_ipv4 o0 o1 o2 o3 \<longleftrightarrow> list_ex (in_cidr (v4_num o0 o1 o2 o3)) private_blocks"
  by (auto simp: is_private_ipv4_def private_blocks_def cidr8 cidr16 cidr12 cidr10 cidr15 cidr_top)


text \<open>The address filter of the transport. The IPv4 test accepts exactly the addresses of the reserved blocks
  (unspecified, loopback, link-local, private, shared, benchmarking, multicast and reserved ranges), written as CIDR blocks.\<close>

theorem private_ipv4_is_cidr_union:
  "is_private_ip (V4 o0 o1 o2 o3) \<longleftrightarrow> list_ex (in_cidr (v4_num o0 o1 o2 o3)) private_blocks"
  using private_ipv4_blocks by simp

end
