(* ===== verification/Node.thy ===== *)
theory Node
  imports Slip Routing Link PrivateIp
begin

section \<open>The mesh node (mesh-core/src/reticulum/transport.rs)\<close>

text \<open>
  The coordinator of a node: the datagram handler of the transport thread with deduplication,
  local delivery, forwarding, route learning and link handling; the send operations; start and stop; the
  process-wide registry. A socket address is its IP address and port; what the standard library prints
  for it and the BLAKE3 digest are the record \<open>env\<close>. The UDP socket is the list of datagrams an operation
  sends. Counters are \<open>u64\<close> with checked increments.

  The transport thread is \<open>transport_loop\<close> with fuel (the number of iterations watched): the loop runs
  until it reads \<open>running = false\<close>, and \<open>join\<close> waits for it.
\<close>

definition MAX_PEERS :: nat where "MAX_PEERS = 4096"
definition MAX_SEEN_DATA :: nat where "MAX_SEEN_DATA = 4096"
definition MAX_DELIVERED :: nat where "MAX_DELIVERED = 4096"
definition MAX_DATA_PAYLOAD :: nat where "MAX_DATA_PAYLOAD = 262144"
definition ROUTE_PRUNE_INTERVAL_SECS :: nat where "ROUTE_PRUNE_INTERVAL_SECS = 10"
definition RECV_BUFFER :: nat where "RECV_BUFFER = 2048"

type_synonym sockaddr = "ip_addr \<times> nat"

record env =
  sockaddr_string :: "sockaddr \<Rightarrow> string"
  blake3_hex :: "byte list \<Rightarrow> string"

record node =
  nd_destination :: address
  path_table :: path_table
  interfaces :: "interface_status list"
  rx_count :: nat
  tx_count :: nat
  running :: bool
  nd_links :: link_manager
  peers :: "sockaddr list"
  delivered :: "byte list list"
  seen_data :: "string list"
  udp_socket :: bool
  transport_thread :: bool
  auto_interface :: bool
  tcp_server :: bool

record node_status =
  ns_running :: bool
  ns_destination_hash :: string
  ns_active_routes :: nat
  ns_rx_packets :: nat
  ns_tx_packets :: nat
  ns_interfaces :: "interface_status list"

type_synonym sent = "(sockaddr \<times> byte list) list"

definition new_node :: "prims \<Rightarrow> string \<Rightarrow> node" where
  "new_node P pubkey =
     \<lparr>nd_destination = from_pubkey (p_sha256 P) pubkey, path_table = new_path_table,
      interfaces = [new_udp ''0.0.0.0:4242'' True], rx_count = 0, tx_count = 0, running = True,
      nd_links = new_link_manager, peers = [], delivered = [], seen_data = [], udp_socket = False,
      transport_thread = False, auto_interface = False, tcp_server = False\<rparr>"

subsection \<open>Interface bookkeeping\<close>

text \<open>\<open>iter_mut().find(..)\<close>: update the first interface that satisfies the test.\<close>

fun update_first :: "('a \<Rightarrow> bool) \<Rightarrow> ('a \<Rightarrow> 'a res) \<Rightarrow> 'a list \<Rightarrow> 'a list res" where
  "update_first p f [] = Ok []"
| "update_first p f (x # xs) =
     (if p x then and_then (f x) (\<lambda>y. Ok (y # xs)) else and_then (update_first p f xs) (\<lambda>ys. Ok (x # ys)))"

definition is_udp_unicast :: "interface_status \<Rightarrow> bool" where
  "is_udp_unicast i \<longleftrightarrow> kind i = UdpUnicast"

definition count_rx :: "node \<Rightarrow> node res" where
  "count_rx nd = and_then (update_first is_udp_unicast
       (\<lambda>i. and_then (add_u64 (rx_packets i) 1) (\<lambda>n. Ok (i\<lparr>rx_packets := n\<rparr>))) (interfaces nd)) (\<lambda>ifs.
     Ok (nd\<lparr>interfaces := ifs\<rparr>))"

definition count_tx :: "node \<Rightarrow> node res" where
  "count_tx nd = and_then (update_first is_udp_unicast
       (\<lambda>i. and_then (add_u64 (tx_packets i) 1) (\<lambda>n. Ok (i\<lparr>tx_packets := n\<rparr>))) (interfaces nd)) (\<lambda>ifs.
     Ok (nd\<lparr>interfaces := ifs\<rparr>))"

definition set_interface :: "interface_status \<Rightarrow> interface_status list \<Rightarrow> interface_status list" where
  "set_interface status ifs =
     (if list_ex (\<lambda>i. iname i = iname status) ifs
      then (case update_first (\<lambda>i. iname i = iname status) (\<lambda>_. Ok status) ifs of Ok ifs' \<Rightarrow> ifs' | _ \<Rightarrow> ifs)
      else ifs @ [status])"

text \<open>Starting the discovery and TCP interfaces: \<open>started\<close> is the outcome of the interface's own start
  and its status.\<close>

definition start_auto_interface :: "interface_status res \<Rightarrow> node \<Rightarrow> unit res \<times> node" where
  "start_auto_interface started nd =
     (case started of
        Ok status \<Rightarrow> (Ok (), nd\<lparr>auto_interface := True, interfaces := set_interface status (interfaces nd)\<rparr>)
      | Err e \<Rightarrow> (Err e, nd\<lparr>auto_interface := False\<rparr>)
      | Panic \<Rightarrow> (Panic, nd))"

definition start_tcp_server :: "interface_status res \<Rightarrow> node \<Rightarrow> unit res \<times> node" where
  "start_tcp_server started nd =
     (case started of
        Ok status \<Rightarrow> (Ok (), nd\<lparr>tcp_server := True, interfaces := set_interface status (interfaces nd)\<rparr>)
      | Err e \<Rightarrow> (Err e, nd\<lparr>tcp_server := False\<rparr>)
      | Panic \<Rightarrow> (Panic, nd))"

subsection \<open>The datagram handler\<close>

definition remember :: "string \<Rightarrow> node \<Rightarrow> node" where
  "remember digest nd = nd\<lparr>seen_data := push_capped MAX_SEEN_DATA digest (seen_data nd)\<rparr>"

definition deliver_local :: "byte list \<Rightarrow> node \<Rightarrow> node" where
  "deliver_local pl nd = nd\<lparr>delivered := push_capped MAX_DELIVERED pl (delivered nd)\<rparr>"

definition note_peer :: "sockaddr \<Rightarrow> node \<Rightarrow> node" where
  "note_peer src nd = (if length (peers nd) < MAX_PEERS then nd\<lparr>peers := hs_insert src (peers nd)\<rparr> else nd)"

text \<open>The datagrams of a re-broadcast: the packet one hop on, to every known peer but its source.\<close>

definition rebroadcast :: "packet \<Rightarrow> sockaddr \<Rightarrow> node \<Rightarrow> sent" where
  "rebroadcast pkt src nd =
     (if unat (hops pkt) < MAX_HOPS then
        let fwd = snd (increment_hops_in_place pkt); fwd_bytes = slip_encode (to_bytes fwd)
        in map (\<lambda>p. (p, fwd_bytes)) (filter (\<lambda>p. p \<noteq> src) (peers nd))
      else [])"

definition handle_data :: "env \<Rightarrow> sockaddr \<Rightarrow> packet \<Rightarrow> node \<Rightarrow> node \<times> sent" where
  "handle_data E src pkt nd =
     (if ptype pkt = Data \<and> length (payload pkt) \<le> MAX_DATA_PAYLOAD then
        let digest = blake3_hex E (payload pkt) in
        if digest \<in> set (seen_data nd) then (nd, [])
        else
          let nd1 = remember digest nd;
              nd2 = (if is_broadcast (destination pkt) \<or> destination pkt = nd_destination nd
                     then deliver_local (payload pkt) nd1 else nd1)
          in (nd2, rebroadcast pkt src nd2)
      else (nd, []))"

definition handle_announce :: "prims \<Rightarrow> env \<Rightarrow> nat \<Rightarrow> sockaddr \<Rightarrow> packet \<Rightarrow> node \<Rightarrow> (node \<times> sent) res" where
  "handle_announce P E now src pkt nd =
     (let nhop = (if hops pkt = 0 then destination pkt
                  else from_aspect (p_sha256 P) ''reticulum.peer'' (sockaddr_string E src)) in
      and_then (update_route (destination pkt) nhop (hops pkt) now (path_table nd)) (\<lambda>(_, table).
      let nd1 = nd\<lparr>path_table := table\<rparr>; digest = blake3_hex E (to_bytes pkt) in
      if digest \<in> set (seen_data nd1) then Ok (nd1, [])
      else let nd2 = remember digest nd1 in Ok (nd2, rebroadcast pkt src nd2)))"

definition handle_link_request_packet ::
  "prims \<Rightarrow> env \<Rightarrow> draws \<Rightarrow> nat \<Rightarrow> sockaddr \<Rightarrow> packet \<Rightarrow> node \<Rightarrow> (node \<times> sent) res" where
  "handle_link_request_packet P E d now src pkt nd =
     (if destination pkt = nd_destination nd then
        let sender_dest = (if length (payload pkt) > 17 \<and> payload pkt ! 0 = LINK_REQUEST_PQC_SENDER
                           then take 16 (drop 1 (payload pkt))
                           else from_aspect (p_sha256 P) ''reticulum.peer'' (sockaddr_string E src)) in
        (case handle_link_request_with_own_dest P d now (Some (nd_destination nd)) sender_dest (payload pkt) (nd_links nd) of
           (Ok proof_pkt, M) \<Rightarrow> Ok (nd\<lparr>nd_links := M\<rparr>, [(src, slip_encode (to_bytes proof_pkt))])
         | (Err _, M) \<Rightarrow> Ok (nd\<lparr>nd_links := M\<rparr>, [])
         | (Panic, M) \<Rightarrow> Panic)
      else Ok (nd, rebroadcast pkt src nd))"

definition handle_proof_packet ::
  "prims \<Rightarrow> nat \<Rightarrow> sockaddr \<Rightarrow> packet \<Rightarrow> node \<Rightarrow> (node \<times> sent) res" where
  "handle_proof_packet P now src pkt nd =
     (if destination pkt = nd_destination nd then
        (case handle_link_proof P now (destination pkt) (payload pkt) (nd_links nd) of
           (Panic, M) \<Rightarrow> Panic
         | (_, M) \<Rightarrow> Ok (nd\<lparr>nd_links := M\<rparr>, []))
      else Ok (nd, rebroadcast pkt src nd))"

definition handle_packet ::
  "prims \<Rightarrow> env \<Rightarrow> draws \<Rightarrow> nat \<Rightarrow> sockaddr \<Rightarrow> packet \<Rightarrow> node \<Rightarrow> (node \<times> sent) res" where
  "handle_packet P E d now src pkt nd =
     and_then (add_u64 (rx_count nd) 1) (\<lambda>rx.
     let nd1 = note_peer src (nd\<lparr>rx_count := rx\<rparr>) in
     case handle_data E src pkt nd1 of (nd2, out1) \<Rightarrow>
     and_then (case ptype pkt of
                 Data \<Rightarrow> Ok (nd2, [])
               | Announce \<Rightarrow> handle_announce P E now src pkt nd2
               | LinkRequest \<Rightarrow> handle_link_request_packet P E d now src pkt nd2
               | Proof \<Rightarrow> handle_proof_packet P now src pkt nd2) (\<lambda>(nd3, out2).
     let nd4 = nd3\<lparr>nd_links := update_activity now (destination pkt) (nd_links nd3)\<rparr> in
     and_then (count_rx nd4) (\<lambda>nd5. Ok (nd5, out1 @ out2))))"

text \<open>A datagram as \<open>recv_from\<close> hands it over: cut to the buffer.\<close>

definition handle_datagram ::
  "prims \<Rightarrow> env \<Rightarrow> draws \<Rightarrow> nat \<Rightarrow> sockaddr \<Rightarrow> byte list \<Rightarrow> node \<Rightarrow> (node \<times> sent) res" where
  "handle_datagram P E d now src dgram nd =
     (if \<not> is_private_ip (fst src) then Ok (nd, [])
      else case slip_decode (take RECV_BUFFER dgram) of
          Ok packet_data \<Rightarrow>
            (case from_bytes packet_data of
               Ok pkt \<Rightarrow> handle_packet P E d now src pkt nd
             | _ \<Rightarrow> Ok (nd, []))
        | _ \<Rightarrow> Ok (nd, []))"

subsection \<open>The transport thread\<close>

datatype recv_event = Datagram draws sockaddr "byte list" | Timeout | IoError

definition prune_routes :: "nat \<Rightarrow> nat \<Rightarrow> node \<Rightarrow> nat \<times> node" where
  "prune_routes now last_prune nd =
     (if now - last_prune \<ge> ROUTE_PRUNE_INTERVAL_SECS
      then (now, nd\<lparr>path_table := snd (prune_expired now (path_table nd))\<rparr>) else (last_prune, nd))"

definition thread_iteration ::
  "prims \<Rightarrow> env \<Rightarrow> nat \<Rightarrow> recv_event \<Rightarrow> nat \<Rightarrow> node \<Rightarrow> (nat \<times> node \<times> sent) res" where
  "thread_iteration P E now ev last_prune nd =
     (case prune_routes now last_prune nd of (last', nd1) \<Rightarrow>
        (case ev of
           Datagram d src dgram \<Rightarrow> and_then (handle_datagram P E d now src dgram nd1) (\<lambda>(nd2, out). Ok (last', nd2, out))
         | Timeout \<Rightarrow> Ok (last', nd1, [])
         | IoError \<Rightarrow> Ok (last', nd1, [])))"

text \<open>\<open>None\<close>: still inside the loop after the given events; \<open>Some\<close>: the thread ended.\<close>

fun transport_loop :: "prims \<Rightarrow> env \<Rightarrow> (nat \<times> recv_event) list \<Rightarrow> nat \<Rightarrow> node \<Rightarrow> node res option" where
  "transport_loop P E evs last_prune nd =
     (if \<not> running nd then Some (Ok nd)
      else case evs of
          [] \<Rightarrow> None
        | (now, ev) # rest \<Rightarrow>
            (case thread_iteration P E now ev last_prune nd of
               Ok (last', nd', _) \<Rightarrow> transport_loop P E rest last' nd'
             | Err e \<Rightarrow> Some (Err e)
             | Panic \<Rightarrow> Some Panic))"

declare transport_loop.simps [simp del]

text \<open>\<open>stop\<close>: join the thread, then stop the interfaces and drop the socket.\<close>

definition stop_node :: "prims \<Rightarrow> env \<Rightarrow> (nat \<times> recv_event) list \<Rightarrow> nat \<Rightarrow> node \<Rightarrow> node res option" where
  "stop_node P E evs last_prune nd =
     (case (if transport_thread nd then transport_loop P E evs last_prune nd else Some (Ok nd)) of
        None \<Rightarrow> None
      | Some r \<Rightarrow> Some (and_then r (\<lambda>nd1.
          Ok (nd1\<lparr>transport_thread := False, auto_interface := False, tcp_server := False, udp_socket := False\<rparr>))))"

definition start_udp_transport ::
  "prims \<Rightarrow> env \<Rightarrow> (nat \<times> recv_event) list \<Rightarrow> nat \<Rightarrow> bool \<Rightarrow> string \<Rightarrow> node \<Rightarrow> (unit res \<times> node) res option" where
  "start_udp_transport P E evs last_prune bound bind_addr nd =
     (case (if transport_thread nd then transport_loop P E evs last_prune (nd\<lparr>running := False\<rparr>) else Some (Ok nd)) of
        None \<Rightarrow> None
      | Some r \<Rightarrow> Some (and_then r (\<lambda>nd1.
          let nd2 = nd1\<lparr>running := True, transport_thread := False\<rparr> in
          if \<not> bound then Ok (Err ''UDP bind failed'', nd2)
          else and_then (update_first is_udp_unicast (\<lambda>i. Ok (i\<lparr>bind_address := bind_addr\<rparr>)) (interfaces nd2)) (\<lambda>ifs.
            Ok (Ok (), nd2\<lparr>udp_socket := True, transport_thread := True, interfaces := ifs\<rparr>)))))"

subsection \<open>Sending and status\<close>

text \<open>\<open>sent_ok\<close> is whether the kernel accepted the datagram.\<close>

definition send_packet :: "bool \<Rightarrow> sockaddr \<Rightarrow> packet \<Rightarrow> node \<Rightarrow> (unit res \<times> node \<times> sent) res" where
  "send_packet sent_ok dest_addr pkt nd =
     (if \<not> udp_socket nd then Ok (Err ''UDP transport not started'', nd, [])
      else if \<not> sent_ok then Ok (Err ''UDP send failed'', nd, [])
      else and_then (add_u64 (tx_count nd) 1) (\<lambda>tx.
        and_then (count_tx (nd\<lparr>tx_count := tx\<rparr>)) (\<lambda>nd'.
        Ok (Ok (), nd', [(dest_addr, slip_encode (to_bytes pkt))]))))"

fun send_each :: "(sockaddr \<Rightarrow> bool) \<Rightarrow> packet \<Rightarrow> sockaddr list \<Rightarrow> node \<Rightarrow> (node \<times> sent) res" where
  "send_each sent_ok pkt [] nd = Ok (nd, [])"
| "send_each sent_ok pkt (p # ps) nd =
     and_then (send_packet (sent_ok p) p pkt nd) (\<lambda>(_, nd1, out1).
     and_then (send_each sent_ok pkt ps nd1) (\<lambda>(nd2, out2). Ok (nd2, out1 @ out2)))"

text \<open>\<open>known_peers\<close>: the set, sorted; the order of \<open>SocketAddr\<close> is the argument \<open>before\<close>.\<close>

fun insert_sorted :: "('a \<Rightarrow> 'a \<Rightarrow> bool) \<Rightarrow> 'a \<Rightarrow> 'a list \<Rightarrow> 'a list" where
  "insert_sorted before x [] = [x]"
| "insert_sorted before x (y # ys) = (if before x y then x # y # ys else y # insert_sorted before x ys)"

definition known_peers :: "(sockaddr \<Rightarrow> sockaddr \<Rightarrow> bool) \<Rightarrow> node \<Rightarrow> sockaddr list" where
  "known_peers before nd = foldr (insert_sorted before) (peers nd) []"

definition peers_count :: "node \<Rightarrow> nat" where
  "peers_count nd = length (peers nd)"

definition broadcast_data ::
  "(sockaddr \<Rightarrow> sockaddr \<Rightarrow> bool) \<Rightarrow> (sockaddr \<Rightarrow> bool) \<Rightarrow> byte list \<Rightarrow> node \<Rightarrow> (nat \<times> node \<times> sent) res" where
  "broadcast_data before sent_ok pl nd =
     (if length pl > MAX_DATA_PAYLOAD then Ok (0, nd, [])
      else let known = known_peers before nd in
        if known = [] then Ok (0, nd, [])
        else and_then (send_each sent_ok (new_packet (replicate 16 0xff) Data pl) known nd) (\<lambda>(nd', out).
          Ok (length known, nd', out)))"

definition send_data_to :: "bool \<Rightarrow> sockaddr \<Rightarrow> byte list \<Rightarrow> node \<Rightarrow> (unit res \<times> node \<times> sent) res" where
  "send_data_to sent_ok peer pl nd =
     (if length pl > MAX_DATA_PAYLOAD then Ok (Err ''Data payload exceeds 256 KiB cap'', nd, [])
      else send_packet sent_ok peer (new_packet (nd_destination nd) Data pl) nd)"

definition drain_delivered :: "node \<Rightarrow> byte list list \<times> node" where
  "drain_delivered nd = (delivered nd, nd\<lparr>delivered := []\<rparr>)"

definition get_status :: "prims \<Rightarrow> node \<Rightarrow> node_status" where
  "get_status P nd =
     \<lparr>ns_running = running nd, ns_destination_hash = p_hex_encode P (nd_destination nd),
      ns_active_routes = path_len (path_table nd), ns_rx_packets = rx_count nd, ns_tx_packets = tx_count nd,
      ns_interfaces = interfaces nd\<rparr>"

definition create_announce :: "string option \<Rightarrow> node \<Rightarrow> (packet \<times> node) res" where
  "create_announce aspect nd =
     (let pl = nd_destination nd @ (case aspect of Some asp \<Rightarrow> bytes_of asp | None \<Rightarrow> []) in
      and_then (add_u64 (tx_count nd) 1) (\<lambda>tx. Ok (new_packet (nd_destination nd) Announce pl, nd\<lparr>tx_count := tx\<rparr>)))"

definition process_packet :: "prims \<Rightarrow> env \<Rightarrow> nat \<Rightarrow> packet \<Rightarrow> node \<Rightarrow> (packet option \<times> node) res" where
  "process_packet P E now pkt nd =
     and_then (add_u64 (rx_count nd) 1) (\<lambda>rx.
     let nd1 = nd\<lparr>rx_count := rx\<rparr> in
     and_then (if ptype pkt = Announce then
                 let nhop = (if hops pkt = 0 then destination pkt
                             else from_aspect (p_sha256 P) ''reticulum.peer'' (p_hex_encode P (destination pkt))) in
                 and_then (update_route (destination pkt) nhop (hops pkt) now (path_table nd1)) (\<lambda>(_, t).
                 Ok (nd1\<lparr>path_table := t\<rparr>))
               else Ok nd1) (\<lambda>nd2.
     if destination pkt \<noteq> nd_destination nd then
       (if ptype pkt = Data then
          (if length (payload pkt) > MAX_DATA_PAYLOAD then Ok (None, nd2)
           else let digest = blake3_hex E (payload pkt) in
             if digest \<in> set (seen_data nd2) then Ok (None, nd2)
             else Ok (increment_hops pkt, remember digest nd2))
        else Ok (increment_hops pkt, nd2))
     else Ok (None, nd2)))"

subsection \<open>The registry\<close>

type_synonym registry = "(string, node) hmap option"

definition node_for :: "prims \<Rightarrow> string \<Rightarrow> registry \<Rightarrow> node \<times> registry" where
  "node_for P pubkey reg =
     (let m = (case reg of None \<Rightarrow> [] | Some m \<Rightarrow> m) in
      case map_of m pubkey of
        Some nd \<Rightarrow> (nd, Some m)
      | None \<Rightarrow> (new_node P pubkey, Some (hm_put pubkey (new_node P pubkey) m)))"

definition any_node_running :: "registry \<Rightarrow> bool" where
  "any_node_running reg = (case reg of None \<Rightarrow> False | Some m \<Rightarrow> list_ex (\<lambda>(_, nd). running nd) m)"

definition any_node_status :: "prims \<Rightarrow> registry \<Rightarrow> node_status option" where
  "any_node_status P reg =
     (case reg of None \<Rightarrow> None
      | Some m \<Rightarrow> (case filter (\<lambda>(_, nd). running nd) m of [] \<Rightarrow> None | (_, nd) # _ \<Rightarrow> Some (get_status P nd)))"

definition prune_first_node :: "prims \<Rightarrow> nat option \<Rightarrow> nat \<Rightarrow> registry \<Rightarrow> nat option \<times> registry" where
  "prune_first_node P at clock reg =
     (case reg of None \<Rightarrow> (None, None)
      | Some m \<Rightarrow>
          (case filter (\<lambda>(_, nd). running nd) m of
             [] \<Rightarrow> (None, reg)
           | (k, nd) # _ \<Rightarrow>
               (case at of
                  Some now \<Rightarrow>
                    (case prune_expired now (path_table nd) of
                       (n, t) \<Rightarrow> (Some n, Some (hm_put k (nd\<lparr>path_table := t\<rparr>) m)))
                | None \<Rightarrow>
                    (case prune_stale_links P clock (nd_links nd) of
                       (n, M) \<Rightarrow> (Some n, Some (hm_put k (nd\<lparr>nd_links := M\<rparr>) m))))))"

text \<open>\<open>reset_nodes\<close> stops every node in turn (one list of events each), then clears the map.\<close>

fun stop_all :: "prims \<Rightarrow> env \<Rightarrow> ((nat \<times> recv_event) list) list \<Rightarrow> node list \<Rightarrow> unit option" where
  "stop_all P E evss [] = Some ()"
| "stop_all P E evss (nd # nds) =
     (case stop_node P E (case evss of [] \<Rightarrow> [] | e # _ \<Rightarrow> e) 0 nd of
        None \<Rightarrow> None
      | Some _ \<Rightarrow> stop_all P E (tl evss) nds)"

definition reset_nodes :: "prims \<Rightarrow> env \<Rightarrow> ((nat \<times> recv_event) list) list \<Rightarrow> registry \<Rightarrow> registry option" where
  "reset_nodes P E evss reg =
     (case stop_all P E evss (map snd (case reg of None \<Rightarrow> [] | Some m \<Rightarrow> m)) of
        None \<Rightarrow> None | Some _ \<Rightarrow> Some (Some []))"

end
