(* ===== verification/Node_Props.thy ===== *)
theory Node_Props
  imports Node
begin

section \<open>Properties of the mesh node\<close>

text \<open>
  The node invariant (bounded tables and queues, a well-formed routing table and link manager) and its
  preservation by every step; what is sent on the wire; deduplication; the stop and registry
  behaviour; the size of link packets against the receive buffer.
\<close>

subsection \<open>The two queues\<close>

interpretation seen: fifo remember seen_data MAX_SEEN_DATA
  by unfold_locales (simp_all add: remember_def push_capped_def MAX_SEEN_DATA_def)

interpretation deliveries: fifo deliver_local delivered MAX_DELIVERED
  by unfold_locales (simp_all add: deliver_local_def push_capped_def MAX_DELIVERED_def)

subsection \<open>Invariant\<close>

definition node_ok :: "node \<Rightarrow> bool" where
  "node_ok nd \<longleftrightarrow>
     path_table_wf (path_table nd) \<and> manager_ok (nd_links nd)
   \<and> distinct (peers nd) \<and> length (peers nd) \<le> MAX_PEERS
   \<and> length (delivered nd) \<le> MAX_DELIVERED
   \<and> distinct (seen_data nd) \<and> length (seen_data nd) \<le> MAX_SEEN_DATA"

lemma node_ok_new: "node_ok (new_node P pubkey)"
  by (simp add: node_ok_def new_node_def path_table_wf_new manager_ok_new)

lemma remember_fields [simp]:
  "path_table (remember x nd) = path_table nd" "nd_links (remember x nd) = nd_links nd" "peers (remember x nd) = peers nd"
  "delivered (remember x nd) = delivered nd" "nd_destination (remember x nd) = nd_destination nd"
  "running (remember x nd) = running nd" "interfaces (remember x nd) = interfaces nd"
  by (simp_all add: remember_def)

lemma deliver_local_fields [simp]:
  "path_table (deliver_local x nd) = path_table nd" "nd_links (deliver_local x nd) = nd_links nd"
  "peers (deliver_local x nd) = peers nd" "seen_data (deliver_local x nd) = seen_data nd"
  "nd_destination (deliver_local x nd) = nd_destination nd"
  "running (deliver_local x nd) = running nd" "interfaces (deliver_local x nd) = interfaces nd"
  by (simp_all add: deliver_local_def)

lemma note_peer_fields [simp]:
  "path_table (note_peer s nd) = path_table nd" "nd_links (note_peer s nd) = nd_links nd"
  "delivered (note_peer s nd) = delivered nd" "seen_data (note_peer s nd) = seen_data nd"
  "nd_destination (note_peer s nd) = nd_destination nd" "running (note_peer s nd) = running nd"
  "interfaces (note_peer s nd) = interfaces nd"
  by (simp_all add: note_peer_def)

lemma node_ok_remember: "node_ok nd \<Longrightarrow> x \<notin> set (seen_data nd) \<Longrightarrow> node_ok (remember x nd)"
  using seen.push_bound [of nd x] seen.items_push [of x nd]
  by (auto simp: node_ok_def distinct_tl dest: list.set_sel(2) [rotated] split: if_splits)

lemma node_ok_deliver: "node_ok nd \<Longrightarrow> node_ok (deliver_local x nd)"
  using deliveries.push_bound [of nd x] by (simp add: node_ok_def)

lemma node_ok_note_peer: "node_ok nd \<Longrightarrow> node_ok (note_peer s nd)"
  using length_hs_insert [of s "peers nd"] by (auto simp: node_ok_def note_peer_def)

lemma node_ok_rx: "node_ok (nd\<lparr>rx_count := n\<rparr>) = node_ok nd"
  by (simp add: node_ok_def)

lemma handle_data_ok: "node_ok nd \<Longrightarrow> node_ok (fst (handle_data E src pkt nd))"
  by (simp add: handle_data_def Let_def node_ok_remember node_ok_deliver)

lemma handle_announce_ok:
  assumes "node_ok nd" "handle_announce P E now src pkt nd = Ok (nd', out)"
  shows "node_ok nd'"
proof -
  obtain b t where upd: "update_route (destination pkt) (if hops pkt = 0 then destination pkt
      else from_aspect (p_sha256 P) ''reticulum.peer'' (sockaddr_string E src)) (hops pkt) now (path_table nd) = Ok (b, t)"
    using assms(2) by (auto simp: handle_announce_def Let_def)
  have "node_ok (nd\<lparr>path_table := t\<rparr>)"
    using update_route_wf [OF _ upd] assms(1) by (simp add: node_ok_def)
  then show ?thesis
    using assms(2) by (auto simp: handle_announce_def upd Let_def node_ok_remember split: if_splits)
qed

lemma node_ok_links: "node_ok nd \<Longrightarrow> manager_ok M \<Longrightarrow> node_ok (nd\<lparr>nd_links := M\<rparr>)"
  by (simp add: node_ok_def)

lemma node_ok_manager: "node_ok nd \<Longrightarrow> manager_ok (nd_links nd)"
  by (simp add: node_ok_def)

lemma handle_link_request_packet_ok:
  assumes "node_ok nd" "handle_link_request_packet P E d now src pkt nd = Ok (nd', out)"
  shows "node_ok nd'"
proof -
  have "manager_ok (snd (handle_link_request_with_own_dest P d now od f r (nd_links nd)))" for od f r
    using assms(1) by (intro handle_link_request_ok node_ok_manager)
  then have "node_ok (nd\<lparr>nd_links := M\<rparr>)"
    if "handle_link_request_with_own_dest P d now od f r (nd_links nd) = (x, M)" for od f r x M
    using that assms(1) by (metis node_ok_links snd_conv)
  with assms show ?thesis
    by (auto simp: handle_link_request_packet_def Let_def split: if_splits prod.splits res.splits)
qed

lemma handle_proof_packet_ok:
  assumes "node_ok nd" "handle_proof_packet P now src pkt nd = Ok (nd', out)"
  shows "node_ok nd'"
proof -
  have "manager_ok (snd (handle_link_proof P now f r (nd_links nd)))" for f r
    using assms(1) by (intro handle_link_proof_ok node_ok_manager)
  then have "node_ok (nd\<lparr>nd_links := M\<rparr>)" if "handle_link_proof P now f r (nd_links nd) = (x, M)" for f r x M
    using that assms(1) by (metis node_ok_links snd_conv)
  with assms show ?thesis
    by (auto simp: handle_proof_packet_def split: if_splits prod.splits res.splits)
qed

text \<open>The four cases of the packet type, as one operation, so that the handler's lemmas share them.\<close>

definition handle_kind :: "prims \<Rightarrow> env \<Rightarrow> draws \<Rightarrow> nat \<Rightarrow> sockaddr \<Rightarrow> packet \<Rightarrow> node \<Rightarrow> (node \<times> sent) res" where
  "handle_kind P E d now src pkt nd =
     (case ptype pkt of
        Data \<Rightarrow> Ok (nd, [])
      | Announce \<Rightarrow> handle_announce P E now src pkt nd
      | LinkRequest \<Rightarrow> handle_link_request_packet P E d now src pkt nd
      | Proof \<Rightarrow> handle_proof_packet P now src pkt nd)"

lemma count_rx_fields:
  "count_rx nd = Ok nd' \<Longrightarrow> \<exists>ifs. nd' = nd\<lparr>interfaces := ifs\<rparr>"
  by (auto simp: count_rx_def)

lemma handle_packet_OkE:
  assumes "handle_packet P E d now src pkt nd = Ok (nd', out)"
  obtains nd1 nd2 nd3 out1 out2 ifs where
    "nd1 = note_peer src (nd\<lparr>rx_count := rx_count nd + 1\<rparr>)" "handle_data E src pkt nd1 = (nd2, out1)"
    "handle_kind P E d now src pkt nd2 = Ok (nd3, out2)" "out = out1 @ out2"
    "count_rx (nd3\<lparr>nd_links := update_activity now (destination pkt) (nd_links nd3)\<rparr>) = Ok nd'"
    "nd' = nd3\<lparr>nd_links := update_activity now (destination pkt) (nd_links nd3), interfaces := ifs\<rparr>"
proof -
  obtain nd2 out1 where data: "handle_data E src pkt (note_peer src (nd\<lparr>rx_count := rx_count nd + 1\<rparr>)) = (nd2, out1)"
    by fastforce
  have "and_then (handle_kind P E d now src pkt nd2) (\<lambda>(nd3, out2).
     and_then (count_rx (nd3\<lparr>nd_links := update_activity now (destination pkt) (nd_links nd3)\<rparr>)) (\<lambda>nd5.
       Ok (nd5, out1 @ out2))) = Ok (nd', out)"
    using assms data by (simp only: handle_packet_def handle_kind_def Let_def and_then_eq_Ok add_u64_eq_Ok) auto
  then show thesis using that [OF refl data] count_rx_fields by (auto split: prod.splits) (metis)
qed

lemma handle_kind_ok:
  assumes nd: "node_ok nd" and k: "handle_kind P E d now src pkt nd = Ok (nd', out)"
  shows "node_ok nd'"
proof (cases "ptype pkt")
  case Data
  with k have "nd' = nd" unfolding handle_kind_def by simp
  with nd show ?thesis by simp
next
  case Announce
  with k have "handle_announce P E now src pkt nd = Ok (nd', out)" unfolding handle_kind_def by (simp only: packet_type.case)
  with nd show ?thesis by (rule handle_announce_ok)
next
  case LinkRequest
  with k have "handle_link_request_packet P E d now src pkt nd = Ok (nd', out)"
    unfolding handle_kind_def by (simp only: packet_type.case)
  with nd show ?thesis by (rule handle_link_request_packet_ok)
next
  case Proof
  with k have "handle_proof_packet P now src pkt nd = Ok (nd', out)" unfolding handle_kind_def by (simp only: packet_type.case)
  with nd show ?thesis by (rule handle_proof_packet_ok)
qed

lemma handle_packet_ok:
  assumes "node_ok nd" "handle_packet P E d now src pkt nd = Ok (nd', out)"
  shows "node_ok nd'"
  using assms(2)
proof (rule handle_packet_OkE)
  fix nd1 nd2 nd3 out1 out2 ifs
  assume *: "nd1 = note_peer src (nd\<lparr>rx_count := rx_count nd + 1\<rparr>)" "handle_data E src pkt nd1 = (nd2, out1)"
    "handle_kind P E d now src pkt nd2 = Ok (nd3, out2)"
    and nd': "nd' = nd3\<lparr>nd_links := update_activity now (destination pkt) (nd_links nd3), interfaces := ifs\<rparr>"
  have "node_ok nd1" using assms(1) by (simp add: *(1) node_ok_note_peer node_ok_rx)
  then have "node_ok nd2" using handle_data_ok [of nd1 E src pkt] *(2) by simp
  then have "node_ok nd3" using *(3) by (rule handle_kind_ok)
  then show ?thesis using update_activity_ok [of "nd_links nd3"] by (simp add: nd' node_ok_def)
qed

lemma handle_datagram_ok:
  "node_ok nd \<Longrightarrow> handle_datagram P E d now src dgram nd = Ok (nd', out) \<Longrightarrow> node_ok nd'"
  by (auto simp: handle_datagram_def split: if_splits res.splits dest: handle_packet_ok)

lemma prune_routes_ok: "node_ok nd \<Longrightarrow> node_ok (snd (prune_routes now lp nd))"
  by (simp add: prune_routes_def node_ok_def prune_expired_wf)

lemma thread_iteration_ok:
  "node_ok nd \<Longrightarrow> thread_iteration P E now ev lp nd = Ok (lp', nd', out) \<Longrightarrow> node_ok nd'"
  using prune_routes_ok [of nd now lp]
  by (auto simp: thread_iteration_def split: prod.splits recv_event.splits dest: handle_datagram_ok)

lemma count_tx_ok: "node_ok nd \<Longrightarrow> count_tx nd = Ok nd' \<Longrightarrow> node_ok nd'"
  by (auto simp: count_tx_def node_ok_def)

lemma send_packet_ok: "node_ok nd \<Longrightarrow> send_packet s p pkt nd = Ok (r, nd', out) \<Longrightarrow> node_ok nd'"
  by (auto simp: send_packet_def node_ok_def split: if_splits dest!: count_tx_ok [rotated])

lemma process_packet_ok:
  assumes "node_ok nd" "process_packet P E now pkt nd = Ok (r, nd')"
  shows "node_ok nd'"
proof -
  have upd: "node_ok (nd\<lparr>rx_count := n, path_table := t\<rparr>)" if "update_route a b c now (path_table nd) = Ok (x, t)" for n t a b c x
    using update_route_wf [OF _ that] assms(1) by (simp add: node_ok_def)
  show ?thesis
    using assms by (auto simp: process_packet_def Let_def node_ok_rx intro!: node_ok_remember
        dest: upd split: if_splits)
qed

lemma create_announce_ok: "node_ok nd \<Longrightarrow> create_announce a nd = Ok (p, nd') \<Longrightarrow> node_ok nd'"
  by (auto simp: create_announce_def Let_def node_ok_def)

lemma send_each_ok: "node_ok nd \<Longrightarrow> send_each s pkt ps nd = Ok (nd', out) \<Longrightarrow> node_ok nd'"
  by (induction ps arbitrary: nd out) (fastforce dest: send_packet_ok)+

lemma broadcast_data_ok: "node_ok nd \<Longrightarrow> broadcast_data b s pl nd = Ok (n, nd', out) \<Longrightarrow> node_ok nd'"
  by (auto simp: broadcast_data_def Let_def split: if_splits dest: send_each_ok)

lemma send_data_to_ok: "node_ok nd \<Longrightarrow> send_data_to s p pl nd = Ok (r, nd', out) \<Longrightarrow> node_ok nd'"
  by (auto simp: send_data_to_def split: if_splits dest: send_packet_ok)

lemma drain_delivered_ok: "node_ok nd \<Longrightarrow> node_ok (snd (drain_delivered nd))"
  by (simp add: drain_delivered_def node_ok_def)

text \<open>The node as a machine: iterations of the transport thread interleaved with the calls of clients.\<close>

inductive node_step :: "prims \<Rightarrow> env \<Rightarrow> node \<Rightarrow> node \<Rightarrow> bool" for P E where
  receive: "thread_iteration P E now ev lp nd = Ok (lp', nd', out) \<Longrightarrow> node_step P E nd nd'"
| process: "process_packet P E now pkt nd = Ok (r, nd') \<Longrightarrow> node_step P E nd nd'"
| announces: "create_announce a nd = Ok (p, nd') \<Longrightarrow> node_step P E nd nd'"
| send: "send_data_to s peer pl nd = Ok (r, nd', out) \<Longrightarrow> node_step P E nd nd'"
| broadcast: "broadcast_data before s pl nd = Ok (n, nd', out) \<Longrightarrow> node_step P E nd nd'"
| drain: "node_step P E nd (snd (drain_delivered nd))"

inductive_cases node_stepE: "node_step P E nd nd'"

interpretation mesh: safe_machine "\<lambda>nd. \<exists>pubkey. nd = new_node P pubkey" "node_step P E" node_ok for P E
proof
  show "node_ok s'" if "node_ok s" "node_step P E s s'" for s s'
    using that(2)
  proof (rule node_stepE)
    show "node_ok s'" if "s' = snd (drain_delivered s)" using that \<open>node_ok s\<close> by (simp add: drain_delivered_ok)
  qed (use \<open>node_ok s\<close> in \<open>blast intro: thread_iteration_ok process_packet_ok create_announce_ok send_data_to_ok
        broadcast_data_ok\<close>)+
qed (auto simp: node_ok_new)

subsection \<open>What is sent\<close>

lemma rebroadcast_frames:
  assumes "(p, frame) \<in> set (rebroadcast pkt src nd)" "packet_wf pkt" "length (payload pkt) \<le> 32000"
  shows "p \<noteq> src \<and> p \<in> set (peers nd) \<and> unat (hops pkt) < MAX_HOPS
    \<and> and_then (slip_decode frame) from_bytes = Ok (pkt\<lparr>hops := hops pkt + 1\<rparr>)
    \<and> unat (hops pkt + 1) = Suc (unat (hops pkt))"
proof -
  let ?q = "pkt\<lparr>hops := hops pkt + 1\<rparr>"
  have h: "unat (hops pkt) < MAX_HOPS" and p: "p \<noteq> src" "p \<in> set (peers nd)"
    and frame: "frame = slip_encode (to_bytes ?q)"
    using assms(1) by (auto simp: rebroadcast_def increment_hops_in_place_def Let_def split: if_splits)
  have inc: "increment_hops pkt = Some ?q" using h by (simp add: increment_hops_def)
  have wf: "packet_wf ?q" using assms(2) inc by (rule packet_wf_increment)
  have "length frame \<le> MAX_SLIP_FRAME_SIZE"
    using length_slip_encode [of "to_bytes ?q"] length_to_bytes [OF wf] assms(3)
    by (simp add: frame MAX_SLIP_FRAME_SIZE_def)
  then have "slip_decode frame = Ok (to_bytes ?q)" unfolding frame by (rule slip_decode_encode)
  with h p wf unat_hops_Suc [OF h] show ?thesis by (simp add: from_bytes_to_bytes)
qed

lemma datagram_packet:
  assumes "slip_decode (take RECV_BUFFER dgram) = Ok bs" "from_bytes bs = Ok pkt"
  shows "packet_wf pkt \<and> length (payload pkt) \<le> 2029"
proof -
  have wf: "packet_wf pkt" "bs = to_bytes pkt" using assms(2) by (simp_all add: from_bytes_Ok_iff)
  have "length bs \<le> 2048" using slip_decode_length [OF assms(1)] by (simp add: RECV_BUFFER_def)
  with length_to_bytes [OF wf(1)] wf(2) have "length (payload pkt) \<le> 2029" by simp
  with wf(1) show ?thesis by simp
qed

text \<open>Everything a datagram makes the node send is one hop further or a proof back to the source.\<close>

lemma handle_kind_frames:
  assumes "handle_kind P E d now src pkt nd = Ok (nd', out)" "packet_wf pkt" "length (payload pkt) \<le> 32000"
    "(p, frame) \<in> set out"
  shows "(\<exists>nd1. (p, frame) \<in> set (rebroadcast pkt src nd1) \<and> peers nd1 = peers nd) \<or>
    ptype pkt = LinkRequest \<and> destination pkt = nd_destination nd \<and> p = src"
proof (cases "ptype pkt")
  case Announce
  with assms show ?thesis
    by (auto simp: handle_kind_def handle_announce_def Let_def split: if_splits)
next
  case LinkRequest
  with assms show ?thesis
    by (auto simp: handle_kind_def handle_link_request_packet_def Let_def split: if_splits prod.splits res.splits)
next
  case Proof
  with assms show ?thesis
    by (auto simp: handle_kind_def handle_proof_packet_def split: if_splits prod.splits res.splits)
qed (use assms in \<open>auto simp: handle_kind_def\<close>)

subsection \<open>Deduplication\<close>

lemma handle_data_seen:
  assumes "ptype pkt = Data" "blake3_hex E (payload pkt) \<in> set (seen_data nd)"
  shows "handle_data E src pkt nd = (nd, [])"
  using assms by (simp add: handle_data_def Let_def)

lemma handle_data_marks:
  assumes "ptype pkt = Data" "length (payload pkt) \<le> MAX_DATA_PAYLOAD" "handle_data E src pkt nd = (nd', out)"
  shows "blake3_hex E (payload pkt) \<in> set (seen_data nd')"
  using assms seen.push_member [of "blake3_hex E (payload pkt)" nd]
  by (auto simp: handle_data_def Let_def split: if_splits)

lemma handle_packet_data:
  assumes "handle_packet P E d now src pkt nd = Ok (nd', out)" "ptype pkt = Data" "length (payload pkt) \<le> MAX_DATA_PAYLOAD"
  shows "blake3_hex E (payload pkt) \<in> set (seen_data nd')"
    and "blake3_hex E (payload pkt) \<in> set (seen_data nd) \<Longrightarrow>
           out = [] \<and> delivered nd' = delivered nd \<and> seen_data nd' = seen_data nd"
proof -
  from assms(1) show "blake3_hex E (payload pkt) \<in> set (seen_data nd')"
  proof (rule handle_packet_OkE)
    fix nd1 nd2 nd3 out1 out2 ifs
    assume *: "handle_data E src pkt nd1 = (nd2, out1)" "handle_kind P E d now src pkt nd2 = Ok (nd3, out2)"
      and nd': "nd' = nd3\<lparr>nd_links := update_activity now (destination pkt) (nd_links nd3), interfaces := ifs\<rparr>"
    have "nd3 = nd2" using *(2) assms(2) by (simp add: handle_kind_def)
    with handle_data_marks [OF assms(2,3) *(1)] show ?thesis by (simp add: nd')
  qed
  show "out = [] \<and> delivered nd' = delivered nd \<and> seen_data nd' = seen_data nd"
    if seen: "blake3_hex E (payload pkt) \<in> set (seen_data nd)"
    using assms(1)
  proof (rule handle_packet_OkE)
    fix nd1 nd2 nd3 out1 out2 ifs
    assume *: "nd1 = note_peer src (nd\<lparr>rx_count := rx_count nd + 1\<rparr>)" "handle_data E src pkt nd1 = (nd2, out1)"
      "handle_kind P E d now src pkt nd2 = Ok (nd3, out2)" "out = out1 @ out2"
      and nd': "nd' = nd3\<lparr>nd_links := update_activity now (destination pkt) (nd_links nd3), interfaces := ifs\<rparr>"
    have "handle_data E src pkt nd1 = (nd1, [])" using seen assms(2) by (intro handle_data_seen) (simp_all add: *(1))
    then have "nd2 = nd1" "out1 = []" using *(2) by simp_all
    moreover have "nd3 = nd2" "out2 = []" using *(3) assms(2) by (simp_all add: handle_kind_def)
    ultimately show ?thesis by (simp add: *(1,4) nd')
  qed
qed

subsection \<open>Stopping\<close>

lemma count_rx_running: "count_rx nd = Ok nd' \<Longrightarrow> running nd' = running nd"
  by (auto dest!: count_rx_fields)

lemma handle_data_running: "running (fst (handle_data E src pkt nd)) = running nd"
  by (simp add: handle_data_def Let_def)

lemma handle_kind_running:
  assumes "handle_kind P E d now src pkt nd = Ok (nd', out)"
  shows "running nd' = running nd"
proof (cases "ptype pkt")
  case Announce
  with assms show ?thesis
    by (auto simp: handle_kind_def handle_announce_def Let_def split: if_splits)
next
  case LinkRequest
  with assms show ?thesis
    by (auto simp: handle_kind_def handle_link_request_packet_def Let_def split: if_splits prod.splits res.splits)
next
  case Proof
  with assms show ?thesis
    by (auto simp: handle_kind_def handle_proof_packet_def split: if_splits prod.splits res.splits)
qed (use assms in \<open>auto simp: handle_kind_def\<close>)

lemma handle_packet_running:
  assumes "handle_packet P E d now src pkt nd = Ok (nd', out)"
  shows "running nd' = running nd"
  using assms
proof (rule handle_packet_OkE)
  fix nd1 nd2 nd3 out1 out2 ifs
  assume *: "nd1 = note_peer src (nd\<lparr>rx_count := rx_count nd + 1\<rparr>)" "handle_data E src pkt nd1 = (nd2, out1)"
    "handle_kind P E d now src pkt nd2 = Ok (nd3, out2)"
    and nd': "nd' = nd3\<lparr>nd_links := update_activity now (destination pkt) (nd_links nd3), interfaces := ifs\<rparr>"
  have "running nd3 = running nd1"
    using handle_kind_running [OF *(3)] handle_data_running [of E src pkt nd1] by (simp add: *(2))
  then show ?thesis by (simp add: nd' *(1))
qed

lemma handle_datagram_running: "handle_datagram P E d now src dgram nd = Ok (nd', out) \<Longrightarrow> running nd' = running nd"
  by (auto simp: handle_datagram_def split: if_splits res.splits dest: handle_packet_running)

lemma thread_iteration_running:
  assumes "thread_iteration P E now ev lp nd = Ok (lp', nd', out)"
  shows "running nd' = running nd"
proof -
  obtain l nd1 where p: "prune_routes now lp nd = (l, nd1)" by fastforce
  have "running nd1 = running nd" using p by (auto simp: prune_routes_def split: if_splits)
  with assms show ?thesis
    by (auto simp: thread_iteration_def p split: recv_event.splits dest: handle_datagram_running)
qed

lemma transport_loop_running:
  assumes "running nd" shows "transport_loop P E evs lp nd \<noteq> Some (Ok nd')"
  using assms
proof (induction evs arbitrary: lp nd)
  case Nil
  then show ?case by (simp add: transport_loop.simps)
next
  case (Cons x evs)
  obtain now ev where x: "x = (now, ev)" by (cases x)
  show ?case
  proof (cases "thread_iteration P E now ev lp nd")
    case (Ok r)
    obtain l nd1 out where r: "r = (l, nd1, out)" by (cases r)
    have "running nd1" using thread_iteration_running [OF Ok [unfolded r]] Cons.prems by simp
    from Cons.IH [OF this] show ?thesis using Cons.prems Ok by (simp add: transport_loop.simps [of _ _ "(now, ev) # evs"] x r)
  qed (use Cons.prems in \<open>simp_all add: transport_loop.simps [of _ _ "(now, ev) # evs"] x\<close>)
qed

lemma stop_node_hangs:
  assumes "running nd" "transport_thread nd"
  shows "stop_node P E evs lp nd \<noteq> Some (Ok nd')"
  using transport_loop_running [OF assms(1), of P E evs lp] assms(2)
  by (auto simp: stop_node_def split: option.splits)

lemma stop_node_idle:
  assumes "\<not> transport_thread nd"
  shows "stop_node P E evs lp nd =
    Some (Ok (nd\<lparr>transport_thread := False, auto_interface := False, tcp_server := False, udp_socket := False\<rparr>))"
  using assms by (simp add: stop_node_def)

lemma update_first_total: "(\<And>x. \<exists>y. f x = Ok y) \<Longrightarrow> \<exists>ys. update_first p f xs = Ok ys"
proof (induction xs)
  case (Cons x xs)
  obtain y where "f x = Ok y" using Cons.prems by blast
  then show ?case using Cons by auto
qed simp

lemma restart_joins:
  assumes "transport_thread nd"
  shows "\<exists>nd'. start_udp_transport P E evs lp bound addr nd = Some (Ok (if bound then Ok () else Err ''UDP bind failed'', nd'))
    \<and> running nd' \<and> transport_thread nd' = bound"
proof -
  let ?nd = "nd\<lparr>running := True, transport_thread := False\<rparr>"
  obtain ifs where "update_first is_udp_unicast (\<lambda>i. Ok (i\<lparr>bind_address := addr\<rparr>)) (interfaces ?nd) = Ok ifs"
    using update_first_total [of "\<lambda>i. Ok (i\<lparr>bind_address := addr\<rparr>)"] by blast
  then show ?thesis using assms by (simp add: start_udp_transport_def transport_loop.simps [of _ _ evs] Let_def)
qed

subsection \<open>Interface statistics\<close>

lemma update_first_none: "\<forall>x\<in>set xs. \<not> p x \<Longrightarrow> update_first p f xs = Ok xs"
  by (induction xs) auto

definition no_unicast :: "node \<Rightarrow> bool" where
  "no_unicast nd \<longleftrightarrow> (\<forall>i\<in>set (interfaces nd). \<not> is_udp_unicast i)"

lemma no_unicast_new: "no_unicast (new_node P pubkey)"
  by (simp add: no_unicast_def new_node_def is_udp_unicast_def new_udp_def)

lemma handle_data_interfaces: "interfaces (fst (handle_data E src pkt nd)) = interfaces nd"
  by (simp add: handle_data_def Let_def)

lemma handle_kind_interfaces:
  assumes "handle_kind P E d now src pkt nd = Ok (nd', out)"
  shows "interfaces nd' = interfaces nd"
proof (cases "ptype pkt")
  case Announce
  with assms show ?thesis
    by (auto simp: handle_kind_def handle_announce_def Let_def split: if_splits)
next
  case LinkRequest
  with assms show ?thesis
    by (auto simp: handle_kind_def handle_link_request_packet_def Let_def split: if_splits prod.splits res.splits)
next
  case Proof
  with assms show ?thesis
    by (auto simp: handle_kind_def handle_proof_packet_def split: if_splits prod.splits res.splits)
qed (use assms in \<open>auto simp: handle_kind_def\<close>)

lemma handle_packet_interfaces:
  assumes "handle_packet P E d now src pkt nd = Ok (nd', out)" "no_unicast nd"
  shows "interfaces nd' = interfaces nd"
  using assms(1)
proof (rule handle_packet_OkE)
  fix nd1 nd2 nd3 out1 out2 ifs
  assume *: "nd1 = note_peer src (nd\<lparr>rx_count := rx_count nd + 1\<rparr>)" "handle_data E src pkt nd1 = (nd2, out1)"
    "handle_kind P E d now src pkt nd2 = Ok (nd3, out2)"
    and cnt: "count_rx (nd3\<lparr>nd_links := update_activity now (destination pkt) (nd_links nd3)\<rparr>) = Ok nd'"
  have "interfaces nd3 = interfaces nd"
    using handle_kind_interfaces [OF *(3)] handle_data_interfaces [of E src pkt nd1] *(2) by (simp add: *(1))
  with cnt assms(2) show ?thesis by (auto simp: count_rx_def no_unicast_def update_first_none)
qed

subsection \<open>Link packets against the receive buffer\<close>

lemma link_request_frame_size:
  assumes "kem_prims_ok P" "draws_ok d" "length b = 16"
    and "request_link_from P d now (Some a) b M = (Ok req, M')" "length a = 16"
  shows "2472 \<le> length (slip_encode (to_bytes req))"
proof -
  obtain pk sk where req: "req = new_packet b LinkRequest (LINK_REQUEST_PQC_SENDER # a @ bytes_of pk)"
    and pair: "hybrid_pair P pk sk"
    using assms(4) by (rule request_link_from_Ok) (use assms in auto)
  have "length pk = 2434" using hybrid_pair_sizes(1) [OF assms(1) pair] by (simp add: HYBRID_PK_LEN_def)
  moreover have "packet_wf req" using assms(3) by (simp add: req packet_wf_new address_wf_def)
  ultimately have "length (to_bytes req) = 2470" using assms(5) by (simp add: length_to_bytes req new_packet_def)
  then show ?thesis using length_slip_encode [of "to_bytes req"] by simp
qed

lemma parse_link_request_short: "parse_link_request f req = Ok (a, pk) \<Longrightarrow> length pk < length req"
  by (auto simp: parse_link_request_def neq_Nil_conv split: if_splits dest!: arg_cong [where f = length])

text \<open>The \<open>hex\<close> crate decodes two characters to a byte.\<close>

definition hex_halves :: "prims \<Rightarrow> bool" where
  "hex_halves P \<longleftrightarrow> (\<forall>s b. p_hex_decode P s = Some b \<longrightarrow> length s = 2 * length b)"

lemma short_key_refused:
  assumes "hex_halves P" "length (peer_pk st) < 2434" "peer_pk st \<noteq> ''''" "rs_version st = RATCHET_VERSION" "need_new_epoch st"
  shows "encrypt_ratchet P d st pt = Err ''bad peer pk hex''"
proof -
  have "hybrid_encapsulate P e r (peer_pk st) RATCHET_DOMAIN \<in> {Err ''bad pk hex'', Err ''bad pk len''}" for e r
  proof (cases "p_hex_decode P (trim (peer_pk st))")
    case (Some b)
    then have "length (trim (peer_pk st)) = 2 * length b" using assms(1) by (simp add: hex_halves_def)
    then have "length b \<noteq> HYBRID_PK_LEN" using length_trim [of "peer_pk st"] assms(2) by (simp add: HYBRID_PK_LEN_def)
    with Some RATCHET_DOMAIN_len show ?thesis by (simp add: hybrid_encapsulate_def)
  qed (use RATCHET_DOMAIN_len in \<open>simp add: hybrid_encapsulate_def\<close>)
  then have "map_err ''bad peer pk hex'' (hybrid_encapsulate P e r (peer_pk st) RATCHET_DOMAIN) = Err ''bad peer pk hex''" for e r
    by (metis empty_iff insert_iff map_err.simps(2))
  with assms show ?thesis by (simp add: encrypt_ratchet_def sending_epoch_def)
qed


subsection \<open>Data packets step by step\<close>

lemma handle_packet_data_eq:
  assumes "ptype pkt = Data" "rx_count nd < U64_MAX" "no_unicast nd"
    and "handle_data E src pkt (note_peer src (nd\<lparr>rx_count := rx_count nd + 1\<rparr>)) = (nd2, out)"
  shows "handle_packet P E d now src pkt nd = Ok (nd2\<lparr>nd_links := update_activity now (destination pkt) (nd_links nd2)\<rparr>, out)"
proof -
  have "interfaces nd2 = interfaces nd"
    using handle_data_interfaces [of E src pkt "note_peer src (nd\<lparr>rx_count := rx_count nd + 1\<rparr>)"] assms(4) by simp
  with assms(3) have "count_rx (nd2\<lparr>nd_links := M\<rparr>) = Ok (nd2\<lparr>nd_links := M\<rparr>)" for M
    by (simp add: count_rx_def no_unicast_def update_first_none)
  with assms show ?thesis by (simp add: handle_packet_def add_u64_def)
qed

end
