(* ===== verification/Mesh_Theorems.thy ===== *)
theory Mesh_Theorems
  imports Node_Props Instance
begin

section \<open>What the mesh layers guarantee\<close>

text \<open>
  The properties of the ratchet link layer (mesh-core/src/pqc\_link.rs), of the Reticulum link manager and of the mesh node,
  with witnesses on the concrete primitives of \<^theory_text>\<open>Instance\<close>. The invariants are the facts of the
  interpretations \<open>store\<close>, \<open>manager\<close> and \<open>mesh\<close> of the locale \<open>safe_machine\<close>.
\<close>

subsection \<open>Ratchet links\<close>

text \<open>C2. From two empty stores to a conversation. The initiator begins a handshake, the responder accepts its handshake
  frame, the initiator completes with the responder's key: every step succeeds, and afterwards any exchange of frames in
  any alternation delivers every plaintext unchanged.\<close>

theorem link_end_to_end:
  assumes P: "ratchet_prims_ok P" "serde_ok js" and d: "draws_ok dA" "draws_ok dB"
    and sid: "ascii a" "length a \<le> 1024"
    and ts: "\<forall>t\<in>set ts. link_turn_ok P t" "distinct (map (link_turn_pk P) ts)"
      "set (map (link_turn_pk P) ts) \<inter> {'''', drawn_pk P dA, drawn_pk P dB} = {}" "int (length ts) < I64_MAX"
  shows "\<exists>pkA LA pkB LB LA'. begin_handshake P dA t1 b ctx new_link = (Ok pkA, LA)
    \<and> accept_handshake P dB t2 ctx a (handshake_frame a pkA) new_link = (Ok (a, pkB), LB)
    \<and> complete_handshake t3 b pkB LA = (Ok (), LA')
    \<and> link_converse P js a b LA' LB ts = Ok (map link_said ts)"
proof -
  note K = ratchet_primsD(2) [OF P(1)]
  obtain LA where A: "begin_handshake P dA t1 b ctx new_link = (Ok (drawn_pk P dA), LA)"
    using begin_on_new [OF d(1)] by (metis prod.collapse)
  obtain skA where pA: "hybrid_pair P (drawn_pk P dA) skA" using drawn_pair [OF d(1)] by blast
  obtain skB where pB: "hybrid_pair P (drawn_pk P dB) skB" using drawn_pair [OF d(2)] by blast
  note hex = hybrid_pair_hex [OF K pA] hybrid_pair_hex [OF K pB]
  note ne = hybrid_pair_neq_Nil [OF K pA] hybrid_pair_neq_Nil [OF K pB]
  obtain LB where B: "accept_handshake_pk P dB t2 a ctx (drawn_pk P dA) new_link = (Ok (drawn_pk P dB), LB)"
    using accept_on_new [OF d(2), of "drawn_pk P dA"] trim_hex [OF hex(1)] ne(1) by (metis prod.collapse)
  have "parse_handshake_frame (handshake_frame a (drawn_pk P dA)) = Ok (a, drawn_pk P dA)"
    using sid ne(1) hybrid_pair_sizes(1) [OF K pA]
    by (intro handshake_frame_round_trip) (simp_all add: utf8_valid_ascii ascii_hex [OF hex(1)] MAX_LINK_FRAME_def HYBRID_PK_LEN_def)
  with B have B': "accept_handshake P dB t2 ctx a (handshake_frame a (drawn_pk P dA)) new_link = (Ok (a, drawn_pk P dB), LB)"
    by (simp add: accept_handshake_def)
  obtain st where "get_state b LA = Ok st"
    using A register_session_fresh [OF d(1), of P t1 b ctx "''''" new_link "drawn_pk P dA"]
    by (auto simp: begin_handshake_def new_link_def)
  then obtain LA' where C: "complete_handshake t3 b (drawn_pk P dB) LA = (Ok (), LA')"
    using trim_hex [OF hex(2)] ne(2) by (simp add: complete_handshake_def)
  from handshake_session [OF K d A B C] obtain SA SB where S: "get_state b LA' = Ok SA" "get_state a LB = Ok SB"
    "session P {'''', drawn_pk P dA, drawn_pk P dB} 0 SA SB" "peer_pk SA \<noteq> ''''" "peer_pk SB \<noteq> ''''" by blast
  have "link_converse P js a b LA' LB ts = Ok (map link_said ts)"
    using link_converse_session [OF P ts(1-3) S(3) _ S(1,2,4,5)] ts(4) by simp
  with A B' C show ?thesis by blast
qed

theorem link_end_to_end_witness:
  "\<exists>pkA LA pkB LB LA'. begin_handshake sample_prims (sample_draws 1) 10 ''bob'' ''ctx'' new_link = (Ok pkA, LA)
    \<and> accept_handshake sample_prims (sample_draws 2) 11 ''ctx'' ''alice'' (handshake_frame ''alice'' pkA) new_link = (Ok (''alice'', pkB), LB)
    \<and> complete_handshake 12 ''bob'' pkB LA = (Ok (), LA')
    \<and> link_converse sample_prims sample_serde ''alice'' ''bob'' LA' LB
        [(True, sample_draws 3, sample_draws 4, 13, [1]), (False, sample_draws 5, sample_draws 6, 14, [2, 3])]
      = Ok (map link_said [(True, sample_draws 3, sample_draws 4, 13, [1]), (False, sample_draws 5, sample_draws 6, 14, [2, 3])])"
  by (rule link_end_to_end [OF sample_ratchet_ok sample_serde_ok sample_draws_ok sample_draws_ok])
    (simp_all add: link_turn_ok_def link_turn_pk_def sample_draws_ok sample_msg_ok ascii_def MAX_LINK_PAYLOAD_def)

text \<open>The session store is bounded in every reachable state: at most 256 sessions, one per peer, and no peer with
  more key generations on its account than the budget.\<close>

theorem link_store_bounded:
  assumes "(link_step P js)\<^sup>*\<^sup>* new_link L"
  shows "distinct (map fst (states L)) \<and> length (states L) \<le> 256
    \<and> (\<forall>peer e. map_of (keygens L) peer = Some e \<longrightarrow> fst e \<le> MAX_KEYGEN_PER_SOURCE)"
  using store.reachable_inv [OF _ assms] by (simp add: link_ok_def hm_wf_def MAX_SESSIONS_def)

theorem link_store_bounded_witness:
  "\<exists>L. (link_step sample_prims sample_serde)\<^sup>*\<^sup>* new_link L \<and> has_session ''bob'' L
    \<and> distinct (map fst (states L)) \<and> length (states L) \<le> 256"
proof -
  let ?L = "snd (begin_handshake sample_prims (sample_draws 1) 10 ''bob'' ''ctx'' new_link)"
  have s: "(link_step sample_prims sample_serde)\<^sup>*\<^sup>* new_link ?L" by (intro r_into_rtranclp link_step.intros(1))
  have "has_session ''bob'' ?L"
    using begin_on_new [OF sample_draws_ok, of sample_prims 1 10 "''bob''" "''ctx''"]
      register_session_fresh [OF sample_draws_ok, of sample_prims 1 10 "''bob''" "''ctx''" "''''" new_link]
    by (auto simp: begin_handshake_def new_link_def has_session_def hm_has_iff dest: get_state_Ok)
  with s link_store_bounded [OF s] show ?thesis by blast
qed

text \<open>A frame that is not decrypted leaves the store as it was: neither a malformed, a replayed nor a forged frame
  moves or loses a session, and a following good frame is treated as if the bad ones had not arrived.\<close>

theorem link_decrypt_atomic:
  assumes "\<forall>(d, t, bad)\<in>set bads. \<not> is_ok (fst (link_decrypt P js d t peer bad L))"
  shows "link_decrypt P js d now peer frame (fold (\<lambda>(d, t, bad) L'. snd (link_decrypt P js d t peer bad L')) bads L)
    = link_decrypt P js d now peer frame L"
proof -
  have "fold (\<lambda>(d, t, bad) L'. snd (link_decrypt P js d t peer bad L')) bads L = L"
    using assms by (induction bads) (auto simp: link_decrypt_failed)
  then show ?thesis by simp
qed

theorem link_decrypt_atomic_witness:
  "link_decrypt sample_prims sample_serde (sample_draws 1) 5 ''bob'' [1]
      (fold (\<lambda>(d, t, bad) L'. snd (link_decrypt sample_prims sample_serde d t ''bob'' bad L')) [(sample_draws 1, 3, []), (sample_draws 1, 4, [0])] new_link)
    = link_decrypt sample_prims sample_serde (sample_draws 1) 5 ''bob'' [1] new_link"
  by (rule link_decrypt_atomic) (simp add: link_decrypt_def parse_ratchet_frame_def)


text \<open>The key-generation budget. Of any number of handshake requests of one source within one window, exactly the
  first \<open>MAX_KEYGEN_PER_SOURCE\<close> are granted, whatever the other sources did before.\<close>

theorem keygen_budget_window:
  assumes "link_ok L" "map_of (keygens L) peer = None" "\<forall>x\<in>set ts. x - t < KEYGEN_WINDOW_SECS"
  shows "length (filter (\<lambda>g. g) (budget_run (t # ts) peer L)) = min MAX_KEYGEN_PER_SOURCE (Suc (length ts))"
  using assms by (intro budget_run_fresh) (simp_all add: link_ok_def)

theorem keygen_budget_window_witness:
  "length (filter (\<lambda>g. g) (budget_run (100 # replicate 20 101) ''mallory'' new_link)) = min MAX_KEYGEN_PER_SOURCE (Suc (length (replicate 20 (101 :: nat))))"
  by (rule keygen_budget_window) (simp_all add: link_ok_new, simp_all add: new_link_def KEYGEN_WINDOW_SECS_def)

subsection \<open>Reticulum links\<close>

text \<open>The link manager keeps its bounds and its two tables consistent in every reachable state: at most 50 links, each
  stored under its remote address, none of them closed, over a session store within its own bounds.\<close>

theorem link_manager_bounded:
  assumes "(manager_step P js)\<^sup>*\<^sup>* new_link_manager M"
  shows "length (links M) \<le> 50 \<and> distinct (map fst (links M)) \<and> length (states (crypto M)) \<le> 256
    \<and> (\<forall>a l. map_of (links M) a = Some l \<longrightarrow> remote_destination l = a \<and> li_state l \<noteq> Closed)"
  using manager.reachable_inv [OF _ assms]
  by (simp add: manager_ok_def link_ok_def hm_wf_def MAX_PENDING_LINKS_def MAX_SESSIONS_def)

theorem link_manager_bounded_witness:
  "\<exists>M. (manager_step sample_prims sample_serde)\<^sup>*\<^sup>* new_link_manager M
    \<and> M = snd (request_link_from sample_prims (sample_draws 1) 10 None (replicate 16 7) new_link_manager)
    \<and> length (links M) \<le> 50 \<and> length (states (crypto M)) \<le> 256"
proof -
  let ?M = "snd (request_link_from sample_prims (sample_draws 1) 10 None (replicate 16 7) new_link_manager)"
  have s: "(manager_step sample_prims sample_serde)\<^sup>*\<^sup>* new_link_manager ?M"
    by (intro r_into_rtranclp manager_step.intros(1))
  show ?thesis using s link_manager_bounded [OF s] by blast
qed

text \<open>C19. A completed link handshake. When node \<open>a\<close> requests a link to \<open>b\<close>, \<open>b\<close> handles the request and \<open>a\<close> handles the
  proof, both ends hold an established link and ratchet states with each other's public keys; but the ratchet contexts
  of the two ends are equal only if the two addresses are.\<close>

theorem reticulum_handshake:
  assumes P: "kem_prims_ok P" and d: "draws_ok d" "draws_ok d'" and ab: "length a = 16" "length b = 16"
    and req: "request_link_from P d n1 (Some a) b MA = (Ok req, MA1)"
    and rsp: "handle_link_request_with_own_dest P d' n2 (Some b) x (payload req) MB = (Ok rsp, MB1)"
  shows "\<exists>MA2 A B. handle_link_proof P n3 y (payload rsp) MA1 = (Ok (), MA2)
    \<and> map_option li_state (get_link_info b MA2) = Some Established
    \<and> map_option li_state (get_link_info a MB1) = Some Established
    \<and> get_state (link_peer_id P b) (crypto MA2) = Ok A \<and> get_state (link_peer_id P a) (crypto MB1) = Ok B
    \<and> peer_pk A = current_pk B \<and> peer_pk B = current_pk A
    \<and> (rs_context A = rs_context B \<longleftrightarrow> a = b)"
proof -
  from manager_handshake [OF P d ab req rsp, of n3 y] obtain MA2 skA pkA skB pkB where
    "handle_link_proof P n3 y (payload rsp) MA1 = (Ok (), MA2)"
    "map_option li_state (get_link_info b MA2) = Some Established"
    "map_option li_state (get_link_info a MB1) = Some Established"
    "get_state (link_peer_id P b) (crypto MA2) = Ok (init_state pkB (link_context P b) skA pkA)"
    "get_state (link_peer_id P a) (crypto MB1) = Ok (init_state pkA (link_context P a) skB pkB)" by blast
  then show ?thesis using link_context_inj [OF kem_hex [OF P], of b a]
    by (intro exI [of _ MA2] exI [of _ "init_state pkB (link_context P b) skA pkA"]
        exI [of _ "init_state pkA (link_context P a) skB pkB"]) (auto simp: init_state_def)
qed

text \<open>On fresh managers the two requests of C18 succeed.\<close>

lemma sample_request:
  "\<exists>req M. request_link_from sample_prims (sample_draws 1) 10 (Some a) b new_link_manager = (Ok req, M)
    \<and> payload req = LINK_REQUEST_PQC_SENDER # a @ bytes_of (sample_pk 1)"
proof -
  obtain L where "begin_handshake sample_prims (sample_draws 1) 10 (link_peer_id sample_prims b) (link_context sample_prims b) new_link
      = (Ok (sample_pk 1), L)"
    using begin_on_new [OF sample_draws_ok, of sample_prims 1] by (metis prod.collapse sample_drawn_pk)
  then show ?thesis
    by (simp add: request_link_from_def new_link_manager_def MAX_PENDING_LINKS_def Let_def new_packet_def)
qed

lemma sample_accept:
  assumes "length a = 16"
  shows "\<exists>rsp M. handle_link_request_with_own_dest sample_prims (sample_draws 2) 11 (Some b) x
      (LINK_REQUEST_PQC_SENDER # a @ bytes_of (sample_pk 1)) new_link_manager = (Ok rsp, M)"
proof -
  have hex: "is_hex (sample_pk 1)" by (rule hybrid_pair_hex [OF sample_kem_ok sample_pair])
  then have "trim (sample_pk 1) \<noteq> ''''" by (simp add: trim_hex)
  then obtain L where "accept_handshake_pk sample_prims (sample_draws 2) 11 (link_peer_id sample_prims a) (link_context sample_prims a)
      (sample_pk 1) new_link = (Ok (sample_pk 2), L)"
    using accept_on_new [OF sample_draws_ok, of "sample_pk 1" sample_prims 2] by (metis prod.collapse sample_drawn_pk)
  then show ?thesis using parse_link_request_sender [OF assms hex]
    by (simp add: handle_link_request_with_own_dest_def new_link_manager_def MAX_PENDING_LINKS_def Let_def)
qed

theorem reticulum_handshake_witness:
  "\<exists>req MA1 rsp MB1 MA2 A B.
      request_link_from sample_prims (sample_draws 1) 10 (Some (replicate 16 1)) (replicate 16 2) new_link_manager = (Ok req, MA1)
    \<and> handle_link_request_with_own_dest sample_prims (sample_draws 2) 11 (Some (replicate 16 2)) [] (payload req) new_link_manager = (Ok rsp, MB1)
    \<and> handle_link_proof sample_prims 12 [] (payload rsp) MA1 = (Ok (), MA2)
    \<and> get_state (link_peer_id sample_prims (replicate 16 2)) (crypto MA2) = Ok A
    \<and> get_state (link_peer_id sample_prims (replicate 16 1)) (crypto MB1) = Ok B \<and> rs_context A \<noteq> rs_context B"
proof -
  obtain req MA1 where r: "request_link_from sample_prims (sample_draws 1) 10 (Some (replicate 16 1)) (replicate 16 2) new_link_manager
      = (Ok req, MA1)" and pl: "payload req = LINK_REQUEST_PQC_SENDER # replicate 16 1 @ bytes_of (sample_pk 1)"
    using sample_request by blast
  obtain rsp MB1 where a: "handle_link_request_with_own_dest sample_prims (sample_draws 2) 11 (Some (replicate 16 2)) [] (payload req)
      new_link_manager = (Ok rsp, MB1)"
    unfolding pl using sample_accept [of "replicate 16 1"] by fastforce
  have "replicate 16 1 \<noteq> (replicate 16 2 :: byte list)" by (simp add: numeral_eq_Suc)
  with reticulum_handshake [OF sample_kem_ok sample_draws_ok sample_draws_ok _ _ r a, of 12 "[]"] r a show ?thesis by auto
qed


subsection \<open>The mesh node\<close>

text \<open>C15. Every reachable state of a node is within its bounds: routes, links, peers, delivered payloads and remembered
  digests are capped, whatever datagrams arrive and whatever the node is asked to send.\<close>

theorem node_bounded:
  assumes "(node_step P E)\<^sup>*\<^sup>* (new_node P pubkey) nd"
  shows "length (path_table nd) \<le> 4096 \<and> length (links (nd_links nd)) \<le> 50 \<and> length (peers nd) \<le> 4096
    \<and> length (delivered nd) \<le> 4096 \<and> length (seen_data nd) \<le> 4096 \<and> distinct (seen_data nd)
    \<and> (\<forall>d e. get_route d (path_table nd) = Some e \<longrightarrow> pe_destination e = d)"
  using mesh.reachable_inv [OF _ assms]
  by (auto simp: node_ok_def path_table_wf_def manager_ok_def get_route_def MAX_PATH_TABLE_ROUTES_def
      MAX_PENDING_LINKS_def MAX_PEERS_def MAX_DELIVERED_def MAX_SEEN_DATA_def)

definition sample_env :: env where
  "sample_env = \<lparr>sockaddr_string = (\<lambda>_. ''10.0.0.1:4242''), blake3_hex = sample_hex_encode\<rparr>"

theorem node_bounded_witness:
  "\<exists>nd. (node_step sample_prims sample_env)\<^sup>*\<^sup>* (new_node sample_prims ''k'') nd \<and> tx_count nd = 1
    \<and> length (path_table nd) \<le> 4096 \<and> length (peers nd) \<le> 4096"
proof -
  let ?nd = "(new_node sample_prims ''k'')\<lparr>tx_count := 1\<rparr>"
  have "create_announce None (new_node sample_prims ''k'')
      = Ok (new_packet (nd_destination ?nd) Announce (nd_destination ?nd), ?nd)"
    by (simp add: create_announce_def new_node_def add_u64_def)
  then have s: "(node_step sample_prims sample_env)\<^sup>*\<^sup>* (new_node sample_prims ''k'') ?nd"
    by (intro r_into_rtranclp node_step.announces)
  show ?thesis using s node_bounded [OF s] by (intro exI [of _ ?nd]) simp
qed

text \<open>A payload is handled once. After a data packet has been handled, a second data packet with the same payload,
  from any source, with any hop count and any destination, is neither delivered nor forwarded, and does not push another
  digest out of the window.\<close>

theorem data_handled_once:
  assumes "handle_packet P E d now src pkt nd = Ok (nd1, out1)" "handle_packet P E d' now' src' pkt' nd1 = Ok (nd2, out2)"
    "ptype pkt = Data" "ptype pkt' = Data" "payload pkt' = payload pkt" "length (payload pkt) \<le> MAX_DATA_PAYLOAD"
  shows "out2 = [] \<and> delivered nd2 = delivered nd1 \<and> seen_data nd2 = seen_data nd1"
proof -
  have "blake3_hex E (payload pkt') \<in> set (seen_data nd1)"
    using handle_packet_data(1) [OF assms(1,3,6)] assms(5) by simp
  then show ?thesis using handle_packet_data(2) [OF assms(2,4)] assms(5,6) by simp
qed

theorem data_handled_once_witness:
  "\<exists>nd1 out1 nd2 out2.
     handle_packet sample_prims sample_env (sample_draws 1) 5 (V4 10 0 0 1, 4242) (new_packet (replicate 16 0xff) Data [7]) (new_node sample_prims ''k'')
       = Ok (nd1, out1) \<and> delivered nd1 = [[7]]
   \<and> handle_packet sample_prims sample_env (sample_draws 1) 6 (V4 10 0 0 2, 4242) (new_packet (replicate 16 0) Data [7]) nd1 = Ok (nd2, out2)
   \<and> out2 = [] \<and> delivered nd2 = delivered nd1 \<and> seen_data nd2 = seen_data nd1"
proof -
  let ?p = "new_packet (replicate 16 0xff) Data [7]" and ?q = "new_packet (replicate 16 0) Data [7]"
  let ?nd = "new_node sample_prims ''k''"
  define nd0 where "nd0 = note_peer (V4 10 0 0 1, 4242) (?nd\<lparr>rx_count := rx_count ?nd + 1\<rparr>)"
  define nd1 where "nd1 = deliver_local [7] (remember (sample_hex_encode [7]) nd0)"
  have links: "update_activity t x (nd_links nd1) = nd_links nd1" for t x
    by (simp add: nd1_def nd0_def new_node_def update_activity_def new_link_manager_def)
  have del: "delivered nd1 = [[7]]"
    by (simp add: nd1_def nd0_def deliver_local_def push_capped_def MAX_DELIVERED_def new_node_def)
  have rx: "rx_count nd1 = 1" "no_unicast nd1"
    using no_unicast_new [of sample_prims "''k''"]
    by (simp_all add: nd1_def nd0_def deliver_local_def remember_def note_peer_def new_node_def no_unicast_def)
  have "handle_data sample_env (V4 10 0 0 1, 4242) ?p nd0 = (nd1, rebroadcast ?p (V4 10 0 0 1, 4242) nd1)"
    by (simp add: handle_data_def Let_def nd1_def sample_env_def MAX_DATA_PAYLOAD_def new_packet_def is_broadcast_def
        list_all_iff nd0_def new_node_def)
  then have 1: "handle_packet sample_prims sample_env (sample_draws 1) 5 (V4 10 0 0 1, 4242) ?p ?nd
      = Ok (nd1, rebroadcast ?p (V4 10 0 0 1, 4242) nd1)"
    using handle_packet_data_eq [of ?p ?nd sample_env "(V4 10 0 0 1, 4242)" nd1] no_unicast_new links
    by (simp add: nd0_def new_packet_def new_node_def)
  obtain x out2 where "handle_data sample_env (V4 10 0 0 2, 4242) ?q (note_peer (V4 10 0 0 2, 4242) (nd1\<lparr>rx_count := rx_count nd1 + 1\<rparr>))
      = (x, out2)" by fastforce
  then obtain nd2 where 2: "handle_packet sample_prims sample_env (sample_draws 1) 6 (V4 10 0 0 2, 4242) ?q nd1 = Ok (nd2, out2)"
    using handle_packet_data_eq [of ?q nd1 sample_env "(V4 10 0 0 2, 4242)" x out2] rx by (simp add: new_packet_def)
  have "out2 = [] \<and> delivered nd2 = delivered nd1 \<and> seen_data nd2 = seen_data nd1"
    by (rule data_handled_once [OF 1(1) 2]) (simp_all add: new_packet_def MAX_DATA_PAYLOAD_def)
  with 1 2 del show ?thesis by blast
qed

text \<open>C5. What a node sends in answer to a datagram. Every frame is either the packet that arrived, one hop further, sent to
  a known peer other than its source, and only while the hop limit is not reached; or the answer to a link request
  addressed to this node, sent back to the source.\<close>

theorem forwarded_frames:
  assumes "handle_datagram P E d now src dgram nd = Ok (nd', out)" "(p, frame) \<in> set out"
  shows "\<exists>pkt. and_then (slip_decode (take RECV_BUFFER dgram)) from_bytes = Ok pkt \<and> is_private_ip (fst src)
    \<and> ((p \<noteq> src \<and> unat (hops pkt) < MAX_HOPS
          \<and> and_then (slip_decode frame) from_bytes = Ok (pkt\<lparr>hops := hops pkt + 1\<rparr>) \<and> unat (hops pkt + 1) = unat (hops pkt) + 1)
       \<or> (ptype pkt = LinkRequest \<and> destination pkt = nd_destination nd \<and> p = src))"
proof -
  have priv: "is_private_ip (fst src)" using assms by (auto simp: handle_datagram_def split: if_splits)
  obtain bs pkt where pkt: "slip_decode (take RECV_BUFFER dgram) = Ok bs" "from_bytes bs = Ok pkt"
    and h: "handle_packet P E d now src pkt nd = Ok (nd', out)"
    using assms priv by (auto simp: handle_datagram_def split: res.splits)
  have wf: "packet_wf pkt" "length (payload pkt) \<le> 32000" using datagram_packet [OF pkt] by simp_all
  obtain nd1 nd2 nd3 out1 out2 where nd1: "nd1 = note_peer src (nd\<lparr>rx_count := rx_count nd + 1\<rparr>)"
    and d: "handle_data E src pkt nd1 = (nd2, out1)" and k: "handle_kind P E d now src pkt nd2 = Ok (nd3, out2)"
    and out: "out = out1 @ out2"
    by (rule handle_packet_OkE [OF h])
  have dest: "nd_destination nd2 = nd_destination nd"
    using d nd1 by (auto simp: handle_data_def Let_def split: if_splits)
  have "(\<exists>nd0. (p, frame) \<in> set (rebroadcast pkt src nd0)) \<or>
      ptype pkt = LinkRequest \<and> destination pkt = nd_destination nd \<and> p = src"
  proof (cases "(p, frame) \<in> set out1")
    case True
    then show ?thesis using d by (auto simp: handle_data_def Let_def split: if_splits)
  next
    case False
    then show ?thesis using handle_kind_frames [OF k wf, of p frame] assms(2) out dest by auto
  qed
  then show ?thesis
  proof
    assume "\<exists>nd0. (p, frame) \<in> set (rebroadcast pkt src nd0)"
    then obtain nd0 where "(p, frame) \<in> set (rebroadcast pkt src nd0)" by blast
    from rebroadcast_frames [OF this wf] pkt priv show ?thesis by auto
  qed (use pkt priv in auto)
qed


lemma datagram_of_packet:
  assumes "packet_wf pkt" "length (payload pkt) \<le> 1000" "is_private_ip (fst src)"
  shows "handle_datagram P E d now src (slip_encode (to_bytes pkt)) nd = handle_packet P E d now src pkt nd"
proof -
  have "length (slip_encode (to_bytes pkt)) \<le> RECV_BUFFER"
    using length_slip_encode [of "to_bytes pkt"] length_to_bytes [OF assms(1)] assms(2) by (simp add: RECV_BUFFER_def)
  moreover from this have "slip_decode (slip_encode (to_bytes pkt)) = Ok (to_bytes pkt)"
    by (intro slip_decode_encode) (simp add: RECV_BUFFER_def MAX_SLIP_FRAME_SIZE_def)
  ultimately show ?thesis using assms(1,3) by (simp add: handle_datagram_def from_bytes_to_bytes)
qed

theorem forwarded_frames_witness:
  "\<exists>nd' out frame.
     handle_datagram sample_prims sample_env (sample_draws 1) 5 (V4 10 0 0 1, 4242)
       (slip_encode (to_bytes (new_packet (replicate 16 0xff) Data [7]))) ((new_node sample_prims ''k'')\<lparr>peers := [(V4 10 0 0 9, 1)]\<rparr>)
       = Ok (nd', out)
   \<and> ((V4 10 0 0 9, 1), frame) \<in> set out
   \<and> and_then (slip_decode frame) from_bytes = Ok ((new_packet (replicate 16 0xff) Data [7])\<lparr>hops := 1\<rparr>)"
proof -
  let ?p = "new_packet (replicate 16 0xff) Data [7]" and ?src = "(V4 10 0 0 1, 4242 :: nat)"
  let ?nd = "(new_node sample_prims ''k'')\<lparr>peers := [(V4 10 0 0 9, 1)]\<rparr>"
  let ?dg = "slip_encode (to_bytes ?p)"
  have wf: "packet_wf ?p" by (rule packet_wf_new) (simp add: address_wf_def)
  have priv: "is_private_ip (fst ?src)" by (simp add: is_private_ipv4_def)
  have dg: "and_then (slip_decode (take RECV_BUFFER ?dg)) from_bytes = Ok ?p"
  proof -
    have "length ?dg \<le> RECV_BUFFER"
      using length_slip_encode [of "to_bytes ?p"] length_to_bytes [OF wf] by (simp add: RECV_BUFFER_def new_packet_def)
    then show ?thesis
      by (simp add: slip_decode_encode RECV_BUFFER_def MAX_SLIP_FRAME_SIZE_def from_bytes_to_bytes [OF wf])
  qed
  obtain x out where h: "handle_data sample_env ?src ?p (note_peer ?src (?nd\<lparr>rx_count := rx_count ?nd + 1\<rparr>)) = (x, out)"
    by fastforce
  then obtain nd' where r: "handle_datagram sample_prims sample_env (sample_draws 1) 5 ?src ?dg ?nd = Ok (nd', out)"
    using datagram_of_packet [OF wf _ priv] handle_packet_data_eq [of ?p ?nd, OF _ _ _ h] no_unicast_new [of sample_prims "''k''"]
    by (simp add: new_packet_def new_node_def no_unicast_def)
  have seen: "seen_data (note_peer ?src (?nd\<lparr>rx_count := rx_count ?nd + 1\<rparr>)) = []" by (simp add: new_node_def)
  have ps: "peers (note_peer ?src (?nd\<lparr>rx_count := rx_count ?nd + 1\<rparr>)) = [(V4 10 0 0 9, 1), ?src]"
    by (simp add: note_peer_def MAX_PEERS_def hs_insert_def)
  obtain y where y: "out = rebroadcast ?p ?src y" "peers y = [(V4 10 0 0 9, 1), ?src]"
    using h seen ps that [of x] by (auto simp: handle_data_def Let_def new_packet_def MAX_DATA_PAYLOAD_def split: if_splits)
  have "(V4 10 0 0 9, 1) \<in> fst ` set out"
    using y(2) by (simp add: y(1) rebroadcast_def new_packet_def MAX_HOPS_def Let_def)
  then obtain frame where f: "((V4 10 0 0 9, 1), frame) \<in> set out" by force
  obtain pkt where "and_then (slip_decode (take RECV_BUFFER ?dg)) from_bytes = Ok pkt"
    "ptype pkt = LinkRequest \<or> and_then (slip_decode frame) from_bytes = Ok (pkt\<lparr>hops := hops pkt + 1\<rparr>)"
    using forwarded_frames [OF r f] by blast
  moreover from this(1) dg have "pkt = ?p" by simp
  ultimately show ?thesis using r f by (auto simp: new_packet_def)
qed

text \<open>C38. \<open>stop\<close> does not return while the node is running with its transport thread: it joins the thread without
  clearing the flag the thread polls. Without a thread it returns and leaves the flag set. (\<open>start_udp_transport\<close>
  clears the flag before it joins and does return, whether or not the socket can be bound; then the node is running, and has a
  thread if it was bound.)\<close>

theorem stop_never_returns:
  "(running nd \<and> transport_thread nd \<longrightarrow> (\<forall>evs nd'. stop_node P E evs lp nd \<noteq> Some (Ok nd')))
   \<and> (\<not> transport_thread nd \<longrightarrow> (\<exists>nd'. stop_node P E evs lp nd = Some (Ok nd') \<and> running nd' = running nd))
   \<and> (transport_thread nd \<longrightarrow> (\<forall>bound. \<exists>nd'. start_udp_transport P E evs lp bound addr nd
        = Some (Ok (if bound then Ok () else Err ''UDP bind failed'', nd')) \<and> running nd' \<and> transport_thread nd' = bound))"
  using stop_node_hangs [of nd P E _ lp] stop_node_idle [of nd P E evs lp] restart_joins [of nd P E evs lp _ addr] by auto

theorem stop_never_returns_witness:
  "\<forall>nd'. stop_node sample_prims sample_env [(1, Timeout), (2, IoError)] 0
      ((new_node sample_prims ''k'')\<lparr>transport_thread := True\<rparr>) \<noteq> Some (Ok nd')"
  using stop_never_returns [of "(new_node sample_prims ''k'')\<lparr>transport_thread := True\<rparr>" sample_prims sample_env 0 "[]" "''''"]
  by (simp add: new_node_def)

text \<open>The statistics of the default interface never move. A new node has one interface, a multicast one, while
  receiving, sending and binding update the first unicast one: whatever is received, the interface list is unchanged.\<close>

theorem interface_statistics_frozen:
  assumes "handle_datagram P E d now src dgram ((new_node P pubkey)\<lparr>rx_count := n, peers := ps\<rparr>) = Ok (nd', out)"
  shows "interfaces nd' = [new_udp ''0.0.0.0:4242'' True]"
proof -
  have nu: "no_unicast ((new_node P pubkey)\<lparr>rx_count := n, peers := ps\<rparr>)"
    using no_unicast_new [of P pubkey] by (simp add: no_unicast_def)
  have i: "interfaces ((new_node P pubkey)\<lparr>rx_count := n, peers := ps\<rparr>) = [new_udp ''0.0.0.0:4242'' True]"
    by (simp add: new_node_def)
  show ?thesis
    using assms i by (auto simp: handle_datagram_def dest: handle_packet_interfaces [OF _ nu] split: if_splits res.splits)
qed

theorem interface_statistics_frozen_witness:
  "\<exists>nd' out. handle_datagram sample_prims sample_env (sample_draws 1) 5 (V4 10 0 0 1, 4242) [0xC0, 0xC0]
      ((new_node sample_prims ''k'')\<lparr>rx_count := 3, peers := []\<rparr>) = Ok (nd', out) \<and> interfaces nd' = [new_udp ''0.0.0.0:4242'' True]"
proof -
  have "slip_decode (take RECV_BUFFER [0xC0, 0xC0]) = Ok []"
    by (simp add: RECV_BUFFER_def slip_decode_def MAX_SLIP_FRAME_SIZE_def)
  then have "handle_datagram sample_prims sample_env (sample_draws 1) 5 (V4 10 0 0 1, 4242) [0xC0, 0xC0]
      ((new_node sample_prims ''k'')\<lparr>rx_count := 3, peers := []\<rparr>) = Ok ((new_node sample_prims ''k'')\<lparr>rx_count := 3, peers := []\<rparr>, [])"
    by (simp add: handle_datagram_def from_bytes_def)
  then show ?thesis using interface_statistics_frozen by blast
qed

text \<open>Link handshakes do not fit a datagram. The request of \<open>request_link_from\<close> needs at least 2472 bytes on the wire, the
  transport reads at most 2048; any link request that a datagram does carry yields a key too short to be a hybrid public
  key, and a session opened with it refuses to encrypt.\<close>

theorem link_keys_truncated:
  assumes "kem_prims_ok P" "hex_halves P" "draws_ok d" "length a = 16" "length b = 16"
    "request_link_from P d now (Some a) b M = (Ok req, M')"
    "and_then (slip_decode (take RECV_BUFFER dgram)) from_bytes = Ok pkt" "parse_link_request f (payload pkt) = Ok (x, pk)" "pk \<noteq> ''''"
  shows "RECV_BUFFER < length (slip_encode (to_bytes req)) \<and> length pk < 2 * HYBRID_PK_LEN
    \<and> encrypt_ratchet P d' (init_state pk ctx sk own) pt = Err ''bad peer pk hex''"
proof -
  have big: "2472 \<le> length (slip_encode (to_bytes req))" by (rule link_request_frame_size [OF assms(1,3,5,6,4)])
  have "length (payload pkt) \<le> 2029" using assms(7) datagram_packet by fastforce
  then have short: "length pk < 2434" using parse_link_request_short [OF assms(8)] by simp
  have "encrypt_ratchet P d' (init_state pk ctx sk own) pt = Err ''bad peer pk hex''"
    using short assms(9) by (intro short_key_refused [OF assms(2)]) (simp_all add: init_state_def need_new_epoch_def)
  with big short show ?thesis by (simp add: RECV_BUFFER_def HYBRID_PK_LEN_def)
qed


lemma sample_hex_halves: "hex_halves sample_prims"
proof -
  have "sample_hex_decode s = Some b \<Longrightarrow> length s = 2 * length b" for s b
    by (induction s arbitrary: b rule: sample_hex_decode.induct) (auto split: option.splits)
  then show ?thesis by (simp add: hex_halves_def)
qed

theorem link_keys_truncated_witness:
  "\<exists>req M'. request_link_from sample_prims (sample_draws 1) 10 (Some (replicate 16 1)) (replicate 16 2) new_link_manager = (Ok req, M')
    \<and> RECV_BUFFER < length (slip_encode (to_bytes req))
    \<and> encrypt_ratchet sample_prims (sample_draws 3) (init_state ''ab'' ''c'' (sample_sk 2) (sample_pk 2)) [1] = Err ''bad peer pk hex''"
proof -
  let ?p = "new_packet (replicate 16 0) LinkRequest (LINK_REQUEST_PQC # bytes_of ''ab'')"
  obtain req M' where r: "request_link_from sample_prims (sample_draws 1) 10 (Some (replicate 16 1)) (replicate 16 2) new_link_manager
      = (Ok req, M')" using sample_request by blast
  have wf: "packet_wf ?p" by (rule packet_wf_new) (simp add: address_wf_def)
  have "length (slip_encode (to_bytes ?p)) \<le> RECV_BUFFER"
    using length_slip_encode [of "to_bytes ?p"] length_to_bytes [OF wf] by (simp add: RECV_BUFFER_def new_packet_def)
  then have dg: "and_then (slip_decode (take RECV_BUFFER (slip_encode (to_bytes ?p)))) from_bytes = Ok ?p"
    by (simp add: slip_decode_encode RECV_BUFFER_def MAX_SLIP_FRAME_SIZE_def from_bytes_to_bytes [OF wf])
  have pk: "parse_link_request [] (payload ?p) = Ok ([], ''ab'')"
    by (simp add: parse_link_request_def new_packet_def utf8_valid_ascii ascii_def)
  from link_keys_truncated [OF sample_kem_ok sample_hex_halves sample_draws_ok _ _ r dg pk] r show ?thesis by simp
qed

end
