(* ===== verification/Bounded.thy ===== *)
theory Bounded
  imports Tables
begin

section \<open>Bounded FIFO collections (common-core/src/bounded.rs)\<close>

text \<open>
  \<open>BoundedSet\<close> and \<open>BoundedMap\<close>: a hash set or map with a parallel queue of the insertion order. The
  abstract object is the queue itself (\<open>fifo_insert\<close>); the refinement lemmas show that the pair implements it
  and that the two parts stay in step. Locale \<open>dedup\<close> is what the gossip protocol relies on: an inserted key
  is remembered until \<open>cap\<close> further keys have been inserted.
\<close>

record 'a bset =
  bs_set :: "'a list"
  bs_order :: "'a list"
  bs_capacity :: nat

definition bs_new :: "nat \<Rightarrow> 'a bset" where
  "bs_new capacity = \<lparr>bs_set = [], bs_order = [], bs_capacity = capacity\<rparr>"

text \<open>The eviction loop.\<close>

function bs_trim :: "'a bset \<Rightarrow> 'a bset" where
  "bs_trim s =
     (if length (bs_order s) > bs_capacity s then
        (case bs_order s of
           [] \<Rightarrow> s
         | oldest # rest \<Rightarrow> bs_trim (s\<lparr>bs_order := rest, bs_set := hs_remove oldest (bs_set s)\<rparr>))
      else s)"
  by pat_completeness auto
termination
  by (relation "measure (\<lambda>s. length (bs_order s))") auto

declare bs_trim.simps [simp del]

definition bs_insert :: "'a \<Rightarrow> 'a bset \<Rightarrow> bool \<times> 'a bset" where
  "bs_insert key s =
     (if key \<in> set (bs_set s) then (False, s)
      else (True, bs_trim (s\<lparr>bs_set := hs_insert key (bs_set s), bs_order := bs_order s @ [key]\<rparr>)))"

definition bs_contains :: "'a \<Rightarrow> 'a bset \<Rightarrow> bool" where
  "bs_contains key s \<longleftrightarrow> key \<in> set (bs_set s)"

definition bs_len :: "'a bset \<Rightarrow> nat" where
  "bs_len s = length (bs_set s)"

definition bs_is_empty :: "'a bset \<Rightarrow> bool" where
  "bs_is_empty s \<longleftrightarrow> bs_set s = []"

definition bs_clear :: "'a bset \<Rightarrow> 'a bset" where
  "bs_clear s = s\<lparr>bs_set := [], bs_order := []\<rparr>"

record ('k, 'v) bmap =
  bm_map :: "('k, 'v) hmap"
  bm_order :: "'k list"
  bm_capacity :: nat

definition bm_new :: "nat \<Rightarrow> ('k, 'v) bmap" where
  "bm_new capacity = \<lparr>bm_map = [], bm_order = [], bm_capacity = capacity\<rparr>"

definition bm_insert :: "'k \<Rightarrow> 'v \<Rightarrow> ('k, 'v) bmap \<Rightarrow> 'v option \<times> ('k, 'v) bmap" where
  "bm_insert key v b =
     (let existed = hm_has key (bm_map b);
          b1 = (if \<not> existed then
                  let b0 = (if length (bm_order b) \<ge> bm_capacity b then
                              (case bm_order b of
                                 [] \<Rightarrow> b
                               | oldest # rest \<Rightarrow> b\<lparr>bm_order := rest, bm_map := hm_del oldest (bm_map b)\<rparr>)
                            else b)
                  in b0\<lparr>bm_order := bm_order b0 @ [key]\<rparr>
                else b)
      in (map_of (bm_map b1) key, b1\<lparr>bm_map := hm_put key v (bm_map b1)\<rparr>))"

definition bm_get :: "'k \<Rightarrow> ('k, 'v) bmap \<Rightarrow> 'v option" where
  "bm_get key b = map_of (bm_map b) key"

definition bm_contains_key :: "'k \<Rightarrow> ('k, 'v) bmap \<Rightarrow> bool" where
  "bm_contains_key key b = hm_has key (bm_map b)"

definition bm_remove :: "'k \<Rightarrow> ('k, 'v) bmap \<Rightarrow> 'v option \<times> ('k, 'v) bmap" where
  "bm_remove key b =
     (let removed = map_of (bm_map b) key;
          b1 = b\<lparr>bm_map := hm_del key (bm_map b)\<rparr>
      in (removed, if removed \<noteq> None then b1\<lparr>bm_order := filter (\<lambda>k. k \<noteq> key) (bm_order b1)\<rparr> else b1))"

definition bm_len :: "('k, 'v) bmap \<Rightarrow> nat" where
  "bm_len b = length (bm_map b)"

definition bm_is_empty :: "('k, 'v) bmap \<Rightarrow> bool" where
  "bm_is_empty b \<longleftrightarrow> bm_map b = []"

definition bm_clear :: "('k, 'v) bmap \<Rightarrow> ('k, 'v) bmap" where
  "bm_clear b = b\<lparr>bm_map := [], bm_order := []\<rparr>"

subsection \<open>The abstract queue\<close>

definition fifo_insert :: "nat \<Rightarrow> 'a \<Rightarrow> 'a list \<Rightarrow> 'a list" where
  "fifo_insert cap k q = (if k \<in> set q then q else drop (Suc (length q) - cap) (q @ [k]))"

lemma rev_fifo_insert:
  assumes "x \<notin> set q"
  shows "rev (fifo_insert cap x q) = take cap (x # rev q)"
proof (cases "cap \<le> Suc (length q)")
  case True
  then show ?thesis using assms by (cases cap) (simp_all add: fifo_insert_def rev_drop)
next
  case False
  then have "take cap (x # rev q) = x # rev q" by simp
  with False assms show ?thesis by (simp add: fifo_insert_def)
qed

lemma distinct_fifo_insert: "distinct q \<Longrightarrow> distinct (fifo_insert cap k q)"
  by (simp add: fifo_insert_def distinct_drop del: drop_append)

lemma length_fifo_insert: "length q \<le> cap \<Longrightarrow> length (fifo_insert cap k q) \<le> cap"
  by (auto simp: fifo_insert_def)

text \<open>The window guarantee, for anything that implements the queue.\<close>

locale dedup =
  fixes ins :: "'a \<Rightarrow> 's \<Rightarrow> 's"
    and has :: "'a \<Rightarrow> 's \<Rightarrow> bool"
    and items :: "'s \<Rightarrow> 'a list"
    and cap :: "'s \<Rightarrow> nat"
    and ok :: "'s \<Rightarrow> bool"
  assumes ins_ok: "ok s \<Longrightarrow> ok (ins k s)"
    and ins_cap: "ok s \<Longrightarrow> cap (ins k s) = cap s"
    and items_ins: "ok s \<Longrightarrow> items (ins k s) = fifo_insert (cap s) k (items s)"
    and has_iff: "ok s \<Longrightarrow> has k s \<longleftrightarrow> k \<in> set (items s)"
    and items_cap: "ok s \<Longrightarrow> length (items s) \<le> cap s"
begin

lemma recent_step:
  assumes "ok s" "k \<in> set (take n (rev (items s)))" "n < cap s"
  shows "k \<in> set (take (Suc n) (rev (items (ins x s))))"
proof (cases "x \<in> set (items s)")
  case True
  then have "items (ins x s) = items s" by (simp add: items_ins assms(1) fifo_insert_def)
  moreover have "set (take n xs) \<subseteq> set (take (Suc n) xs)" for xs :: "'a list"
    by (simp add: set_take_subset_set_take)
  ultimately show ?thesis using assms(2) by auto
next
  case False
  have "rev (items (ins x s)) = take (cap s) (x # rev (items s))"
    unfolding items_ins [OF assms(1)] using False by (rule rev_fifo_insert)
  then have "take (Suc n) (rev (items (ins x s))) = x # take n (rev (items s))"
    using assms(3) by (simp add: min_def)
  with assms(2) show ?thesis by simp
qed

lemma recent_fold:
  "ok s \<Longrightarrow> k \<in> set (take n (rev (items s))) \<Longrightarrow> n + length xs \<le> cap s
    \<Longrightarrow> ok (fold ins xs s) \<and> k \<in> set (take (n + length xs) (rev (items (fold ins xs s))))"
proof (induction xs arbitrary: s n)
  case Nil
  then show ?case by simp
next
  case (Cons x xs)
  then have "k \<in> set (take (Suc n) (rev (items (ins x s))))" by (intro recent_step) simp_all
  with Cons show ?case using Cons.IH [of "ins x s" "Suc n"] by (simp add: ins_ok ins_cap)
qed

lemma window:
  assumes "ok s" "length xs < cap s" "k \<notin> set (items s)"
  shows "has k (fold ins xs (ins k s))"
proof -
  have "rev (items (ins k s)) = take (cap s) (k # rev (items s))"
    unfolding items_ins [OF assms(1)] using assms(3) by (rule rev_fifo_insert)
  then have "k \<in> set (take 1 (rev (items (ins k s))))" using assms(2) by (simp add: take_Cons')
  from recent_fold [OF ins_ok [OF assms(1)] this, of xs] assms show ?thesis
    by (auto simp: ins_cap has_iff dest: in_set_takeD)
qed

end

subsection \<open>The set implements the queue\<close>

definition bs_ok :: "'a bset \<Rightarrow> bool" where
  "bs_ok s \<longleftrightarrow> distinct (bs_order s) \<and> set (bs_set s) = set (bs_order s) \<and> distinct (bs_set s)
     \<and> length (bs_order s) \<le> bs_capacity s"

lemma bs_ok_new: "bs_ok (bs_new n)"
  by (simp add: bs_ok_def bs_new_def)

lemma bs_trim_drop:
  assumes "distinct (bs_order s)" "set (bs_set s) = set (bs_order s)" "distinct (bs_set s)"
  shows "bs_order (bs_trim s) = drop (length (bs_order s) - bs_capacity s) (bs_order s)
    \<and> set (bs_set (bs_trim s)) = set (bs_order (bs_trim s)) \<and> distinct (bs_set (bs_trim s))
    \<and> bs_capacity (bs_trim s) = bs_capacity s"
  using assms
proof (induction s rule: bs_trim.induct)
  case (1 s)
  show ?case
  proof (cases "length (bs_order s) > bs_capacity s")
    case True
    then obtain old rest where o: "bs_order s = old # rest" by (cases "bs_order s") auto
    let ?s = "s\<lparr>bs_order := rest, bs_set := hs_remove old (bs_set s)\<rparr>"
    have "set (hs_remove old (bs_set s)) = set rest" using 1(2,3) o by auto
    with 1 True o have "bs_order (bs_trim ?s) = drop (length rest - bs_capacity s) rest
        \<and> set (bs_set (bs_trim ?s)) = set (bs_order (bs_trim ?s)) \<and> distinct (bs_set (bs_trim ?s))
        \<and> bs_capacity (bs_trim ?s) = bs_capacity s" by simp
    moreover have "bs_trim s = bs_trim ?s" using True by (simp add: bs_trim.simps [of s] o)
    moreover have "length (bs_order s) - bs_capacity s = Suc (length rest - bs_capacity s)" using True o by simp
    ultimately show ?thesis by (simp add: o)
  next
    case False
    with 1 show ?thesis by (simp add: bs_trim.simps [of s])
  qed
qed

lemma bs_insert_fresh:
  assumes "bs_ok s" "key \<notin> set (bs_set s)"
  shows "bs_order (snd (bs_insert key s)) = drop (Suc (length (bs_order s)) - bs_capacity s) (bs_order s @ [key])
    \<and> set (bs_set (snd (bs_insert key s))) = set (bs_order (snd (bs_insert key s)))
    \<and> distinct (bs_set (snd (bs_insert key s))) \<and> bs_capacity (snd (bs_insert key s)) = bs_capacity s"
  using assms bs_trim_drop [of "s\<lparr>bs_set := hs_insert key (bs_set s), bs_order := bs_order s @ [key]\<rparr>"]
  by (simp add: bs_insert_def bs_ok_def)

lemma bs_insert_refines:
  assumes "bs_ok s"
  shows "bs_order (snd (bs_insert key s)) = fifo_insert (bs_capacity s) key (bs_order s)
    \<and> (fst (bs_insert key s) \<longleftrightarrow> key \<notin> set (bs_order s))"
proof (cases "key \<in> set (bs_set s)")
  case True
  with assms show ?thesis by (simp add: bs_insert_def fifo_insert_def bs_ok_def)
next
  case False
  then have "key \<notin> set (bs_order s)" "fst (bs_insert key s)" using assms by (simp_all add: bs_ok_def bs_insert_def)
  with bs_insert_fresh [OF assms False] show ?thesis by (simp add: fifo_insert_def)
qed

lemma bs_insert_ok:
  assumes "bs_ok s"
  shows "bs_ok (snd (bs_insert key s)) \<and> bs_capacity (snd (bs_insert key s)) = bs_capacity s"
proof (cases "key \<in> set (bs_set s)")
  case True
  with assms show ?thesis by (simp add: bs_insert_def)
next
  case False
  have "distinct (bs_order (snd (bs_insert key s)))" "length (bs_order (snd (bs_insert key s))) \<le> bs_capacity s"
    using bs_insert_refines [OF assms, of key] assms
    by (simp_all add: bs_ok_def distinct_fifo_insert length_fifo_insert)
  with bs_insert_fresh [OF assms False] show ?thesis unfolding bs_ok_def by simp
qed

lemma bs_len_order: "bs_ok s \<Longrightarrow> bs_len s = length (bs_order s)"
  by (metis bs_len_def bs_ok_def distinct_card)

interpretation bset: dedup "\<lambda>k s. snd (bs_insert k s)" bs_contains bs_order bs_capacity bs_ok
proof
  show "bs_contains k s \<longleftrightarrow> k \<in> set (bs_order s)" "length (bs_order s) \<le> bs_capacity s" if "bs_ok s"
    for k and s :: "'a bset"
    using that by (simp_all add: bs_contains_def bs_ok_def)
qed (simp_all add: bs_insert_ok bs_insert_refines)

subsection \<open>The map implements the queue\<close>

definition bm_ok :: "('k, 'v) bmap \<Rightarrow> bool" where
  "bm_ok b \<longleftrightarrow> hm_wf (bm_map b) \<and> distinct (bm_order b) \<and> set (bm_order b) = fst ` set (bm_map b)
     \<and> length (bm_order b) \<le> bm_capacity b"

lemma bm_ok_new: "bm_ok (bm_new n)"
  by (simp add: bm_ok_def bm_new_def)

lemma bm_has: "bm_ok b \<Longrightarrow> bm_contains_key k b \<longleftrightarrow> k \<in> set (bm_order b)"
  by (simp add: bm_contains_key_def hm_has_def bm_ok_def)

lemma fst_hm_del_keys: "fst ` set (hm_del k m) = fst ` set m - {k}"
  by (auto simp: set_hm_del)

lemma bm_insert_fresh:
  assumes "bm_ok b" "0 < bm_capacity b" "key \<notin> set (bm_order b)"
  shows "bm_order (snd (bm_insert key v b)) = fifo_insert (bm_capacity b) key (bm_order b)
    \<and> hm_wf (bm_map (snd (bm_insert key v b)))
    \<and> set (bm_order (snd (bm_insert key v b))) = fst ` set (bm_map (snd (bm_insert key v b)))
    \<and> bm_capacity (snd (bm_insert key v b)) = bm_capacity b"
proof -
  have has: "\<not> hm_has key (bm_map b)" using assms by (simp add: hm_has_def bm_ok_def)
  show ?thesis
  proof (cases "length (bm_order b) \<ge> bm_capacity b")
    case True
    then obtain old rest where o: "bm_order b = old # rest" using assms(2) by (cases "bm_order b") auto
    have "length (bm_order b) = bm_capacity b" using True assms(1) by (simp add: bm_ok_def)
    with assms has o show ?thesis
      by (auto simp: bm_insert_def fifo_insert_def bm_ok_def Let_def fst_hm_del_keys)
  next
    case False
    with assms has show ?thesis by (auto simp: bm_insert_def fifo_insert_def bm_ok_def Let_def)
  qed
qed

lemma bm_insert_spec:
  assumes "bm_ok b" "0 < bm_capacity b"
  shows "bm_ok (snd (bm_insert key v b)) \<and> bm_capacity (snd (bm_insert key v b)) = bm_capacity b
    \<and> bm_order (snd (bm_insert key v b)) = fifo_insert (bm_capacity b) key (bm_order b)"
proof (cases "key \<in> set (bm_order b)")
  case True
  then have "hm_has key (bm_map b)" using assms by (simp add: hm_has_def bm_ok_def)
  with assms True show ?thesis by (auto simp: bm_insert_def fifo_insert_def bm_ok_def Let_def)
next
  case False
  note f = bm_insert_fresh [OF assms False, of v]
  then have o: "bm_order (snd (bm_insert key v b)) = fifo_insert (bm_capacity b) key (bm_order b)" by blast
  have "distinct (bm_order (snd (bm_insert key v b)))" "length (bm_order (snd (bm_insert key v b))) \<le> bm_capacity b"
    using assms by (simp_all add: o bm_ok_def distinct_fifo_insert length_fifo_insert)
  moreover have "hm_wf (bm_map (snd (bm_insert key v b)))"
    "set (bm_order (snd (bm_insert key v b))) = fst ` set (bm_map (snd (bm_insert key v b)))"
    "bm_capacity (snd (bm_insert key v b)) = bm_capacity b"
    using f by blast+
  ultimately show ?thesis using o by (simp only: bm_ok_def simp_thms)
qed

lemma bm_get_insert: "bm_get key (snd (bm_insert key v b)) = Some v"
  by (simp add: bm_get_def bm_insert_def Let_def)

lemma bm_remove_ok:
  assumes "bm_ok b"
  shows "bm_ok (snd (bm_remove key b)) \<and> bm_capacity (snd (bm_remove key b)) = bm_capacity b"
proof -
  have "length (filter (\<lambda>k. k \<noteq> key) (bm_order b)) \<le> bm_capacity b"
    using assms by (auto simp: bm_ok_def intro: le_trans [OF length_filter_le])
  with assms show ?thesis
    by (auto simp: bm_remove_def bm_ok_def Let_def fst_hm_del_keys dest: weak_map_of_SomeI split: option.split)
qed

lemma bm_remove_order:
  assumes "bm_ok b"
  shows "bm_order (snd (bm_remove key b)) = filter (\<lambda>k. k \<noteq> key) (bm_order b)"
proof (cases "map_of (bm_map b) key")
  case None
  then have "key \<notin> set (bm_order b)" using assms by (auto simp: bm_ok_def dest: weak_map_of_SomeI)
  with None show ?thesis by (auto simp: bm_remove_def Let_def intro!: filter_True [symmetric])
next
  case (Some v)
  then show ?thesis by (simp add: bm_remove_def Let_def)
qed

text \<open>Inserting another key changes the value of a key only by evicting it.\<close>

lemma bm_get_other:
  assumes "bm_ok b" "0 < bm_capacity b" "key \<noteq> k" "k \<in> set (bm_order (snd (bm_insert key v b)))"
  shows "bm_get k (snd (bm_insert key v b)) = bm_get k b"
proof -
  have "bm_get k (snd (bm_insert key v b)) \<noteq> None"
    using bm_insert_spec [OF assms(1,2), of key v] assms(4) unfolding bm_get_def bm_ok_def map_of_eq_None_iff by auto
  then show ?thesis using assms(3)
    by (auto simp: bm_get_def bm_insert_def Let_def split: if_splits list.splits)
qed

text \<open>Capacity zero: the map keeps one entry, the set none.\<close>

lemma bm_zero_capacity: "bm_len (snd (bm_insert k v (bm_new 0))) = 1"
  by (simp add: bm_len_def bm_insert_def bm_new_def hm_has_def Let_def)


subsection \<open>What the collections promise\<close>

text \<open>\<open>BoundedSet\<close> implements a first-in-first-out set: an insertion reports whether the key is new, the order queue is
  the abstract queue, the size never exceeds the capacity, and a key is still present after fewer than \<open>capacity\<close>
  further insertions.\<close>

theorem bounded_set_fifo:
  assumes "bs_ok s"
  shows "bs_order (snd (bs_insert key s)) = fifo_insert (bs_capacity s) key (bs_order s)
    \<and> fst (bs_insert key s) = (\<not> bs_contains key s) \<and> bs_len (snd (bs_insert key s)) \<le> bs_capacity s
    \<and> (\<not> bs_contains key s \<and> length keys < bs_capacity s \<longrightarrow>
         bs_contains key (fold (\<lambda>k b. snd (bs_insert k b)) keys (snd (bs_insert key s))))"
proof -
  have "bs_len (snd (bs_insert key s)) \<le> bs_capacity s"
    using bs_insert_ok [OF assms, of key] bs_len_order by (metis bs_ok_def)
  moreover have "fst (bs_insert key s) = (\<not> bs_contains key s)" by (simp add: bs_insert_def bs_contains_def)
  moreover have "bs_contains key (fold (\<lambda>k b. snd (bs_insert k b)) keys (snd (bs_insert key s)))"
    if "\<not> bs_contains key s" "length keys < bs_capacity s"
    using bset.window [OF assms that(2)] that(1) by (simp add: bset.has_iff [OF assms])
  ultimately show ?thesis using bs_insert_refines [OF assms, of key] by blast
qed

theorem bounded_set_fifo_witness:
  "bs_contains (1 :: nat) (fold (\<lambda>k b. snd (bs_insert k b)) [2, 3] (snd (bs_insert 1 (bs_new 3))))"
  using bounded_set_fifo [OF bs_ok_new, of "1 :: nat" 3 "[2, 3]"] by (simp add: bs_new_def bs_contains_def)

end
