(* ===== verification/PlumTree.thy ===== *)
theory PlumTree
  imports Bounded
begin

section \<open>PlumTree gossip (network-core/src/plumtree.rs)\<close>

text \<open>
  The epidemic broadcast tree: eager peers get the payload, lazy peers an announcement. The peer sets are the
  duplicate-free lists of \<^theory_text>\<open>Tables\<close> (the order in which a \<open>HashSet\<close> is traversed is unspecified, and nothing
  below depends on it), the received ids, the pending grafts and the payload cache are the bounded collections of
  \<^theory_text>\<open>Bounded\<close>. \<open>Instant::now()\<close> is an argument, in nanoseconds.

  Shown: every reachable node keeps its bounds, its cache holds exactly the payloads of the remembered ids and no
  pending graft is for a remembered id; a payload is answered with a prune, and served to a graft, for the next
  10,000 messages; an announcement flood buys at most 16 grafts a second.
\<close>

abbreviation MAX_RECEIVED_MESSAGES :: nat where "MAX_RECEIVED_MESSAGES \<equiv> 10000"
abbreviation MAX_PENDING_GRAFTS :: nat where "MAX_PENDING_GRAFTS \<equiv> 4096"
abbreviation EAGER_PEER_CAP :: nat where "EAGER_PEER_CAP \<equiv> 64"
abbreviation LAZY_PEER_CAP :: nat where "LAZY_PEER_CAP \<equiv> 256"
abbreviation GRAFT_WINDOW :: nat where "GRAFT_WINDOW \<equiv> 1000000000"
abbreviation GRAFT_CREDITS_PER_WINDOW :: nat where "GRAFT_CREDITS_PER_WINDOW \<equiv> 16"

datatype plum_message =
    Gossip (message_id: string) (payload_json: string) (round: nat)
  | IHave (message_id: string) (round: nat)
  | Graft (message_id: string)
  | Prune (message_id: string)

record plum_node =
  self_peer_id :: string
  eager_peers :: "string list"
  lazy_peers :: "string list"
  received_messages :: "string bset"
  pending_grafts :: "(string, string) bmap"
  payload_cache :: "(string, string) bmap"
  graft_windows :: "(string, nat \<times> nat) hmap"

definition plum_new :: "string \<Rightarrow> plum_node" where
  "plum_new i = \<lparr>self_peer_id = i, eager_peers = [], lazy_peers = [],
     received_messages = bs_new MAX_RECEIVED_MESSAGES, pending_grafts = bm_new MAX_PENDING_GRAFTS,
     payload_cache = bm_new MAX_RECEIVED_MESSAGES, graft_windows = []\<rparr>"

definition add_peer :: "string \<Rightarrow> plum_node \<Rightarrow> plum_node" where
  "add_peer peer s =
     (if peer = self_peer_id s then s
      else if length (eager_peers s) < EAGER_PEER_CAP then s\<lparr>eager_peers := hs_insert peer (eager_peers s)\<rparr>
      else if length (lazy_peers s) < LAZY_PEER_CAP then s\<lparr>lazy_peers := hs_insert peer (lazy_peers s)\<rparr>
      else s)"

definition remove_peer :: "string \<Rightarrow> plum_node \<Rightarrow> plum_node" where
  "remove_peer peer s = s\<lparr>eager_peers := hs_remove peer (eager_peers s), lazy_peers := hs_remove peer (lazy_peers s)\<rparr>"

definition is_plausible_event_id :: "string \<Rightarrow> bool" where
  "is_plausible_event_id i \<longleftrightarrow> length i = 64 \<and> list_all is_ascii_hexdigit (bytes_of i)"

definition consume_graft_credit :: "nat \<Rightarrow> string \<Rightarrow> plum_node \<Rightarrow> bool \<times> plum_node" where
  "consume_graft_credit now peer s =
     (let entry0 = (case map_of (graft_windows s) peer of Some e \<Rightarrow> e | None \<Rightarrow> (now, GRAFT_CREDITS_PER_WINDOW));
          entry = (if now - fst entry0 \<ge> GRAFT_WINDOW then (now, GRAFT_CREDITS_PER_WINDOW) else entry0)
      in if snd entry = 0 then (False, s\<lparr>graft_windows := hm_put peer entry (graft_windows s)\<rparr>)
         else (True, s\<lparr>graft_windows := hm_put peer (fst entry, snd entry - 1) (graft_windows s)\<rparr>))"

text \<open>The demotion both a prune and a duplicate payload cause.\<close>

definition demote :: "string \<Rightarrow> plum_node \<Rightarrow> plum_node" where
  "demote peer s = s\<lparr>eager_peers := hs_remove peer (eager_peers s), lazy_peers := hs_insert peer (lazy_peers s)\<rparr>"

primrec handle_incoming ::
    "nat \<Rightarrow> string \<Rightarrow> plum_message \<Rightarrow> plum_node \<Rightarrow> (string \<times> plum_message) list \<times> plum_node" where
  "handle_incoming now from (Gossip i p r) s =
     (if bs_contains i (received_messages s) then ([(from, Prune i)], demote from s)
      else
        (let s1 = s\<lparr>received_messages := snd (bs_insert i (received_messages s)),
                    pending_grafts := snd (bm_remove i (pending_grafts s)),
                    payload_cache := snd (bm_insert i p (payload_cache s))\<rparr>
         in (map (\<lambda>peer. (peer, Gossip i p (sat_add U32_MAX r 1))) (filter (\<lambda>peer. peer \<noteq> from) (eager_peers s1))
             @ map (\<lambda>peer. (peer, IHave i (sat_add U32_MAX r 1))) (filter (\<lambda>peer. peer \<noteq> from) (lazy_peers s1)), s1)))"
| "handle_incoming now from (IHave i r) s =
     (if \<not> is_plausible_event_id i then ([], s)
      else
        (case consume_graft_credit now from s of (granted, s1) \<Rightarrow>
           if \<not> granted then ([], s1)
           else if \<not> bs_contains i (received_messages s1) \<and> \<not> bm_contains_key i (pending_grafts s1)
           then ([(from, Graft i)], s1\<lparr>pending_grafts := snd (bm_insert i from (pending_grafts s1))\<rparr>)
           else ([], s1)))"
| "handle_incoming now from (Graft i) s =
     (let s1 = (if from \<in> set (lazy_peers s) \<and> length (eager_peers s) < EAGER_PEER_CAP
                then s\<lparr>lazy_peers := hs_remove from (lazy_peers s), eager_peers := hs_insert from (eager_peers s)\<rparr>
                else s)
      in (case bm_get i (payload_cache s1) of
            Some payload \<Rightarrow> ([(from, Gossip i payload 0)], s1)
          | None \<Rightarrow> ([], s1)))"
| "handle_incoming now from (Prune i) s = ([], demote from s)"

subsection \<open>The invariant\<close>

definition peers_ok :: "plum_node \<Rightarrow> bool" where
  "peers_ok s \<longleftrightarrow> length (eager_peers s) \<le> EAGER_PEER_CAP \<and> distinct (eager_peers s) \<and> distinct (lazy_peers s)
     \<and> hm_wf (graft_windows s) \<and> (\<forall>e \<in> ran (map_of (graft_windows s)). snd e \<le> GRAFT_CREDITS_PER_WINDOW)"

definition messages_ok :: "plum_node \<Rightarrow> bool" where
  "messages_ok s \<longleftrightarrow> bs_ok (received_messages s) \<and> bs_capacity (received_messages s) = MAX_RECEIVED_MESSAGES
     \<and> bm_ok (pending_grafts s) \<and> bm_capacity (pending_grafts s) = MAX_PENDING_GRAFTS
     \<and> bm_ok (payload_cache s) \<and> bm_capacity (payload_cache s) = MAX_RECEIVED_MESSAGES
     \<and> bm_order (payload_cache s) = bs_order (received_messages s)
     \<and> set (bm_order (pending_grafts s)) \<inter> set (bs_order (received_messages s)) = {}"

definition plum_ok :: "plum_node \<Rightarrow> bool" where
  "plum_ok s \<longleftrightarrow> peers_ok s \<and> messages_ok s"

lemma plum_ok_new: "plum_ok (plum_new i)"
  by (simp add: plum_ok_def peers_ok_def messages_ok_def plum_new_def bs_ok_new bm_ok_new)
     (simp add: bs_new_def bm_new_def)

lemma ran_hm_put: "ran (map_of (hm_put k v m)) \<subseteq> insert v (ran (map_of m))"
  by (auto simp: ran_def)

lemma length_hs_insert_less: "length xs < n \<Longrightarrow> length (hs_insert x xs) \<le> n"
  using length_hs_insert [of x xs] by simp

lemma hs_remove_within: "length xs \<le> n \<Longrightarrow> length (hs_remove x xs) \<le> n"
  using length_hs_remove [of x xs] by simp

lemma add_peer_ok: "plum_ok s \<Longrightarrow> plum_ok (add_peer peer s)"
  by (auto simp: plum_ok_def peers_ok_def messages_ok_def add_peer_def length_hs_insert_less)

lemma remove_peer_ok: "plum_ok s \<Longrightarrow> plum_ok (remove_peer peer s)"
  by (auto simp: plum_ok_def peers_ok_def messages_ok_def remove_peer_def hs_remove_within)

lemma demote_ok: "plum_ok s \<Longrightarrow> plum_ok (demote peer s)"
  by (auto simp: plum_ok_def peers_ok_def messages_ok_def demote_def hs_remove_within)

lemma credit_frame:
  "\<exists>w. snd (consume_graft_credit now peer s) = s\<lparr>graft_windows := w\<rparr>"
  by (auto simp: consume_graft_credit_def Let_def)

lemma credit_ok:
  assumes "peers_ok s"
  shows "peers_ok (snd (consume_graft_credit now peer s))"
proof -
  have le: "snd e \<le> GRAFT_CREDITS_PER_WINDOW" if "map_of (graft_windows s) peer = Some e" for e
    using assms that ranI [of "map_of (graft_windows s)"] by (simp add: peers_ok_def)
  have put: "peers_ok (s\<lparr>graft_windows := hm_put peer e (graft_windows s)\<rparr>)"
    if "snd e \<le> GRAFT_CREDITS_PER_WINDOW" for e
    using assms that ran_hm_put [of peer e "graft_windows s"] unfolding peers_ok_def by auto
  show ?thesis
    by (cases "map_of (graft_windows s) peer")
      (auto simp: consume_graft_credit_def Let_def intro!: put dest!: le)
qed

lemma credit_plum_ok: "plum_ok s \<Longrightarrow> plum_ok (snd (consume_graft_credit now peer s))"
  using credit_ok [of s now peer] credit_frame [of now peer s] by (auto simp: plum_ok_def messages_ok_def)

lemma gossip_new_ok:
  assumes "messages_ok s" "\<not> bs_contains i (received_messages s)"
  shows "messages_ok (s\<lparr>received_messages := snd (bs_insert i (received_messages s)),
                    pending_grafts := snd (bm_remove i (pending_grafts s)),
                    payload_cache := snd (bm_insert i p (payload_cache s))\<rparr>)"
proof -
  have ok: "bs_ok (received_messages s)" "bm_ok (pending_grafts s)" "bm_ok (payload_cache s)"
    and cap: "0 < bm_capacity (payload_cache s)" using assms(1) by (simp_all add: messages_ok_def)
  have "set (bs_order (snd (bs_insert i (received_messages s)))) \<subseteq> insert i (set (bs_order (received_messages s)))"
    using bs_insert_refines [OF ok(1), of i] by (auto simp: fifo_insert_def dest: in_set_dropD split: if_splits)
  with assms(1) bs_insert_ok [OF ok(1), of i] bs_insert_refines [OF ok(1), of i] bm_remove_ok [OF ok(2), of i]
    bm_insert_spec [OF ok(3) cap, of i p] bm_remove_order [OF ok(2), of i]
  show ?thesis unfolding messages_ok_def by auto
qed

lemma graft_pending_ok:
  assumes "messages_ok s" "\<not> bs_contains i (received_messages s)"
  shows "messages_ok (s\<lparr>pending_grafts := snd (bm_insert i from (pending_grafts s))\<rparr>)"
proof -
  have ok: "bm_ok (pending_grafts s)" and cap: "0 < bm_capacity (pending_grafts s)"
    using assms(1) by (simp_all add: messages_ok_def)
  have "i \<notin> set (bs_order (received_messages s))" using assms by (simp add: messages_ok_def bset.has_iff)
  moreover have "set (bm_order (snd (bm_insert i from (pending_grafts s)))) \<subseteq> insert i (set (bm_order (pending_grafts s)))"
    using bm_insert_spec [OF ok cap, of i "from"] by (auto simp: fifo_insert_def dest: in_set_dropD split: if_splits)
  ultimately show ?thesis using assms(1) bm_insert_spec [OF ok cap, of i "from"] unfolding messages_ok_def by auto
qed


lemma gossip_ok:
  assumes "plum_ok s"
  shows "plum_ok (snd (handle_incoming now from (Gossip i p r) s))"
proof (cases "bs_contains i (received_messages s)")
  case True
  then show ?thesis using demote_ok [OF assms] by simp
next
  case False
  then show ?thesis using assms gossip_new_ok [of s i p] by (simp add: plum_ok_def peers_ok_def Let_def)
qed

lemma ihave_ok:
  assumes "plum_ok s"
  shows "plum_ok (snd (handle_incoming now from (IHave i r) s))"
proof -
  obtain g s1 where c: "consume_graft_credit now from s = (g, s1)" by fastforce
  then have ok: "plum_ok s1" using credit_plum_ok [OF assms, of now "from"] by simp
  have "plum_ok (s1\<lparr>pending_grafts := snd (bm_insert i from (pending_grafts s1))\<rparr>)"
    if "\<not> bs_contains i (received_messages s1)"
    using ok that graft_pending_ok [of s1 i "from"] by (simp add: plum_ok_def peers_ok_def)
  then show ?thesis using c ok assms by simp
qed

lemma graft_ok:
  assumes "plum_ok s"
  shows "plum_ok (snd (handle_incoming now from (Graft i) s))"
  using assms
  by (auto simp: plum_ok_def peers_ok_def messages_ok_def Let_def length_hs_insert_less split: option.split)

lemma handle_incoming_ok: "plum_ok s \<Longrightarrow> plum_ok (snd (handle_incoming now from m s))"
  by (cases m) (simp_all only: gossip_ok ihave_ok graft_ok, simp add: demote_ok)

subsection \<open>Runs of a node\<close>

datatype plum_input = AddPeer string | RemovePeer string | Incoming nat string plum_message

primrec plum_event :: "plum_input \<Rightarrow> plum_node \<Rightarrow> plum_node" where
  "plum_event (AddPeer peer) s = add_peer peer s"
| "plum_event (RemovePeer peer) s = remove_peer peer s"
| "plum_event (Incoming now from m) s = snd (handle_incoming now from m s)"

inductive plum_step :: "plum_node \<Rightarrow> plum_node \<Rightarrow> bool" where
  "plum_step s (plum_event e s)"

inductive_cases plum_stepE: "plum_step s s'"

lemma plum_event_ok: "plum_ok s \<Longrightarrow> plum_ok (plum_event e s)"
  by (cases e) (simp_all add: add_peer_ok remove_peer_ok handle_incoming_ok)

interpretation plum: safe_machine "\<lambda>s. \<exists>i. s = plum_new i" plum_step plum_ok
  by unfold_locales (auto intro: plum_ok_new plum_event_ok elim!: plum_stepE)

abbreviation plum_run :: "plum_input list \<Rightarrow> plum_node \<Rightarrow> plum_node" where
  "plum_run es s \<equiv> fold plum_event es s"

lemma plum_run_ok: "plum_ok s \<Longrightarrow> plum_ok (plum_run es s)"
  by (induction es arbitrary: s) (simp_all add: plum_event_ok)

lemma plum_run_steps: "plum_step\<^sup>*\<^sup>* s (plum_run es s)"
  by (induction es arbitrary: s) (auto intro: converse_rtranclp_into_rtranclp plum_step.intros)

text \<open>The ids an event offers to the received set.\<close>

primrec gossip_id :: "plum_message \<Rightarrow> string list" where
  "gossip_id (Gossip i p r) = [i]"
| "gossip_id (IHave i r) = []"
| "gossip_id (Graft i) = []"
| "gossip_id (Prune i) = []"

primrec event_ids :: "plum_input \<Rightarrow> string list" where
  "event_ids (AddPeer peer) = []"
| "event_ids (RemovePeer peer) = []"
| "event_ids (Incoming now from m) = gossip_id m"

lemma credit_messages:
  "consume_graft_credit now peer s = (g, s1) \<Longrightarrow> received_messages s1 = received_messages s
    \<and> payload_cache s1 = payload_cache s \<and> pending_grafts s1 = pending_grafts s"
  using credit_frame [of now peer s] by auto

lemma received_duplicate: "bs_contains i b \<Longrightarrow> snd (bs_insert i b) = b"
  by (simp add: bs_insert_def bs_contains_def)

lemma incoming_received:
  "received_messages (snd (handle_incoming now from m s))
    = fold (\<lambda>k b. snd (bs_insert k b)) (gossip_id m) (received_messages s)"
  by (cases m) (auto simp: received_duplicate demote_def Let_def credit_messages split: option.split prod.split)

lemma event_received:
  "received_messages (plum_event e s) = fold (\<lambda>k b. snd (bs_insert k b)) (event_ids e) (received_messages s)"
  by (cases e) (simp_all add: add_peer_def remove_peer_def incoming_received)

lemma run_received:
  "received_messages (plum_run es s)
    = fold (\<lambda>k b. snd (bs_insert k b)) (concat (map event_ids es)) (received_messages s)"
  by (induction es arbitrary: s) (simp_all add: event_received)

lemma length_event_ids: "length (event_ids e) \<le> 1"
proof (cases e)
  case (Incoming now "from" m)
  then show ?thesis by (cases m) simp_all
qed simp_all

lemma length_run_ids: "length (concat (map event_ids es)) \<le> length es"
proof (induction es)
  case (Cons e es)
  then show ?case using length_event_ids [of e] by simp
qed simp


lemma remembered_in_run:
  assumes "plum_ok s" "bs_order (received_messages s) = bs_order (snd (bs_insert i b))"
    "received_messages s = snd (bs_insert i b)" "bs_ok b" "bs_capacity b = MAX_RECEIVED_MESSAGES"
    "\<not> bs_contains i b" "length es < MAX_RECEIVED_MESSAGES"
  shows "bs_contains i (received_messages (plum_run es s))"
proof -
  have "length (concat (map event_ids es)) < bs_capacity b" using assms length_run_ids [of es] by simp
  moreover have "i \<notin> set (bs_order b)" using assms by (simp add: bset.has_iff)
  ultimately show ?thesis
    using bset.window [OF assms(4), of "concat (map event_ids es)" i] assms(3) by (simp add: run_received)
qed

text \<open>While an id stays remembered, its cached payload does not change.\<close>

lemma incoming_cached:
  assumes "plum_ok s" "bs_contains i (received_messages s)" "bm_get i (payload_cache s) = Some p"
    and rem: "bs_contains i (received_messages (snd (handle_incoming now from m s)))"
  shows "bm_get i (payload_cache (snd (handle_incoming now from m s))) = Some p"
proof (cases m)
  case (Gossip k q r)
  show ?thesis
  proof (cases "bs_contains k (received_messages s)")
    case True
    then show ?thesis using Gossip assms(3) by (simp add: demote_def)
  next
    case False
    then have "k \<noteq> i" using assms(2) by blast
    have ok: "bm_ok (payload_cache s)" "0 < bm_capacity (payload_cache s)"
      using assms(1) by (simp_all add: plum_ok_def messages_ok_def)
    have c: "payload_cache (snd (handle_incoming now from m s)) = snd (bm_insert k q (payload_cache s))"
      using False Gossip by (simp add: Let_def)
    have m: "messages_ok (snd (handle_incoming now from m s))"
      using handle_incoming_ok [OF assms(1)] by (simp add: plum_ok_def)
    then have "i \<in> set (bs_order (received_messages (snd (handle_incoming now from m s))))"
      using rem by (simp add: messages_ok_def bset.has_iff)
    then have "i \<in> set (bm_order (snd (bm_insert k q (payload_cache s))))" using m unfolding messages_ok_def c by simp
    then show ?thesis using bm_get_other [OF ok \<open>k \<noteq> i\<close>, of q] assms(3) c by simp
  qed
qed (use assms(3) in \<open>auto simp: demote_def Let_def credit_messages split: option.split prod.split\<close>)

lemma event_cached:
  assumes "plum_ok s" "bs_contains i (received_messages s)" "bm_get i (payload_cache s) = Some p"
    "bs_contains i (received_messages (plum_event e s))"
  shows "bm_get i (payload_cache (plum_event e s)) = Some p"
  using assms incoming_cached [OF assms(1-3)] by (cases e) (auto simp: add_peer_def remove_peer_def)

lemma run_cached:
  assumes "plum_ok s" "bm_get i (payload_cache s) = Some p"
    and rem: "\<forall>n \<le> length es. bs_contains i (received_messages (plum_run (take n es) s))"
  shows "bm_get i (payload_cache (plum_run es s)) = Some p"
  using rem
proof (induction es rule: rev_induct)
  case Nil
  then show ?case using assms(2) by simp
next
  case (snoc e es)
  have c: "bs_contains i (received_messages (plum_run (take n es) s))" if "n \<le> length es" for n
    using snoc.prems that by (metis butlast_snoc le_SucI length_append_singleton take_butlast nat_less_le le_eq_less_or_eq
        less_Suc_eq_le take_append append_Nil2 diff_is_0_eq take_0)
  then have "bm_get i (payload_cache (plum_run es s)) = Some p" using snoc.IH by blast
  moreover have "bs_contains i (received_messages (plum_run es s))" using c [of "length es"] by simp
  moreover have "bs_contains i (received_messages (plum_event e (plum_run es s)))"
    using snoc.prems [rule_format, of "Suc (length es)"] by simp
  ultimately show ?case using event_cached [OF plum_run_ok [OF assms(1)]] by simp
qed

text \<open>A payload that is new to the node.\<close>

lemma gossip_new:
  assumes "\<not> bs_contains i (received_messages s)"
  shows "received_messages (snd (handle_incoming now from (Gossip i p r) s)) = snd (bs_insert i (received_messages s))"
    "bm_get i (payload_cache (snd (handle_incoming now from (Gossip i p r) s))) = Some p"
  using assms by (simp_all add: Let_def bm_get_insert)

lemma accepted_window:
  assumes ok: "plum_ok s" and new: "\<not> bs_contains i (received_messages s)"
    and s': "s' = snd (handle_incoming now from (Gossip i p r) s)"
    and len: "length es < MAX_RECEIVED_MESSAGES"
  shows "bs_contains i (received_messages (plum_run es s')) \<and> bm_get i (payload_cache (plum_run es s')) = Some p"
proof -
  have ok': "plum_ok s'" unfolding s' by (rule handle_incoming_ok [OF ok])
  have rcv: "received_messages s' = snd (bs_insert i (received_messages s))"
    and cache: "bm_get i (payload_cache s') = Some p" unfolding s' using gossip_new [OF new] by simp_all
  have rem: "bs_contains i (received_messages (plum_run xs s'))" if "length xs < MAX_RECEIVED_MESSAGES" for xs
    using remembered_in_run [OF ok', of i "received_messages s" xs] rcv ok new that
    by (simp add: plum_ok_def messages_ok_def)
  have "bm_get i (payload_cache (plum_run es s')) = Some p"
    using len by (intro run_cached [OF ok' cache]) (simp add: rem)
  with rem [OF len] show ?thesis by blast
qed

lemma graft_answer:
  "bm_get i (payload_cache s) = Some p
    \<Longrightarrow> fst (handle_incoming now peer (Graft i) s) = [(peer, Gossip i p 0)]"
  by (simp add: Let_def)

subsection \<open>Graft credits\<close>

primrec grants :: "nat list \<Rightarrow> string \<Rightarrow> plum_node \<Rightarrow> bool list" where
  "grants [] peer s = []"
| "grants (t # ts) peer s =
     (case consume_graft_credit t peer s of (g, s1) \<Rightarrow> g # grants ts peer s1)"

lemma grants_in_window:
  "map_of (graft_windows s) peer = Some (w, c) \<Longrightarrow> \<forall>t \<in> set ts. t - w < GRAFT_WINDOW
    \<Longrightarrow> length (filter id (grants ts peer s)) = min c (length ts)"
proof (induction ts arbitrary: s c)
  case (Cons t ts)
  show ?case
  proof (cases "c = 0")
    case True
    with Cons show ?thesis by (simp add: consume_graft_credit_def)
  next
    case False
    with Cons show ?thesis by (simp add: consume_graft_credit_def min_def) linarith
  qed
qed simp

lemma grants_fresh:
  assumes "map_of (graft_windows s) peer = None" "\<forall>x \<in> set ts. x - t < GRAFT_WINDOW"
  shows "length (filter id (grants (t # ts) peer s)) = min GRAFT_CREDITS_PER_WINDOW (Suc (length ts))"
  using assms
  by (simp add: consume_graft_credit_def grants_in_window [where w = t and c = 15] min_def)


subsection \<open>What a node promises\<close>

text \<open>In every reachable state of a gossip node at most 64 peers are eager, at most 10,000 ids are remembered, at most
  4,096 grafts are pending, the payload cache holds exactly the remembered ids, and no graft is pending for a message
  that has been received.\<close>

theorem plumtree_bounded:
  assumes "plum_step\<^sup>*\<^sup>* (plum_new i) s"
  shows "length (eager_peers s) \<le> 64 \<and> bs_len (received_messages s) \<le> 10000
    \<and> length (bm_order (pending_grafts s)) \<le> 4096
    \<and> (\<forall>m. bm_contains_key m (payload_cache s) \<longleftrightarrow> bs_contains m (received_messages s))
    \<and> (\<forall>m. \<not> (bm_contains_key m (pending_grafts s) \<and> bs_contains m (received_messages s)))"
proof -
  have "plum_ok s" by (rule plum.reachable_inv [OF _ assms]) blast
  then have p: "peers_ok s" and m: "messages_ok s" by (simp_all add: plum_ok_def)
  have "bs_len (received_messages s) \<le> 10000" using m bs_len_order [of "received_messages s"] by (simp add: messages_ok_def bs_ok_def)
  moreover have "length (bm_order (pending_grafts s)) \<le> 4096" using m by (simp add: messages_ok_def bm_ok_def)
  moreover have "bm_contains_key k (payload_cache s) \<longleftrightarrow> bs_contains k (received_messages s)"
    "\<not> (bm_contains_key k (pending_grafts s) \<and> bs_contains k (received_messages s))" for k
    using m by (auto simp: messages_ok_def bm_has bset.has_iff)
  ultimately show ?thesis using p by (simp add: peers_ok_def)
qed

theorem plumtree_bounded_witness:
  "\<exists>s. plum_step\<^sup>*\<^sup>* (plum_new ''me'') s \<and> eager_peers s = [''p''] \<and> length (eager_peers s) \<le> 64"
proof -
  have s: "plum_step\<^sup>*\<^sup>* (plum_new ''me'') (plum_run [AddPeer ''p''] (plum_new ''me''))" by (rule plum_run_steps)
  have "eager_peers (plum_run [AddPeer ''p''] (plum_new ''me'')) = [''p'']"
    by (simp add: add_peer_def plum_new_def hs_insert_def)
  with s plumtree_bounded [OF s] show ?thesis by blast
qed

text \<open>C4. A payload is accepted once and can be fetched. When a payload with a new id arrives it is pushed to exactly the
  eager peers other than its sender and announced to the lazy ones; after any fewer than 10,000 further events (messages
  of any kind, peers joining and leaving) another copy of it is only answered with a prune, and a graft for it is
  answered with that payload.\<close>

theorem gossip_accepted_once:
  assumes ok: "plum_ok s" and new: "\<not> bs_contains i (received_messages s)"
    and len: "length es < 10000"
    and h: "handle_incoming now from (Gossip i p r) s = (out, s')" and s2: "s2 = plum_run es s'"
  shows "(\<forall>q m. (q, m) \<in> set out \<longleftrightarrow> q \<noteq> from \<and>
        (q \<in> set (eager_peers s) \<and> m = Gossip i p (min U32_MAX (r + 1)) \<or> q \<in> set (lazy_peers s) \<and> m = IHave i (min U32_MAX (r + 1))))
    \<and> fst (handle_incoming now' q' (Gossip i p' r') s2) = [(q', Prune i)]
    \<and> fst (handle_incoming now' q' (Graft i) s2) = [(q', Gossip i p 0)]"
proof -
  have "bs_contains i (received_messages s2) \<and> bm_get i (payload_cache s2) = Some p"
    unfolding s2 using accepted_window [OF ok new _ len, of s' now "from" p r] h by simp
  then have "fst (handle_incoming now' q' (Gossip i p' r') s2) = [(q', Prune i)]"
    "fst (handle_incoming now' q' (Graft i) s2) = [(q', Gossip i p 0)]" by (simp, intro graft_answer) simp
  moreover have "(q, m) \<in> set out \<longleftrightarrow> q \<noteq> from \<and>
        (q \<in> set (eager_peers s) \<and> m = Gossip i p (min U32_MAX (r + 1)) \<or> q \<in> set (lazy_peers s) \<and> m = IHave i (min U32_MAX (r + 1)))"
    for q m
    using h new by (auto simp: Let_def sat_add_def)
  ultimately show ?thesis by blast
qed

theorem gossip_accepted_once_witness:
  "\<exists>out s'. handle_incoming 1 ''a'' (Gossip ''m'' ''x'' 0) (plum_new ''me'') = (out, s')
    \<and> fst (handle_incoming 3 ''c'' (Gossip ''m'' ''x'' 5) (plum_run [Incoming 2 ''b'' (Prune ''z'')] s')) = [(''c'', Prune ''m'')]
    \<and> fst (handle_incoming 3 ''c'' (Graft ''m'') (plum_run [Incoming 2 ''b'' (Prune ''z'')] s')) = [(''c'', Gossip ''m'' ''x'' 0)]"
proof -
  obtain out s' where h: "handle_incoming 1 ''a'' (Gossip ''m'' ''x'' 0) (plum_new ''me'') = (out, s')" by fastforce
  have "\<not> bs_contains ''m'' (received_messages (plum_new ''me''))" by (simp add: plum_new_def bs_new_def bs_contains_def)
  from gossip_accepted_once [OF plum_ok_new this _ h refl, of "[Incoming 2 ''b'' (Prune ''z'')]"] h show ?thesis by auto
qed

text \<open>An announcement flood is capped. Of any number of announcements a peer sends within a second of its first one, at
  most 16 are granted a graft.\<close>

theorem graft_flood_capped:
  assumes "map_of (graft_windows s) peer = None" "\<forall>x\<in>set ts. x - t < 1000000000"
  shows "length (filter id (grants (t # ts) peer s)) = min 16 (Suc (length ts))"
  using assms by (rule grants_fresh)

theorem graft_flood_capped_witness:
  "length (filter id (grants (7 # replicate 100 8) ''p'' (plum_new ''me''))) = min 16 (Suc (length (replicate 100 (8 :: nat))))"
  by (rule graft_flood_capped) (simp_all add: plum_new_def)

text \<open>Membership is not checked on a prune. A peer that was never added enters the lazy set by sending a prune, beyond
  the cap of that set, and the eager set by sending a graft after it, as long as there is an eager slot.\<close>

theorem prune_admits_strangers:
  assumes "q \<notin> set (eager_peers s)" "q \<notin> set (lazy_peers s)" "length (eager_peers s) < 64"
    and "s1 = snd (handle_incoming now q (Prune i) s)" and "s2 = snd (handle_incoming now q (Graft j) s1)"
  shows "length (lazy_peers s1) = Suc (length (lazy_peers s)) \<and> q \<in> set (eager_peers s2)"
proof -
  have "length (eager_peers s1) < 64" "q \<in> set (lazy_peers s1)"
    using assms(3,4) length_hs_remove [of q "eager_peers s"] by (simp_all add: demote_def)
  then have "q \<in> set (eager_peers s2)" using assms(5) by (auto simp: Let_def split: option.split)
  moreover have "length (lazy_peers s1) = Suc (length (lazy_peers s))" using assms(2,4) by (simp add: demote_def hs_insert_def)
  ultimately show ?thesis by blast
qed

theorem prune_admits_strangers_witness:
  "''mallory'' \<in> set (eager_peers (snd (handle_incoming 1 ''mallory'' (Graft ''y'')
      (snd (handle_incoming 1 ''mallory'' (Prune ''x'') (plum_new ''me''))))))"
  using prune_admits_strangers [of "''mallory''" "plum_new ''me''" _ 1 "''x''" _ "''y''", OF _ _ _ refl refl]
  by (simp add: plum_new_def)

end
