(* ===== verification/Ring.thy ===== *)
theory Ring
  imports Tables
begin

section \<open>The telemetry ring buffer (telemetry-core/src/ring.rs)\<close>

text \<open>
  A memory-mapped ring shared with a foreign writer: the mapped bytes are a byte list with a header (head, tail,
  capacity) and the data; reads and writes at an offset panic out of range, as slices do. The writer stores entries and
  advances the head; the consumer drains up to the head.

  \<open>laid_out\<close> is the documented format: from the tail on, entries one after the other, a zero word where the writer
  wrapped. Shown: a drain returns exactly the entries laid out and consumes them; a drain of arbitrary
  bytes terminates, and does so without a panic when entry sizes are multiples of four; an unaligned size can lead to
  a read past the map.
\<close>

abbreviation RING_HEADER_LEN :: nat where "RING_HEADER_LEN \<equiv> 4096"
abbreviation RING_ENTRY_MAX_PAYLOAD :: nat where "RING_ENTRY_MAX_PAYLOAD \<equiv> 4096"
abbreviation RING_ENTRY_HEADER :: nat where "RING_ENTRY_HEADER \<equiv> 17"
abbreviation RING_ENTRY_MAX_TOTAL :: nat where "RING_ENTRY_MAX_TOTAL \<equiv> 4116"
definition MAX_RING_CAPACITY :: nat where "MAX_RING_CAPACITY = 268435456"
definition MAX_REGISTERED_RINGS :: nat where "MAX_REGISTERED_RINGS = 32"

record drained_entry =
  de_kind :: byte
  de_payload :: "byte list"

record shared_ring =
  rmap :: "byte list"
  rcapacity :: nat

definition read_le :: "nat \<Rightarrow> byte list \<Rightarrow> nat \<Rightarrow> nat res" where
  "read_le n bs off = and_then (slice off (off + n) bs) (\<lambda>b. Ok (le_val b))"

definition read_u64 :: "byte list \<Rightarrow> nat \<Rightarrow> nat res" where
  "read_u64 bs off = read_le 8 bs off"

definition read_u32 :: "byte list \<Rightarrow> nat \<Rightarrow> nat res" where
  "read_u32 bs off = read_le 4 bs off"

text \<open>\<open>map[a..b].copy_from_slice(..)\<close>\<close>

definition write_at :: "nat \<Rightarrow> byte list \<Rightarrow> byte list \<Rightarrow> byte list res" where
  "write_at off b bs = (if off + length b \<le> length bs then Ok (take off bs @ b @ drop (off + length b) bs) else Panic)"

text \<open>\<open>opened\<close>: the bytes of the file (none if it was created) or the error; \<open>resize_ok\<close> and \<open>mmap_ok\<close>: whether the
  system calls succeed. Setting the permissions is not modelled.\<close>

definition ring_format :: "nat \<Rightarrow> byte list \<Rightarrow> byte list res" where
  "ring_format cap m =
     and_then (read_u64 m 0) (\<lambda>existing.
     if existing = 0 then
       and_then (write_at 0 (le_bytes 8 0) m) (\<lambda>m1.
       and_then (write_at 8 (le_bytes 8 0) m1) (\<lambda>m2. write_at 16 (le_bytes 4 cap) m2))
     else Ok m)"

definition ring_fit :: "nat \<Rightarrow> byte list \<Rightarrow> byte list" where
  "ring_fit tot file = take tot (file @ replicate (tot - length file) 0)"

definition ring_init :: "byte list res \<Rightarrow> bool \<Rightarrow> bool \<Rightarrow> nat \<Rightarrow> shared_ring res" where
  "ring_init opened resize_ok mmap_ok capacity_bytes =
     (if capacity_bytes > MAX_RING_CAPACITY then Err ''ring capacity too large''
      else let cap = (max capacity_bytes 65536 + 4095) div 4096 * 4096; tot = RING_HEADER_LEN + cap in
        and_then opened (\<lambda>file.
        and_then (if length file \<ge> RING_HEADER_LEN + 4 then read_u32 file 16 else Ok 0) (\<lambda>existing_cap.
        if existing_cap \<noteq> 0 \<and> existing_cap \<noteq> cap then Err ''ring capacity shrink not supported''
        else if length file < tot \<and> \<not> resize_ok then Err ''ring resize''
        else if \<not> mmap_ok then Err ''ring mmap''
        else and_then (ring_format cap (ring_fit tot file)) (\<lambda>m. Ok \<lparr>rmap = m, rcapacity = cap\<rparr>))))"

definition ring_head :: "shared_ring \<Rightarrow> nat res" where
  "ring_head r = read_u64 (rmap r) 0"

definition advance_head :: "nat \<Rightarrow> shared_ring \<Rightarrow> (unit res \<times> shared_ring) res" where
  "advance_head new_head r =
     and_then (ring_head r) (\<lambda>old.
     if new_head < old then Ok (Err ''head rewind'', r)
     else if new_head - old > rcapacity r then Ok (Err ''head advanced beyond capacity'', r)
     else and_then (write_at 0 (le_bytes 8 new_head) (rmap r)) (\<lambda>m. Ok (Ok (), r\<lparr>rmap := m\<rparr>)))"

text \<open>The entry at a data index, after its size \<open>tot\<close> was accepted.\<close>

definition read_entry :: "byte list \<Rightarrow> nat \<Rightarrow> nat \<Rightarrow> drained_entry res" where
  "read_entry m idx tot =
     (let base = RING_HEADER_LEN + idx in
      and_then (slice (base + 4) (base + 5) m) (\<lambda>kind.
      and_then (read_u32 m (base + 13)) (\<lambda>payload_len.
      let start = base + RING_ENTRY_HEADER in
      and_then (if payload_len \<le> RING_ENTRY_MAX_PAYLOAD \<and> payload_len \<le> tot - RING_ENTRY_HEADER
                   \<and> start + payload_len \<le> length m
                then slice start (start + payload_len) m else Ok []) (\<lambda>payload.
      Ok \<lparr>de_kind = hd kind, de_payload = payload\<rparr>))))"

text \<open>One round of the drain loop: the new tail and the entry handed to the callback.\<close>

definition drain_step :: "byte list \<Rightarrow> nat \<Rightarrow> nat \<Rightarrow> (nat \<times> drained_entry list) res" where
  "drain_step m cap tail =
     (if cap = 0 then Panic
      else let idx = tail mod cap in
        and_then (read_u32 m (RING_HEADER_LEN + idx)) (\<lambda>tot.
        if tot = 0 then and_then (add_u64 tail (cap - idx)) (\<lambda>t. Ok (t, []))
        else if \<not> (RING_ENTRY_HEADER \<le> tot \<and> tot \<le> RING_ENTRY_MAX_TOTAL) \<or> idx + tot > cap
        then and_then (add_u64 tail 4) (\<lambda>t. Ok (t, []))
        else and_then (read_entry m idx tot) (\<lambda>e.
             and_then (add_u64 tail tot) (\<lambda>t. Ok (t, [e])))))"

lemma wrap_advances: "0 < cap \<Longrightarrow> t < t + (cap - t mod cap)" for t cap :: nat
  using mod_less_divisor [of cap t] by linarith

lemma drain_step_advances:
  assumes "drain_step m cap t = Ok (t', es)"
  shows "t < t'"
proof -
  have "t' = t + (cap - t mod cap) \<and> 0 < cap \<or> t' = t + 4 \<or> (\<exists>tot\<ge>RING_ENTRY_HEADER. t' = t + tot)"
    using assms by (auto simp: drain_step_def Let_def simp del: add_diff_assoc2 Nat.add_diff_assoc split: if_splits)
  then show ?thesis using wrap_advances [of cap t] by auto
qed

function drain_loop :: "byte list \<Rightarrow> nat \<Rightarrow> nat \<Rightarrow> nat \<Rightarrow> drained_entry list \<Rightarrow> (nat \<times> drained_entry list) res" where
  "drain_loop m cap head tail acc =
     (if tail < head then
        (case drain_step m cap tail of
           Ok (tail', es) \<Rightarrow> drain_loop m cap head tail' (acc @ es)
         | Err e \<Rightarrow> Err e
         | Panic \<Rightarrow> Panic)
      else Ok (tail, acc))"
  by pat_completeness auto
termination
  by (relation "measure (\<lambda>(m, cap, head, tail, acc). head - tail)") (auto dest: drain_step_advances)

declare drain_loop.simps [simp del]

definition drain :: "shared_ring \<Rightarrow> (drained_entry list \<times> shared_ring) res" where
  "drain r =
     and_then (read_u64 (rmap r) 8) (\<lambda>tail0.
     and_then (ring_head r) (\<lambda>head.
     let tail = (if tail0 > head then head
                 else if head > rcapacity r \<and> tail0 < head - rcapacity r then head - rcapacity r else tail0) in
     and_then (drain_loop (rmap r) (rcapacity r) head tail []) (\<lambda>(tail', es).
     and_then (write_at 8 (le_bytes 8 tail') (rmap r)) (\<lambda>m. Ok (es, r\<lparr>rmap := m\<rparr>)))))"

definition ring_pending :: "shared_ring \<Rightarrow> nat res" where
  "ring_pending r = and_then (ring_head r) (\<lambda>head. and_then (read_u64 (rmap r) 8) (\<lambda>tail. Ok (min (head - tail) (rcapacity r))))"

subsection \<open>The registry\<close>

type_synonym rings = "(nat, shared_ring) hmap"

text \<open>\<open>addr\<close> is the address the kernel chose for the map.\<close>

definition register_ring :: "byte list res \<Rightarrow> bool \<Rightarrow> bool \<Rightarrow> nat \<Rightarrow> nat \<Rightarrow> rings \<Rightarrow> nat res \<times> rings" where
  "register_ring opened resize_ok mmap_ok addr capacity_bytes reg =
     (if length reg \<ge> MAX_REGISTERED_RINGS then (Err ''too many registered rings'', reg)
      else case ring_init opened resize_ok mmap_ok capacity_bytes of
          Ok r \<Rightarrow> (Ok addr, hm_put addr r reg)
        | Err e \<Rightarrow> (Err e, reg)
        | Panic \<Rightarrow> (Panic, reg))"

definition unregister_ring :: "nat \<Rightarrow> rings \<Rightarrow> rings" where
  "unregister_ring addr reg = hm_del addr reg"

definition with_ring :: "nat \<Rightarrow> rings \<Rightarrow> (shared_ring \<Rightarrow> 'a res) \<Rightarrow> 'a res" where
  "with_ring addr reg f = and_then (ok_or ''unknown ring addr'' (map_of reg addr)) f"

definition ffi_advance_head :: "nat \<Rightarrow> nat \<Rightarrow> rings \<Rightarrow> (unit res \<times> rings) res" where
  "ffi_advance_head addr new_head reg =
     with_ring addr reg (\<lambda>r. and_then (advance_head new_head r) (\<lambda>(res, r'). Ok (res, hm_put addr r' reg)))"

definition ffi_drain :: "nat \<Rightarrow> rings \<Rightarrow> (drained_entry list \<times> rings) res" where
  "ffi_drain addr reg = with_ring addr reg (\<lambda>r. and_then (drain r) (\<lambda>(es, r'). Ok (es, hm_put addr r' reg)))"

definition ffi_pending :: "nat \<Rightarrow> rings \<Rightarrow> nat res" where
  "ffi_pending addr reg = with_ring addr reg ring_pending"


subsection \<open>Well-formed rings\<close>

definition ring_wf :: "shared_ring \<Rightarrow> bool" where
  "ring_wf r \<longleftrightarrow> length (rmap r) = RING_HEADER_LEN + rcapacity r \<and> 65536 \<le> rcapacity r \<and> 4096 dvd rcapacity r"

definition cursor :: "nat \<Rightarrow> shared_ring \<Rightarrow> nat" where
  "cursor off r = le_val (take 8 (drop off (rmap r)))"

lemma read_le_ok: "off + n \<le> length bs \<Longrightarrow> read_le n bs off = Ok (le_val (take n (drop off bs)))"
  by (simp add: read_le_def slice_def)

lemma read_le_not_Err [simp]: "read_le n bs off \<noteq> Err e"
  by (simp add: read_le_def slice_def)

lemma ring_cursors:
  assumes "ring_wf r"
  shows "ring_head r = Ok (cursor 0 r)" "read_u64 (rmap r) 8 = Ok (cursor 8 r)"
  using assms by (simp_all add: ring_head_def read_u64_def read_le_ok cursor_def ring_wf_def)

lemma ring_pending_eq: "ring_wf r \<Longrightarrow> ring_pending r = Ok (min (cursor 0 r - cursor 8 r) (rcapacity r))"
  by (simp add: ring_pending_def ring_cursors)

lemma write_at_Ok: "write_at off b bs = Ok bs' \<Longrightarrow> length bs' = length bs"
  by (auto simp: write_at_def split: if_splits)

lemma cursor_write:
  assumes "write_at off (le_bytes 8 n) (rmap r) = Ok m" "n \<le> U64_MAX"
  shows "cursor off (r\<lparr>rmap := m\<rparr>) = n"
proof -
  have "m = take off (rmap r) @ le_bytes 8 n @ drop (off + 8) (rmap r)" "off + 8 \<le> length (rmap r)"
    using assms(1) by (auto simp: write_at_def split: if_splits)
  then show ?thesis using assms(2) by (simp add: cursor_def)
qed

lemma cursor_write_other:
  assumes "write_at off (le_bytes 8 n) (rmap r) = Ok m" "off' + 8 \<le> off \<or> off + 8 \<le> off'"
  shows "cursor off' (r\<lparr>rmap := m\<rparr>) = cursor off' r"
proof -
  have m: "m = take off (rmap r) @ le_bytes 8 n @ drop (off + 8) (rmap r)" "off + 8 \<le> length (rmap r)"
    using assms(1) by (auto simp: write_at_def split: if_splits)
  from assms(2) show ?thesis
  proof
    assume "off' + 8 \<le> off"
    then have "8 \<le> off - off'" "off' \<le> length (take off (rmap r))" using m(2) by simp_all
    then show ?thesis using m by (simp add: cursor_def drop_take)
  next
    assume a: "off + 8 \<le> off'"
    then have "off + (8 + (off' - off - 8)) = off'" by simp
    with a m show ?thesis by (simp add: cursor_def)
  qed
qed

lemma length_ring_fit [simp]: "length (ring_fit n file) = n"
  by (simp add: ring_fit_def)

lemma ring_format_length: "ring_format cap m = Ok m' \<Longrightarrow> length m' = length m"
  by (auto simp: ring_format_def dest!: write_at_Ok split: if_splits)

lemma ring_init_wf:
  assumes "ring_init opened ro mo n = Ok r"
  shows "ring_wf r"
proof -
  define cap where "cap = (max n 65536 + 4095) div 4096 * 4096"
  have "(65536 + 4095) div 4096 \<le> (max n 65536 + 4095) div (4096 :: nat)" by (rule div_le_mono) simp
  then have cap: "65536 \<le> cap" "4096 dvd cap" by (simp_all add: cap_def)
  obtain m where m: "r = \<lparr>rmap = m, rcapacity = cap\<rparr>" "length m = RING_HEADER_LEN + cap"
    using assms unfolding ring_init_def cap_def [symmetric] Let_def
    by (auto dest: ring_format_length split: if_splits)
  with cap show ?thesis by (simp add: ring_wf_def)
qed

lemma advance_head_wf: "ring_wf r \<Longrightarrow> advance_head h r = Ok (res, r') \<Longrightarrow> ring_wf r'"
  by (auto simp: advance_head_def ring_wf_def dest!: write_at_Ok split: if_splits)

lemma drain_wf: "ring_wf r \<Longrightarrow> drain r = Ok (es, r') \<Longrightarrow> ring_wf r'"
  by (auto simp: drain_def ring_wf_def Let_def dest!: write_at_Ok split: prod.splits)

subsection \<open>The format\<close>

text \<open>\<open>entry_at m idx e tot\<close>: the bytes at a data index are the entry: size, kind, time stamp, payload length, payload.\<close>

definition entry_at :: "byte list \<Rightarrow> nat \<Rightarrow> drained_entry \<Rightarrow> nat \<Rightarrow> bool" where
  "entry_at m idx e tot \<longleftrightarrow>
     (let b = drop (RING_HEADER_LEN + idx) m in
      tot \<le> length b \<and> take 4 b = le_bytes 4 tot \<and> b ! 4 = de_kind e \<and> take 4 (drop 13 b) = le_bytes 4 (length (de_payload e))
      \<and> take (length (de_payload e)) (drop 17 b) = de_payload e
      \<and> RING_ENTRY_HEADER + length (de_payload e) \<le> tot \<and> tot \<le> RING_ENTRY_MAX_TOTAL \<and> length (de_payload e) \<le> RING_ENTRY_MAX_PAYLOAD)"

inductive laid_out :: "byte list \<Rightarrow> nat \<Rightarrow> nat \<Rightarrow> drained_entry list \<Rightarrow> nat \<Rightarrow> bool" for m cap where
  finished: "laid_out m cap t [] t"
| entry: "entry_at m (t mod cap) e tot \<Longrightarrow> t mod cap + tot \<le> cap \<Longrightarrow> laid_out m cap (t + tot) es h
    \<Longrightarrow> laid_out m cap t (e # es) h"
| wrap: "take 4 (drop (RING_HEADER_LEN + t mod cap) m) = [0, 0, 0, 0] \<Longrightarrow> laid_out m cap (t + (cap - t mod cap)) es h
    \<Longrightarrow> laid_out m cap t es h"

lemma laid_out_le: "laid_out m cap t es h \<Longrightarrow> t \<le> h"
  by (induction rule: laid_out.induct) auto


subsection \<open>Draining what was laid out\<close>

lemma entry_at_read:
  assumes "entry_at m idx e tot" "idx + tot \<le> cap" "length m = RING_HEADER_LEN + cap"
  shows "read_u32 m (RING_HEADER_LEN + idx) = Ok tot" "read_entry m idx tot = Ok e"
    "RING_ENTRY_HEADER \<le> tot" "tot \<le> RING_ENTRY_MAX_TOTAL"
proof -
  let ?b = "drop (RING_HEADER_LEN + idx) m" and ?n = "length (de_payload e)"
  have e: "take 4 ?b = le_bytes 4 tot" "?b ! 4 = de_kind e" "take 4 (drop 13 ?b) = le_bytes 4 ?n"
    "take ?n (drop 17 ?b) = de_payload e" "RING_ENTRY_HEADER + ?n \<le> tot" "tot \<le> RING_ENTRY_MAX_TOTAL" "?n \<le> RING_ENTRY_MAX_PAYLOAD"
    using assms(1) by (simp_all add: entry_at_def Let_def)
  show sizes: "RING_ENTRY_HEADER \<le> tot" "tot \<le> RING_ENTRY_MAX_TOTAL" using e by simp_all
  have len: "RING_HEADER_LEN + idx + tot \<le> length m" using assms(2,3) by simp
  show "read_u32 m (RING_HEADER_LEN + idx) = Ok tot" using e(1) sizes len by (simp add: read_u32_def read_le_ok)
  have "slice (RING_HEADER_LEN + idx + 4) (RING_HEADER_LEN + idx + 5) m = Ok [de_kind e]"
    using e(2) sizes len by (simp add: slice_def take_Suc_conv_app_nth [of 0] hd_drop_conv_nth add.assoc take_Suc)
  moreover have "read_u32 m (RING_HEADER_LEN + idx + 13) = Ok ?n"
    using e(3,7) sizes len by (simp add: read_u32_def read_le_ok add.commute)
  moreover have "slice (RING_HEADER_LEN + idx + 17) (RING_HEADER_LEN + idx + 17 + ?n) m = Ok (de_payload e)"
    using e(4,5) len by (simp add: slice_def add.commute)
  moreover have "?n \<le> tot - RING_ENTRY_HEADER" "RING_HEADER_LEN + idx + 17 + ?n \<le> length m" using e(5) len by simp_all
  ultimately have "read_entry m idx tot = Ok \<lparr>de_kind = de_kind e, de_payload = de_payload e\<rparr>"
    using e(7) by (simp only: read_entry_def Let_def and_then.simps if_True list.sel simp_thms)
  then show "read_entry m idx tot = Ok e" by simp
qed

lemma drain_step_entry:
  assumes "entry_at m (t mod cap) e tot" "t mod cap + tot \<le> cap" "length m = RING_HEADER_LEN + cap" "t + tot \<le> U64_MAX"
  shows "drain_step m cap t = Ok (t + tot, [e])"
  using entry_at_read [OF assms(1-3)] assms(2,4) by (auto simp: drain_step_def Let_def)

lemma drain_step_wrap:
  assumes "take 4 (drop (RING_HEADER_LEN + t mod cap) m) = [0, 0, 0, 0]" "0 < cap" "t + (cap - t mod cap) \<le> U64_MAX"
  shows "drain_step m cap t = Ok (t + (cap - t mod cap), [])"
proof -
  have "min 4 (length m - (RING_HEADER_LEN + t mod cap)) = 4" using arg_cong [OF assms(1), of length] by simp
  then have "read_u32 m (RING_HEADER_LEN + t mod cap) = Ok 0"
    using assms(1) by (simp add: read_u32_def read_le_ok le_val_def be_val_def)
  then show ?thesis using assms(2,3) by (simp add: drain_step_def Let_def)
qed

lemma drain_loop_laid_out:
  assumes "laid_out m cap t es h" "length m = RING_HEADER_LEN + cap" "0 < cap" "h \<le> U64_MAX"
  shows "drain_loop m cap h t acc = Ok (h, acc @ es)"
  using assms
proof (induction arbitrary: acc rule: laid_out.induct)
  case (finished t)
  then show ?case by (simp add: drain_loop.simps)
next
  case (entry t e tot es h)
  have le: "t + tot \<le> h" using laid_out_le [OF entry.hyps(3)] .
  have "0 < tot" using entry_at_read(3) [OF entry.hyps(1,2) entry.prems(1)] by simp
  then show ?case
    using entry.IH [OF entry.prems, of "acc @ [e]"] le drain_step_entry [OF entry.hyps(1,2) entry.prems(1)] entry.prems(3)
    by (simp add: drain_loop.simps [of m cap h t])
next
  case (wrap t es h)
  have le: "t + (cap - t mod cap) \<le> h" using laid_out_le [OF wrap.hyps(2)] .
  then have step: "drain_step m cap t = Ok (t + (cap - t mod cap), [])"
    using wrap.prems by (intro drain_step_wrap [OF wrap.hyps(1)]) simp_all
  have "t < h" using le wrap_advances [OF wrap.prems(2), of t] by simp
  then show ?case using wrap.IH [OF wrap.prems, of acc] step by (simp add: drain_loop.simps [of m cap h t])
qed

lemma drain_laid_out:
  assumes wf: "ring_wf r" and out: "laid_out (rmap r) (rcapacity r) (cursor 8 r) es (cursor 0 r)"
    and near: "cursor 0 r - cursor 8 r \<le> rcapacity r"
  shows "\<exists>r'. drain r = Ok (es, r') \<and> ring_wf r' \<and> cursor 8 r' = cursor 0 r \<and> cursor 0 r' = cursor 0 r"
proof -
  have len: "length (rmap r) = RING_HEADER_LEN + rcapacity r" "0 < rcapacity r" using wf by (auto simp: ring_wf_def)
  have "cursor 0 r < 256 ^ length (take 8 (rmap r))" unfolding cursor_def le_val_def
    using be_val_bound [of "rev (take 8 (rmap r))"] by simp
  then have h: "cursor 0 r \<le> U64_MAX" using len by simp
  obtain m where m: "write_at 8 (le_bytes 8 (cursor 0 r)) (rmap r) = Ok m" using len by (simp add: write_at_def)
  have clamp: "\<not> cursor 0 r < cursor 8 r" "\<not> (rcapacity r < cursor 0 r \<and> cursor 8 r < cursor 0 r - rcapacity r)"
    using laid_out_le [OF out] near by auto
  have "drain r = Ok (es, r\<lparr>rmap := m\<rparr>)"
    using drain_loop_laid_out [OF out len h, of "[]"] m clamp
    by (simp only: drain_def ring_cursors [OF wf] and_then.simps Let_def if_False append_Nil split_conv)
  moreover have "cursor 8 (r\<lparr>rmap := m\<rparr>) = cursor 0 r" by (rule cursor_write [OF m h])
  moreover have "cursor 0 (r\<lparr>rmap := m\<rparr>) = cursor 0 r" by (rule cursor_write_other [OF m]) simp
  ultimately show ?thesis using drain_wf [OF wf] by blast
qed


subsection \<open>Draining arbitrary bytes\<close>

definition word_at :: "byte list \<Rightarrow> nat \<Rightarrow> nat" where
  "word_at m i = le_val (take 4 (drop (RING_HEADER_LEN + i) m))"

lemma read_entry_total:
  assumes "length m = RING_HEADER_LEN + cap" "idx + tot \<le> cap" "RING_ENTRY_HEADER \<le> tot"
  shows "\<exists>e. read_entry m idx tot = Ok e"
  using assms by (simp add: read_entry_def Let_def read_u32_def read_le_ok slice_def)

lemma drain_step_aligned:
  assumes m: "length m = RING_HEADER_LEN + cap" "65536 \<le> cap" "4 dvd cap" "t + cap \<le> U64_MAX" "4 dvd t"
    and al: "\<forall>i < cap. 4 dvd i \<longrightarrow> 4 dvd word_at m i"
  shows "\<exists>t' es. drain_step m cap t = Ok (t', es) \<and> 4 dvd t' \<and> t' \<le> t + cap"
proof -
  define i where "i = t mod cap"
  have i: "4 dvd i" "i < cap" using m by (simp_all add: i_def dvd_mod)
  then have i4: "i + 4 \<le> cap" using m(3) by (auto elim!: dvdE)
  have r: "read_u32 m (RING_HEADER_LEN + i) = Ok (word_at m i)"
    using m(1) i4 by (simp add: read_u32_def read_le_ok word_at_def)
  have w: "4 dvd word_at m i" using al i by blast
  have wrap: "4 dvd t + (cap - i)" using m(3,5) i by (simp add: dvd_diff_nat)
  obtain e where e: "RING_ENTRY_HEADER \<le> word_at m i \<and> i + word_at m i \<le> cap \<Longrightarrow> read_entry m i (word_at m i) = Ok e"
    using read_entry_total [OF m(1), of i "word_at m i"] by blast
  show ?thesis
  proof (cases "word_at m i = 0")
    case True
    then show ?thesis using r m(2,4) wrap by (simp add: drain_step_def Let_def i_def [symmetric])
  next
    case False
    show ?thesis
    proof (cases "\<not> (RING_ENTRY_HEADER \<le> word_at m i \<and> word_at m i \<le> RING_ENTRY_MAX_TOTAL) \<or> i + word_at m i > cap")
      case True
      then have "drain_step m cap t = Ok (t + 4, [])"
        using False r m(2,4) by (auto simp: drain_step_def Let_def i_def [symmetric])
      then show ?thesis using m by simp
    next
      case nb: False
      then have "drain_step m cap t = Ok (t + word_at m i, [e])"
        using False r m(2,4) e by (auto simp: drain_step_def Let_def i_def [symmetric])
      then show ?thesis using nb w m by auto
    qed
  qed
qed

lemma drain_loop_aligned:
  assumes "length m = RING_HEADER_LEN + cap" "65536 \<le> cap" "4 dvd cap" "h + cap \<le> U64_MAX" "4 dvd t"
    and "\<forall>i < cap. 4 dvd i \<longrightarrow> 4 dvd word_at m i"
  shows "\<exists>t' es. drain_loop m cap h t acc = Ok (t', es) \<and> h \<le> t'"
  using assms
proof (induction m cap h t acc rule: drain_loop.induct)
  case (1 m cap h t acc)
  show ?case
  proof (cases "t < h")
    case True
    then have "t + cap \<le> U64_MAX" using 1(5) by simp
    from drain_step_aligned [OF 1(2,3,4) this 1(6,7)] obtain t' es where
      s: "drain_step m cap t = Ok (t', es)" "4 dvd t'" by blast
    from 1(1) [OF True s(1) refl 1(2,3,4,5) s(2) 1(7)] show ?thesis using True s(1) by (simp add: drain_loop.simps [of m cap h t])
  next
    case False
    then show ?thesis by (simp add: drain_loop.simps [of m cap h t])
  qed
qed

lemma drain_loop_u64:
  assumes "drain_loop m cap h t acc = Ok (t', es)" "t \<le> U64_MAX"
  shows "t' \<le> U64_MAX"
  using assms
proof (induction m cap h t acc rule: drain_loop.induct)
  case (1 m cap h t acc)
  show ?case
  proof (cases "t < h")
    case True
    with 1(2) obtain u xs where s: "drain_step m cap t = Ok (u, xs)" "drain_loop m cap h u (acc @ xs) = Ok (t', es)"
      by (auto simp: drain_loop.simps [of m cap h t] split: res.splits)
    have "u \<le> U64_MAX" using s(1) by (auto simp: drain_step_def Let_def split: if_splits)
    from 1(1) [OF True s(1) refl s(2) this] show ?thesis .
  next
    case False
    with 1(2,3) show ?thesis by (simp add: drain_loop.simps [of m cap h t])
  qed
qed

text \<open>An index in the last three bytes of the ring, which only an unaligned size leads to.\<close>

lemma drain_loop_past_end:
  assumes "length m = RING_HEADER_LEN + cap" "0 < cap" "t < h" "cap < t mod cap + 4"
  shows "drain_loop m cap h t acc = Panic"
  using assms by (simp add: drain_loop.simps [of m cap h t] drain_step_def Let_def read_u32_def read_le_def slice_def)


subsection \<open>What the consumer promises\<close>

text \<open>C32. A drain returns exactly what the writer laid out. If the bytes from the tail to the head are entries in the
  documented format, with wrap markers where the writer skipped to the next boundary, and the writer is at most one
  capacity ahead, then the drain hands over these entries, in order and with their payloads, and afterwards nothing is
  pending.\<close>

theorem ring_drain_exact:
  assumes "ring_wf r" "laid_out (rmap r) (rcapacity r) (cursor 8 r) es (cursor 0 r)" "cursor 0 r - cursor 8 r \<le> rcapacity r"
  shows "\<exists>r'. drain r = Ok (es, r') \<and> ring_wf r' \<and> ring_pending r' = Ok 0 \<and> drain r' = Ok ([], r')"
proof -
  obtain r' where r': "drain r = Ok (es, r')" "ring_wf r'" "cursor 8 r' = cursor 0 r" "cursor 0 r' = cursor 0 r"
    using drain_laid_out [OF assms] by blast
  have "ring_pending r' = Ok 0" using r'(3,4) by (simp add: ring_pending_eq [OF r'(2)])
  moreover have "drain r' = Ok ([], r')"
  proof -
    have w: "write_at 8 (le_bytes 8 (cursor 8 r')) (rmap r') = Ok (rmap r')"
    proof -
      have len: "16 \<le> length (rmap r')" using r'(2) by (simp add: ring_wf_def)
      have "length (take 8 (drop 8 (rmap r'))) = 8" using len by simp
      then have "le_bytes 8 (cursor 8 r') = take 8 (drop 8 (rmap r'))" by (simp add: cursor_def le_bytes_val_id)
      then have "take 8 (rmap r') @ le_bytes 8 (cursor 8 r') @ drop 16 (rmap r') = rmap r'"
        by (metis add.commute append_take_drop_id drop_drop numeral_Bit0)
      then show ?thesis using len by (simp add: write_at_def)
    qed
    show ?thesis using r'(3,4) w by (auto simp: drain_def ring_cursors [OF r'(2)] drain_loop.simps Let_def)
  qed
  ultimately show ?thesis using r' by blast
qed

text \<open>A ring of the smallest capacity with given cursors and data.\<close>

definition sample_ring :: "nat \<Rightarrow> nat \<Rightarrow> byte list \<Rightarrow> shared_ring" where
  "sample_ring h t data = \<lparr>rmap = le_bytes 8 h @ le_bytes 8 t @ replicate 4080 0 @ data @ replicate (65536 - length data) 0,
     rcapacity = 65536\<rparr>"

lemma sample_ring_facts:
  assumes "length data \<le> 65536" "h \<le> U64_MAX" "t \<le> U64_MAX"
  shows "ring_wf (sample_ring h t data)" "cursor 0 (sample_ring h t data) = h" "cursor 8 (sample_ring h t data) = t"
    "drop (RING_HEADER_LEN + i) (rmap (sample_ring h t data)) = drop i (data @ replicate (65536 - length data) 0)"
    "rcapacity (sample_ring h t data) = 65536"
  using assms by (simp_all add: sample_ring_def ring_wf_def cursor_def)

theorem ring_drain_exact_witness:
  "\<exists>r'. drain (sample_ring 20 0 (le_bytes 4 20 @ [7] @ replicate 8 0 @ le_bytes 4 3 @ [1, 2, 3])) = Ok ([\<lparr>de_kind = 7, de_payload = [1, 2, 3]\<rparr>], r')
    \<and> ring_wf r' \<and> ring_pending r' = Ok 0 \<and> drain r' = Ok ([], r')"
proof (rule ring_drain_exact)
  let ?d = "le_bytes 4 20 @ [7] @ replicate 8 0 @ le_bytes 4 3 @ [1, 2, 3] :: byte list"
  let ?r = "sample_ring 20 0 ?d" and ?e = "\<lparr>de_kind = 7, de_payload = [1, 2, 3 :: byte]\<rparr>"
  note f = sample_ring_facts [of ?d 20 0]
  show "ring_wf ?r" by (rule f(1)) simp_all
  have b: "drop (RING_HEADER_LEN + 0 mod 65536) (rmap ?r) = ?d @ replicate (65536 - length ?d) 0" by (subst f(4)) simp_all
  have e: "entry_at (rmap ?r) (0 mod 65536) ?e 20"
    unfolding entry_at_def Let_def b by (simp add: nth_append numeral_3_eq_3)
  show "laid_out (rmap ?r) (rcapacity ?r) (cursor 8 ?r) [?e] (cursor 0 ?r)"
    using laid_out.entry [OF e _ laid_out.finished] f(2,3,5) by simp
  show "cursor 0 ?r - cursor 8 ?r \<le> rcapacity ?r" using f(2,3,5) by simp
qed

text \<open>Draining arbitrary bytes. The drain loop ends for every content of the map; if the entry sizes stored at the
  four-byte positions are multiples of four and the tail is aligned, it ends without a panic and with nothing pending.
  A tail in the last three bytes of the ring, which an accepted size that is not a multiple of four leads to, makes the
  next drain read past the map and panic.\<close>

theorem ring_drain_total:
  assumes wf: "ring_wf r"
  shows "(4 dvd cursor 0 r \<and> 4 dvd cursor 8 r \<and> cursor 0 r + rcapacity r \<le> U64_MAX
      \<and> (\<forall>i < rcapacity r. 4 dvd i \<longrightarrow> 4 dvd word_at (rmap r) i)
      \<longrightarrow> (\<exists>es r'. drain r = Ok (es, r') \<and> ring_wf r' \<and> ring_pending r' = Ok 0))
    \<and> (cursor 8 r < cursor 0 r \<and> cursor 0 r - cursor 8 r \<le> rcapacity r \<and> rcapacity r < cursor 8 r mod rcapacity r + 4
      \<longrightarrow> drain r = Panic)"
proof -
  define t where "t = (if cursor 8 r > cursor 0 r then cursor 0 r
      else if cursor 0 r > rcapacity r \<and> cursor 8 r < cursor 0 r - rcapacity r then cursor 0 r - rcapacity r else cursor 8 r)"
  have d: "drain r = and_then (drain_loop (rmap r) (rcapacity r) (cursor 0 r) t [])
      (\<lambda>(tail', es). and_then (write_at 8 (le_bytes 8 tail') (rmap r)) (\<lambda>m. Ok (es, r\<lparr>rmap := m\<rparr>)))"
    by (simp add: drain_def ring_cursors [OF wf] t_def Let_def)
  have len: "length (rmap r) = RING_HEADER_LEN + rcapacity r" "65536 \<le> rcapacity r" and c4: "4 dvd rcapacity r"
    using wf by (auto simp: ring_wf_def intro: dvd_trans)
  have "\<exists>es r'. drain r = Ok (es, r') \<and> ring_wf r' \<and> ring_pending r' = Ok 0"
    if a: "4 dvd cursor 0 r" "4 dvd cursor 8 r" "cursor 0 r + rcapacity r \<le> U64_MAX"
      "\<forall>i < rcapacity r. 4 dvd i \<longrightarrow> 4 dvd word_at (rmap r) i"
  proof -
    have "4 dvd t" using a c4 by (simp add: t_def dvd_diff_nat)
    from drain_loop_aligned [OF len c4 a(3) this a(4)] obtain t' es where
      l: "drain_loop (rmap r) (rcapacity r) (cursor 0 r) t [] = Ok (t', es)" "cursor 0 r \<le> t'" by blast
    obtain m where m: "write_at 8 (le_bytes 8 t') (rmap r) = Ok m" using len by (simp add: write_at_def)
    have dr: "drain r = Ok (es, r\<lparr>rmap := m\<rparr>)" using d l(1) m by simp
    have "t \<le> cursor 0 r" by (simp add: t_def)
    then have "t' \<le> U64_MAX" using drain_loop_u64 [OF l(1)] a(3) by simp
    then have "cursor 8 (r\<lparr>rmap := m\<rparr>) = t'" "cursor 0 (r\<lparr>rmap := m\<rparr>) = cursor 0 r"
      using cursor_write [OF m] cursor_write_other [OF m] by simp_all
    then have "ring_pending (r\<lparr>rmap := m\<rparr>) = Ok 0"
      using l(2) by (simp add: ring_pending_eq [OF drain_wf [OF wf dr]])
    then show ?thesis using dr drain_wf [OF wf dr] by blast
  qed
  moreover have "drain r = Panic"
    if "cursor 8 r < cursor 0 r" "cursor 0 r - cursor 8 r \<le> rcapacity r" "rcapacity r < cursor 8 r mod rcapacity r + 4"
  proof -
    have "t = cursor 8 r" using that by (auto simp: t_def)
    then show ?thesis using d drain_loop_past_end [OF len(1), of t "cursor 0 r" "[]"] that len(2) by simp
  qed
  ultimately show ?thesis by blast
qed


theorem ring_drain_total_witness:
  "(\<exists>es r'. drain (sample_ring 65536 0 []) = Ok (es, r') \<and> ring_wf r' \<and> ring_pending r' = Ok 0)
    \<and> drain (sample_ring 65536 65533 []) = Panic"
proof
  have z: "word_at (rmap (sample_ring 65536 0 [])) i = 0" for i
  proof -
    have "take 4 (drop i (replicate 65536 0)) = replicate (min 4 (65536 - i)) (0 :: byte)" by simp
    moreover have "le_val (replicate k 0) = 0" for k by (induction k) (simp_all add: le_val_def be_val_def)
    ultimately show ?thesis using sample_ring_facts(4) [of "[]" 65536 0 i] by (simp add: word_at_def)
  qed
  show "\<exists>es r'. drain (sample_ring 65536 0 []) = Ok (es, r') \<and> ring_wf r' \<and> ring_pending r' = Ok 0"
    using ring_drain_total [of "sample_ring 65536 0 []"] sample_ring_facts [of "[]" 65536 0] z by simp
  show "drain (sample_ring 65536 65533 []) = Panic"
    using ring_drain_total [of "sample_ring 65536 65533 []"] sample_ring_facts [of "[]" 65536 65533] by simp
qed

end
