(* ===== verification/RateLimit.thy ===== *)
theory RateLimit
  imports Prelude
begin

section \<open>The attempt limiter (network-core/src/rate\_limit.rs)\<close>

text \<open>
  A stateless limiter: the caller passes its counters and stores those of the answer. \<open>u32\<close> and \<open>u64\<close> values are
  naturals with the saturating operations written out. \<open>limiter_run\<close> feeds the answers back, as callers do. Shown: within one window
  at most the allowed number of attempts succeeds.
\<close>

record rate_limit_input =
  ri_attempts :: nat
  ri_first_attempt :: nat
  ri_now :: nat
  ri_max_attempts :: nat
  ri_window_ms :: nat
  ri_blocked_until :: "nat option"

record rate_limit_output =
  allowed :: bool
  remaining_attempts :: nat
  retry_after :: "nat option"
  new_attempts :: nat
  new_first_attempt :: nat
  new_blocked_until :: "nat option"

text \<open>The limiter outside a block: the window has passed, the attempts are used up, or one more is granted.\<close>

definition rate_limit_open :: "rate_limit_input \<Rightarrow> rate_limit_output" where
  "rate_limit_open i =
     (let now = ri_now i in
      if now - ri_first_attempt i \<ge> ri_window_ms i then
        \<lparr>allowed = True, remaining_attempts = ri_max_attempts i - 1, retry_after = None, new_attempts = 1,
         new_first_attempt = now, new_blocked_until = None\<rparr>
      else if ri_attempts i \<ge> ri_max_attempts i then
        let backoff_secs = min (min U64_MAX (2 ^ min (ri_attempts i) 30)) 3600; backoff_ms = backoff_secs * 1000 in
        \<lparr>allowed = False, remaining_attempts = 0, retry_after = Some backoff_ms, new_attempts = ri_attempts i,
         new_first_attempt = ri_first_attempt i, new_blocked_until = Some (sat_add U64_MAX now backoff_ms)\<rparr>
      else
        let n = sat_add U32_MAX (ri_attempts i) 1 in
        \<lparr>allowed = True, remaining_attempts = ri_max_attempts i - n, retry_after = None, new_attempts = n,
         new_first_attempt = ri_first_attempt i, new_blocked_until = None\<rparr>)"

definition rate_limit_check :: "rate_limit_input \<Rightarrow> rate_limit_output" where
  "rate_limit_check i =
     (let now = ri_now i in
      case ri_blocked_until i of
        Some b \<Rightarrow>
          if now < b then
            \<lparr>allowed = False, remaining_attempts = 0, retry_after = Some (b - now), new_attempts = ri_attempts i,
             new_first_attempt = ri_first_attempt i, new_blocked_until = ri_blocked_until i\<rparr>
          else rate_limit_open i
      | None \<Rightarrow> rate_limit_open i)"

text \<open>The JSON wrapper; \<open>parse\<close> is \<open>serde_json::from_str\<close> with \<open>Some None\<close> for the text \<open>null\<close>, \<open>print\<close> is \<open>to_string\<close>.\<close>

definition rate_limit_check_json ::
    "(string \<Rightarrow> rate_limit_input option option) \<Rightarrow> (rate_limit_output \<Rightarrow> string option) \<Rightarrow> string \<Rightarrow> string" where
  "rate_limit_check_json parse print input =
     (case (case parse input of Some v \<Rightarrow> v | None \<Rightarrow> None) of
        None \<Rightarrow> ''''
      | Some i \<Rightarrow> (case print (rate_limit_check i) of Some s \<Rightarrow> s | None \<Rightarrow> ''''))"

subsection \<open>Callers that store the answer\<close>

definition ask :: "nat \<Rightarrow> nat \<Rightarrow> nat \<Rightarrow> nat \<times> nat \<times> nat option \<Rightarrow> bool \<times> nat \<times> nat \<times> nat option" where
  "ask max_attempts window now st =
     (case st of (att, start, blocked) \<Rightarrow>
        let r = rate_limit_check \<lparr>ri_attempts = att, ri_first_attempt = start, ri_now = now, ri_max_attempts = max_attempts,
                  ri_window_ms = window, ri_blocked_until = blocked\<rparr>
        in (allowed r, new_attempts r, new_first_attempt r, new_blocked_until r))"

primrec limiter_run :: "nat \<Rightarrow> nat \<Rightarrow> nat list \<Rightarrow> nat \<times> nat \<times> nat option \<Rightarrow> bool list" where
  "limiter_run mx w [] st = []"
| "limiter_run mx w (t # ts) st = (case ask mx w t st of (ok, st') \<Rightarrow> ok # limiter_run mx w ts st')"

lemma ask_in_window:
  assumes "t - start < w" "mx \<le> U32_MAX" "att \<le> U32_MAX"
  shows "\<exists>b. ask mx w t (att, start, blocked) = (False, att, start, b)
    \<or> att < mx \<and> ask mx w t (att, start, blocked) = (True, att + 1, start, b)"
  using assms
  by (auto simp: ask_def rate_limit_check_def rate_limit_open_def Let_def sat_add_def split: option.split)

lemma limiter_run_window:
  assumes "\<forall>t\<in>set ts. t - start < w" "mx \<le> U32_MAX" "att \<le> mx"
  shows "length (filter (\<lambda>ok. ok) (limiter_run mx w ts (att, start, blocked))) \<le> mx - att"
  using assms
proof (induction ts arbitrary: att blocked)
  case (Cons t ts)
  have "t - start < w" "att \<le> U32_MAX" using Cons.prems by simp_all
  from ask_in_window [OF this(1) Cons.prems(2) this(2), of blocked] obtain b where
    "ask mx w t (att, start, blocked) = (False, att, start, b)
      \<or> att < mx \<and> ask mx w t (att, start, blocked) = (True, att + 1, start, b)" by blast
  then show ?case
  proof
    assume "ask mx w t (att, start, blocked) = (False, att, start, b)"
    then show ?thesis using Cons.IH [of att b] Cons.prems by simp
  next
    assume "att < mx \<and> ask mx w t (att, start, blocked) = (True, att + 1, start, b)"
    then show ?thesis using Cons.IH [of "att + 1" b] Cons.prems by auto
  qed
qed simp

text \<open>The limiter holds its limit. A caller whose window starts with an allowed attempt gets, however often and in
  whatever order of times it asks before the window ends, at most the maximum number of attempts in all.\<close>

theorem limiter_window:
  assumes "1 \<le> mx" "mx \<le> U32_MAX" "now \<le> U64_MAX" "w \<le> now - start" "\<forall>b. blocked = Some b \<longrightarrow> b \<le> now"
    and "\<forall>t\<in>set ts. t - now < w" "limiter_run mx w (now # ts) (att, start, blocked) = ok # oks"
  shows "ok \<and> length (filter (\<lambda>ok. ok) (ok # oks)) \<le> mx"
proof -
  have "ask mx w now (att, start, blocked) = (True, 1, now, None)"
    using assms(4,5) by (auto simp: ask_def rate_limit_check_def rate_limit_open_def Let_def split: option.split)
  then have "ok" "oks = limiter_run mx w ts (1, now, None)" using assms(7) by simp_all
  then show ?thesis using limiter_run_window [OF assms(6,2,1), of None] assms(1) by simp
qed

theorem limiter_window_witness:
  "limiter_run 3 1000 [5000, 5001, 5002, 5003, 5999] (7, 100, Some 4000) = [True, True, True, False, False]
   \<and> length (filter (\<lambda>ok. ok) [True, True, True, False, False]) \<le> 3"
proof -
  have r: "limiter_run 3 1000 [5000, 5001, 5002, 5003, 5999] (7, 100, Some 4000) = [True, True, True, False, False]"
    by (simp add: ask_def rate_limit_check_def rate_limit_open_def Let_def sat_add_def)
  from limiter_window [OF _ _ _ _ _ _ r] r show ?thesis by simp
qed

end
