(* ===== verification/Text.thy ===== *)
theory Text
  imports Prelude
begin

section \<open>Rust strings: splitting, trimming, lower case\<close>

text \<open>
  What the components share about \<open>str\<close>: a valid UTF-8 string splits exactly at character boundaries, \<open>trim\<close>
  gives a valid string with nothing left to trim, \<open>to_ascii_lowercase\<close> keeps validity, length and the white
  space at the ends. A string that \<open>trim().to_ascii_lowercase()\<close> leaves as it is is called clean.
\<close>

subsection \<open>Character boundaries\<close>

text \<open>The first character of a valid string: a lead byte and continuation bytes.\<close>

lemma utf8_first:
  assumes "utf8_valid (a # r)"
  shows "\<exists>t rest. r = t @ rest \<and> (\<forall>b\<in>set t. utf8_cont b) \<and> utf8_valid rest
    \<and> (\<forall>x. utf8_valid (a # t @ x) = utf8_valid x)"
proof -
  define p1 p2 p3 p4 where "p1 \<longleftrightarrow> a < 0x80" and "p2 \<longleftrightarrow> 0xC2 \<le> a \<and> a \<le> 0xDF" and "p3 \<longleftrightarrow> 0xE0 \<le> a \<and> a \<le> 0xEF"
    and "p4 \<longleftrightarrow> 0xF0 \<le> a \<and> a \<le> 0xF4"
  define q3 q4 where "q3 = (\<lambda>b::byte. (a = 0xE0 \<longrightarrow> 0xA0 \<le> b) \<and> (a = 0xED \<longrightarrow> b \<le> 0x9F))"
    and "q4 = (\<lambda>b::byte. (a = 0xF0 \<longrightarrow> 0x90 \<le> b) \<and> (a = 0xF4 \<longrightarrow> b \<le> 0x8F))"
  have v: "utf8_valid (a # y) =
      (if p1 then utf8_valid y
       else if p2 then (case y of b # y1 \<Rightarrow> utf8_cont b \<and> utf8_valid y1 | _ \<Rightarrow> False)
       else if p3 then (case y of b # c # y2 \<Rightarrow> utf8_cont b \<and> q3 b \<and> utf8_cont c \<and> utf8_valid y2 | _ \<Rightarrow> False)
       else if p4 then
         (case y of b # c # d # y3 \<Rightarrow> utf8_cont b \<and> q4 b \<and> utf8_cont c \<and> utf8_cont d \<and> utf8_valid y3 | _ \<Rightarrow> False)
       else False)" for y
    unfolding p1_def p2_def p3_def p4_def q3_def q4_def utf8_valid.simps(2) conj_assoc by (rule refl)
  note v1 = assms [unfolded v]
  consider "p1" | "\<not> p1" "p2" | "\<not> p1" "\<not> p2" "p3" | "\<not> p1" "\<not> p2" "\<not> p3" "p4" using v1 by metis
  then show ?thesis
  proof cases
    case 1
    then show ?thesis using v1 by (intro exI [of _ "[]"] exI [of _ r]) (simp add: v del: utf8_valid.simps(2))
  next
    case 2
    then obtain b r1 where "r = b # r1" "utf8_cont b" "utf8_valid r1" using v1 by (simp split: list.splits)
    then show ?thesis using 2 by (intro exI [of _ "[b]"] exI [of _ r1]) (simp add: v del: utf8_valid.simps(2))
  next
    case 3
    then obtain b c r1 where "r = b # c # r1" "utf8_cont b" "q3 b" "utf8_cont c" "utf8_valid r1" using v1 by (simp split: list.splits)
    then show ?thesis using 3 by (intro exI [of _ "[b, c]"] exI [of _ r1]) (simp add: v del: utf8_valid.simps(2))
  next
    case 4
    then obtain b c d r1 where "r = b # c # d # r1" "utf8_cont b" "q4 b" "utf8_cont c" "utf8_cont d" "utf8_valid r1"
      using v1 by (simp split: list.splits)
    then show ?thesis using 4 by (intro exI [of _ "[b, c, d]"] exI [of _ r1]) (simp add: v del: utf8_valid.simps(2))
  qed
qed

lemma utf8_split:
  "utf8_valid bs \<Longrightarrow> i \<le> length bs \<Longrightarrow> i = length bs \<or> \<not> utf8_cont (bs ! i)
    \<Longrightarrow> utf8_valid (take i bs) \<and> utf8_valid (drop i bs)"
proof (induction bs arbitrary: i rule: length_induct)
  case (1 bs)
  show ?case
  proof (cases "i = 0 \<or> bs = []")
    case False
    then obtain a r where bs: "bs = a # r" by (cases bs) auto
    obtain t rest where t: "r = t @ rest" "\<forall>b\<in>set t. utf8_cont b" "utf8_valid rest"
      "\<forall>x. utf8_valid (a # t @ x) = utf8_valid x"
      using utf8_first 1(2) bs by blast
    have "Suc (length t) \<le> i"
    proof (rule ccontr)
      assume "\<not> Suc (length t) \<le> i"
      then have lt: "i - 1 < length t" and "i \<noteq> length bs" using False bs t(1) by auto
      moreover have "bs ! i = t ! (i - 1)" using lt False bs t(1) by (simp add: nth_Cons' nth_append)
      ultimately show False using 1(4) t(2) by simp
    qed
    define j where "j = i - Suc (length t)"
    have i: "i = Suc (length t + j)" using \<open>Suc (length t) \<le> i\<close> by (simp add: j_def)
    have "utf8_valid (take j rest) \<and> utf8_valid (drop j rest)"
    proof (rule 1(1) [rule_format])
      show "length rest < length bs" using bs t(1) by simp
      show "j \<le> length rest" "j = length rest \<or> \<not> utf8_cont (rest ! j)" using 1(3,4) i bs t(1) by (simp_all add: nth_append)
    qed (rule t(3))
    moreover have "take i bs = a # t @ take j rest" "drop i bs = drop j rest" using i bs t(1) by simp_all
    ultimately show ?thesis using t(4) by simp
  qed (use 1 in auto)
qed

lemma utf8_append: "utf8_valid xs \<Longrightarrow> utf8_valid (xs @ ys) = utf8_valid ys"
proof (induction xs rule: length_induct)
  case (1 xs)
  show ?case
  proof (cases xs)
    case (Cons a r)
    obtain t rest where t: "r = t @ rest" "utf8_valid rest" "\<forall>x. utf8_valid (a # t @ x) = utf8_valid x"
      using utf8_first 1(2) Cons by blast
    have "utf8_valid (rest @ ys) = utf8_valid ys" using 1(1) t(1,2) Cons by simp
    then show ?thesis using t(1,3) Cons by simp
  qed simp
qed

subsection \<open>Trimming\<close>

lemma drop_ws_drop: "\<exists>n. drop_ws f bs = drop n bs"
proof (induction f bs rule: drop_ws.induct)
  case (1 f bs)
  show ?case
  proof (cases "bs = [] \<or> f bs = 0")
    case True
    then show ?thesis by (intro exI [of _ 0]) (auto simp: drop_ws.simps [of f bs])
  next
    case False
    from 1 [OF False] obtain n where "drop_ws f (drop (f bs) bs) = drop n (drop (f bs) bs)" ..
    then show ?thesis using False by (auto simp: drop_ws.simps [of f bs])
  qed
qed

lemma drop_ws_final: "f [] = 0 \<Longrightarrow> f (drop_ws f bs) = 0"
proof (induction f bs rule: drop_ws.induct)
  case (1 f bs)
  then show ?case by (cases "bs = [] \<or> f bs = 0") (auto simp: drop_ws.simps [of f bs])
qed

lemma drop_ws_invariant:
  assumes "\<And>xs. Q xs \<Longrightarrow> Q (drop (f xs) xs)"
  shows "Q bs \<Longrightarrow> Q (drop_ws f bs)"
  using assms
proof (induction f bs rule: drop_ws.induct)
  case (1 f bs)
  then show ?case by (cases "bs = [] \<or> f bs = 0") (auto simp: drop_ws.simps [of f bs])
qed

text \<open>White space at the front of a prefix is white space at the front of the whole.\<close>

lemma ws_len_take: "ws_len bs = 0 \<Longrightarrow> ws_len (take n bs) = 0"
  by (cases bs rule: ws_len.cases; cases n; cases "n - 1"; cases "n - 2") (auto split: if_splits simp del: ws3.simps)

lemma trim_bytes_fix:
  assumes "ws_len bs = 0" "ws_len_rev (rev bs) = 0"
  shows "trim_bytes bs = bs"
  using assms by (simp add: trim_bytes_def)

lemma trim_bytes_ends: "ws_len (trim_bytes bs) = 0" "ws_len_rev (rev (trim_bytes bs)) = 0"
proof -
  obtain n where "drop_ws ws_len_rev (rev (drop_ws ws_len bs)) = drop n (rev (drop_ws ws_len bs))"
    using drop_ws_drop by blast
  then have "trim_bytes bs = take (length (drop_ws ws_len bs) - n) (drop_ws ws_len bs)"
    by (simp add: trim_bytes_def rev_drop)
  then show "ws_len (trim_bytes bs) = 0" by (simp add: ws_len_take drop_ws_final)
  show "ws_len_rev (rev (trim_bytes bs)) = 0" by (simp add: trim_bytes_def drop_ws_final)
qed

lemma trim_trim [simp]: "trim (trim s) = trim s"
  by (simp add: trim_def trim_bytes_fix trim_bytes_ends)

text \<open>What is trimmed off is whole characters: a valid string stays valid.\<close>

lemma ws_len_shape:
  "ws_len bs = 0 \<or> (\<exists>a r. bs = a # r \<and> ws1 a \<and> ws_len bs = 1)
    \<or> (\<exists>b r. bs = 0xC2 # b # r \<and> ws_len bs = 2)
    \<or> (\<exists>a b c r. bs = a # b # c # r \<and> ws3 a b c \<and> ws_len bs = 3)"
  by (cases bs rule: ws_len.cases) (simp_all del: ws3.simps)

lemma utf8_drop_ws_len: "utf8_valid bs \<Longrightarrow> utf8_valid (drop (ws_len bs) bs)"
  using ws_len_shape [of bs]
proof (elim disjE exE conjE)
  fix a r assume v: "utf8_valid bs" and bs: "bs = a # r" "ws1 a" "ws_len bs = 1"
  then have "a < 0x80" by (auto simp: ws1_def word_le_nat_alt word_less_nat_alt)
  then show ?thesis using v bs by simp
next
  fix b r assume v: "utf8_valid bs" and bs: "bs = 0xC2 # b # r" "ws_len bs = 2"
  have "utf8_valid r" using v unfolding bs(1) by simp
  then show ?thesis unfolding bs(2) unfolding bs(1) by (simp add: numeral_2_eq_2)
next
  fix a b c r assume v: "utf8_valid bs" and bs: "bs = a # b # c # r" "ws3 a b c" "ws_len bs = 3"
  have "a = 0xE1 \<or> a = 0xE2 \<or> a = 0xE3" using bs(2) by (simp only: ws3.simps) blast
  then have "utf8_valid r" using v unfolding bs(1) by (elim disjE) simp_all
  then show ?thesis unfolding bs(3) unfolding bs(1) by (simp add: numeral_3_eq_3)
qed simp

lemma ws_len_rev_lead:
  "ws_len_rev rs \<noteq> 0 \<Longrightarrow> ws_len_rev rs \<le> length rs \<and> \<not> utf8_cont (rs ! (ws_len_rev rs - 1))"
  by (cases rs rule: ws_len_rev.cases) (auto simp: ws1_def utf8_cont_def word_le_nat_alt split: if_splits)

lemma utf8_drop_ws_len_rev:
  assumes "utf8_valid (rev rs)"
  shows "utf8_valid (rev (drop (ws_len_rev rs) rs))"
proof (cases "ws_len_rev rs = 0")
  case False
  define k where "k = ws_len_rev rs"
  have k: "0 < k" "k \<le> length rs" "\<not> utf8_cont (rs ! (k - 1))" using ws_len_rev_lead [OF False] False by (auto simp: k_def)
  have "rev rs ! (length rs - k) = rs ! (k - 1)" using k by (simp add: rev_nth)
  then have "utf8_valid (take (length rs - k) (rev rs))" using utf8_split [of "rev rs" "length rs - k"] assms k by simp
  then show ?thesis by (simp add: k_def rev_drop)
qed (use assms in simp)

lemma utf8_trim: "utf8_valid (bytes_of s) \<Longrightarrow> utf8_valid (bytes_of (trim s))"
proof -
  assume "utf8_valid (bytes_of s)"
  then have "utf8_valid (rev (rev (drop_ws ws_len (bytes_of s))))"
    using drop_ws_invariant [of utf8_valid ws_len] utf8_drop_ws_len by simp
  then have "utf8_valid (rev (drop_ws ws_len_rev (rev (drop_ws ws_len (bytes_of s)))))"
    using drop_ws_invariant [of "\<lambda>rs. utf8_valid (rev rs)" ws_len_rev] utf8_drop_ws_len_rev by blast
  then show ?thesis by (simp add: trim_def trim_bytes_def)
qed

subsection \<open>Lower case\<close>

text \<open>\<open>u8::to_ascii_lowercase\<close> and \<open>str::to_ascii_lowercase\<close>\<close>

definition lower_byte :: "byte \<Rightarrow> byte" where
  "lower_byte b = (if 65 \<le> b \<and> b \<le> 90 then b + 32 else b)"

definition to_ascii_lowercase :: "string \<Rightarrow> string" where
  "to_ascii_lowercase s = str_of (map lower_byte (bytes_of s))"

definition eq_ignore_ascii_case :: "string \<Rightarrow> string \<Rightarrow> bool" where
  "eq_ignore_ascii_case a b \<longleftrightarrow> to_ascii_lowercase a = to_ascii_lowercase b"

definition clean_str :: "string \<Rightarrow> bool" where
  "clean_str s \<longleftrightarrow> utf8_valid (bytes_of s) \<and> to_ascii_lowercase (trim s) = s"

lemma lower_byte_cases:
  "lower_byte b = b \<and> \<not> (65 \<le> unat b \<and> unat b \<le> 90) \<or> unat (lower_byte b) = unat b + 32 \<and> 65 \<le> unat b \<and> unat b \<le> 90"
proof (cases "65 \<le> b \<and> b \<le> 90")
  case True
  then have "unat b + unat (32::byte) < 2 ^ 8" by (simp add: word_le_nat_alt)
  then have "unat (b + 32) = unat b + 32" by (subst unat_add_lem [THEN iffD1]) simp_all
  then show ?thesis using True by (simp add: lower_byte_def word_le_nat_alt)
qed (auto simp: lower_byte_def word_le_nat_alt)

lemma lower_byte_idem [simp]: "lower_byte (lower_byte b) = lower_byte b"
  using lower_byte_cases [of b] lower_byte_cases [of "lower_byte b"] by auto

lemma lower_byte_cmp:
  assumes "unat k < 65 \<or> 123 \<le> unat k"
  shows "k \<le> lower_byte b \<longleftrightarrow> k \<le> b" "lower_byte b \<le> k \<longleftrightarrow> b \<le> k" "lower_byte b = k \<longleftrightarrow> b = k"
proof -
  show "k \<le> lower_byte b \<longleftrightarrow> k \<le> b" using lower_byte_cases [of b] assms by (auto simp: word_le_nat_alt)
  show "lower_byte b \<le> k \<longleftrightarrow> b \<le> k" using lower_byte_cases [of b] assms by (auto simp: word_le_nat_alt)
  show "lower_byte b = k \<longleftrightarrow> b = k" using lower_byte_cases [of b] assms by auto
qed

lemma ws1_lower [simp]: "ws1 (lower_byte b) = ws1 b"
  by (simp add: ws1_def lower_byte_cmp)

lemma ws3_lower [simp]: "ws3 (lower_byte a) (lower_byte b) (lower_byte c) = ws3 a b c"
  by (simp add: lower_byte_cmp)

lemma ws_len_lower [simp]: "ws_len (map lower_byte bs) = ws_len bs" "ws_len_rev (map lower_byte bs) = ws_len_rev bs"
proof -
  show "ws_len (map lower_byte bs) = ws_len bs"
    by (cases bs rule: ws_len.cases) (simp_all add: lower_byte_cmp del: ws3.simps, blast?)
  show "ws_len_rev (map lower_byte bs) = ws_len_rev bs"
    by (cases bs rule: ws_len_rev.cases) (simp_all add: lower_byte_cmp del: ws3.simps, blast?)
qed

lemma drop_ws_lower:
  "(\<And>bs. f (map lower_byte bs) = f bs) \<Longrightarrow> drop_ws f (map lower_byte bs) = map lower_byte (drop_ws f bs)"
proof (induction f bs rule: drop_ws.induct)
  case (1 f bs)
  then show ?case
    by (cases "bs = [] \<or> f bs = 0") (auto simp: drop_ws.simps [of f bs] drop_ws.simps [of f "map lower_byte bs"] drop_map)
qed

lemma trim_lower: "trim (to_ascii_lowercase s) = to_ascii_lowercase (trim s)"
  by (simp add: trim_def to_ascii_lowercase_def trim_bytes_def drop_ws_lower rev_map)

lemma lower_lower [simp]: "to_ascii_lowercase (to_ascii_lowercase s) = to_ascii_lowercase s"
  by (simp add: to_ascii_lowercase_def comp_def)

lemma length_lower [simp]: "length (to_ascii_lowercase s) = length s"
  by (simp add: to_ascii_lowercase_def)

lemma lower_eq_Nil [simp]: "to_ascii_lowercase s = [] \<longleftrightarrow> s = []"
  by (metis length_0_conv length_lower)

lemma utf8_cont_lower [simp]: "utf8_cont (lower_byte b) = utf8_cont b"
  by (simp add: utf8_cont_def lower_byte_cmp)

lemma utf8_lower_bytes: "utf8_valid (map lower_byte bs) = utf8_valid bs"
proof (induction bs rule: utf8_valid.induct)
  case (2 a r)
  have lt: "lower_byte a < 0x80 \<longleftrightarrow> a < 0x80" using lower_byte_cases [of a] by (auto simp: word_less_nat_alt)
  show ?case
  proof (cases "a < 0x80")
    case True
    then show ?thesis using 2(1) lt by simp
  next
    case False
    then have "lower_byte a = a" using lower_byte_cases [of a] by (auto simp: word_less_nat_alt)
    then show ?thesis using 2 False by (auto simp: lower_byte_cmp split: list.splits)
  qed
qed simp

lemma utf8_lower [simp]: "utf8_valid (bytes_of (to_ascii_lowercase s)) = utf8_valid (bytes_of s)"
  by (simp add: to_ascii_lowercase_def utf8_lower_bytes)

lemma clean_str_clean: "utf8_valid (bytes_of s) \<Longrightarrow> clean_str (to_ascii_lowercase (trim s))"
  by (simp add: clean_str_def trim_lower utf8_trim)

lemma clean_str_fix: "clean_str s \<Longrightarrow> to_ascii_lowercase (trim s) = s" "clean_str s \<Longrightarrow> utf8_valid (bytes_of s)"
  by (simp_all add: clean_str_def)

end
