(* ===== verification/P2pFrame.thy ===== *)
theory P2pFrame
  imports Text "HOL-Library.Multiset"
begin

section \<open>Chunked frames (mesh-core/src/p2p\_frame.rs)\<close>

text \<open>
  The frame kernel of the BLE and LAN transports: a payload is cut into chunks at character boundaries, each with its
  index, the number of chunks and a checksum; the receiver checks the set, sorts it and joins the data. A string is its
  UTF-8 bytes. CRC-32, the JSON codec and the lossy UTF-8 decoder are parameters: nothing is assumed of the
  checksum. Shown: cutting never splits a character and loses nothing; decoding any permutation of the chunks gives
  the payload back; what the decoder accepts is a complete set.
\<close>

abbreviation MAX_CHUNKS :: nat where "MAX_CHUNKS \<equiv> 256"
abbreviation MAX_TOTAL_BYTES :: nat where "MAX_TOTAL_BYTES \<equiv> 1048576"
abbreviation MAX_CHUNK_SIZE :: nat where "MAX_CHUNK_SIZE \<equiv> 65536"

record frame_packet_input =
  fi_payload :: string
  fi_chunk_size :: nat

record chunk =
  ch_index :: nat
  ch_total :: nat
  ch_data :: string
  ch_checksum :: nat

record frame_packet_result =
  fr_chunks :: "chunk list"
  fr_crc32 :: nat

record decode_frame_input =
  di_chunks :: "chunk list"
  di_expected_crc32 :: "nat option"

record decode_frame_result =
  dr_payload :: string
  dr_valid :: bool
  dr_crc32 :: nat

text \<open>\<open>str::is_char_boundary\<close>\<close>

definition is_char_boundary :: "string \<Rightarrow> nat \<Rightarrow> bool" where
  "is_char_boundary s i \<longleftrightarrow> i = 0 \<or> i = length s \<or> i < length s \<and> \<not> utf8_cont (bytes_of s ! i)"

fun back_off :: "string \<Rightarrow> nat \<Rightarrow> nat \<Rightarrow> nat" where
  "back_off s start e = (if e > start \<and> \<not> is_char_boundary s e then back_off s start (e - 1) else e)"

declare back_off.simps [simp del]

text \<open>The position of the second character of the rest: the next boundary.\<close>

function next_boundary :: "string \<Rightarrow> nat \<Rightarrow> nat" where
  "next_boundary s i = (if i \<ge> length s then length s else if is_char_boundary s i then i else next_boundary s (i + 1))"
  by pat_completeness auto
termination
  by (relation "measure (\<lambda>(s, i). length s - i)") auto

declare next_boundary.simps [simp del]

definition chunk_end :: "string \<Rightarrow> nat \<Rightarrow> nat \<Rightarrow> nat" where
  "chunk_end s chunk_size start =
     (let e = back_off s start (min (start + chunk_size) (length s))
      in if e = start then next_boundary s (start + 1) else e)"

lemma back_off_bounds: "start \<le> e \<Longrightarrow> start \<le> back_off s start e \<and> back_off s start e \<le> e"
proof (induction s start e rule: back_off.induct)
  case (1 s start e)
  show ?case
  proof (cases "e > start \<and> \<not> is_char_boundary s e")
    case True
    with 1 have "start \<le> back_off s start (e - 1) \<and> back_off s start (e - 1) \<le> e - 1" by auto
    then show ?thesis using True by (simp add: back_off.simps [of s start e]) linarith
  next
    case False
    then have "back_off s start e = e" by (auto simp: back_off.simps [of s start e])
    then show ?thesis using 1(2) by simp
  qed
qed

lemma back_off_boundary:
  "start \<le> e \<Longrightarrow> back_off s start e = start \<or> is_char_boundary s (back_off s start e)"
proof (induction s start e rule: back_off.induct)
  case (1 s start e)
  then show ?case by (auto simp: back_off.simps [of s start e])
qed

lemma next_boundary_spec:
  "i \<le> length s \<Longrightarrow> i \<le> next_boundary s i \<and> next_boundary s i \<le> length s \<and> is_char_boundary s (next_boundary s i)"
proof (induction s i rule: next_boundary.induct)
  case (1 s i)
  then show ?case by (auto simp: next_boundary.simps [of s i] is_char_boundary_def)
qed

lemma chunk_end_spec:
  assumes "start < length s"
  shows "start < chunk_end s cs start \<and> chunk_end s cs start \<le> length s \<and> is_char_boundary s (chunk_end s cs start)"
proof -
  let ?e = "back_off s start (min (start + cs) (length s))"
  have b: "start \<le> ?e" "?e \<le> length s" using back_off_bounds [of start "min (start + cs) (length s)" s] assms by auto
  show ?thesis
  proof (cases "?e = start")
    case True
    then show ?thesis using next_boundary_spec [of "start + 1" s] assms by (simp add: chunk_end_def)
  next
    case False
    then show ?thesis
      using b back_off_boundary [of start "min (start + cs) (length s)" s] assms by (simp add: chunk_end_def)
  qed
qed

text \<open>The loop over the payload.\<close>

function slices_from :: "string \<Rightarrow> nat \<Rightarrow> nat \<Rightarrow> string list" where
  "slices_from s cs start =
     (if start < length s
      then (let e = chunk_end s cs start in take (e - start) (drop start s) # slices_from s cs e)
      else [])"
  by pat_completeness auto
termination
  using chunk_end_spec by (relation "measure (\<lambda>(s, cs, start). length s - start)") (auto intro: diff_less_mono2)

declare slices_from.simps [simp del]

definition encode_chunks :: "(byte list \<Rightarrow> nat) \<Rightarrow> frame_packet_input \<Rightarrow> frame_packet_result option" where
  "encode_chunks crc input =
     (let p = fi_payload input in
      if length p > MAX_TOTAL_BYTES then None
      else
        let chunk_size = (if fi_chunk_size input = 0 then 512 else min (fi_chunk_size input) MAX_CHUNK_SIZE);
            slices = slices_from p chunk_size 0;
            tot = length slices
        in if tot > MAX_CHUNKS then None
           else Some \<lparr>fr_chunks = map (\<lambda>(idx, slice). \<lparr>ch_index = idx, ch_total = tot, ch_data = slice,
                                            ch_checksum = crc (bytes_of slice)\<rparr>) (enumerate 0 slices),
                      fr_crc32 = crc (bytes_of p)\<rparr>)"

definition ENCODE_REJECTED :: string where
  "ENCODE_REJECTED = ''{\"chunks\":[],\"crc32\":0}''"

definition encode_p2p_frame ::
    "(byte list \<Rightarrow> nat) \<Rightarrow> (string \<Rightarrow> frame_packet_input option) \<Rightarrow> (frame_packet_result \<Rightarrow> string option) \<Rightarrow> string \<Rightarrow> string" where
  "encode_p2p_frame crc parse print json_input =
     (if length json_input > MAX_TOTAL_BYTES * 2 then ENCODE_REJECTED
      else case parse json_input of
          None \<Rightarrow> ENCODE_REJECTED
        | Some input \<Rightarrow>
            (case encode_chunks crc input of
               None \<Rightarrow> ENCODE_REJECTED
             | Some r \<Rightarrow> (case print r of Some s \<Rightarrow> s | None \<Rightarrow> ENCODE_REJECTED)))"

text \<open>The checks of the decoder on a chunk set; \<open>distinct\<close> is the loop over the set of seen indices.\<close>

definition accept_chunks :: "chunk list \<Rightarrow> bool" where
  "accept_chunks cs \<longleftrightarrow>
     cs \<noteq> [] \<and> length cs \<le> MAX_CHUNKS
     \<and> (let tot = ch_total (hd cs) in
        tot \<noteq> 0 \<and> tot \<le> MAX_CHUNKS \<and> length cs = tot
        \<and> list_all (\<lambda>c. ch_total c = tot \<and> ch_index c < tot) cs)
     \<and> distinct (map ch_index cs)
     \<and> sum_list (map (\<lambda>c. length (ch_data c)) cs) \<le> MAX_TOTAL_BYTES"

definition decode_chunks :: "(byte list \<Rightarrow> nat) \<Rightarrow> (byte list \<Rightarrow> string) \<Rightarrow> decode_frame_input \<Rightarrow> decode_frame_result option" where
  "decode_chunks crc lossy input =
     (if \<not> accept_chunks (di_chunks input) then None
      else
        let sorted_chunks = sort_key ch_index (di_chunks input);
            payload_bytes = concat (map (\<lambda>c. bytes_of (ch_data c)) sorted_chunks);
            valid = list_all (\<lambda>c. ch_checksum c = 0 \<or> crc (bytes_of (ch_data c)) = ch_checksum c) sorted_chunks;
            total_crc = crc payload_bytes;
            valid' = (valid \<and> (case di_expected_crc32 input of Some e \<Rightarrow> e = total_crc | None \<Rightarrow> True))
        in (case from_utf8 payload_bytes of
              Some s \<Rightarrow> Some \<lparr>dr_payload = s, dr_valid = valid', dr_crc32 = total_crc\<rparr>
            | None \<Rightarrow> Some \<lparr>dr_payload = lossy payload_bytes, dr_valid = False, dr_crc32 = total_crc\<rparr>))"

definition DECODE_REJECTED :: string where
  "DECODE_REJECTED = ''{\"payload\":\"\",\"valid\":false,\"crc32\":0}''"

definition decode_p2p_frame ::
    "(byte list \<Rightarrow> nat) \<Rightarrow> (byte list \<Rightarrow> string) \<Rightarrow> (string \<Rightarrow> decode_frame_input option) \<Rightarrow> (decode_frame_result \<Rightarrow> string option)
      \<Rightarrow> string \<Rightarrow> string" where
  "decode_p2p_frame crc lossy parse print json_input =
     (if length json_input > MAX_TOTAL_BYTES * 4 then DECODE_REJECTED
      else case parse json_input of
          None \<Rightarrow> DECODE_REJECTED
        | Some input \<Rightarrow>
            (case decode_chunks crc lossy input of
               None \<Rightarrow> DECODE_REJECTED
             | Some r \<Rightarrow> (case print r of Some s \<Rightarrow> s | None \<Rightarrow> DECODE_REJECTED)))"


subsection \<open>Cutting at character boundaries\<close>

lemma concat_slices: "concat (slices_from s cs start) = drop start s"
proof (induction s cs start rule: slices_from.induct)
  case (1 s cs start)
  show ?case
  proof (cases "start < length s")
    case True
    let ?e = "chunk_end s cs start"
    have "start < ?e" using chunk_end_spec [OF True] by simp
    then have "take (?e - start) (drop start s) @ drop ?e s = drop start s"
      by (metis add_diff_inverse_nat append_take_drop_id drop_drop less_imp_le_nat not_less add.commute)
    then show ?thesis using 1 True by (simp add: slices_from.simps [of s cs start] Let_def)
  next
    case False
    then show ?thesis by (simp add: slices_from.simps [of s cs start])
  qed
qed

lemma slices_nonempty: "\<forall>x\<in>set (slices_from s cs start). x \<noteq> ''''"
proof (induction s cs start rule: slices_from.induct)
  case (1 s cs start)
  then show ?case using chunk_end_spec [of start s cs] by (auto simp: slices_from.simps [of s cs start] Let_def)
qed

text \<open>Every slice of a valid payload is a valid string.\<close>

lemma slices_valid:
  "utf8_valid (bytes_of s) \<Longrightarrow> is_char_boundary s start \<Longrightarrow> start \<le> length s
    \<Longrightarrow> \<forall>x\<in>set (slices_from s cs start). utf8_valid (bytes_of x)"
proof (induction s cs start rule: slices_from.induct)
  case (1 s cs start)
  show ?case
  proof (cases "start < length s")
    case True
    let ?e = "chunk_end s cs start"
    note e = chunk_end_spec [OF True, of cs]
    have vs: "utf8_valid (bytes_of (drop start s))"
      using utf8_split [OF 1(2), of start] 1(2,3,4) by (cases "start = 0") (auto simp: is_char_boundary_def)
    have "utf8_valid (take (?e - start) (bytes_of (drop start s)))"
      using utf8_split [OF vs, of "?e - start"] e True by (auto simp: is_char_boundary_def bytes_of_def)
    then have "utf8_valid (bytes_of (take (?e - start) (drop start s)))" by simp
    moreover have "\<forall>x\<in>set (slices_from s cs ?e). utf8_valid (bytes_of x)"
      using 1(1) [OF True refl] 1(2) e by simp
    ultimately show ?thesis using True by (simp add: slices_from.simps [of s cs start] Let_def)
  next
    case False
    then show ?thesis by (simp add: slices_from.simps [of s cs start])
  qed
qed


subsection \<open>Any arrival order of the chunks gives the payload back\<close>

lemma sort_chunks_unique:
  assumes "mset cs = mset chunks" "map ch_index chunks = [0..<n]"
  shows "sort_key ch_index cs = chunks"
proof (rule map_sorted_distinct_set_unique [of ch_index])
  have "set cs = set chunks" using assms(1) by (rule mset_eq_setD)
  then show "set (sort_key ch_index cs) = set chunks" by simp
  have "distinct (map ch_index chunks)" using assms(2) by simp
  then show "inj_on ch_index (set (sort_key ch_index cs) \<union> set chunks)"
    using \<open>set cs = set chunks\<close> by (simp add: distinct_map)
  show "sorted (map ch_index chunks)" "distinct (map ch_index chunks)" using assms(2) by simp_all
  have "mset (map ch_index (sort_key ch_index cs)) = mset (map ch_index chunks)" using assms(1) by simp
  then show "distinct (map ch_index (sort_key ch_index cs))"
    using \<open>distinct (map ch_index chunks)\<close> mset_eq_imp_distinct_iff by blast
qed simp

definition chunk_set :: "(byte list \<Rightarrow> nat) \<Rightarrow> string list \<Rightarrow> chunk list" where
  "chunk_set crc slices = map (\<lambda>(idx, slice). \<lparr>ch_index = idx, ch_total = length slices, ch_data = slice,
     ch_checksum = crc (bytes_of slice)\<rparr>) (enumerate 0 slices)"

lemma chunk_set_simps:
  "map ch_index (chunk_set crc sl) = [0..<length sl]"
  "map ch_data (chunk_set crc sl) = sl"
  "length (chunk_set crc sl) = length sl"
  "c \<in> set (chunk_set crc sl) \<Longrightarrow> ch_total c = length sl \<and> ch_checksum c = crc (bytes_of (ch_data c)) \<and> ch_index c < length sl"
  by (auto simp: chunk_set_def comp_def split_def enumerate_eq_zip set_zip)

lemma accept_chunks_permuted:
  assumes "mset cs = mset (chunk_set crc sl)" "sl \<noteq> []" "length sl \<le> MAX_CHUNKS" "length (concat sl) \<le> MAX_TOTAL_BYTES"
  shows "accept_chunks cs"
proof -
  have set: "set cs = set (chunk_set crc sl)" and len: "length cs = length sl"
    using mset_eq_setD [OF assms(1)] mset_eq_length [OF assms(1)] by (simp_all add: chunk_set_simps)
  have ne: "cs \<noteq> []" using len assms(2) by auto
  have "mset (map ch_index cs) = mset (map ch_index (chunk_set crc sl))"
    using assms(1) by simp
  then have "distinct (map ch_index cs)"
    using chunk_set_simps(1) [of crc sl] mset_eq_imp_distinct_iff by fastforce
  moreover have "mset (map (\<lambda>c. length (ch_data c)) cs) = mset (map (\<lambda>c. length (ch_data c)) (chunk_set crc sl))"
    using assms(1) by simp
  then have "sum_list (map (\<lambda>c. length (ch_data c)) cs) = sum_list (map length (map ch_data (chunk_set crc sl)))"
    by (metis (no_types, lifting) comp_apply list.map_comp map_cong sum_mset_sum_list)
  then have "sum_list (map (\<lambda>c. length (ch_data c)) cs) \<le> MAX_TOTAL_BYTES"
    using assms(4) by (simp add: chunk_set_simps length_concat)
  moreover have "\<forall>c\<in>set cs. ch_total c = length sl \<and> ch_index c < length sl"
    using set chunk_set_simps(4) by blast
  ultimately show ?thesis
    using ne len assms(2,3) hd_in_set [OF ne] by (simp add: accept_chunks_def list_all_iff Let_def)
qed

lemma concat_map_bytes_of: "concat (map bytes_of xs) = bytes_of (concat xs)"
  by (induction xs) simp_all

lemma encode_chunks_Some:
  assumes "encode_chunks crc \<lparr>fi_payload = p, fi_chunk_size = n\<rparr> = Some r"
  obtains m where "fr_chunks r = chunk_set crc (slices_from p m 0)" "fr_crc32 r = crc (bytes_of p)"
    "length (slices_from p m 0) \<le> MAX_CHUNKS" "length p \<le> MAX_TOTAL_BYTES"
  using assms by (fastforce simp: encode_chunks_def chunk_set_def Let_def split: if_splits)

text \<open>Chunked frames survive any arrival order: for a non-empty UTF-8 payload that \<open>encode_chunks\<close> accepts, decoding
  any permutation of the produced chunks, with the frame's CRC as the expected one or with none, returns exactly the
  payload, marked valid, with the frame's CRC. No property of CRC-32 is needed.\<close>

theorem frame_round_trip:
  assumes "encode_chunks crc \<lparr>fi_payload = p, fi_chunk_size = n\<rparr> = Some r"
    and "p \<noteq> []" "utf8_valid (bytes_of p)"
    and "mset cs = mset (fr_chunks r)" "e = None \<or> e = Some (fr_crc32 r)"
  shows "decode_chunks crc lossy \<lparr>di_chunks = cs, di_expected_crc32 = e\<rparr>
    = Some \<lparr>dr_payload = p, dr_valid = True, dr_crc32 = fr_crc32 r\<rparr>"
proof -
  obtain m where r: "fr_chunks r = chunk_set crc (slices_from p m 0)" "fr_crc32 r = crc (bytes_of p)"
    "length (slices_from p m 0) \<le> MAX_CHUNKS" "length p \<le> MAX_TOTAL_BYTES"
    using assms(1) by (rule encode_chunks_Some)
  define sl where "sl = slices_from p m 0"
  have cat: "concat sl = p" by (simp add: sl_def concat_slices)
  then have "sl \<noteq> []" using assms(2) by auto
  have sorted: "sort_key ch_index cs = chunk_set crc sl"
    using sort_chunks_unique [OF _ chunk_set_simps(1)] assms(4) r(1) by (simp add: sl_def)
  have "accept_chunks cs"
    by (rule accept_chunks_permuted [of _ crc sl]) (use assms(4) r \<open>sl \<noteq> []\<close> cat in \<open>simp_all add: sl_def\<close>)
  moreover have "concat (map (\<lambda>c. bytes_of (ch_data c)) (chunk_set crc sl)) = bytes_of p"
    using concat_map_bytes_of [of "map ch_data (chunk_set crc sl)"] cat chunk_set_simps(2) [of crc sl]
    by (metis (mono_tags, lifting) list.map_comp comp_apply map_eq_conv)
  moreover have "list_all (\<lambda>c. ch_checksum c = 0 \<or> crc (bytes_of (ch_data c)) = ch_checksum c) (chunk_set crc sl)"
    using chunk_set_simps(4) by (fastforce simp: list_all_iff)
  ultimately show ?thesis
    using assms(3,5) r(2) by (auto simp: decode_chunks_def sorted Let_def from_utf8_def)
qed

lemma slices_example: "slices_from (str_of [0x68, 0xC3, 0xA9, 0x21]) 2 0 = [str_of [0x68], str_of [0xC3, 0xA9], str_of [0x21]]"
  by code_simp

lemma encode_example:
  "encode_chunks length \<lparr>fi_payload = str_of [0x68, 0xC3, 0xA9, 0x21], fi_chunk_size = 2\<rparr>
   = Some \<lparr>fr_chunks =
       [\<lparr>ch_index = 0, ch_total = 3, ch_data = str_of [0x68], ch_checksum = 1\<rparr>,
        \<lparr>ch_index = 1, ch_total = 3, ch_data = str_of [0xC3, 0xA9], ch_checksum = 2\<rparr>,
        \<lparr>ch_index = 2, ch_total = 3, ch_data = str_of [0x21], ch_checksum = 1\<rparr>],
      fr_crc32 = 4\<rparr>"
  using slices_example by (simp add: encode_chunks_def str_of_def)

theorem frame_round_trip_witness:
  "decode_chunks length (\<lambda>_. '''') \<lparr>di_chunks =
       [\<lparr>ch_index = 2, ch_total = 3, ch_data = str_of [0x21], ch_checksum = 1\<rparr>,
        \<lparr>ch_index = 0, ch_total = 3, ch_data = str_of [0x68], ch_checksum = 1\<rparr>,
        \<lparr>ch_index = 1, ch_total = 3, ch_data = str_of [0xC3, 0xA9], ch_checksum = 2\<rparr>],
      di_expected_crc32 = Some 4\<rparr>
   = Some \<lparr>dr_payload = str_of [0x68, 0xC3, 0xA9, 0x21], dr_valid = True, dr_crc32 = 4\<rparr>"
  by (rule frame_round_trip [OF encode_example, simplified frame_packet_result.simps])
     (simp_all add: utf8_cont_def, simp add: str_of_def)

end
