(* ===== verification/TxGraph.thy ===== *)
theory TxGraph
  imports Tables
begin

section \<open>The transaction graph (sync-core/src/tx.rs, revert.rs)\<close>

text \<open>
  Optimistic user actions are nodes of a graph; when the network action of a node fails, the node and everything that
  depends on it is reverted, dependents first. The tables of the database the code touches are records of association
  lists keyed by the primary key; a statement is its documented effect on them, and whether a database call succeeds is
  given by an argument. A JSON payload is a value of \<open>json\<close>; the parser is a parameter.

  Shown: the two graph loops end on every graph, cyclic ones included; the closure is exactly the set of reachable nodes;
  the order lists it without repetition, and on an acyclic graph every dependent comes before what it depends on; what
  a rollback leaves in the tables.
\<close>

type_synonym adjacency = "(string, string list) hmap"

definition kids :: "adjacency \<Rightarrow> string \<Rightarrow> string list" where
  "kids adj n = (case map_of adj n of Some cs \<Rightarrow> cs | None \<Rightarrow> [])"

definition all_kids :: "adjacency \<Rightarrow> string set" where
  "all_kids adj = (\<Union>(k, cs)\<in>set adj. set cs)"

lemma finite_all_kids [simp]: "finite (all_kids adj)"
  by (auto simp: all_kids_def)

lemma kids_subset: "set (kids adj n) \<subseteq> all_kids adj"
proof (cases "map_of adj n")
  case (Some cs)
  then show ?thesis using map_of_SomeD [OF Some] by (auto simp: kids_def all_kids_def)
qed (simp add: kids_def)

text \<open>\<open>dependent_closure\<close>; the head of the list is the top of the stack.\<close>

function closure_loop :: "adjacency \<Rightarrow> string list \<Rightarrow> string list \<Rightarrow> string list" where
  "closure_loop adj closure [] = closure"
| "closure_loop adj closure (cur # stack) =
     (if cur \<in> set closure then closure_loop adj closure stack
      else closure_loop adj (hs_insert cur closure) (rev (kids adj cur) @ stack))"
  by pat_completeness auto
termination
proof (relation "inv_image (finite_psubset <*lex*> less_than)
    (\<lambda>(adj, closure, stack). ((set stack \<union> all_kids adj) - set closure, length stack))", goal_cases)
  case (2 adj closure cur stack)
  then show ?case by (cases "cur \<in> all_kids adj \<union> set stack") (auto simp: finite_psubset_def insert_absorb)
next
  case (3 adj closure cur stack)
  have "(set (rev (kids adj cur) @ stack) \<union> all_kids adj) - set (hs_insert cur closure)
    \<subset> (set (cur # stack) \<union> all_kids adj) - set closure"
    using 3 kids_subset [of adj cur] by (auto simp: hs_insert_def)
  then show ?case by (simp add: finite_psubset_def)
qed auto

definition dependent_closure :: "adjacency \<Rightarrow> string \<Rightarrow> string list" where
  "dependent_closure adj root = closure_loop adj [] [root]"

text \<open>The loop of \<open>reverse_topological\<close>; a stack entry is a node and whether it was expanded.\<close>

definition fresh_kids :: "adjacency \<Rightarrow> string list \<Rightarrow> string list \<Rightarrow> string list \<Rightarrow> string \<Rightarrow> string list" where
  "fresh_kids adj closure visited in_progress n =
     filter (\<lambda>c. c \<in> set closure \<and> c \<notin> set visited \<and> c \<notin> set in_progress) (kids adj n)"

function topo_loop ::
    "adjacency \<Rightarrow> string list \<Rightarrow> (string \<times> bool) list \<Rightarrow> string list \<Rightarrow> string list \<Rightarrow> string list \<Rightarrow> string list" where
  "topo_loop adj closure [] visited in_progress order = order"
| "topo_loop adj closure ((n, expanded) # stack) visited in_progress order =
     (if expanded then
        topo_loop adj closure stack (hs_insert n visited) (hs_remove n in_progress)
          (if n \<in> set visited then order else order @ [n])
      else if n \<in> set visited \<or> n \<in> set in_progress then topo_loop adj closure stack visited in_progress order
      else
        let ip = hs_insert n in_progress
        in topo_loop adj closure (map (\<lambda>c. (c, False)) (rev (fresh_kids adj closure visited ip n)) @ (n, True) # stack)
             visited ip order)"
  by pat_completeness auto
termination
proof (relation "inv_image (finite_psubset <*lex*> less_than) (\<lambda>(adj, closure, stack, visited, in_progress, order).
    ((fst ` set stack \<union> all_kids adj) - (set visited \<union> set in_progress), length stack))", goal_cases)
  case (2 adj closure n expanded stack visited in_progress order)
  let ?U = "(fst ` set ((n, expanded) # stack) \<union> all_kids adj) - (set visited \<union> set in_progress)"
  let ?V = "(fst ` set stack \<union> all_kids adj) - (set (hs_insert n visited) \<union> set (hs_remove n in_progress))"
  have "?V \<subseteq> ?U" by (auto simp: hs_insert_def hs_remove_def)
  moreover have "finite ?U" by simp
  ultimately show ?case by (cases "?V = ?U") (auto simp: finite_psubset_def)
next
  case (3 adj closure n expanded stack visited in_progress order)
  let ?U = "(fst ` set ((n, expanded) # stack) \<union> all_kids adj) - (set visited \<union> set in_progress)"
  let ?V = "(fst ` set stack \<union> all_kids adj) - (set visited \<union> set in_progress)"
  have "?V \<subseteq> ?U" "finite ?U" by auto
  then show ?case by (cases "?V = ?U") (auto simp: finite_psubset_def)
next
  case (4 adj closure n expanded stack visited in_progress order ip)
  let ?S = "map (\<lambda>c. (c, False)) (rev (fresh_kids adj closure visited ip n)) @ (n, True) # stack"
  have "set (fresh_kids adj closure visited ip n) \<subseteq> all_kids adj"
    using kids_subset [of adj n] by (auto simp: fresh_kids_def)
  then have "(fst ` set ?S \<union> all_kids adj) - (set visited \<union> set ip)
      \<subset> (fst ` set ((n, expanded) # stack) \<union> all_kids adj) - (set visited \<union> set in_progress)"
    using 4 by (auto simp: hs_insert_def image_iff)
  then show ?case by (simp add: finite_psubset_def)
qed auto

definition reverse_topological :: "adjacency \<Rightarrow> string list \<Rightarrow> string list" where
  "reverse_topological adj closure = topo_loop adj closure (rev (map (\<lambda>n. (n, False)) closure)) [] [] []"



subsection \<open>The tables and the payloads\<close>

text \<open>\<open>serde_json::Value\<close> with \<open>get\<close> and \<open>as_str\<close>. Numbers are kept as text, nothing reads them.\<close>

datatype json = JNull | JBool bool | JNum string | JStr string | JArr "json list" | JObj "(string \<times> json) list"

fun j_get :: "string \<Rightarrow> json \<Rightarrow> json option" where
  "j_get k (JObj fs) = map_of fs k"
| "j_get k v = None"

fun j_str :: "json \<Rightarrow> string option" where
  "j_str (JStr s) = Some s"
| "j_str v = None"

definition get_str :: "string \<Rightarrow> json \<Rightarrow> string option" where
  "get_str k v = Option.bind (j_get k v) j_str"

record user_profile =
  pr_name :: "string option"
  pr_display_name :: "string option"
  pr_about :: "string option"
  pr_picture :: "string option"

record tx_node =
  tn_kind :: string
  tn_payload :: string
  tn_status :: string
  tn_created_at :: int

text \<open>The columns the code reads or writes: posts with \<open>is_deleted\<close>, the ids of reactions, profiles by key, nodes by id,
  and edges as parent and child.\<close>

record tx_db =
  posts :: "(string, bool) hmap"
  reactions :: "string list"
  users :: "(string, user_profile) hmap"
  tx_nodes :: "(string, tx_node) hmap"
  tx_edges :: "(string \<times> string) list"

definition STATUS_PENDING :: string where "STATUS_PENDING = ''pending''"
definition STATUS_APPLIED :: string where "STATUS_APPLIED = ''applied''"
definition STATUS_FAILED :: string where "STATUS_FAILED = ''failed''"
definition STATUS_ROLLED_BACK :: string where "STATUS_ROLLED_BACK = ''rolled_back''"
definition KIND_POST :: string where "KIND_POST = ''post''"
definition KIND_LIKE :: string where "KIND_LIKE = ''like''"
definition KIND_PROFILE :: string where "KIND_PROFILE = ''profile''"

lemmas status_defs = STATUS_PENDING_def STATUS_APPLIED_def STATUS_FAILED_def STATUS_ROLLED_BACK_def
lemmas kind_defs = KIND_POST_def KIND_LIKE_def KIND_PROFILE_def

definition set_status :: "string \<Rightarrow> string \<Rightarrow> tx_db \<Rightarrow> tx_db" where
  "set_status nid status db = db\<lparr>tx_nodes := update_row nid (\<lambda>n. n\<lparr>tn_status := status\<rparr>) (tx_nodes db)\<rparr>"

text \<open>\<open>exec_ok\<close>: whether the statement, if one is issued, succeeds.\<close>

definition restore_profile :: "json \<Rightarrow> user_profile \<Rightarrow> user_profile" where
  "restore_profile prior u =
     (let put = (\<lambda>k old. case get_str k prior of Some v \<Rightarrow> Some v | None \<Rightarrow> old)
      in \<lparr>pr_name = put ''name'' (pr_name u), pr_display_name = put ''display_name'' (pr_display_name u),
          pr_about = put ''about'' (pr_about u), pr_picture = put ''picture'' (pr_picture u)\<rparr>)"

definition revert_tx :: "(string \<Rightarrow> json option) \<Rightarrow> bool \<Rightarrow> string \<Rightarrow> string \<Rightarrow> tx_db \<Rightarrow> tx_db res" where
  "revert_tx parse exec_ok kind payload_json db =
     (let exec = (\<lambda>db'. if exec_ok then Ok db' else Err ''sql'') in
      case parse payload_json of
        None \<Rightarrow> Err ''revert payload''
      | Some payload \<Rightarrow>
          if kind = KIND_POST then
            (case get_str ''id'' payload of
               Some nid \<Rightarrow> exec (db\<lparr>posts := update_row nid (\<lambda>_. True) (posts db)\<rparr>)
             | None \<Rightarrow> Ok db)
          else if kind = KIND_LIKE then
            (case get_str ''id'' payload of
               Some nid \<Rightarrow> exec (db\<lparr>reactions := hs_remove nid (reactions db)\<rparr>)
             | None \<Rightarrow> Ok db)
          else if kind = KIND_PROFILE then
            (case get_str ''pubkey'' payload of
               None \<Rightarrow> Ok db
             | Some pubkey \<Rightarrow>
                 (case j_get ''prior'' payload of
                    None \<Rightarrow> Ok db
                  | Some prior \<Rightarrow>
                      if list_all (\<lambda>k. get_str k prior = None) [''name'', ''display_name'', ''about'', ''picture''] then Ok db
                      else exec (db\<lparr>users := update_row pubkey (restore_profile prior) (users db)\<rparr>)))
          else Ok db)"

definition revert :: "(string \<Rightarrow> json option) \<Rightarrow> bool \<Rightarrow> string \<Rightarrow> string \<Rightarrow> tx_db \<Rightarrow> tx_db res" where
  "revert parse exec_ok kind payload_json db = revert_tx parse exec_ok kind payload_json db"

text \<open>Reverting an action twice is reverting it once.\<close>

lemma restore_profile_twice [simp]: "restore_profile prior (restore_profile prior u) = restore_profile prior u"
  by (simp add: restore_profile_def Let_def split: option.split)

lemma revert_idempotent:
  assumes "revert parse ok kind payload db = Ok db'"
  shows "revert parse ok kind payload db' = Ok db'"
proof -
  obtain v where v: "parse payload = Some v" using assms by (cases "parse payload") (simp_all add: revert_def revert_tx_def)
  consider "kind = KIND_POST" | "kind = KIND_LIKE" | "kind = KIND_PROFILE" | "kind \<notin> {KIND_POST, KIND_LIKE, KIND_PROFILE}"
    by blast
  then show ?thesis
  proof cases
    case 1
    then show ?thesis using assms v
      by (cases "get_str ''id'' v") (auto simp: revert_def revert_tx_def update_row_twice [of "\<lambda>_. True"] split: if_splits)
  next
    case 2
    then show ?thesis using assms v
      by (cases "get_str ''id'' v") (auto simp: revert_def revert_tx_def kind_defs hs_remove_def split: if_splits)
  next
    case 3
    then show ?thesis using assms v
      by (cases "get_str ''pubkey'' v"; cases "j_get ''prior'' v")
         (auto simp: revert_def revert_tx_def kind_defs update_row_twice [of "restore_profile _"] split: if_splits)
  next
    case 4
    then show ?thesis using assms v by (simp add: revert_def revert_tx_def)
  qed
qed


subsection \<open>The operations\<close>

definition tx_begin :: "bool \<Rightarrow> bool \<Rightarrow> string \<Rightarrow> string \<Rightarrow> string \<Rightarrow> int \<Rightarrow> tx_db \<Rightarrow> unit res \<times> tx_db" where
  "tx_begin opened exec_ok nid kind payload_json now_secs db =
     (if \<not> opened then (Err ''conn'', db)
      else if \<not> exec_ok then (Err ''tx_begin'', db)
      else (Ok (), db\<lparr>tx_nodes := hm_put nid \<lparr>tn_kind = kind, tn_payload = payload_json, tn_status = STATUS_PENDING,
                                              tn_created_at = now_secs\<rparr> (tx_nodes db)\<rparr>))"

definition tx_link :: "bool \<Rightarrow> bool \<Rightarrow> string \<Rightarrow> string \<Rightarrow> tx_db \<Rightarrow> unit res \<times> tx_db" where
  "tx_link opened exec_ok parent_id child_id db =
     (if \<not> opened then (Err ''conn'', db)
      else if \<not> exec_ok then (Err ''tx_link'', db)
      else (Ok (), db\<lparr>tx_edges := hs_insert (parent_id, child_id) (tx_edges db)\<rparr>))"

definition tx_mark_applied :: "bool \<Rightarrow> bool \<Rightarrow> string \<Rightarrow> tx_db \<Rightarrow> unit res \<times> tx_db" where
  "tx_mark_applied opened exec_ok nid db =
     (if \<not> opened then (Err ''conn'', db)
      else if \<not> exec_ok then (Err ''tx status'', db)
      else (Ok (), set_status nid STATUS_APPLIED db))"

text \<open>The rows of the edge table in the order the query returns them.\<close>

definition add_edge :: "string \<times> string \<Rightarrow> adjacency \<Rightarrow> adjacency" where
  "add_edge e adj = hm_put (fst e) (kids adj (fst e) @ [snd e]) adj"

definition load_edges :: "(string \<times> string) list \<Rightarrow> adjacency" where
  "load_edges rows = fold add_edge rows []"

text \<open>The outcomes of the database calls of \<open>tx_fail\<close>, per node where they are issued per node.\<close>

record tx_calls =
  conn_ok :: bool
  edges_ok :: bool
  begin_ok :: bool
  nodes_ok :: bool
  revert_ok :: "string \<Rightarrow> bool"
  status_ok :: "string \<Rightarrow> bool"
  failed_ok :: bool
  commit_ok :: bool

definition node_row :: "tx_db \<Rightarrow> string \<Rightarrow> string \<times> string" where
  "node_row db nid = (case map_of (tx_nodes db) nid of Some n \<Rightarrow> (tn_kind n, tn_payload n) | None \<Rightarrow> ('''', ''''))"

text \<open>The loop over the order: \<open>None\<close> is a failed status update, which drops the transaction.\<close>

fun rollback_nodes ::
    "(string \<Rightarrow> json option) \<Rightarrow> tx_calls \<Rightarrow> (string \<Rightarrow> string \<times> string) \<Rightarrow> string list \<Rightarrow> tx_db \<Rightarrow> string list \<Rightarrow> string list
      \<Rightarrow> (tx_db \<times> string list \<times> string list) option" where
  "rollback_nodes parse calls row [] db errors rolled_back = Some (db, errors, rolled_back)"
| "rollback_nodes parse calls row (n # ns) db errors rolled_back =
     (case revert_tx parse (revert_ok calls n) (fst (row n)) (snd (row n)) db of
        Ok db' \<Rightarrow>
          if status_ok calls n
          then rollback_nodes parse calls row ns (set_status n STATUS_ROLLED_BACK db') errors (rolled_back @ [n])
          else None
      | _ \<Rightarrow> rollback_nodes parse calls row ns db (errors @ [n]) rolled_back)"

definition rolled_back_after :: "string list \<Rightarrow> string list \<Rightarrow> string list" where
  "rolled_back_after rolled_ids order = rolled_ids @ order"

text \<open>\<open>iter\<close> is the order in which the hash set of the closure is iterated.\<close>

definition tx_fail ::
    "(string \<Rightarrow> json option) \<Rightarrow> (string list \<Rightarrow> string list) \<Rightarrow> tx_calls \<Rightarrow> string \<Rightarrow> tx_db \<Rightarrow> string list res \<times> tx_db" where
  "tx_fail parse iter calls nid db =
     (if \<not> conn_ok calls then (Err ''conn'', db)
      else if \<not> edges_ok calls then (Err ''edges'', db)
      else
        let adj = load_edges (tx_edges db);
            order = reverse_topological adj (iter (dependent_closure adj nid))
        in if order = [] then (Ok [], db)
           else if \<not> begin_ok calls \<or> \<not> nodes_ok calls then (Err ''tx_fail'', db)
           else case rollback_nodes parse calls (node_row db) order db [] [] of
                  None \<Rightarrow> (Err ''tx_fail'', db)
                | Some (db', errors, rolled_back) \<Rightarrow>
                    if \<not> failed_ok calls \<or> \<not> commit_ok calls then (Err ''tx_fail'', db)
                    else (if errors \<noteq> [] then Err ''node revert(s) failed after chain rollback'' else Ok (rolled_back_after rolled_back []),
                          set_status nid STATUS_FAILED db'))"

definition tx_statuses :: "bool \<Rightarrow> bool \<Rightarrow> tx_db \<Rightarrow> (string \<times> tx_node) list res" where
  "tx_statuses opened queried db =
     (if \<not> opened \<or> \<not> queried then Err ''sql''
      else Ok (take 200 (sort_key (\<lambda>(nid, n). - tn_created_at n) (tx_nodes db))))"


subsection \<open>The closure is reachability\<close>

abbreviation edges :: "adjacency \<Rightarrow> (string \<times> string) set" where
  "edges adj \<equiv> {(p, c). c \<in> set (kids adj p)}"

lemma closure_loop_spec:
  assumes "distinct closure" "\<forall>x\<in>set closure. set (kids adj x) \<subseteq> set closure \<union> set stack"
  shows "distinct (closure_loop adj closure stack)
    \<and> set (closure_loop adj closure stack) = set closure \<union> (edges adj)\<^sup>* `` set stack"
  using assms
proof (induction adj closure stack rule: closure_loop.induct)
  case (2 adj closure cur stack)
  show ?case
  proof (cases "cur \<in> set closure")
    case True
    let ?R = "(edges adj)\<^sup>* `` set stack"
    have "edges adj `` set closure \<subseteq> set closure \<union> set stack" using 2(4) True by auto
    moreover have "edges adj `` ?R \<subseteq> ?R" "set stack \<subseteq> ?R" by (auto intro: rtrancl_into_rtrancl)
    ultimately have "edges adj `` (set closure \<union> ?R) \<subseteq> set closure \<union> ?R" unfolding Image_Un by blast
    then have "(edges adj)\<^sup>* `` (set closure \<union> ?R) = set closure \<union> ?R" by (rule Image_closed_trancl)
    then have "(edges adj)\<^sup>* `` {cur} \<subseteq> set closure \<union> ?R" using True by blast
    moreover have "(edges adj)\<^sup>* `` set (cur # stack) = (edges adj)\<^sup>* `` {cur} \<union> ?R" by auto
    moreover have "\<forall>x\<in>set closure. set (kids adj x) \<subseteq> set closure \<union> set stack" using 2(4) True by auto
    then have "distinct (closure_loop adj closure stack) \<and> set (closure_loop adj closure stack) = set closure \<union> ?R"
      using 2(1) [OF True] 2(3) by simp
    ultimately show ?thesis using True by auto
  next
    case False
    have "(edges adj)\<^sup>* `` {cur} = insert cur ((edges adj)\<^sup>* `` set (kids adj cur))"
      by (auto elim: converse_rtranclE intro: converse_rtrancl_into_rtrancl)
    moreover have "\<forall>x\<in>set (hs_insert cur closure).
        set (kids adj x) \<subseteq> set (hs_insert cur closure) \<union> set (rev (kids adj cur) @ stack)"
      using 2(4) by (auto simp: hs_insert_def)
    ultimately show ?thesis using 2(2) [OF False] 2(3) False by (auto simp: hs_insert_def)
  qed
qed simp

lemma dependent_closure_reachable:
  "distinct (dependent_closure adj root) \<and> set (dependent_closure adj root) = (edges adj)\<^sup>* `` {root}"
  using closure_loop_spec [of "[]" adj "[root]"] by (simp add: dependent_closure_def)



subsection \<open>The order\<close>

text \<open>Every expanded entry lies on a path to the entries above it.\<close>

primrec path_ok :: "adjacency \<Rightarrow> (string \<times> bool) list \<Rightarrow> bool" where
  "path_ok adj [] \<longleftrightarrow> True"
| "path_ok adj (e # st) \<longleftrightarrow> (\<forall>m. (m, True) \<in> set st \<longrightarrow> (m, fst e) \<in> (edges adj)\<^sup>+) \<and> path_ok adj st"

text \<open>The children of an expanded entry are finished or above it (\<open>S\<close>: what is finished or above).\<close>

fun kids_ok :: "adjacency \<Rightarrow> string set \<Rightarrow> string set \<Rightarrow> (string \<times> bool) list \<Rightarrow> bool" where
  "kids_ok adj cl S [] \<longleftrightarrow> True"
| "kids_ok adj cl S ((n, b) # st) \<longleftrightarrow> (b \<longrightarrow> set (kids adj n) \<inter> cl \<subseteq> S) \<and> kids_ok adj cl (insert n S) st"

lemma kids_ok_mono: "kids_ok adj cl S st \<Longrightarrow> S \<subseteq> T \<Longrightarrow> kids_ok adj cl T st"
proof (induction adj cl S st arbitrary: T rule: kids_ok.induct)
  case (2 adj cl S n b st)
  then have "kids_ok adj cl (insert n T) st" by (meson insert_mono kids_ok.simps(2))
  then show ?case using 2(2,3) by auto
qed simp

lemma kids_ok_plain: "kids_ok adj cl S (map (\<lambda>c. (c, False)) xs @ st) = kids_ok adj cl (set xs \<union> S) st"
  by (induction xs arbitrary: S) auto

lemma kids_ok_drop:
  "kids_ok adj cl (insert c S) st \<Longrightarrow> path_ok adj st \<Longrightarrow> (c, True) \<in> set st \<Longrightarrow> acyclic (edges adj) \<Longrightarrow> kids_ok adj cl S st"
proof (induction st arbitrary: S)
  case (Cons e st)
  obtain n b where e: "e = (n, b)" by (cases e)
  have "c \<notin> set (kids adj n)"
  proof
    assume "c \<in> set (kids adj n)"
    then have "(n, c) \<in> edges adj" by simp
    moreover have "c = n \<or> (c, n) \<in> (edges adj)\<^sup>+" using Cons.prems(2,3) e by auto
    ultimately show False using Cons.prems(4) by (meson acyclic_def r_into_trancl' trancl_into_trancl)
  qed
  moreover have "kids_ok adj cl (insert n S) st"
  proof (cases "c = n")
    case False
    then show ?thesis using Cons e by (simp add: insert_commute)
  qed (use Cons.prems(1) e in simp)
  ultimately show ?case using Cons.prems(1) e by auto
qed simp

definition expanded_nodes :: "(string \<times> bool) list \<Rightarrow> string set" where
  "expanded_nodes st = {n. (n, True) \<in> set st}"

text \<open>What the loop keeps on every graph.\<close>

definition topo_inv :: "string list \<Rightarrow> (string \<times> bool) list \<Rightarrow> string list \<Rightarrow> string list \<Rightarrow> string list \<Rightarrow> bool" where
  "topo_inv closure st visited ip order \<longleftrightarrow>
     set visited = set order \<and> distinct order \<and> set order \<subseteq> set closure
     \<and> fst ` set st \<subseteq> set closure \<and> set closure \<subseteq> set order \<union> fst ` set st
     \<and> set ip = expanded_nodes st \<and> expanded_nodes st \<inter> set order = {} \<and> distinct (map fst (filter snd st))"

definition dependents_first :: "adjacency \<Rightarrow> string set \<Rightarrow> string list \<Rightarrow> bool" where
  "dependents_first adj cl order \<longleftrightarrow> (\<forall>xs n ys. order = xs @ n # ys \<longrightarrow> set (kids adj n) \<inter> cl \<subseteq> set xs)"

lemma dependents_first_snoc:
  "dependents_first adj cl order \<Longrightarrow> set (kids adj n) \<inter> cl \<subseteq> set order \<Longrightarrow> dependents_first adj cl (order @ [n])"
  by (fastforce simp: dependents_first_def append_eq_append_conv2 append_eq_Cons_conv Cons_eq_append_conv)


lemma topo_inv_finish:
  assumes "topo_inv closure ((n, True) # st) visited ip order"
  shows "n \<notin> set visited" "topo_inv closure st (hs_insert n visited) (hs_remove n ip) (order @ [n])"
proof -
  have inv: "set visited = set order" "distinct order" "set order \<subseteq> set closure" "fst ` set st \<subseteq> set closure"
    "n \<in> set closure" "set closure \<subseteq> insert n (set order \<union> fst ` set st)" "set ip = insert n (expanded_nodes st)"
    "n \<notin> set order" "expanded_nodes st \<inter> set order = {}" "distinct (map fst (filter snd st))"
    "n \<notin> set (map fst (filter snd st))"
    using assms by (simp_all add: topo_inv_def expanded_nodes_def) blast+
  have "n \<notin> expanded_nodes st" using inv(11) by (force simp: expanded_nodes_def)
  then have "set (hs_remove n ip) = expanded_nodes st" using inv(7) by (auto simp: hs_remove_def)
  moreover have "expanded_nodes st \<inter> set (order @ [n]) = {}" using \<open>n \<notin> expanded_nodes st\<close> inv(9) by simp
  moreover have "set (hs_insert n visited) = set (order @ [n])" using inv(1) by (auto simp: hs_insert_def)
  ultimately show "topo_inv closure st (hs_insert n visited) (hs_remove n ip) (order @ [n])"
    using inv(1-6,8,10) by (simp add: topo_inv_def)
  show "n \<notin> set visited" using inv(1,8) by simp
qed

lemma topo_inv_skip:
  assumes "topo_inv closure ((n, False) # st) visited ip order" "n \<in> set visited \<or> n \<in> set ip"
  shows "topo_inv closure st visited ip order"
proof -
  have "expanded_nodes ((n, False) # st) = expanded_nodes st" by (auto simp: expanded_nodes_def)
  moreover have "n \<in> set order \<union> fst ` set st"
  proof (cases "n \<in> set visited")
    case False
    then have "(n, True) \<in> set st" using assms by (simp add: topo_inv_def expanded_nodes_def)
    then show ?thesis by force
  qed (use assms in \<open>simp add: topo_inv_def\<close>)
  ultimately show ?thesis using assms(1) by (auto simp: topo_inv_def)
qed

lemma topo_inv_expand:
  assumes "topo_inv closure ((n, False) # st) visited ip order" "n \<notin> set visited" "n \<notin> set ip"
  shows "topo_inv closure (map (\<lambda>c. (c, False)) (rev (fresh_kids adj closure visited (hs_insert n ip) n)) @ (n, True) # st)
    visited (hs_insert n ip) order"
proof -
  let ?K = "map (\<lambda>c. (c, False)) (rev (fresh_kids adj closure visited (hs_insert n ip) n))"
  have "set (fresh_kids adj closure visited (hs_insert n ip) n) \<subseteq> set closure" by (auto simp: fresh_kids_def)
  then have "fst ` set ?K \<subseteq> set closure" by auto
  moreover have "filter snd ?K = []" by (auto simp: filter_empty_conv)
  moreover have "expanded_nodes (?K @ (n, True) # st) = insert n (expanded_nodes ((n, False) # st))"
    by (auto simp: expanded_nodes_def)
  moreover have "n \<notin> set (map fst (filter snd st))"
    using assms(1,3) by (auto simp: topo_inv_def expanded_nodes_def)
  ultimately show ?thesis
    using assms by (auto simp: topo_inv_def hs_insert_def)
qed


lemma topo_loop_permutes:
  "topo_inv closure st visited ip order
    \<Longrightarrow> distinct (topo_loop adj closure st visited ip order) \<and> set (topo_loop adj closure st visited ip order) = set closure"
proof (induction adj closure st visited ip order rule: topo_loop.induct)
  case (2 adj closure n expanded st visited ip order)
  show ?case
  proof (cases expanded)
    case True
    then show ?thesis using 2(1) [OF True] topo_inv_finish [of closure n st visited ip order] 2(4) by simp
  next
    case False
    show ?thesis
    proof (cases "n \<in> set visited \<or> n \<in> set ip")
      case True
      then show ?thesis using 2(2) [OF False True] topo_inv_skip 2(4) False by simp
    next
      case new: False
      then show ?thesis using 2(3) [OF False new refl] topo_inv_expand 2(4) False by (simp add: Let_def)
    qed
  qed
qed (auto simp: topo_inv_def expanded_nodes_def)

lemma topo_inv_start: "distinct closure \<Longrightarrow> topo_inv closure (rev (map (\<lambda>n. (n, False)) closure)) [] [] []"
  by (auto simp: topo_inv_def expanded_nodes_def filter_empty_conv rev_map image_image)

text \<open>What it keeps in addition on an acyclic graph.\<close>

definition topo_acyclic :: "adjacency \<Rightarrow> string list \<Rightarrow> (string \<times> bool) list \<Rightarrow> string list \<Rightarrow> string list \<Rightarrow> string list \<Rightarrow> bool" where
  "topo_acyclic adj closure st visited ip order \<longleftrightarrow>
     topo_inv closure st visited ip order \<and> path_ok adj st \<and> kids_ok adj (set closure) (set order) st
     \<and> dependents_first adj (set closure) order"

lemma path_ok_expand:
  assumes "path_ok adj ((n, False) # st)" "\<forall>c\<in>set cs. c \<in> set (kids adj n)"
  shows "path_ok adj (map (\<lambda>c. (c, False)) cs @ (n, True) # st)"
  using assms(2)
proof (induction cs)
  case (Cons c cs)
  have "(m, c) \<in> (edges adj)\<^sup>+" if "(m, True) \<in> set ((n, True) # st)" for m
  proof -
    have nc: "(n, c) \<in> edges adj" using Cons.prems by simp
    have "m = n \<or> (m, n) \<in> (edges adj)\<^sup>+" using that assms(1) by auto
    then show ?thesis using nc by (meson r_into_trancl trancl_into_trancl)
  qed
  then show ?case using Cons by auto
qed (use assms(1) in simp)

lemma topo_acyclic_finish:
  assumes "topo_acyclic adj closure ((n, True) # st) visited ip order"
  shows "topo_acyclic adj closure st (hs_insert n visited) (hs_remove n ip) (order @ [n])"
proof -
  have inv: "topo_inv closure st (hs_insert n visited) (hs_remove n ip) (order @ [n])"
    using assms by (intro topo_inv_finish(2)) (simp add: topo_acyclic_def)
  have k: "set (kids adj n) \<inter> set closure \<subseteq> set order" "kids_ok adj (set closure) (insert n (set order)) st"
    using assms by (auto simp: topo_acyclic_def)
  show ?thesis
    using assms inv k dependents_first_snoc [OF _ k(1)] by (auto simp: topo_acyclic_def)
qed

lemma topo_acyclic_skip:
  assumes "topo_acyclic adj closure ((n, False) # st) visited ip order" "n \<in> set visited \<or> n \<in> set ip" "acyclic (edges adj)"
  shows "topo_acyclic adj closure st visited ip order"
proof -
  have k: "kids_ok adj (set closure) (insert n (set order)) st" "path_ok adj st" using assms(1) by (simp_all add: topo_acyclic_def)
  have "kids_ok adj (set closure) (set order) st"
  proof (cases "n \<in> set visited")
    case True
    then have "insert n (set order) = set order" using assms(1) by (auto simp: topo_acyclic_def topo_inv_def)
    then show ?thesis using k(1) by simp
  next
    case False
    then have "(n, True) \<in> set st" using assms(1,2) by (simp add: topo_acyclic_def topo_inv_def expanded_nodes_def)
    then show ?thesis using kids_ok_drop [OF k] assms(3) by blast
  qed
  then show ?thesis using assms(1,2) topo_inv_skip [of closure n st visited ip order] by (simp add: topo_acyclic_def)
qed


lemma topo_acyclic_expand:
  assumes "topo_acyclic adj closure ((n, False) # st) visited ip order" "n \<notin> set visited" "n \<notin> set ip" "acyclic (edges adj)"
  shows "topo_acyclic adj closure (map (\<lambda>c. (c, False)) (rev (fresh_kids adj closure visited (hs_insert n ip) n)) @ (n, True) # st)
    visited (hs_insert n ip) order"
proof -
  let ?F = "fresh_kids adj closure visited (hs_insert n ip) n"
  have inv: "topo_inv closure ((n, False) # st) visited ip order" "path_ok adj ((n, False) # st)"
    "kids_ok adj (set closure) (insert n (set order)) st" using assms(1) by (simp_all add: topo_acyclic_def)
  have "set (kids adj n) \<inter> set closure \<subseteq> set ?F \<union> set order"
  proof
    fix c assume c: "c \<in> set (kids adj n) \<inter> set closure"
    have "c \<noteq> n \<and> c \<notin> set ip"
    proof (rule ccontr)
      assume "\<not> (c \<noteq> n \<and> c \<notin> set ip)"
      then have "c = n \<or> (c, n) \<in> (edges adj)\<^sup>+"
        using inv(1,2) by (auto simp: topo_inv_def expanded_nodes_def)
      moreover have "(n, c) \<in> edges adj" using c by simp
      ultimately show False using assms(4) by (meson acyclic_def r_into_trancl' trancl_into_trancl)
    qed
    then show "c \<in> set ?F \<union> set order" using c inv(1) by (auto simp: fresh_kids_def hs_insert_def topo_inv_def)
  qed
  moreover have "kids_ok adj (set closure) (insert n (set ?F \<union> set order)) st" by (rule kids_ok_mono [OF inv(3)]) auto
  moreover have "path_ok adj (map (\<lambda>c. (c, False)) (rev ?F) @ (n, True) # st)"
    by (rule path_ok_expand [OF inv(2)]) (auto simp: fresh_kids_def)
  ultimately show ?thesis
    using assms(1) topo_inv_expand [OF inv(1) assms(2,3), of adj]
    by (simp add: topo_acyclic_def kids_ok_plain del: rev_map)
qed

lemma topo_loop_dependents_first:
  "topo_acyclic adj closure st visited ip order \<Longrightarrow> acyclic (edges adj)
    \<Longrightarrow> dependents_first adj (set closure) (topo_loop adj closure st visited ip order)"
proof (induction adj closure st visited ip order rule: topo_loop.induct)
  case (2 adj closure n expanded st visited ip order)
  show ?case
  proof (cases expanded)
    case True
    have "n \<notin> set visited"
      using topo_inv_finish(1) [of closure n st visited ip order] 2(4) True by (simp add: topo_acyclic_def)
    then show ?thesis using 2(1) [OF True] topo_acyclic_finish [of adj closure n st visited ip order] 2(4,5) True by simp
  next
    case False
    show ?thesis
    proof (cases "n \<in> set visited \<or> n \<in> set ip")
      case True
      then show ?thesis using 2(2) [OF False True] topo_acyclic_skip [of adj closure n st visited ip order] 2(4,5) False by simp
    next
      case new: False
      then show ?thesis
        using 2(3) [OF False new refl] topo_acyclic_expand [of adj closure n st visited ip order] 2(4,5) False by (simp add: Let_def)
    qed
  qed
qed (simp add: topo_acyclic_def)

lemma topo_acyclic_start:
  "distinct closure \<Longrightarrow> topo_acyclic adj closure (rev (map (\<lambda>n. (n, False)) closure)) [] [] []"
proof -
  have "path_ok adj (map (\<lambda>c. (c, False)) xs)" for xs by (induction xs) auto
  then have "path_ok adj (rev (map (\<lambda>n. (n, False)) closure))" by (simp add: rev_map)
  moreover have "kids_ok adj (set closure) {} (rev (map (\<lambda>n. (n, False)) closure))"
    using kids_ok_plain [of adj "set closure" "{}" "rev closure" "[]"] by (simp add: rev_map)
  ultimately show "distinct closure \<Longrightarrow> ?thesis" using topo_inv_start by (simp add: topo_acyclic_def dependents_first_def)
qed


lemma kids_add_edge: "kids (add_edge e adj) p = (if p = fst e then kids adj p @ [snd e] else kids adj p)"
  by (simp add: add_edge_def kids_def)

lemma set_kids_load: "set (kids (fold add_edge rows adj) p) = set (kids adj p) \<union> {c. (p, c) \<in> set rows}"
  by (induction rows arbitrary: adj) (auto simp: kids_add_edge)

lemma edges_load [simp]: "edges (load_edges rows) = set rows"
proof -
  have "kids [] p = []" for p by (simp add: kids_def)
  then show ?thesis using set_kids_load [of rows "[]"] by (simp add: load_edges_def)
qed

lemma reverse_topological_permutes:
  "distinct cl \<Longrightarrow> distinct (reverse_topological adj cl) \<and> set (reverse_topological adj cl) = set cl"
  unfolding reverse_topological_def by (rule topo_loop_permutes [OF topo_inv_start])

lemma reverse_topological_dependents_first:
  "distinct cl \<Longrightarrow> acyclic (edges adj) \<Longrightarrow> dependents_first adj (set cl) (reverse_topological adj cl)"
  unfolding reverse_topological_def by (rule topo_loop_dependents_first [OF topo_acyclic_start])

lemma dependents_first_edge:
  assumes "dependents_first adj cl (xs @ p # ys)" "c \<in> set (kids adj p)" "c \<in> cl"
  shows "c \<in> set xs"
  using assms unfolding dependents_first_def by blast

lemma dependents_first_trancl:
  assumes "dependents_first adj cl (xs @ p # ys)" "(p, c) \<in> (edges adj)\<^sup>+" "edges adj `` cl \<subseteq> cl" "p \<in> cl"
  shows "c \<in> set xs"
proof -
  have "c \<in> set xs \<and> c \<in> cl" using assms(2)
  proof (induction rule: trancl_induct)
    case (base c)
    then show ?case using assms(1,3,4) dependents_first_edge by blast
  next
    case (step c d)
    then obtain us vs where "xs = us @ c # vs" by (meson split_list)
    then have "dependents_first adj cl (us @ c # (vs @ p # ys))" using assms(1) by simp
    moreover have "d \<in> cl" using step assms(3) by blast
    ultimately have "d \<in> set us" using step(2) dependents_first_edge by blast
    then show ?case using \<open>xs = us @ c # vs\<close> \<open>d \<in> cl\<close> by simp
  qed
  then show ?thesis by simp
qed

lemma rollback_order_facts:
  assumes "distinct cl" "set cl = set (dependent_closure (load_edges rows) root)"
  shows "distinct (reverse_topological (load_edges rows) cl)"
    and "set (reverse_topological (load_edges rows) cl) = (set rows)\<^sup>* `` {root}"
    and "acyclic (set rows) \<Longrightarrow> reverse_topological (load_edges rows) cl = xs @ p # ys \<Longrightarrow> (p, c) \<in> (set rows)\<^sup>+ \<Longrightarrow> c \<in> set xs"
    and "acyclic (set rows) \<Longrightarrow> last (reverse_topological (load_edges rows) cl) = root"
proof -
  let ?adj = "load_edges rows" let ?o = "reverse_topological (load_edges rows) cl"
  have set_cl: "set cl = (set rows)\<^sup>* `` {root}" using assms(2) dependent_closure_reachable [of ?adj root] by simp
  show d: "distinct ?o" and s: "set ?o = (set rows)\<^sup>* `` {root}"
    using reverse_topological_permutes [OF assms(1), of ?adj] set_cl by simp_all
  have closed: "edges ?adj `` set cl \<subseteq> set cl" using set_cl by (auto intro: rtrancl_into_rtrancl)
  have before: "c \<in> set xs" if "acyclic (set rows)" "?o = xs @ p # ys" "(p, c) \<in> (set rows)\<^sup>+" for xs p ys c
  proof (rule dependents_first_trancl [OF _ _ closed])
    show "dependents_first ?adj (set cl) (xs @ p # ys)"
      using reverse_topological_dependents_first [OF assms(1), of ?adj] that by simp
    have "p \<in> set ?o" using that(2) by simp
    then show "p \<in> set cl" using s set_cl by simp
  qed (use that(3) in simp)
  then show "acyclic (set rows) \<Longrightarrow> ?o = xs @ p # ys \<Longrightarrow> (p, c) \<in> (set rows)\<^sup>+ \<Longrightarrow> c \<in> set xs" by blast
  show "last ?o = root" if ac: "acyclic (set rows)"
  proof (rule ccontr)
    assume ne: "last ?o \<noteq> root"
    have "?o \<noteq> []" using s by auto
    then have o: "?o = butlast ?o @ [last ?o]" by simp
    then have "last ?o \<in> (set rows)\<^sup>* `` {root}" using s last_in_set [OF \<open>?o \<noteq> []\<close>] by simp
    then have path: "(root, last ?o) \<in> (set rows)\<^sup>+" using ne by (auto dest: rtranclD)
    have "root \<in> set (butlast ?o)" using s ne o by (metis Image_singleton_iff append_Nil2 in_set_conv_decomp rtrancl.rtrancl_refl set_append set_ConsD Un_iff empty_iff list.set(1))
    then obtain us vs where "butlast ?o = us @ root # vs" by (meson split_list)
    then have "?o = us @ root # (vs @ [last ?o])" using o by simp
    then have "last ?o \<in> set us" using before [OF ac _ path] by blast
    then show False using d \<open>?o = us @ root # (vs @ [last ?o])\<close> by (metis append_Cons append_assoc distinct_append disjoint_iff in_set_conv_decomp Cons_eq_appendI)
  qed
qed

text \<open>C6. The rollback order of a failed action, for any dependency table, cyclic ones included, and any iteration order of
  the hash set: the loops end, and the order lists exactly the actions reachable from the failed one, each once. If the
  dependencies have no cycle, every action comes after all actions that depend on it, directly or through others, and the
  failed action is last.\<close>

theorem rollback_order:
  assumes "distinct cl" "set cl = set (dependent_closure (load_edges rows) root)"
  shows "let order = reverse_topological (load_edges rows) cl in
    distinct order \<and> set order = (set rows)\<^sup>* `` {root}
    \<and> (acyclic (set rows) \<longrightarrow>
        last order = root \<and> (\<forall>xs p ys c. order = xs @ p # ys \<and> (p, c) \<in> (set rows)\<^sup>+ \<longrightarrow> c \<in> set xs))"
  using rollback_order_facts [OF assms] by (simp add: Let_def)

lemma closure_example:
  "dependent_closure (load_edges [(''p'', ''c''), (''p'', ''l''), (''c'', ''l'')]) ''p'' = [''p'', ''l'', ''c'']"
  by code_simp

lemma order_example:
  "reverse_topological (load_edges [(''p'', ''c''), (''p'', ''l''), (''c'', ''l'')]) [''c'', ''p'', ''l''] = [''l'', ''c'', ''p'']"
  by code_simp

lemma acyclic_example: "acyclic (set [(''p'', ''c''), (''p'', ''l''), (''c'', ''l'')])"
  by (rule acyclicI_order [where f = "\<lambda>x. if x = ''p'' then 2 else if x = ''c'' then 1 else (0::nat)"]) auto

theorem rollback_order_witness:
  "reverse_topological (load_edges [(''p'', ''c''), (''p'', ''l''), (''c'', ''l'')]) [''c'', ''p'', ''l''] = [''l'', ''c'', ''p'']
   \<and> (set [(''p'', ''c''), (''p'', ''l''), (''c'', ''l'')])\<^sup>* `` {''p''} = {''p'', ''c'', ''l''}"
proof -
  let ?rows = "[(''p'', ''c''), (''p'', ''l''), (''c'', ''l'')]"
  have "distinct [''c'', ''p'', ''l'']" "set [''c'', ''p'', ''l''] = set (dependent_closure (load_edges ?rows) ''p'')"
    unfolding closure_example by auto
  note order = rollback_order [OF this, unfolded Let_def order_example, THEN conjunct2]
  then have "set [''l'', ''c'', ''p''] = (set ?rows)\<^sup>* `` {''p''}" "last [''l'', ''c'', ''p''] = ''p''"
    using acyclic_example by blast+
  then show ?thesis unfolding order_example by auto
qed


subsection \<open>What a rollback leaves\<close>

text \<open>The post or reaction a node refers to.\<close>

definition refers :: "(string \<Rightarrow> json option) \<Rightarrow> string \<Rightarrow> string \<times> string \<Rightarrow> string option" where
  "refers parse kind row = (if fst row = kind then Option.bind (parse (snd row)) (get_str ''id'') else None)"

definition revertible :: "(string \<Rightarrow> json option) \<Rightarrow> tx_db \<Rightarrow> string \<Rightarrow> bool" where
  "revertible parse db n \<longleftrightarrow> parse (snd (node_row db n)) \<noteq> None"

lemma revert_tx_Err: "parse payload = None \<Longrightarrow> revert_tx parse ok kind payload db = Err ''revert payload''"
  by (simp add: revert_tx_def)

lemma revert_tx_Ok:
  assumes "parse payload \<noteq> None"
  obtains db' where "revert_tx parse True kind payload db = Ok db'"
    "tx_nodes db' = tx_nodes db" "tx_edges db' = tx_edges db"
    "\<And>p. map_of (posts db') p
       = (if refers parse KIND_POST (kind, payload) = Some p then map_option (\<lambda>_. True) (map_of (posts db) p) else map_of (posts db) p)"
    "set (reactions db') = set (reactions db) - {x. refers parse KIND_LIKE (kind, payload) = Some x}"
proof -
  obtain v where v: "parse payload = Some v" using assms by auto
  show thesis
    by (rule that [of "case revert_tx parse True kind payload db of Ok db' \<Rightarrow> db' | _ \<Rightarrow> db"])
       (use v in \<open>auto simp: revert_tx_def refers_def kind_defs map_of_update_row hs_remove_def split: option.splits if_splits\<close>)
qed


definition all_calls_ok :: tx_calls where
  "all_calls_ok = \<lparr>conn_ok = True, edges_ok = True, begin_ok = True, nodes_ok = True, revert_ok = \<lambda>_. True,
     status_ok = \<lambda>_. True, failed_ok = True, commit_ok = True\<rparr>"

lemma set_status_simps [simp]:
  "posts (set_status n st db) = posts db" "reactions (set_status n st db) = reactions db"
  "users (set_status n st db) = users db" "tx_edges (set_status n st db) = tx_edges db"
  "map_of (tx_nodes (set_status n st db)) x
     = (if x = n then map_option (\<lambda>r. r\<lparr>tn_status := st\<rparr>) (map_of (tx_nodes db) x) else map_of (tx_nodes db) x)"
  by (simp_all add: set_status_def map_of_update_row)

text \<open>The effect of the loop, as a relation between the tables before and after it.\<close>

definition rolled :: "(string \<Rightarrow> json option) \<Rightarrow> (string \<Rightarrow> string \<times> string) \<Rightarrow> string set \<Rightarrow> tx_db \<Rightarrow> tx_db \<Rightarrow> bool" where
  "rolled parse row N db db' \<longleftrightarrow>
     tx_edges db' = tx_edges db
     \<and> (\<forall>n. map_of (tx_nodes db') n
           = (if n \<in> N \<and> parse (snd (row n)) \<noteq> None
              then map_option (\<lambda>r. r\<lparr>tn_status := STATUS_ROLLED_BACK\<rparr>) (map_of (tx_nodes db) n) else map_of (tx_nodes db) n))
     \<and> (\<forall>p. map_of (posts db') p
           = (if \<exists>n\<in>N. refers parse KIND_POST (row n) = Some p then map_option (\<lambda>_. True) (map_of (posts db) p)
              else map_of (posts db) p))
     \<and> set (reactions db') = set (reactions db) - {x. \<exists>n\<in>N. refers parse KIND_LIKE (row n) = Some x}"

lemma rolled_trans: "rolled parse row M db db1 \<Longrightarrow> rolled parse row N db1 db2 \<Longrightarrow> rolled parse row (M \<union> N) db db2"
  unfolding rolled_def by (elim conjE, intro conjI) (auto simp: option.map_comp comp_def)

lemma rolled_one:
  assumes "parse (snd (row n)) \<noteq> None"
  obtains db' where "revert_tx parse True (fst (row n)) (snd (row n)) db = Ok db'"
    "rolled parse row {n} db (set_status n STATUS_ROLLED_BACK db')"
proof -
  obtain db' where "revert_tx parse True (fst (row n)) (snd (row n)) db = Ok db'"
    "tx_nodes db' = tx_nodes db" "tx_edges db' = tx_edges db"
    "\<And>p. map_of (posts db') p = (if refers parse KIND_POST (fst (row n), snd (row n)) = Some p
       then map_option (\<lambda>_. True) (map_of (posts db) p) else map_of (posts db) p)"
    "set (reactions db') = set (reactions db) - {x. refers parse KIND_LIKE (fst (row n), snd (row n)) = Some x}"
    using revert_tx_Ok [of parse "snd (row n)" "fst (row n)" db] assms by metis
  then show thesis using assms by (intro that [of db']) (auto simp: rolled_def)
qed

lemma rolled_none: "parse (snd (row n)) = None \<Longrightarrow> rolled parse row {n} db db"
  by (simp add: rolled_def refers_def)

lemma rollback_nodes_effect:
  "\<exists>db'. rollback_nodes parse all_calls_ok row ns db errs rb
      = Some (db', errs @ filter (\<lambda>n. parse (snd (row n)) = None) ns, rb @ filter (\<lambda>n. parse (snd (row n)) \<noteq> None) ns)
    \<and> rolled parse row (set ns) db db'"
proof (induction ns arbitrary: db errs rb)
  case Nil
  then show ?case by (auto simp: rolled_def)
next
  case (Cons n ns)
  show ?case
  proof (cases "parse (snd (row n)) = None")
    case True
    obtain db' where "rollback_nodes parse all_calls_ok row ns db (errs @ [n]) rb
        = Some (db', (errs @ [n]) @ filter (\<lambda>n. parse (snd (row n)) = None) ns, rb @ filter (\<lambda>n. parse (snd (row n)) \<noteq> None) ns)"
      "rolled parse row (set ns) db db'" using Cons by blast
    then show ?thesis using rolled_trans [OF rolled_none [of parse row n db] , of "set ns"] True by (simp add: revert_tx_Err)
  next
    case False
    obtain db1 where one: "revert_tx parse True (fst (row n)) (snd (row n)) db = Ok db1"
      "rolled parse row {n} db (set_status n STATUS_ROLLED_BACK db1)" using rolled_one [of parse row n db] False by blast
    obtain db' where "rollback_nodes parse all_calls_ok row ns (set_status n STATUS_ROLLED_BACK db1) errs (rb @ [n])
        = Some (db', errs @ filter (\<lambda>n. parse (snd (row n)) = None) ns, (rb @ [n]) @ filter (\<lambda>n. parse (snd (row n)) \<noteq> None) ns)"
      "rolled parse row (set ns) (set_status n STATUS_ROLLED_BACK db1) db'" using Cons by blast
    then show ?thesis using rolled_trans [OF one(2), of "set ns"] one(1) False by (simp add: all_calls_ok_def)
  qed
qed


text \<open>What a failed action leaves behind when every database call succeeds, for any dependency table and any iteration
  order of the hash set. With \<open>R\<close> the actions reachable from the failed one: the failed action ends as failed and every other
  action of \<open>R\<close> whose payload parses as rolled back; every post an action of \<open>R\<close> refers to is tombstoned and every reaction
  one refers to is gone, nothing else of these tables changes, and the call returns the actions of \<open>R\<close>. If some payload
  of \<open>R\<close> does not parse (or its node is missing), the rest is rolled back and committed all the same and the call reports an error.\<close>

theorem tx_fail_effect:
  assumes "\<forall>xs. distinct xs \<longrightarrow> distinct (iter xs) \<and> set (iter xs) = set xs"
  shows "let R = (set (tx_edges db))\<^sup>* `` {nid}; good = (\<lambda>n. parse (snd (node_row db n)) \<noteq> None);
      (result, db') = tx_fail parse iter all_calls_ok nid db
    in (if \<forall>n\<in>R. good n then \<exists>ids. result = Ok ids \<and> distinct ids \<and> set ids = R else \<exists>e. result = Err e)
      \<and> (\<forall>n. map_of (tx_nodes db') n
           = (if n = nid then map_option (\<lambda>r. r\<lparr>tn_status := STATUS_FAILED\<rparr>) (map_of (tx_nodes db) n)
              else if n \<in> R \<and> good n then map_option (\<lambda>r. r\<lparr>tn_status := STATUS_ROLLED_BACK\<rparr>) (map_of (tx_nodes db) n)
              else map_of (tx_nodes db) n))
      \<and> (\<forall>p. map_of (posts db') p
           = (if \<exists>n\<in>R. refers parse KIND_POST (node_row db n) = Some p then map_option (\<lambda>_. True) (map_of (posts db) p)
              else map_of (posts db) p))
      \<and> set (reactions db') = set (reactions db) - {x. \<exists>n\<in>R. refers parse KIND_LIKE (node_row db n) = Some x}
      \<and> tx_edges db' = tx_edges db"
proof -
  let ?adj = "load_edges (tx_edges db)" let ?R = "(set (tx_edges db))\<^sup>* `` {nid}"
  let ?order = "reverse_topological ?adj (iter (dependent_closure ?adj nid))"
  have cl: "distinct (iter (dependent_closure ?adj nid))" "set (iter (dependent_closure ?adj nid)) = set (dependent_closure ?adj nid)"
    using assms dependent_closure_reachable [of ?adj nid] by blast+
  note ord = rollback_order_facts(1,2) [OF cl]
  have ne: "?order \<noteq> []" using ord(2) by auto
  obtain db1 where db1: "rollback_nodes parse all_calls_ok (node_row db) ?order db [] []
      = Some (db1, filter (\<lambda>n. parse (snd (node_row db n)) = None) ?order, filter (\<lambda>n. parse (snd (node_row db n)) \<noteq> None) ?order)"
    "rolled parse (node_row db) ?R db db1"
    using rollback_nodes_effect [of parse "node_row db" ?order db "[]" "[]"] ord(2) by auto
  have res: "tx_fail parse iter all_calls_ok nid db
    = (if filter (\<lambda>n. parse (snd (node_row db n)) = None) ?order \<noteq> []
       then Err ''node revert(s) failed after chain rollback'' else Ok (filter (\<lambda>n. parse (snd (node_row db n)) \<noteq> None) ?order),
       set_status nid STATUS_FAILED db1)"
    using db1(1) ne unfolding tx_fail_def Let_def by (simp add: all_calls_ok_def rolled_back_after_def)
  have good: "(filter (\<lambda>n. parse (snd (node_row db n)) = None) ?order = []) = (\<forall>n\<in>?R. parse (snd (node_row db n)) \<noteq> None)"
    using ord(2) by (auto simp: filter_empty_conv)
  have ids: "distinct (filter (\<lambda>n. parse (snd (node_row db n)) \<noteq> None) ?order)
    \<and> set (filter (\<lambda>n. parse (snd (node_row db n)) \<noteq> None) ?order) = ?R" if "\<forall>n\<in>?R. parse (snd (node_row db n)) \<noteq> None"
    using that ord by auto
  show ?thesis
    unfolding Let_def res prod.case using db1(2) good ids by (auto simp: rolled_def option.map_comp comp_def)
qed


text \<open>The example of the source's own test: a post that fails after a like of it was applied.\<close>

definition sample_parse :: "string \<Rightarrow> json option" where
  "sample_parse s = (if s = '''' then None else Some (JObj [(''id'', JStr s)]))"

definition sample_db :: tx_db where
  "sample_db = \<lparr>posts = [(''post_1'', False), (''post_2'', False)], reactions = [''like_1''], users = [],
     tx_nodes = [(''p'', \<lparr>tn_kind = KIND_POST, tn_payload = ''post_1'', tn_status = STATUS_APPLIED, tn_created_at = 1\<rparr>),
                 (''l'', \<lparr>tn_kind = KIND_LIKE, tn_payload = ''like_1'', tn_status = STATUS_APPLIED, tn_created_at = 2\<rparr>)],
     tx_edges = [(''p'', ''l'')]\<rparr>"

lemma sample_fail:
  "tx_fail sample_parse rev all_calls_ok ''p'' sample_db
   = (Ok [''l'', ''p''],
      sample_db\<lparr>posts := [(''post_1'', True), (''post_2'', False)], reactions := [],
        tx_nodes := [(''p'', \<lparr>tn_kind = KIND_POST, tn_payload = ''post_1'', tn_status = STATUS_FAILED, tn_created_at = 1\<rparr>),
                     (''l'', \<lparr>tn_kind = KIND_LIKE, tn_payload = ''like_1'', tn_status = STATUS_ROLLED_BACK, tn_created_at = 2\<rparr>)]\<rparr>)"
  by code_simp

theorem tx_fail_effect_witness:
  "fst (tx_fail sample_parse rev all_calls_ok ''p'' sample_db) = Ok [''l'', ''p'']
   \<and> (set (tx_edges sample_db))\<^sup>* `` {''p''} = {''p'', ''l''}"
proof -
  have "\<forall>xs. distinct xs \<longrightarrow> distinct (rev xs) \<and> set (rev xs) = set xs" by simp
  note effect = tx_fail_effect [OF this, of sample_db "''p''" sample_parse, unfolded sample_fail Let_def prod.case, THEN conjunct1]
  then have "set [''l'', ''p''] = (set (tx_edges sample_db))\<^sup>* `` {''p''}" by (auto split: if_splits)
  then show ?thesis unfolding sample_fail by auto
qed

end
