(* ===== verification/Outbox.thy ===== *)
theory Outbox
  imports Tables
begin

section \<open>The outbox (sync-core/src/outbox.rs, the replay of engine.rs)\<close>

text \<open>
  User actions wait in the table \<open>outbox_queue\<close> until they were sent. A payload is compressed, then sealed by the caller's
  closure, on the way in, and read back in the reverse order. The engine replays due items, counts failures with an
  exponential delay, gives up at the tenth, and prunes settled rows.

  The table is an association list keyed by the primary key; a statement is its documented effect, \<open>ORDER BY\<close> a stable
  sort (nothing shown depends on ties). The outcomes of database calls, the parser and the network are arguments. The codecs are
  the fields of \<open>codec\<close>; \<open>codec_ok\<close> states that they invert each other.

  Shown: when a payload comes back and when it does not; the invariant of the table; that the replay loses no pending
  action; that an action is tried at most ten times.
\<close>

record codec =
  z_encode :: "byte list \<Rightarrow> byte list option"
  z_read :: "nat \<Rightarrow> byte list \<Rightarrow> byte list option"
  b64_encode :: "byte list \<Rightarrow> string"
  b64_decode :: "string \<Rightarrow> byte list option"
  hex_decode :: "string \<Rightarrow> byte list option"

text \<open>\<open>z_read n\<close> is what \<open>Decoder::take(n).read_to_end\<close> reads.\<close>

definition codec_ok :: "codec \<Rightarrow> bool" where
  "codec_ok C \<longleftrightarrow>
     (\<forall>d f. z_encode C d = Some f \<longrightarrow> f \<noteq> [] \<and> (\<forall>n. z_read C n f = Some (take n d)))
     \<and> (\<forall>d. b64_decode C (b64_encode C d) = Some d)"

record outbox_item =
  oi_action_type :: string
  oi_payload_json :: string
  oi_media_path :: "string option"
  oi_status :: string
  oi_retry_count :: int
  oi_next_retry_at :: int
  oi_created_at :: int

record outbox =
  outbox_queue :: "(string, outbox_item) hmap"
  settled_dirty :: bool

record outbox_summary =
  pending_count :: nat
  failed_count :: nat
  total_count :: nat

subsection \<open>Payloads\<close>

definition ZSTD_MAGIC :: "byte list" where "ZSTD_MAGIC = bytes_of ''Zstd''"
definition SEAL_PREFIX :: string where "SEAL_PREFIX = ''__seal_b64__:''"
definition MAX_DECOMPRESSED :: nat where "MAX_DECOMPRESSED = 1048576"

definition compress_payload :: "codec \<Rightarrow> string \<Rightarrow> string" where
  "compress_payload C payload =
     (if length payload > 256
      then case z_encode C (bytes_of payload) of
             Some compressed \<Rightarrow> ''__zstd_b64__:'' @ b64_encode C (ZSTD_MAGIC @ compressed)
           | None \<Rightarrow> payload
      else payload)"

definition cap :: "codec \<Rightarrow> byte list \<Rightarrow> string option" where
  "cap C bytes =
     (case z_read C (MAX_DECOMPRESSED + 1) bytes of
        None \<Rightarrow> None
      | Some out \<Rightarrow> if length out > MAX_DECOMPRESSED then None else from_utf8 out)"

definition open_frame :: "codec \<Rightarrow> byte list option \<Rightarrow> string option" where
  "open_frame C decoded =
     (case decoded of
        Some bytes \<Rightarrow> if length bytes > 4 \<and> take 4 bytes = ZSTD_MAGIC then cap C (drop 4 bytes) else None
      | None \<Rightarrow> None)"

definition decompress_payload :: "codec \<Rightarrow> string \<Rightarrow> string" where
  "decompress_payload C raw =
     (if strip_prefix ''__zstd'' raw = None then raw
      else case strip_prefix ''__zstd_b64__:'' raw of
             Some b64_data \<Rightarrow> (case open_frame C (b64_decode C b64_data) of Some s \<Rightarrow> s | None \<Rightarrow> raw)
           | None \<Rightarrow>
               (case strip_prefix ''__zstd__:'' raw of
                  Some hex_data \<Rightarrow> (case open_frame C (hex_decode C hex_data) of Some s \<Rightarrow> s | None \<Rightarrow> raw)
                | None \<Rightarrow> raw))"

definition unseal_payload :: "codec \<Rightarrow> string \<Rightarrow> (string \<Rightarrow> string res) \<Rightarrow> string" where
  "unseal_payload C payload unseal =
     (case strip_prefix SEAL_PREFIX payload of
        Some inner \<Rightarrow> (case unseal inner of Ok plain \<Rightarrow> decompress_payload C plain | _ \<Rightarrow> payload)
      | None \<Rightarrow> payload)"

subsection \<open>The queue\<close>

definition enqueue_outbox_item_with_seal ::
    "codec \<Rightarrow> bool \<Rightarrow> bool \<Rightarrow> string \<Rightarrow> string \<Rightarrow> string \<Rightarrow> string option \<Rightarrow> int \<Rightarrow> (string \<Rightarrow> string res) \<Rightarrow> outbox
      \<Rightarrow> unit res \<times> outbox" where
  "enqueue_outbox_item_with_seal C conn_ok exec_ok key action_type payload_json media_path now_secs seal ob =
     (if trim key = '''' \<or> length key > 128 then (Err ''id must be between 1 and 128 chars'', ob)
      else if trim action_type = '''' \<or> length action_type > 64 then (Err ''action_type must be between 1 and 64 chars'', ob)
      else if length payload_json > 16777216 then (Err ''payload_json exceeds 16MB cap'', ob)
      else if (case media_path of Some mp \<Rightarrow> length mp > 1024 | None \<Rightarrow> False) then (Err ''media_path exceeds 1024 chars'', ob)
      else if \<not> conn_ok then (Err ''conn'', ob)
      else case seal (compress_payload C payload_json) of
             Ok stored_payload \<Rightarrow>
               if \<not> exec_ok then (Err ''Failed to enqueue outbox item'', ob)
               else (Ok (), ob\<lparr>outbox_queue := hm_put key
                       \<lparr>oi_action_type = action_type, oi_payload_json = stored_payload, oi_media_path = media_path,
                        oi_status = ''pending'', oi_retry_count = 0, oi_next_retry_at = 0, oi_created_at = now_secs\<rparr>
                       (outbox_queue ob)\<rparr>)
           | Err e \<Rightarrow> (Err (''Failed to seal outbox payload: '' @ e), ob)
           | Panic \<Rightarrow> (Panic, ob))"

definition enqueue_outbox_item ::
    "codec \<Rightarrow> bool \<Rightarrow> bool \<Rightarrow> string \<Rightarrow> string \<Rightarrow> string \<Rightarrow> string option \<Rightarrow> int \<Rightarrow> outbox \<Rightarrow> unit res \<times> outbox" where
  "enqueue_outbox_item C conn_ok exec_ok key action_type payload_json media_path now_secs ob =
     enqueue_outbox_item_with_seal C conn_ok exec_ok key action_type payload_json media_path now_secs Ok ob"

definition due :: "int \<Rightarrow> bool \<Rightarrow> outbox_item \<Rightarrow> bool" where
  "due now_secs include_media it \<longleftrightarrow>
     oi_status it = ''pending'' \<and> (include_media \<or> oi_media_path it = None) \<and> oi_next_retry_at it \<le> now_secs"

definition fetch_pending_outbox_items_with_unseal ::
    "codec \<Rightarrow> bool \<Rightarrow> int \<Rightarrow> nat \<Rightarrow> bool \<Rightarrow> (string \<Rightarrow> string res) \<Rightarrow> outbox \<Rightarrow> (string \<times> outbox_item) list res" where
  "fetch_pending_outbox_items_with_unseal C db_ok now_secs limit include_media unseal ob =
     (if limit = 0 then Ok []
      else if \<not> db_ok then Err ''sql''
      else Ok (map (\<lambda>(key, it). (key, it\<lparr>oi_payload_json := unseal_payload C (decompress_payload C (oi_payload_json it)) unseal\<rparr>))
                 (take limit (sort_key (\<lambda>(key, it). oi_created_at it)
                   (filter (\<lambda>(key, it). due now_secs include_media it) (outbox_queue ob))))))"

definition fetch_pending_outbox_items_filtered ::
    "codec \<Rightarrow> bool \<Rightarrow> int \<Rightarrow> nat \<Rightarrow> bool \<Rightarrow> outbox \<Rightarrow> (string \<times> outbox_item) list res" where
  "fetch_pending_outbox_items_filtered C db_ok now_secs limit include_media ob =
     fetch_pending_outbox_items_with_unseal C db_ok now_secs limit include_media Ok ob"

definition fetch_pending_outbox_items :: "codec \<Rightarrow> bool \<Rightarrow> int \<Rightarrow> nat \<Rightarrow> outbox \<Rightarrow> (string \<times> outbox_item) list res" where
  "fetch_pending_outbox_items C db_ok now_secs limit ob = fetch_pending_outbox_items_filtered C db_ok now_secs limit False ob"


definition empty_outbox :: outbox where
  "empty_outbox = \<lparr>outbox_queue = [], settled_dirty = False\<rparr>"

text \<open>The two ways of settling a row, and the flag that asks for a prune.\<close>

definition mark_outbox_item_completed :: "bool \<Rightarrow> string \<Rightarrow> outbox \<Rightarrow> unit res \<times> outbox" where
  "mark_outbox_item_completed db_ok key ob =
     (if \<not> db_ok then (Err ''Failed to update outbox item status'', ob)
      else (Ok (), ob\<lparr>outbox_queue := update_row key (\<lambda>it. it\<lparr>oi_status := ''completed''\<rparr>) (outbox_queue ob), settled_dirty := True\<rparr>))"

definition mark_outbox_item_failed :: "bool \<Rightarrow> string \<Rightarrow> int \<Rightarrow> int \<Rightarrow> outbox \<Rightarrow> unit res \<times> outbox" where
  "mark_outbox_item_failed db_ok key retry_count next_retry_at ob =
     (let status = (if retry_count \<ge> 10 then ''failed'' else ''pending'') in
      if \<not> db_ok then (Err ''Failed to update outbox item failure'', ob)
      else (Ok (), ob\<lparr>outbox_queue := update_row key (\<lambda>it. it\<lparr>oi_status := status, oi_retry_count := retry_count,
                                               oi_next_retry_at := next_retry_at\<rparr>) (outbox_queue ob),
                      settled_dirty := (settled_dirty ob \<or> status = ''failed'')\<rparr>))"

definition count_status :: "string \<Rightarrow> outbox \<Rightarrow> nat" where
  "count_status s ob = length (filter (\<lambda>(key, it). oi_status it = s) (outbox_queue ob))"

definition summarize_outbox :: "bool \<Rightarrow> outbox \<Rightarrow> outbox_summary res" where
  "summarize_outbox db_ok ob =
     (if \<not> db_ok then Err ''sql''
      else Ok \<lparr>pending_count = count_status ''pending'' ob mod 2 ^ 32, failed_count = count_status ''failed'' ob mod 2 ^ 32,
               total_count = length (outbox_queue ob) mod 2 ^ 32\<rparr>)"

definition settled_dirty_take :: "outbox \<Rightarrow> bool \<times> outbox" where
  "settled_dirty_take ob = (settled_dirty ob, ob\<lparr>settled_dirty := False\<rparr>)"

definition mark_outbox_items_completed :: "bool \<Rightarrow> string list \<Rightarrow> outbox \<Rightarrow> unit res \<times> outbox" where
  "mark_outbox_items_completed db_ok keys ob =
     (if keys = [] then (Ok (), ob)
      else if \<not> db_ok then (Err ''batch outbox complete'', ob)
      else (Ok (), ob\<lparr>outbox_queue := map (\<lambda>(key, it). (key, if key \<in> set keys then it\<lparr>oi_status := ''completed''\<rparr> else it)) (outbox_queue ob),
                      settled_dirty := True\<rparr>))"

definition settled :: "outbox_item \<Rightarrow> bool" where
  "settled it \<longleftrightarrow> oi_status it \<in> {''completed'', ''failed''}"

definition prune_outbox_settled :: "bool \<Rightarrow> nat \<Rightarrow> outbox \<Rightarrow> nat res \<times> outbox" where
  "prune_outbox_settled db_ok keep_latest ob =
     (if \<not> db_ok then (Err ''prune outbox'', ob)
      else
        let keep = map fst (take keep_latest (sort_key (\<lambda>(key, it). - oi_created_at it)
                     (filter (\<lambda>(key, it). settled it) (outbox_queue ob))));
            q = filter (\<lambda>(key, it). \<not> (settled it \<and> key \<notin> set keep)) (outbox_queue ob)
        in (Ok (length (outbox_queue ob) - length q), ob\<lparr>outbox_queue := q\<rparr>))"

subsection \<open>The replay\<close>

definition retry_at :: "int \<Rightarrow> int \<Rightarrow> int res" where
  "retry_at now_secs retry_count = add_i64 now_secs (2 ^ nat (max 0 (min 8 retry_count)))"

text \<open>An attempt at one item: \<open>Ok True\<close> when it was sent; otherwise its failure is recorded. The count is an \<open>i32\<close>.\<close>

record replay_env =
  re_now :: int
  re_fetch_ok :: bool
  re_parse_send :: "string \<Rightarrow> string \<Rightarrow> bool"
  re_mark_ok :: "string \<Rightarrow> bool"
  re_complete_ok :: bool
  re_prune_ok :: bool

definition record_failure :: "replay_env \<Rightarrow> string \<Rightarrow> outbox_item \<Rightarrow> outbox \<Rightarrow> outbox res" where
  "record_failure env key it ob =
     (if oi_retry_count it + 1 > 2147483647 then Panic
      else and_then (retry_at (re_now env) (oi_retry_count it + 1)) (\<lambda>next_at.
           Ok (snd (mark_outbox_item_failed (re_mark_ok env key) key (oi_retry_count it + 1) next_at ob))))"

fun replay_items :: "replay_env \<Rightarrow> (string \<times> outbox_item) list \<Rightarrow> string list \<Rightarrow> outbox \<Rightarrow> (string list \<times> outbox) res" where
  "replay_items env [] completed ob = Ok (completed, ob)"
| "replay_items env ((key, it) # items) completed ob =
     (if oi_media_path it \<noteq> None then replay_items env items completed ob
      else if re_parse_send env key (oi_payload_json it) then replay_items env items (completed @ [key]) ob
      else and_then (record_failure env key it ob) (\<lambda>ob'. replay_items env items completed ob'))"

definition replay_outbox_sealed :: "codec \<Rightarrow> replay_env \<Rightarrow> (string \<Rightarrow> string res) \<Rightarrow> outbox \<Rightarrow> outbox res" where
  "replay_outbox_sealed C env unseal ob =
     (case fetch_pending_outbox_items_with_unseal C (re_fetch_ok env) (re_now env) 32 False unseal ob of
        Ok items \<Rightarrow>
          and_then (replay_items env items [] ob) (\<lambda>(completed, ob1).
          let ob2 = (if completed = [] then ob1 else snd (mark_outbox_items_completed (re_complete_ok env) completed ob1));
              (dirty, ob3) = settled_dirty_take ob2
          in Ok (if dirty then snd (prune_outbox_settled (re_prune_ok env) 500 ob3) else ob3))
      | _ \<Rightarrow> Ok ob)"



subsection \<open>Payloads come back\<close>

lemma compressed_prefixes:
  "strip_prefix ''__zstd'' (''__zstd_b64__:'' @ s) \<noteq> None" "strip_prefix ''__zstd_b64__:'' (''__zstd_b64__:'' @ s) = Some s"
  "strip_prefix ''__zstd'' (SEAL_PREFIX @ s) = None"
  by (simp_all add: strip_prefix_def SEAL_PREFIX_def)

lemma decompress_compressed:
  assumes "codec_ok C" "z_encode C (bytes_of p) = Some f"
  shows "decompress_payload C (''__zstd_b64__:'' @ b64_encode C (ZSTD_MAGIC @ f))
    = (if length p \<le> MAX_DECOMPRESSED \<and> utf8_valid (bytes_of p) then p else ''__zstd_b64__:'' @ b64_encode C (ZSTD_MAGIC @ f))"
proof -
  have f: "f \<noteq> []" "z_read C (MAX_DECOMPRESSED + 1) f = Some (take (MAX_DECOMPRESSED + 1) (bytes_of p))"
    and b: "b64_decode C (b64_encode C (ZSTD_MAGIC @ f)) = Some (ZSTD_MAGIC @ f)"
    using assms unfolding codec_ok_def by blast+
  have "cap C f = (if length p \<le> MAX_DECOMPRESSED \<and> utf8_valid (bytes_of p) then Some p else None)"
    using f(2) by (auto simp: cap_def from_utf8_def)
  then have "open_frame C (b64_decode C (b64_encode C (ZSTD_MAGIC @ f)))
      = (if length p \<le> MAX_DECOMPRESSED \<and> utf8_valid (bytes_of p) then Some p else None)"
    using f(1) b by (simp add: open_frame_def ZSTD_MAGIC_def)
  then show ?thesis
    using compressed_prefixes(1,2) [of "b64_encode C (ZSTD_MAGIC @ f)"] by (auto simp add: decompress_payload_def simp del: append.simps)
qed

definition read_back :: "codec \<Rightarrow> string \<Rightarrow> string" where
  "read_back C p = (if MAX_DECOMPRESSED < length p then compress_payload C p else p)"

lemma decompress_compress_payload:
  assumes "codec_ok C" "utf8_valid (bytes_of p)" "strip_prefix ''__zstd'' p = None"
  shows "decompress_payload C (compress_payload C p) = read_back C p"
  using decompress_compressed [OF assms(1), of p] assms(2,3) MAX_DECOMPRESSED_def
  by (auto simp: compress_payload_def read_back_def decompress_payload_def split: option.split)

lemma unsealed_payload:
  assumes "codec_ok C" "utf8_valid (bytes_of p)" "strip_prefix ''__zstd'' p = None"
    and "\<And>s. \<exists>e. seal s = Ok (SEAL_PREFIX @ e) \<and> unseal e = Ok s" "seal (compress_payload C p) = Ok stored"
  shows "unseal_payload C (decompress_payload C stored) unseal = read_back C p"
proof -
  obtain e where e: "seal (compress_payload C p) = Ok (SEAL_PREFIX @ e)" "unseal e = Ok (compress_payload C p)"
    using assms(4) by blast
  have "decompress_payload C stored = SEAL_PREFIX @ e"
    using e(1) assms(5) compressed_prefixes(3) [of e] by (simp add: decompress_payload_def)
  then show ?thesis
    using e(2) decompress_compress_payload [OF assms(1-3)] by (simp add: unseal_payload_def)
qed

lemma sorted_due_set:
  "set (sort_key k (filter P q)) = {x \<in> set q. P x}" "length q \<le> n \<Longrightarrow> take n (sort_key k (filter P q)) = sort_key k (filter P q)"
  by simp_all (metis length_filter_le length_sort order_trans take_all)


lemma map_of_fetch:
  assumes "fetch_pending_outbox_items_with_unseal C db_ok now limit media unseal ob = Ok items" "hm_wf (outbox_queue ob)"
    "(key, it) \<in> set items"
  obtains row where "map_of (outbox_queue ob) key = Some row" "due now media row"
    "it = row\<lparr>oi_payload_json := unseal_payload C (decompress_payload C (oi_payload_json row)) unseal\<rparr>"
proof -
  obtain row where "(key, row) \<in> set (outbox_queue ob)" "due now media row"
    "it = row\<lparr>oi_payload_json := unseal_payload C (decompress_payload C (oi_payload_json row)) unseal\<rparr>"
    using assms(1,3) by (auto simp: fetch_pending_outbox_items_with_unseal_def split: if_splits dest!: in_set_takeD)
  then show thesis using that assms(2) by (simp add: hm_wf_def)
qed

lemma fetch_complete:
  assumes "fetch_pending_outbox_items_with_unseal C db_ok now limit media unseal ob = Ok items"
    "map_of (outbox_queue ob) key = Some row" "due now media row" "length (outbox_queue ob) \<le> limit"
  shows "\<exists>it. (key, it) \<in> set items"
proof -
  have "limit \<noteq> 0" using assms(2,4) by (cases "outbox_queue ob") auto
  moreover have "(key, row) \<in> set (outbox_queue ob)" using assms(2) by (rule map_of_SomeD)
  ultimately show ?thesis
    using assms(1,3) sorted_due_set(2) [OF assms(4), of "\<lambda>(key, it). oi_created_at it" "\<lambda>(key, it). due now media it"]
    by (force simp: fetch_pending_outbox_items_with_unseal_def split: if_splits)
qed

text \<open>C30. The outbox gives a sealed payload back, up to one mebibyte. For every UTF-8 payload without the marker of compressed
  rows and every pair of closures with which unsealing inverts sealing: after a successful enqueue, every fetch that returns
  the item returns the payload itself if it has at most 1048576 bytes, and the compressed text in its place if it is longer,
  although payloads up to sixteen times that size are accepted; and an item without media is returned by every fetch that can hold the
  whole queue.\<close>

theorem outbox_round_trip:
  assumes "codec_ok C" "utf8_valid (bytes_of p)" "strip_prefix ''__zstd'' p = None"
    and "\<forall>s. \<exists>e. seal s = Ok (SEAL_PREFIX @ e) \<and> unseal e = Ok s" "hm_wf (outbox_queue ob)"
    and "enqueue_outbox_item_with_seal C ok1 ok2 key action p media created seal ob = (Ok (), ob')"
    and "fetch_pending_outbox_items_with_unseal C ok3 now limit with_media unseal ob' = Ok items"
  shows "(\<forall>it. (key, it) \<in> set items \<longrightarrow> oi_payload_json it = (if length p \<le> 1048576 then p else compress_payload C p))
    \<and> (0 \<le> now \<and> (with_media \<or> media = None) \<and> length (outbox_queue ob') \<le> limit \<longrightarrow> (\<exists>it. (key, it) \<in> set items))"
proof -
  obtain stored where st: "seal (compress_payload C p) = Ok stored" using assms(4) by blast
  let ?row = "\<lparr>oi_action_type = action, oi_payload_json = stored, oi_media_path = media,
     oi_status = ''pending'', oi_retry_count = 0, oi_next_retry_at = 0, oi_created_at = created\<rparr>"
  have ob': "outbox_queue ob' = hm_put key ?row (outbox_queue ob)"
    using assms(6) st by (auto simp: enqueue_outbox_item_with_seal_def split: if_splits)
  have returned: "unseal_payload C (decompress_payload C stored) unseal = read_back C p"
    by (rule unsealed_payload [where seal = seal, OF assms(1-3) assms(4) [rule_format] st])
  have "oi_payload_json it = (if length p \<le> 1048576 then p else compress_payload C p)" if mem: "(key, it) \<in> set items" for it
  proof -
    have wf: "hm_wf (outbox_queue ob')" using assms(5) ob' by simp
    obtain row where "map_of (outbox_queue ob') key = Some row"
      "it = row\<lparr>oi_payload_json := unseal_payload C (decompress_payload C (oi_payload_json row)) unseal\<rparr>"
      using map_of_fetch [OF assms(7) wf mem] by metis
    moreover have "map_of (outbox_queue ob') key = Some ?row" using ob' by simp
    ultimately have "oi_payload_json it = unseal_payload C (decompress_payload C stored) unseal" by auto
    then show ?thesis using returned by (simp add: read_back_def MAX_DECOMPRESSED_def)
  qed
  moreover have "\<exists>it. (key, it) \<in> set items" if "0 \<le> now" "with_media \<or> media = None" "length (outbox_queue ob') \<le> limit"
    by (rule fetch_complete [OF assms(7), of key ?row]) (use that ob' in \<open>auto simp: due_def\<close>)
  ultimately show ?thesis by blast
qed


definition sample_codec :: codec where
  "sample_codec = \<lparr>z_encode = (\<lambda>d. Some (0 # d)), z_read = (\<lambda>n f. Some (take n (tl f))), b64_encode = str_of,
     b64_decode = (\<lambda>s. Some (bytes_of s)), hex_decode = (\<lambda>_. None)\<rparr>"

lemma sample_codec_ok: "codec_ok sample_codec"
  by (simp add: codec_ok_def sample_codec_def)

definition sample_outbox :: outbox where
  "sample_outbox = snd (enqueue_outbox_item_with_seal sample_codec True True ''k1'' ''post'' ''hello'' None 5 (\<lambda>s. Ok (SEAL_PREFIX @ s)) empty_outbox)"

lemma sample_enqueue:
  "enqueue_outbox_item_with_seal sample_codec True True ''k1'' ''post'' ''hello'' None 5 (\<lambda>s. Ok (SEAL_PREFIX @ s)) empty_outbox
    = (Ok (), sample_outbox)"
  "outbox_queue sample_outbox
    = [(''k1'', \<lparr>oi_action_type = ''post'', oi_payload_json = SEAL_PREFIX @ ''hello'', oi_media_path = None,
         oi_status = ''pending'', oi_retry_count = 0, oi_next_retry_at = 0, oi_created_at = 5\<rparr>)]"
proof -
  have "trim ''k1'' = ''k1''" "trim ''post'' = ''post''" by code_simp+
  then show "enqueue_outbox_item_with_seal sample_codec True True ''k1'' ''post'' ''hello'' None 5 (\<lambda>s. Ok (SEAL_PREFIX @ s)) empty_outbox
      = (Ok (), sample_outbox)"
    "outbox_queue sample_outbox
      = [(''k1'', \<lparr>oi_action_type = ''post'', oi_payload_json = SEAL_PREFIX @ ''hello'', oi_media_path = None,
           oi_status = ''pending'', oi_retry_count = 0, oi_next_retry_at = 0, oi_created_at = 5\<rparr>)]"
    by (simp_all add: sample_outbox_def enqueue_outbox_item_with_seal_def compress_payload_def empty_outbox_def)
qed

theorem outbox_round_trip_witness:
  "\<exists>it. fetch_pending_outbox_items_with_unseal sample_codec True 9 32 False Ok sample_outbox = Ok [(''k1'', it)]
     \<and> oi_payload_json it = ''hello''"
proof -
  obtain it where fetch: "fetch_pending_outbox_items_with_unseal sample_codec True 9 32 False Ok sample_outbox = Ok [(''k1'', it)]"
    by (simp add: fetch_pending_outbox_items_with_unseal_def sample_enqueue(2) due_def)
  have "oi_payload_json it = (if length ''hello'' \<le> 1048576 then ''hello'' else compress_payload sample_codec ''hello'')"
    using outbox_round_trip [OF sample_codec_ok _ _ _ _ sample_enqueue(1) fetch]
    by (simp add: utf8_valid_ascii ascii_def strip_prefix_def empty_outbox_def hm_wf_def)
  then show ?thesis using fetch by simp
qed



subsection \<open>The replay loses nothing and ends\<close>

text \<open>A key occurs once, and a pending row has fewer than ten failures behind it.\<close>

definition outbox_ok :: "outbox \<Rightarrow> bool" where
  "outbox_ok ob \<longleftrightarrow> hm_wf (outbox_queue ob)
     \<and> (\<forall>k row. map_of (outbox_queue ob) k = Some row \<and> oi_status row = ''pending'' \<longrightarrow> 0 \<le> oi_retry_count row \<and> oi_retry_count row < 10)"

text \<open>What a recorded failure makes of a row.\<close>

definition failed_row :: "int \<Rightarrow> outbox_item \<Rightarrow> outbox_item" where
  "failed_row now row = row\<lparr>oi_status := (if oi_retry_count row + 1 \<ge> 10 then ''failed'' else ''pending''),
     oi_retry_count := oi_retry_count row + 1,
     oi_next_retry_at := now + 2 ^ nat (max 0 (min 8 (oi_retry_count row + 1)))\<rparr>"

lemma retry_at_Ok:
  assumes "0 \<le> now" "now + 256 \<le> I64_MAX"
  shows "retry_at now c = Ok (now + 2 ^ nat (max 0 (min 8 c)))"
proof -
  define delay :: int where "delay = 2 ^ nat (max 0 (min 8 c))"
  have "(2::int) ^ nat (max 0 (min 8 c)) \<le> 2 ^ 8" by (rule power_increasing) auto
  then have "delay \<le> 256" "0 \<le> delay" by (simp_all add: delay_def)
  then show ?thesis using assms unfolding retry_at_def delay_def [symmetric] by simp
qed

lemma record_failure_Ok:
  assumes "0 \<le> re_now env" "re_now env + 256 \<le> I64_MAX" "oi_retry_count it < 10" "0 \<le> oi_retry_count it"
    "map_of (outbox_queue ob) key = Some row" "oi_retry_count row = oi_retry_count it"
  obtains ob' where "record_failure env key it ob = Ok ob'" "map fst (outbox_queue ob') = map fst (outbox_queue ob)"
    "map_of (outbox_queue ob')
      = (if re_mark_ok env key then (map_of (outbox_queue ob))(key \<mapsto> failed_row (re_now env) row) else map_of (outbox_queue ob))"
  by (rule that [of "snd (mark_outbox_item_failed (re_mark_ok env key) key (oi_retry_count it + 1)
        (re_now env + 2 ^ nat (max 0 (min 8 (oi_retry_count it + 1)))) ob)"])
     (use assms retry_at_Ok [OF assms(1,2)] in \<open>auto simp: record_failure_def mark_outbox_item_failed_def failed_row_def
        map_of_update_row fun_eq_iff Let_def simp del: max_def min_def\<close>)

text \<open>The loop over fetched items: the keys it reports as sent, and the rows it changes.\<close>

definition was_sent :: "replay_env \<Rightarrow> string \<times> outbox_item \<Rightarrow> bool" where
  "was_sent env p \<longleftrightarrow> re_parse_send env (fst p) (oi_payload_json (snd p))"

lemma replay_items_effect:
  assumes "0 \<le> re_now env" "re_now env + 256 \<le> I64_MAX" "distinct (map fst items)"
    and "\<forall>(k, it)\<in>set items. oi_media_path it = None \<and> 0 \<le> oi_retry_count it \<and> oi_retry_count it < 10
      \<and> (\<exists>row. map_of (outbox_queue ob) k = Some row \<and> oi_retry_count row = oi_retry_count it)"
  shows "\<exists>ob'. replay_items env items completed ob = Ok (completed @ map fst (filter (was_sent env) items), ob')
    \<and> map fst (outbox_queue ob') = map fst (outbox_queue ob)
    \<and> (\<forall>k. map_of (outbox_queue ob') k
        = (if \<exists>it. (k, it) \<in> set items \<and> \<not> was_sent env (k, it) \<and> re_mark_ok env k
           then map_option (failed_row (re_now env)) (map_of (outbox_queue ob) k) else map_of (outbox_queue ob) k))"
  using assms(3,4)
proof (induction items arbitrary: completed ob)
  case (Cons p items)
  obtain k it where p: "p = (k, it)" by (cases p)
  have it: "oi_media_path it = None" "0 \<le> oi_retry_count it" "oi_retry_count it < 10"
    and rest: "distinct (map fst items)" "k \<notin> fst ` set items" using Cons.prems p by auto
  obtain row where row: "map_of (outbox_queue ob) k = Some row" "oi_retry_count row = oi_retry_count it"
    using Cons.prems(2) p by auto
  show ?case
  proof (cases "was_sent env (k, it)")
    case True
    have "\<forall>(k, it)\<in>set items. oi_media_path it = None \<and> 0 \<le> oi_retry_count it \<and> oi_retry_count it < 10
        \<and> (\<exists>row. map_of (outbox_queue ob) k = Some row \<and> oi_retry_count row = oi_retry_count it)"
      using Cons.prems(2) by auto
    from Cons.IH [OF rest(1) this, of "completed @ [k]"] show ?thesis
      using True it(1) p by (simp add: was_sent_def) auto
  next
    case False
    obtain ob1 where ob1: "record_failure env k it ob = Ok ob1" "map fst (outbox_queue ob1) = map fst (outbox_queue ob)"
      "map_of (outbox_queue ob1)
        = (if re_mark_ok env k then (map_of (outbox_queue ob))(k \<mapsto> failed_row (re_now env) row) else map_of (outbox_queue ob))"
      using record_failure_Ok [OF assms(1,2) it(3,2) row] by metis
    have same: "map_of (outbox_queue ob1) k' = map_of (outbox_queue ob) k'" if "k' \<noteq> k" for k'
      using ob1(3) that by simp
    have "\<forall>(k, it)\<in>set items. oi_media_path it = None \<and> 0 \<le> oi_retry_count it \<and> oi_retry_count it < 10
        \<and> (\<exists>row. map_of (outbox_queue ob1) k = Some row \<and> oi_retry_count row = oi_retry_count it)"
    proof (clarify, goal_cases)
      case (1 k' it')
      then have "k' \<noteq> k" using rest(2) by force
      then show ?case using Cons.prems(2) 1 same by auto
    qed
    from Cons.IH [OF rest(1) this, of completed] obtain ob' where ob':
      "replay_items env items completed ob1 = Ok (completed @ map fst (filter (was_sent env) items), ob')"
      "map fst (outbox_queue ob') = map fst (outbox_queue ob1)"
      "\<forall>k. map_of (outbox_queue ob') k
        = (if \<exists>it. (k, it) \<in> set items \<and> \<not> was_sent env (k, it) \<and> re_mark_ok env k
           then map_option (failed_row (re_now env)) (map_of (outbox_queue ob1) k) else map_of (outbox_queue ob1) k)" by blast
    have "\<nexists>it. (k, it) \<in> set items" using rest(2) by force
    then have "\<forall>k'. map_of (outbox_queue ob') k'
        = (if \<exists>it. (k', it) \<in> set (p # items) \<and> \<not> was_sent env (k', it) \<and> re_mark_ok env k'
           then map_option (failed_row (re_now env)) (map_of (outbox_queue ob) k') else map_of (outbox_queue ob) k')"
      using ob'(3) ob1(3) same False row(1) p by (intro allI, case_tac "k' = k") auto
    then show ?thesis using ob'(1,2) ob1(1,2) False it(1) p was_sent_def [of env "(k, it)"] by simp
  qed
qed auto


definition fetched :: "codec \<Rightarrow> replay_env \<Rightarrow> (string \<Rightarrow> string res) \<Rightarrow> outbox \<Rightarrow> (string \<times> outbox_item) list" where
  "fetched C env unseal ob =
     (case fetch_pending_outbox_items_with_unseal C (re_fetch_ok env) (re_now env) 32 False unseal ob of Ok items \<Rightarrow> items | _ \<Rightarrow> [])"

lemma fetched_rows:
  assumes "hm_wf (outbox_queue ob)"
  shows "distinct (map fst (fetched C env unseal ob))"
    and "(k, it) \<in> set (fetched C env unseal ob) \<Longrightarrow> \<exists>row. map_of (outbox_queue ob) k = Some row \<and> oi_status row = ''pending''
      \<and> oi_media_path it = None \<and> oi_retry_count row = oi_retry_count it"
proof -
  have "distinct (map fst (sort_key f (filter P (outbox_queue ob))))" for f :: "_ \<Rightarrow> int" and P
    using assms by (simp add: hm_wf_def distinct_map inj_on_def)
  then show "distinct (map fst (fetched C env unseal ob))"
    by (auto simp: fetched_def fetch_pending_outbox_items_with_unseal_def comp_def split_def take_map [symmetric] distinct_take
        simp del: distinct_map split: res.splits)
  assume mem: "(k, it) \<in> set (fetched C env unseal ob)"
  then obtain items where "fetch_pending_outbox_items_with_unseal C (re_fetch_ok env) (re_now env) 32 False unseal ob = Ok items"
    "(k, it) \<in> set items"
    by (cases "fetch_pending_outbox_items_with_unseal C (re_fetch_ok env) (re_now env) 32 False unseal ob") (simp_all add: fetched_def)
  from map_of_fetch [OF this(1) assms this(2)] show "\<exists>row. map_of (outbox_queue ob) k = Some row \<and> oi_status row = ''pending''
      \<and> oi_media_path it = None \<and> oi_retry_count row = oi_retry_count it"
    by (force simp: due_def)
qed

text \<open>Pruning removes settled rows only.\<close>

lemma map_of_filter_row:
  "hm_wf m \<Longrightarrow> map_of (filter (\<lambda>(k, v). P k v) m) k
    = (case map_of m k of Some v \<Rightarrow> if P k v then Some v else None | None \<Rightarrow> None)"
proof (induction m)
  case (Cons p m)
  have "map_of m (fst p) = None" using Cons.prems by (auto simp: hm_wf_def map_of_eq_None_iff)
  moreover have "map_of (filter (\<lambda>(k, v). P k v) m) (fst p) = None" using Cons.prems by (auto simp: hm_wf_def map_of_eq_None_iff)
  moreover have "hm_wf m" using Cons.prems by (simp add: hm_wf_def)
  ultimately show ?case using Cons.IH by (cases p) auto
qed simp

lemma prune_rows:
  assumes "hm_wf (outbox_queue ob)"
  shows "hm_wf (outbox_queue (snd (prune_outbox_settled ok n ob)))"
    and "map_of (outbox_queue (snd (prune_outbox_settled ok n ob))) k = Some row \<Longrightarrow> map_of (outbox_queue ob) k = Some row"
    and "map_of (outbox_queue ob) k = Some row \<Longrightarrow> \<not> settled row \<Longrightarrow> map_of (outbox_queue (snd (prune_outbox_settled ok n ob))) k = Some row"
  using assms by (auto simp: prune_outbox_settled_def Let_def map_of_filter_row hm_wf_def distinct_map_filter split: option.splits if_splits)


text \<open>What one replay makes of a row, pruning apart.\<close>

definition after_replay :: "codec \<Rightarrow> replay_env \<Rightarrow> (string \<Rightarrow> string res) \<Rightarrow> outbox \<Rightarrow> string \<Rightarrow> outbox_item \<Rightarrow> outbox_item" where
  "after_replay C env unseal ob k row =
     (if \<exists>it. (k, it) \<in> set (fetched C env unseal ob) \<and> was_sent env (k, it)
      then if re_complete_ok env then row\<lparr>oi_status := ''completed''\<rparr> else row
      else if (\<exists>it. (k, it) \<in> set (fetched C env unseal ob)) \<and> re_mark_ok env k then failed_row (re_now env) row
      else row)"

lemma map_of_map_row: "map_of (map (\<lambda>(k, v). (k, f k v)) m) k = map_option (f k) (map_of m k)"
  by (induction m) auto

lemma completed_rows:
  "map fst (outbox_queue (snd (mark_outbox_items_completed ok ks ob))) = map fst (outbox_queue ob)"
  "map_of (outbox_queue (snd (mark_outbox_items_completed ok ks ob))) k
     = (if ok \<and> k \<in> set ks then map_option (\<lambda>it. it\<lparr>oi_status := ''completed''\<rparr>) (map_of (outbox_queue ob) k) else map_of (outbox_queue ob) k)"
proof -
  show "map fst (outbox_queue (snd (mark_outbox_items_completed ok ks ob))) = map fst (outbox_queue ob)"
    by (auto simp: mark_outbox_items_completed_def)
  show "map_of (outbox_queue (snd (mark_outbox_items_completed ok ks ob))) k
     = (if ok \<and> k \<in> set ks then map_option (\<lambda>it. it\<lparr>oi_status := ''completed''\<rparr>) (map_of (outbox_queue ob) k) else map_of (outbox_queue ob) k)"
    by (cases "map_of (outbox_queue ob) k")
       (auto simp: mark_outbox_items_completed_def
          map_of_map_row [of "\<lambda>key it. if key \<in> set ks then it\<lparr>oi_status := ''completed''\<rparr> else it"])
qed

lemma replay_rows:
  assumes ok: "outbox_ok ob" and now: "0 \<le> re_now env" "re_now env + 256 \<le> I64_MAX"
  obtains ob' where "replay_outbox_sealed C env unseal ob = Ok ob'" "hm_wf (outbox_queue ob')"
    "\<And>k row'. map_of (outbox_queue ob') k = Some row'
      \<Longrightarrow> \<exists>row. map_of (outbox_queue ob) k = Some row \<and> row' = after_replay C env unseal ob k row"
    "\<And>k row. map_of (outbox_queue ob) k = Some row \<Longrightarrow> \<not> settled (after_replay C env unseal ob k row)
      \<Longrightarrow> map_of (outbox_queue ob') k = Some (after_replay C env unseal ob k row)"
proof -
  have wf: "hm_wf (outbox_queue ob)" using ok by (simp add: outbox_ok_def)
  note rows = fetched_rows [OF wf, where C = C and env = env and unseal = unseal]
  have "\<forall>(k, it)\<in>set (fetched C env unseal ob). oi_media_path it = None \<and> 0 \<le> oi_retry_count it \<and> oi_retry_count it < 10
      \<and> (\<exists>row. map_of (outbox_queue ob) k = Some row \<and> oi_retry_count row = oi_retry_count it)"
    using rows(2) ok unfolding outbox_ok_def by fastforce
  from replay_items_effect [OF now rows(1) this, of "[]"] obtain ob1 where ob1:
    "replay_items env (fetched C env unseal ob) [] ob = Ok (map fst (filter (was_sent env) (fetched C env unseal ob)), ob1)"
    "map fst (outbox_queue ob1) = map fst (outbox_queue ob)"
    "\<forall>k. map_of (outbox_queue ob1) k
        = (if \<exists>it. (k, it) \<in> set (fetched C env unseal ob) \<and> \<not> was_sent env (k, it) \<and> re_mark_ok env k
           then map_option (failed_row (re_now env)) (map_of (outbox_queue ob) k) else map_of (outbox_queue ob) k)" by auto
  define ks where "ks = map fst (filter (was_sent env) (fetched C env unseal ob))"
  define ob2 where "ob2 = snd (mark_outbox_items_completed (re_complete_ok env) ks ob1)"
  have if_ks: "(if ks = [] then ob1 else snd (mark_outbox_items_completed (re_complete_ok env) ks ob1)) = ob2"
    by (simp add: ob2_def mark_outbox_items_completed_def)
  have wf2: "hm_wf (outbox_queue ob2)" using wf ob1(2) completed_rows(1) [of _ ks ob1] by (simp add: ob2_def hm_wf_def)
  have ks: "k \<in> set ks \<longleftrightarrow> (\<exists>it. (k, it) \<in> set (fetched C env unseal ob) \<and> was_sent env (k, it))" for k by (force simp: ks_def)
  have uniq: "it = it'" if "(k, it) \<in> set (fetched C env unseal ob)" "(k, it') \<in> set (fetched C env unseal ob)" for k it it'
    using that rows(1) by (meson eq_key_imp_eq_value)
  have q2: "map_of (outbox_queue ob2) k = map_option (after_replay C env unseal ob k) (map_of (outbox_queue ob) k)" for k
    using ob1(3) [rule_format, of k] ks [of k] uniq [of k] completed_rows(2) [of "re_complete_ok env" ks ob1 k]
    unfolding ob2_def [symmetric] by (cases "map_of (outbox_queue ob) k") (auto simp: after_replay_def)
  define ob3 where "ob3 = ob2\<lparr>settled_dirty := False\<rparr>"
  have q3: "outbox_queue ob3 = outbox_queue ob2" by (simp add: ob3_def)
  show thesis
  proof (cases "fetch_pending_outbox_items_with_unseal C (re_fetch_ok env) (re_now env) 32 False unseal ob")
    case (Ok items)
    then have "fetched C env unseal ob = items" by (simp add: fetched_def)
    then have loop: "replay_items env items [] ob = Ok (ks, ob1)" using ob1(1) by (simp add: ks_def)
    define ob4 where "ob4 = (if settled_dirty ob2 then snd (prune_outbox_settled (re_prune_ok env) 500 ob3) else ob3)"
    have res: "replay_outbox_sealed C env unseal ob = Ok ob4"
      by (simp add: replay_outbox_sealed_def Ok loop if_ks settled_dirty_take_def ob3_def ob4_def)
    have wf3: "hm_wf (outbox_queue ob3)" using wf2 q3 by simp
    note pruned = prune_rows [OF wf3, where ok = "re_prune_ok env" and n = 500]
    have wf4: "hm_wf (outbox_queue ob4)" using pruned(1) wf3 by (simp add: ob4_def)
    have old: "map_of (outbox_queue ob2) k = Some row" if "map_of (outbox_queue ob4) k = Some row" for k row
      using that pruned(2) q3 by (cases "settled_dirty ob2") (simp_all add: ob4_def)
    have kept: "map_of (outbox_queue ob4) k = Some row" if "map_of (outbox_queue ob2) k = Some row" "\<not> settled row" for k row
      using that pruned(3) q3 by (cases "settled_dirty ob2") (simp_all add: ob4_def)
    show thesis
    proof (rule that [OF res wf4])
      fix k row' assume "map_of (outbox_queue ob4) k = Some row'"
      then show "\<exists>row. map_of (outbox_queue ob) k = Some row \<and> row' = after_replay C env unseal ob k row"
        using old [of k row'] q2 [of k] by auto
    next
      fix k row assume "map_of (outbox_queue ob) k = Some row" "\<not> settled (after_replay C env unseal ob k row)"
      then show "map_of (outbox_queue ob4) k = Some (after_replay C env unseal ob k row)" using kept q2 [of k] by simp
    qed
  next
    case (Err e)
    then have "fetched C env unseal ob = []" "replay_outbox_sealed C env unseal ob = Ok ob" by (simp_all add: fetched_def replay_outbox_sealed_def)
    then show thesis using that [of ob] wf by (simp add: after_replay_def)
  next
    case Panic
    then have "fetched C env unseal ob = []" "replay_outbox_sealed C env unseal ob = Ok ob" by (simp_all add: fetched_def replay_outbox_sealed_def)
    then show thesis using that [of ob] wf by (simp add: after_replay_def)
  qed
qed


lemma replay_rows_all:
  assumes "outbox_ok ob" "0 \<le> re_now env" "re_now env + 256 \<le> I64_MAX"
  shows "\<exists>ob'. replay_outbox_sealed C env unseal ob = Ok ob' \<and> hm_wf (outbox_queue ob')
    \<and> (\<forall>k row'. map_of (outbox_queue ob') k = Some row'
      \<longrightarrow> (\<exists>row. map_of (outbox_queue ob) k = Some row \<and> row' = after_replay C env unseal ob k row))
    \<and> (\<forall>k row. map_of (outbox_queue ob) k = Some row \<and> \<not> settled (after_replay C env unseal ob k row)
      \<longrightarrow> map_of (outbox_queue ob') k = Some (after_replay C env unseal ob k row))"
proof (rule replay_rows [OF assms, where C = C and unseal = unseal])
  fix ob' assume "replay_outbox_sealed C env unseal ob = Ok ob'" "hm_wf (outbox_queue ob')"
    "\<And>k row'. map_of (outbox_queue ob') k = Some row'
      \<Longrightarrow> \<exists>row. map_of (outbox_queue ob) k = Some row \<and> row' = after_replay C env unseal ob k row"
    "\<And>k row. map_of (outbox_queue ob) k = Some row \<Longrightarrow> \<not> settled (after_replay C env unseal ob k row)
      \<Longrightarrow> map_of (outbox_queue ob') k = Some (after_replay C env unseal ob k row)"
  then show ?thesis by (intro exI [of _ ob'] conjI allI impI) (assumption | blast)+
qed

lemma after_replay_pending:
  assumes "oi_status (after_replay C env unseal ob k row) = ''pending''" "oi_status row = ''pending'' \<longrightarrow> 0 \<le> oi_retry_count row \<and> oi_retry_count row < 10"
    and "oi_status row = ''pending''"
  shows "0 \<le> oi_retry_count (after_replay C env unseal ob k row) \<and> oi_retry_count (after_replay C env unseal ob k row) < 10"
  using assms by (auto simp: after_replay_def failed_row_def split: if_splits)

lemma after_replay_other: "oi_status row \<noteq> ''pending'' \<Longrightarrow> outbox_ok ob \<Longrightarrow> map_of (outbox_queue ob) k = Some row
    \<Longrightarrow> after_replay C env unseal ob k row = row"
  using fetched_rows(2) [of ob k _ C env unseal] by (auto simp: after_replay_def outbox_ok_def)

lemma replay_keeps_ok:
  assumes ok: "outbox_ok ob" and now: "0 \<le> re_now env" "re_now env + 256 \<le> I64_MAX"
    and res: "replay_outbox_sealed C env unseal ob = Ok ob'"
  shows "outbox_ok ob'"
proof -
  obtain ob1 where ob1: "replay_outbox_sealed C env unseal ob = Ok ob1" and wf: "hm_wf (outbox_queue ob1)"
    and old: "\<forall>k row'. map_of (outbox_queue ob1) k = Some row'
      \<longrightarrow> (\<exists>row. map_of (outbox_queue ob) k = Some row \<and> row' = after_replay C env unseal ob k row)"
    and kept: "\<forall>k row. map_of (outbox_queue ob) k = Some row \<and> \<not> settled (after_replay C env unseal ob k row)
      \<longrightarrow> map_of (outbox_queue ob1) k = Some (after_replay C env unseal ob k row)"
    using replay_rows_all [OF ok now, of C unseal] by (elim exE conjE) rule
  have range: "0 \<le> oi_retry_count row' \<and> oi_retry_count row' < 10"
    if new: "map_of (outbox_queue ob1) k = Some row'" "oi_status row' = ''pending''" for k row'
  proof -
    obtain row where row: "map_of (outbox_queue ob) k = Some row" "row' = after_replay C env unseal ob k row"
      using old new(1) by blast
    then have "oi_status row = ''pending''" using after_replay_other [OF _ ok row(1), of C env unseal] row(2) new(2) by (cases "oi_status row = ''pending''") simp_all
    then show ?thesis
      using after_replay_pending [of C env unseal ob k row] row ok new(2) by (simp add: outbox_ok_def)
  qed
  show ?thesis using res ob1 wf range unfolding outbox_ok_def by auto
qed

text \<open>The outbox as a machine: the operations of the program in any order, with any outcomes. A failure is recorded with a
  positive count.\<close>

inductive outbox_step :: "outbox \<Rightarrow> outbox \<Rightarrow> bool" where
  enqueue: "outbox_step ob (snd (enqueue_outbox_item_with_seal C ok1 ok2 key action p media now seal ob))"
| completed: "outbox_step ob (snd (mark_outbox_item_completed ok1 key ob))"
| batch: "outbox_step ob (snd (mark_outbox_items_completed ok1 keys ob))"
| failed: "1 \<le> n \<Longrightarrow> outbox_step ob (snd (mark_outbox_item_failed ok1 key n t ob))"
| prune: "outbox_step ob (snd (prune_outbox_settled ok1 keep ob))"
| take_dirty: "outbox_step ob (snd (settled_dirty_take ob))"
| replay: "0 \<le> re_now env \<Longrightarrow> re_now env + 256 \<le> I64_MAX \<Longrightarrow> replay_outbox_sealed C env unseal ob = Ok ob' \<Longrightarrow> outbox_step ob ob'"

lemma outbox_ok_update:
  assumes "outbox_ok ob" "map fst (outbox_queue ob') = map fst (outbox_queue ob)"
    and "\<And>k row'. map_of (outbox_queue ob') k = Some row' \<Longrightarrow> oi_status row' = ''pending''
      \<Longrightarrow> map_of (outbox_queue ob) k = Some row' \<or> 0 \<le> oi_retry_count row' \<and> oi_retry_count row' < 10"
  shows "outbox_ok ob'"
  using assms unfolding outbox_ok_def hm_wf_def by (metis)

lemma enqueue_keeps_ok: "outbox_ok ob \<Longrightarrow> outbox_ok (snd (enqueue_outbox_item_with_seal C ok1 ok2 key action p media now seal ob))"
  by (auto simp: enqueue_outbox_item_with_seal_def outbox_ok_def split: res.split)

lemma completed_keeps_ok:
  assumes "outbox_ok ob"
  shows "outbox_ok (snd (mark_outbox_item_completed ok1 key ob))" "outbox_ok (snd (mark_outbox_items_completed ok1 keys ob))"
proof -
  show "outbox_ok (snd (mark_outbox_item_completed ok1 key ob))"
    by (rule outbox_ok_update [OF assms]) (auto simp: mark_outbox_item_completed_def map_of_update_row split: if_splits)
  show "outbox_ok (snd (mark_outbox_items_completed ok1 keys ob))"
    by (rule outbox_ok_update [OF assms]) (auto simp: completed_rows split: if_splits)
qed

lemma failed_keeps_ok: "outbox_ok ob \<Longrightarrow> 1 \<le> n \<Longrightarrow> outbox_ok (snd (mark_outbox_item_failed ok1 key n t ob))"
  by (erule outbox_ok_update) (auto simp: mark_outbox_item_failed_def map_of_update_row Let_def split: if_splits)

lemma prune_keeps_ok:
  assumes "outbox_ok ob"
  shows "outbox_ok (snd (prune_outbox_settled ok1 keep ob))"
proof -
  have wf: "hm_wf (outbox_queue ob)" using assms by (simp add: outbox_ok_def)
  show ?thesis
    using prune_rows(1) [OF wf] prune_rows(2) [OF wf, where ok = ok1 and n = keep] assms unfolding outbox_ok_def by blast
qed

lemma take_keeps_ok: "outbox_ok ob \<Longrightarrow> outbox_ok (snd (settled_dirty_take ob))"
  by (auto simp: settled_dirty_take_def outbox_ok_def)

interpretation outbox: safe_machine "\<lambda>ob. ob = empty_outbox" outbox_step outbox_ok
proof unfold_locales
  fix s s' assume "outbox_ok s" "outbox_step s s'"
  then show "outbox_ok s'"
    by (cases rule: outbox_step.cases [OF \<open>outbox_step s s'\<close>])
       (auto intro: enqueue_keeps_ok completed_keeps_ok failed_keeps_ok prune_keeps_ok take_keeps_ok replay_keeps_ok)
qed (simp add: empty_outbox_def outbox_ok_def hm_wf_def)

lemmas reachable_outbox_ok = outbox.reachable_inv [OF refl]

text \<open>C7. The replay loses no action. In every outbox the program can reach, with the clock away from the end of its range, a
  replay ends without a panic and leaves the outbox well-formed, whatever the outcomes of parsing, sending and the database calls; and every pending
  action that was not sent in it and has fewer than nine failures behind it is still there, pending, with the same payload
  and at most one failure more.\<close>

theorem outbox_no_loss:
  assumes "outbox_step\<^sup>*\<^sup>* empty_outbox ob" "0 \<le> re_now env" "re_now env + 256 \<le> I64_MAX"
  shows "\<exists>ob'. replay_outbox_sealed C env unseal ob = Ok ob' \<and> outbox_ok ob'
    \<and> (\<forall>k row. map_of (outbox_queue ob) k = Some row \<and> oi_status row = ''pending'' \<and> oi_retry_count row < 9
          \<and> (\<forall>it. (k, it) \<in> set (fetched C env unseal ob) \<longrightarrow> \<not> was_sent env (k, it))
        \<longrightarrow> (\<exists>row'. map_of (outbox_queue ob') k = Some row' \<and> oi_status row' = ''pending''
              \<and> oi_payload_json row' = oi_payload_json row \<and> oi_action_type row' = oi_action_type row
              \<and> oi_retry_count row \<le> oi_retry_count row' \<and> oi_retry_count row' \<le> oi_retry_count row + 1))"
proof -
  note ok = reachable_outbox_ok [OF assms(1)] assms(2,3)
  obtain ob' where ob': "replay_outbox_sealed C env unseal ob = Ok ob'" and wf: "hm_wf (outbox_queue ob')"
    and old: "\<forall>k row'. map_of (outbox_queue ob') k = Some row'
      \<longrightarrow> (\<exists>row. map_of (outbox_queue ob) k = Some row \<and> row' = after_replay C env unseal ob k row)"
    and kept: "\<forall>k row. map_of (outbox_queue ob) k = Some row \<and> \<not> settled (after_replay C env unseal ob k row)
      \<longrightarrow> map_of (outbox_queue ob') k = Some (after_replay C env unseal ob k row)"
    using replay_rows_all [OF ok, of C unseal] by (elim exE conjE) rule
  have "map_of (outbox_queue ob') k = Some (after_replay C env unseal ob k row)
      \<and> oi_status (after_replay C env unseal ob k row) = ''pending''
      \<and> oi_payload_json (after_replay C env unseal ob k row) = oi_payload_json row
      \<and> oi_action_type (after_replay C env unseal ob k row) = oi_action_type row
      \<and> oi_retry_count row \<le> oi_retry_count (after_replay C env unseal ob k row)
      \<and> oi_retry_count (after_replay C env unseal ob k row) \<le> oi_retry_count row + 1"
    if "map_of (outbox_queue ob) k = Some row" "oi_status row = ''pending''" "oi_retry_count row < 9"
      "\<forall>it. (k, it) \<in> set (fetched C env unseal ob) \<longrightarrow> \<not> was_sent env (k, it)" for k row
  proof -
    have "after_replay C env unseal ob k row \<in> {row, failed_row (re_now env) row}" using that(4) by (auto simp: after_replay_def)
    moreover have "oi_status (failed_row (re_now env) row) = ''pending''" using that(3) by (simp add: failed_row_def)
    ultimately have "oi_status (after_replay C env unseal ob k row) = ''pending''" using that(2) by auto
    then have "map_of (outbox_queue ob') k = Some (after_replay C env unseal ob k row)"
      using kept [rule_format, of k row] that(1) by (simp add: settled_def)
    then show ?thesis
      using \<open>after_replay C env unseal ob k row \<in> {row, failed_row (re_now env) row}\<close>
        \<open>oi_status (after_replay C env unseal ob k row) = ''pending''\<close> by (auto simp: failed_row_def)
  qed
  then show ?thesis using ob' replay_keeps_ok [OF ok ob'] by blast
qed


definition sample_replay :: replay_env where
  "sample_replay = \<lparr>re_now = 9, re_fetch_ok = True, re_parse_send = \<lambda>_ _. False, re_mark_ok = \<lambda>_. True, re_complete_ok = True,
     re_prune_ok = True\<rparr>"

lemma sample_outbox_reachable: "outbox_step\<^sup>*\<^sup>* empty_outbox sample_outbox"
  unfolding sample_outbox_def by (rule r_into_rtranclp, rule enqueue)

theorem outbox_no_loss_witness:
  "\<exists>ob' row'. replay_outbox_sealed sample_codec sample_replay Ok sample_outbox = Ok ob' \<and> outbox_ok ob'
     \<and> map_of (outbox_queue ob') ''k1'' = Some row' \<and> oi_status row' = ''pending''"
proof -
  have "0 \<le> re_now sample_replay" "re_now sample_replay + 256 \<le> I64_MAX" by (simp_all add: sample_replay_def)
  from outbox_no_loss [OF sample_outbox_reachable this, of sample_codec Ok] obtain ob' where ob':
    "replay_outbox_sealed sample_codec sample_replay Ok sample_outbox = Ok ob'" "outbox_ok ob'"
    and kept: "\<And>k row. map_of (outbox_queue sample_outbox) k = Some row \<and> oi_status row = ''pending'' \<and> oi_retry_count row < 9
          \<and> (\<forall>it. (k, it) \<in> set (fetched sample_codec sample_replay Ok sample_outbox) \<longrightarrow> \<not> was_sent sample_replay (k, it))
        \<Longrightarrow> \<exists>row'. map_of (outbox_queue ob') k = Some row' \<and> oi_status row' = ''pending''" by blast
  have "\<not> was_sent sample_replay p" for p by (simp add: was_sent_def sample_replay_def)
  then have "\<exists>row'. map_of (outbox_queue ob') ''k1'' = Some row' \<and> oi_status row' = ''pending''"
    by (intro kept [of _ "snd (hd (outbox_queue sample_outbox))"]) (simp add: sample_enqueue(2))
  then show ?thesis using ob' by blast
qed

text \<open>How often an action is fetched for sending in a sequence of replays.\<close>

fun attempts :: "codec \<Rightarrow> (string \<Rightarrow> string res) \<Rightarrow> string \<Rightarrow> replay_env list \<Rightarrow> outbox \<Rightarrow> nat" where
  "attempts C unseal k [] ob = 0"
| "attempts C unseal k (env # envs) ob =
     (if k \<in> fst ` set (fetched C env unseal ob) then 1 else 0)
     + (case replay_outbox_sealed C env unseal ob of Ok ob' \<Rightarrow> attempts C unseal k envs ob' | _ \<Rightarrow> 0)"

definition attempts_left :: "string \<Rightarrow> outbox \<Rightarrow> nat" where
  "attempts_left k ob =
     (case map_of (outbox_queue ob) k of Some row \<Rightarrow> if oi_status row = ''pending'' then nat (10 - oi_retry_count row) else 0 | None \<Rightarrow> 0)"

definition records :: "replay_env \<Rightarrow> bool" where
  "records env \<longleftrightarrow> 0 \<le> re_now env \<and> re_now env + 256 \<le> I64_MAX \<and> (\<forall>k. re_mark_ok env k) \<and> re_complete_ok env"

lemma attempts_left_step:
  assumes ok: "outbox_ok ob" and env: "records env" and res: "replay_outbox_sealed C env unseal ob = Ok ob'"
  shows "attempts_left k ob' + (if k \<in> fst ` set (fetched C env unseal ob) then 1 else 0) \<le> attempts_left k ob"
proof -
  have now: "0 \<le> re_now env" "re_now env + 256 \<le> I64_MAX" using env by (simp_all add: records_def)
  obtain ob1 where ob1: "replay_outbox_sealed C env unseal ob = Ok ob1" and wf: "hm_wf (outbox_queue ob1)"
    and old: "\<forall>k row'. map_of (outbox_queue ob1) k = Some row'
      \<longrightarrow> (\<exists>row. map_of (outbox_queue ob) k = Some row \<and> row' = after_replay C env unseal ob k row)"
    and kept: "\<forall>k row. map_of (outbox_queue ob) k = Some row \<and> \<not> settled (after_replay C env unseal ob k row)
      \<longrightarrow> map_of (outbox_queue ob1) k = Some (after_replay C env unseal ob k row)"
    using replay_rows_all [OF ok now, of C unseal] by (elim exE conjE) rule
  have same: "ob1 = ob'" using ob1 res by simp
  show ?thesis
  proof (cases "k \<in> fst ` set (fetched C env unseal ob)")
    case True
    then obtain it row where it: "(k, it) \<in> set (fetched C env unseal ob)"
      and row: "map_of (outbox_queue ob) k = Some row" "oi_status row = ''pending''"
      using fetched_rows(2) [of ob k _ C env unseal] ok by (fastforce simp: outbox_ok_def)
    have r: "0 \<le> oi_retry_count row" "oi_retry_count row < 10" using ok row by (auto simp: outbox_ok_def)
    have "after_replay C env unseal ob k row \<in> {row\<lparr>oi_status := ''completed''\<rparr>, failed_row (re_now env) row}"
      using it env by (auto simp: after_replay_def records_def)
    then have "attempts_left k ob1 \<le> nat (10 - oi_retry_count row) - 1"
      using old [rule_format, of k] row(1) r by (cases "map_of (outbox_queue ob1) k") (auto simp: attempts_left_def failed_row_def)
    then show ?thesis using True same row r by (simp add: attempts_left_def)
  next
    case False
    then have "after_replay C env unseal ob k row = row" for row by (force simp: after_replay_def)
    then show ?thesis using False same old [rule_format, of k] by (cases "map_of (outbox_queue ob1) k") (auto simp: attempts_left_def)
  qed
qed

lemma attempts_bound:
  "outbox_ok ob \<Longrightarrow> \<forall>env\<in>set envs. records env \<Longrightarrow> attempts C unseal k envs ob \<le> attempts_left k ob"
proof (induction envs arbitrary: ob)
  case (Cons env envs)
  then have env: "records env" and now: "0 \<le> re_now env" "re_now env + 256 \<le> I64_MAX" by (simp_all add: records_def)
  show ?case
  proof (cases "replay_outbox_sealed C env unseal ob")
    case (Ok ob')
    have "attempts C unseal k envs ob' \<le> attempts_left k ob'"
      using Cons replay_keeps_ok [OF Cons.prems(1) now Ok] by simp
    then show ?thesis using attempts_left_step [OF Cons.prems(1) env Ok, of k] Ok by simp
  qed (use replay_rows_all [OF Cons.prems(1) now, of C unseal] in auto)
qed simp


text \<open>C31. The outbox gives up. In any sequence of replays of an outbox the program can reach, whose outcomes are recorded (the database
  calls that mark rows succeed) an action is fetched for sending at most ten times.\<close>

theorem outbox_gives_up:
  assumes "outbox_step\<^sup>*\<^sup>* empty_outbox ob" "\<forall>env\<in>set envs. records env"
  shows "attempts C unseal k envs ob \<le> 10"
proof -
  note ok = reachable_outbox_ok [OF assms(1)]
  have "attempts_left k ob \<le> 10" using ok by (fastforce simp: attempts_left_def outbox_ok_def split: option.split)
  then show ?thesis using attempts_bound [OF ok assms(2), of C unseal k] by simp
qed

theorem outbox_gives_up_witness: "attempts sample_codec Ok ''k1'' (replicate 100 sample_replay) sample_outbox \<le> 10"
  by (rule outbox_gives_up [OF sample_outbox_reachable]) (simp add: records_def sample_replay_def)

end
