(* ===== verification/VerifyCache.thy ===== *)
theory VerifyCache
  imports Tables
begin

section \<open>Event verification with a cache (nostr-core/src/models.rs)\<close>

text \<open>
  \<open>verify_event\<close> remembers the SHA-256 of the id and the signature of every event that passed \<open>Event::verify\<close>, in
  two generations: a hit in the older one is promoted, a full younger one replaces the older. The event type, its
  accessors, \<open>Event::verify\<close> (a crate) and SHA-256 are parameters. Shown: the cache holds at most two half capacities
  plus the promotions; a positive answer always goes back to an event with the same id and signature that did verify; the
  answer is the one of \<open>Event::verify\<close> as long as the id field of the events determines the verdict of the signature
  check; and without that the cache answers yes for an event whose content was replaced under a verified id and signature.
\<close>

definition cache_cap :: "nat \<Rightarrow> nat" where
  "cache_cap max_cap = max (max_cap div 2) 512"

record 'e event_prims =
  ev_id :: "'e \<Rightarrow> byte list"
  ev_sig :: "'e \<Rightarrow> byte list"
  ev_verify :: "'e \<Rightarrow> bool"
  ev_sha256 :: "byte list \<Rightarrow> byte list"

record verified_cache =
  vc_current :: "byte list list"
  vc_previous :: "byte list list"

definition with_capacity :: verified_cache where
  "with_capacity = \<lparr>vc_current = [], vc_previous = []\<rparr>"

definition compute_verify_cache_key :: "'e event_prims \<Rightarrow> 'e \<Rightarrow> byte list" where
  "compute_verify_cache_key E e = ev_sha256 E (ev_id E e @ ev_sig E e)"

text \<open>10,000 on Android and 50,000 elsewhere\<close>

definition max_cache_capacity :: "bool \<Rightarrow> nat" where
  "max_cache_capacity android = (if android then 10000 else 50000)"

definition clear_verified_cache :: "verified_cache option \<Rightarrow> verified_cache option" where
  "clear_verified_cache g = None"

text \<open>The tail of \<open>verify_event\<close>: the event verified, and its key is remembered.\<close>

definition cache_remember :: "nat \<Rightarrow> byte list \<Rightarrow> verified_cache option \<Rightarrow> verified_cache" where
  "cache_remember max_cap key g =
     (let c = (case g of None \<Rightarrow> with_capacity | Some c \<Rightarrow> c);
          c = (if length (vc_current c) \<ge> cache_cap max_cap then c\<lparr>vc_previous := vc_current c, vc_current := []\<rparr> else c)
      in c\<lparr>vc_current := hs_insert key (vc_current c)\<rparr>)"

definition verify_event_cached :: "'e event_prims \<Rightarrow> nat \<Rightarrow> 'e \<Rightarrow> verified_cache option \<Rightarrow> bool \<times> verified_cache option" where
  "verify_event_cached E max_cap e g =
     (let key = compute_verify_cache_key E e;
          fresh = (if ev_verify E e then (True, Some (cache_remember max_cap key g)) else (False, g))
      in case g of
           None \<Rightarrow> fresh
         | Some c \<Rightarrow>
             if key \<in> set (vc_current c) then (True, g)
             else if key \<in> set (vc_previous c) then (True, Some (c\<lparr>vc_current := hs_insert key (vc_current c)\<rparr>))
             else fresh)"

subsection \<open>Where the keys come from\<close>

text \<open>Every key in the cache belongs to an event that verified.\<close>

definition cache_keys :: "verified_cache option \<Rightarrow> byte list set" where
  "cache_keys g = (case g of None \<Rightarrow> {} | Some c \<Rightarrow> set (vc_current c) \<union> set (vc_previous c))"

definition cache_sound :: "'e event_prims \<Rightarrow> verified_cache option \<Rightarrow> bool" where
  "cache_sound E g \<longleftrightarrow> (\<forall>k\<in>cache_keys g. \<exists>e. ev_verify E e \<and> compute_verify_cache_key E e = k)"

lemma cache_keys_remember: "cache_keys (Some (cache_remember m k g)) \<subseteq> insert k (cache_keys g)"
  by (cases g) (auto simp: cache_keys_def cache_remember_def with_capacity_def Let_def)

lemma verify_event_keys:
  "cache_keys (snd (verify_event_cached E m e g)) \<subseteq> cache_keys g \<or>
   ev_verify E e \<and> cache_keys (snd (verify_event_cached E m e g)) \<subseteq> insert (compute_verify_cache_key E e) (cache_keys g)"
  using cache_keys_remember [of m "compute_verify_cache_key E e" g]
  by (cases g) (auto simp: verify_event_cached_def Let_def cache_keys_def split: if_splits)

lemma cache_sound_step: "cache_sound E g \<Longrightarrow> cache_sound E (snd (verify_event_cached E m e g))"
  using verify_event_keys [of E m e g] unfolding cache_sound_def by blast

lemma cache_sound_None [simp]: "cache_sound E None"
  by (simp add: cache_sound_def cache_keys_def)

lemma verify_event_yes:
  "fst (verify_event_cached E m e g) \<longleftrightarrow> ev_verify E e \<or> compute_verify_cache_key E e \<in> cache_keys g"
  by (cases g) (simp_all add: verify_event_cached_def Let_def cache_keys_def)

text \<open>What a positive answer is worth: some event with the same key did verify.\<close>

definition vouched :: "'e event_prims \<Rightarrow> 'e \<Rightarrow> bool" where
  "vouched E e \<longleftrightarrow> (\<exists>e0. ev_verify E e0 \<and> compute_verify_cache_key E e0 = compute_verify_cache_key E e)"

lemma vouched_check: "cache_sound E g \<Longrightarrow> fst (verify_event_cached E m e g) \<Longrightarrow> vouched E e"
  unfolding verify_event_yes vouched_def cache_sound_def by blast

text \<open>SHA-256 without collisions, and ids of 32 bytes\<close>

definition key_injective :: "'e event_prims \<Rightarrow> bool" where
  "key_injective E \<longleftrightarrow> (\<forall>e e'. compute_verify_cache_key E e = compute_verify_cache_key E e' \<longrightarrow> ev_id E e @ ev_sig E e = ev_id E e' @ ev_sig E e')
     \<and> (\<forall>e. length (ev_id E e) = 32)"

lemma vouched_same:
  assumes "key_injective E" "vouched E e"
  shows "\<exists>e0. ev_verify E e0 \<and> ev_id E e0 = ev_id E e \<and> ev_sig E e0 = ev_sig E e"
  using assms unfolding key_injective_def vouched_def by (metis append_eq_append_conv)

lemma verify_event_no: "\<not> fst (verify_event_cached E m e g) \<Longrightarrow> snd (verify_event_cached E m e g) = g"
  by (cases g) (auto simp: verify_event_cached_def Let_def split: if_splits)

text \<open>An event that verified is remembered, so its next check does not compute.\<close>

lemma verify_event_remembers:
  "fst (verify_event_cached E m e g) \<Longrightarrow> compute_verify_cache_key E e \<in> cache_keys (snd (verify_event_cached E m e g))"
  by (cases g) (simp_all add: verify_event_cached_def cache_remember_def with_capacity_def Let_def cache_keys_def split: if_splits)

subsection \<open>A sequence of checks\<close>

definition verify_all :: "'e event_prims \<Rightarrow> nat \<Rightarrow> 'e list \<Rightarrow> verified_cache option \<Rightarrow> verified_cache option" where
  "verify_all E m es g = fold (\<lambda>e g. snd (verify_event_cached E m e g)) es g"

lemma verify_all_Nil [simp]: "verify_all E m [] g = g"
  by (simp add: verify_all_def)

lemma verify_all_Cons [simp]: "verify_all E m (e # es) g = verify_all E m es (snd (verify_event_cached E m e g))"
  by (simp add: verify_all_def)

lemma verify_all_append [simp]: "verify_all E m (xs @ ys) g = verify_all E m ys (verify_all E m xs g)"
  by (simp add: verify_all_def)

lemma cache_sound_all: "cache_sound E g \<Longrightarrow> cache_sound E (verify_all E m es g)"
  by (induction es arbitrary: g) (simp_all add: cache_sound_step)

text \<open>Fresh events fill the younger generation up to the cap.\<close>

lemma verify_all_fresh:
  assumes "\<forall>e\<in>set es. ev_verify E e" "distinct (map (compute_verify_cache_key E) es)"
    "set (map (compute_verify_cache_key E) es) \<inter> cache_keys (Some c) = {}" "length (vc_current c) + length es \<le> cache_cap m"
  shows "\<exists>cur. verify_all E m es (Some c) = Some (c\<lparr>vc_current := cur\<rparr>) \<and> length cur = length (vc_current c) + length es
    \<and> set cur = set (map (compute_verify_cache_key E) es) \<union> set (vc_current c) \<and> (distinct (vc_current c) \<longrightarrow> distinct cur)"
  using assms
proof (induction es arbitrary: c)
  case Nil
  then show ?case by (intro exI [of _ "vc_current c"]) simp
next
  case (Cons e es)
  let ?k = "compute_verify_cache_key E e"
  let ?c = "c\<lparr>vc_current := hs_insert ?k (vc_current c)\<rparr>"
  have k: "?k \<notin> set (vc_current c)" "?k \<notin> set (vc_previous c)" using Cons.prems by (auto simp: cache_keys_def)
  have step: "snd (verify_event_cached E m e (Some c)) = Some ?c"
    using Cons.prems k by (simp add: verify_event_cached_def cache_remember_def Let_def)
  have "\<exists>cur. verify_all E m es (Some ?c) = Some (?c\<lparr>vc_current := cur\<rparr>) \<and> length cur = length (vc_current ?c) + length es
      \<and> set cur = set (map (compute_verify_cache_key E) es) \<union> set (vc_current ?c) \<and> (distinct (vc_current ?c) \<longrightarrow> distinct cur)"
    by (rule Cons.IH) (use Cons.prems k in \<open>auto simp: cache_keys_def hs_insert_def\<close>)
  then show ?case using step k by (auto simp: hs_insert_def)
qed

text \<open>Events of the older generation are promoted without looking at the cap.\<close>

lemma verify_all_promote:
  assumes "distinct (map (compute_verify_cache_key E) es)" "set (map (compute_verify_cache_key E) es) \<subseteq> set (vc_previous c)"
    "set (map (compute_verify_cache_key E) es) \<inter> set (vc_current c) = {}"
  shows "\<exists>cur. verify_all E m es (Some c) = Some (c\<lparr>vc_current := cur\<rparr>) \<and> length cur = length (vc_current c) + length es
    \<and> set cur = set (map (compute_verify_cache_key E) es) \<union> set (vc_current c) \<and> (distinct (vc_current c) \<longrightarrow> distinct cur)"
  using assms
proof (induction es arbitrary: c)
  case Nil
  then show ?case by (intro exI [of _ "vc_current c"]) simp
next
  case (Cons e es)
  let ?k = "compute_verify_cache_key E e"
  let ?c = "c\<lparr>vc_current := hs_insert ?k (vc_current c)\<rparr>"
  have k: "?k \<notin> set (vc_current c)" "?k \<in> set (vc_previous c)" using Cons.prems by auto
  have step: "snd (verify_event_cached E m e (Some c)) = Some ?c"
    using k by (simp add: verify_event_cached_def Let_def)
  have "\<exists>cur. verify_all E m es (Some ?c) = Some (?c\<lparr>vc_current := cur\<rparr>) \<and> length cur = length (vc_current ?c) + length es
      \<and> set cur = set (map (compute_verify_cache_key E) es) \<union> set (vc_current ?c) \<and> (distinct (vc_current ?c) \<longrightarrow> distinct cur)"
    by (rule Cons.IH) (use Cons.prems k in \<open>auto simp: hs_insert_def\<close>)
  then show ?case using step k by (auto simp: hs_insert_def)
qed

lemma verify_fresh_range:
  fixes f :: "nat \<Rightarrow> 'e" and E :: "'e event_prims"
  defines "key \<equiv> \<lambda>i. compute_verify_cache_key E (f i)"
  assumes ver: "\<And>i. ev_verify E (f i)" and inj: "inj key" and new: "\<And>i. n \<le> i \<Longrightarrow> key i \<notin> cache_keys (Some c)"
    and c: "distinct (vc_current c)" "length (vc_current c) + h \<le> cache_cap m"
  shows "\<exists>cur. verify_all E m (map f [n..<n + h]) (Some c) = Some (c\<lparr>vc_current := cur\<rparr>) \<and> length cur = length (vc_current c) + h
    \<and> set cur = key ` {n..<n + h} \<union> set (vc_current c) \<and> distinct cur"
proof -
  let ?es = "map f [n..<n + h]"
  have keys: "map (compute_verify_cache_key E) ?es = map key [n..<n + h]" by (simp add: key_def)
  have "\<exists>cur. verify_all E m ?es (Some c) = Some (c\<lparr>vc_current := cur\<rparr>) \<and> length cur = length (vc_current c) + length ?es
      \<and> set cur = set (map (compute_verify_cache_key E) ?es) \<union> set (vc_current c) \<and> (distinct (vc_current c) \<longrightarrow> distinct cur)"
  proof (rule verify_all_fresh)
    show "distinct (map (compute_verify_cache_key E) ?es)"
      unfolding keys by (simp add: distinct_map inj_on_subset [OF inj])
    show "set (map (compute_verify_cache_key E) ?es) \<inter> cache_keys (Some c) = {}" unfolding keys using new by auto
  qed (use ver c in auto)
  then show ?thesis unfolding keys using c(1) by simp
qed

text \<open>One round of fresh events, replayed older ones and one more: the older generation has grown by a whole cap.\<close>

definition between_rounds :: "(nat \<Rightarrow> byte list) \<Rightarrow> verified_cache \<Rightarrow> bool" where
  "between_rounds key c \<longleftrightarrow> distinct (vc_previous c) \<and> length (vc_current c) = 1 \<and> (\<exists>n. cache_keys (Some c) \<subseteq> key ` {..<n})
     \<and> set (vc_current c) \<inter> set (vc_previous c) = {}"

lemma cache_round:
  fixes f :: "nat \<Rightarrow> 'e" and E :: "'e event_prims"
  defines "key \<equiv> \<lambda>i. compute_verify_cache_key E (f i)"
  assumes ver: "\<And>i. ev_verify E (f i)" and inj: "inj key" and c: "between_rounds key c"
  shows "\<exists>es c'. verify_all E m es (Some c) = Some c' \<and> between_rounds key c'
    \<and> length (vc_previous c') = cache_cap m + length (vc_previous c)"
proof -
  obtain n where n: "cache_keys (Some c) \<subseteq> key ` {..<n}" using c by (auto simp: between_rounds_def)
  define h where "h = cache_cap m - 1"
  have h: "cache_cap m = Suc h" by (simp add: h_def cache_cap_def)
  have new: "key i \<notin> cache_keys (Some c)" if "n \<le> i" for i using n injD [OF inj] that by fastforce
  have cur: "length (vc_current c) = 1" "distinct (vc_current c)"
    using c by (auto simp: between_rounds_def length_Suc_conv)
  obtain c1 where c1: "verify_all E m (map f [n..<n + h]) (Some c) = Some (c\<lparr>vc_current := c1\<rparr>)" "length c1 = cache_cap m"
    "set c1 = key ` {n..<n + h} \<union> set (vc_current c)" "distinct c1"
    using verify_fresh_range [of E f n c h m] ver inj new cur h by (auto simp: key_def)
  have "\<exists>js. vc_previous c = map key js" using n by (auto simp: ex_map_conv cache_keys_def)
  then obtain js where js: "map (compute_verify_cache_key E) (map f js) = vc_previous c" by (auto simp: key_def comp_def)
  have disj: "set (vc_previous c) \<inter> set c1 = {}" using c c1(3) new by (auto simp: between_rounds_def cache_keys_def)
  have len: "length js = length (vc_previous c)" using arg_cong [OF js, of length] by simp
  have "\<exists>cur. verify_all E m (map f js) (Some (c\<lparr>vc_current := c1\<rparr>)) = Some (c\<lparr>vc_current := cur\<rparr>)
      \<and> length cur = length c1 + length (vc_previous c) \<and> set cur = set (vc_previous c) \<union> set c1 \<and> distinct cur"
    using verify_all_promote [of E "map f js" "c\<lparr>vc_current := c1\<rparr>" m, unfolded js] c c1(4) disj len
    by (simp add: between_rounds_def)
  then obtain c2 where c2: "verify_all E m (map f js) (Some (c\<lparr>vc_current := c1\<rparr>)) = Some (c\<lparr>vc_current := c2\<rparr>)"
    "length c2 = cache_cap m + length (vc_previous c)" "set c2 = set (vc_previous c) \<union> set c1" "distinct c2"
    using c1(2) by auto
  have last: "key (n + h) \<notin> set c2" "key (n + h) \<notin> set (vc_previous c)"
    using new [of "n + h"] c2(3) c1(3) by (auto simp: cache_keys_def dest: injD [OF inj])
  let ?c' = "\<lparr>vc_current = [key (n + h)], vc_previous = c2\<rparr>"
  have "snd (verify_event_cached E m (f (n + h)) (Some (c\<lparr>vc_current := c2\<rparr>))) = Some ?c'"
    using last ver c2(2) by (simp add: verify_event_cached_def cache_remember_def Let_def hs_insert_def key_def)
  then have "verify_all E m (map f [n..<n + h] @ map f js @ [f (n + h)]) (Some c) = Some ?c'"
    using c1(1) c2(1) by simp
  moreover have "set c2 \<subseteq> key ` {n..<n + h} \<union> cache_keys (Some c)" using c2(3) c1(3) by (auto simp: cache_keys_def)
  then have "cache_keys (Some ?c') \<subseteq> key ` {..<Suc (n + h)}" using n by (fastforce simp: cache_keys_def)
  then have "between_rounds key ?c'" using c2(4) last by (auto simp: between_rounds_def)
  ultimately show ?thesis using c2(2) by (metis verified_cache.select_convs(2))
qed
text \<open>
  The verification cache grows without bound, whatever its capacity: with enough events that verify, for every size
  there is a sequence of checks after which the older generation holds that many capacities.
\<close>

theorem verify_cache_unbounded:
  fixes f :: "nat \<Rightarrow> 'e"
  assumes "\<forall>i. ev_verify E (f i)" "inj (\<lambda>i. compute_verify_cache_key E (f i))"
  shows "\<exists>es c. verify_all E m es None = Some c \<and> length (vc_previous c) = n * cache_cap m"
proof -
  let ?key = "\<lambda>i. compute_verify_cache_key E (f i)"
  have "\<exists>es c. verify_all E m es None = Some c \<and> between_rounds ?key c \<and> length (vc_previous c) = n * cache_cap m"
  proof (induction n)
    case 0
    have "verify_all E m [f 0] None = Some \<lparr>vc_current = [?key 0], vc_previous = []\<rparr>"
      using assms(1) by (simp add: verify_event_cached_def cache_remember_def with_capacity_def Let_def hs_insert_def cache_cap_def)
    moreover have "between_rounds ?key \<lparr>vc_current = [?key 0], vc_previous = []\<rparr>"
      by (auto simp: between_rounds_def cache_keys_def intro: exI [of _ 1])
    ultimately show ?case by (metis list.size(3) mult_0 verified_cache.select_convs(2))
  next
    case (Suc n)
    then obtain es c where c: "verify_all E m es None = Some c" "between_rounds ?key c" "length (vc_previous c) = n * cache_cap m"
      by blast
    obtain es' c' where "verify_all E m es' (Some c) = Some c'" "between_rounds ?key c'"
      "length (vc_previous c') = cache_cap m + length (vc_previous c)"
      using cache_round [of E f c m] assms c(2) by blast
    then show ?case using c by (intro exI [of _ "es @ es'"] exI [of _ c']) simp
  qed
  then show ?thesis by blast
qed

definition counting_events :: "nat event_prims" where
  "counting_events = \<lparr>ev_id = (\<lambda>n. replicate n 0), ev_sig = (\<lambda>n. []), ev_verify = (\<lambda>n. True), ev_sha256 = (\<lambda>b. b)\<rparr>"

theorem verify_cache_unbounded_witness:
  "\<exists>es c. verify_all counting_events 50000 es None = Some c \<and> length (vc_previous c) = 1000 * cache_cap 50000"
proof (rule verify_cache_unbounded [of counting_events "\<lambda>i. i"])
  show "inj (\<lambda>i. compute_verify_cache_key counting_events i)"
    by (rule injI) (metis append_Nil2 compute_verify_cache_key_def counting_events_def event_prims.select_convs length_replicate)
qed (simp add: counting_events_def)

text \<open>
  Where the verdict of the cache comes from: when no two events collide under SHA-256, after any sequence of checks from
  the empty cache every event that verifies is accepted, and an accepted event has the id and the signature of one that
  verifies. Nothing ties it to the content of that event.
\<close>

theorem verify_cache_verdict:
  assumes "\<forall>e e'. compute_verify_cache_key E e = compute_verify_cache_key E e' \<longrightarrow> ev_id E e @ ev_sig E e = ev_id E e' @ ev_sig E e'"
    and "\<forall>e. length (ev_id E e) = 32"
  shows "(fst (verify_event_cached E m e (verify_all E m es None)) \<longrightarrow>
      (\<exists>e0. ev_verify E e0 \<and> ev_id E e0 = ev_id E e \<and> ev_sig E e0 = ev_sig E e))
    \<and> (ev_verify E e \<longrightarrow> fst (verify_event_cached E m e (verify_all E m es None)))"
proof -
  let ?g = "verify_all E m es None"
  have sound: "cache_sound E ?g" by (rule cache_sound_all) simp
  have same: "ev_id E e0 = ev_id E e \<and> ev_sig E e0 = ev_sig E e"
    if "compute_verify_cache_key E e0 = compute_verify_cache_key E e" for e0
  proof -
    have "ev_id E e0 @ ev_sig E e0 = ev_id E e @ ev_sig E e" using that assms(1) by blast
    then show ?thesis using assms(2) by (simp add: append_eq_append_conv)
  qed
  have "\<exists>e0. ev_verify E e0 \<and> compute_verify_cache_key E e0 = compute_verify_cache_key E e" if "fst (verify_event_cached E m e ?g)"
    using that sound unfolding verify_event_yes cache_sound_def by blast
  then show ?thesis using same unfolding verify_event_yes by blast
qed
text \<open>
  The sample: an event is an id and a content, the signature is a constant, and \<open>Event::verify\<close> checks that the
  id is the (identity) hash of the content.
\<close>

type_synonym sample_event = "byte list \<times> byte list"

definition sample_event_prims :: "sample_event event_prims" where
  "sample_event_prims =
     \<lparr>ev_id = (\<lambda>(i, c). take 32 (i @ replicate 32 0)), ev_sig = (\<lambda>_. [7]), ev_verify = (\<lambda>(i, c). i = c), ev_sha256 = (\<lambda>b. b)\<rparr>"

theorem verify_cache_verdict_witness:
  "fst (verify_event_cached sample_event_prims 50000 ([1], [2]) (verify_all sample_event_prims 50000 [([1], [1])] None))
   \<and> (\<exists>e0. ev_verify sample_event_prims e0 \<and> ev_id sample_event_prims e0 = ev_id sample_event_prims ([1], [2])
        \<and> ev_sig sample_event_prims e0 = ev_sig sample_event_prims ([1], [2]))
   \<and> \<not> ev_verify sample_event_prims ([1], [2])"
proof -
  have hyp: "\<forall>e e'. compute_verify_cache_key sample_event_prims e = compute_verify_cache_key sample_event_prims e' \<longrightarrow>
      ev_id sample_event_prims e @ ev_sig sample_event_prims e = ev_id sample_event_prims e' @ ev_sig sample_event_prims e'"
    "\<forall>e. length (ev_id sample_event_prims e) = 32"
    by (auto simp: sample_event_prims_def compute_verify_cache_key_def)
  have "fst (verify_event_cached sample_event_prims 50000 ([1], [2]) (verify_all sample_event_prims 50000 [([1], [1])] None))"
    by (simp add: verify_event_cached_def compute_verify_cache_key_def sample_event_prims_def cache_remember_def with_capacity_def
        hs_insert_def cache_cap_def Let_def)
  then show ?thesis using verify_cache_verdict [OF hyp, of 50000 "([1], [2])" "[([1], [1])]"]
    by (simp add: sample_event_prims_def)
qed

text \<open>After an event was checked and accepted, any event with its id and signature is accepted, whatever it contains.\<close>

lemma verify_cache_replay:
  assumes "fst (verify_event_cached E m e0 g)" "ev_id E e = ev_id E e0" "ev_sig E e = ev_sig E e0"
  shows "fst (verify_event_cached E m e (snd (verify_event_cached E m e0 g)))"
  using verify_event_remembers [OF assms(1)] assms(2,3) by (simp add: verify_event_yes compute_verify_cache_key_def)

end
