(* ===== verification/GossipBridge.thy ===== *)
theory GossipBridge
  imports PlumTree VerifyCache
begin

section \<open>The gossip bridge (sync-core/src/gossip.rs)\<close>

text \<open>
  The bridge stands between the mesh and the gossip node of \<^theory_text>\<open>PlumTree\<close>: gossip is passed on only if its payload is an
  event that \<open>verify_event\<close> accepts and whose id is the message id, and such an event is ingested once per account, as
  remembered by a \<open>BoundedSet\<close> of \<^theory_text>\<open>Bounded\<close>. \<open>verify_event\<close> is the stateful check of \<^theory_text>\<open>VerifyCache\<close>: its cache, a
  global variable that other components use too, is the field \<open>br_cache\<close>. The event parser, the id and what the check is made of are
  the fields of \<open>event_ops\<close>, code of other packages. Ingestion itself is not modelled: \<open>ingested\<close> records what is handed to it.

  Shown: in every reachable state only payloads that the cache vouches for are kept, sent or ingested, which means that an event with
  the same id and signature did verify; a payload whose own signature does not verify passes when it takes the id and signature of such an
  event; the batch entry point does exactly what the single one does message by message; an event is not ingested again while it is
  remembered.
\<close>

record 'e event_ops =
  parse_event :: "string \<Rightarrow> 'e option"
  event_id :: "'e \<Rightarrow> string"
  event_check :: "'e event_prims"
  event_cache_cap :: nat

abbreviation SEEN_GOSSIP_CAP :: nat where "SEEN_GOSSIP_CAP \<equiv> 10000"

record 'e bridge =
  br_node :: plum_node
  seen_gossip :: "string bset"
  ingested :: "'e list"
  br_cache :: "verified_cache option"

text \<open>The cache is what it is when the bridge is made.\<close>

definition bridge_new :: "string \<Rightarrow> verified_cache option \<Rightarrow> 'e bridge" where
  "bridge_new self_pubkey g =
     \<lparr>br_node = plum_new self_pubkey, seen_gossip = bs_new SEEN_GOSSIP_CAP, ingested = [], br_cache = g\<rparr>"

definition verified_gossip :: "'e event_ops \<Rightarrow> plum_message \<Rightarrow> verified_cache option \<Rightarrow> 'e option \<times> verified_cache option" where
  "verified_gossip ops msg g =
     (case msg of
        Gossip i p r \<Rightarrow>
          (case parse_event ops p of
             Some event \<Rightarrow>
               if event_id ops event = i
               then (case verify_event_cached (event_check ops) (event_cache_cap ops) event g of
                       (ok, g') \<Rightarrow> (if ok then Some event else None, g'))
               else (None, g)
           | None \<Rightarrow> (None, g))
      | _ \<Rightarrow> (None, g))"

fun is_gossip :: "plum_message \<Rightarrow> bool" where
  "is_gossip (Gossip i p r) \<longleftrightarrow> True"
| "is_gossip _ \<longleftrightarrow> False"

text \<open>The key of the deduplication set.\<close>

definition seen_key :: "'e event_ops \<Rightarrow> string \<Rightarrow> 'e \<Rightarrow> string" where
  "seen_key ops my_pubkey event = my_pubkey @ '':'' @ event_id ops event"

definition process_gossip ::
    "'e event_ops \<Rightarrow> nat \<Rightarrow> string \<Rightarrow> plum_message \<Rightarrow> 'e bridge \<Rightarrow> (string \<times> plum_message) list \<times> 'e bridge" where
  "process_gossip ops now from_peer msg b =
     (case verified_gossip ops msg (br_cache b) of (verified, g) \<Rightarrow>
      let my_pubkey = self_peer_id (br_node b);
          b = b\<lparr>br_cache := g\<rparr>;
          (outgoing, b1) =
            (if is_gossip msg \<and> verified = None then ([], b)
             else case handle_incoming now from_peer msg (br_node b) of (out, node') \<Rightarrow> (out, b\<lparr>br_node := node'\<rparr>))
      in case verified of
           None \<Rightarrow> (outgoing, b1)
         | Some event \<Rightarrow>
             (case bs_insert (seen_key ops my_pubkey event) (seen_gossip b1) of (fresh, seen') \<Rightarrow>
                (outgoing, b1\<lparr>seen_gossip := seen', ingested := ingested b1 @ (if fresh then [event] else [])\<rparr>)))"

text \<open>The batch: first all messages through the node, then the deduplication of the verified events, then one ingestion.\<close>

fun batch_node ::
    "'e event_ops \<Rightarrow> (nat \<times> string \<times> plum_message) list \<Rightarrow> plum_node \<Rightarrow> verified_cache option
      \<Rightarrow> (string \<times> plum_message) list \<times> 'e list \<times> plum_node \<times> verified_cache option" where
  "batch_node ops [] node g = ([], [], node, g)"
| "batch_node ops ((now, from_peer, msg) # ms) node g =
     (case verified_gossip ops msg g of (verified, g1) \<Rightarrow>
        if is_gossip msg \<and> verified = None then batch_node ops ms node g1
        else case handle_incoming now from_peer msg node of (out, node1) \<Rightarrow>
             (case batch_node ops ms node1 g1 of (outs, events, node2, g2) \<Rightarrow>
               (out @ outs, (case verified of Some ev \<Rightarrow> [ev] | None \<Rightarrow> []) @ events, node2, g2)))"

fun filter_fresh :: "'e event_ops \<Rightarrow> string \<Rightarrow> 'e list \<Rightarrow> string bset \<Rightarrow> 'e list \<times> string bset" where
  "filter_fresh ops my_pubkey [] seen = ([], seen)"
| "filter_fresh ops my_pubkey (ev # evs) seen =
     (case bs_insert (seen_key ops my_pubkey ev) seen of (fresh, seen1) \<Rightarrow>
       (case filter_fresh ops my_pubkey evs seen1 of (fs, seen2) \<Rightarrow> ((if fresh then [ev] else []) @ fs, seen2)))"

definition process_gossip_batch ::
    "'e event_ops \<Rightarrow> (nat \<times> string \<times> plum_message) list \<Rightarrow> 'e bridge \<Rightarrow> (string \<times> plum_message) list \<times> 'e bridge" where
  "process_gossip_batch ops messages b =
     (let my_pubkey = self_peer_id (br_node b) in
      case batch_node ops messages (br_node b) (br_cache b) of (all_outgoing, verified_events, node', g') \<Rightarrow>
      (case filter_fresh ops my_pubkey verified_events (seen_gossip b) of (fresh_events, seen') \<Rightarrow>
        (all_outgoing, b\<lparr>br_node := node', seen_gossip := seen', ingested := ingested b @ fresh_events, br_cache := g'\<rparr>)))"

subsection \<open>The batch is the sequence\<close>

fun process_all ::
    "'e event_ops \<Rightarrow> (nat \<times> string \<times> plum_message) list \<Rightarrow> 'e bridge \<Rightarrow> (string \<times> plum_message) list \<times> 'e bridge" where
  "process_all ops [] b = ([], b)"
| "process_all ops ((now, from_peer, msg) # ms) b =
     (case process_gossip ops now from_peer msg b of (out, b1) \<Rightarrow>
       (case process_all ops ms b1 of (outs, b2) \<Rightarrow> (out @ outs, b2)))"

lemma handle_incoming_self [simp]: "self_peer_id (snd (handle_incoming now from m s)) = self_peer_id s"
proof -
  obtain w where "snd (consume_graft_credit now from s) = s\<lparr>graft_windows := w\<rparr>" using credit_frame [of now "from" s] by blast
  then show ?thesis by (cases m) (auto simp: Let_def demote_def split: option.split prod.split)
qed

lemma batch_step:
  "process_gossip_batch ops ((now, from_peer, msg) # ms) b
    = (case process_gossip ops now from_peer msg b of (out, b1) \<Rightarrow>
        (case process_gossip_batch ops ms b1 of (outs, b2) \<Rightarrow> (out @ outs, b2)))"
proof -
  obtain v g1 where v: "verified_gossip ops msg (br_cache b) = (v, g1)" by fastforce
  obtain out node1 where h: "handle_incoming now from_peer msg (br_node b) = (out, node1)" by fastforce
  then have self: "self_peer_id node1 = self_peer_id (br_node b)"
    using handle_incoming_self [of now from_peer msg "br_node b"] by simp
  show ?thesis
    by (cases "is_gossip msg \<and> v = None"; cases v) (use v h self in \<open>auto simp: process_gossip_batch_def process_gossip_def Let_def split: prod.split\<close>)
qed

text \<open>The batch entry point is equivalent to the single one: it sends the same messages in the same order and leaves
  the same gossip node, the same deduplication set and the same sequence of ingested events as processing the messages one by
  one.\<close>

theorem gossip_batch_equiv: "process_gossip_batch ops messages b = process_all ops messages b"
proof (induction ops messages b rule: process_all.induct)
  case (1 ops b)
  then show ?case by (simp add: process_gossip_batch_def)
next
  case (2 ops now from_peer msg ms b)
  then show ?case by (auto simp: batch_step split: prod.split)
qed


subsection \<open>Only verified events\<close>

text \<open>A payload that is an event with the right id for which the cache vouches\<close>

definition vouched_payload :: "'e event_ops \<Rightarrow> string \<Rightarrow> string \<Rightarrow> bool" where
  "vouched_payload ops i p \<longleftrightarrow> (\<exists>e. parse_event ops p = Some e \<and> event_id ops e = i \<and> vouched (event_check ops) e)"

lemma verified_gossip_sound:
  assumes "cache_sound (event_check ops) g" "verified_gossip ops msg g = (v, g')"
  shows "cache_sound (event_check ops) g'"
    and "v = Some e \<Longrightarrow> is_gossip msg \<and> vouched (event_check ops) e"
    and "v \<noteq> None \<Longrightarrow> msg = Gossip i p r \<Longrightarrow> vouched_payload ops i p"
    and "v = None \<Longrightarrow> g' = g"
proof -
  show "cache_sound (event_check ops) g'"
    using assms cache_sound_step [of "event_check ops" g "event_cache_cap ops"]
    by (auto simp: verified_gossip_def split: plum_message.splits option.splits if_splits prod.splits) (metis snd_conv)+
  show "v = Some e \<Longrightarrow> is_gossip msg \<and> vouched (event_check ops) e"
    using assms vouched_check [of "event_check ops" g "event_cache_cap ops"]
    by (auto simp: verified_gossip_def split: plum_message.splits option.splits if_splits prod.splits)
  show "v \<noteq> None \<Longrightarrow> msg = Gossip i p r \<Longrightarrow> vouched_payload ops i p"
    using assms vouched_check [of "event_check ops" g "event_cache_cap ops"]
    by (auto simp: verified_gossip_def vouched_payload_def split: option.splits if_splits prod.splits)
  show "v = None \<Longrightarrow> g' = g"
    using assms(2) verify_event_no [of "event_check ops" "event_cache_cap ops"]
    by (auto simp: verified_gossip_def split: plum_message.splits option.splits if_splits prod.splits) (metis fst_conv snd_conv)+
qed

definition cache_vouched :: "'e event_ops \<Rightarrow> plum_node \<Rightarrow> bool" where
  "cache_vouched ops s \<longleftrightarrow> (\<forall>i p. bm_get i (payload_cache s) = Some p \<longrightarrow> vouched_payload ops i p)"

lemma bm_get_insert_old: "bm_get k (snd (bm_insert i p b)) = Some v \<Longrightarrow> k = i \<and> v = p \<or> bm_get k b = Some v"
  by (auto simp: bm_get_def bm_insert_def Let_def split: if_splits list.splits)

lemma handle_cache:
  assumes "bm_get k (payload_cache (snd (handle_incoming now from m s))) = Some v"
  shows "(\<exists>r. m = Gossip k v r) \<or> bm_get k (payload_cache s) = Some v"
proof (cases m)
  case (Gossip i p r)
  then show ?thesis using assms bm_get_insert_old [of k i p "payload_cache s" v] by (auto simp: demote_def Let_def split: if_splits)
next
  case (IHave i r)
  obtain w where "snd (consume_graft_credit now from s) = s\<lparr>graft_windows := w\<rparr>" using credit_frame [of now "from" s] by blast
  then show ?thesis using assms IHave by (auto split: if_splits prod.splits)
qed (use assms in \<open>auto simp: demote_def Let_def split: option.splits if_splits\<close>)

lemma handle_sends:
  assumes "(peer, Gossip i p r) \<in> set (fst (handle_incoming now from m s))"
  shows "(\<exists>r. m = Gossip i p r) \<or> bm_get i (payload_cache s) = Some p"
  using assms by (cases m) (auto simp: Let_def split: if_splits prod.splits option.splits)

lemma handle_vouched:
  assumes "cache_vouched ops s" "\<And>i p r. m = Gossip i p r \<Longrightarrow> vouched_payload ops i p"
  shows "cache_vouched ops (snd (handle_incoming now from m s))"
    and "(peer, Gossip i p r) \<in> set (fst (handle_incoming now from m s)) \<Longrightarrow> vouched_payload ops i p"
proof -
  show "cache_vouched ops (snd (handle_incoming now from m s))"
    using assms handle_cache unfolding cache_vouched_def by blast
  show "(peer, Gossip i p r) \<in> set (fst (handle_incoming now from m s)) \<Longrightarrow> vouched_payload ops i p"
    using assms handle_sends unfolding cache_vouched_def by blast
qed

definition bridge_ok :: "'e event_ops \<Rightarrow> 'e bridge \<Rightarrow> bool" where
  "bridge_ok ops b \<longleftrightarrow> plum_ok (br_node b) \<and> cache_vouched ops (br_node b)
     \<and> bs_ok (seen_gossip b) \<and> bs_capacity (seen_gossip b) = SEEN_GOSSIP_CAP
     \<and> (\<forall>e\<in>set (ingested b). vouched (event_check ops) e) \<and> cache_sound (event_check ops) (br_cache b)"

text \<open>The parts of the state after one message, and its outputs.\<close>

lemma process_gossip_parts:
  assumes "verified_gossip ops msg (br_cache b) = (v, g)"
  shows "br_node (snd (process_gossip ops now from msg b))
      = (if is_gossip msg \<and> v = None then br_node b else snd (handle_incoming now from msg (br_node b)))"
    and "fst (process_gossip ops now from msg b) = (if is_gossip msg \<and> v = None then [] else fst (handle_incoming now from msg (br_node b)))"
    and "seen_gossip (snd (process_gossip ops now from msg b))
      = (case v of None \<Rightarrow> seen_gossip b | Some e \<Rightarrow> snd (bs_insert (seen_key ops (self_peer_id (br_node b)) e) (seen_gossip b)))"
    and "ingested (snd (process_gossip ops now from msg b))
      = ingested b @ (case v of None \<Rightarrow> []
          | Some e \<Rightarrow> if fst (bs_insert (seen_key ops (self_peer_id (br_node b)) e) (seen_gossip b)) then [e] else [])"
    and "br_cache (snd (process_gossip ops now from msg b)) = g"
  using assms by (auto simp: process_gossip_def Let_def split: option.split prod.split)

text \<open>Besides the bridge, other components check events against the same cache, and it is cleared when memory is short.\<close>

inductive bridge_step :: "'e event_ops \<Rightarrow> 'e bridge \<Rightarrow> 'e bridge \<Rightarrow> bool" for ops where
  message: "bridge_step ops b (snd (process_gossip ops now from msg b))"
| peer_added: "bridge_step ops b (b\<lparr>br_node := add_peer peer (br_node b)\<rparr>)"
| peer_removed: "bridge_step ops b (b\<lparr>br_node := remove_peer peer (br_node b)\<rparr>)"
| checked_elsewhere: "bridge_step ops b (b\<lparr>br_cache := snd (verify_event_cached (event_check ops) (event_cache_cap ops) e (br_cache b))\<rparr>)"
| cache_cleared: "bridge_step ops b (b\<lparr>br_cache := clear_verified_cache (br_cache b)\<rparr>)"

lemma peers_keep_cache:
  "payload_cache (add_peer peer s) = payload_cache s" "payload_cache (remove_peer peer s) = payload_cache s"
  by (simp_all add: add_peer_def remove_peer_def)

lemma process_gossip_ok:
  assumes ok: "bridge_ok ops b"
  shows "bridge_ok ops (snd (process_gossip ops now from msg b))"
proof -
  obtain v g where v: "verified_gossip ops msg (br_cache b) = (v, g)" by fastforce
  note p = process_gossip_parts [OF v, of now "from"]
  have sound: "cache_sound (event_check ops) (br_cache b)" using ok by (simp add: bridge_ok_def)
  note vs = verified_gossip_sound [OF sound v]
  have "cache_vouched ops (snd (handle_incoming now from msg (br_node b)))" if "\<not> (is_gossip msg \<and> v = None)"
    using that ok vs(3) by (intro handle_vouched(1)) (auto simp: bridge_ok_def)
  then have "plum_ok (br_node (snd (process_gossip ops now from msg b))) \<and> cache_vouched ops (br_node (snd (process_gossip ops now from msg b)))"
    using ok handle_incoming_ok by (simp add: p bridge_ok_def)
  moreover have "bs_ok (seen_gossip (snd (process_gossip ops now from msg b)))
      \<and> bs_capacity (seen_gossip (snd (process_gossip ops now from msg b))) = SEEN_GOSSIP_CAP"
    using ok by (auto simp: p bridge_ok_def bs_insert_ok split: option.split)
  moreover have "\<forall>e\<in>set (ingested (snd (process_gossip ops now from msg b))). vouched (event_check ops) e"
    using ok vs(2) by (auto simp: p bridge_ok_def split: option.splits if_splits)
  ultimately show ?thesis using vs(1) by (simp add: bridge_ok_def p)
qed

lemma peers_ok_bridge:
  "bridge_ok ops b \<Longrightarrow> bridge_ok ops (b\<lparr>br_node := add_peer peer (br_node b)\<rparr>)"
  "bridge_ok ops b \<Longrightarrow> bridge_ok ops (b\<lparr>br_node := remove_peer peer (br_node b)\<rparr>)"
  by (simp_all add: bridge_ok_def add_peer_ok remove_peer_ok cache_vouched_def peers_keep_cache)

lemma cache_ok_bridge: "bridge_ok ops b \<Longrightarrow> cache_sound (event_check ops) g \<Longrightarrow> bridge_ok ops (b\<lparr>br_cache := g\<rparr>)"
  by (simp add: bridge_ok_def)

lemma bridge_ok_new: "cache_sound (event_check ops) g \<Longrightarrow> bridge_ok ops (bridge_new me g)"
  by (auto simp: bridge_ok_def bridge_new_def plum_ok_new bs_ok_new cache_vouched_def)
    (simp_all add: plum_new_def bm_new_def bm_get_def bs_new_def)

interpretation bridge: safe_machine "\<lambda>b. \<exists>me g. cache_sound (event_check ops) g \<and> b = bridge_new me g" "bridge_step ops" "bridge_ok ops" for ops
proof unfold_locales
  fix b b' :: "'a bridge" assume ok: "bridge_ok ops b" and "bridge_step ops b b'"
  from this(2) show "bridge_ok ops b'"
  proof cases
    case (checked_elsewhere e)
    then show ?thesis using ok cache_ok_bridge cache_sound_step by (auto simp: bridge_ok_def)
  next
    case cache_cleared
    then show ?thesis using cache_ok_bridge [OF ok] by (simp add: clear_verified_cache_def)
  qed (use ok process_gossip_ok peers_ok_bridge in simp_all)
qed (auto simp: bridge_ok_new)

text \<open>C8. Only events that the cache vouches for pass. In every state the bridge can reach from a fresh one by messages of any peers, by
  adding and removing peers, and by checks of other components: every payload it sends on, whether in answer to gossip or to a
  graft, is an event with the message id as its id that verifies or has the cache key of an event that does; the same holds of every
  event handed to ingestion, so with a hash without collisions it has the id and the signature of an event that verifies; and any other
  gossip has no effect at all.
\<close>

theorem gossip_only_verified:
  assumes "cache_sound (event_check ops) g" "(bridge_step ops)\<^sup>*\<^sup>* (bridge_new me g) b"
  shows "(\<forall>peer i p r. (peer, Gossip i p r) \<in> set (fst (process_gossip ops now from_peer msg b)) \<longrightarrow> vouched_payload ops i p)
    \<and> (\<forall>e\<in>set (ingested (snd (process_gossip ops now from_peer msg b))). vouched (event_check ops) e)
    \<and> (key_injective (event_check ops) \<longrightarrow> (\<forall>e\<in>set (ingested (snd (process_gossip ops now from_peer msg b))).
         \<exists>e0. ev_verify (event_check ops) e0 \<and> ev_id (event_check ops) e0 = ev_id (event_check ops) e
            \<and> ev_sig (event_check ops) e0 = ev_sig (event_check ops) e))
    \<and> (\<forall>i p r. msg = Gossip i p r \<and> \<not> vouched_payload ops i p \<longrightarrow> process_gossip ops now from_peer msg b = ([], b))"
proof -
  have ok: "bridge_ok ops b" using bridge.reachable_inv [OF _ assms(2)] assms(1) by blast
  obtain v c where v: "verified_gossip ops msg (br_cache b) = (v, c)" by fastforce
  have sound: "cache_sound (event_check ops) (br_cache b)" using ok by (simp add: bridge_ok_def)
  note vs = verified_gossip_sound [OF sound v]
  have sends: "vouched_payload ops i p" if "(peer, Gossip i p r) \<in> set (fst (process_gossip ops now from_peer msg b))" for peer i p r
  proof (rule handle_vouched(2))
    show "cache_vouched ops (br_node b)" using ok by (simp add: bridge_ok_def)
    show "(peer, Gossip i p r) \<in> set (fst (handle_incoming now from_peer msg (br_node b)))"
      using that by (simp add: process_gossip_parts [OF v] split: if_splits)
    show "vouched_payload ops j q" if "msg = Gossip j q t" for j q t
    proof -
      have "\<not> (is_gossip msg \<and> v = None)"
        using \<open>(peer, Gossip i p r) \<in> set (fst (process_gossip ops now from_peer msg b))\<close>
        by (auto simp: process_gossip_parts(2) [OF v] split: if_splits)
      then have "v \<noteq> None" using that by simp
      then show ?thesis using vs(3) that by blast
    qed
  qed
  have e: "\<forall>e\<in>set (ingested (snd (process_gossip ops now from_peer msg b))). vouched (event_check ops) e"
    using process_gossip_ok [OF ok] by (simp add: bridge_ok_def)
  have none: "process_gossip ops now from_peer msg b = ([], b)" if "msg = Gossip i p r" "\<not> vouched_payload ops i p" for i p r
  proof -
    have "v = None" using vs(3) that by blast
    then show ?thesis using v vs(4) that(1) by (simp add: process_gossip_def)
  qed
  have same: "\<exists>e0. ev_verify (event_check ops) e0 \<and> ev_id (event_check ops) e0 = ev_id (event_check ops) x
      \<and> ev_sig (event_check ops) e0 = ev_sig (event_check ops) x"
    if "key_injective (event_check ops)" "x \<in> set (ingested (snd (process_gossip ops now from_peer msg b)))" for x
    using vouched_same [OF that(1)] e that(2) by blast
  show ?thesis by (intro conjI allI impI ballI) (use sends e same none in \<open>blast+\<close>)
qed

text \<open>
  What the cache makes of the check: once an event was checked and accepted anywhere, gossip with its id and its signature passes with any
  other content, although the content does not verify.
\<close>

theorem gossip_forged_passes:
  assumes "ev_verify (event_check ops) e0" "parse_event ops p = Some e" "event_id ops e = i"
    and "ev_id (event_check ops) e = ev_id (event_check ops) e0" "ev_sig (event_check ops) e = ev_sig (event_check ops) e0"
  shows "\<exists>b'. bridge_step ops b b' \<and> fst (verified_gossip ops (Gossip i p r) (br_cache b')) = Some e"
proof -
  let ?g = "snd (verify_event_cached (event_check ops) (event_cache_cap ops) e0 (br_cache b))"
  have "fst (verify_event_cached (event_check ops) (event_cache_cap ops) e ?g)"
    using verify_cache_replay [OF _ assms(4,5)] assms(1) by (simp add: verify_event_yes)
  then have "fst (verified_gossip ops (Gossip i p r) ?g) = Some e"
    using assms(2,3) by (simp add: verified_gossip_def case_prod_beta)
  then show ?thesis using checked_elsewhere [of ops b e0] by (intro exI [of _ "b\<lparr>br_cache := ?g\<rparr>"]) simp
qed

text \<open>
  An event of the examples is its text; its id is its first character, its signature the rest, and it verifies if that is not empty.
\<close>

definition sample_check :: "string event_prims" where
  "sample_check = \<lparr>ev_id = (\<lambda>s. bytes_of (take 1 s)), ev_sig = (\<lambda>s. bytes_of (drop 1 s)), ev_verify = (\<lambda>s. 2 \<le> length s), ev_sha256 = (\<lambda>b. b)\<rparr>"

definition sample_events :: "string event_ops" where
  "sample_events = \<lparr>parse_event = (\<lambda>s. if s = '''' then None else Some s), event_id = take 1, event_check = sample_check,
     event_cache_cap = 50000\<rparr>"

lemmas sample_verify_defs = sample_check_def verify_event_cached_def compute_verify_cache_key_def cache_remember_def
  with_capacity_def cache_cap_def

definition sample_bridge :: "string bridge" where
  "sample_bridge = snd (process_gossip sample_events 0 ''peer1'' (Gossip ''a'' ''ab'' 0)
     ((bridge_new ''me'' None)\<lparr>br_node := add_peer ''peer2'' (br_node (bridge_new ''me'' None :: string bridge))\<rparr>))"

lemma sample_bridge_reachable: "(bridge_step sample_events)\<^sup>*\<^sup>* (bridge_new ''me'' None) sample_bridge"
  unfolding sample_bridge_def
  by (rule rtranclp.rtrancl_into_rtrancl [OF r_into_rtranclp], rule peer_added, rule message)

lemma sample_graft: "fst (process_gossip sample_events 5 ''peer3'' (Graft ''a'') sample_bridge) = [(''peer3'', Gossip ''a'' ''ab'' 0)]"
  by (simp add: sample_bridge_def process_gossip_def sample_events_def verified_gossip_def sample_verify_defs bridge_new_def plum_new_def add_peer_def
      bs_new_def bm_new_def bs_insert_def bm_insert_def bs_contains_def bm_remove_def bm_get_def hm_has_def hs_insert_def bs_trim.simps Let_def)

theorem gossip_only_verified_witness:
  "fst (process_gossip sample_events 5 ''peer3'' (Graft ''a'') sample_bridge) = [(''peer3'', Gossip ''a'' ''ab'' 0)]
   \<and> vouched_payload sample_events ''a'' ''ab''"
  using gossip_only_verified [OF cache_sound_None sample_bridge_reachable, of 5 "''peer3''" "Graft ''a''"] sample_graft by auto

subsection \<open>Ingested once\<close>

fun keys_of :: "'e event_ops \<Rightarrow> string \<Rightarrow> (nat \<times> string \<times> plum_message) list \<Rightarrow> verified_cache option \<Rightarrow> string list" where
  "keys_of ops me [] g = []"
| "keys_of ops me ((now, from_peer, msg) # ms) g =
     (case verified_gossip ops msg g of (v, g1) \<Rightarrow> (case v of None \<Rightarrow> [] | Some e \<Rightarrow> [seen_key ops me e]) @ keys_of ops me ms g1)"

lemma length_keys_of: "length (keys_of ops me ms g) \<le> length ms"
  by (induction ops me ms g rule: keys_of.induct) (auto split: option.split prod.split intro: le_SucI)

lemma process_gossip_self: "self_peer_id (br_node (snd (process_gossip ops now from msg b))) = self_peer_id (br_node b)"
  using process_gossip_parts(1) [of ops msg b] by (metis handle_incoming_self prod.collapse)

lemma process_all_seen:
  "seen_gossip (snd (process_all ops ms b))
     = fold (\<lambda>k s. snd (bs_insert k s)) (keys_of ops (self_peer_id (br_node b)) ms (br_cache b)) (seen_gossip b)
   \<and> self_peer_id (br_node (snd (process_all ops ms b))) = self_peer_id (br_node b)"
proof (induction ops ms b rule: process_all.induct)
  case (2 ops now from_peer msg ms b)
  obtain v g where v: "verified_gossip ops msg (br_cache b) = (v, g)" by fastforce
  obtain out b1 where b1: "process_gossip ops now from_peer msg b = (out, b1)" by fastforce
  then have "seen_gossip b1 = (case v of None \<Rightarrow> seen_gossip b
        | Some e \<Rightarrow> snd (bs_insert (seen_key ops (self_peer_id (br_node b)) e) (seen_gossip b)))"
    "self_peer_id (br_node b1) = self_peer_id (br_node b)" "br_cache b1 = g"
    using process_gossip_parts(3,5) [OF v, of now from_peer] process_gossip_self [of ops now from_peer msg b] by simp_all
  then show ?case using 2 [OF b1 [symmetric]] b1 v by (auto split: prod.split option.split)
qed simp

text \<open>A verified event is ingested once while it is remembered. In every reachable state, after a message whose event was
  handed to ingestion and fewer than 10,000 further messages after it, any message that carries an event with the same id adds
  nothing to what is handed to ingestion.\<close>

theorem gossip_ingested_once:
  assumes "cache_sound (event_check ops) g" "(bridge_step ops)\<^sup>*\<^sup>* (bridge_new me g) b"
    and "fst (verified_gossip ops msg (br_cache b)) = Some e" "ingested (snd (process_gossip ops now from_peer msg b)) = ingested b @ [e]"
    and "length ms < SEEN_GOSSIP_CAP" "process_all ops ((now, from_peer, msg) # ms) b = (outs, b')"
    and "fst (verified_gossip ops msg' (br_cache b')) = Some e'" "event_id ops e' = event_id ops e"
  shows "ingested (snd (process_gossip ops now' from_peer' msg' b')) = ingested b'"
proof -
  have ok: "bridge_ok ops b" using bridge.reachable_inv [OF _ assms(2)] assms(1) by blast
  obtain c where v: "verified_gossip ops msg (br_cache b) = (Some e, c)" using assms(3) by (metis prod.collapse)
  obtain c' where v': "verified_gossip ops msg' (br_cache b') = (Some e', c')" using assms(7) by (metis prod.collapse)
  let ?me = "self_peer_id (br_node b)"
  let ?ins = "\<lambda>k s. snd (bs_insert k s)" and ?k = "seen_key ops ?me e" and ?ks = "keys_of ops ?me ms c"
  have seen: "seen_gossip b' = fold ?ins ?ks (?ins ?k (seen_gossip b))" and me: "self_peer_id (br_node b') = ?me"
    using process_all_seen [of ops "(now, from_peer, msg) # ms" b] assms(6) v by simp_all
  have bs: "bs_ok (seen_gossip b)" "bs_capacity (seen_gossip b) = SEEN_GOSSIP_CAP" using ok by (simp_all add: bridge_ok_def)
  have "fst (bs_insert ?k (seen_gossip b))"
    using assms(4) process_gossip_parts(4) [OF v] by (simp split: if_splits)
  then have "?k \<notin> set (bs_order (seen_gossip b))" using bs_insert_refines [OF bs(1)] by blast
  then have "bs_contains ?k (fold ?ins ?ks (?ins ?k (seen_gossip b)))"
    using bset.window [OF bs(1), of ?ks ?k] length_keys_of [of ops ?me ms c] assms(5) bs(2) by simp
  then have "\<not> fst (bs_insert ?k (seen_gossip b'))" using seen by (simp add: bs_insert_def bs_contains_def)
  moreover have "seen_key ops ?me e' = ?k" using assms(8) by (simp add: seen_key_def)
  ultimately show ?thesis using process_gossip_parts(4) [OF v'] me by simp
qed

lemma sample_ingest:
  "ingested (snd (process_gossip sample_events 7 ''peer1'' (Gossip ''b'' ''bc'' 0) sample_bridge)) = ingested sample_bridge @ [''bc'']"
  by (simp add: sample_bridge_def process_gossip_def sample_events_def verified_gossip_def sample_verify_defs bridge_new_def plum_new_def add_peer_def
      bs_new_def bm_new_def bs_insert_def bm_insert_def bs_contains_def bm_remove_def bm_get_def hm_has_def hs_insert_def bs_trim.simps
      seen_key_def Let_def)

lemma sample_verified: "2 \<le> length p \<Longrightarrow> fst (verified_gossip sample_events (Gossip (take 1 p) p r) g) = Some p"
  by (cases p) (auto simp: verified_gossip_def case_prod_beta verify_event_yes sample_events_def sample_check_def)

theorem gossip_ingested_once_witness:
  "let b' = snd (process_all sample_events [(7, ''peer1'', Gossip ''b'' ''bc'' 0), (8, ''peer3'', Prune ''a'')] sample_bridge)
   in ingested (snd (process_gossip sample_events 9 ''peer2'' (Gossip ''b'' ''bd'' 3) b')) = ingested b'"
proof -
  let ?ms = "[(7, ''peer1'', Gossip ''b'' ''bc'' 0), (8, ''peer3'', Prune ''a'')]"
  have run: "process_all sample_events ?ms sample_bridge
      = (fst (process_all sample_events ?ms sample_bridge), snd (process_all sample_events ?ms sample_bridge))" by simp
  have first: "fst (verified_gossip sample_events (Gossip ''b'' ''bc'' 0) (br_cache sample_bridge)) = Some ''bc''"
    using sample_verified [of "''bc''" 0] by simp
  have again: "fst (verified_gossip sample_events (Gossip ''b'' ''bd'' 3) (br_cache (snd (process_all sample_events ?ms sample_bridge)))) = Some ''bd''"
    using sample_verified [of "''bd''" 3] by simp
  have "event_id sample_events ''bd'' = event_id sample_events ''bc''" by (simp add: sample_events_def)
  from gossip_ingested_once [OF cache_sound_None sample_bridge_reachable first sample_ingest _ run again this, of 9 "''peer2''"]
  show ?thesis by (simp add: Let_def)
qed

end
