(* ===== verification/Prolly.thy ===== *)
theory Prolly
  imports Tables "HOL-Library.Word"
begin

section \<open>Prolly trees and their synchronisation (sync-core/src/prolly\_tree.rs, prolly\_sync.rs)\<close>

text \<open>
  A prolly tree cuts the sorted key-value pairs of a store into nodes at content-defined boundaries, hashes each node, and
  repeats this on the list of nodes until one is left. A session compares root hashes with a peer and asks for the keys it
  lacks. SHA-256 and the hex encoder are the parameters \<open>sha\<close> and \<open>hexe\<close>; nothing is assumed of them. The level is a
  \<open>u32\<close> whose overflow panics, which bounds the number of rounds.

  Shown: no pair is lost or reordered by the cut, and nodes are never empty or over the cap; the boundary test without
  allocation is the one on the joined bytes; what a session asks for; and two ways in which peers with different stores agree.
\<close>

abbreviation GEAR_MASK :: "32 word" where "GEAR_MASK \<equiv> 0x0FFF"

record prolly_node =
  pn_level :: nat
  pn_hash :: string
  pn_keys :: "string list"
  pn_children :: "string list"

record prolly_tree =
  root_hash :: string
  pt_nodes :: "prolly_node list"

definition gear_step :: "byte \<Rightarrow> 32 word \<Rightarrow> 32 word" where
  "gear_step b hash = push_bit 1 hash + ucast b"

definition gear_hash :: "byte list \<Rightarrow> 32 word" where
  "gear_hash bs = fold gear_step bs 0"

definition is_kv_boundary :: "string \<Rightarrow> string \<Rightarrow> bool" where
  "is_kv_boundary k v \<longleftrightarrow>
     (let hash1 = fold gear_step (bytes_of k) 0;
          hash2 = gear_step 0x3A hash1;
          hash3 = fold gear_step (bytes_of v) hash2
      in and hash3 GEAR_MASK = 0)"

definition is_boundary :: "byte list \<Rightarrow> bool" where
  "is_boundary bs \<longleftrightarrow> and (gear_hash bs) GEAR_MASK = 0"

definition compute_node_hash ::
    "(byte list \<Rightarrow> byte list) \<Rightarrow> (byte list \<Rightarrow> string) \<Rightarrow> nat \<Rightarrow> string list \<Rightarrow> string list \<Rightarrow> string" where
  "compute_node_hash sha hexe level keys children =
     hexe (sha (be_bytes 4 level @ concat (map bytes_of keys) @ concat (map bytes_of children)))"

definition mk_node ::
    "(byte list \<Rightarrow> byte list) \<Rightarrow> (byte list \<Rightarrow> string) \<Rightarrow> nat \<Rightarrow> string list \<Rightarrow> string list \<Rightarrow> prolly_node" where
  "mk_node sha hexe level ks vs =
     \<lparr>pn_level = level, pn_hash = compute_node_hash sha hexe level ks vs, pn_keys = ks, pn_children = vs\<rparr>"

text \<open>The inner loop of \<open>build\<close>, with the chunk collected so far.\<close>

fun level_nodes ::
    "(byte list \<Rightarrow> byte list) \<Rightarrow> (byte list \<Rightarrow> string) \<Rightarrow> nat \<Rightarrow> string list \<Rightarrow> string list \<Rightarrow> (string \<times> string) list \<Rightarrow> prolly_node list" where
  "level_nodes sha hexe level ck cv [] = (if ck = [] then [] else [mk_node sha hexe level ck cv])"
| "level_nodes sha hexe level ck cv ((k, v) # kvs) =
     (if is_kv_boundary k v \<or> length (ck @ [k]) \<ge> 100
      then mk_node sha hexe level (ck @ [k]) (cv @ [v]) # level_nodes sha hexe level [] [] kvs
      else level_nodes sha hexe level (ck @ [k]) (cv @ [v]) kvs)"

definition next_level :: "prolly_node list \<Rightarrow> (string \<times> string) list" where
  "next_level nodes = map (\<lambda>n. (case pn_keys n of [] \<Rightarrow> pn_hash n | k # _ \<Rightarrow> k, pn_hash n)) nodes"

function build_loop ::
    "(byte list \<Rightarrow> byte list) \<Rightarrow> (byte list \<Rightarrow> string) \<Rightarrow> nat \<Rightarrow> (string \<times> string) list \<Rightarrow> prolly_node list \<Rightarrow> prolly_tree res" where
  "build_loop sha hexe level kvs all_nodes =
     (let nodes = level_nodes sha hexe level [] [] kvs in
      if length nodes = 1 then Ok \<lparr>root_hash = pn_hash (hd nodes), pt_nodes = all_nodes @ nodes\<rparr>
      else if level \<ge> U32_MAX then Panic
      else build_loop sha hexe (level + 1) (next_level nodes) (all_nodes @ nodes))"
  by pat_completeness auto
termination
  by (relation "measure (\<lambda>(sha, hexe, level, kvs, all_nodes). U32_MAX - level)") auto

declare build_loop.simps [simp del]

definition build :: "(byte list \<Rightarrow> byte list) \<Rightarrow> (byte list \<Rightarrow> string) \<Rightarrow> (string \<times> string) list \<Rightarrow> prolly_tree res" where
  "build sha hexe kv_pairs =
     (if kv_pairs = [] then
        let empty_hash = compute_node_hash sha hexe 0 [] []
        in Ok \<lparr>root_hash = empty_hash, pt_nodes = [\<lparr>pn_level = 0, pn_hash = empty_hash, pn_keys = [], pn_children = []\<rparr>]\<rparr>
      else build_loop sha hexe 0 kv_pairs [])"

subsection \<open>Sessions\<close>

abbreviation MAX_KEYS_PER_BRANCH :: nat where "MAX_KEYS_PER_BRANCH \<equiv> 10000"
abbreviation MAX_MISSING_KEYS_TOTAL :: nat where "MAX_MISSING_KEYS_TOTAL \<equiv> 100000"

datatype prolly_message =
    RootExchange (exchanged_root: string)
  | Match
  | RequestBranch (branch_level: nat) (branch_hash: string)
  | ResponseBranch (branch_hash: string) (branch_keys: "string list") (branch_children: "string list")
  | RequestDeltas (missing_ids: "string list")
  | ResponseDeltas (delta_payload: string)
  | ResponsePatch (patch_base: string) (patch_new: string) (patch_b64: string) (patch_full: "string option")

record prolly_session =
  local_tree :: prolly_tree
  peer_root_hash :: "string option"
  missing_keys :: "string list"
  node_index :: "(string, nat) hmap"
  local_key_set :: "string list"

definition session_new :: "prolly_tree \<Rightarrow> prolly_session" where
  "session_new tree =
     \<lparr>local_tree = tree, peer_root_hash = None, missing_keys = [],
      node_index = fold (\<lambda>(i, n) m. hm_put (pn_hash n) i m) (enumerate 0 (pt_nodes tree)) [],
      local_key_set = fold hs_insert (concat (map pn_keys (pt_nodes tree))) []\<rparr>"

text \<open>The result of one message; an index out of range would panic.\<close>

definition handle_message :: "prolly_message \<Rightarrow> prolly_session \<Rightarrow> (prolly_message option \<times> prolly_session) res" where
  "handle_message msg s =
     (case msg of
        RootExchange root \<Rightarrow>
          (let s1 = s\<lparr>peer_root_hash := Some root\<rparr>
           in Ok (Some (if root = root_hash (local_tree s) then Match else RequestBranch 0 root), s1))
      | Match \<Rightarrow> Ok (None, s)
      | RequestBranch level h \<Rightarrow>
          (case map_of (node_index s) h of
             Some idx \<Rightarrow>
               if idx < length (pt_nodes (local_tree s))
               then Ok (Some (ResponseBranch h (pn_keys (pt_nodes (local_tree s) ! idx)) (pn_children (pt_nodes (local_tree s) ! idx))), s)
               else Panic
           | None \<Rightarrow> Ok (None, s))
      | ResponseBranch h keys children \<Rightarrow>
          if length keys > MAX_KEYS_PER_BRANCH then Ok (None, s)
          else
            let missing = filter (\<lambda>k. k \<notin> set (local_key_set s) \<and> k \<notin> set (missing_keys s))
                            (filter (\<lambda>k. k \<noteq> '''' \<and> length k \<le> 128) keys)
            in if missing \<noteq> [] then
                 if length (missing_keys s) + length missing > MAX_MISSING_KEYS_TOTAL then Ok (None, s)
                 else Ok (Some (RequestDeltas missing), s\<lparr>missing_keys := missing_keys s @ missing\<rparr>)
               else Ok (Some Match, s)
      | RequestDeltas ids \<Rightarrow> Ok (None, s)
      | ResponseDeltas p \<Rightarrow> Ok (None, s)
      | ResponsePatch b n p f \<Rightarrow> Ok (None, s))"



subsection \<open>The cut\<close>

lemma kv_boundary_joined: "is_kv_boundary k v \<longleftrightarrow> is_boundary (bytes_of (k @ '':'' @ v))"
proof -
  have "bytes_of '':'' = [0x3A]" by code_simp
  then have "bytes_of (CHR '':'' # v) = 0x3A # bytes_of v" using bytes_of_append [of "'':''" v] by simp
  then show ?thesis by (simp add: is_kv_boundary_def is_boundary_def gear_hash_def)
qed

definition prolly_node_ok :: "(byte list \<Rightarrow> byte list) \<Rightarrow> (byte list \<Rightarrow> string) \<Rightarrow> prolly_node \<Rightarrow> bool" where
  "prolly_node_ok sha hexe n \<longleftrightarrow>
     pn_hash n = compute_node_hash sha hexe (pn_level n) (pn_keys n) (pn_children n)
     \<and> length (pn_children n) = length (pn_keys n) \<and> length (pn_keys n) \<le> 100"

lemma level_nodes_spec:
  assumes "length ck < 100" "length cv = length ck"
  shows "concat (map pn_keys (level_nodes sha hexe level ck cv kvs)) = ck @ map fst kvs"
    and "concat (map pn_children (level_nodes sha hexe level ck cv kvs)) = cv @ map snd kvs"
    and "\<forall>n\<in>set (level_nodes sha hexe level ck cv kvs). prolly_node_ok sha hexe n \<and> pn_level n = level \<and> pn_keys n \<noteq> []"
  using assms
proof (induction sha hexe level ck cv kvs rule: level_nodes.induct)
  case (2 sha hexe level ck cv k v kvs)
  {
    case 1
    then show ?case using 2 by (cases "is_kv_boundary k v \<or> length (ck @ [k]) \<ge> 100") (simp_all add: mk_node_def)
  next
    case 2
    then show ?case using "2.IH" by (cases "is_kv_boundary k v \<or> length (ck @ [k]) \<ge> 100") (simp_all add: mk_node_def)
  next
    case 3
    then show ?case using 2
      by (cases "is_kv_boundary k v \<or> length (ck @ [k]) \<ge> 100") (simp_all add: mk_node_def prolly_node_ok_def)
  }
qed (auto simp: mk_node_def prolly_node_ok_def)

lemmas first_level = level_nodes_spec [of "[]" "[]", simplified]

lemma level_nodes_nonempty: "kvs \<noteq> [] \<Longrightarrow> level_nodes sha hexe level [] [] kvs \<noteq> []"
  using first_level(1) [of sha hexe level kvs] by auto

lemma next_level_keys:
  assumes "\<forall>n\<in>set nodes. pn_keys n \<noteq> []"
  shows "set (map fst (next_level nodes)) \<subseteq> set (concat (map pn_keys nodes))"
proof
  fix k assume "k \<in> set (map fst (next_level nodes))"
  then obtain n where "n \<in> set nodes" "k = (case pn_keys n of [] \<Rightarrow> pn_hash n | k # _ \<Rightarrow> k)" by (auto simp: next_level_def)
  then show "k \<in> set (concat (map pn_keys nodes))" using assms by (cases "pn_keys n") (auto intro: bexI [of _ n])
qed

text \<open>The rounds only add nodes of higher levels over the same keys, and the last one is the root.\<close>

lemma build_loop_spec:
  assumes "build_loop sha hexe level kvs acc = Ok t" "kvs \<noteq> []"
  shows "\<exists>upper. pt_nodes t = acc @ level_nodes sha hexe level [] [] kvs @ upper
    \<and> (\<forall>n\<in>set upper. prolly_node_ok sha hexe n \<and> pn_level n > level \<and> pn_keys n \<noteq> [] \<and> set (pn_keys n) \<subseteq> set (map fst kvs))
    \<and> root_hash t = pn_hash (last (pt_nodes t))"
  using assms
proof (induction sha hexe level kvs acc rule: build_loop.induct)
  case (1 sha hexe level kvs acc)
  let ?N = "level_nodes sha hexe level [] [] kvs"
  have ne: "?N \<noteq> []" using level_nodes_nonempty [OF 1(3)] .
  show ?case
  proof (cases "length ?N = 1")
    case True
    then obtain n where "?N = [n]" by (auto simp: length_Suc_conv)
    then show ?thesis using 1(2) by (auto simp: build_loop.simps [of sha hexe level kvs acc] Let_def)
  next
    case False
    then have lvl: "\<not> level \<ge> U32_MAX" and rec: "build_loop sha hexe (level + 1) (next_level ?N) (acc @ ?N) = Ok t"
      using 1(2) by (auto simp: build_loop.simps [of sha hexe level kvs acc] Let_def split: if_splits)
    have "next_level ?N \<noteq> []" using ne by (simp add: next_level_def)
    from 1(1) [OF refl False lvl rec this] obtain upper where u:
      "pt_nodes t = (acc @ ?N) @ level_nodes sha hexe (level + 1) [] [] (next_level ?N) @ upper"
      "\<forall>n\<in>set upper. prolly_node_ok sha hexe n \<and> pn_level n > level + 1 \<and> pn_keys n \<noteq> [] \<and> set (pn_keys n) \<subseteq> set (map fst (next_level ?N))"
      "root_hash t = pn_hash (last (pt_nodes t))" by blast
    have sub: "set (map fst (next_level ?N)) \<subseteq> set (map fst kvs)"
      using next_level_keys [of ?N] first_level(1,3) [of sha hexe level kvs] by simp
    let ?M = "level_nodes sha hexe (level + 1) [] [] (next_level ?N)"
    have "set (pn_keys n) \<subseteq> set (map fst (next_level ?N))" if "n \<in> set ?M" for n
      using that first_level(1) [of sha hexe "level + 1" "next_level ?N"] by (metis UN_upper set_concat set_map imageI Sup_upper)
    then have "\<forall>n\<in>set (?M @ upper). prolly_node_ok sha hexe n \<and> pn_level n > level \<and> pn_keys n \<noteq> [] \<and> set (pn_keys n) \<subseteq> set (map fst kvs)"
      using u(2) sub first_level(3) [of sha hexe "level + 1" "next_level ?N"] by fastforce
    then show ?thesis using u(1,3) by (intro exI [of _ "?M @ upper"]) simp
  qed
qed


lemma build_keys:
  assumes "build sha hexe kvs = Ok t"
  shows "set (concat (map pn_keys (pt_nodes t))) = set (map fst kvs)" and "root_hash t = pn_hash (last (pt_nodes t))"
    and "pt_nodes t \<noteq> []" and "\<forall>n\<in>set (pt_nodes t). prolly_node_ok sha hexe n"
proof -
  have "set (concat (map pn_keys (pt_nodes t))) = set (map fst kvs) \<and> root_hash t = pn_hash (last (pt_nodes t)) \<and> pt_nodes t \<noteq> []
    \<and> (\<forall>n\<in>set (pt_nodes t). prolly_node_ok sha hexe n)"
  proof (cases "kvs = []")
    case True
    then show ?thesis using assms by (auto simp: build_def Let_def prolly_node_ok_def)
  next
    case False
    then have "build_loop sha hexe 0 kvs [] = Ok t" using assms by (simp add: build_def)
    from build_loop_spec [OF this False] obtain upper where u: "pt_nodes t = level_nodes sha hexe 0 [] [] kvs @ upper"
      "\<forall>n\<in>set upper. prolly_node_ok sha hexe n \<and> pn_level n > 0 \<and> pn_keys n \<noteq> [] \<and> set (pn_keys n) \<subseteq> set (map fst kvs)"
      "root_hash t = pn_hash (last (pt_nodes t))" by auto
    have "set (concat (map pn_keys upper)) \<subseteq> set (map fst kvs)" using u(2) by fastforce
    moreover have "set (concat (map pn_keys (level_nodes sha hexe 0 [] [] kvs))) = set (map fst kvs)" using first_level(1) by metis
    ultimately have "set (concat (map pn_keys (pt_nodes t))) = set (map fst kvs)" unfolding u(1) by auto
    then show ?thesis using u first_level(3) level_nodes_nonempty [OF False] by auto
  qed
  then show "set (concat (map pn_keys (pt_nodes t))) = set (map fst kvs)" "root_hash t = pn_hash (last (pt_nodes t))"
    "pt_nodes t \<noteq> []" "\<forall>n\<in>set (pt_nodes t). prolly_node_ok sha hexe n" by blast+
qed

lemma fold_hs_insert: "set (fold hs_insert xs acc) = set acc \<union> set xs"
  by (induction xs arbitrary: acc) (auto simp: hs_insert_def)

lemma index_of_last:
  assumes "ns \<noteq> []"
  shows "map_of (fold (\<lambda>(i, n) m. hm_put (pn_hash n) i m) (enumerate a ns) m) (pn_hash (last ns)) = Some (a + length ns - 1)"
proof -
  obtain xs x where ns: "ns = xs @ [x]" using assms by (metis append_butlast_last_id)
  then show ?thesis by (simp add: enumerate_append_eq)
qed

subsection \<open>What two peers exchange\<close>

text \<open>The exchange in which the holder of \<open>t1\<close> hears the root of \<open>t2\<close>: the ids it finally asks for.\<close>

definition exchange :: "prolly_tree \<Rightarrow> prolly_tree \<Rightarrow> prolly_message option res" where
  "exchange t1 t2 =
     and_then (handle_message (RootExchange (root_hash t2)) (session_new t1)) (\<lambda>(m1, s1).
     case m1 of
       Some (RequestBranch l h) \<Rightarrow>
         and_then (handle_message (RequestBranch l h) (session_new t2)) (\<lambda>(m2, s2).
         case m2 of
           Some branch \<Rightarrow> and_then (handle_message branch s1) (\<lambda>(m3, s3). Ok m3)
         | None \<Rightarrow> Ok None)
     | _ \<Rightarrow> Ok m1)"

lemma handle_branch:
  assumes "length ks \<le> 100" "set (local_key_set s) = L" "missing_keys s = []"
  shows "\<exists>s'. handle_message (ResponseBranch h ks cs) s
    = Ok (Some (let missing = filter (\<lambda>k. k \<noteq> '''' \<and> length k \<le> 128 \<and> k \<notin> L) ks
       in if missing = [] then Match else RequestDeltas missing), s')"
proof -
  let ?m = "filter (\<lambda>k. k \<noteq> '''' \<and> length k \<le> 128 \<and> k \<notin> L) ks"
  have "length ?m \<le> length ks" by simp
  then have len: "length ?m \<le> 100000" "\<not> length ks > 10000" using assms(1) by linarith+
  have "filter (\<lambda>k. k \<notin> set (local_key_set s) \<and> k \<notin> set (missing_keys s)) (filter (\<lambda>k. k \<noteq> '''' \<and> length k \<le> 128) ks) = ?m"
    using assms(2,3) by (simp add: conj_assoc)
  then show ?thesis using len assms(3) unfolding handle_message_def Let_def by (auto simp: not_less)
qed

text \<open>C20. What synchronisation finds. Whenever the stores of two peers give different roots, the peer that hears the other's root
  asks for exactly those keys of the other's \<^emph>\<open>root node\<close> that it does not hold (empty keys and keys over 128 bytes apart),
  and reports a match if there are none. Keys of the other store that only occur below the root are not asked for: no branch is ever
  followed.\<close>

theorem prolly_exchange:
  assumes "build sha hexe kv1 = Ok t1" "build sha hexe kv2 = Ok t2" "root_hash t1 \<noteq> root_hash t2"
  shows "exchange t1 t2
    = (let missing = filter (\<lambda>k. k \<noteq> '''' \<and> length k \<le> 128 \<and> k \<notin> set (map fst kv1)) (pn_keys (last (pt_nodes t2)))
       in Ok (Some (if missing = [] then Match else RequestDeltas missing)))"
proof -
  note b1 = build_keys [OF assms(1)] and b2 = build_keys [OF assms(2)]
  have idx: "map_of (node_index (session_new t2)) (root_hash t2) = Some (length (pt_nodes t2) - 1)"
    using index_of_last [OF b2(3), of 0 "[]"] b2(2) by (simp add: session_new_def)
  have last: "pt_nodes t2 ! (length (pt_nodes t2) - 1) = last (pt_nodes t2)" using b2(3) by (simp add: last_conv_nth)
  have len: "length (pn_keys (last (pt_nodes t2))) \<le> 100" using b2(3,4) by (simp add: prolly_node_ok_def)
  have s1: "set (local_key_set ((session_new t1)\<lparr>peer_root_hash := Some (root_hash t2)\<rparr>)) = set (map fst kv1)"
    "missing_keys ((session_new t1)\<lparr>peer_root_hash := Some (root_hash t2)\<rparr>) = []"
    using b1(1) by (simp_all add: session_new_def fold_hs_insert)
  obtain s' where branch: "handle_message (ResponseBranch (root_hash t2) (pn_keys (last (pt_nodes t2))) (pn_children (last (pt_nodes t2))))
      ((session_new t1)\<lparr>peer_root_hash := Some (root_hash t2)\<rparr>)
    = Ok (Some (let missing = filter (\<lambda>k. k \<noteq> '''' \<and> length k \<le> 128 \<and> k \<notin> set (map fst kv1)) (pn_keys (last (pt_nodes t2)))
       in if missing = [] then Match else RequestDeltas missing), s')"
    using handle_branch [OF len s1] by blast
  have "handle_message (RootExchange (root_hash t2)) (session_new t1)
      = Ok (Some (RequestBranch 0 (root_hash t2)), (session_new t1)\<lparr>peer_root_hash := Some (root_hash t2)\<rparr>)"
    using assms(3) by (simp add: handle_message_def session_new_def)
  moreover have "handle_message (RequestBranch 0 (root_hash t2)) (session_new t2)
      = Ok (Some (ResponseBranch (root_hash t2) (pn_keys (last (pt_nodes t2))) (pn_children (last (pt_nodes t2)))), session_new t2)"
    using idx last b2(3) by (simp add: handle_message_def) (simp add: session_new_def)
  ultimately show ?thesis using branch by (simp add: exchange_def Let_def)
qed


text \<open>A store with a boundary after its first pair: the root lists the first keys of the two nodes below it, and the third key
  is not found.\<close>

definition sample_sha :: "byte list \<Rightarrow> byte list" where
  "sample_sha bs = bs @ [1]"

definition sample_kv :: "(string \<times> string) list" where
  "sample_kv = [(''a'', str_of [0, 0, 0, 0, 0, 0, 0, 0, 0, 0, 0, 0]), (''b'', ''x'')]"

lemma sample_bytes:
  "bytes_of ''a'' = [97]" "bytes_of ''b'' = [98]" "bytes_of ''c'' = [99]" "bytes_of ''x'' = [120]" "bytes_of ''y'' = [121]"
  by code_simp+

lemma sample_level_bytes: "be_bytes 4 0 = [0, 0, 0, 0]" "be_bytes 4 (Suc 0) = [0, 0, 0, 1]"
proof -
  have four: "(4::nat) = Suc (Suc (Suc (Suc 0)))" by simp
  show "be_bytes 4 0 = [0, 0, 0, 0]" "be_bytes 4 (Suc 0) = [0, 0, 0, 1]"
    unfolding four be_bytes.simps by simp_all
qed

lemma sample_hashes:
  "bytes_of (compute_node_hash sample_sha str_of 0 [''a''] [str_of [0, 0, 0, 0, 0, 0, 0, 0, 0, 0, 0, 0]])
     = [0, 0, 0, 0, 97, 0, 0, 0, 0, 0, 0, 0, 0, 0, 0, 0, 0, 1]"
  "bytes_of (compute_node_hash sample_sha str_of 0 [''b''] [''x'']) = [0, 0, 0, 0, 98, 120, 1]"
  "bytes_of (compute_node_hash sample_sha str_of 0 [''b'', ''c''] [''x'', ''y'']) = [0, 0, 0, 0, 98, 99, 120, 121, 1]"
  by (simp_all add: compute_node_hash_def sample_sha_def sample_bytes sample_level_bytes)

lemma sample_boundaries:
  "is_kv_boundary ''a'' (str_of [0, 0, 0, 0, 0, 0, 0, 0, 0, 0, 0, 0])" "\<not> is_kv_boundary ''b'' ''x''" "\<not> is_kv_boundary ''c'' ''y''"
  "\<not> is_kv_boundary ''a'' (compute_node_hash sample_sha str_of 0 [''a''] [str_of [0, 0, 0, 0, 0, 0, 0, 0, 0, 0, 0, 0]])"
  "\<not> is_kv_boundary ''b'' (compute_node_hash sample_sha str_of 0 [''b''] [''x''])"
  "\<not> is_kv_boundary ''b'' (compute_node_hash sample_sha str_of 0 [''b'', ''c''] [''x'', ''y''])"
  unfolding is_kv_boundary_def sample_bytes sample_hashes by (simp_all add: gear_step_def)

lemma sample_levels:
  "level_nodes sample_sha str_of 0 [] [] sample_kv
     = [mk_node sample_sha str_of 0 [''a''] [str_of [0, 0, 0, 0, 0, 0, 0, 0, 0, 0, 0, 0]], mk_node sample_sha str_of 0 [''b''] [''x'']]"
  "level_nodes sample_sha str_of 0 [] [] (sample_kv @ [(''c'', ''y'')])
     = [mk_node sample_sha str_of 0 [''a''] [str_of [0, 0, 0, 0, 0, 0, 0, 0, 0, 0, 0, 0]], mk_node sample_sha str_of 0 [''b'', ''c''] [''x'', ''y'']]"
  by (simp_all add: sample_kv_def sample_boundaries)

lemma sample_upper:
  "map (\<lambda>n. (pn_keys n, bytes_of (pn_hash n))) (level_nodes sample_sha str_of 1 [] []
      (next_level (level_nodes sample_sha str_of 0 [] [] sample_kv)))
     = [([''a'', ''b''], [0, 0, 0, 1, 97, 98, 0, 0, 0, 0, 97, 0, 0, 0, 0, 0, 0, 0, 0, 0, 0, 0, 0, 1, 0, 0, 0, 0, 98, 120, 1, 1])]"
  "map (\<lambda>n. (pn_keys n, bytes_of (pn_hash n))) (level_nodes sample_sha str_of 1 [] []
      (next_level (level_nodes sample_sha str_of 0 [] [] (sample_kv @ [(''c'', ''y'')]))))
     = [([''a'', ''b''], [0, 0, 0, 1, 97, 98, 0, 0, 0, 0, 97, 0, 0, 0, 0, 0, 0, 0, 0, 0, 0, 0, 0, 1, 0, 0, 0, 0, 98, 99, 120, 121, 1, 1])]"
  unfolding sample_levels
  by (simp_all add: next_level_def mk_node_def sample_boundaries)
     (simp_all add: compute_node_hash_def sample_sha_def sample_bytes sample_level_bytes)

lemma two_levels:
  assumes "length (level_nodes sha hexe 0 [] [] kvs) = 2"
    and "map (\<lambda>n. (pn_keys n, bytes_of (pn_hash n))) (level_nodes sha hexe 1 [] [] (next_level (level_nodes sha hexe 0 [] [] kvs))) = [(ks, h)]"
  shows "\<exists>t. build sha hexe kvs = Ok t \<and> bytes_of (root_hash t) = h \<and> pn_keys (last (pt_nodes t)) = ks"
proof -
  obtain n where n: "level_nodes sha hexe 1 [] [] (next_level (level_nodes sha hexe 0 [] [] kvs)) = [n]" "pn_keys n = ks"
    "bytes_of (pn_hash n) = h" using assms(2) by auto
  have "kvs \<noteq> []" using assms(1) by auto
  then have "build sha hexe kvs = build_loop sha hexe 1 (next_level (level_nodes sha hexe 0 [] [] kvs)) (level_nodes sha hexe 0 [] [] kvs)"
    using assms(1) by (simp add: build_def build_loop.simps [of sha hexe 0] Let_def)
  also have "\<dots> = Ok \<lparr>root_hash = pn_hash n, pt_nodes = level_nodes sha hexe 0 [] [] kvs @ [n]\<rparr>"
    using n(1) by (simp add: build_loop.simps [of sha hexe "Suc 0"])
  finally show ?thesis using n by simp
qed

theorem prolly_exchange_witness:
  "\<exists>t1 t2. build sample_sha str_of sample_kv = Ok t1 \<and> build sample_sha str_of (sample_kv @ [(''c'', ''y'')]) = Ok t2
     \<and> root_hash t1 \<noteq> root_hash t2 \<and> exchange t1 t2 = Ok (Some Match)"
proof -
  have len: "length (level_nodes sample_sha str_of 0 [] [] sample_kv) = 2"
    "length (level_nodes sample_sha str_of 0 [] [] (sample_kv @ [(''c'', ''y'')])) = 2"
    by (simp_all add: sample_levels)
  obtain t1 where t1: "build sample_sha str_of sample_kv = Ok t1"
    "bytes_of (root_hash t1) = [0, 0, 0, 1, 97, 98, 0, 0, 0, 0, 97, 0, 0, 0, 0, 0, 0, 0, 0, 0, 0, 0, 0, 1, 0, 0, 0, 0, 98, 120, 1, 1]"
    using two_levels [OF len(1) sample_upper(1)] by blast
  obtain t2 where t2: "build sample_sha str_of (sample_kv @ [(''c'', ''y'')]) = Ok t2"
    "bytes_of (root_hash t2) = [0, 0, 0, 1, 97, 98, 0, 0, 0, 0, 97, 0, 0, 0, 0, 0, 0, 0, 0, 0, 0, 0, 0, 1, 0, 0, 0, 0, 98, 99, 120, 121, 1, 1]"
    "pn_keys (last (pt_nodes t2)) = [''a'', ''b'']"
    using two_levels [OF len(2) sample_upper(2)] by blast
  have ne: "root_hash t1 \<noteq> root_hash t2" using t1(2) t2(2) by auto
  have "exchange t1 t2 = Ok (Some Match)"
    using prolly_exchange [OF t1(1) t2(1) ne] t2(3) by (simp add: sample_kv_def)
  then show ?thesis using t1(1) t2(1) ne by blast
qed

text \<open>Different stores with the same root. Whatever the hash function, the stores that map \<open>ab\<close> to \<open>c\<close> and \<open>a\<close> to \<open>bc\<close>
  have trees with the same root, because a node hash runs keys and values together without their lengths; a session on one answers
  the root of the other with a match.\<close>

theorem prolly_false_match:
  "\<exists>t1 t2. build sha hexe [(''ab'', ''c'')] = Ok t1 \<and> build sha hexe [(''a'', ''bc'')] = Ok t2
     \<and> root_hash t1 = root_hash t2 \<and> exchange t1 t2 = Ok (Some Match)"
proof -
  have one: "build sha hexe [(k, v)] = Ok \<lparr>root_hash = compute_node_hash sha hexe 0 [k] [v], pt_nodes = [mk_node sha hexe 0 [k] [v]]\<rparr>" for k v
    by (simp add: build_def build_loop.simps [of sha hexe 0] mk_node_def)
  have "compute_node_hash sha hexe 0 [''ab''] [''c''] = compute_node_hash sha hexe 0 [''a''] [''bc'']"
    by (simp add: compute_node_hash_def flip: bytes_of_append)
  then show ?thesis unfolding one by (simp add: exchange_def handle_message_def session_new_def)
qed

end
