(* ===== verification/Envelope.thy ===== *)
theory Envelope
  imports Text
begin

section \<open>Mesh envelopes (relay-core/src/envelope.rs)\<close>

text \<open>
  The wire format of the flood relay: magic, version, hop count, two length-prefixed strings, kind, time stamp and a
  length-prefixed payload, all little endian. \<open>MeshEnvelope::from_bytes\<close> is the decoder a hostile peer talks to.
  Shown: the decoder only produces well-formed envelopes, decoding inverts encoding on every well-formed envelope, the
  encoder refuses exactly empty and over-long strings and payloads of four gigabytes, and the hop count never passes
  its ceiling. A Rust \<open>String\<close> is its UTF-8 bytes; \<open>u8\<close>, \<open>u16\<close> and \<open>u64\<close> fields are natural numbers
  within their range.
\<close>

definition MAGIC :: "byte list" where "MAGIC = bytes_of ''sos1''"
abbreviation ENVELOPE_VERSION :: nat where "ENVELOPE_VERSION \<equiv> 1"
abbreviation MAX_HOP_COUNT :: nat where "MAX_HOP_COUNT \<equiv> 6"
abbreviation MAX_PAYLOAD_BYTES :: nat where "MAX_PAYLOAD_BYTES \<equiv> 262144"
abbreviation MAX_ENVELOPE_BYTES :: nat where "MAX_ENVELOPE_BYTES \<equiv> 262656"

record mesh_envelope =
  env_version :: nat
  env_hop_count :: nat
  env_event_id :: string
  env_kind :: nat
  env_author :: string
  env_created_at :: nat
  env_payload :: "byte list"

definition env_new :: "string \<Rightarrow> nat \<Rightarrow> string \<Rightarrow> nat \<Rightarrow> byte list \<Rightarrow> mesh_envelope" where
  "env_new i k a t p =
     \<lparr>env_version = ENVELOPE_VERSION, env_hop_count = 0, env_event_id = to_ascii_lowercase (trim i), env_kind = k,
      env_author = to_ascii_lowercase (trim a), env_created_at = t, env_payload = p\<rparr>"

definition at_hop_limit :: "mesh_envelope \<Rightarrow> bool" where
  "at_hop_limit e \<longleftrightarrow> env_hop_count e \<ge> MAX_HOP_COUNT"

definition increment_hop_in_place :: "mesh_envelope \<Rightarrow> bool \<times> mesh_envelope" where
  "increment_hop_in_place e = (if at_hop_limit e then (False, e) else (True, e\<lparr>env_hop_count := env_hop_count e + 1\<rparr>))"

definition into_incremented_hop :: "mesh_envelope \<Rightarrow> mesh_envelope option" where
  "into_incremented_hop e = (case increment_hop_in_place e of (ok, e') \<Rightarrow> if ok then Some e' else None)"

text \<open>\<open>push_str\<close> appends to \<open>out\<close>; \<open>take_str\<close> reads at a position and moves it.\<close>

definition push_str :: "byte list \<Rightarrow> string \<Rightarrow> byte list res" where
  "push_str out s =
     (if length s > 128 then Err ''envelope string exceeds 128-byte cap''
      else Ok (out @ le_bytes 2 (length s) @ bytes_of s))"

definition take_str :: "byte list \<Rightarrow> nat \<Rightarrow> (string \<times> nat) option" where
  "take_str d pos =
     (if length d < pos + 2 then None
      else let len = le_val (take 2 (drop pos d)); pos = pos + 2 in
        if len > 128 then None
        else if length d < pos + len then None
        else case from_utf8 (take len (drop pos d)) of None \<Rightarrow> None | Some s \<Rightarrow> Some (s, pos + len))"

definition env_to_bytes :: "mesh_envelope \<Rightarrow> byte list res" where
  "env_to_bytes e =
     (if env_event_id e = [] \<or> env_author e = [] then Err ''envelope event_id and author cannot be empty''
      else and_then (push_str (MAGIC @ [word_of_nat (env_version e), word_of_nat (env_hop_count e)]) (env_event_id e)) (\<lambda>out.
        and_then (push_str (out @ le_bytes 2 (env_kind e)) (env_author e)) (\<lambda>out.
          if length (env_payload e) > U32_MAX then Err ''payload too large''
          else Ok (out @ le_bytes 8 (env_created_at e) @ le_bytes 4 (length (env_payload e)) @ env_payload e))))"

text \<open>The tail of \<open>from_bytes\<close> after both strings, then the whole decoder.\<close>

definition from_bytes_tail :: "byte list \<Rightarrow> nat \<Rightarrow> nat \<Rightarrow> nat \<Rightarrow> string \<Rightarrow> nat \<Rightarrow> string \<Rightarrow> mesh_envelope option" where
  "from_bytes_tail d pos v h i k a =
     (if length d < pos + 8 then None
      else let t = le_val (take 8 (drop pos d)); pos = pos + 8 in
        if length d < pos + 4 then None
        else let n = le_val (take 4 (drop pos d)); pos = pos + 4 in
          if n > MAX_PAYLOAD_BYTES then None
          else if length d \<noteq> pos + n then None
          else Some \<lparr>env_version = v, env_hop_count = h, env_event_id = i, env_kind = k, env_author = a, env_created_at = t,
                 env_payload = take n (drop pos d)\<rparr>)"

definition from_bytes_strings :: "byte list \<Rightarrow> nat \<Rightarrow> nat \<Rightarrow> mesh_envelope option" where
  "from_bytes_strings d v h =
     (case take_str d 6 of None \<Rightarrow> None | Some (s, pos) \<Rightarrow>
       let i = to_ascii_lowercase (trim s) in
       if i = [] then None
       else if length d < pos + 2 then None
       else let k = le_val (take 2 (drop pos d)); pos = pos + 2 in
         (case take_str d pos of None \<Rightarrow> None | Some (s, pos) \<Rightarrow>
            let a = to_ascii_lowercase (trim s) in
            if a = [] then None else from_bytes_tail d pos v h i k a))"

definition env_from_bytes :: "byte list \<Rightarrow> mesh_envelope option" where
  "env_from_bytes d =
     (if length d < 4 + 1 + 1 + 2 + 2 + 8 + 4 then None
      else if length d > MAX_ENVELOPE_BYTES then None
      else if take 4 d \<noteq> MAGIC then None
      else let v = unat (d ! 4); h = unat (d ! 5) in
        if v \<noteq> ENVELOPE_VERSION then None
        else if h > MAX_HOP_COUNT then None
        else from_bytes_strings d v h)"

subsection \<open>Well-formed envelopes\<close>

definition env_wf :: "mesh_envelope \<Rightarrow> bool" where
  "env_wf e \<longleftrightarrow> env_version e = ENVELOPE_VERSION \<and> env_hop_count e \<le> MAX_HOP_COUNT
     \<and> clean_str (env_event_id e) \<and> env_event_id e \<noteq> [] \<and> length (env_event_id e) \<le> 128
     \<and> clean_str (env_author e) \<and> env_author e \<noteq> [] \<and> length (env_author e) \<le> 128
     \<and> env_kind e < 256 ^ 2 \<and> env_created_at e < 256 ^ 8 \<and> length (env_payload e) \<le> MAX_PAYLOAD_BYTES"

lemma length_MAGIC [simp]: "length MAGIC = 4"
  by (simp add: MAGIC_def)

lemma take_str_Some:
  assumes "take_str d pos = Some (s, pos')"
  shows "utf8_valid (bytes_of s) \<and> length s \<le> 128 \<and> pos' = pos + 2 + length s \<and> pos' \<le> length d"
proof -
  define len where "len = le_val (take 2 (drop pos d))"
  have len: "len \<le> 128" "pos + 2 + len \<le> length d" "pos' = pos + 2 + len" "from_utf8 (take len (drop (pos + 2) d)) = Some s"
    using assms by (auto simp: take_str_def Let_def len_def simp del: from_utf8_Some_iff split: if_splits option.splits)
  then have b: "utf8_valid (bytes_of s)" "take len (drop (pos + 2) d) = bytes_of s" by (metis from_utf8_Some_iff)+
  then have "length s = len" using len(2) by (metis length_bytes_of length_drop length_take diff_diff_left le_diff_conv2 min.absorb2 add.commute le_add1 order_trans)
  then show ?thesis using b len by simp
qed

text \<open>What the encoder writes, in one piece.\<close>

definition env_image :: "mesh_envelope \<Rightarrow> byte list" where
  "env_image e =
     MAGIC @ [word_of_nat (env_version e), word_of_nat (env_hop_count e)] @ le_bytes 2 (length (env_event_id e)) @ bytes_of (env_event_id e)
     @ le_bytes 2 (env_kind e) @ le_bytes 2 (length (env_author e)) @ bytes_of (env_author e)
     @ le_bytes 8 (env_created_at e) @ le_bytes 4 (length (env_payload e)) @ env_payload e"

lemma to_bytes_Ok:
  "env_to_bytes e = Ok d \<longleftrightarrow> env_event_id e \<noteq> [] \<and> env_author e \<noteq> [] \<and> length (env_event_id e) \<le> 128 \<and> length (env_author e) \<le> 128
     \<and> length (env_payload e) \<le> U32_MAX \<and> d = env_image e"
  by (auto simp: env_to_bytes_def push_str_def env_image_def split: if_splits)

lemma to_bytes_wf: "env_wf e \<Longrightarrow> env_to_bytes e = Ok (env_image e)"
  by (simp add: to_bytes_Ok env_wf_def)

lemma field_at: "length xs = pos \<Longrightarrow> length f = n \<Longrightarrow> take n (drop pos (xs @ f @ ys)) = f"
  by simp

lemma take_str_push:
  assumes "length xs = pos" "utf8_valid (bytes_of s)" "length s \<le> 128"
  shows "take_str (xs @ le_bytes 2 (length s) @ bytes_of s @ ys) pos = Some (s, pos + 2 + length s)"
proof -
  have "take 2 (drop pos (xs @ le_bytes 2 (length s) @ bytes_of s @ ys)) = le_bytes 2 (length s)"
    using assms(1) by simp
  moreover have "le_val (le_bytes 2 (length s)) = length s" using assms(3) by (intro le_val_bytes_id) simp
  ultimately show ?thesis using assms by (simp add: take_str_def from_utf8_def)
qed

lemma from_bytes_tail_image:
  assumes "length xs = pos" "t < 256 ^ 8" "length p \<le> MAX_PAYLOAD_BYTES"
  shows "from_bytes_tail (xs @ le_bytes 8 t @ le_bytes 4 (length p) @ p) pos v h i k a
    = Some \<lparr>env_version = v, env_hop_count = h, env_event_id = i, env_kind = k, env_author = a, env_created_at = t, env_payload = p\<rparr>"
proof -
  have "le_val (le_bytes 8 t) = t" "le_val (le_bytes 4 (length p)) = length p"
    using assms by (auto intro!: le_val_bytes_id)
  then show ?thesis using assms by (simp add: from_bytes_tail_def Let_def)
qed
lemma env_image_decodes:
  assumes "env_wf e"
  shows "env_from_bytes (env_image e) = Some e"
proof -
  let ?d = "env_image e"
  let ?i = "env_event_id e" and ?a = "env_author e"
  let ?head = "MAGIC @ [word_of_nat (env_version e), word_of_nat (env_hop_count e)]"
  let ?tail = "le_bytes 8 (env_created_at e) @ le_bytes 4 (length (env_payload e)) @ env_payload e"
  note wf = assms [unfolded env_wf_def]
  note clean = clean_str_fix [of ?i] clean_str_fix [of ?a]
  have s1: "take_str ?d 6 = Some (?i, 8 + length ?i)"
    using take_str_push [of ?head 6 ?i] wf clean by (simp add: env_image_def)
  have k: "le_val (take 2 (drop (8 + length ?i) ?d)) = env_kind e"
    using field_at [of "?head @ le_bytes 2 (length ?i) @ bytes_of ?i" "8 + length ?i" "le_bytes 2 (env_kind e)" 2] wf
    by (simp add: env_image_def)
  have s2: "take_str ?d (10 + length ?i) = Some (?a, 12 + length ?i + length ?a)"
    using take_str_push [of "?head @ le_bytes 2 (length ?i) @ bytes_of ?i @ le_bytes 2 (env_kind e)" "10 + length ?i" ?a ?tail] wf clean
    by (simp add: env_image_def)
  have t: "from_bytes_tail ?d (12 + length ?i + length ?a) v h i k a
      = Some \<lparr>env_version = v, env_hop_count = h, env_event_id = i, env_kind = k, env_author = a,
          env_created_at = env_created_at e, env_payload = env_payload e\<rparr>" for v h i k a
    using from_bytes_tail_image [of "?head @ le_bytes 2 (length ?i) @ bytes_of ?i @ le_bytes 2 (env_kind e)
        @ le_bytes 2 (length ?a) @ bytes_of ?a" "12 + length ?i + length ?a"] wf
    by (simp add: env_image_def)
  have len: "length ?d = 24 + length ?i + length ?a + length (env_payload e)" by (simp add: env_image_def)
  have "from_bytes_strings ?d v h = Some (e\<lparr>env_version := v, env_hop_count := h\<rparr>)" for v h
    using s1 s2 k t wf clean len by (simp add: from_bytes_strings_def Let_def add.commute del: add_2_eq_Suc add_2_eq_Suc' lower_eq_Nil)
  then show "env_from_bytes ?d = Some e"
    using wf by (simp add: env_from_bytes_def Let_def env_image_def nth_append unat_of_nat)
qed

text \<open>Whatever bytes arrive, the decoder yields a well-formed envelope or nothing.\<close>

lemma from_bytes_tail_Some:
  assumes "from_bytes_tail d pos v h i k a = Some e"
  shows "env_version e = v \<and> env_hop_count e = h \<and> env_event_id e = i \<and> env_kind e = k \<and> env_author e = a
    \<and> env_created_at e < 256 ^ 8 \<and> length (env_payload e) \<le> MAX_PAYLOAD_BYTES"
proof -
  define t n where "t = le_val (take 8 (drop pos d))" and "n = le_val (take 4 (drop (pos + 8) d))"
  have t: "t < 256 ^ 8" unfolding t_def by (rule le_val_take)
  have n: "n \<le> MAX_PAYLOAD_BYTES" and e: "e = \<lparr>env_version = v, env_hop_count = h, env_event_id = i, env_kind = k, env_author = a,
      env_created_at = t, env_payload = take n (drop (pos + 8 + 4) d)\<rparr>"
    using assms unfolding from_bytes_tail_def Let_def t_def [symmetric] n_def [symmetric]
    by (metis option.distinct(1) option.inject not_le)+
  have "length (env_payload e) \<le> n" by (simp add: e)
  then show ?thesis using t order_trans [OF _ n] by (simp only: e mesh_envelope.select_convs)
qed

lemma from_bytes_strings_Some:
  assumes "from_bytes_strings d v h = Some e"
  shows "env_version e = v \<and> env_hop_count e = h \<and> (\<exists>s. env_event_id e = to_ascii_lowercase (trim s) \<and> utf8_valid (bytes_of s) \<and> length s \<le> 128)
    \<and> (\<exists>s. env_author e = to_ascii_lowercase (trim s) \<and> utf8_valid (bytes_of s) \<and> length s \<le> 128)
    \<and> env_event_id e \<noteq> [] \<and> env_author e \<noteq> [] \<and> env_kind e < 256 ^ 2 \<and> env_created_at e < 256 ^ 8
    \<and> length (env_payload e) \<le> MAX_PAYLOAD_BYTES"
proof -
  obtain s pos where s: "take_str d 6 = Some (s, pos)" using assms by (auto simp: from_bytes_strings_def split: option.splits)
  define k where "k = le_val (take 2 (drop pos d))"
  have k: "k < 256 ^ 2"
    unfolding k_def by (rule le_val_take)
  obtain s' pos' where s': "take_str d (pos + 2) = Some (s', pos')" "to_ascii_lowercase (trim s) \<noteq> []" "to_ascii_lowercase (trim s') \<noteq> []"
    and t: "from_bytes_tail d pos' v h (to_ascii_lowercase (trim s)) k (to_ascii_lowercase (trim s')) = Some e"
    using assms s by (auto simp: from_bytes_strings_def Let_def k_def simp del: lower_eq_Nil split: option.splits if_splits)
  show ?thesis using from_bytes_tail_Some [OF t] take_str_Some [OF s] take_str_Some [OF s'(1)] s'(2,3) k by auto
qed

lemma env_from_bytes_wf:
  assumes "env_from_bytes d = Some e"
  shows "env_wf e"
proof -
  have st: "from_bytes_strings d (unat (d ! 4)) (unat (d ! 5)) = Some e" and "unat (d ! 4) = ENVELOPE_VERSION"
    "unat (d ! 5) \<le> MAX_HOP_COUNT"
    using assms by (auto simp: env_from_bytes_def Let_def split: if_splits)
  then show ?thesis
    using from_bytes_strings_Some [OF st] length_trim
    by (auto simp: env_wf_def clean_str_clean intro: order_trans [OF length_trim])
qed

text \<open>Decoding, then encoding, then decoding again: the second decoder sees the same envelope, one hop further.\<close>

lemma env_wf_new:
  assumes "utf8_valid (bytes_of i)" "utf8_valid (bytes_of a)" "trim i \<noteq> []" "trim a \<noteq> []" "length (trim i) \<le> 128"
    "length (trim a) \<le> 128" "k < 256 ^ 2" "t < 256 ^ 8" "length p \<le> MAX_PAYLOAD_BYTES"
  shows "env_wf (env_new i k a t p)"
  using assms by (simp add: env_wf_def env_new_def clean_str_clean)

lemma env_wf_hop: "env_wf e \<Longrightarrow> into_incremented_hop e = Some e' \<Longrightarrow> env_wf e' \<and> env_hop_count e' = env_hop_count e + 1 \<and> env_payload e' = env_payload e"
  by (auto simp: env_wf_def into_incremented_hop_def increment_hop_in_place_def at_hop_limit_def split: if_splits)

text \<open>
  Decoding inverts encoding: every well-formed envelope has an encoding, and the decoder gives the envelope back.
\<close>

theorem envelope_round_trip: "env_wf e \<Longrightarrow> \<exists>d. env_to_bytes e = Ok d \<and> env_from_bytes d = Some e"
  using to_bytes_wf env_image_decodes by blast

theorem envelope_round_trip_witness:
  "\<exists>d. env_to_bytes (env_new ''id'' 1 ''me'' 7 [1, 2]) = Ok d \<and> env_from_bytes d = Some (env_new ''id'' 1 ''me'' 7 [1, 2])"
proof (rule envelope_round_trip, rule env_wf_new)
  show "utf8_valid (bytes_of ''id'')" "utf8_valid (bytes_of ''me'')" "trim ''id'' \<noteq> []" "trim ''me'' \<noteq> []"
    "length (trim ''id'') \<le> 128" "length (trim ''me'') \<le> 128" by code_simp+
qed simp_all

text \<open>C28. The decoder is the gate of the relay: for all bytes, it answers nothing or a well-formed envelope (version 1, at most 6
  hops, trimmed lower-case UTF-8 names of 1 to 128 bytes, integers in range, at most 256 KiB of payload) and an answer
  implies that the input carries the magic and fits the size cap.
\<close>

theorem envelope_decoder_type:
  "case env_from_bytes d of None \<Rightarrow> True
   | Some e \<Rightarrow> env_wf e \<and> take 4 d = MAGIC \<and> length d \<le> MAX_ENVELOPE_BYTES"
  using env_from_bytes_wf [of d] by (auto simp: env_from_bytes_def Let_def split: option.split if_splits)

end
