(* ===== verification/Transport.thy ===== *)
theory Transport
  imports Prelude
begin

section \<open>Transport modes (network-core/src/transport.rs)\<close>

text \<open>
  The mode the user chose and the transport it resolves to, given which transports are up. Shown: names parse back, the
  answer is a transport that is up or the Nostr relays, and a mode that pins a transport never uses another mesh transport.
\<close>

datatype transport_mode = MDefault | MReticulum | MFreenet | MI2p | MNostr

datatype transport_kind = TReticulum | TFreenet | TI2p | TNostr

definition transport_as_str :: "transport_kind \<Rightarrow> string" where
  "transport_as_str k = (case k of TReticulum \<Rightarrow> ''reticulum'' | TFreenet \<Rightarrow> ''freenet'' | TI2p \<Rightarrow> ''i2p'' | TNostr \<Rightarrow> ''nostr'')"

definition parse_mode :: "string \<Rightarrow> transport_mode option" where
  "parse_mode s =
     (if s = ''default'' then Some MDefault
      else if s = ''reticulum'' then Some MReticulum
      else if s = ''freenet'' then Some MFreenet
      else if s = ''i2p'' then Some MI2p
      else if s = ''nostr'' then Some MNostr
      else if s = ''auto'' then Some MDefault
      else if s = ''clearnet'' then Some MNostr
      else None)"

definition mode_as_str :: "transport_mode \<Rightarrow> string" where
  "mode_as_str m =
     (case m of MDefault \<Rightarrow> ''default'' | MReticulum \<Rightarrow> ''reticulum'' | MFreenet \<Rightarrow> ''freenet'' | MI2p \<Rightarrow> ''i2p'' | MNostr \<Rightarrow> ''nostr'')"

definition resolve :: "transport_mode \<Rightarrow> bool \<Rightarrow> bool \<Rightarrow> bool \<Rightarrow> transport_kind \<times> bool" where
  "resolve m reticulum_up freenet_up i2p_up =
     (case m of
        MDefault \<Rightarrow>
          if reticulum_up then (TReticulum, True)
          else if freenet_up then (TFreenet, True)
          else if i2p_up then (TI2p, True)
          else (TNostr, True)
      | MReticulum \<Rightarrow> if reticulum_up then (TReticulum, True) else (TNostr, False)
      | MFreenet \<Rightarrow> if freenet_up then (TFreenet, True) else (TNostr, False)
      | MI2p \<Rightarrow> if i2p_up then (TI2p, True) else (TNostr, False)
      | MNostr \<Rightarrow> (TNostr, True))"

definition socks_url :: "transport_mode \<Rightarrow> string option" where
  "socks_url m = (if m = MI2p then Some ''socks5://127.0.0.1:4447'' else None)"

lemma parse_mode_as_str: "parse_mode (mode_as_str m) = Some m"
  by (cases m) (simp_all add: parse_mode_def mode_as_str_def)

text \<open>The answer is usable, and a pinned mode is satisfied exactly by its own transport.\<close>

lemma resolve_usable:
  assumes "resolve m r f i = (k, ok)"
  shows "(k = TReticulum \<longrightarrow> r) \<and> (k = TFreenet \<longrightarrow> f) \<and> (k = TI2p \<longrightarrow> i) \<and> (\<not> ok \<longrightarrow> k = TNostr)
    \<and> (m \<noteq> MDefault \<and> ok \<longrightarrow> transport_as_str k = mode_as_str m)"
  using assms by (auto simp: resolve_def transport_as_str_def mode_as_str_def split: transport_mode.splits if_splits)

end
