(* ===== verification/Relay.thy ===== *)
theory Relay
  imports Envelope VerifyCache Bounded Transport
begin

section \<open>The flood relay (relay-core/src/relay.rs, relay-core/src/bloom\_dedup.rs)\<close>

text \<open>
  A relay node owns a list of transports behind the trait \<open>MeshBackend\<close>. \<open>publish\<close> wraps an event in an envelope
  at hop 0 and hands it to the running transports; \<open>poll\<close> drains the transports, decodes and verifies what arrived, and
  for each payload not seen before queues the event for the application, keeps the envelope and re-broadcasts it at the
  next hop everywhere but where it came from. What a digest was seen is kept twice: in a Bloom filter and in a bounded set.

  Parameters: the transports (a record of the trait's methods over an arbitrary state type), the Bloom filter of the
  crate, the event type with its JSON decoder and \<open>Event::verify\<close>, SHA-256 in hexadecimal. \<open>poll\<close> checks
  four or more signatures in parallel; the model checks them in the order of the jobs.
\<close>

abbreviation RECENT_CAPACITY :: nat where "RECENT_CAPACITY \<equiv> 10000"
abbreviation SEEN_CAPACITY :: nat where "SEEN_CAPACITY \<equiv> 100000"
abbreviation DELIVERED_CAPACITY :: nat where "DELIVERED_CAPACITY \<equiv> 4096"

subsection \<open>The Bloom filter wrapper\<close>

record 'f bloom_ops =
  bo_new :: "nat \<Rightarrow> 'f"
  bo_contains :: "'f \<Rightarrow> byte list \<Rightarrow> bool"
  bo_insert :: "byte list \<Rightarrow> 'f \<Rightarrow> 'f"
  bo_clear :: "'f \<Rightarrow> 'f"

record 'f seen_filter =
  sf_filter :: 'f
  sf_count :: nat
  sf_capacity :: nat

definition sf_new :: "'f bloom_ops \<Rightarrow> nat \<Rightarrow> 'f seen_filter" where
  "sf_new Q expected_items =
     (let cap = max expected_items 1024 in \<lparr>sf_filter = bo_new Q cap, sf_count = 0, sf_capacity = cap\<rparr>)"

definition sf_contains :: "'f bloom_ops \<Rightarrow> string \<Rightarrow> 'f seen_filter \<Rightarrow> bool" where
  "sf_contains Q d s = bo_contains Q (sf_filter s) (bytes_of d)"

definition sf_insert :: "'f bloom_ops \<Rightarrow> string \<Rightarrow> 'f seen_filter \<Rightarrow> (bool \<times> 'f seen_filter) res" where
  "sf_insert Q d s =
     (if sf_contains Q d s then Ok (False, s)
      else and_then (add_u64 (sf_count s) 1) (\<lambda>n. Ok (True, s\<lparr>sf_filter := bo_insert Q (bytes_of d) (sf_filter s), sf_count := n\<rparr>)))"

definition sf_clear :: "'f bloom_ops \<Rightarrow> 'f seen_filter \<Rightarrow> 'f seen_filter" where
  "sf_clear Q s = s\<lparr>sf_filter := bo_clear Q (sf_filter s), sf_count := 0\<rparr>"

subsection \<open>Transports\<close>

datatype backend_kind = KReticulum | KI2p | KFreenet

definition kind_as_str :: "backend_kind \<Rightarrow> string" where
  "kind_as_str k = (case k of KReticulum \<Rightarrow> ''reticulum'' | KI2p \<Rightarrow> ''i2p'' | KFreenet \<Rightarrow> ''freenet'')"

text \<open>The methods of \<open>trait MeshBackend\<close> (an \<open>Err\<close> carries a message), construction, and the I2P downcast.\<close>

record 'b backend_ops =
  b_kind :: "'b \<Rightarrow> backend_kind"
  b_start :: "'b \<Rightarrow> unit res \<times> 'b"
  b_stop :: "'b \<Rightarrow> 'b"
  b_running :: "'b \<Rightarrow> bool"
  b_broadcast :: "byte list \<Rightarrow> 'b \<Rightarrow> nat res \<times> 'b"
  b_recv :: "'b \<Rightarrow> byte list list \<times> 'b"
  b_peers_count :: "'b \<Rightarrow> nat"
  b_new :: "backend_kind \<Rightarrow> string \<Rightarrow> 'b"
  b_connect_i2p :: "string \<Rightarrow> 'b \<Rightarrow> unit res \<times> 'b"

record ('b, 'f, 'e) relay_env =
  re_backend :: "'b backend_ops"
  re_bloom :: "'f bloom_ops"
  re_event :: "'e event_prims"
  re_from_json :: "string \<Rightarrow> 'e option"
  re_digest :: "byte list \<Rightarrow> string"
  re_cache_cap :: nat

text \<open>The node, with the process-wide verification cache it goes through.\<close>

record ('b, 'f, 'e) relay_node =
  rn_backends :: "'b list"
  rn_recent :: "mesh_envelope list"
  rn_seen :: "string bset"
  rn_bloom :: "'f seen_filter"
  rn_delivered :: "'e list"
  rn_published :: nat
  rn_received :: nat
  rn_running :: bool
  rn_cache :: "verified_cache option"

definition verified_event_payload ::
  "('b, 'f, 'e) relay_env \<Rightarrow> byte list \<Rightarrow> verified_cache option \<Rightarrow> 'e option \<times> verified_cache option" where
  "verified_event_payload W p g =
     (case from_utf8 p of None \<Rightarrow> (None, g) | Some json \<Rightarrow>
       (case re_from_json W json of None \<Rightarrow> (None, g) | Some e \<Rightarrow>
          (case verify_event_cached (re_event W) (re_cache_cap W) e g of (ok, g') \<Rightarrow> (if ok then Some e else None, g'))))"

definition relay_new :: "('b, 'f, 'e) relay_env \<Rightarrow> verified_cache option \<Rightarrow> ('b, 'f, 'e) relay_node" where
  "relay_new W g =
     \<lparr>rn_backends = [], rn_recent = [], rn_seen = bs_new SEEN_CAPACITY, rn_bloom = sf_new (re_bloom W) SEEN_CAPACITY,
      rn_delivered = [], rn_published = 0, rn_received = 0, rn_running = False, rn_cache = g\<rparr>"

definition add_backend :: "'b \<Rightarrow> ('b, 'f, 'e) relay_node \<Rightarrow> ('b, 'f, 'e) relay_node" where
  "add_backend b s = s\<lparr>rn_backends := rn_backends s @ [b]\<rparr>"

definition new_with_transport ::
  "('b, 'f, 'e) relay_env \<Rightarrow> verified_cache option \<Rightarrow> transport_mode \<Rightarrow> string \<Rightarrow> ('b, 'f, 'e) relay_node" where
  "new_with_transport W g mode pubkey =
     (let pk = to_ascii_lowercase (trim pubkey);
          ks = (case mode of
                  MDefault \<Rightarrow> [KReticulum, KI2p, KFreenet]
                | MReticulum \<Rightarrow> [KReticulum] | MFreenet \<Rightarrow> [KFreenet] | MI2p \<Rightarrow> [KI2p] | MNostr \<Rightarrow> [])
      in fold (\<lambda>k. add_backend (b_new (re_backend W) k pk)) ks (relay_new W g))"

definition running_backends :: "('b, 'f, 'e) relay_env \<Rightarrow> ('b, 'f, 'e) relay_node \<Rightarrow> backend_kind list" where
  "running_backends W s = map (b_kind (re_backend W)) (filter (b_running (re_backend W)) (rn_backends s))"

text \<open>\<open>start\<close>, \<open>stop\<close>\<close>

definition relay_start :: "('b, 'f, 'e) relay_env \<Rightarrow> ('b, 'f, 'e) relay_node \<Rightarrow> nat res \<times> ('b, 'f, 'e) relay_node" where
  "relay_start W s =
     (let rs = map (b_start (re_backend W)) (rn_backends s);
          started = length (filter (\<lambda>(r, b). is_ok r) rs);
          s' = s\<lparr>rn_backends := map snd rs, rn_running := started > 0\<rparr>
      in (if started = 0 then Err ''no mesh backend started'' else Ok started, s'))"

definition relay_stop :: "('b, 'f, 'e) relay_env \<Rightarrow> ('b, 'f, 'e) relay_node \<Rightarrow> ('b, 'f, 'e) relay_node" where
  "relay_stop W s = s\<lparr>rn_backends := map (b_stop (re_backend W)) (rn_backends s), rn_running := False\<rparr>"

text \<open>\<open>note_seen\<close>\<close>

definition note_seen :: "('b, 'f, 'e) relay_env \<Rightarrow> string \<Rightarrow> ('b, 'f, 'e) relay_node \<Rightarrow> ('b, 'f, 'e) relay_node res" where
  "note_seen W d s =
     and_then (sf_insert (re_bloom W) d (rn_bloom s)) (\<lambda>(_, f).
       Ok (s\<lparr>rn_bloom := f, rn_seen := snd (bs_insert d (rn_seen s))\<rparr>))"
text \<open>\<open>Result::unwrap_or\<close>, \<open>Result::unwrap_or_default\<close> on bytes\<close>

primrec unwrap_or :: "'a \<Rightarrow> 'a res \<Rightarrow> 'a res" where
  "unwrap_or d (Ok a) = Ok a"
| "unwrap_or d (Err m) = Ok d"
| "unwrap_or d Panic = Panic"

subsection \<open>Publishing\<close>

text \<open>The loop of \<open>publish\<close> over the transports: every running one gets the bytes, the counts add up.\<close>

fun hand_out :: "'b backend_ops \<Rightarrow> byte list \<Rightarrow> 'b list \<Rightarrow> nat \<Rightarrow> (nat \<times> 'b list) res" where
  "hand_out B p [] n = Ok (n, [])"
| "hand_out B p (b # bs) n =
     (if b_running B b then
        (case b_broadcast B p b of (r, b') \<Rightarrow>
           and_then (unwrap_or 0 r) (\<lambda>k. and_then (add_u64 n k) (\<lambda>n'.
             and_then (hand_out B p bs n') (\<lambda>(m, bs'). Ok (m, b' # bs')))))
      else and_then (hand_out B p bs n) (\<lambda>(m, bs'). Ok (m, b # bs')))"

text \<open>\<open>push_back\<close>, then \<open>pop_front\<close> while the queue is too long\<close>

definition push_ring :: "nat \<Rightarrow> 'a \<Rightarrow> 'a list \<Rightarrow> 'a list" where
  "push_ring cap x q = drop (length q + 1 - cap) (q @ [x])"

definition encode_or_empty :: "mesh_envelope \<Rightarrow> byte list" where
  "encode_or_empty e = (case env_to_bytes e of Ok b \<Rightarrow> b | _ \<Rightarrow> [])"

definition publish ::
  "('b, 'f, 'e) relay_env \<Rightarrow> string \<Rightarrow> nat \<Rightarrow> string \<Rightarrow> nat \<Rightarrow> byte list \<Rightarrow> ('b, 'f, 'e) relay_node
     \<Rightarrow> (nat res \<times> ('b, 'f, 'e) relay_node) res" where
  "publish W i k a t p s =
     (if \<not> rn_running s then Ok (Err ''relay node not running'', s)
      else if length p > MAX_PAYLOAD_BYTES then Ok (Err ''payload exceeds mesh cap'', s)
      else let i' = to_ascii_lowercase (trim i); a' = to_ascii_lowercase (trim a) in
        if i' = [] \<or> a' = [] then Ok (Err ''event id or author cannot be empty'', s)
        else if length i' > 128 \<or> length a' > 128 then Ok (Err ''event id or author exceeds 128-byte cap'', s)
        else let e = env_new i' k a' t p in
          and_then (note_seen W (re_digest W (env_payload e)) s) (\<lambda>s1.
          let s2 = s1\<lparr>rn_recent := push_ring RECENT_CAPACITY e (rn_recent s1)\<rparr> in
          and_then (hand_out (re_backend W) (encode_or_empty e) (rn_backends s2) 0) (\<lambda>(n, bs).
          and_then (add_u64 (rn_published s2) 1) (\<lambda>m.
          Ok (Ok n, s2\<lparr>rn_backends := bs, rn_published := m\<rparr>)))))"

subsection \<open>Polling\<close>

text \<open>The first loop: every transport is drained; those with nothing are left out.\<close>

fun recv_all :: "'b backend_ops \<Rightarrow> nat \<Rightarrow> 'b list \<Rightarrow> (nat \<times> byte list list) list \<times> 'b list" where
  "recv_all B i [] = ([], [])"
| "recv_all B i (b # bs) =
     (case b_recv B b of (ps, b') \<Rightarrow>
      case recv_all B (i + 1) bs of (inb, bs') \<Rightarrow> (if ps = [] then inb else (i, ps) # inb, b' # bs'))"

text \<open>The second: decode, until there are \<open>DELIVERED_CAPACITY\<close> jobs; the flag says that the outer loop is left.\<close>

fun push_jobs :: "nat \<Rightarrow> byte list list \<Rightarrow> (nat \<times> mesh_envelope) list \<Rightarrow> bool \<times> (nat \<times> mesh_envelope) list" where
  "push_jobs idx [] jobs = (False, jobs)"
| "push_jobs idx (p # ps) jobs =
     (if length jobs \<ge> DELIVERED_CAPACITY then (True, jobs)
      else (case env_from_bytes p of
              None \<Rightarrow> push_jobs idx ps jobs
            | Some e \<Rightarrow> push_jobs idx ps (jobs @ [(idx, e)])))"

fun frame_jobs :: "(nat \<times> byte list list) list \<Rightarrow> (nat \<times> mesh_envelope) list \<Rightarrow> (nat \<times> mesh_envelope) list" where
  "frame_jobs [] jobs = jobs"
| "frame_jobs ((idx, ps) # rest) jobs =
     (case push_jobs idx ps jobs of (stop, jobs') \<Rightarrow> if stop then jobs' else frame_jobs rest jobs')"

fun verify_jobs ::
  "('b, 'f, 'e) relay_env \<Rightarrow> (nat \<times> mesh_envelope) list \<Rightarrow> verified_cache option \<Rightarrow> 'e option list \<times> verified_cache option" where
  "verify_jobs W [] g = ([], g)"
| "verify_jobs W ((idx, e) # jobs) g =
     (case verified_event_payload W (env_payload e) g of (v, g') \<Rightarrow>
      case verify_jobs W jobs g' of (vs, g'') \<Rightarrow> (v # vs, g''))"

text \<open>\<open>re_broadcast\<close>: everywhere but at the source. Failures are ignored.\<close>

fun broadcast_except :: "'b backend_ops \<Rightarrow> nat \<Rightarrow> byte list \<Rightarrow> nat \<Rightarrow> 'b list \<Rightarrow> 'b list res" where
  "broadcast_except B src p i [] = Ok []"
| "broadcast_except B src p i (b # bs) =
     (if i \<noteq> src \<and> b_running B b then
        (case b_broadcast B p b of (r, b') \<Rightarrow>
           and_then (unwrap_or 0 r) (\<lambda>_. and_then (broadcast_except B src p (i + 1) bs) (\<lambda>bs'. Ok (b' # bs'))))
      else and_then (broadcast_except B src p (i + 1) bs) (\<lambda>bs'. Ok (b # bs')))"

definition re_broadcast ::
  "('b, 'f, 'e) relay_env \<Rightarrow> mesh_envelope \<Rightarrow> nat \<Rightarrow> ('b, 'f, 'e) relay_node \<Rightarrow> ('b, 'f, 'e) relay_node res" where
  "re_broadcast W e src s =
     (case env_to_bytes e of
        Ok p \<Rightarrow> and_then (broadcast_except (re_backend W) src p 0 (rn_backends s)) (\<lambda>bs. Ok (s\<lparr>rn_backends := bs\<rparr>))
      | _ \<Rightarrow> Ok s)"

text \<open>One round of the last loop; the flag says that the payload was new.\<close>

definition relay_job ::
  "('b, 'f, 'e) relay_env \<Rightarrow> nat \<Rightarrow> mesh_envelope \<Rightarrow> 'e option \<Rightarrow> ('b, 'f, 'e) relay_node \<Rightarrow> (bool \<times> ('b, 'f, 'e) relay_node) res" where
  "relay_job W idx e v s =
     (case v of None \<Rightarrow> Ok (False, s) | Some event \<Rightarrow>
       let digest = re_digest W (env_payload e) in
       if sf_contains (re_bloom W) digest (rn_bloom s) \<or> bs_contains digest (rn_seen s) then Ok (False, s)
       else
         and_then (note_seen W digest s) (\<lambda>s1.
         and_then (add_u64 (rn_received s1) 1) (\<lambda>n.
         let s2 = s1\<lparr>rn_received := n, rn_delivered := push_ring DELIVERED_CAPACITY event (rn_delivered s1),
                     rn_recent := push_ring RECENT_CAPACITY e (rn_recent s1)\<rparr> in
         (case into_incremented_hop e of
            None \<Rightarrow> Ok (True, s2)
          | Some e' \<Rightarrow> and_then (re_broadcast W e' idx s2) (\<lambda>s3. Ok (True, s3))))))"

text \<open>The last loop, with the payloads it took as new; \<open>poll\<close> returns their number.\<close>

fun relay_jobs ::
  "('b, 'f, 'e) relay_env \<Rightarrow> (nat \<times> mesh_envelope) list \<Rightarrow> 'e option list \<Rightarrow> ('b, 'f, 'e) relay_node
     \<Rightarrow> (byte list list \<times> ('b, 'f, 'e) relay_node) res" where
  "relay_jobs W ((idx, e) # jobs) (v # vs) s =
     and_then (relay_job W idx e v s) (\<lambda>(new, s1).
     and_then (relay_jobs W jobs vs s1) (\<lambda>(ps, s2).
     Ok (if new then env_payload e # ps else ps, s2)))"
| "relay_jobs W _ _ s = Ok ([], s)"

definition poll_payloads ::
  "('b, 'f, 'e) relay_env \<Rightarrow> ('b, 'f, 'e) relay_node \<Rightarrow> (byte list list \<times> ('b, 'f, 'e) relay_node) res" where
  "poll_payloads W s =
     (case recv_all (re_backend W) 0 (rn_backends s) of (inbound, bs) \<Rightarrow>
      let jobs = frame_jobs inbound [] in
      case verify_jobs W jobs (rn_cache s) of (vs, g) \<Rightarrow>
      relay_jobs W jobs vs (s\<lparr>rn_backends := bs, rn_cache := g\<rparr>))"

definition relay_poll :: "('b, 'f, 'e) relay_env \<Rightarrow> ('b, 'f, 'e) relay_node \<Rightarrow> (nat \<times> ('b, 'f, 'e) relay_node) res" where
  "relay_poll W s = and_then (poll_payloads W s) (\<lambda>(ps, s'). Ok (length ps, s'))"

text \<open>\<open>drain_delivered\<close>, \<open>recent_payloads\<close>, \<open>peers\<close>, \<open>connect_i2p\<close>\<close>

definition relay_drain :: "('b, 'f, 'e) relay_node \<Rightarrow> 'e list \<times> ('b, 'f, 'e) relay_node" where
  "relay_drain s = (rn_delivered s, s\<lparr>rn_delivered := []\<rparr>)"

definition recent_payloads :: "nat \<Rightarrow> ('b, 'f, 'e) relay_node \<Rightarrow> byte list list" where
  "recent_payloads limit s = map env_payload (take limit (rev (rn_recent s)))"

definition relay_peers :: "('b, 'f, 'e) relay_env \<Rightarrow> ('b, 'f, 'e) relay_node \<Rightarrow> (backend_kind \<times> nat) list" where
  "relay_peers W s = map (\<lambda>b. (b_kind (re_backend W) b, b_peers_count (re_backend W) b)) (rn_backends s)"

fun connect_first :: "'b backend_ops \<Rightarrow> string \<Rightarrow> 'b list \<Rightarrow> unit res \<times> 'b list" where
  "connect_first B d [] = (Err ''no i2p backend registered'', [])"
| "connect_first B d (b # bs) =
     (if b_kind B b = KI2p then (case b_connect_i2p B d b of (r, b') \<Rightarrow> (r, b' # bs))
      else (case connect_first B d bs of (r, bs') \<Rightarrow> (r, b # bs')))"

definition connect_i2p ::
  "('b, 'f, 'e) relay_env \<Rightarrow> string \<Rightarrow> ('b, 'f, 'e) relay_node \<Rightarrow> unit res \<times> ('b, 'f, 'e) relay_node" where
  "connect_i2p W d s = (case connect_first (re_backend W) d (rn_backends s) of (r, bs) \<Rightarrow> (r, s\<lparr>rn_backends := bs\<rparr>))"

end
