(* ===== verification/Relay_Props.thy ===== *)
theory Relay_Props
  imports Relay
begin

section \<open>What the flood relay guarantees\<close>

text \<open>
  The invariant of a relay node and its runs as a step relation (interpreted as a \<open>safe_machine\<close>), at most one delivery
  per payload, how far a flood travels, and what the shared verification cache lets through.
\<close>

subsection \<open>What has been seen\<close>

text \<open>What the documentation of a Bloom filter promises: no false negatives.\<close>

definition bloom_ok :: "'f bloom_ops \<Rightarrow> bool" where
  "bloom_ok Q \<longleftrightarrow> (\<forall>f x. bo_contains Q (bo_insert Q x f) x) \<and> (\<forall>f x y. bo_contains Q f x \<longrightarrow> bo_contains Q (bo_insert Q y f) x)"

abbreviation bloomed :: "('b, 'f, 'e) relay_env \<Rightarrow> ('b, 'f, 'e) relay_node \<Rightarrow> string set" where
  "bloomed W s \<equiv> {d. sf_contains (re_bloom W) d (rn_bloom s)}"

lemma sf_insert_Ok:
  "bloom_ok Q \<Longrightarrow> sf_insert Q d f = Ok (new, f') \<Longrightarrow> {x. sf_contains Q x f} \<union> {d} \<subseteq> {x. sf_contains Q x f'}"
  by (auto simp: sf_insert_def sf_contains_def bloom_ok_def split: if_splits)

lemma note_seen_Ok:
  assumes "bloom_ok (re_bloom W)" "note_seen W d s = Ok s'"
  shows "\<exists>f. s' = s\<lparr>rn_bloom := f, rn_seen := snd (bs_insert d (rn_seen s))\<rparr> \<and> bloomed W s \<union> {d} \<subseteq> {x. sf_contains (re_bloom W) x f}"
proof -
  obtain new f where f: "sf_insert (re_bloom W) d (rn_bloom s) = Ok (new, f)" and s': "s' = s\<lparr>rn_bloom := f, rn_seen := snd (bs_insert d (rn_seen s))\<rparr>"
    using assms(2) by (auto simp: note_seen_def)
  show ?thesis using sf_insert_Ok [OF assms(1) f] s' by blast
qed

lemma re_broadcast_Ok: "re_broadcast W e src s = Ok s' \<Longrightarrow> \<exists>bs. s' = s\<lparr>rn_backends := bs\<rparr>"
  by (auto simp: re_broadcast_def split: res.splits intro: exI [of _ "rn_backends s"])

text \<open>A job either changes nothing, or it was new and everything it changes is listed here.\<close>

lemma relay_job_Ok:
  assumes "bloom_ok (re_bloom W)" "relay_job W idx e v s = Ok (new, s')"
  shows "\<not> new \<and> s' = s
    \<or> new \<and> re_digest W (env_payload e) \<notin> bloomed W s \<and> re_digest W (env_payload e) \<notin> set (bs_set (rn_seen s))
      \<and> (\<exists>event bs f. v = Some event \<and> bloomed W s \<union> {re_digest W (env_payload e)} \<subseteq> {x. sf_contains (re_bloom W) x f}
        \<and> s' = s\<lparr>rn_backends := bs, rn_bloom := f, rn_seen := snd (bs_insert (re_digest W (env_payload e)) (rn_seen s)),
             rn_received := rn_received s + 1, rn_delivered := push_ring DELIVERED_CAPACITY event (rn_delivered s),
             rn_recent := push_ring RECENT_CAPACITY e (rn_recent s)\<rparr>)"
proof (cases "\<exists>event. v = Some event \<and> re_digest W (env_payload e) \<notin> bloomed W s \<and> \<not> bs_contains (re_digest W (env_payload e)) (rn_seen s)")
  case False
  then show ?thesis using assms(2) by (auto simp: relay_job_def Let_def split: option.splits)
next
  case True
  let ?d = "re_digest W (env_payload e)"
  obtain event where v: "v = Some event" and fresh: "?d \<notin> bloomed W s" "\<not> bs_contains ?d (rn_seen s)" using True by blast
  obtain s1 where s1: "note_seen W ?d s = Ok s1" using assms(2) v fresh by (auto simp: relay_job_def Let_def)
  obtain f where f: "s1 = s\<lparr>rn_bloom := f, rn_seen := snd (bs_insert ?d (rn_seen s))\<rparr>" "bloomed W s \<union> {?d} \<subseteq> {x. sf_contains (re_bloom W) x f}"
    using note_seen_Ok [OF assms(1) s1] by blast
  let ?s2 = "s1\<lparr>rn_received := rn_received s1 + 1, rn_delivered := push_ring DELIVERED_CAPACITY event (rn_delivered s1),
                rn_recent := push_ring RECENT_CAPACITY e (rn_recent s1)\<rparr>"
  have new: "new" and cases: "s' = ?s2 \<or> (\<exists>e'. re_broadcast W e' idx ?s2 = Ok s')"
    using assms(2) v fresh s1 by (auto simp: relay_job_def Let_def split: option.splits)
  have "\<exists>bs. s' = ?s2\<lparr>rn_backends := bs\<rparr>"
    using cases by (elim disjE exE) (rule exI [of _ "rn_backends ?s2"], simp, erule re_broadcast_Ok)
  then obtain bs where s': "s' = ?s2\<lparr>rn_backends := bs\<rparr>" ..
  show ?thesis
    by (intro disjI2 conjI new exI [of _ event] exI [of _ bs] exI [of _ f])
      (use v fresh f s' in \<open>simp_all add: bs_contains_def\<close>)
qed

text \<open>The payloads one poll takes have new, distinct digests, and the filter knows them afterwards.\<close>

lemma relay_jobs_seen:
  "bloom_ok (re_bloom W) \<Longrightarrow> relay_jobs W jobs vs s = Ok (ps, s') \<Longrightarrow> distinct (map (re_digest W) ps)
    \<and> set (map (re_digest W) ps) \<inter> bloomed W s = {} \<and> bloomed W s \<union> set (map (re_digest W) ps) \<subseteq> bloomed W s'"
proof (induction W jobs vs s arbitrary: ps s' rule: relay_jobs.induct)
  case (1 W idx e jobs v vs s)
  obtain new s1 qs where st: "relay_job W idx e v s = Ok (new, s1)" and rest: "relay_jobs W jobs vs s1 = Ok (qs, s')"
    and ps: "ps = (if new then env_payload e # qs else qs)"
    using "1.prems"(2) by (auto split: if_splits)
  have IH: "distinct (map (re_digest W) qs)" "set (map (re_digest W) qs) \<inter> bloomed W s1 = {}"
    "bloomed W s1 \<union> set (map (re_digest W) qs) \<subseteq> bloomed W s'"
    using "1.IH" [OF "1.prems"(1) rest] by blast+
  have "new \<longrightarrow> re_digest W (env_payload e) \<notin> bloomed W s \<and> bloomed W s \<union> {re_digest W (env_payload e)} \<subseteq> bloomed W s1"
    "\<not> new \<longrightarrow> s1 = s"
    using relay_job_Ok [OF "1.prems"(1) st] by auto
  then show ?case using IH ps by (cases new) auto
qed auto

lemma publish_Ok:
  assumes "bloom_ok (re_bloom W)" "publish W i k a t p s = Ok (Ok n, s')"
  shows "\<exists>bs f. bloomed W s \<union> {re_digest W p} \<subseteq> {x. sf_contains (re_bloom W) x f}
    \<and> s' = s\<lparr>rn_backends := bs, rn_bloom := f, rn_seen := snd (bs_insert (re_digest W p) (rn_seen s)),
         rn_recent := push_ring RECENT_CAPACITY (env_new (to_ascii_lowercase (trim i)) k (to_ascii_lowercase (trim a)) t p) (rn_recent s),
         rn_published := rn_published s + 1\<rparr>
    \<and> rn_running s \<and> length p \<le> MAX_PAYLOAD_BYTES \<and> trim i \<noteq> [] \<and> trim a \<noteq> [] \<and> length (trim i) \<le> 128 \<and> length (trim a) \<le> 128"
proof -
  let ?e = "env_new (to_ascii_lowercase (trim i)) k (to_ascii_lowercase (trim a)) t p"
  have p: "env_payload ?e = p" by (simp add: env_new_def)
  have g: "rn_running s" "length p \<le> MAX_PAYLOAD_BYTES" "trim i \<noteq> []" "trim a \<noteq> []" "length (trim i) \<le> 128" "length (trim a) \<le> 128"
    using assms(2) by (auto simp: publish_def Let_def split: if_splits)
  obtain s1 bs m where s1: "note_seen W (re_digest W p) s = Ok s1"
    and out: "hand_out (re_backend W) (encode_or_empty ?e) (rn_backends s1) 0 = Ok (m, bs)"
    and s': "s' = s1\<lparr>rn_recent := push_ring RECENT_CAPACITY ?e (rn_recent s1), rn_backends := bs, rn_published := rn_published s1 + 1\<rparr>"
    using assms(2) g p by (auto simp: publish_def Let_def)
  obtain f where f: "s1 = s\<lparr>rn_bloom := f, rn_seen := snd (bs_insert (re_digest W p) (rn_seen s))\<rparr>"
    "bloomed W s \<union> {re_digest W p} \<subseteq> {x. sf_contains (re_bloom W) x f}"
    using note_seen_Ok [OF assms(1) s1] by blast
  show ?thesis
    by (intro exI [of _ bs] exI [of _ f] conjI g f(2)) (simp add: s' f(1))
qed

lemma publish_Err: "publish W i k a t p s = Ok (Err m, s') \<Longrightarrow> s' = s"
  by (auto simp: publish_def Let_def split: if_splits)

subsection \<open>Runs\<close>

text \<open>
  The steps of a node: its operations, what the network does to its transports, and the checks of other code that
  shares the verification cache. A label records a payload that was published or taken as new.
\<close>

datatype relay_label = Published "byte list" | Taken "byte list"

primrec label_payload :: "relay_label \<Rightarrow> byte list" where
  "label_payload (Published p) = p"
| "label_payload (Taken p) = p"

primrec is_taken :: "relay_label \<Rightarrow> bool" where
  "is_taken (Published p) = False"
| "is_taken (Taken p) = True"

inductive relay_step ::
  "('b, 'f, 'e) relay_env \<Rightarrow> ('b, 'f, 'e) relay_node \<Rightarrow> relay_label list \<Rightarrow> ('b, 'f, 'e) relay_node \<Rightarrow> bool" for W where
  step_publish: "publish W i k a t p s = Ok (Ok n, s') \<Longrightarrow> utf8_valid (bytes_of i) \<Longrightarrow> utf8_valid (bytes_of a)
    \<Longrightarrow> k < 256 ^ 2 \<Longrightarrow> t < 256 ^ 8 \<Longrightarrow> relay_step W s [Published p] s'"
| step_publish_err: "publish W i k a t p s = Ok (Err m, s') \<Longrightarrow> relay_step W s [] s'"
| step_poll: "poll_payloads W s = Ok (ps, s') \<Longrightarrow> relay_step W s (map Taken ps) s'"
| step_start: "relay_step W s [] (snd (relay_start W s))"
| step_stop: "relay_step W s [] (relay_stop W s)"
| step_drain: "relay_step W s [] (snd (relay_drain s))"
| step_connect: "relay_step W s [] (snd (connect_i2p W d s))"
| step_add: "relay_step W s [] (add_backend b s)"
| step_network: "relay_step W s [] (s\<lparr>rn_backends := bs\<rparr>)"
| step_cache: "relay_step W s [] (s\<lparr>rn_cache := snd (verify_event_cached (re_event W) (re_cache_cap W) e (rn_cache s))\<rparr>)"
| step_clear: "relay_step W s [] (s\<lparr>rn_cache := clear_verified_cache (rn_cache s)\<rparr>)"

inductive relay_run ::
  "('b, 'f, 'e) relay_env \<Rightarrow> ('b, 'f, 'e) relay_node \<Rightarrow> relay_label list \<Rightarrow> ('b, 'f, 'e) relay_node \<Rightarrow> bool" for W s where
  run_start: "relay_run W s [] s"
| run_step: "relay_run W s log s1 \<Longrightarrow> relay_step W s1 ls s2 \<Longrightarrow> relay_run W s (log @ ls) s2"

subsection \<open>The invariant\<close>

lemma push_ring_bound: "length (push_ring cap x q) \<le> cap" and push_ring_subset: "set (push_ring cap x q) \<subseteq> insert x (set q)"
  by (auto simp: push_ring_def dest: in_set_dropD)

lemma bs_insert_set: "set (bs_set (snd (bs_insert k s))) \<subseteq> insert k (set (bs_set s))" if "bs_ok s"
proof (cases "k \<in> set (bs_set s)")
  case False
  have "set (bs_set (snd (bs_insert k s))) \<subseteq> set (bs_order s @ [k])"
    using bs_insert_fresh [OF that False] by (auto dest: in_set_dropD)
  then show ?thesis using that by (auto simp: bs_ok_def)
qed (auto simp: bs_insert_def)

definition relay_inv :: "('b, 'f, 'e) relay_env \<Rightarrow> ('b, 'f, 'e) relay_node \<Rightarrow> bool" where
  "relay_inv W s \<longleftrightarrow> length (rn_recent s) \<le> RECENT_CAPACITY \<and> (\<forall>e\<in>set (rn_recent s). env_wf e)
     \<and> length (rn_delivered s) \<le> DELIVERED_CAPACITY \<and> (\<forall>e\<in>set (rn_delivered s). vouched (re_event W) e)
     \<and> bs_ok (rn_seen s) \<and> bs_capacity (rn_seen s) = SEEN_CAPACITY \<and> set (bs_set (rn_seen s)) \<subseteq> bloomed W s
     \<and> cache_sound (re_event W) (rn_cache s)"

lemma relay_inv_new: "cache_sound (re_event W) g \<Longrightarrow> relay_inv W (relay_new W g)"
  by (simp add: relay_inv_def relay_new_def bs_ok_new) (simp add: bs_new_def)

lemma relay_inv_backends [simp]: "relay_inv W (s\<lparr>rn_backends := bs\<rparr>) = relay_inv W s"
  by (simp add: relay_inv_def)

lemma relay_inv_note:
  assumes "relay_inv W s" "bloomed W s \<union> {d} \<subseteq> {x. sf_contains (re_bloom W) x f}" "env_wf e" "\<forall>e\<in>set dl. vouched (re_event W) e"
    "length dl \<le> DELIVERED_CAPACITY"
  shows "relay_inv W (s\<lparr>rn_backends := bs, rn_bloom := f, rn_seen := snd (bs_insert d (rn_seen s)), rn_received := r, rn_delivered := dl,
      rn_recent := push_ring RECENT_CAPACITY e (rn_recent s), rn_published := p\<rparr>)"
proof -
  have "set (bs_set (snd (bs_insert d (rn_seen s)))) \<subseteq> {x. sf_contains (re_bloom W) x f}"
    using bs_insert_set [of "rn_seen s" d] assms(1,2) by (auto simp: relay_inv_def)
  moreover have "\<forall>x\<in>set (push_ring RECENT_CAPACITY e (rn_recent s)). env_wf x"
    using push_ring_subset [of RECENT_CAPACITY e "rn_recent s"] assms(1,3) by (auto simp: relay_inv_def)
  ultimately show ?thesis
    using assms bs_insert_ok [of "rn_seen s" d] push_ring_bound [of RECENT_CAPACITY e "rn_recent s"] by (simp add: relay_inv_def)
qed

lemma relay_inv_job:
  assumes "bloom_ok (re_bloom W)" "relay_inv W s" "env_wf e" "\<forall>x. v = Some x \<longrightarrow> vouched (re_event W) x"
    and "relay_job W idx e v s = Ok (new, s')"
  shows "relay_inv W s'"
proof -
  consider "s' = s" | event bs f where "v = Some event"
      "bloomed W s \<union> {re_digest W (env_payload e)} \<subseteq> {x. sf_contains (re_bloom W) x f}"
      "s' = s\<lparr>rn_backends := bs, rn_bloom := f, rn_seen := snd (bs_insert (re_digest W (env_payload e)) (rn_seen s)),
             rn_received := rn_received s + 1, rn_delivered := push_ring DELIVERED_CAPACITY event (rn_delivered s),
             rn_recent := push_ring RECENT_CAPACITY e (rn_recent s)\<rparr>"
    using relay_job_Ok [OF assms(1,5)] by blast
  then show ?thesis
  proof cases
    case 2
    have "\<forall>x\<in>set (push_ring DELIVERED_CAPACITY event (rn_delivered s)). vouched (re_event W) x"
      using push_ring_subset [of DELIVERED_CAPACITY event "rn_delivered s"] assms(2,4) 2(1) by (auto simp: relay_inv_def)
    from relay_inv_note [where bs = bs and r = "rn_received s + 1" and p = "rn_published s", OF assms(2) 2(2) assms(3) this push_ring_bound]
    show ?thesis using 2(3) by simp
  qed (use assms in simp)
qed

lemma frame_jobs_wf:
  "\<forall>j\<in>set jobs. env_wf (snd j) \<Longrightarrow> \<forall>j\<in>set (snd (push_jobs idx ps jobs)). env_wf (snd j)"
  "\<forall>j\<in>set jobs. env_wf (snd j) \<Longrightarrow> \<forall>j\<in>set (frame_jobs inb jobs). env_wf (snd j)"
proof -
  show push: "\<forall>j\<in>set (snd (push_jobs idx ps jobs)). env_wf (snd j)" if "\<forall>j\<in>set jobs. env_wf (snd j)" for idx ps jobs
    using that
  proof (induction idx ps jobs rule: push_jobs.induct)
    case (2 idx p ps jobs)
    show ?case
    proof (cases "length jobs \<ge> DELIVERED_CAPACITY \<or> env_from_bytes p = None")
      case True
      then show ?thesis using 2(1,3) by (cases "length jobs \<ge> DELIVERED_CAPACITY") simp_all
    next
      case False
      then obtain e where e: "env_from_bytes p = Some e" by blast
      then show ?thesis using False 2(2) [OF _ e] 2(3) env_from_bytes_wf [OF e] by simp
    qed
  qed simp
  show "\<forall>j\<in>set (frame_jobs inb jobs). env_wf (snd j)" if "\<forall>j\<in>set jobs. env_wf (snd j)"
    using that
  proof (induction inb jobs rule: frame_jobs.induct)
    case (2 idx ps rest jobs)
    obtain stop jobs' where j: "push_jobs idx ps jobs = (stop, jobs')" by fastforce
    then have "\<forall>j\<in>set jobs'. env_wf (snd j)" using push [OF 2(2), of idx ps] by simp
    then show ?case using 2(1) j by simp
  qed simp
qed

lemma verify_jobs_vouched:
  "cache_sound (re_event W) g \<Longrightarrow> verify_jobs W jobs g = (vs, g') \<Longrightarrow>
     cache_sound (re_event W) g' \<and> (\<forall>v\<in>set vs. \<forall>x. v = Some x \<longrightarrow> vouched (re_event W) x)"
proof (induction W jobs g arbitrary: vs g' rule: verify_jobs.induct)
  case (2 W idx e jobs g)
  obtain v g1 where v: "verified_event_payload W (env_payload e) g = (v, g1)" by fastforce
  obtain ws where ws: "verify_jobs W jobs g1 = (ws, g')" "vs = v # ws" using 2(3) v by (auto split: prod.splits)
  have "cache_sound (re_event W) g1 \<and> (\<forall>x. v = Some x \<longrightarrow> vouched (re_event W) x)"
  proof (cases "\<exists>x. fst (verified_event_payload W (env_payload e) g) = Some x \<or> g1 \<noteq> g")
    case False
    then show ?thesis using v 2(2) by auto
  next
    case True
    then obtain json ev where ev: "from_utf8 (env_payload e) = Some json" "re_from_json W json = Some ev"
      using v by (auto simp: verified_event_payload_def simp del: from_utf8_Some_iff split: option.splits)
    obtain ok where ok: "verify_event_cached (re_event W) (re_cache_cap W) ev g = (ok, g1)" "v = (if ok then Some ev else None)"
      using v ev by (auto simp: verified_event_payload_def simp del: from_utf8_Some_iff split: prod.splits)
    have "cache_sound (re_event W) g1" using cache_sound_step [OF 2(2), of "re_cache_cap W" ev] ok by simp
    moreover have "vouched (re_event W) ev" if ok
      using verify_event_yes [of "re_event W" "re_cache_cap W" ev g] ok(1) that 2(2) by (auto simp: vouched_def cache_sound_def)
    ultimately show ?thesis using ok(2) by simp
  qed
  then show ?case using 2(1) [OF v [symmetric] _ ws(1)] ws(2) by simp
qed auto


lemma relay_inv_jobs:
  "bloom_ok (re_bloom W) \<Longrightarrow> relay_inv W s \<Longrightarrow> \<forall>j\<in>set jobs. env_wf (snd j)
   \<Longrightarrow> \<forall>v\<in>set vs. \<forall>x. v = Some x \<longrightarrow> vouched (re_event W) x \<Longrightarrow> relay_jobs W jobs vs s = Ok (ps, s') \<Longrightarrow> relay_inv W s'"
proof (induction W jobs vs s arbitrary: ps s' rule: relay_jobs.induct)
  case (1 W idx e jobs v vs s)
  obtain new s1 qs where st: "relay_job W idx e v s = Ok (new, s1)" and rest: "relay_jobs W jobs vs s1 = Ok (qs, s')"
    using "1.prems"(5) by (auto split: if_splits)
  have "relay_inv W s1" using relay_inv_job [OF "1.prems"(1,2) _ _ st] "1.prems"(3,4) by simp
  then show ?case using "1.IH" [OF "1.prems"(1) _ _ _ rest] "1.prems"(3,4) by simp
qed auto

lemma relay_inv_poll:
  assumes "bloom_ok (re_bloom W)" "relay_inv W s" "poll_payloads W s = Ok (ps, s')"
  shows "relay_inv W s'"
proof -
  obtain inb bs where inb: "recv_all (re_backend W) 0 (rn_backends s) = (inb, bs)" by fastforce
  obtain vs g where vs: "verify_jobs W (frame_jobs inb []) (rn_cache s) = (vs, g)" by fastforce
  have g: "cache_sound (re_event W) g" "\<forall>v\<in>set vs. \<forall>x. v = Some x \<longrightarrow> vouched (re_event W) x"
    using verify_jobs_vouched [OF _ vs] assms(2) by (simp_all add: relay_inv_def)
  have run: "relay_jobs W (frame_jobs inb []) vs (s\<lparr>rn_backends := bs, rn_cache := g\<rparr>) = Ok (ps, s')"
    using assms(3) inb vs by (simp add: poll_payloads_def Let_def)
  show ?thesis
    by (rule relay_inv_jobs [OF assms(1) _ frame_jobs_wf(2) g(2) run]) (use assms(2) g(1) in \<open>simp_all add: relay_inv_def\<close>)
qed

lemma relay_inv_step: "relay_step W s ls s' \<Longrightarrow> bloom_ok (re_bloom W) \<Longrightarrow> relay_inv W s \<Longrightarrow> relay_inv W s'"
proof (induction rule: relay_step.induct)
  case (step_publish i k a t p s n s')
  obtain bs f where f: "bloomed W s \<union> {re_digest W p} \<subseteq> {x. sf_contains (re_bloom W) x f}"
    and s': "s' = s\<lparr>rn_backends := bs, rn_bloom := f, rn_seen := snd (bs_insert (re_digest W p) (rn_seen s)),
         rn_recent := push_ring RECENT_CAPACITY (env_new (to_ascii_lowercase (trim i)) k (to_ascii_lowercase (trim a)) t p) (rn_recent s),
         rn_published := rn_published s + 1\<rparr>"
    and g: "length p \<le> MAX_PAYLOAD_BYTES" "trim i \<noteq> []" "trim a \<noteq> []" "length (trim i) \<le> 128" "length (trim a) \<le> 128"
    using publish_Ok [OF step_publish(6,1)] by blast
  have "env_wf (env_new (to_ascii_lowercase (trim i)) k (to_ascii_lowercase (trim a)) t p)"
    by (rule env_wf_new) (use step_publish g in \<open>simp_all add: trim_lower utf8_trim\<close>)
  then show ?case
    using relay_inv_note [where bs = bs and r = "rn_received s" and p = "rn_published s + 1" and dl = "rn_delivered s", OF step_publish(7) f]
      step_publish(7) s' by (simp add: relay_inv_def)
next
  case (step_publish_err i k a t p s m s')
  then show ?case using publish_Err by blast
next
  case (step_poll s ps s')
  then show ?case using relay_inv_poll by blast
next
  case (step_cache s e)
  then show ?case using cache_sound_step by (auto simp: relay_inv_def)
qed (auto simp: relay_start_def relay_stop_def relay_drain_def connect_i2p_def add_backend_def relay_inv_def
    clear_verified_cache_def Let_def split: prod.splits)


interpretation relay: safe_machine "\<lambda>s. \<exists>g. cache_sound (re_event W) g \<and> s = relay_new W g"
  "\<lambda>s s'. bloom_ok (re_bloom W) \<and> (\<exists>ls. relay_step W s ls s')" "relay_inv W" for W :: "('b, 'f, 'e) relay_env"
  by unfold_locales (auto simp: relay_inv_new relay_inv_step)

lemma relay_run_steps: "relay_run W s log s' \<Longrightarrow> bloom_ok (re_bloom W) \<Longrightarrow> (\<lambda>s s'. bloom_ok (re_bloom W) \<and> (\<exists>ls. relay_step W s ls s'))\<^sup>*\<^sup>* s s'"
  by (induction rule: relay_run.induct) (auto intro: rtranclp.rtrancl_into_rtrancl)

lemma relay_run_inv:
  "relay_run W (relay_new W g) log s \<Longrightarrow> bloom_ok (re_bloom W) \<Longrightarrow> cache_sound (re_event W) g \<Longrightarrow> relay_inv W s"
  using relay.reachable_inv relay_run_steps by blast

text \<open>Every step keeps what the filter knows and adds the digests of its labels; what it takes was unknown.\<close>

lemma relay_step_seen:
  assumes "relay_step W s ls s'" "bloom_ok (re_bloom W)"
  shows "bloomed W s \<union> set (map (re_digest W \<circ> label_payload) ls) \<subseteq> bloomed W s'
    \<and> (\<forall>l\<in>set ls. is_taken l \<longrightarrow> re_digest W (label_payload l) \<notin> bloomed W s)
    \<and> sorted_wrt (\<lambda>x y. re_digest W (label_payload x) \<noteq> re_digest W (label_payload y)) ls"
  using assms
proof (induction rule: relay_step.induct)
  case (step_publish i k a t p s n s')
  then show ?case using publish_Ok [OF step_publish(6,1)] by auto
next
  case (step_publish_err i k a t p s m s')
  then show ?case using publish_Err by fastforce
next
  case (step_poll s ps s')
  obtain inb bs where inb: "recv_all (re_backend W) 0 (rn_backends s) = (inb, bs)" by fastforce
  obtain vs g where vs: "verify_jobs W (frame_jobs inb []) (rn_cache s) = (vs, g)" by fastforce
  have "relay_jobs W (frame_jobs inb []) vs (s\<lparr>rn_backends := bs, rn_cache := g\<rparr>) = Ok (ps, s')"
    using step_poll(1) inb vs by (simp add: poll_payloads_def Let_def)
  from relay_jobs_seen [OF step_poll(2) this]
  have "distinct (map (re_digest W) ps)" "set (map (re_digest W) ps) \<inter> bloomed W s = {}"
    "bloomed W s \<union> set (map (re_digest W) ps) \<subseteq> bloomed W s'" by simp_all
  then show ?case by (auto simp: sorted_wrt_map distinct_conv_nth sorted_wrt_iff_nth_less)
qed (auto simp: relay_start_def relay_stop_def relay_drain_def connect_i2p_def add_backend_def Let_def split: prod.splits)

text \<open>C16. Each payload is taken at most once in the life of a node, and never after it was published: whatever is published,
  polled, started, stopped, drained or delivered by the network, a payload taken as new has a digest different from that
  of every payload the node published or took before. This needs no assumption on the bounded set, whose entries are evicted.
\<close>

theorem relay_once:
  assumes "bloom_ok (re_bloom W)" "relay_run W (relay_new W g) log s"
  shows "sorted_wrt (\<lambda>x y. is_taken y \<longrightarrow> re_digest W (label_payload x) \<noteq> re_digest W (label_payload y)) log"
proof -
  have "set (map (re_digest W \<circ> label_payload) log) \<subseteq> bloomed W s
    \<and> sorted_wrt (\<lambda>x y. is_taken y \<longrightarrow> re_digest W (label_payload x) \<noteq> re_digest W (label_payload y)) log"
    using assms(2)
  proof (induction rule: relay_run.induct)
    case (run_step log s1 ls s2)
    note st = relay_step_seen [OF run_step(2) assms(1)]
    have "sorted_wrt (\<lambda>x y. is_taken y \<longrightarrow> re_digest W (label_payload x) \<noteq> re_digest W (label_payload y)) ls"
      using st by (auto intro: sorted_wrt_mono_rel)
    then show ?case using st run_step(3) by (fastforce simp: sorted_wrt_append)
  qed simp
  then show ?thesis by blast
qed

text \<open>C17. The state of a relay node stays well formed in every run that starts with a new node and a sound cache: the ring holds
  at most 10,000 well-formed envelopes, the application queue at most 4,096 events, the exact set at most 100,000 digests;
  every queued event has the id and signature key of an event that passed verification; and every digest in the exact
  set is known to the filter, so the exact set never changes a verdict.
\<close>

theorem relay_well_formed:
  assumes "bloom_ok (re_bloom W)" "cache_sound (re_event W) g" "relay_run W (relay_new W g) log s"
  shows "length (rn_recent s) \<le> RECENT_CAPACITY \<and> (\<forall>e\<in>set (rn_recent s). env_wf e)
    \<and> length (rn_delivered s) \<le> DELIVERED_CAPACITY \<and> (\<forall>e\<in>set (rn_delivered s). vouched (re_event W) e)
    \<and> bs_len (rn_seen s) \<le> SEEN_CAPACITY
    \<and> (\<forall>d. (sf_contains (re_bloom W) d (rn_bloom s) \<or> bs_contains d (rn_seen s)) = sf_contains (re_bloom W) d (rn_bloom s))"
proof -
  have inv: "relay_inv W s" using relay_run_inv assms by blast
  then have "bs_len (rn_seen s) \<le> SEEN_CAPACITY" using bs_len_order [of "rn_seen s"] by (simp add: relay_inv_def bs_ok_def)
  then show ?thesis using inv by (auto simp: relay_inv_def bs_contains_def)
qed


subsection \<open>The cache and the relay together\<close>

lemma verified_event_payload_yes:
  "from_utf8 p = Some j \<Longrightarrow> re_from_json W j = Some e \<Longrightarrow> fst (verify_event_cached (re_event W) (re_cache_cap W) e g)
   \<Longrightarrow> verified_event_payload W p g = (Some e, snd (verify_event_cached (re_event W) (re_cache_cap W) e g))"
  by (cases "verify_event_cached (re_event W) (re_cache_cap W) e g") (simp add: verified_event_payload_def del: from_utf8_Some_iff)

text \<open>A new payload at a node with one transport, where it came from: nothing is re-broadcast.\<close>

lemma relay_job_single:
  assumes "rn_backends s = [b]" "\<not> sf_contains (re_bloom W) (re_digest W (env_payload v)) (rn_bloom s)"
    "\<not> bs_contains (re_digest W (env_payload v)) (rn_seen s)" "sf_count (rn_bloom s) \<le> 10" "rn_received s \<le> 10"
  shows "relay_job W 0 v (Some e) s = Ok (True, s\<lparr>rn_bloom := rn_bloom s\<lparr>sf_filter :=
          bo_insert (re_bloom W) (bytes_of (re_digest W (env_payload v))) (sf_filter (rn_bloom s)), sf_count := sf_count (rn_bloom s) + 1\<rparr>,
        rn_seen := snd (bs_insert (re_digest W (env_payload v)) (rn_seen s)), rn_received := rn_received s + 1,
        rn_delivered := push_ring DELIVERED_CAPACITY e (rn_delivered s), rn_recent := push_ring RECENT_CAPACITY v (rn_recent s)\<rparr>)"
  using assms
  by (cases s; cases "into_incremented_hop v")
    (simp_all add: relay_job_def Let_def note_seen_def sf_insert_def add_u64_def re_broadcast_def split: res.split)

lemma forged_poll:
  assumes recv: "b_recv (re_backend W) b = ([d1, d2], b')"
    and dec: "env_from_bytes d1 = Some v1" "env_from_bytes d2 = Some v2"
    and json: "from_utf8 (env_payload v1) = Some j1" "re_from_json W j1 = Some e1"
      "from_utf8 (env_payload v2) = Some j2" "re_from_json W j2 = Some e2"
    and ev: "ev_verify (re_event W) e1" "\<not> ev_verify (re_event W) e2" "ev_id (re_event W) e2 = ev_id (re_event W) e1"
      "ev_sig (re_event W) e2 = ev_sig (re_event W) e1"
    and new: "\<not> sf_contains (re_bloom W) (re_digest W (env_payload v1)) (sf_new (re_bloom W) SEEN_CAPACITY)"
      "\<not> sf_contains (re_bloom W) (re_digest W (env_payload v2)) (sf_new (re_bloom W) SEEN_CAPACITY)"
      "\<forall>f. \<not> bo_contains (re_bloom W) f (bytes_of (re_digest W (env_payload v2))) \<longrightarrow>
        \<not> bo_contains (re_bloom W) (bo_insert (re_bloom W) (bytes_of (re_digest W (env_payload v1))) f) (bytes_of (re_digest W (env_payload v2)))"
      "re_digest W (env_payload v1) \<noteq> re_digest W (env_payload v2)"
  shows "\<exists>s'. poll_payloads W (add_backend b (relay_new W None)) = Ok ([env_payload v1, env_payload v2], s') \<and> rn_delivered s' = [e1, e2]"
proof -
  let ?E = "re_event W" and ?m = "re_cache_cap W"
  let ?p1 = "env_payload v1" and ?p2 = "env_payload v2"
  let ?g = "snd (verify_event_cached ?E ?m e1 None)"
  have "fst (verify_event_cached ?E ?m e1 None)" using ev(1) by (simp add: verify_event_yes)
  then have v1: "verified_event_payload W ?p1 None = (Some e1, ?g)"
    by (rule verified_event_payload_yes [OF json(1,2)])
  have "fst (verify_event_cached ?E ?m e2 ?g)" using verify_cache_replay [of ?E ?m e1 None e2] ev by (simp add: verify_event_yes)
  then obtain g2 where v2: "verified_event_payload W ?p2 ?g = (Some e2, g2)"
    using verified_event_payload_yes [OF json(3,4)] by blast
  define s1 where "s1 = (relay_new W None)\<lparr>rn_backends := [b'], rn_cache := g2\<rparr>"
  have poll: "poll_payloads W (add_backend b (relay_new W None)) = relay_jobs W [(0, v1), (0, v2)] [Some e1, Some e2] s1"
    using recv dec v1 v2 by (simp add: poll_payloads_def add_backend_def relay_new_def s1_def Let_def)
  define f where "f = (rn_bloom s1)\<lparr>sf_filter := bo_insert (re_bloom W) (bytes_of (re_digest W ?p1)) (sf_filter (rn_bloom s1)),
      sf_count := sf_count (rn_bloom s1) + 1\<rparr>"
  define bs where "bs = snd (bs_insert (re_digest W ?p1) (rn_seen s1))"
  define s2 where "s2 = s1\<lparr>rn_bloom := f, rn_seen := bs, rn_received := rn_received s1 + 1,
        rn_delivered := push_ring DELIVERED_CAPACITY e1 (rn_delivered s1), rn_recent := push_ring RECENT_CAPACITY v1 (rn_recent s1)\<rparr>"
  have j1: "relay_job W 0 v1 (Some e1) s1 = Ok (True, s2)"
    unfolding s2_def f_def bs_def
    by (rule relay_job_single [of s1 b']) (use new(1) in \<open>simp_all add: s1_def relay_new_def sf_new_def Let_def bs_contains_def bs_new_def\<close>)
  have "bs_ok (rn_seen s1)" by (simp add: s1_def relay_new_def bs_ok_new)
  then have "set (bs_set bs) \<subseteq> {re_digest W ?p1}" unfolding bs_def using bs_insert_set [of "rn_seen s1"] by (fastforce simp: s1_def relay_new_def bs_new_def)
  then have n2: "\<not> sf_contains (re_bloom W) (re_digest W ?p2) (rn_bloom s2)" "\<not> bs_contains (re_digest W ?p2) (rn_seen s2)"
    using new by (auto simp: s2_def s1_def f_def sf_contains_def bs_contains_def relay_new_def)
  have "sf_count (rn_bloom s2) = 1" "rn_received s2 = 1" "rn_backends s2 = [b']" "rn_delivered s2 = [e1]"
    by (simp_all add: s2_def s1_def f_def relay_new_def sf_new_def Let_def push_ring_def)
  then show ?thesis using relay_job_single [of s2 b' W v2 e2] n2 j1 by (auto simp: poll s2_def [symmetric] push_ring_def)
qed

text \<open>C40. Two frames reach a node through its only transport in one poll: an event that verifies, then one with the same id and
  signature and another content, which does not verify. The node takes both and hands both to the application.
\<close>

theorem relay_forged_content:
  assumes recv: "b_recv (re_backend W) b = ([d1, d2], b')"
    and dec: "env_from_bytes d1 = Some v1" "env_from_bytes d2 = Some v2"
    and json: "from_utf8 (env_payload v1) = Some j1" "re_from_json W j1 = Some e1"
      "from_utf8 (env_payload v2) = Some j2" "re_from_json W j2 = Some e2"
    and ev: "ev_verify (re_event W) e1" "\<not> ev_verify (re_event W) e2" "ev_id (re_event W) e2 = ev_id (re_event W) e1"
      "ev_sig (re_event W) e2 = ev_sig (re_event W) e1"
    and new: "\<not> sf_contains (re_bloom W) (re_digest W (env_payload v1)) (sf_new (re_bloom W) SEEN_CAPACITY)"
      "\<not> sf_contains (re_bloom W) (re_digest W (env_payload v2)) (sf_new (re_bloom W) SEEN_CAPACITY)"
      "\<forall>f. \<not> bo_contains (re_bloom W) f (bytes_of (re_digest W (env_payload v2))) \<longrightarrow>
        \<not> bo_contains (re_bloom W) (bo_insert (re_bloom W) (bytes_of (re_digest W (env_payload v1))) f) (bytes_of (re_digest W (env_payload v2)))"
      "re_digest W (env_payload v1) \<noteq> re_digest W (env_payload v2)"
  shows "\<exists>s'. poll_payloads W (add_backend b (relay_new W None)) = Ok ([env_payload v1, env_payload v2], s') \<and> rn_delivered s' = [e1, e2]"
  by (rule forged_poll [OF assms])

subsection \<open>How far a flood goes\<close>

text \<open>One hop on the wire: a node decodes the frame, increments the hop count and encodes it again.\<close>

definition flood_hop :: "byte list \<Rightarrow> byte list option" where
  "flood_hop d =
     (case env_from_bytes d of None \<Rightarrow> None | Some e \<Rightarrow>
        (case into_incremented_hop e of None \<Rightarrow> None | Some e' \<Rightarrow> (case env_to_bytes e' of Ok p \<Rightarrow> Some p | _ \<Rightarrow> None)))"

fun flood :: "nat \<Rightarrow> byte list \<Rightarrow> byte list option" where
  "flood 0 d = Some d"
| "flood (Suc n) d = (case flood n d of None \<Rightarrow> None | Some d' \<Rightarrow> flood_hop d')"

lemma into_incremented_hop_iff:
  "into_incremented_hop e = (if env_hop_count e < MAX_HOP_COUNT then Some (e\<lparr>env_hop_count := env_hop_count e + 1\<rparr>) else None)"
  by (simp add: into_incremented_hop_def increment_hop_in_place_def at_hop_limit_def)

lemma flood_hop_image:
  assumes "env_wf e"
  shows "flood_hop (env_image e)
    = (if env_hop_count e < MAX_HOP_COUNT then Some (env_image (e\<lparr>env_hop_count := env_hop_count e + 1\<rparr>)) else None)"
proof (cases "env_hop_count e < MAX_HOP_COUNT")
  case True
  then have "env_wf (e\<lparr>env_hop_count := env_hop_count e + 1\<rparr>)" using assms by (simp add: env_wf_def)
  then show ?thesis using True by (simp add: flood_hop_def env_image_decodes [OF assms] into_incremented_hop_iff to_bytes_wf)
qed (simp add: flood_hop_def env_image_decodes [OF assms] into_incremented_hop_iff)

text \<open>
  What a publisher with valid arguments puts on the wire travels exactly six hops: after \<open>n\<close> hops with \<open>n \<le> 6\<close>
  the frame decodes to the published envelope with hop count \<open>n\<close>, and there is no seventh.
\<close>

theorem flood_reach:
  assumes "utf8_valid (bytes_of i)" "utf8_valid (bytes_of a)" "trim i \<noteq> []" "trim a \<noteq> []" "length (trim i) \<le> 128"
    "length (trim a) \<le> 128" "k < 256 ^ 2" "t < 256 ^ 8" "length p \<le> MAX_PAYLOAD_BYTES"
  shows "if n \<le> MAX_HOP_COUNT
    then \<exists>d. flood n (encode_or_empty (env_new i k a t p)) = Some d \<and> env_from_bytes d = Some ((env_new i k a t p)\<lparr>env_hop_count := n\<rparr>)
    else flood n (encode_or_empty (env_new i k a t p)) = None"
proof -
  let ?e = "env_new i k a t p"
  have wf: "env_wf ?e" by (rule env_wf_new) (use assms in simp_all)
  then have wfn: "env_wf (?e\<lparr>env_hop_count := n\<rparr>)" if "n \<le> MAX_HOP_COUNT" for n using that by (simp add: env_wf_def)
  have out: "encode_or_empty ?e = env_image (?e\<lparr>env_hop_count := 0\<rparr>)"
    using to_bytes_wf [OF wf] by (simp add: encode_or_empty_def env_new_def)
  have "flood n (encode_or_empty ?e) = (if n \<le> MAX_HOP_COUNT then Some (env_image (?e\<lparr>env_hop_count := n\<rparr>)) else None)"
  proof (induction n)
    case (Suc n)
    then show ?case using flood_hop_image [OF wfn, of n] by auto
  qed (simp add: out)
  then show ?thesis using env_image_decodes [OF wfn, of n] by simp
qed

subsection \<open>Samples\<close>

definition sample_backend :: "byte list list backend_ops" where
  "sample_backend =
     \<lparr>b_kind = (\<lambda>_. KI2p), b_start = (\<lambda>b. (Ok (), b)), b_stop = (\<lambda>b. b), b_running = (\<lambda>_. True), b_broadcast = (\<lambda>p b. (Ok 1, b)),
      b_recv = (\<lambda>b. (b, [])), b_peers_count = (\<lambda>_. 1), b_new = (\<lambda>_ _. []), b_connect_i2p = (\<lambda>_ b. (Ok (), b))\<rparr>"

definition sample_bloom :: "byte list list bloom_ops" where
  "sample_bloom = \<lparr>bo_new = (\<lambda>_. []), bo_contains = (\<lambda>f x. x \<in> set f), bo_insert = (#), bo_clear = (\<lambda>_. [])\<rparr>"

definition sample_relay :: "(byte list list, byte list list, sample_event) relay_env" where
  "sample_relay =
     \<lparr>re_backend = sample_backend, re_bloom = sample_bloom, re_event = sample_event_prims,
      re_from_json = (\<lambda>s. case s of [i, c] \<Rightarrow> Some ([byte_of_char i], [byte_of_char c]) | _ \<Rightarrow> None),
      re_digest = str_of, re_cache_cap = 50000\<rparr>"

definition sample_envelope :: "string \<Rightarrow> mesh_envelope" where
  "sample_envelope s = env_new ''id'' 1 ''me'' 7 (bytes_of s)"

lemma sample_text: "utf8_valid (bytes_of ''id'')" "utf8_valid (bytes_of ''me'')" "trim ''id'' = ''id''" "trim ''me'' = ''me''"
  by code_simp+

lemma sample_envelope_decodes: "length s \<le> 100 \<Longrightarrow> env_from_bytes (env_image (sample_envelope s)) = Some (sample_envelope s)"
  by (rule env_image_decodes) (auto simp: sample_envelope_def sample_text intro!: env_wf_new)

lemma sample_payload: "env_payload (sample_envelope s) = bytes_of s"
  by (simp add: sample_envelope_def env_new_def)

lemma bloom_ok_sample: "bloom_ok (re_bloom sample_relay)"
  by (simp add: bloom_ok_def sample_relay_def sample_bloom_def)

lemma byte_of_char_inject: "byte_of_char c = byte_of_char d \<longleftrightarrow> c = d"
  by (metis char_of_byte_of_char)

lemma sample_ascii: "from_utf8 (bytes_of ''aa'') = Some ''aa''" "from_utf8 (bytes_of ''ab'') = Some ''ab''"
  by (simp_all add: ascii_def del: from_utf8_Some_iff)

theorem flood_reach_witness:
  "\<exists>d. flood 6 (encode_or_empty (env_new ''id'' 1 ''me'' 7 [1, 2])) = Some d
     \<and> env_from_bytes d = Some ((env_new ''id'' 1 ''me'' 7 [1, 2])\<lparr>env_hop_count := 6\<rparr>)"
  using flood_reach [of "''id''" "''me''" 1 7 "[1, 2]" 6] by (simp add: sample_text)

lemma sample_poll:
  "\<exists>s'. poll_payloads sample_relay (add_backend [env_image (sample_envelope ''aa''), env_image (sample_envelope ''ab'')] (relay_new sample_relay None))
      = Ok ([bytes_of ''aa'', bytes_of ''ab''], s')
     \<and> rn_delivered s' = [([byte_of_char (CHR ''a'')], [byte_of_char (CHR ''a'')]), ([byte_of_char (CHR ''a'')], [byte_of_char (CHR ''b'')])]"
  using forged_poll [of sample_relay "[env_image (sample_envelope ''aa''), env_image (sample_envelope ''ab'')]"
      "env_image (sample_envelope ''aa'')" "env_image (sample_envelope ''ab'')" "[]" "sample_envelope ''aa''" "sample_envelope ''ab''" "''aa''"
      "([byte_of_char (CHR ''a'')], [byte_of_char (CHR ''a'')])" "''ab''" "([byte_of_char (CHR ''a'')], [byte_of_char (CHR ''b'')])"]
    sample_envelope_decodes sample_ascii
  by (simp add: byte_of_char_inject sample_payload sample_relay_def sample_backend_def sample_bloom_def sample_event_prims_def sf_new_def sf_contains_def del: from_utf8_Some_iff)


theorem relay_forged_content_witness:
  "\<exists>s'. poll_payloads sample_relay (add_backend [env_image (sample_envelope ''aa''), env_image (sample_envelope ''ab'')] (relay_new sample_relay None))
      = Ok ([bytes_of ''aa'', bytes_of ''ab''], s')
     \<and> rn_delivered s' = [([byte_of_char (CHR ''a'')], [byte_of_char (CHR ''a'')]), ([byte_of_char (CHR ''a'')], [byte_of_char (CHR ''b'')])]"
  using relay_forged_content [of sample_relay "[env_image (sample_envelope ''aa''), env_image (sample_envelope ''ab'')]"
      "env_image (sample_envelope ''aa'')" "env_image (sample_envelope ''ab'')" "[]" "sample_envelope ''aa''" "sample_envelope ''ab''" "''aa''"
      "([byte_of_char (CHR ''a'')], [byte_of_char (CHR ''a'')])" "''ab''" "([byte_of_char (CHR ''a'')], [byte_of_char (CHR ''b'')])"]
    sample_envelope_decodes sample_ascii
  by (simp add: byte_of_char_inject sample_payload sample_relay_def sample_backend_def sample_bloom_def sample_event_prims_def sf_new_def sf_contains_def del: from_utf8_Some_iff)


lemma sample_run_poll:
  "\<exists>s. relay_run sample_relay (relay_new sample_relay None) [Taken (bytes_of ''aa''), Taken (bytes_of ''ab'')] s \<and> rn_delivered s \<noteq> []"
proof -
  let ?b = "[env_image (sample_envelope ''aa''), env_image (sample_envelope ''ab'')]"
  have 0: "relay_run sample_relay (relay_new sample_relay None) [] (add_backend ?b (relay_new sample_relay None))"
    using run_step [OF run_start step_add] by fastforce
  obtain s where "poll_payloads sample_relay (add_backend ?b (relay_new sample_relay None)) = Ok ([bytes_of ''aa'', bytes_of ''ab''], s)"
    and "rn_delivered s \<noteq> []" using sample_poll by auto
  with run_step [OF 0 step_poll] show ?thesis by (intro exI [of _ s]) fastforce
qed

theorem relay_once_witness:
  "\<exists>s. relay_run sample_relay (relay_new sample_relay None) [Taken (bytes_of ''aa''), Taken (bytes_of ''ab'')] s
     \<and> re_digest sample_relay (bytes_of ''aa'') \<noteq> re_digest sample_relay (bytes_of ''ab'')"
proof -
  obtain s where s: "relay_run sample_relay (relay_new sample_relay None) [Taken (bytes_of ''aa''), Taken (bytes_of ''ab'')] s"
    using sample_run_poll by blast
  then show ?thesis using relay_once [OF bloom_ok_sample s] by (intro exI [of _ s]) simp
qed

theorem relay_well_formed_witness:
  "\<exists>s. relay_run sample_relay (relay_new sample_relay None) [Taken (bytes_of ''aa''), Taken (bytes_of ''ab'')] s
     \<and> rn_delivered s \<noteq> [] \<and> vouched (re_event sample_relay) (hd (rn_delivered s)) \<and> length (rn_recent s) \<le> RECENT_CAPACITY
     \<and> bs_len (rn_seen s) \<le> SEEN_CAPACITY"
proof -
  obtain s where s: "relay_run sample_relay (relay_new sample_relay None) [Taken (bytes_of ''aa''), Taken (bytes_of ''ab'')] s"
    and "rn_delivered s \<noteq> []"
    using sample_run_poll by blast
  then show ?thesis using relay_well_formed [OF bloom_ok_sample _ s] by (intro exI [of _ s]) simp
qed

end
