(* ===== verification/LocalStore.thy ===== *)
theory LocalStore
  imports Tables Text
begin

section \<open>The local event store (relay-core/src/local\_store.rs)\<close>

text \<open>
  A store of the most recent events with filter subscriptions: a map from event ids to events, the ids in order of first
  insertion, and the filters of each subscriber. Filters and events are types of the \<open>nostr\<close> crate: their accessors and
  \<open>Filter::match_event\<close> are parameters. The operations run one after the other. Shown: the map and the queue
  hold the same ids and at most \<open>max_events\<close> of them; what a query returns, exactly; whom an insertion notifies.
\<close>

record ('f, 'e) filter_ops =
  fo_match :: "'f \<Rightarrow> 'e \<Rightarrow> bool"
  fo_limit :: "'f \<Rightarrow> nat option"
  fo_id_hex :: "'e \<Rightarrow> string"

record ('f, 'e) local_store =
  ls_events :: "(string, 'e) hmap"
  ls_subscriptions :: "(string, 'f list) hmap"
  ls_recent :: "string list"
  ls_max :: nat

definition ls_new :: "nat \<Rightarrow> ('f, 'e) local_store" where
  "ls_new max_events = \<lparr>ls_events = [], ls_subscriptions = [], ls_recent = [], ls_max = max max_events 1\<rparr>"

definition ls_subscribe :: "string \<Rightarrow> 'f list \<Rightarrow> ('f, 'e) local_store \<Rightarrow> ('f, 'e) local_store" where
  "ls_subscribe i fs s = s\<lparr>ls_subscriptions := hm_put i fs (ls_subscriptions s)\<rparr>"

definition ls_unsubscribe :: "string \<Rightarrow> ('f, 'e) local_store \<Rightarrow> bool \<times> ('f, 'e) local_store" where
  "ls_unsubscribe i s = (hm_has i (ls_subscriptions s), s\<lparr>ls_subscriptions := hm_del i (ls_subscriptions s)\<rparr>)"

definition ls_subscription_count :: "('f, 'e) local_store \<Rightarrow> nat" where
  "ls_subscription_count s = length (ls_subscriptions s)"

definition ls_event_count :: "('f, 'e) local_store \<Rightarrow> nat" where
  "ls_event_count s = length (ls_events s)"

definition ls_get_event :: "string \<Rightarrow> ('f, 'e) local_store \<Rightarrow> 'e option" where
  "ls_get_event i s = map_of (ls_events s) (to_ascii_lowercase (trim i))"

text \<open>The eviction loop of \<open>insert_event\<close>\<close>

function ls_evict :: "('f, 'e) local_store \<Rightarrow> ('f, 'e) local_store" where
  "ls_evict s =
     (if length (ls_recent s) > ls_max s then
        (case ls_recent s of
           [] \<Rightarrow> s
         | old # rest \<Rightarrow> ls_evict (s\<lparr>ls_recent := rest, ls_events := hm_del old (ls_events s)\<rparr>))
      else s)"
  by pat_completeness auto
termination
  by (relation "measure (\<lambda>s. length (ls_recent s))") auto

declare ls_evict.simps [simp del]

definition ls_insert_event :: "('f, 'e) filter_ops \<Rightarrow> 'e \<Rightarrow> ('f, 'e) local_store \<Rightarrow> string list \<times> ('f, 'e) local_store" where
  "ls_insert_event F ev s =
     (let i = fo_id_hex F ev;
          matched = map fst (filter (\<lambda>(sub, fs). list_ex (\<lambda>f. fo_match F f ev) fs) (ls_subscriptions s));
          was_new = \<not> hm_has i (ls_events s);
          s1 = s\<lparr>ls_events := hm_put i ev (ls_events s)\<rparr>
      in (matched, if was_new then ls_evict (s1\<lparr>ls_recent := ls_recent s1 @ [i]\<rparr>) else s1))"

text \<open>The loop of \<open>query\<close> over the ids, newest first\<close>

fun ls_scan :: "('f, 'e) filter_ops \<Rightarrow> 'f \<Rightarrow> nat \<Rightarrow> ('f, 'e) local_store \<Rightarrow> string list \<Rightarrow> 'e list \<Rightarrow> 'e list" where
  "ls_scan F flt limit s [] matched = matched"
| "ls_scan F flt limit s (i # ids) matched =
     (case map_of (ls_events s) i of
        None \<Rightarrow> ls_scan F flt limit s ids matched
      | Some ev \<Rightarrow>
          if fo_match F flt ev then
            let matched = matched @ [ev] in
            if length matched \<ge> limit then matched else ls_scan F flt limit s ids matched
          else ls_scan F flt limit s ids matched)"

definition ls_query :: "('f, 'e) filter_ops \<Rightarrow> 'f \<Rightarrow> ('f, 'e) local_store \<Rightarrow> 'e list" where
  "ls_query F flt s =
     ls_scan F flt (case fo_limit F flt of None \<Rightarrow> 100 | Some n \<Rightarrow> n) s (rev (ls_recent s)) []"

definition ls_clear :: "('f, 'e) local_store \<Rightarrow> ('f, 'e) local_store" where
  "ls_clear s = s\<lparr>ls_events := [], ls_subscriptions := [], ls_recent := []\<rparr>"

subsection \<open>The map and the queue stay in step\<close>

definition ls_inv :: "('f, 'e) filter_ops \<Rightarrow> ('f, 'e) local_store \<Rightarrow> bool" where
  "ls_inv F s \<longleftrightarrow> hm_wf (ls_events s) \<and> hm_wf (ls_subscriptions s) \<and> distinct (ls_recent s)
     \<and> set (ls_recent s) = fst ` set (ls_events s) \<and> length (ls_recent s) \<le> ls_max s
     \<and> (\<forall>(i, e)\<in>set (ls_events s). fo_id_hex F e = i)"

lemma ls_evict_step:
  assumes "hm_wf (ls_events s)" "distinct (ls_recent s)" "set (ls_recent s) = fst ` set (ls_events s)"
  shows "hm_wf (ls_events (ls_evict s)) \<and> distinct (ls_recent (ls_evict s))
    \<and> set (ls_recent (ls_evict s)) = fst ` set (ls_events (ls_evict s)) \<and> length (ls_recent (ls_evict s)) \<le> ls_max s
    \<and> ls_recent (ls_evict s) = drop (length (ls_recent s) - ls_max s) (ls_recent s) \<and> ls_max (ls_evict s) = ls_max s
    \<and> ls_subscriptions (ls_evict s) = ls_subscriptions s \<and> set (ls_events (ls_evict s)) \<subseteq> set (ls_events s)"
  using assms
proof (induction s rule: ls_evict.induct)
  case (1 s)
  show ?case
  proof (cases "length (ls_recent s) > ls_max s")
    case True
    then obtain old rest where o: "ls_recent s = old # rest" by (cases "ls_recent s") auto
    let ?s = "s\<lparr>ls_recent := rest, ls_events := hm_del old (ls_events s)\<rparr>"
    have st: "ls_evict s = ls_evict ?s" using True by (simp add: ls_evict.simps [of s] o)
    have pre: "hm_wf (ls_events ?s)" "distinct (ls_recent ?s)" using 1(2,3) o by simp_all
    have "fst ` set (hm_del old (ls_events s)) = fst ` set (ls_events s) - {old}" by (auto simp: set_hm_del)
    then have keys: "set (ls_recent ?s) = fst ` set (ls_events ?s)" using 1(3,4) o by auto
    have sub: "set (ls_events ?s) \<subseteq> set (ls_events s)" by (auto simp: set_hm_del)
    have d: "drop (length (ls_recent s) - ls_max s) (ls_recent s) = drop (length (ls_recent ?s) - ls_max ?s) (ls_recent ?s)"
      using True o by (simp add: Suc_diff_le)
    have m: "ls_max ?s = ls_max s" "ls_subscriptions ?s = ls_subscriptions s" by simp_all
    from 1(1) [OF True o pre keys] show ?thesis unfolding st d m using subset_trans [OF _ sub] by blast
  next
    case False
    then show ?thesis using 1(2-4) by (simp add: ls_evict.simps [of s])
  qed
qed

lemma ls_inv_new: "ls_inv F (ls_new n)"
  by (simp add: ls_inv_def ls_new_def)

lemma ls_inv_insert: "ls_inv F s \<Longrightarrow> ls_inv F (snd (ls_insert_event F ev s))"
proof (cases "hm_has (fo_id_hex F ev) (ls_events s)")
  case True
  assume inv: "ls_inv F s"
  define m where "m = hm_put (fo_id_hex F ev) ev (ls_events s)"
  have "fo_id_hex F ev \<in> fst ` set (ls_events s)" using True by (simp add: hm_has_iff map_of_eq_None_iff)
  then have keys: "fst ` set m = fst ` set (ls_events s)" by (auto simp: m_def)
  have ids: "\<forall>(i, e)\<in>set m. fo_id_hex F e = i" using inv by (auto simp: m_def ls_inv_def set_hm_put)
  have "snd (ls_insert_event F ev s) = s\<lparr>ls_events := m\<rparr>" using True by (simp add: ls_insert_event_def Let_def m_def)
  moreover have "hm_wf m" using inv by (simp add: m_def ls_inv_def)
  ultimately show ?thesis using inv keys ids by (simp add: ls_inv_def)
next
  case False
  assume inv: "ls_inv F s"
  define i where "i = fo_id_hex F ev"
  define t where "t = s\<lparr>ls_events := hm_put i ev (ls_events s), ls_recent := ls_recent s @ [i]\<rparr>"
  have ni: "i \<notin> set (ls_recent s)" using False inv by (auto simp: i_def ls_inv_def hm_has_iff map_of_eq_None_iff)
  have pre: "hm_wf (ls_events t)" "distinct (ls_recent t)" "set (ls_recent t) = fst ` set (ls_events t)"
    "\<forall>(i, e)\<in>set (ls_events t). fo_id_hex F e = i"
    using inv ni by (auto simp: t_def ls_inv_def set_hm_put i_def)
  have t: "ls_max t = ls_max s" "ls_subscriptions t = ls_subscriptions s" by (simp_all add: t_def)
  have "snd (ls_insert_event F ev s) = ls_evict t" using False by (simp add: ls_insert_event_def Let_def t_def i_def)
  moreover have ids: "\<forall>(i, e)\<in>set (ls_events (ls_evict t)). fo_id_hex F e = i" using ls_evict_step [OF pre(1-3)] pre(4) by blast
  have subs: "hm_wf (ls_subscriptions (ls_evict t))" using ls_evict_step [OF pre(1-3)] inv t by (simp add: ls_inv_def)
  have "ls_inv F (ls_evict t)"
    unfolding ls_inv_def by (intro conjI ids subs) (use ls_evict_step [OF pre(1-3)] in \<open>metis (no_types)\<close>)+
  ultimately show ?thesis by simp
qed

lemma ls_inv_others:
  "ls_inv F s \<Longrightarrow> ls_inv F (ls_subscribe i fs s)" "ls_inv F s \<Longrightarrow> ls_inv F (snd (ls_unsubscribe i s))" "ls_inv F s \<Longrightarrow> ls_inv F (ls_clear s)"
  by (simp_all add: ls_inv_def ls_subscribe_def ls_unsubscribe_def ls_clear_def)

subsection \<open>The abstract store\<close>

text \<open>
  What the pair of map and queue stands for: the events in the order of their first insertion. Inserting a known id
  replaces the event in place; a new one goes to the end, and the front is cut to the capacity.
\<close>

definition ls_abs :: "('f, 'e) local_store \<Rightarrow> (string \<times> 'e) list" where
  "ls_abs s = map (\<lambda>i. (i, the (map_of (ls_events s) i))) (ls_recent s)"

definition abs_insert :: "nat \<Rightarrow> string \<Rightarrow> 'e \<Rightarrow> (string \<times> 'e) list \<Rightarrow> (string \<times> 'e) list" where
  "abs_insert cap i ev q =
     (if i \<in> fst ` set q then map (\<lambda>(j, e). (j, if j = i then ev else e)) q
      else drop (Suc (length q) - cap) (q @ [(i, ev)]))"

datatype ('f, 'e) ls_op = LSubscribe string "'f list" | LUnsubscribe string | LInsert 'e | LClear

primrec ls_exec :: "('f, 'e) filter_ops \<Rightarrow> ('f, 'e) ls_op \<Rightarrow> ('f, 'e) local_store \<Rightarrow> ('f, 'e) local_store" where
  "ls_exec F (LSubscribe i fs) s = ls_subscribe i fs s"
| "ls_exec F (LUnsubscribe i) s = snd (ls_unsubscribe i s)"
| "ls_exec F (LInsert ev) s = snd (ls_insert_event F ev s)"
| "ls_exec F LClear s = ls_clear s"

primrec abs_exec :: "('f, 'e) filter_ops \<Rightarrow> nat \<Rightarrow> ('f, 'e) ls_op \<Rightarrow> (string \<times> 'e) list \<Rightarrow> (string \<times> 'e) list" where
  "abs_exec F cap (LSubscribe i fs) q = q"
| "abs_exec F cap (LUnsubscribe i) q = q"
| "abs_exec F cap (LInsert ev) q = abs_insert cap (fo_id_hex F ev) ev q"
| "abs_exec F cap LClear q = []"

lemma ls_inv_exec: "ls_inv F s \<Longrightarrow> ls_inv F (ls_exec F opn s)"
  by (cases opn) (simp_all add: ls_inv_insert ls_inv_others)

lemma map_of_evicted:
  assumes "hm_wf m" "hm_wf m'" "set m' \<subseteq> set m" "i \<in> fst ` set m'"
  shows "map_of m' i = map_of m i"
proof -
  obtain e where "map_of m' i = Some e" using assms(4) by (metis map_of_eq_None_iff not_None_eq)
  then show ?thesis using assms(1-3) by (metis hm_wf_def map_of_SomeD map_of_is_SomeI subsetD)
qed

lemma ls_abs_evict:
  assumes "hm_wf (ls_events s)" "distinct (ls_recent s)" "set (ls_recent s) = fst ` set (ls_events s)"
  shows "ls_abs (ls_evict s) = drop (length (ls_recent s) - ls_max s) (ls_abs s)"
proof -
  note ev = ls_evict_step [OF assms]
  have "map_of (ls_events (ls_evict s)) i = map_of (ls_events s) i" if "i \<in> set (ls_recent (ls_evict s))" for i
    by (rule map_of_evicted) (use ev assms(1) that in auto)
  then have "ls_abs (ls_evict s) = map (\<lambda>i. (i, the (map_of (ls_events s) i))) (ls_recent (ls_evict s))" by (simp add: ls_abs_def)
  also have "ls_recent (ls_evict s) = drop (length (ls_recent s) - ls_max s) (ls_recent s)" using ev by blast
  finally show ?thesis by (simp add: ls_abs_def drop_map)
qed

lemma fst_ls_abs: "ls_inv F s \<Longrightarrow> fst ` set (ls_abs s) = fst ` set (ls_events s)"
  by (simp add: ls_abs_def ls_inv_def image_image)

lemma ls_abs_insert:
  assumes inv: "ls_inv F s"
  shows "ls_abs (snd (ls_insert_event F ev s)) = abs_insert (ls_max s) (fo_id_hex F ev) ev (ls_abs s)"
proof (cases "hm_has (fo_id_hex F ev) (ls_events s)")
  case True
  then have "fo_id_hex F ev \<in> fst ` set (ls_abs s)" unfolding fst_ls_abs [OF inv] by (simp add: hm_has_iff map_of_eq_None_iff)
  then show ?thesis using True by (auto simp: abs_insert_def ls_insert_event_def Let_def ls_abs_def)
next
  case False
  define i where "i = fo_id_hex F ev"
  define t where "t = s\<lparr>ls_events := hm_put i ev (ls_events s), ls_recent := ls_recent s @ [i]\<rparr>"
  have ni: "i \<notin> set (ls_recent s)" using False inv by (auto simp: i_def ls_inv_def hm_has_iff map_of_eq_None_iff)
  have pre: "hm_wf (ls_events t)" "distinct (ls_recent t)" "set (ls_recent t) = fst ` set (ls_events t)"
    using inv ni by (auto simp: t_def ls_inv_def i_def)
  have t: "ls_abs t = ls_abs s @ [(i, ev)]" "length (ls_recent t) = Suc (length (ls_abs s))" "ls_max t = ls_max s"
    using ni by (auto simp: ls_abs_def t_def)
  have "i \<notin> fst ` set (ls_abs s)" using ni by (simp add: ls_abs_def image_image)
  moreover have "snd (ls_insert_event F ev s) = ls_evict t" using False by (simp add: ls_insert_event_def Let_def t_def i_def)
  ultimately show ?thesis using ls_abs_evict [OF pre] t by (simp add: abs_insert_def i_def)
qed

lemma ls_max_evict: "ls_max (ls_evict t) = ls_max t"
  by (induction t rule: ls_evict.induct) (subst ls_evict.simps, auto split: list.split)

lemma ls_max_exec: "ls_max (ls_exec F opn s) = ls_max s"
  by (cases opn) (simp_all add: ls_subscribe_def ls_unsubscribe_def ls_clear_def ls_insert_event_def Let_def ls_max_evict)

lemma ls_abs_exec: "ls_inv F s \<Longrightarrow> ls_abs (ls_exec F opn s) = abs_exec F (ls_max s) opn (ls_abs s)"
  by (cases opn) (simp_all add: ls_abs_insert, simp_all add: ls_abs_def ls_subscribe_def ls_unsubscribe_def ls_clear_def)

text \<open>The loop of \<open>query\<close>: a limit of 0 still lets the first match through.\<close>

lemma ls_scan_take:
  assumes "length matched < limit \<or> matched = []"
  shows "ls_scan F flt limit s ids matched = matched @ take (max 1 limit - length matched) (filter (fo_match F flt) (List.map_filter (map_of (ls_events s)) ids))"
  using assms
proof (induction ids arbitrary: matched)
  case (Cons i ids)
  show ?case
  proof (cases "map_of (ls_events s) i")
    case (Some ev)
    show ?thesis
    proof (cases "fo_match F flt ev \<and> Suc (length matched) < limit")
      case True
      then have "max 1 limit - length matched = Suc (max 1 limit - length (matched @ [ev]))" by auto
      then show ?thesis using True Some Cons.IH [of "matched @ [ev]"] by (simp add: map_filter_simps)
    next
      case False
      then have "max 1 limit - length matched = Suc 0" if "fo_match F flt ev" using that Cons.prems by auto
      then show ?thesis using False Some Cons by (auto simp: map_filter_simps Let_def)
    qed
  qed (use Cons in \<open>simp add: map_filter_simps\<close>)
qed (simp add: map_filter_simps)

lemma ls_query_abs:
  assumes "ls_inv F s"
  shows "ls_query F flt s = take (max 1 (case fo_limit F flt of None \<Rightarrow> 100 | Some n \<Rightarrow> n)) (filter (fo_match F flt) (rev (map snd (ls_abs s))))"
proof -
  have "map_of (ls_events s) i \<noteq> None" if "i \<in> set (ls_recent s)" for i
    using assms that by (auto simp: ls_inv_def map_of_eq_None_iff)
  then have "List.map_filter (map_of (ls_events s)) (rev (ls_recent s)) = map (\<lambda>i. the (map_of (ls_events s) i)) (rev (ls_recent s))"
    by (simp add: List.map_filter_def)
  then show ?thesis
    unfolding ls_query_def using ls_scan_take [of "[]" "case fo_limit F flt of None \<Rightarrow> 100 | Some n \<Rightarrow> n" F flt s "rev (ls_recent s)"]
    by (simp add: ls_abs_def rev_map comp_def)
qed


text \<open>C26. The local store implements the abstract one: after any sequence of subscriptions, insertions and clearings from a new
  store, its contents are those of the abstract store, at most \<open>max_events\<close> events, and a query returns the newest
  matching events up to the limit of the filter (100 by default; a limit of 0 still returns one).
\<close>

theorem local_store_refines:
  "let s = fold (ls_exec F) ops (ls_new n); q = fold (abs_exec F (max n 1)) ops [] in
     ls_abs s = q \<and> ls_event_count s \<le> max n 1
     \<and> ls_query F flt s = take (max 1 (case fo_limit F flt of None \<Rightarrow> 100 | Some k \<Rightarrow> k)) (filter (fo_match F flt) (rev (map snd q)))"
proof -
  define s where "s = fold (ls_exec F) ops (ls_new n)"
  have "ls_inv F s \<and> ls_max s = max n 1 \<and> ls_abs s = fold (abs_exec F (max n 1)) ops []"
    unfolding s_def
  proof (induction ops rule: rev_induct)
    case Nil
    then show ?case by (simp add: ls_inv_new) (simp add: ls_new_def ls_abs_def)
  next
    case (snoc opn ops)
    then show ?case by (simp add: ls_inv_exec ls_max_exec ls_abs_exec)
  qed
  moreover have "ls_event_count s = length (ls_recent s)" if "ls_inv F s"
  proof -
    have "length (ls_events s) = card (fst ` set (ls_events s))"
      using that distinct_card [of "map fst (ls_events s)"] by (simp add: ls_inv_def hm_wf_def)
    then show ?thesis using that distinct_card [of "ls_recent s"] by (simp add: ls_event_count_def ls_inv_def)
  qed
  ultimately show ?thesis unfolding s_def [symmetric] Let_def using ls_query_abs [of F s flt] by (auto simp: ls_inv_def)
qed

text \<open>Whom an insertion notifies: the subscribers one of whose filters matches.\<close>

lemma insert_notifies:
  "set (fst (ls_insert_event F ev s)) = {i. \<exists>fs. (i, fs) \<in> set (ls_subscriptions s) \<and> (\<exists>f\<in>set fs. fo_match F f ev)}"
  by (force simp: ls_insert_event_def Let_def list_ex_iff image_iff)

end
