(* ===== verification/Backends.thy ===== *)
theory Backends
  imports Relay
begin

section \<open>Mesh transports (relay-core/src/backends)\<close>

text \<open>
  The I2P and Freenet adapters behind \<open>trait MeshBackend\<close>, as state machines. The SAM session, the TCP streams and
  the Freenet node are external: the outcome of each call on them is an argument (a stream or an error, which writes
  failed, whether the put succeeded, the contract state read), and a stream is an opaque handle. The clock is an argument.
  The reader threads appear as the operations they perform on the shared queue.
\<close>

abbreviation RECEIVED_CAP :: nat where "RECEIVED_CAP \<equiv> 4096"
abbreviation MAX_INBOUND_STREAMS :: nat where "MAX_INBOUND_STREAMS \<equiv> 64"
abbreviation MAX_OUTBOUND_PEERS :: nat where "MAX_OUTBOUND_PEERS \<equiv> 32"
abbreviation OUTBOX_CAPACITY :: nat where "OUTBOX_CAPACITY \<equiv> 256"

subsection \<open>Frames on an I2P stream (i2p.rs)\<close>

text \<open>A length prefix of four bytes. \<open>read_frame\<close> works on the bytes the stream will yield and returns the rest.\<close>

definition encode_frame :: "byte list \<Rightarrow> byte list" where
  "encode_frame p = le_bytes 4 (length p) @ p"

definition read_frame :: "byte list \<Rightarrow> (byte list \<times> byte list) res" where
  "read_frame st =
     (if length st < 4 then Err ''read frame len failed''
      else let len = le_val (take 4 st); st = drop 4 st in
        if len = 0 \<or> len > MAX_ENVELOPE_BYTES then Err ''frame length exceeds mesh cap''
        else if length st < len then Err ''read frame payload failed''
        else Ok (take len st, drop len st))"

text \<open>\<open>reader_loop\<close>: frames until the stream errs, into a queue that drops its oldest frame.\<close>

function reader_loop :: "byte list \<Rightarrow> byte list list \<Rightarrow> byte list list" where
  "reader_loop st q =
     (case read_frame st of Ok (p, rest) \<Rightarrow> reader_loop rest (push_capped RECEIVED_CAP p q) | _ \<Rightarrow> q)"
  by pat_completeness auto
termination
  by (relation "measure (\<lambda>(st, q). length st)") (auto simp: read_frame_def Let_def split: if_splits)

declare reader_loop.simps [simp del]

subsection \<open>The I2P adapter\<close>

record 'st i2p_backend =
  ib_session :: bool
  ib_destination :: string
  ib_peers :: "(string, 'st \<times> nat) hmap"
  ib_running :: bool
  ib_received :: "byte list list"
  ib_started :: bool
  ib_inbound :: nat

definition i2p_new :: "'st i2p_backend" where
  "i2p_new = \<lparr>ib_session = False, ib_destination = [], ib_peers = [], ib_running = False, ib_received = [], ib_started = False, ib_inbound = 0\<rparr>"

text \<open>\<open>Iterator::min_by_key\<close>: the first entry with the least time stamp\<close>

fun oldest_peer :: "(string, 'st \<times> nat) hmap \<Rightarrow> string option" where
  "oldest_peer [] = None"
| "oldest_peer ((k, st, ts) # m) =
     (case oldest_peer m of
        None \<Rightarrow> Some k
      | Some k' \<Rightarrow> (if snd (the (map_of m k')) < ts then Some k' else Some k))"

text \<open>\<open>connect\<close>; also returned are the streams on which \<open>shutdown\<close> is called.\<close>

definition i2p_connect ::
  "string \<Rightarrow> 'st res \<Rightarrow> bool \<Rightarrow> nat \<Rightarrow> 'st i2p_backend \<Rightarrow> unit res \<times> 'st list \<times> 'st i2p_backend" where
  "i2p_connect dst conn clone_ok now b =
     (if \<not> ib_started b then (Err ''i2p backend not started'', [], b)
      else if \<not> ib_session b then (Err ''i2p session missing'', [], b)
      else case conn of
          Err m \<Rightarrow> (Err m, [], b)
        | Panic \<Rightarrow> (Panic, [], b)
        | Ok st \<Rightarrow>
            if \<not> clone_ok then (Err ''stream clone failed'', [], b)
            else
              let m = (if length (ib_peers b) \<ge> MAX_OUTBOUND_PEERS
                       then (case oldest_peer (ib_peers b) of None \<Rightarrow> ib_peers b | Some k \<Rightarrow> hm_del k (ib_peers b))
                       else ib_peers b);
                  closed = (case map_of m dst of None \<Rightarrow> [] | Some (old, _) \<Rightarrow> [old]);
                  m = hm_put dst (st, now) (hm_del dst m)
              in (Ok (), closed, b\<lparr>ib_peers := m\<rparr>))"

definition i2p_start :: "unit res \<Rightarrow> string \<Rightarrow> 'st i2p_backend \<Rightarrow> unit res \<times> 'st i2p_backend" where
  "i2p_start session_start dest b =
     (case session_start of
        Ok _ \<Rightarrow> (Ok (), b\<lparr>ib_destination := dest, ib_running := True, ib_started := True, ib_session := True, ib_inbound := 0\<rparr>)
      | Err m \<Rightarrow> (Err m, b)
      | Panic \<Rightarrow> (Panic, b))"

text \<open>The listener thread: one accepted stream; the flag says that a reader is spawned for it.\<close>

definition i2p_accept :: "'st i2p_backend \<Rightarrow> bool \<times> 'st i2p_backend" where
  "i2p_accept b =
     (if ib_inbound b \<ge> MAX_INBOUND_STREAMS then (False, b) else (True, b\<lparr>ib_inbound := ib_inbound b + 1\<rparr>))"

text \<open>A reader thread delivers a frame; a reader of the current listener ends (each start has its own counter).\<close>

definition i2p_deliver :: "byte list \<Rightarrow> 'st i2p_backend \<Rightarrow> 'st i2p_backend" where
  "i2p_deliver p b = b\<lparr>ib_received := push_capped RECEIVED_CAP p (ib_received b)\<rparr>"

definition i2p_reader_end :: "'st i2p_backend \<Rightarrow> 'st i2p_backend" where
  "i2p_reader_end b = b\<lparr>ib_inbound := ib_inbound b - 1\<rparr>"

definition i2p_stop :: "'st i2p_backend \<Rightarrow> 'st i2p_backend" where
  "i2p_stop b = b\<lparr>ib_started := False, ib_running := False, ib_peers := []\<rparr>"

text \<open>\<open>broadcast\<close>: \<open>clone_ok\<close> and \<open>write_ok\<close> say which streams could be cloned and written.\<close>

definition i2p_broadcast :: "('st \<Rightarrow> bool) \<Rightarrow> ('st \<Rightarrow> bool) \<Rightarrow> byte list \<Rightarrow> 'st i2p_backend \<Rightarrow> nat res \<times> ('st \<times> byte list) list \<times> 'st i2p_backend" where
  "i2p_broadcast clone_ok write_ok p b =
     (if \<not> ib_started b then (Ok 0, [], b)
      else if length p > MAX_ENVELOPE_BYTES then (Err ''payload exceeds mesh cap'', [], b)
      else let frame = encode_frame p;
               snapshot = filter (\<lambda>(d, st, _). clone_ok st) (ib_peers b);
               failed = map fst (filter (\<lambda>(d, st, _). \<not> write_ok st) snapshot);
               m = fold hm_del failed (ib_peers b)
           in (Ok (length m), map (\<lambda>(d, st, _). (st, frame)) snapshot, b\<lparr>ib_peers := m\<rparr>))"

definition i2p_recv :: "'st i2p_backend \<Rightarrow> byte list list \<times> 'st i2p_backend" where
  "i2p_recv b = (ib_received b, b\<lparr>ib_received := []\<rparr>)"

definition i2p_peers_count :: "'st i2p_backend \<Rightarrow> nat" where
  "i2p_peers_count b = length (ib_peers b)"

subsection \<open>The Freenet adapter (freenet.rs)\<close>

text \<open>
  The client slot is a flag (a connected client or none). The channel to the worker is a bounded queue while the worker
  runs; durations are in seconds.
\<close>

record freenet_backend =
  fb_client :: bool
  fb_outbox :: "byte list list option"
  fb_dropped :: nat
  fb_put_failures :: nat
  fb_received :: "byte list list"
  fb_last_state :: "byte list option"
  fb_started :: bool
  fb_connected :: bool
  fb_backoff :: nat
  fb_reconnect_at :: nat

definition freenet_new :: "nat \<Rightarrow> freenet_backend" where
  "freenet_new now =
     \<lparr>fb_client = False, fb_outbox = None, fb_dropped = 0, fb_put_failures = 0, fb_received = [], fb_last_state = None,
      fb_started = False, fb_connected = False, fb_backoff = 1, fb_reconnect_at = now\<rparr>"

definition state_changed :: "byte list option \<Rightarrow> byte list \<Rightarrow> byte list option \<times> byte list option" where
  "state_changed current incoming = (if current = Some incoming then (None, current) else (Some incoming, Some incoming))"

definition spawn_worker :: "freenet_backend \<Rightarrow> freenet_backend" where
  "spawn_worker b = (if fb_outbox b \<noteq> None then b else b\<lparr>fb_outbox := Some []\<rparr>)"

text \<open>The worker takes one payload: \<open>put_ok\<close> is the outcome of the contract put. (\<open>fetch_add\<close> wraps.)\<close>

definition worker_step :: "bool \<Rightarrow> freenet_backend \<Rightarrow> byte list option \<times> freenet_backend" where
  "worker_step put_ok b =
     (case fb_outbox b of
        Some (p # q) \<Rightarrow>
          let b1 = b\<lparr>fb_outbox := Some q\<rparr> in
          if \<not> fb_client b then (None, b1\<lparr>fb_put_failures := (fb_put_failures b + 1) mod 2 ^ 64\<rparr>)
          else if put_ok then (Some p, b1)
          else (None, b1\<lparr>fb_put_failures := (fb_put_failures b + 1) mod 2 ^ 64\<rparr>)
      | _ \<Rightarrow> (None, b))"

text \<open>\<open>reconnect\<close>, on the outcome of the connection attempt\<close>

definition reconnect :: "bool \<Rightarrow> freenet_backend \<Rightarrow> bool \<times> freenet_backend" where
  "reconnect conn_ok b =
     (if conn_ok then (True, b\<lparr>fb_client := True, fb_connected := True, fb_backoff := 1\<rparr>)
      else (False, b\<lparr>fb_client := False\<rparr>))"

definition freenet_start :: "bool \<Rightarrow> nat \<Rightarrow> freenet_backend \<Rightarrow> unit res \<times> freenet_backend" where
  "freenet_start conn_ok now b =
     (if \<not> conn_ok then (Err ''freenet connect failed'', b)
      else (Ok (), spawn_worker (b\<lparr>fb_client := True, fb_started := True, fb_connected := True, fb_backoff := 1, fb_reconnect_at := now\<rparr>)))"

text \<open>\<open>stop\<close>: the worker drains the queue with the outcomes \<open>puts\<close> before the client is dropped.\<close>

fun drain_worker :: "bool list \<Rightarrow> freenet_backend \<Rightarrow> freenet_backend" where
  "drain_worker [] b = b"
| "drain_worker (ok # puts) b = drain_worker puts (snd (worker_step ok b))"

definition freenet_stop :: "(nat \<Rightarrow> bool) \<Rightarrow> freenet_backend \<Rightarrow> freenet_backend" where
  "freenet_stop puts b =
     (let b1 = b\<lparr>fb_started := False, fb_connected := False\<rparr>;
          b2 = drain_worker (map puts [0..<length (case fb_outbox b of None \<Rightarrow> [] | Some q \<Rightarrow> q)]) b1
      in b2\<lparr>fb_outbox := None, fb_client := False\<rparr>)"

definition freenet_broadcast :: "byte list \<Rightarrow> freenet_backend \<Rightarrow> nat res \<times> freenet_backend" where
  "freenet_broadcast p b =
     (if \<not> fb_started b then (Ok 0, b)
      else if length p > MAX_ENVELOPE_BYTES then (Err ''freenet broadcast: payload exceeds MAX_ENVELOPE_BYTES'', b)
      else case fb_outbox b of
          None \<Rightarrow> (Err ''freenet outbox not running'', b)
        | Some q \<Rightarrow>
            if length q < OUTBOX_CAPACITY then (Ok 1, b\<lparr>fb_outbox := Some (q @ [p])\<rparr>)
            else (Err ''freenet outbox full'', b\<lparr>fb_dropped := (fb_dropped b + 1) mod 2 ^ 64\<rparr>))"

text \<open>
  \<open>recv\<close>: \<open>conn_ok\<close> is the outcome of a reconnection, \<open>later\<close> the clock after it, \<open>got\<close> the contract state
  or \<open>None\<close> on an error.
\<close>

definition freenet_recv :: "nat \<Rightarrow> bool \<Rightarrow> nat \<Rightarrow> byte list option \<Rightarrow> freenet_backend \<Rightarrow> byte list list \<times> freenet_backend" where
  "freenet_recv now conn_ok later got b =
     (let b1 = (if fb_started b \<and> \<not> fb_connected b \<and> now \<ge> fb_reconnect_at b then
                  (case reconnect conn_ok b of (ok, b') \<Rightarrow>
                     let delay = fb_backoff b' in
                     b'\<lparr>fb_connected := ok, fb_reconnect_at := later + delay, fb_backoff := min (delay * 2) 30\<rparr>)
                else b);
          b2 = (if fb_started b1 \<and> fb_connected b1 \<and> fb_client b1 then
                  (case got of
                     None \<Rightarrow> b1\<lparr>fb_connected := False\<rparr>
                   | Some st \<Rightarrow>
                       (case state_changed (fb_last_state b1) st of (new, cur) \<Rightarrow>
                          b1\<lparr>fb_last_state := cur, fb_received := fb_received b1 @ (case new of None \<Rightarrow> [] | Some x \<Rightarrow> [x])\<rparr>))
                else b1)
      in (fb_received b2, b2\<lparr>fb_received := []\<rparr>))"

definition freenet_peers_count :: "freenet_backend \<Rightarrow> nat" where
  "freenet_peers_count b = (if fb_started b then 1 else 0)"

subsection \<open>Frames survive the stream\<close>

lemma read_frame_encode:
  assumes "p \<noteq> []" "length p \<le> MAX_ENVELOPE_BYTES"
  shows "read_frame (encode_frame p @ rest) = Ok (p, rest)"
proof -
  have "le_val (le_bytes 4 (length p)) = length p" using assms(2) by (intro le_val_bytes_id) simp
  then show ?thesis using assms by (simp add: read_frame_def encode_frame_def Let_def)
qed

interpretation i2p_queue: fifo i2p_deliver ib_received RECEIVED_CAP
  by unfold_locales (simp_all add: i2p_deliver_def push_capped_def)

text \<open>
  What the adapter writes on a stream, the reader on the other side puts into its queue: any sequence of frames of
  legal length arrives complete and in order, followed only by what an incomplete tail leaves out.
\<close>

lemma reader_loop_frames:
  assumes "\<forall>p\<in>set ps. p \<noteq> [] \<and> length p \<le> MAX_ENVELOPE_BYTES" "\<forall>x. read_frame rest \<noteq> Ok x"
  shows "reader_loop (concat (map encode_frame ps) @ rest) q = fold (push_capped RECEIVED_CAP) ps q"
  using assms(1)
proof (induction ps arbitrary: q)
  case Nil
  then show ?case using assms(2) by (simp add: reader_loop.simps [of rest] split: res.split)
next
  case (Cons p ps)
  then show ?case by (simp add: reader_loop.simps [of "encode_frame p @ _"] read_frame_encode)
qed

theorem i2p_stream_delivers:
  fixes b :: "'a i2p_backend"
  assumes "\<forall>p\<in>set ps. p \<noteq> [] \<and> length p \<le> MAX_ENVELOPE_BYTES" "length rest < 4"
  shows "reader_loop (concat (map encode_frame ps) @ rest) (ib_received b) = ib_received (fold i2p_deliver ps b)
    \<and> (length (ib_received b) + length ps \<le> RECEIVED_CAP \<longrightarrow>
        reader_loop (concat (map encode_frame ps) @ rest) (ib_received b) = ib_received b @ ps)"
proof -
  have push: "push_capped RECEIVED_CAP p (ib_received b) = ib_received (i2p_deliver p b)" for p and b :: "'a i2p_backend"
    by (simp add: i2p_deliver_def)
  have "fold (push_capped RECEIVED_CAP) ps (ib_received b) = ib_received (fold i2p_deliver ps b)"
    by (induction ps arbitrary: b) (simp_all add: push)
  moreover have "\<forall>x. read_frame rest \<noteq> Ok x" using assms(2) by (simp add: read_frame_def)
  ultimately show ?thesis using reader_loop_frames [OF assms(1)] i2p_queue.fold_push_items [of b ps] by simp
qed

theorem i2p_stream_delivers_witness:
  "reader_loop (concat (map encode_frame [[1, 2], [3]]) @ [9]) (ib_received (i2p_new :: unit i2p_backend)) = [[1, 2], [3]]"
  using i2p_stream_delivers [of "[[1, 2], [3]]" "[9]" "i2p_new :: unit i2p_backend", THEN conjunct2] by (simp add: i2p_new_def)

subsection \<open>Bounds of the I2P adapter\<close>

definition i2p_inv :: "'st i2p_backend \<Rightarrow> bool" where
  "i2p_inv b \<longleftrightarrow> hm_wf (ib_peers b) \<and> length (ib_peers b) \<le> MAX_OUTBOUND_PEERS \<and> length (ib_received b) \<le> RECEIVED_CAP
     \<and> ib_inbound b \<le> MAX_INBOUND_STREAMS"

lemma oldest_peer_Some: "m \<noteq> [] \<Longrightarrow> \<exists>k \<in> fst ` set m. oldest_peer m = Some k"
proof (induction m rule: oldest_peer.induct)
  case (2 k st ts m)
  then consider "m = []" | j where "j \<in> fst ` set m" "oldest_peer m = Some j" by blast
  then show ?case by cases (simp, cases "snd (the (map_of m (the (oldest_peer m)))) < ts", auto)
qed simp

lemma length_hm_del_mem: "k \<in> fst ` set m \<Longrightarrow> length (hm_del k m) < length m"
  unfolding hm_del_def by (elim imageE, rule length_filter_less) auto

lemma hm_del_absent: "map_of (hm_del k m) k = None"
  by simp

lemma i2p_connect_inv:
  assumes "i2p_inv b"
  shows "i2p_inv (snd (snd (i2p_connect dst conn clone_ok now b)))"
proof -
  define m where "m = (if length (ib_peers b) \<ge> MAX_OUTBOUND_PEERS
      then (case oldest_peer (ib_peers b) of None \<Rightarrow> ib_peers b | Some k \<Rightarrow> hm_del k (ib_peers b)) else ib_peers b)"
  have "length m < MAX_OUTBOUND_PEERS \<and> hm_wf m"
  proof (cases "length (ib_peers b) \<ge> MAX_OUTBOUND_PEERS")
    case True
    then obtain k where "k \<in> fst ` set (ib_peers b)" "oldest_peer (ib_peers b) = Some k" using oldest_peer_Some [of "ib_peers b"] by fastforce
    then show ?thesis using True assms length_hm_del_mem [of k "ib_peers b"] by (simp add: m_def i2p_inv_def)
  qed (use assms in \<open>simp add: m_def i2p_inv_def\<close>)
  then have "length (hm_put dst x (hm_del dst m)) \<le> MAX_OUTBOUND_PEERS" "hm_wf (hm_put dst x (hm_del dst m))" for x
    using length_hm_del [of dst m] by (auto simp: length_hm_put)
  then show ?thesis using assms unfolding i2p_connect_def m_def [symmetric] Let_def
    by (simp add: i2p_inv_def split: res.split)
qed

lemma fold_hm_del: "hm_wf m \<Longrightarrow> hm_wf (fold hm_del ks m) \<and> length (fold hm_del ks m) \<le> length m"
proof (induction ks arbitrary: m)
  case (Cons k ks)
  then show ?case using Cons.IH [of "hm_del k m"] length_hm_del [of k m] by fastforce
qed simp

inductive i2p_step :: "'st i2p_backend \<Rightarrow> 'st i2p_backend \<Rightarrow> bool" where
  "i2p_step b (snd (snd (i2p_connect dst conn clone_ok now b)))"
| "i2p_step b (snd (i2p_start r dest b))"
| "i2p_step b (i2p_stop b)"
| "i2p_step b (snd (i2p_accept b))"
| "i2p_step b (i2p_deliver p b)"
| "i2p_step b (i2p_reader_end b)"
| "i2p_step b (snd (snd (i2p_broadcast c w p b)))"
| "i2p_step b (snd (i2p_recv b))"

lemma i2p_inv_step: "i2p_step b b' \<Longrightarrow> i2p_inv b \<Longrightarrow> i2p_inv b'"
proof (induction rule: i2p_step.induct)
  case (1 b dst conn clone_ok now)
  then show ?case by (rule i2p_connect_inv)
next
  case (5 b p)
  then show ?case using i2p_queue.push_bound [of b p] by (auto simp: i2p_inv_def i2p_deliver_def)
next
  case (7 b c w p)
  then show ?case using fold_hm_del [of "ib_peers b"] by (auto simp: i2p_inv_def i2p_broadcast_def Let_def intro: order_trans)
qed (auto simp: i2p_inv_def i2p_start_def i2p_stop_def i2p_accept_def i2p_reader_end_def i2p_recv_def split: res.split)

interpretation i2p: safe_machine "\<lambda>b. b = i2p_new" i2p_step i2p_inv
proof unfold_locales
  fix b :: "'st i2p_backend"
  show "b = i2p_new \<Longrightarrow> i2p_inv b" by (simp add: i2p_inv_def i2p_new_def)
qed (rule i2p_inv_step)


text \<open>
  The I2P adapter stays within its bounds in every state reached from a new one: at most 32 outbound peers, 64 inbound
  readers and 4,096 queued frames.
\<close>

lemma i2p_bounded:
  "i2p_step\<^sup>*\<^sup>* i2p_new b \<Longrightarrow> i2p_peers_count b \<le> MAX_OUTBOUND_PEERS \<and> ib_inbound b \<le> MAX_INBOUND_STREAMS \<and> length (ib_received b) \<le> RECEIVED_CAP"
  using i2p.reachable_inv [of i2p_new b] by (simp add: i2p_inv_def i2p_peers_count_def)

text \<open>
  A full adapter that connects to a new destination drops its oldest peer from the table without shutting its stream
  down: only the stream of the same destination is ever shut down.
\<close>

lemma i2p_eviction_leaves_stream_open:
  assumes "ib_started b" "ib_session b" "length (ib_peers b) \<ge> MAX_OUTBOUND_PEERS" "map_of (ib_peers b) dst = None" "hm_wf (ib_peers b)"
  shows "\<exists>k b'. i2p_connect dst (Ok st) True now b = (Ok (), [], b') \<and> oldest_peer (ib_peers b) = Some k
    \<and> map_of (ib_peers b) k \<noteq> None \<and> map_of (ib_peers b') k = None"
proof -
  obtain k where k: "k \<in> fst ` set (ib_peers b)" "oldest_peer (ib_peers b) = Some k"
    using oldest_peer_Some [of "ib_peers b"] assms(3) by fastforce
  have m: "map_of (ib_peers b) k \<noteq> None" using k(1) by (simp add: map_of_eq_None_iff)
  then have "k \<noteq> dst" using assms(4) by auto
  then show ?thesis using assms k(2) m by (simp add: i2p_connect_def Let_def)
qed

text \<open>What the relay hands to the adapter is a legal frame, and the peer decodes it to the same envelope.\<close>

lemma length_env_image: "env_wf e \<Longrightarrow> 24 \<le> length (env_image e) \<and> length (env_image e) \<le> MAX_ENVELOPE_BYTES"
  by (simp add: env_image_def env_wf_def)

lemma encode_or_empty_wf: "env_wf e \<Longrightarrow> encode_or_empty e = env_image e"
  by (simp add: encode_or_empty_def to_bytes_wf)

lemma i2p_carries_envelope:
  assumes "env_wf e" "ib_started b" "i2p_broadcast c w (encode_or_empty e) b = (r, written, b')" "(st, f) \<in> set written"
  shows "\<exists>p. read_frame f = Ok (p, []) \<and> env_from_bytes p = Some e"
proof -
  have f: "f = encode_frame (env_image e)"
    using assms length_env_image [OF assms(1)] by (auto simp: i2p_broadcast_def Let_def encode_or_empty_wf)
  have "env_image e \<noteq> []" using length_env_image [OF assms(1)] by auto
  then show ?thesis
    using read_frame_encode [of "env_image e" "[]"] length_env_image [OF assms(1)] env_image_decodes [OF assms(1)] by (simp add: f)
qed

subsection \<open>The Freenet adapter\<close>

definition freenet_inv :: "freenet_backend \<Rightarrow> bool" where
  "freenet_inv b \<longleftrightarrow> (case fb_outbox b of None \<Rightarrow> True | Some q \<Rightarrow> length q \<le> OUTBOX_CAPACITY)
     \<and> (fb_started b \<longrightarrow> fb_outbox b \<noteq> None) \<and> 1 \<le> fb_backoff b \<and> fb_backoff b \<le> 30 \<and> fb_received b = []"

inductive freenet_step :: "freenet_backend \<Rightarrow> freenet_backend \<Rightarrow> bool" where
  "freenet_step b (snd (freenet_start ok now b))"
| "freenet_step b (freenet_stop puts b)"
| "freenet_step b (snd (worker_step ok b))"
| "freenet_step b (snd (freenet_broadcast p b))"
| "freenet_step b (snd (freenet_recv now ok later got b))"

lemma worker_step_inv: "freenet_inv b \<Longrightarrow> freenet_inv (snd (worker_step ok b))"
  by (auto simp: freenet_inv_def worker_step_def Let_def split: option.splits list.splits)

lemma worker_step_outbox: "fb_outbox (snd (worker_step ok b)) = map_option tl (fb_outbox b)"
  by (auto simp: worker_step_def Let_def split: option.splits list.splits)

lemma worker_step_frame:
  "fb_started (snd (worker_step ok b)) = fb_started b" "fb_backoff (snd (worker_step ok b)) = fb_backoff b"
  "fb_received (snd (worker_step ok b)) = fb_received b"
  by (auto simp: worker_step_def Let_def split: option.splits list.splits)

lemma drain_worker_frame:
  "fb_started (drain_worker puts b) = fb_started b \<and> fb_backoff (drain_worker puts b) = fb_backoff b \<and> fb_received (drain_worker puts b) = fb_received b
   \<and> fb_outbox (drain_worker puts b) = map_option (drop (length puts)) (fb_outbox b)"
proof (induction puts arbitrary: b)
  case Nil
  then show ?case by (simp add: option.map_ident)
next
  case (Cons ok puts)
  then show ?case by (cases "fb_outbox b") (simp_all add: worker_step_frame worker_step_outbox drop_Suc)
qed

lemma freenet_inv_step: "freenet_step b b' \<Longrightarrow> freenet_inv b \<Longrightarrow> freenet_inv b'"
proof (induction rule: freenet_step.induct)
  case (2 b puts)
  then show ?case by (simp add: freenet_inv_def freenet_stop_def Let_def drain_worker_frame)
next
  case (3 b ok)
  then show ?case by (rule worker_step_inv)
next
  case (5 b now ok later got)
  then show ?case by (auto simp: freenet_inv_def freenet_recv_def reconnect_def Let_def split: option.splits prod.splits)
qed (auto simp: freenet_inv_def freenet_start_def spawn_worker_def freenet_broadcast_def split: option.splits)

interpretation freenet: safe_machine "\<lambda>b. \<exists>now. b = freenet_new now" freenet_step freenet_inv
proof unfold_locales
  fix b
  show "\<exists>now. b = freenet_new now \<Longrightarrow> freenet_inv b" by (auto simp: freenet_inv_def freenet_new_def)
qed (rule freenet_inv_step)

text \<open>
  Stopping drains: the worker tries every queued payload before the client goes, so a started adapter loses a payload only
  to a full outbox or a failed put, and both are counted.
\<close>

lemma freenet_broadcast_accounted:
  assumes "freenet_inv b" "fb_started b" "length p \<le> MAX_ENVELOPE_BYTES" "freenet_broadcast p b = (r, b')"
  shows "(\<exists>q. fb_outbox b = Some q \<and> fb_outbox b' = Some (q @ [p]) \<and> r = Ok 1)
    \<or> fb_dropped b' = (fb_dropped b + 1) mod 2 ^ 64 \<and> (\<exists>m. r = Err m)"
  using assms by (auto simp: freenet_inv_def freenet_broadcast_def split: option.splits if_splits)

end
