(* ===== verification/Wot.thy ===== *)
theory Wot
  imports Tables Text
begin

section \<open>Web of trust (identity-core/src/wot.rs)\<close>

text \<open>
  Who is how far away in the follow graph: distance 0 is the user, 1 whom the user follows, 2 whom those follow, 3 the
  rest. Both searches are breadth first over a contact table with caps on its edges, and stop after as many queue entries
  as there are users. The trust score is floating-point arithmetic and stays a parameter \<open>score\<close>; the graph on top of
  \<open>petgraph\<close> is not modelled. Shown: what the searches compute when the caps are not reached, that both agree, where the
  introducers come from, the bound and the staleness of the cache, and that the stop rule loses peers.
\<close>

record wot_user =
  wu_pubkey :: string
  wu_contacts :: "string list"

record 'f trust_score =
  tsc_score :: 'f
  tsc_distance :: nat
  tsc_mutual_count :: nat

record 'f wot_update =
  wup_pubkey :: string
  wup_distance :: nat
  wup_trust_score :: 'f
  wup_introduced_by :: "string list option"

text \<open>\<open>count_mutual\<close>: the loop over the second list, with the set of what it has seen\<close>

fun mutual_loop :: "string list \<Rightarrow> string list \<Rightarrow> string list \<Rightarrow> nat \<Rightarrow> nat" where
  "mutual_loop set_a [] seen n = n"
| "mutual_loop set_a (b # bs) seen n =
     (let bl = to_ascii_lowercase b in
      mutual_loop set_a bs (hs_insert bl seen) (if bl \<notin> set seen \<and> bl \<in> set set_a then n + 1 else n))"

definition count_mutual :: "string list \<Rightarrow> string list \<Rightarrow> nat" where
  "count_mutual as bs = (if as = [] \<or> bs = [] then 0 else mutual_loop (map to_ascii_lowercase as) bs [] 0)"

definition compute_distance :: "string \<Rightarrow> string \<Rightarrow> string list \<Rightarrow> nat \<Rightarrow> nat" where
  "compute_distance user target follows mutual =
     (if eq_ignore_ascii_case user target then 0
      else if list_ex (\<lambda>f. eq_ignore_ascii_case f target) follows then 1
      else if mutual > 0 then 2
      else 3)"

definition compute_trust_score ::
  "(nat \<Rightarrow> nat \<Rightarrow> nat \<Rightarrow> 'f) \<Rightarrow> string \<Rightarrow> string \<Rightarrow> string list \<Rightarrow> string list \<Rightarrow> 'f trust_score" where
  "compute_trust_score score user target user_contacts target_contacts =
     (let mutual = count_mutual user_contacts target_contacts;
          d = compute_distance user target user_contacts mutual
      in \<lparr>tsc_score = score d mutual mutual, tsc_distance = d, tsc_mutual_count = mutual\<rparr>)"

subsection \<open>The contact table\<close>

type_synonym contact_map = "(string, string list) hmap"

definition add_contacts :: "nat \<Rightarrow> nat \<Rightarrow> wot_user \<Rightarrow> contact_map \<times> nat \<Rightarrow> contact_map \<times> nat" where
  "add_contacts max_contacts max_edges u st =
     (case st of (m, total_edges) \<Rightarrow>
        if total_edges \<ge> max_edges then (if hm_has (wu_pubkey u) m then m else hm_put (wu_pubkey u) [] m, total_edges)
        else let slice = take max_contacts (wu_contacts u) in (hm_put (wu_pubkey u) slice m, total_edges + length slice))"

definition build_contacts :: "nat \<Rightarrow> nat \<Rightarrow> wot_user list \<Rightarrow> contact_map" where
  "build_contacts max_contacts max_edges users = fst (fold (add_contacts max_contacts max_edges) users ([], 0))"

subsection \<open>Peers by distance\<close>

text \<open>The inner loop of \<open>partition_wot_peers\<close>, and the outer one with what is left of \<open>max_processed\<close>.\<close>

fun visit :: "nat \<Rightarrow> string list \<Rightarrow> (string, nat) hmap \<Rightarrow> (string \<times> nat) list \<Rightarrow> (string, nat) hmap \<times> (string \<times> nat) list" where
  "visit new_dist [] dists queue = (dists, queue)"
| "visit new_dist (c # cs) dists queue =
     (if hm_has c dists then visit new_dist cs dists queue
      else visit new_dist cs (hm_put c new_dist dists) (if new_dist < 2 then queue @ [(c, new_dist)] else queue))"

fun wot_bfs :: "contact_map \<Rightarrow> nat \<Rightarrow> (string \<times> nat) list \<Rightarrow> (string, nat) hmap \<Rightarrow> (string, nat) hmap" where
  "wot_bfs m budget [] dists = dists"
| "wot_bfs m 0 (x # queue) dists = dists"
| "wot_bfs m (Suc budget) ((current, d) # queue) dists =
     (case map_of m current of
        None \<Rightarrow> wot_bfs m budget queue dists
      | Some cs \<Rightarrow> (case visit (min (d + 1) 3) cs dists queue of (dists', queue') \<Rightarrow> wot_bfs m budget queue' dists'))"

definition distance_of :: "(string, nat) hmap \<Rightarrow> string \<Rightarrow> nat" where
  "distance_of dists p = (case map_of dists p of None \<Rightarrow> 3 | Some d \<Rightarrow> d)"

definition push_peer :: "nat \<Rightarrow> string \<Rightarrow> (nat, string list) hmap \<Rightarrow> (nat, string list) hmap" where
  "push_peer d p m = hm_put d ((case map_of m d of None \<Rightarrow> [] | Some ps \<Rightarrow> ps) @ [p]) m"

definition partition_wot_peers :: "string \<Rightarrow> wot_user list \<Rightarrow> nat \<Rightarrow> (nat, string list) hmap" where
  "partition_wot_peers self users max_distance =
     (if max_distance = 0 \<or> users = [] then []
      else let m = build_contacts 2000 100000 users;
               dists = wot_bfs m (min (length users) 10000) [(self, 0)] [(self, 0)]
           in fold (\<lambda>u r. let d = distance_of dists (wu_pubkey u) in
                      if d > 0 \<and> d \<le> max_distance then push_peer d (wu_pubkey u) r else r) users [])"

subsection \<open>The full update\<close>

abbreviation MAX_INTRODUCERS :: nat where "MAX_INTRODUCERS \<equiv> 64"

definition introduce :: "string \<Rightarrow> string list \<Rightarrow> string \<Rightarrow> string \<Rightarrow> (string, string list) hmap \<Rightarrow> (string, string list) hmap" where
  "introduce self self_contacts current c intro =
     (let is = (case map_of intro c of None \<Rightarrow> [] | Some is \<Rightarrow> is);
          is' = (if length is < MAX_INTRODUCERS \<and> (current \<noteq> self \<or> c \<in> set self_contacts) \<and> current \<notin> set is
                 then is @ [current] else is)
      in hm_put c is' intro)"

fun visit_intro ::
  "string \<Rightarrow> string list \<Rightarrow> string \<Rightarrow> nat \<Rightarrow> string list \<Rightarrow> (string, nat) hmap \<Rightarrow> (string, string list) hmap \<Rightarrow> (string \<times> nat) list
     \<Rightarrow> (string, nat) hmap \<times> (string, string list) hmap \<times> (string \<times> nat) list" where
  "visit_intro self sc current nd [] dists intro queue = (dists, intro, queue)"
| "visit_intro self sc current nd (c # cs) dists intro queue =
     (case map_of dists c of
        Some existing \<Rightarrow>
          if nd > existing then visit_intro self sc current nd cs dists intro queue
          else visit_intro self sc current nd cs dists (introduce self sc current c intro) queue
      | None \<Rightarrow>
          visit_intro self sc current nd cs (hm_put c nd dists) (introduce self sc current c intro)
            (if nd < 2 then queue @ [(c, nd)] else queue))"

fun recalc_bfs ::
  "string \<Rightarrow> string list \<Rightarrow> contact_map \<Rightarrow> nat \<Rightarrow> (string \<times> nat) list \<Rightarrow> (string, nat) hmap \<Rightarrow> (string, string list) hmap
     \<Rightarrow> (string, nat) hmap \<times> (string, string list) hmap" where
  "recalc_bfs self sc m budget [] dists intro = (dists, intro)"
| "recalc_bfs self sc m 0 (x # queue) dists intro = (dists, intro)"
| "recalc_bfs self sc m (Suc budget) ((current, d) # queue) dists intro =
     (case map_of m current of
        None \<Rightarrow> recalc_bfs self sc m budget queue dists intro
      | Some cs \<Rightarrow>
          (case visit_intro self sc current (min (d + 1) 3) cs dists intro queue of (dists', intro', queue') \<Rightarrow>
             recalc_bfs self sc m budget queue' dists' intro'))"

definition recalculate_wot :: "(nat \<Rightarrow> nat \<Rightarrow> nat \<Rightarrow> 'f) \<Rightarrow> string \<Rightarrow> wot_user list \<Rightarrow> 'f wot_update list" where
  "recalculate_wot score self users =
     (let m = build_contacts 5000 500000 users;
          self_contacts = (case map_of m self of None \<Rightarrow> [] | Some cs \<Rightarrow> cs);
          (dists, intro) = recalc_bfs self self_contacts m (min (length users) 10000) [(self, 0)] [(self, 0)] [(self, [])]
      in map (\<lambda>u.
           let d = distance_of dists (wu_pubkey u);
               mutual = length (filter (\<lambda>c. c \<in> set self_contacts) (wu_contacts u));
               is = map_of intro (wu_pubkey u)
           in \<lparr>wup_pubkey = wu_pubkey u, wup_distance = d,
               wup_trust_score = score d mutual (case is of None \<Rightarrow> 0 | Some l \<Rightarrow> length l),
               wup_introduced_by = (case is of None \<Rightarrow> None | Some l \<Rightarrow> if l = [] then None else Some l)\<rparr>) users)"

subsection \<open>The cache of partitions\<close>

type_synonym wot_key = "string \<times> nat"

record wot_cache =
  wc_map :: "(wot_key, (nat, string list) hmap) hmap"
  wc_order :: "wot_key list"

text \<open>The eviction loop; an empty queue clears the map.\<close>

function wc_evict :: "wot_cache \<Rightarrow> wot_cache" where
  "wc_evict c =
     (if length (wc_map c) \<ge> 16 then
        (case wc_order c of
           [] \<Rightarrow> c\<lparr>wc_map := []\<rparr>
         | old # rest \<Rightarrow> wc_evict (c\<lparr>wc_order := rest, wc_map := hm_del old (wc_map c)\<rparr>))
      else c)"
  by pat_completeness auto
termination
  by (relation "measure (\<lambda>c. length (wc_order c))") auto

declare wc_evict.simps [simp del]

definition get_wot_peers_by_distance :: "string \<Rightarrow> wot_user list \<Rightarrow> nat \<Rightarrow> wot_cache \<Rightarrow> (nat, string list) hmap \<times> wot_cache" where
  "get_wot_peers_by_distance self users max_distance cache =
     (if length users > 64 then
        (case map_of (wc_map cache) (self, max_distance) of
           Some cached \<Rightarrow> (cached, cache)
         | None \<Rightarrow>
             let result = partition_wot_peers self users max_distance;
                 key = (self, max_distance);
                 c = wc_evict cache
             in (result, c\<lparr>wc_order := filter (\<lambda>k. k \<noteq> key) (wc_order c) @ [key], wc_map := hm_put key result (wc_map c)\<rparr>))
      else (partition_wot_peers self users max_distance, cache))"

definition invalidate_wot_peers_cache :: "wot_cache \<Rightarrow> wot_cache" where
  "invalidate_wot_peers_cache c = c\<lparr>wc_map := [], wc_order := []\<rparr>"

subsection \<open>Counting\<close>

lemma mutual_loop_count:
  "set seen = to_ascii_lowercase ` set done_b \<Longrightarrow> n = card (set set_a \<inter> to_ascii_lowercase ` set done_b)
   \<Longrightarrow> mutual_loop set_a bs seen n = card (set set_a \<inter> to_ascii_lowercase ` (set done_b \<union> set bs))"
proof (induction bs arbitrary: seen n done_b)
  case (Cons b bs)
  let ?bl = "to_ascii_lowercase b"
  have s: "set (hs_insert ?bl seen) = to_ascii_lowercase ` set (b # done_b)" using Cons.prems(1) by auto
  have "(if ?bl \<notin> set seen \<and> ?bl \<in> set set_a then n + 1 else n) = card (set set_a \<inter> to_ascii_lowercase ` set (b # done_b))"
    using Cons.prems by (auto simp: insert_absorb Int_insert_right)
  then show ?case using Cons.IH [OF s] by (simp add: Let_def)
qed simp

text \<open>The mutual contacts are counted once each, whatever their case and repetitions.\<close>

lemma count_mutual_card: "count_mutual as bs = card (to_ascii_lowercase ` set as \<inter> to_ascii_lowercase ` set bs)"
  using mutual_loop_count [of "[]" "[]" 0 "map to_ascii_lowercase as" bs] by (simp add: count_mutual_def)

subsection \<open>Both searches walk alike\<close>

lemma visit_intro_visit:
  "visit_intro self sc current nd cs dists intro queue = (d, i, q) \<Longrightarrow> visit nd cs dists queue = (d, q)"
  by (induction nd cs dists queue arbitrary: intro rule: visit.induct) (auto simp: hm_has_iff split: option.splits if_splits)

lemma recalc_bfs_dists: "fst (recalc_bfs self sc m budget queue dists intro) = wot_bfs m budget queue dists"
proof (induction m budget queue dists arbitrary: intro rule: wot_bfs.induct)
  case (3 m budget current d queue dists)
  show ?case
  proof (cases "map_of m current")
    case (Some cs)
    obtain d' i' q' where v: "visit_intro self sc current (min (d + 1) 3) cs dists intro queue = (d', i', q')" by (metis prod_cases3)
    then show ?thesis using Some visit_intro_visit [OF v] 3(2) [OF Some] by simp
  qed (use 3(1) in simp)
qed simp_all

text \<open>What one node's contacts add: each unknown contact once, with the new distance, queued when that is below 2.\<close>

lemma visit_spec:
  assumes "visit nd cs dists queue = (dists', queue')"
  shows "map_of dists' = (\<lambda>x. if map_of dists x = None \<and> x \<in> set cs then Some nd else map_of dists x)
    \<and> (\<exists>new. distinct new \<and> set new = {c \<in> set cs. map_of dists c = None} \<and> queue' = queue @ (if nd < 2 then map (\<lambda>c. (c, nd)) new else []))"
  using assms
proof (induction cs arbitrary: dists queue)
  case Nil
  then show ?case by (auto intro: exI [of _ "[]"])
next
  case (Cons c cs)
  show ?case
  proof (cases "hm_has c dists")
    case True
    then obtain y where "map_of dists c = Some y" by (auto simp: hm_has_iff)
    then show ?thesis using True Cons by (fastforce simp: fun_eq_iff)
  next
    case False
    then have c: "map_of dists c = None" by (simp add: hm_has_iff)
    let ?q = "if nd < 2 then queue @ [(c, nd)] else queue"
    have v: "visit nd cs (hm_put c nd dists) ?q = (dists', queue')" using Cons.prems False by simp
    from Cons.IH [OF v] obtain new where new: "map_of dists' = (\<lambda>x. if map_of (hm_put c nd dists) x = None \<and> x \<in> set cs then Some nd else map_of (hm_put c nd dists) x)"
      "distinct new" "set new = {x \<in> set cs. map_of (hm_put c nd dists) x = None}" "queue' = ?q @ (if nd < 2 then map (\<lambda>c. (c, nd)) new else [])"
      by blast
    have "distinct (c # new)" "set (c # new) = {x \<in> set (c # cs). map_of dists x = None}"
      using new(2,3) c by (auto split: if_splits)
    moreover have "queue' = queue @ (if nd < 2 then map (\<lambda>c. (c, nd)) (c # new) else [])" using new(4) by simp
    moreover have "map_of dists' = (\<lambda>x. if map_of dists x = None \<and> x \<in> set (c # cs) then Some nd else map_of dists x)"
      using new(1) c by (auto simp: fun_eq_iff)
    ultimately show ?thesis by blast
  qed
qed

text \<open>Once only entries at distance 1 are queued, the search adds their contacts at distance 2.\<close>

lemma wot_bfs_second:
  assumes "length cs \<le> budget"
  shows "map_of (wot_bfs m budget (map (\<lambda>c. (c, 1)) cs) dists)
    = (\<lambda>x. if map_of dists x = None \<and> (\<exists>c\<in>set cs. \<exists>l. map_of m c = Some l \<and> x \<in> set l) then Some 2 else map_of dists x)"
  using assms
proof (induction cs arbitrary: budget dists)
  case (Cons c cs)
  then obtain b where b: "budget = Suc b" "length cs \<le> b" by (cases budget) auto
  show ?case
  proof (cases "map_of m c")
    case None
    then show ?thesis using Cons.IH [OF b(2)] b(1) by (simp add: fun_eq_iff)
  next
    case (Some l)
    obtain dists' queue' where v: "visit 2 l dists (map (\<lambda>c. (c, 1)) cs) = (dists', queue')" by fastforce
    have d: "map_of dists' = (\<lambda>x. if map_of dists x = None \<and> x \<in> set l then Some 2 else map_of dists x)"
      and q: "queue' = map (\<lambda>c. (c, 1)) cs" using visit_spec [OF v] by auto
    show ?thesis using Cons.IH [OF b(2), of dists'] b(1) Some v q d by (auto simp: fun_eq_iff numeral_2_eq_2)
  qed
qed simp

lemma wot_bfs_distances:
  assumes "Suc (card (set (case map_of m self of None \<Rightarrow> [] | Some l \<Rightarrow> l) - {self})) \<le> budget"
  shows "distance_of (wot_bfs m budget [(self, 0)] [(self, 0)]) x =
    (if x = self then 0
     else if \<exists>l. map_of m self = Some l \<and> x \<in> set l then 1
     else if \<exists>l c l'. map_of m self = Some l \<and> c \<in> set l \<and> map_of m c = Some l' \<and> x \<in> set l' then 2
     else 3)"
proof (cases "map_of m self")
  case None
  obtain b where "budget = Suc b" using assms by (cases budget) simp_all
  then have "wot_bfs m budget [(self, 0)] [(self, 0)] = [(self, 0)]" using None by simp
  then show ?thesis using None by (simp add: distance_of_def)
next
  case (Some l)
  obtain b where b: "budget = Suc b" "card (set l - {self}) \<le> b" using assms Some by (cases budget) auto
  obtain dists' queue' where v: "visit 1 l [(self, 0)] [] = (dists', queue')" by fastforce
  note d = conjunct1 [OF visit_spec [OF v]]
  from conjunct2 [OF visit_spec [OF v]] obtain new where
    sp: "distinct new \<and> set new = {c \<in> set l. map_of [(self, 0::nat)] c = None} \<and> queue' = [] @ (if (1::nat) < 2 then map (\<lambda>c. (c, 1)) new else [])" ..
  note new = conjunct1 [OF sp] conjunct1 [OF conjunct2 [OF sp]] conjunct2 [OF conjunct2 [OF sp]]
  have ns: "set new = set l - {self}" unfolding new(2) by auto
  have q: "queue' = map (\<lambda>c. (c, 1)) new" using new(3) by simp
  have len: "length new \<le> b" using b(2) distinct_card [OF new(1)] ns by simp
  have bfs: "wot_bfs m budget [(self, 0)] [(self, 0)] = wot_bfs m b queue' dists'" using b(1) Some v by simp
  have val: "map_of (wot_bfs m budget [(self, 0)] [(self, 0)]) x =
      (if map_of dists' x = None \<and> (\<exists>c\<in>set l - {self}. \<exists>l. map_of m c = Some l \<and> x \<in> set l) then Some 2 else map_of dists' x)"
    unfolding bfs q wot_bfs_second [OF len] ns ..
  have dx: "map_of dists' x = (if x = self then Some 0 else if x \<in> set l then Some 1 else None)" by (simp add: d)
  have "(\<exists>c\<in>set l - {self}. \<exists>l. map_of m c = Some l \<and> x \<in> set l) \<longleftrightarrow> (\<exists>c l'. c \<in> set l \<and> map_of m c = Some l' \<and> x \<in> set l')"
    if "x \<notin> set l"
  proof
    assume "\<exists>c l'. c \<in> set l \<and> map_of m c = Some l' \<and> x \<in> set l'"
    then obtain c l' where c: "c \<in> set l" "map_of m c = Some l'" "x \<in> set l'" by blast
    then have "c \<noteq> self" using Some that by auto
    then show "\<exists>c\<in>set l - {self}. \<exists>l. map_of m c = Some l \<and> x \<in> set l" using c by blast
  qed blast
  then show ?thesis unfolding distance_of_def val dx Some
    by (cases "x = self"; cases "x \<in> set l") simp_all
qed

subsection \<open>Distances\<close>

text \<open>The contact table without the caps, when the users have different keys.\<close>

definition follows :: "wot_user list \<Rightarrow> string \<Rightarrow> string \<Rightarrow> bool" where
  "follows users a b \<longleftrightarrow> (\<exists>u\<in>set users. wu_pubkey u = a \<and> b \<in> set (wu_contacts u))"

definition within_caps :: "nat \<Rightarrow> nat \<Rightarrow> wot_user list \<Rightarrow> bool" where
  "within_caps max_contacts max_edges users \<longleftrightarrow>
     distinct (map wu_pubkey users) \<and> (\<forall>u\<in>set users. length (wu_contacts u) \<le> max_contacts)
     \<and> sum_list (map (length \<circ> wu_contacts) users) < max_edges"

lemma build_contacts_fold:
  assumes "distinct (map wu_pubkey users)" "\<forall>u\<in>set users. length (wu_contacts u) \<le> mc"
    "t + sum_list (map (length \<circ> wu_contacts) users) < me" "\<forall>u\<in>set users. map_of m (wu_pubkey u) = None"
  shows "map_of (fst (fold (add_contacts mc me) users (m, t)))
    = (\<lambda>x. case map_of (map (\<lambda>u. (wu_pubkey u, wu_contacts u)) users) x of None \<Rightarrow> map_of m x | Some l \<Rightarrow> Some l)"
  using assms
proof (induction users arbitrary: m t)
  case (Cons u users)
  have st: "add_contacts mc me u (m, t) = (hm_put (wu_pubkey u) (wu_contacts u) m, t + length (wu_contacts u))"
    using Cons.prems by (simp add: add_contacts_def Let_def)
  have nu: "map_of (map (\<lambda>u. (wu_pubkey u, wu_contacts u)) users) (wu_pubkey u) = None"
    using Cons.prems(1) by (auto simp: map_of_eq_None_iff image_image)
  have "map_of (fst (fold (add_contacts mc me) users (hm_put (wu_pubkey u) (wu_contacts u) m, t + length (wu_contacts u))))
    = (\<lambda>x. case map_of (map (\<lambda>u. (wu_pubkey u, wu_contacts u)) users) x of None \<Rightarrow> map_of (hm_put (wu_pubkey u) (wu_contacts u) m) x | Some l \<Rightarrow> Some l)"
    by (rule Cons.IH) (use Cons.prems in \<open>auto simp: image_iff\<close>)
  then show ?case using nu by (auto simp: st fun_eq_iff split: option.split)
qed auto

lemma build_contacts_exact:
  assumes "within_caps mc me users"
  shows "map_of (build_contacts mc me users) = map_of (map (\<lambda>u. (wu_pubkey u, wu_contacts u)) users)"
  using assms build_contacts_fold [of users mc 0 me "[]"]
  by (auto simp: build_contacts_def within_caps_def fun_eq_iff split: option.split)

lemma contacts_follows:
  assumes "distinct (map wu_pubkey users)"
  shows "follows users a b \<longleftrightarrow> (\<exists>l. map_of (map (\<lambda>u. (wu_pubkey u, wu_contacts u)) users) a = Some l \<and> b \<in> set l)"
proof
  assume "follows users a b"
  then obtain u where u: "u \<in> set users" "wu_pubkey u = a" "b \<in> set (wu_contacts u)" by (auto simp: follows_def)
  have "map_of (map (\<lambda>u. (wu_pubkey u, wu_contacts u)) users) a = Some (wu_contacts u)"
    by (rule map_of_is_SomeI) (use u(1,2) assms in \<open>auto simp: comp_def\<close>)
  then show "\<exists>l. map_of (map (\<lambda>u. (wu_pubkey u, wu_contacts u)) users) a = Some l \<and> b \<in> set l" using u(3) by blast
qed (auto simp: follows_def dest!: map_of_SomeD)

definition wot_distance :: "wot_user list \<Rightarrow> string \<Rightarrow> string \<Rightarrow> nat" where
  "wot_distance users self x =
     (if x = self then 0 else if follows users self x then 1
      else if \<exists>c. follows users self c \<and> follows users c x then 2 else 3)"

lemma wot_bfs_exact:
  assumes caps: "within_caps mc me users"
    and budget: "card {c. follows users self c \<and> c \<noteq> self} < budget"
  shows "distance_of (wot_bfs (build_contacts mc me users) budget [(self, 0)] [(self, 0)]) x = wot_distance users self x"
proof -
  let ?m = "map_of (map (\<lambda>u. (wu_pubkey u, wu_contacts u)) users)"
  have m: "map_of (build_contacts mc me users) = ?m" by (rule build_contacts_exact [OF caps])
  have d: "distinct (map wu_pubkey users)" using caps by (simp add: within_caps_def)
  note f = contacts_follows [OF d]
  have "{c. follows users self c \<and> c \<noteq> self} = set (case ?m self of None \<Rightarrow> [] | Some l \<Rightarrow> l) - {self}"
    by (cases "?m self") (auto simp: f)
  then show ?thesis
    using wot_bfs_distances [of "build_contacts mc me users" self budget x] budget by (simp add: m f wot_distance_def) blast
qed


lemma recalculate_distance:
  assumes "within_caps 5000 500000 users" "card {c. follows users self c \<and> c \<noteq> self} < min (length users) 10000"
  shows "map wup_distance (recalculate_wot score self users) = map (\<lambda>u. wot_distance users self (wu_pubkey u)) users"
proof -
  let ?m = "build_contacts 5000 500000 users"
  let ?sc = "case map_of ?m self of None \<Rightarrow> [] | Some cs \<Rightarrow> cs"
  obtain dists intro where r: "recalc_bfs self ?sc ?m (min (length users) 10000) [(self, 0)] [(self, 0)] [(self, [])] = (dists, intro)" by fastforce
  have "dists = wot_bfs ?m (min (length users) 10000) [(self, 0)] [(self, 0)]" using recalc_bfs_dists [of self ?sc ?m] r by (metis fst_conv)
  then have "distance_of dists x = wot_distance users self x" for x using wot_bfs_exact [OF assms] by simp
  then show ?thesis by (simp add: recalculate_wot_def Let_def r)
qed

lemma push_peer_fold:
  "map_of (fold (\<lambda>u r. let d = f u in if d > 0 \<and> d \<le> mx then push_peer d (wu_pubkey u) r else r) users m) k
    = (case map wu_pubkey (filter (\<lambda>u. f u = k \<and> 0 < k \<and> k \<le> mx) users) of
         [] \<Rightarrow> map_of m k
       | ps \<Rightarrow> Some ((case map_of m k of None \<Rightarrow> [] | Some l \<Rightarrow> l) @ ps))"
proof (induction users arbitrary: m)
  case (Cons u users)
  show ?case using Cons [of "if 0 < f u \<and> f u \<le> mx then push_peer (f u) (wu_pubkey u) m else m"]
    by (auto simp: push_peer_def Let_def split: list.split option.split)
qed simp

text \<open>C22. The full update computes the distances of the follow graph: when the users have different keys, the caps on contacts are
  not reached, and the users are at least as many (up to 10,000) as the user follows plus one, every user gets distance 0,
  1, 2 or 3 exactly as the graph says; and when the tighter caps of the partition are not reached either, the partition
  lists the same peers at the same distances, in the order of the users.
\<close>

theorem wot_distances:
  assumes "within_caps 2000 100000 users" "card {c. follows users self c \<and> c \<noteq> self} < min (length users) 10000"
  shows "map wup_distance (recalculate_wot score self users) = map (\<lambda>u. wot_distance users self (wu_pubkey u)) users
    \<and> (case map_of (partition_wot_peers self users mx) d of None \<Rightarrow> [] | Some ps \<Rightarrow> ps)
      = (if 0 < d \<and> d \<le> mx then map wu_pubkey (filter (\<lambda>u. wot_distance users self (wu_pubkey u) = d) users) else [])"
proof
  have "within_caps 5000 500000 users" using assms(1) by (auto simp: within_caps_def intro: order_trans less_trans)
  then show "map wup_distance (recalculate_wot score self users) = map (\<lambda>u. wot_distance users self (wu_pubkey u)) users"
    using recalculate_distance assms(2) by blast
  have dist: "distance_of (wot_bfs (build_contacts 2000 100000 users) (min (length users) 10000) [(self, 0)] [(self, 0)]) x
      = wot_distance users self x" for x by (rule wot_bfs_exact [OF assms])
  have "users \<noteq> []" using assms(2) by auto
  then have p: "partition_wot_peers self users mx = (if mx = 0 then [] else fold (\<lambda>u r. let d = wot_distance users self (wu_pubkey u) in
      if d > 0 \<and> d \<le> mx then push_peer d (wu_pubkey u) r else r) users [])"
    unfolding partition_wot_peers_def Let_def dist by simp
  show "(case map_of (partition_wot_peers self users mx) d of None \<Rightarrow> [] | Some ps \<Rightarrow> ps)
      = (if 0 < d \<and> d \<le> mx then map wu_pubkey (filter (\<lambda>u. wot_distance users self (wu_pubkey u) = d) users) else [])"
    unfolding p using push_peer_fold [of "\<lambda>u. wot_distance users self (wu_pubkey u)" mx users "[]" d]
    by (cases "mx = 0"; cases "0 < d \<and> d \<le> mx") (auto split: list.splits)
qed


definition sample_users :: "wot_user list" where
  "sample_users =
     [\<lparr>wu_pubkey = ''m'', wu_contacts = [''a'']\<rparr>, \<lparr>wu_pubkey = ''a'', wu_contacts = [''b'', ''m'']\<rparr>, \<lparr>wu_pubkey = ''b'', wu_contacts = []\<rparr>]"

lemma sample_follows: "follows sample_users x y \<longleftrightarrow> x = ''m'' \<and> y = ''a'' \<or> x = ''a'' \<and> (y = ''b'' \<or> y = ''m'')"
  by (auto simp: follows_def sample_users_def)

lemma sample_users_map:
  "map (\<lambda>u. f (wu_pubkey u)) sample_users = [f ''m'', f ''a'', f ''b'']"
  "map wu_pubkey (filter (\<lambda>u. P (wu_pubkey u)) sample_users) = filter P [''m'', ''a'', ''b'']"
  by (simp_all add: sample_users_def)

lemma sample_distances:
  "wot_distance sample_users ''m'' ''m'' = 0" "wot_distance sample_users ''m'' ''a'' = 1" "wot_distance sample_users ''m'' ''b'' = 2"
  by (simp_all add: wot_distance_def sample_follows)

theorem wot_distances_witness:
  "map wup_distance (recalculate_wot (\<lambda>_ _ _. ()) ''m'' sample_users) = [0, 1, 2]
   \<and> (case map_of (partition_wot_peers ''m'' sample_users 2) 2 of None \<Rightarrow> [] | Some ps \<Rightarrow> ps) = [''b'']"
proof -
  have "within_caps 2000 100000 sample_users" by (simp add: within_caps_def sample_users_def)
  moreover have "card {c. follows sample_users ''m'' c \<and> c \<noteq> ''m''} < min (length sample_users) 10000"
  proof -
    have "{c. follows sample_users ''m'' c \<and> c \<noteq> ''m''} = {''a''}" by (auto simp: sample_follows)
    then show ?thesis by (simp add: sample_users_def)
  qed
  ultimately show ?thesis using wot_distances [of sample_users "''m''" "\<lambda>_ _ _. ()" 2 2]
    by (simp add: sample_users_map sample_users_map(2) [of "\<lambda>p. wot_distance sample_users ''m'' p = 2"] sample_distances)
qed

text \<open>
  The stop rule counts queue entries, also those of followed keys that are not among the users: with three users, one of
  whom follows two unknown keys first, the search ends before it expands the friend, and the friend's contact is reported
  at distance 3 and not 2.
\<close>

theorem wot_budget_loses_peers:
  "let users = [\<lparr>wu_pubkey = ''m'', wu_contacts = [''x'', ''y'', ''a'']\<rparr>, \<lparr>wu_pubkey = ''a'', wu_contacts = [''b'']\<rparr>, \<lparr>wu_pubkey = ''b'', wu_contacts = []\<rparr>]
   in map wup_distance (recalculate_wot score ''m'' users) = [0, 1, 3] \<and> map_of (partition_wot_peers ''m'' users 2) 2 = None
      \<and> wot_distance users ''m'' ''b'' = 2"
proof -
  let ?users = "[\<lparr>wu_pubkey = ''m'', wu_contacts = [''x'', ''y'', ''a'']\<rparr>, \<lparr>wu_pubkey = ''a'', wu_contacts = [''b'']\<rparr>, \<lparr>wu_pubkey = ''b'', wu_contacts = []\<rparr>]"
  have "build_contacts mc me ?users = [(''m'', [''x'', ''y'', ''a'']), (''a'', [''b'']), (''b'', [])]" if "mc \<ge> 3" "me > 4" for mc me
    using that by (simp add: build_contacts_def add_contacts_def hm_put_def Let_def)
  then show ?thesis
    by (auto simp: recalculate_wot_def partition_wot_peers_def Let_def numeral_3_eq_3 hm_has_def hm_put_def introduce_def distance_of_def
        push_peer_def wot_distance_def follows_def)
qed

subsection \<open>Introducers\<close>

text \<open>An introducer of a contact follows it, no introducer is listed twice, and there are at most 64 of them.\<close>

definition introducers_ok :: "contact_map \<Rightarrow> (string, string list) hmap \<Rightarrow> bool" where
  "introducers_ok m intro \<longleftrightarrow> (\<forall>x is. map_of intro x = Some is \<longrightarrow> distinct is \<and> length is \<le> MAX_INTRODUCERS
     \<and> (\<forall>i\<in>set is. \<exists>l. map_of m i = Some l \<and> x \<in> set l))"

lemma introduce_ok:
  assumes "introducers_ok m intro" "map_of m current = Some l" "c \<in> set l"
  shows "introducers_ok m (introduce self sc current c intro)"
proof -
  define old where "old = (case map_of intro c of None \<Rightarrow> [] | Some is \<Rightarrow> is)"
  have old: "distinct old \<and> length old \<le> MAX_INTRODUCERS \<and> (\<forall>i\<in>set old. \<exists>l. map_of m i = Some l \<and> c \<in> set l)"
  proof (cases "map_of intro c")
    case (Some xs)
    then show ?thesis using assms(1) unfolding introducers_ok_def old_def by (simp only: option.case) blast
  qed (simp add: old_def)
  define new where "new = (if length old < MAX_INTRODUCERS \<and> (current \<noteq> self \<or> c \<in> set sc) \<and> current \<notin> set old
      then old @ [current] else old)"
  have new: "distinct new \<and> length new \<le> MAX_INTRODUCERS" using old by (simp add: new_def)
  have from_m: "\<forall>i\<in>set new. \<exists>l. map_of m i = Some l \<and> c \<in> set l"
    using old assms(2,3) unfolding new_def by (cases "length old < MAX_INTRODUCERS \<and> (current \<noteq> self \<or> c \<in> set sc) \<and> current \<notin> set old") simp_all
  have "introduce self sc current c intro = hm_put c new intro" unfolding introduce_def Let_def old_def [symmetric] new_def ..
  then have "map_of (introduce self sc current c intro) x = (if x = c then Some new else map_of intro x)" for x by simp
  then show ?thesis using assms(1) new from_m unfolding introducers_ok_def by (metis option.inject)
qed

lemma visit_intro_ok:
  "introducers_ok m intro \<Longrightarrow> map_of m current = Some l \<Longrightarrow> set cs \<subseteq> set l
   \<Longrightarrow> visit_intro self sc current nd cs dists intro queue = (d, i, q) \<Longrightarrow> introducers_ok m i"
proof (induction self sc current nd cs dists intro queue rule: visit_intro.induct)
  case (2 self sc current nd c cs dists intro queue)
  have "introducers_ok m (introduce self sc current c intro)" using introduce_ok [OF 2(4,5)] 2(6) by simp
  then show ?case using 2 by (auto split: option.splits if_splits)
qed simp

lemma recalc_bfs_ok: "introducers_ok m intro \<Longrightarrow> introducers_ok m (snd (recalc_bfs self sc m budget queue dists intro))"
proof (induction self sc m budget queue dists intro rule: recalc_bfs.induct)
  case (3 self sc m budget current d queue dists intro)
  show ?case
  proof (cases "map_of m current")
    case (Some cs)
    obtain d' i' q' where v: "visit_intro self sc current (min (d + 1) 3) cs dists intro queue = (d', i', q')" by (metis prod_cases3)
    show ?thesis using 3(2) [OF Some v [symmetric] refl] visit_intro_ok [OF 3(3) Some subset_refl v] Some v by simp
  qed (use 3 in simp)
qed simp_all


subsection \<open>The cache\<close>

definition wc_ok :: "wot_cache \<Rightarrow> bool" where
  "wc_ok c \<longleftrightarrow> hm_wf (wc_map c) \<and> distinct (wc_order c) \<and> set (wc_order c) = fst ` set (wc_map c) \<and> length (wc_map c) \<le> 16"

lemma wc_evict_ok:
  assumes "hm_wf (wc_map c)" "distinct (wc_order c)" "set (wc_order c) = fst ` set (wc_map c)"
  shows "wc_ok (wc_evict c) \<and> length (wc_map (wc_evict c)) < 16 \<and> set (wc_map (wc_evict c)) \<subseteq> set (wc_map c)"
  using assms
proof (induction c rule: wc_evict.induct)
  case (1 c)
  show ?case
  proof (cases "length (wc_map c) \<ge> 16")
    case True
    then obtain old rest where o: "wc_order c = old # rest" using 1(4) by (cases "wc_order c") auto
    let ?c = "c\<lparr>wc_order := rest, wc_map := hm_del old (wc_map c)\<rparr>"
    have "fst ` set (hm_del old (wc_map c)) = fst ` set (wc_map c) - {old}" by (auto simp: set_hm_del)
    then have "wc_ok (wc_evict ?c) \<and> length (wc_map (wc_evict ?c)) < 16 \<and> set (wc_map (wc_evict ?c)) \<subseteq> set (wc_map ?c)"
      by (intro 1(1) [OF True o]) (use 1(2-4) o in auto)
    moreover have "set (wc_map ?c) \<subseteq> set (wc_map c)" by (auto simp: set_hm_del)
    moreover have "wc_evict c = wc_evict ?c" using True by (simp add: wc_evict.simps [of c] o)
    ultimately show ?thesis by (simp only:) blast
  next
    case False
    then show ?thesis using 1(2-4) by (simp add: wc_evict.simps [of c] wc_ok_def)
  qed
qed

text \<open>What the cache says is what the partition of these users says.\<close>

definition wc_current_for :: "wot_user list \<Rightarrow> wot_cache \<Rightarrow> bool" where
  "wc_current_for users c \<longleftrightarrow> (\<forall>((self, d), r)\<in>set (wc_map c). r = partition_wot_peers self users d)"

lemma get_wot_peers_step:
  assumes "wc_ok c" "wc_current_for users c"
  shows "fst (get_wot_peers_by_distance self users d c) = partition_wot_peers self users d"
    "wc_ok (snd (get_wot_peers_by_distance self users d c))" "wc_current_for users (snd (get_wot_peers_by_distance self users d c))"
proof -
  let ?key = "(self, d)"
  show "fst (get_wot_peers_by_distance self users d c) = partition_wot_peers self users d"
    using assms(2) by (auto simp: get_wot_peers_by_distance_def Let_def wc_current_for_def split: option.split dest!: map_of_SomeD)
  have e: "wc_ok (wc_evict c)" "length (wc_map (wc_evict c)) < 16" "set (wc_map (wc_evict c)) \<subseteq> set (wc_map c)"
    using wc_evict_ok [of c] assms(1) by (auto simp: wc_ok_def)
  then have "wc_ok ((wc_evict c)\<lparr>wc_order := filter (\<lambda>k. k \<noteq> ?key) (wc_order (wc_evict c)) @ [?key], wc_map := hm_put ?key r (wc_map (wc_evict c))\<rparr>)" for r
    by (auto simp: wc_ok_def length_hm_put)
  then show "wc_ok (snd (get_wot_peers_by_distance self users d c))"
    using assms(1) by (simp add: get_wot_peers_by_distance_def Let_def split: option.split)
  have "wc_current_for users ((wc_evict c)\<lparr>wc_order := ord, wc_map := hm_put ?key (partition_wot_peers self users d) (wc_map (wc_evict c))\<rparr>)" for ord
    using e assms(2) by (auto simp: wc_current_for_def set_hm_put wc_ok_def)
  then show "wc_current_for users (snd (get_wot_peers_by_distance self users d c))"
    using assms(2) by (simp add: get_wot_peers_by_distance_def Let_def split: option.split)
qed

lemma wc_ok_invalidate: "wc_ok (invalidate_wot_peers_cache c)" "wc_current_for users (invalidate_wot_peers_cache c)"
  by (simp_all add: wc_ok_def wc_current_for_def invalidate_wot_peers_cache_def)

text \<open>
  The cache of partitions: as long as the users stay the same after an invalidation, every lookup answers what the search
  computes and at most 16 partitions are kept; but the key of an entry does not mention the users, so a lookup with other
  users (more than 64) answers with the partition of the earlier ones.
\<close>

theorem wot_cache_answers:
  "let c = fold (\<lambda>(self, d) c. snd (get_wot_peers_by_distance self users d c)) qs (invalidate_wot_peers_cache c0) in
     fst (get_wot_peers_by_distance self users d c) = partition_wot_peers self users d \<and> length (wc_map c) \<le> 16
     \<and> (length users > 64 \<and> length users' > 64 \<longrightarrow>
         fst (get_wot_peers_by_distance self users' d (snd (get_wot_peers_by_distance self users d c))) = partition_wot_peers self users d)"
proof -
  define c where "c = fold (\<lambda>(self, d) c. snd (get_wot_peers_by_distance self users d c)) qs (invalidate_wot_peers_cache c0)"
  have c: "wc_ok c \<and> wc_current_for users c"
    unfolding c_def by (induction qs rule: rev_induct) (auto simp: wc_ok_invalidate get_wot_peers_step)
  then have "map_of (wc_map (snd (get_wot_peers_by_distance self users d c))) (self, d) = Some (partition_wot_peers self users d)"
    if "length users > 64"
    using that get_wot_peers_step(1) [of c users self d] by (auto simp: get_wot_peers_by_distance_def Let_def split: option.splits)
  then show ?thesis
    unfolding c_def [symmetric] Let_def using c get_wot_peers_step(1) [of c users self d]
    by (auto simp: get_wot_peers_by_distance_def [of self users'] wc_ok_def)
qed


theorem wot_cache_answers_witness:
  "fst (get_wot_peers_by_distance ''m'' (replicate 65 \<lparr>wu_pubkey = ''b'', wu_contacts = []\<rparr>) 2
      (snd (get_wot_peers_by_distance ''m'' (replicate 65 \<lparr>wu_pubkey = ''a'', wu_contacts = []\<rparr>) 2
        (invalidate_wot_peers_cache \<lparr>wc_map = [], wc_order = []\<rparr>))))
   = partition_wot_peers ''m'' (replicate 65 \<lparr>wu_pubkey = ''a'', wu_contacts = []\<rparr>) 2"
  using wot_cache_answers [of "replicate 65 \<lparr>wu_pubkey = ''a'', wu_contacts = []\<rparr>" "[]" "\<lparr>wc_map = [], wc_order = []\<rparr>" "''m''" 2
      "replicate 65 \<lparr>wu_pubkey = ''b'', wu_contacts = []\<rparr>"]
  unfolding Let_def by (simp only: fold.simps id_apply length_replicate) simp

text \<open>Who is named as an introducer of a user follows that user in the table.\<close>

lemma recalculate_introducers:
  assumes "w \<in> set (recalculate_wot score self users)" "wup_introduced_by w = Some is"
  shows "distinct is \<and> length is \<le> MAX_INTRODUCERS
    \<and> (\<forall>i\<in>set is. \<exists>l. map_of (build_contacts 5000 500000 users) i = Some l \<and> wup_pubkey w \<in> set l)"
proof -
  let ?m = "build_contacts 5000 500000 users"
  let ?sc = "case map_of ?m self of None \<Rightarrow> [] | Some cs \<Rightarrow> cs"
  obtain dists intro where r: "recalc_bfs self ?sc ?m (min (length users) 10000) [(self, 0)] [(self, 0)] [(self, [])] = (dists, intro)" by fastforce
  have "introducers_ok ?m [(self, [])]" by (simp add: introducers_ok_def)
  then have ok: "introducers_ok ?m intro" using recalc_bfs_ok [of ?m "[(self, [])]" self ?sc] r by (metis snd_conv)
  have "map_of intro (wup_pubkey w) = Some is"
    using assms by (auto simp: recalculate_wot_def Let_def r split: option.splits if_splits)
  then show ?thesis using ok unfolding introducers_ok_def by blast
qed

end
