(* ===== verification/HashRouting.thy ===== *)
theory HashRouting
  imports Tables
begin

section \<open>Partition and ring routing (sync-core/src/hash\_routing.rs)\<close>

text \<open>
  Keys are spread over partitions by a hash modulo their number, and over nodes by a ring of hash points. XXHash is a
  parameter, a function from bytes to 64-bit values of which nothing is assumed. A \<open>BTreeMap\<close> is a list of entries in
  ascending order of the keys. Shown: partitioning is exactly filtering by partition and loses nothing; the owner of a key on
  the ring is the first point clockwise; and adding or removing a node moves only the keys it gains or had.
\<close>

subsection \<open>Partitions\<close>

definition partition_router_new :: "nat \<Rightarrow> nat" where
  "partition_router_new n = max n 1"

definition route_bytes :: "(byte list \<Rightarrow> nat) \<Rightarrow> nat \<Rightarrow> byte list \<Rightarrow> nat" where
  "route_bytes xxh n bs = xxh bs mod n"

definition route_key :: "(byte list \<Rightarrow> nat) \<Rightarrow> nat \<Rightarrow> string \<Rightarrow> nat" where
  "route_key xxh n k = route_bytes xxh n (bytes_of k)"

text \<open>The loop over the items; an index beyond the buckets would panic.\<close>

fun fill_buckets :: "(byte list \<Rightarrow> nat) \<Rightarrow> nat \<Rightarrow> ('t \<Rightarrow> string) \<Rightarrow> 't list \<Rightarrow> 't list list \<Rightarrow> 't list list res" where
  "fill_buckets xxh n key_fn [] buckets = Ok buckets"
| "fill_buckets xxh n key_fn (x # xs) buckets =
     (let idx = route_key xxh n (key_fn x) in
      if idx < length buckets then fill_buckets xxh n key_fn xs (buckets[idx := buckets ! idx @ [x]]) else Panic)"

definition partition_items :: "(byte list \<Rightarrow> nat) \<Rightarrow> nat \<Rightarrow> ('t \<Rightarrow> string) \<Rightarrow> 't list \<Rightarrow> 't list list res" where
  "partition_items xxh n key_fn xs = fill_buckets xxh n key_fn xs (replicate n [])"

subsection \<open>The ring\<close>

type_synonym hash_ring = "(nat \<times> string) list"

definition vnode_key :: "string \<Rightarrow> nat \<Rightarrow> string" where
  "vnode_key node i = node @ ''#vn'' @ show_nat i"

definition add_node :: "(byte list \<Rightarrow> nat) \<Rightarrow> string \<Rightarrow> nat \<Rightarrow> hash_ring \<Rightarrow> hash_ring" where
  "add_node xxh node vnodes ring = fold (\<lambda>i. bt_insert (xxh (bytes_of (vnode_key node i))) node) [0..<max vnodes 1] ring"

definition remove_node :: "string \<Rightarrow> hash_ring \<Rightarrow> hash_ring" where
  "remove_node node ring = filter (\<lambda>(_, v). v \<noteq> node) ring"

definition get_node :: "(byte list \<Rightarrow> nat) \<Rightarrow> string \<Rightarrow> hash_ring \<Rightarrow> string option" where
  "get_node xxh key ring =
     (if ring = [] then None
      else let h = xxh (bytes_of key) in
        (case find (\<lambda>(p, _). p \<ge> h) ring of
           Some (_, node) \<Rightarrow> Some node
         | None \<Rightarrow> map_option snd (case ring of [] \<Rightarrow> None | e # _ \<Rightarrow> Some e)))"

definition ring_is_empty :: "hash_ring \<Rightarrow> bool" where
  "ring_is_empty ring \<longleftrightarrow> ring = []"

definition ring_len :: "hash_ring \<Rightarrow> nat" where
  "ring_len ring = length ring"

subsection \<open>Partitioning is filtering\<close>

lemma fill_buckets_filter:
  assumes "0 < n" "length buckets = n"
  shows "fill_buckets xxh n key_fn xs buckets
    = Ok (map (\<lambda>i. buckets ! i @ filter (\<lambda>x. route_key xxh n (key_fn x) = i) xs) [0..<n])"
  using assms(2)
proof (induction xs arbitrary: buckets)
  case Nil
  then show ?case by (auto intro: nth_equalityI)
next
  case (Cons x xs)
  let ?idx = "route_key xxh n (key_fn x)"
  have idx: "?idx < n" using assms(1) by (simp add: route_key_def route_bytes_def)
  then have "fill_buckets xxh n key_fn (x # xs) buckets = fill_buckets xxh n key_fn xs (buckets[?idx := buckets ! ?idx @ [x]])"
    using Cons.prems by (simp add: Let_def)
  also have "\<dots> = Ok (map (\<lambda>i. buckets[?idx := buckets ! ?idx @ [x]] ! i @ filter (\<lambda>x. route_key xxh n (key_fn x) = i) xs) [0..<n])"
    using Cons by simp
  also have "\<dots> = Ok (map (\<lambda>i. buckets ! i @ filter (\<lambda>x. route_key xxh n (key_fn x) = i) (x # xs)) [0..<n])"
    using Cons.prems by (simp add: nth_list_update)
  finally show ?case .
qed

text \<open>
  Partitioning a batch with a router of at least one partition never panics: bucket \<open>i\<close> holds exactly the items routed
  to \<open>i\<close>, in the order of the batch, and the buckets together hold each item once.
\<close>

theorem partition_items_exact:
  "let n = partition_router_new k;
       buckets = map (\<lambda>i. filter (\<lambda>x. route_key xxh n (key_fn x) = i) xs) [0..<n]
   in partition_items xxh n key_fn xs = Ok buckets \<and> sum_list (map length buckets) = length xs"
proof -
  define n where "n = partition_router_new k"
  have n: "0 < n" by (simp add: n_def partition_router_new_def)
  have "(\<Sum>i\<leftarrow>[0..<n]. length (filter (\<lambda>x. route_key xxh n (key_fn x) = i) xs)) = length xs"
  proof (induction xs)
    case (Cons x xs)
    let ?idx = "route_key xxh n (key_fn x)"
    have idx: "?idx < n" using n by (simp add: route_key_def route_bytes_def)
    have "(\<Sum>i\<leftarrow>[0..<n]. length (filter (\<lambda>x. route_key xxh n (key_fn x) = i) (x # xs)))
        = (\<Sum>i\<leftarrow>[0..<n]. (if ?idx = i then 1 else 0) + length (filter (\<lambda>x. route_key xxh n (key_fn x) = i) xs))"
      by (rule arg_cong [where f = sum_list], rule map_cong) simp_all
    also have "\<dots> = (\<Sum>i\<leftarrow>[0..<n]. if ?idx = i then 1 else 0) + length xs" using Cons by (simp add: sum_list_addf)
    also have "(\<Sum>i\<leftarrow>[0..<n]. if ?idx = i then 1 else (0::nat)) = 1" using idx by (simp add: sum_list_distinct_conv_sum_set)
    finally show ?case by simp
  qed simp
  then show ?thesis unfolding Let_def n_def [symmetric] partition_items_def
    using fill_buckets_filter [OF n, of "replicate n []" xxh key_fn xs] by (simp add: comp_def)
qed

subsection \<open>The ring moves few keys\<close>

text \<open>Adding a point: the first match is the new point or what it was.\<close>

lemma find_bt_insert:
  "find (\<lambda>(p, _). p \<ge> h) (bt_insert k v m) = Some (k, v) \<or> find (\<lambda>(p, _). p \<ge> h) (bt_insert k v m) = find (\<lambda>(p, _). p \<ge> h) m"
  by (induction k v m rule: bt_insert.induct) auto

lemma hd_bt_insert: "bt_insert k v m \<noteq> [] \<and> (hd (bt_insert k v m) = (k, v) \<or> m \<noteq> [] \<and> hd (bt_insert k v m) = hd m)"
  by (induction k v m rule: bt_insert.induct) simp_all

lemma find_None_insert: "find (\<lambda>(p, _). p \<ge> h) (bt_insert k v m) = None \<Longrightarrow> find (\<lambda>(p, _). p \<ge> h) m = None"
  by (induction k v m rule: bt_insert.induct) (auto split: if_splits)

lemma get_node_insert: "get_node xxh key (bt_insert p n ring) = Some n \<or> get_node xxh key (bt_insert p n ring) = get_node xxh key ring"
proof -
  let ?h = "xxh (bytes_of key)"
  let ?new = "bt_insert p n ring"
  show ?thesis
  proof (cases "find (\<lambda>(p, _). p \<ge> ?h) ?new")
    case None
    then have "find (\<lambda>(p, _). p \<ge> ?h) ring = None" by (rule find_None_insert)
    then show ?thesis using None hd_bt_insert [of p n ring] by (cases ring; cases ?new) (auto simp: get_node_def Let_def)
  next
    case (Some e)
    then show ?thesis using find_bt_insert [of ?h p n ring] hd_bt_insert [of p n ring] by (auto simp: get_node_def Let_def split: option.splits)
  qed
qed

lemma get_node_add: "get_node xxh key (add_node xxh n vnodes ring) \<in> {Some n, get_node xxh key ring}"
proof -
  have "get_node xxh key (fold (\<lambda>i. bt_insert (f i) n) is ring) \<in> {Some n, get_node xxh key ring}" for f and "is" :: "nat list"
  proof (induction "is" arbitrary: ring)
    case (Cons i js)
    have "get_node xxh key (fold (\<lambda>i. bt_insert (f i) n) js (bt_insert (f i) n ring)) \<in> {Some n, get_node xxh key (bt_insert (f i) n ring)}"
      by (rule Cons)
    then show ?case using get_node_insert [of xxh key "f i" n ring] by (simp only: fold.simps comp_apply) auto
  qed simp
  then show ?thesis by (simp add: add_node_def)
qed

text \<open>Removing a node: the first match stays the first match when it is kept.\<close>

lemma find_filter_kept: "find P xs = Some x \<Longrightarrow> Q x \<Longrightarrow> find P (filter Q xs) = Some x"
  by (induction xs) (auto split: if_splits)

lemma find_filter_None: "find P xs = None \<Longrightarrow> find P (filter Q xs) = None"
  by (induction xs) (auto split: if_splits)

lemma get_node_remove:
  assumes "get_node xxh key ring = Some m" "m \<noteq> n"
  shows "get_node xxh key (remove_node n ring) = Some m"
proof -
  let ?h = "xxh (bytes_of key)" and ?Q = "\<lambda>(_, v). v \<noteq> n"
  obtain e r where ring: "ring = e # r" using assms(1) by (cases ring) (auto simp: get_node_def)
  show ?thesis
  proof (cases "find (\<lambda>(p, _). p \<ge> ?h) ring")
    case None
    then have m: "snd e = m" using assms(1) by (simp add: get_node_def ring Let_def)
    then have "remove_node n ring = e # filter ?Q r" using assms(2) by (cases e) (simp add: remove_node_def ring)
    moreover have "find (\<lambda>(p, _). p \<ge> ?h) (remove_node n ring) = None" unfolding remove_node_def by (rule find_filter_None [OF None])
    ultimately show ?thesis using m by (simp add: get_node_def Let_def)
  next
    case (Some x)
    then have m: "snd x = m" using assms(1) ring by (cases x) (simp add: get_node_def Let_def)
    have "find (\<lambda>(p, _). p \<ge> ?h) (remove_node n ring) = Some x"
      unfolding remove_node_def by (rule find_filter_kept [OF Some]) (use m assms(2) in \<open>auto split: prod.split\<close>)
    moreover from this have "remove_node n ring \<noteq> []" by (cases "remove_node n ring") auto
    ultimately show ?thesis using m by (auto simp: get_node_def Let_def split: prod.split)
  qed
qed

text \<open>The ring disturbs few keys: after a node was added a key belongs to it or to its former owner, after a node was removed
  every key of another owner keeps it, and with a node on the ring every key has an owner. This holds for every hash
  function, also one that collides.
\<close>

theorem ring_minimal_disruption:
  "get_node xxh key (add_node xxh n vnodes ring) \<in> {Some n, get_node xxh key ring}
   \<and> (get_node xxh key ring \<noteq> Some n \<longrightarrow> get_node xxh key (remove_node n ring) = get_node xxh key ring)
   \<and> (get_node xxh key ring = None \<longleftrightarrow> ring_is_empty ring)"
proof (intro conjI impI)
  have "get_node xxh key ring \<noteq> None" if "ring \<noteq> []" for ring
    using that by (cases ring) (auto simp: get_node_def Let_def split: option.split)
  then show empty: "get_node xxh key ring = None \<longleftrightarrow> ring_is_empty ring" by (auto simp: ring_is_empty_def get_node_def)
  assume "get_node xxh key ring \<noteq> Some n"
  then show "get_node xxh key (remove_node n ring) = get_node xxh key ring"
    using get_node_remove [of xxh key ring _ n] empty
    by (cases "get_node xxh key ring") (auto simp: ring_is_empty_def remove_node_def)
qed (rule get_node_add)

definition length_hash :: "byte list \<Rightarrow> nat" where
  "length_hash bs = length bs * 100 + (case bs of [] \<Rightarrow> 0 | b # _ \<Rightarrow> unat b)"

theorem ring_minimal_disruption_witness:
  "get_node length_hash ''k'' [(5, ''a''), (300, ''b'')] = Some ''b''
   \<and> get_node length_hash ''k'' (remove_node ''a'' [(5, ''a''), (300, ''b'')]) = Some ''b''"
proof -
  have "length_hash (bytes_of ''k'') = 207" by code_simp
  then have g: "get_node length_hash ''k'' [(5, ''a''), (300, ''b'')] = Some ''b''" by (simp add: get_node_def)
  then show ?thesis using ring_minimal_disruption [of length_hash "''k''" "''a''" 1 "[(5, ''a''), (300, ''b'')]"] by simp
qed

end
