(* ===== verification/Skademlia.thy ===== *)
theory Skademlia
  imports Tables "HOL-Library.Multiset"
begin

unbundle bit_operations_syntax

section \<open>Proof-of-work routing table (network-core/src/skademlia.rs)\<close>

text \<open>
  A Kademlia table whose node ids cost work: the id is a SHA-256 over the SHA-256 of the key and a nonce, both with enough
  leading zero bits. SHA-256 is a parameter. Reputations are floating-point numbers of which only the two comparisons
  matter: they are parameters too (\<open>r_le\<close> is \<open>total_cmp\<close>, \<open>r_lt\<close> is \<open><\<close>). Two 32-byte arrays compare like the
  numbers they spell. \<open>select_nth_unstable_by\<close> may order its two parts in any way: it is an argument with the property its
  documentation states. Shown: what the work check means, that the search finds nonces exactly when there are any, the
  invariant of the table, what a bucket is, and that a lookup returns the closest peers.
\<close>

abbreviation POW_STATIC_DIFFICULTY_BITS :: nat where "POW_STATIC_DIFFICULTY_BITS \<equiv> 21"
abbreviation POW_DYNAMIC_DIFFICULTY_BITS :: nat where "POW_DYNAMIC_DIFFICULTY_BITS \<equiv> 8"

type_synonym node_id = "byte list"

definition check_leading_zeros :: "byte list \<Rightarrow> nat \<Rightarrow> bool" where
  "check_leading_zeros h bits =
     (if bits > 256 then False
      else let full_bytes = bits div 8; rem_bits = bits mod 8 in
        if list_ex (\<lambda>b. b \<noteq> 0) (take full_bytes h) then False
        else if rem_bits > 0 then (h ! full_bytes) AND push_bit (8 - rem_bits) 0xFF = 0
        else True)"

definition static_hash :: "(byte list \<Rightarrow> byte list) \<Rightarrow> string \<Rightarrow> nat \<Rightarrow> byte list" where
  "static_hash sha pk s = sha (bytes_of pk @ be_bytes 8 s)"

definition generate_node_id :: "(byte list \<Rightarrow> byte list) \<Rightarrow> string \<Rightarrow> nat \<Rightarrow> nat \<Rightarrow> node_id option" where
  "generate_node_id sha pk s d =
     (let sh = static_hash sha pk s in
      if \<not> check_leading_zeros sh POW_STATIC_DIFFICULTY_BITS then None
      else let i = sha (sh @ be_bytes 8 d) in
        if check_leading_zeros i POW_DYNAMIC_DIFFICULTY_BITS then Some i else None)"

text \<open>The two loops of \<open>find_pow_nonces_where\<close>\<close>

fun search_dynamic :: "(byte list \<Rightarrow> byte list) \<Rightarrow> (node_id \<Rightarrow> bool) \<Rightarrow> byte list \<Rightarrow> nat list \<Rightarrow> (nat \<times> node_id) option" where
  "search_dynamic sha pred sh [] = None"
| "search_dynamic sha pred sh (d # ds) =
     (let i = sha (sh @ be_bytes 8 d) in
      if check_leading_zeros i POW_DYNAMIC_DIFFICULTY_BITS \<and> pred i then Some (d, i) else search_dynamic sha pred sh ds)"

fun search_static :: "(byte list \<Rightarrow> byte list) \<Rightarrow> (node_id \<Rightarrow> bool) \<Rightarrow> string \<Rightarrow> nat \<Rightarrow> nat list \<Rightarrow> (nat \<times> nat \<times> node_id) option" where
  "search_static sha pred pk db [] = None"
| "search_static sha pred pk db (s # ss) =
     (let sh = static_hash sha pk s in
      if \<not> check_leading_zeros sh POW_STATIC_DIFFICULTY_BITS then search_static sha pred pk db ss
      else (case search_dynamic sha pred sh [0..<db] of
              Some (d, i) \<Rightarrow> Some (s, d, i)
            | None \<Rightarrow> search_static sha pred pk db ss))"

definition find_pow_nonces_where :: "(byte list \<Rightarrow> byte list) \<Rightarrow> string \<Rightarrow> nat \<Rightarrow> nat \<Rightarrow> (node_id \<Rightarrow> bool) \<Rightarrow> (nat \<times> nat \<times> node_id) option" where
  "find_pow_nonces_where sha pk sb db pred = search_static sha pred pk db [0..<sb]"

definition find_pow_nonces :: "(byte list \<Rightarrow> byte list) \<Rightarrow> string \<Rightarrow> nat \<Rightarrow> nat \<Rightarrow> (nat \<times> nat \<times> node_id) option" where
  "find_pow_nonces sha pk sb db = find_pow_nonces_where sha pk sb db (\<lambda>_. True)"

definition xor_distance :: "node_id \<Rightarrow> node_id \<Rightarrow> node_id" where
  "xor_distance a b = map (\<lambda>(x, y). x XOR y) (zip a b)"

record 'r kad_peer =
  kp_node_id :: node_id
  kp_pubkey :: string
  kp_address :: string
  kp_reputation :: 'r
  kp_static_nonce :: nat
  kp_dynamic_nonce :: nat

record 'r kad_table =
  kt_self :: node_id
  kt_buckets :: "(nat \<times> 'r kad_peer list) list"
  kt_capacity :: nat

definition kad_new :: "node_id \<Rightarrow> nat \<Rightarrow> 'r kad_table" where
  "kad_new self cap = \<lparr>kt_self = self, kt_buckets = [], kt_capacity = cap\<rparr>"

text \<open>\<open>leading_zeros\<close> of a number of \<open>k\<close> bits\<close>

fun leading_zeros :: "nat \<Rightarrow> nat \<Rightarrow> nat" where
  "leading_zeros 0 n = 0"
| "leading_zeros (Suc k) n = (if n \<ge> 2 ^ k then 0 else Suc (leading_zeros k n))"

fun first_nonzero :: "nat \<Rightarrow> byte list \<Rightarrow> nat" where
  "first_nonzero i [] = 256"
| "first_nonzero i (b # bs) = (if b \<noteq> 0 then i * 8 + leading_zeros 8 (unat b) else first_nonzero (i + 1) bs)"

definition bucket_index :: "'r kad_table \<Rightarrow> node_id \<Rightarrow> nat" where
  "bucket_index t other = first_nonzero 0 (xor_distance (kt_self t) other)"

text \<open>\<open>min_by\<close> on the reputations: the index of the first least one\<close>

fun lowest_from :: "('r \<Rightarrow> 'r \<Rightarrow> bool) \<Rightarrow> nat \<Rightarrow> 'r \<Rightarrow> nat \<Rightarrow> 'r kad_peer list \<Rightarrow> nat" where
  "lowest_from r_le best x j [] = best"
| "lowest_from r_le best x j (p # ps) =
     (if r_le x (kp_reputation p) then lowest_from r_le best x (j + 1) ps
      else lowest_from r_le j (kp_reputation p) (j + 1) ps)"

definition lowest_idx :: "('r \<Rightarrow> 'r \<Rightarrow> bool) \<Rightarrow> 'r kad_peer list \<Rightarrow> nat option" where
  "lowest_idx r_le ps = (case ps of [] \<Rightarrow> None | p # r \<Rightarrow> Some (lowest_from r_le 0 (kp_reputation p) 1 r))"

text \<open>The first entry with the id of \<open>p\<close> becomes \<open>p\<close>.\<close>

fun replace_peer :: "'r kad_peer \<Rightarrow> 'r kad_peer list \<Rightarrow> 'r kad_peer list" where
  "replace_peer p [] = []"
| "replace_peer p (q # qs) = (if kp_node_id q = kp_node_id p then p # qs else q # replace_peer p qs)"

definition add_to_bucket ::
  "('r \<Rightarrow> 'r \<Rightarrow> bool) \<Rightarrow> ('r \<Rightarrow> 'r \<Rightarrow> bool) \<Rightarrow> nat \<Rightarrow> 'r kad_peer \<Rightarrow> 'r kad_peer list \<Rightarrow> bool \<times> 'r kad_peer list" where
  "add_to_bucket r_le r_lt cap p b =
     (if list_ex (\<lambda>q. kp_node_id q = kp_node_id p) b then (True, replace_peer p b)
      else if length b < cap then (True, b @ [p])
      else (case lowest_idx r_le b of
              Some i \<Rightarrow> if r_lt (kp_reputation (b ! i)) (kp_reputation p) then (True, b[i := p]) else (False, b)
            | None \<Rightarrow> (False, b)))"

definition kad_add_peer ::
  "(byte list \<Rightarrow> byte list) \<Rightarrow> ('r \<Rightarrow> 'r \<Rightarrow> bool) \<Rightarrow> ('r \<Rightarrow> 'r \<Rightarrow> bool) \<Rightarrow> 'r kad_peer \<Rightarrow> 'r kad_table \<Rightarrow> bool \<times> 'r kad_table" where
  "kad_add_peer sha r_le r_lt p t =
     (if kp_node_id p = kt_self t then (False, t)
      else if generate_node_id sha (kp_pubkey p) (kp_static_nonce p) (kp_dynamic_nonce p) \<noteq> Some (kp_node_id p) then (False, t)
      else let i = bucket_index t (kp_node_id p);
               b = (case map_of (kt_buckets t) i of None \<Rightarrow> [] | Some b \<Rightarrow> b)
           in (case add_to_bucket r_le r_lt (kt_capacity t) p b of (r, b') \<Rightarrow> (r, t\<lparr>kt_buckets := bt_insert i b' (kt_buckets t)\<rparr>)))"

definition all_peers :: "'r kad_table \<Rightarrow> 'r kad_peer list" where
  "all_peers t = concat (map snd (kt_buckets t))"

definition kad_distance :: "node_id \<Rightarrow> 'r kad_peer \<Rightarrow> nat" where
  "kad_distance target p = be_val (xor_distance (kp_node_id p) target)"

definition find_closest ::
  "(nat \<Rightarrow> ('r kad_peer \<Rightarrow> nat) \<Rightarrow> 'r kad_peer list \<Rightarrow> 'r kad_peer list) \<Rightarrow> node_id \<Rightarrow> nat \<Rightarrow> 'r kad_table \<Rightarrow> 'r kad_peer list" where
  "find_closest sel target cnt t =
     (let ps = all_peers t in
      if cnt = 0 \<or> ps = [] then []
      else if cnt < length ps then sort_key (kad_distance target) (take cnt (sel cnt (kad_distance target) ps))
      else sort_key (kad_distance target) ps)"

subsection \<open>What the work check means\<close>

lemma be_val_append: "be_val (xs @ ys) = be_val xs * 256 ^ length ys + be_val ys"
proof (induction ys rule: rev_induct)
  case (snoc y ys)
  have "be_val (zs @ [y]) = be_val zs * 256 + unat y" for zs by (simp add: be_val_def)
  from this [of "xs @ ys"] this [of ys] snoc show ?case by (simp add: algebra_simps)
qed (simp add: be_val_def)

lemma be_val_Cons: "be_val (b # bs) = unat b * 256 ^ length bs + be_val bs"
  using be_val_append [of "[b]" bs] by (simp add: be_val_def)

lemma be_val_eq_0: "be_val bs = 0 \<longleftrightarrow> (\<forall>b\<in>set bs. b = 0)"
  by (induction bs) (auto simp: be_val_Cons be_val_def [of "[]"] unat_eq_zero)

text \<open>A byte and a mask of its high bits\<close>

lemma mask_high_bits:
  fixes b :: byte
  assumes "k < 8"
  shows "b AND push_bit k 0xFF = 0 \<longleftrightarrow> unat b < 2 ^ k"
proof -
  have ff: "(0xFF :: byte) = mask 8" by (simp add: mask_eq_exp_minus_1)
  have "b AND push_bit k 0xFF = 0 \<longleftrightarrow> drop_bit k b = 0"
  proof
    assume z: "b AND push_bit k 0xFF = 0"
    show "drop_bit k b = 0"
    proof (rule bit_word_eqI)
      fix n assume "n < LENGTH(8)"
      have "\<not> (bit b (k + n) \<and> bit (push_bit k (0xFF :: byte)) (k + n))" using z by (metis bit_and_iff bit_0_eq bot_apply bot_bool_def)
      then have "\<not> bit b (k + n)" using assms by (auto simp: ff bit_push_bit_iff bit_mask_iff dest: bit_imp_le_length)
      then show "bit (drop_bit k b) n = bit (0 :: byte) n" by (simp add: bit_drop_bit_eq)
    qed
  next
    assume z: "drop_bit k b = 0"
    show "b AND push_bit k 0xFF = 0"
    proof (rule bit_word_eqI)
      fix n assume "n < LENGTH(8)"
      have "\<not> bit (drop_bit k b) (n - k)" by (simp add: z)
      then have "k \<le> n \<longrightarrow> \<not> bit b n" by (auto simp: bit_drop_bit_eq)
      then show "bit (b AND push_bit k 0xFF) n = bit (0 :: byte) n" by (auto simp: bit_and_iff bit_push_bit_iff)
    qed
  qed
  also have "\<dots> \<longleftrightarrow> unat b div 2 ^ k = 0" by (metis drop_bit_eq_div unat_drop_bit_eq unat_eq_zero)
  also have "\<dots> \<longleftrightarrow> unat b < 2 ^ k" by (simp add: div_eq_0_iff)
  finally show ?thesis .
qed

lemma scaled_less:
  fixes a m w c :: nat
  assumes "w < m"
  shows "a * m + w < c * m \<longleftrightarrow> a < c"
proof
  assume "a < c"
  then have "(a + 1) * m \<le> c * m" by (intro mult_le_mono1) simp
  then show "a * m + w < c * m" using assms by simp
next
  assume lt: "a * m + w < c * m"
  show "a < c"
  proof (rule ccontr)
    assume "\<not> a < c"
    then have "c * m \<le> a * m" by (intro mult_le_mono1) simp
    then show False using lt by linarith
  qed
qed

text \<open>
  The check of leading zeros is a comparison of numbers: a 32-byte hash passes for \<open>bits\<close> exactly when, read as a
  big-endian number, it is below two to the power of \<open>256 - bits\<close>.
\<close>

lemma check_leading_zeros_iff:
  assumes h: "length h = 32" and bits: "bits \<le> 256"
  shows "check_leading_zeros h bits \<longleftrightarrow> be_val h < 2 ^ (256 - bits)"
proof -
  define full r m where "full = bits div 8" and "r = bits mod 8" and "m = 32 - full"
  have fr: "bits = 8 * full + r" "r < 8" "full \<le> 32" using bits by (simp_all add: full_def r_def)
  have split: "be_val h = be_val (take full h) * 256 ^ m + be_val (drop full h)"
    using be_val_append [of "take full h" "drop full h"] h fr(3) by (simp add: m_def)
  have low: "be_val (drop full h) < 256 ^ m" using be_val_bound [of "drop full h"] h by (simp add: m_def)
  have zero: "list_ex (\<lambda>b. b \<noteq> 0) (take full h) \<longleftrightarrow> be_val (take full h) \<noteq> 0" by (auto simp: be_val_eq_0 list_ex_iff)
  have pow: "(256::nat) ^ k = 2 ^ (8 * k)" for k by (simp add: power_mult)
  show ?thesis
  proof (cases "r = 0")
    case True
    then have e: "2 ^ (256 - bits) = 1 * (256::nat) ^ m" using fr by (simp add: pow m_def diff_mult_distrib2)
    have "check_leading_zeros h bits \<longleftrightarrow> be_val (take full h) = 0"
      unfolding check_leading_zeros_def Let_def full_def [symmetric] r_def [symmetric] using True bits zero by simp
    also have "\<dots> \<longleftrightarrow> be_val h < 2 ^ (256 - bits)" unfolding e split scaled_less [OF low] by simp
    finally show ?thesis .
  next
    case False
    then have full: "full < 32" using fr bits by simp
    define b where "b = h ! full"
    have d: "drop full h = b # drop (Suc full) h" using full h by (simp add: b_def Cons_nth_drop_Suc)
    have v: "be_val (drop full h) = unat b * 256 ^ (m - 1) + be_val (drop (Suc full) h)" using full h by (simp add: d be_val_Cons m_def)
    have low': "be_val (drop (Suc full) h) < 256 ^ (m - 1)" using be_val_bound [of "drop (Suc full) h"] h by (simp add: m_def)
    have "8 * (m - 1) + (8 - r) = 256 - bits" using fr full False by (simp add: m_def)
    then have e: "2 ^ (256 - bits) = 2 ^ (8 - r) * (256::nat) ^ (m - 1)" by (metis pow power_add mult.commute)
    have le: "2 ^ (256 - bits) \<le> 1 * (256::nat) ^ m" using fr False full by (simp add: pow m_def)
    have chk: "check_leading_zeros h bits \<longleftrightarrow> be_val (take full h) = 0 \<and> unat b < 2 ^ (8 - r)"
      unfolding check_leading_zeros_def Let_def full_def [symmetric] r_def [symmetric] b_def [symmetric]
      using False bits zero mask_high_bits [of "8 - r" b] by simp
    show ?thesis
    proof (cases "be_val (take full h) = 0")
      case True
      then have "be_val h = unat b * 256 ^ (m - 1) + be_val (drop (Suc full) h)" using split v by simp
      then show ?thesis using chk True unfolding e by (simp only: scaled_less [OF low'] simp_thms)
    next
      case False
      then have "\<not> be_val h < 1 * 256 ^ m" unfolding split scaled_less [OF low] by simp
      then show ?thesis using False chk le by linarith
    qed
  qed
qed


lemma search_dynamic_Some:
  "search_dynamic sha pred sh ds = Some (d, i) \<Longrightarrow> d \<in> set ds \<and> i = sha (sh @ be_bytes 8 d) \<and> check_leading_zeros i POW_DYNAMIC_DIFFICULTY_BITS \<and> pred i"
  by (induction ds) (auto simp: Let_def split: if_splits)

lemma search_dynamic_None:
  "search_dynamic sha pred sh ds = None \<Longrightarrow> d \<in> set ds \<Longrightarrow>
     \<not> (check_leading_zeros (sha (sh @ be_bytes 8 d)) POW_DYNAMIC_DIFFICULTY_BITS \<and> pred (sha (sh @ be_bytes 8 d)))"
  by (induction ds) (auto simp: Let_def split: if_splits)

lemma search_static_Some:
  "search_static sha pred pk db ss = Some (s, d, i) \<Longrightarrow> s \<in> set ss \<and> d < db \<and> generate_node_id sha pk s d = Some i \<and> pred i"
proof (induction ss)
  case (Cons x ss)
  show ?case
  proof (cases "check_leading_zeros (static_hash sha pk x) POW_STATIC_DIFFICULTY_BITS \<and> search_dynamic sha pred (static_hash sha pk x) [0..<db] \<noteq> None")
    case True
    then have "s = x" "search_dynamic sha pred (static_hash sha pk x) [0..<db] = Some (d, i)" using Cons.prems by (auto simp: Let_def)
    then show ?thesis using search_dynamic_Some [of sha pred "static_hash sha pk x" "[0..<db]" d i] True by (auto simp: generate_node_id_def Let_def)
  next
    case False
    then have "search_static sha pred pk db ss = Some (s, d, i)" using Cons.prems by (auto simp: Let_def split: if_splits option.splits)
    then show ?thesis using Cons.IH by simp
  qed
qed simp

lemma search_static_None:
  "search_static sha pred pk db ss = None \<Longrightarrow> s \<in> set ss \<Longrightarrow> d < db \<Longrightarrow> generate_node_id sha pk s d = Some i \<Longrightarrow> \<not> pred i"
proof (induction ss)
  case (Cons x ss)
  have "search_static sha pred pk db ss = None" using Cons.prems(1) by (auto simp: Let_def split: if_splits option.splits)
  moreover have "\<not> pred i" if "s = x"
  proof -
    have i: "check_leading_zeros (static_hash sha pk x) POW_STATIC_DIFFICULTY_BITS" "i = sha (static_hash sha pk x @ be_bytes 8 d)"
      "check_leading_zeros i POW_DYNAMIC_DIFFICULTY_BITS"
      using Cons.prems(4) that by (auto simp: generate_node_id_def Let_def split: if_splits)
    then have "search_dynamic sha pred (static_hash sha pk x) [0..<db] = None" using Cons.prems(1) by (auto simp: Let_def split: option.splits)
    then show ?thesis using search_dynamic_None [of sha pred _ "[0..<db]" d] i Cons.prems(3) by auto
  qed
  ultimately show ?case using Cons by auto
qed simp

text \<open>
  The search for nonces is exact within its budgets: what it returns is an id that the check of a peer accepts and that
  satisfies the predicate, and it returns nothing only if there is none. An accepted id, read as a number, is below two
  to the power of 248 and comes from a static hash below two to the power of 235.
\<close>

theorem pow_search_exact:
  assumes "\<forall>x. length (sha x) = 32"
  shows "case find_pow_nonces_where sha pk sb db pred of
      None \<Rightarrow> \<not> (\<exists>s d i. s < sb \<and> d < db \<and> generate_node_id sha pk s d = Some i \<and> pred i)
    | Some (s, d, i) \<Rightarrow> s < sb \<and> d < db \<and> generate_node_id sha pk s d = Some i \<and> pred i
        \<and> be_val i < 2 ^ 248 \<and> be_val (static_hash sha pk s) < 2 ^ 235"
proof (cases "find_pow_nonces_where sha pk sb db pred")
  case None
  then show ?thesis using search_static_None [of sha pred pk db "[0..<sb]"] by (fastforce simp: find_pow_nonces_where_def)
next
  case (Some x)
  obtain s d i where x: "x = (s, d, i)" by (cases x) auto
  have r: "s < sb" "d < db" "generate_node_id sha pk s d = Some i" "pred i"
    using search_static_Some [of sha pred pk db "[0..<sb]" s d i] Some x by (auto simp: find_pow_nonces_where_def)
  have "check_leading_zeros (static_hash sha pk s) 21" "check_leading_zeros i 8" "length i = 32" "length (static_hash sha pk s) = 32"
    using r(3) assms by (auto simp: generate_node_id_def static_hash_def Let_def split: if_splits)
  then have "be_val i < 2 ^ 248" "be_val (static_hash sha pk s) < 2 ^ 235"
    using check_leading_zeros_iff [of i 8] check_leading_zeros_iff [of "static_hash sha pk s" 21] by simp_all
  then show ?thesis using Some x r by simp
qed


subsection \<open>The table\<close>

definition kad_inv :: "(byte list \<Rightarrow> byte list) \<Rightarrow> 'r kad_table \<Rightarrow> bool" where
  "kad_inv sha t \<longleftrightarrow> sorted_wrt (<) (map fst (kt_buckets t))
     \<and> (\<forall>(i, b)\<in>set (kt_buckets t). length b \<le> kt_capacity t \<and> distinct (map kp_node_id b)
         \<and> (\<forall>p\<in>set b. kp_node_id p \<noteq> kt_self t \<and> bucket_index t (kp_node_id p) = i
             \<and> generate_node_id sha (kp_pubkey p) (kp_static_nonce p) (kp_dynamic_nonce p) = Some (kp_node_id p)))"

lemma lowest_from_bound: "best < j \<Longrightarrow> lowest_from r_le best x j ps < j + length ps"
proof (induction ps arbitrary: best x j)
  case (Cons p ps)
  then show ?case using Cons.IH [of best "j + 1" x] Cons.IH [of j "j + 1" "kp_reputation p"] by auto
qed simp

lemma lowest_idx_bound: "lowest_idx r_le ps = Some i \<Longrightarrow> i < length ps"
  using lowest_from_bound [of 0 1 r_le _ "tl ps"] by (cases ps) (auto simp: lowest_idx_def)

lemma replace_peer_set: "set (replace_peer p b) \<subseteq> insert p (set b)" and replace_peer_ids: "map kp_node_id (replace_peer p b) = map kp_node_id b"
  by (induction b) auto

lemma add_to_bucket_ok:
  assumes "add_to_bucket r_le r_lt cap p b = (r, b')" "length b \<le> cap" "distinct (map kp_node_id b)"
  shows "length b' \<le> cap \<and> distinct (map kp_node_id b') \<and> set b' \<subseteq> insert p (set b) \<and> (r \<longrightarrow> p \<in> set b')"
proof (cases "list_ex (\<lambda>q. kp_node_id q = kp_node_id p) b")
  case True
  have "length (replace_peer p b) = length b" by (metis length_map replace_peer_ids)
  moreover have "p \<in> set (replace_peer p b)" using True by (induction b) auto
  ultimately show ?thesis using assms True replace_peer_set [of p b] by (auto simp: add_to_bucket_def replace_peer_ids)
next
  case False
  then have fresh: "kp_node_id p \<notin> set (map kp_node_id b)" by (auto simp: list_ex_iff)
  show ?thesis
  proof (cases "length b < cap")
    case True
    then show ?thesis using assms False fresh by (auto simp: add_to_bucket_def)
  next
    case full: False
    show ?thesis
    proof (cases "b' = b \<and> \<not> r")
      case False
      then obtain i where i: "lowest_idx r_le b = Some i" "b' = b[i := p]"
        using assms(1) full \<open>\<not> list_ex _ b\<close> by (auto simp: add_to_bucket_def split: option.splits if_splits)
      have "i < length b" using lowest_idx_bound [OF i(1)] .
      moreover have "distinct (map kp_node_id (b[i := p]))" unfolding map_update using fresh assms(3) by (intro distinct_list_update) auto
      ultimately show ?thesis using i(2) assms(2) set_update_subset_insert [of b i p] by (auto simp: set_update_memI)
    qed (use assms in auto)
  qed
qed

lemma kad_inv_add:
  assumes inv: "kad_inv sha t"
  shows "kad_inv sha (snd (kad_add_peer sha r_le r_lt p t))"
proof (cases "kp_node_id p = kt_self t \<or> generate_node_id sha (kp_pubkey p) (kp_static_nonce p) (kp_dynamic_nonce p) \<noteq> Some (kp_node_id p)")
  case False
  define i where "i = bucket_index t (kp_node_id p)"
  define b where "b = (case map_of (kt_buckets t) i of None \<Rightarrow> [] | Some b \<Rightarrow> b)"
  obtain r b' where b': "add_to_bucket r_le r_lt (kt_capacity t) p b = (r, b')" by fastforce
  have bok: "length b \<le> kt_capacity t" "distinct (map kp_node_id b)"
    "\<forall>q\<in>set b. kp_node_id q \<noteq> kt_self t \<and> bucket_index t (kp_node_id q) = i
       \<and> generate_node_id sha (kp_pubkey q) (kp_static_nonce q) (kp_dynamic_nonce q) = Some (kp_node_id q)"
  proof -
    have "(i, bb) \<in> set (kt_buckets t)" if "map_of (kt_buckets t) i = Some bb" for bb using that by (rule map_of_SomeD)
    then show "length b \<le> kt_capacity t" "distinct (map kp_node_id b)"
      "\<forall>q\<in>set b. kp_node_id q \<noteq> kt_self t \<and> bucket_index t (kp_node_id q) = i
       \<and> generate_node_id sha (kp_pubkey q) (kp_static_nonce q) (kp_dynamic_nonce q) = Some (kp_node_id q)"
      using inv unfolding b_def kad_inv_def by (cases "map_of (kt_buckets t) i"; fastforce)+
  qed
  note ok = add_to_bucket_ok [OF b' bok(1,2)]
  have t': "snd (kad_add_peer sha r_le r_lt p t) = t\<lparr>kt_buckets := bt_insert i b' (kt_buckets t)\<rparr>"
    using False b' by (simp add: kad_add_peer_def Let_def i_def [symmetric] b_def [symmetric])
  have idx: "bucket_index (t\<lparr>kt_buckets := x\<rparr>) q = bucket_index t q" for x q by (simp add: bucket_index_def)
  have "\<forall>q\<in>set b'. kp_node_id q \<noteq> kt_self t \<and> bucket_index t (kp_node_id q) = i
       \<and> generate_node_id sha (kp_pubkey q) (kp_static_nonce q) (kp_dynamic_nonce q) = Some (kp_node_id q)"
    using ok bok(3) False i_def by blast
  then show ?thesis
    unfolding t' kad_inv_def idx
    using inv ok sorted_bt_insert [of "kt_buckets t" i b'] set_bt_insert [of i b' "kt_buckets t"]
    by (simp add: kad_inv_def) blast
qed (use inv in \<open>auto simp: kad_add_peer_def\<close>)


subsection \<open>Buckets are distance ranges\<close>

lemma leading_zeros_spec:
  "n \<noteq> 0 \<Longrightarrow> n < 2 ^ k \<Longrightarrow> leading_zeros k n < k \<and> 2 ^ (k - 1 - leading_zeros k n) \<le> n \<and> n < 2 ^ (k - leading_zeros k n)"
proof (induction k)
  case (Suc k)
  then show ?case by (cases "n \<ge> 2 ^ k") auto
qed simp

lemma first_nonzero_spec:
  assumes "i + length bs = 32" "be_val bs \<noteq> 0"
  shows "first_nonzero i bs < 256 \<and> 2 ^ (255 - first_nonzero i bs) \<le> be_val bs \<and> be_val bs < 2 ^ (256 - first_nonzero i bs)"
  using assms
proof (induction bs arbitrary: i)
  case (Cons b bs)
  show ?case
  proof (cases "b = 0")
    case True
    then show ?thesis using Cons by (simp add: be_val_Cons)
  next
    case False
    define lz L where "lz = leading_zeros 8 (unat b)" and "L = length bs"
    have "unat b \<noteq> 0" "unat b < 2 ^ 8" using False unsigned_less [of b] by (simp_all add: unat_eq_zero)
    then have lz: "lz < 8" "2 ^ (7 - lz) \<le> unat b" "unat b < 2 ^ (8 - lz)" using leading_zeros_spec [of "unat b" 8] by (simp_all add: lz_def)
    have w: "be_val bs < 256 ^ L" using be_val_bound [of bs] by (simp add: L_def)
    have pow: "(256::nat) ^ L = 2 ^ (8 * L)" by (simp add: power_mult)
    have v: "be_val (b # bs) = unat b * 256 ^ L + be_val bs" by (simp add: be_val_Cons L_def)
    have e1: "2 ^ (256 - (i * 8 + lz)) = 2 ^ (8 - lz) * (256::nat) ^ L" and e2: "2 ^ (255 - (i * 8 + lz)) = 2 ^ (7 - lz) * (256::nat) ^ L"
    proof -
      have "256 - (i * 8 + lz) = (8 - lz) + 8 * L" "255 - (i * 8 + lz) = (7 - lz) + 8 * L" using Cons.prems(1) lz(1) by (simp_all add: L_def)
      then show "2 ^ (256 - (i * 8 + lz)) = 2 ^ (8 - lz) * (256::nat) ^ L" "2 ^ (255 - (i * 8 + lz)) = 2 ^ (7 - lz) * (256::nat) ^ L"
        by (simp_all only: power_add pow)
    qed
    have up: "be_val (b # bs) < 2 ^ (256 - (i * 8 + lz))" unfolding e1 v scaled_less [OF w] by (rule lz(3))
    have "2 ^ (7 - lz) * (256::nat) ^ L \<le> unat b * 256 ^ L" using lz(2) by (rule mult_le_mono1)
    then have lo: "2 ^ (255 - (i * 8 + lz)) \<le> be_val (b # bs)" unfolding e2 v by linarith
    have "i * 8 + lz < 256" using Cons.prems(1) lz(1) by simp
    then show ?thesis using False up lo by (simp add: lz_def del: leading_zeros.simps)
  qed
qed (simp add: be_val_def)

lemma first_nonzero_zero: "be_val bs = 0 \<Longrightarrow> first_nonzero i bs = 256"
  by (induction bs arbitrary: i) (auto simp: be_val_Cons unat_eq_zero)

lemma xor_byte: "(x::byte) XOR y = 0 \<longleftrightarrow> x = y" "(x::byte) XOR c = y XOR c \<longleftrightarrow> x = y"
  by (auto simp: bit_eq_iff bit_xor_iff)

lemma xor_distance_zero: "length a = length b \<Longrightarrow> be_val (xor_distance a b) = 0 \<longleftrightarrow> a = b"
  by (induction a b rule: list_induct2) (auto simp: xor_distance_def be_val_Cons be_val_def [of "[]"] unat_eq_zero xor_byte)

lemma xor_distance_inj: "length a = length t \<Longrightarrow> length b = length t \<Longrightarrow> be_val (xor_distance a t) = be_val (xor_distance b t) \<Longrightarrow> a = b"
proof -
  assume len: "length a = length t" "length b = length t" and eq: "be_val (xor_distance a t) = be_val (xor_distance b t)"
  have "length (xor_distance a t) = length (xor_distance b t)" using len by (simp add: xor_distance_def)
  then have "xor_distance a t = xor_distance b t" using eq be_bytes_val_id by metis
  then show "a = b"
    using len
  proof (induction a arbitrary: b t)
    case (Cons x a)
    then show ?case by (cases b; cases t) (auto simp: xor_distance_def xor_byte)
  qed (auto simp: xor_distance_def)
qed

text \<open>
  A peer's bucket is the range of its distance: for ids of 32 bytes the bucket is 256 for the node itself and otherwise the
  number of leading zero bits of the distance.
\<close>

lemma bucket_index_spec:
  assumes "length (kt_self t) = 32" "length other = 32"
  shows "if other = kt_self t then bucket_index t other = 256
    else bucket_index t other < 256 \<and> 2 ^ (255 - bucket_index t other) \<le> be_val (xor_distance (kt_self t) other)
      \<and> be_val (xor_distance (kt_self t) other) < 2 ^ (256 - bucket_index t other)"
proof -
  have len: "length (xor_distance (kt_self t) other) = 32" using assms by (simp add: xor_distance_def)
  have z: "be_val (xor_distance (kt_self t) other) = 0 \<longleftrightarrow> kt_self t = other" using xor_distance_zero assms by simp
  show ?thesis
    using first_nonzero_spec [of 0 "xor_distance (kt_self t) other"] first_nonzero_zero [of "xor_distance (kt_self t) other" 0] len z
    by (auto simp: bucket_index_def)
qed

subsection \<open>Lookups\<close>

text \<open>What the documentation of \<open>select_nth_unstable_by\<close> promises\<close>

definition selects :: "(nat \<Rightarrow> ('a \<Rightarrow> nat) \<Rightarrow> 'a list \<Rightarrow> 'a list) \<Rightarrow> bool" where
  "selects sel \<longleftrightarrow> (\<forall>k f xs. k < length xs \<longrightarrow> mset (sel k f xs) = mset xs
     \<and> (\<forall>x\<in>set (take k (sel k f xs)). \<forall>y\<in>set (drop k (sel k f xs)). f x \<le> f y))"

lemma distinct_concat_buckets:
  assumes "sorted_wrt (<) (map fst bs)" "\<forall>(i, b)\<in>set bs. distinct (map g b) \<and> (\<forall>p\<in>set b. idx (g p) = (i::nat))"
  shows "distinct (map g (concat (map snd bs)))"
  using assms
proof (induction bs)
  case (Cons e bs)
  obtain i b where e: "e = (i, b)" by fastforce
  have "g p \<noteq> g q" if p: "p \<in> set b" and q: "q \<in> set (concat (map snd bs))" for p q
  proof -
    obtain j c where c: "(j, c) \<in> set bs" "q \<in> set c" using q by auto
    have "i < j" using Cons.prems(1) c(1) e by force
    moreover have "idx (g p) = i" "idx (g q) = j" using Cons.prems(2) c p e by fastforce+
    ultimately show ?thesis by auto
  qed
  then have "set (map g b) \<inter> set (map g (concat (map snd bs))) = {}" by fastforce
  moreover have "distinct (map g b)" "distinct (map g (concat (map snd bs)))" using Cons e by auto
  ultimately show ?case using e by simp
qed simp

lemma sort_key_selected:
  assumes "inj_on f (set xs)" "distinct xs" "mset ys = mset xs" "\<forall>x\<in>set (take k ys). \<forall>y\<in>set (drop k ys). f x \<le> f y" "k \<le> length ys"
  shows "sort_key f (take k ys) = take k (sort_key f xs)"
proof -
  let ?s = "sort_key f (take k ys) @ sort_key f (drop k ys)"
  have dy: "distinct ys" "set ys = set xs" using assms(2,3) by (metis mset_eq_imp_distinct_iff, metis mset_eq_setD)
  have set: "set ?s = set xs" using dy(2) by (metis append_take_drop_id set_append set_sort)
  have "distinct (take k ys @ drop k ys)" using dy(1) by simp
  then have dist: "distinct ?s" unfolding distinct_append by simp
  have sorted: "sorted (map f ?s)" using assms(4) by (auto simp: sorted_append)
  have inj: "inj_on f (set ?s \<union> set (sort_key f xs))" using assms(1) set by simp
  have "distinct (map f ?s)" unfolding distinct_map set using dist assms(1) by (rule conjI)
  then have "?s = sort_key f xs"
    by (rule map_sorted_distinct_set_unique [OF inj sorted _ _ _ trans [OF set set_sort [symmetric]]])
      (use assms(1,2) in \<open>simp_all add: distinct_map\<close>)
  then show ?thesis using assms(5) by (metis append_eq_conv_conj length_sort length_take min.absorb2)
qed


lemma kad_inv_new: "kad_inv sha (kad_new self cap)"
  by (simp add: kad_inv_def kad_new_def)

lemma kad_peers:
  assumes "kad_inv sha t" "p \<in> set (all_peers t)"
  shows "\<exists>b. (bucket_index t (kp_node_id p), b) \<in> set (kt_buckets t) \<and> p \<in> set b \<and> kp_node_id p \<noteq> kt_self t
    \<and> generate_node_id sha (kp_pubkey p) (kp_static_nonce p) (kp_dynamic_nonce p) = Some (kp_node_id p)"
proof -
  obtain i b where b: "(i, b) \<in> set (kt_buckets t)" "p \<in> set b" using assms(2) by (auto simp: all_peers_def)
  then show ?thesis using assms(1) unfolding kad_inv_def by fastforce
qed

text \<open>C23. A table built by adding peers: every peer in it passed the work check, is not the node itself, is in the bucket of its
  distance and is there once; no bucket exceeds its capacity; and a lookup returns the closest peers of the whole table in
  order of their distance, however the selection arranges its parts.
\<close>

theorem kad_lookup_closest:
  assumes sha: "\<forall>x. length (sha x) = 32" and sel: "selects sel" and "length target = 32"
  shows "let t = fold (\<lambda>p t. snd (kad_add_peer sha r_le r_lt p t)) ps (kad_new self cap) in
      (\<forall>(i, b)\<in>set (kt_buckets t). length b \<le> cap)
    \<and> (\<forall>p\<in>set (all_peers t). generate_node_id sha (kp_pubkey p) (kp_static_nonce p) (kp_dynamic_nonce p) = Some (kp_node_id p))
    \<and> distinct (map kp_node_id (all_peers t))
    \<and> find_closest sel target cnt t = take cnt (sort_key (kad_distance target) (all_peers t))"
proof -
  define t where "t = fold (\<lambda>p t. snd (kad_add_peer sha r_le r_lt p t)) ps (kad_new self cap)"
  have cap: "kt_capacity (snd (kad_add_peer sha r_le r_lt p t)) = kt_capacity t" for p and t :: "'a kad_table"
    by (simp add: kad_add_peer_def Let_def split: prod.split)
  have inv: "kad_inv sha t \<and> kt_capacity t = cap"
    unfolding t_def by (induction ps rule: rev_induct) (simp_all add: kad_inv_new kad_inv_add cap, simp add: kad_new_def)
  have "distinct (map kp_node_id (concat (map snd (kt_buckets t))))"
    by (rule distinct_concat_buckets [where idx = "bucket_index t"]) (use inv in \<open>auto simp: kad_inv_def\<close>)
  then have ids: "distinct (map kp_node_id (all_peers t))" by (simp add: all_peers_def)
  then have dp: "distinct (all_peers t)" by (simp add: distinct_map)
  have pow: "\<forall>p\<in>set (all_peers t). generate_node_id sha (kp_pubkey p) (kp_static_nonce p) (kp_dynamic_nonce p) = Some (kp_node_id p)"
    using kad_peers inv by blast
  then have len: "length (kp_node_id p) = 32" if "p \<in> set (all_peers t)" for p
    using that sha by (fastforce simp: generate_node_id_def Let_def split: if_splits)
  have inj: "inj_on (kad_distance target) (set (all_peers t))"
  proof (rule inj_onI)
    fix p q assume pq: "p \<in> set (all_peers t)" "q \<in> set (all_peers t)" "kad_distance target p = kad_distance target q"
    then have "kp_node_id p = kp_node_id q" using xor_distance_inj [of "kp_node_id p" target "kp_node_id q"] len assms(3) by (simp add: kad_distance_def)
    then show "p = q" using pq ids by (auto simp: distinct_map dest: inj_onD)
  qed
  have "find_closest sel target cnt t = take cnt (sort_key (kad_distance target) (all_peers t))"
  proof (cases "cnt < length (all_peers t)")
    case True
    let ?ys = "sel cnt (kad_distance target) (all_peers t)"
    have s: "mset ?ys = mset (all_peers t)" "\<forall>x\<in>set (take cnt ?ys). \<forall>y\<in>set (drop cnt ?ys). kad_distance target x \<le> kad_distance target y"
      using sel True unfolding selects_def by blast+
    have "cnt \<le> length ?ys" using True mset_eq_length [OF s(1)] by simp
    from sort_key_selected [OF inj dp s this] show ?thesis using True by (auto simp: find_closest_def Let_def)
  qed (auto simp: find_closest_def Let_def)
  then show ?thesis unfolding t_def [symmetric] Let_def using inv ids pow by (auto simp: kad_inv_def)
qed


definition zero_sha :: "byte list \<Rightarrow> byte list" where
  "zero_sha x = replicate 32 0"

lemma zero_sha_work: "check_leading_zeros (zero_sha x) 21" "check_leading_zeros (zero_sha x) 8"
  by (simp_all add: check_leading_zeros_def zero_sha_def list_ex_iff)

lemma zero_sha_id: "generate_node_id zero_sha pk s d = Some (replicate 32 0)"
  using zero_sha_work by (simp add: generate_node_id_def static_hash_def Let_def) (simp add: zero_sha_def)

theorem pow_search_exact_witness:
  "\<exists>s d. find_pow_nonces_where zero_sha ''pk'' 3 4 (\<lambda>_. True) = Some (s, d, replicate 32 0) \<and> s < 3 \<and> d < 4"
proof -
  have "\<forall>x. length (zero_sha x) = 32" by (simp add: zero_sha_def)
  note r = pow_search_exact [OF this, where pk = "''pk''" and sb = 3 and db = 4 and pred = "\<lambda>_. True"]
  show ?thesis
  proof (cases "find_pow_nonces_where zero_sha ''pk'' 3 4 (\<lambda>_. True)")
    case None
    then have "\<not> ((0::nat) < 3 \<and> (0::nat) < 4)" using r by (simp only: option.case zero_sha_id) blast
    then show ?thesis by simp
  next
    case (Some x)
    then show ?thesis using r by (cases x) (simp add: zero_sha_id)
  qed
qed

lemma selects_sort: "selects (\<lambda>k f xs. sort_key f xs)"
proof -
  have "f x \<le> f y" if "x \<in> set (take k (sort_key f xs))" "y \<in> set (drop k (sort_key f xs))" for k and f :: "'a \<Rightarrow> nat" and x y xs
  proof -
    have "sorted (map f (take k (sort_key f xs) @ drop k (sort_key f xs)))" by (simp only: append_take_drop_id sorted_sort_key)
    then show ?thesis using that by (auto simp: sorted_append simp del: append_take_drop_id)
  qed
  then show ?thesis by (simp add: selects_def)
qed

definition sample_kad_peer :: "nat kad_peer" where
  "sample_kad_peer = \<lparr>kp_node_id = replicate 32 0, kp_pubkey = ''pk'', kp_address = ''a'', kp_reputation = 3, kp_static_nonce = 0, kp_dynamic_nonce = 0\<rparr>"

theorem kad_lookup_closest_witness:
  "find_closest (\<lambda>k f xs. sort_key f xs) (replicate 32 7) 1 (snd (kad_add_peer zero_sha (\<le>) (<) sample_kad_peer (kad_new (replicate 32 1) 4)))
   = [sample_kad_peer]"
proof -
  have "all_peers (snd (kad_add_peer zero_sha (\<le>) (<) sample_kad_peer (kad_new (replicate 32 1) 4))) = [sample_kad_peer]"
    by (simp add: kad_add_peer_def sample_kad_peer_def zero_sha_id kad_new_def add_to_bucket_def all_peers_def Let_def)
  then show ?thesis
    using kad_lookup_closest [OF _ selects_sort, of zero_sha "replicate 32 7" "(\<le>)" "(<)" "[sample_kad_peer]" "replicate 32 1" 4 1]
    by (simp add: zero_sha_def [of "_"] Let_def)
qed

end
