(* ===== verification/Moq.thy ===== *)
theory Moq
  imports Tables
begin

section \<open>Media over QUIC (streaming-core/src/moq.rs)\<close>

text \<open>
  The framing of media groups on a stream, the publisher that numbers objects, and the subscriber with its bounded buffer.
  The encoder writes to any \<open>Write\<close>: a writer is a state with a \<open>write_all\<close> that appends or fails (locale
  \<open>byte_writer\<close>), and a \<open>Vec\<close> is the writer that never fails. Shown: the decoder accepts exactly the encodings of
  well-formed groups of at most 64 MiB, so both directions are inverse; an encoder that refuses an object in the middle has
  already written what precedes it; the encoder accepts groups the decoder refuses; the publisher numbers its objects in
  increasing order; the buffer of the subscriber is the longest recent part of the stream within its two limits.
\<close>

abbreviation MAX_GROUP_OBJECTS :: nat where "MAX_GROUP_OBJECTS \<equiv> 4096"
abbreviation MAX_OBJECT_PAYLOAD :: nat where "MAX_OBJECT_PAYLOAD \<equiv> 8388608"
abbreviation MAX_GROUP_BYTES :: nat where "MAX_GROUP_BYTES \<equiv> 67108864"

datatype moq_track_type = VideoKeyframe | VideoDelta | AudioDatagram

record moq_object_header =
  mo_track_id :: nat
  mo_group_sequence :: nat
  mo_object_sequence :: nat
  mo_payload_size :: nat
  mo_track_type :: moq_track_type
  mo_timestamp_ms :: nat

record moq_object =
  mo_header :: moq_object_header
  mo_payload :: "byte list"

record moq_group =
  mg_group_sequence :: nat
  mg_objects :: "moq_object list"

primrec track_byte :: "moq_track_type \<Rightarrow> byte" where
  "track_byte VideoKeyframe = 0"
| "track_byte VideoDelta = 1"
| "track_byte AudioDatagram = 2"

subsection \<open>The encoder\<close>

text \<open>A writer: \<open>write_all\<close> answers whether it succeeded and leaves the writer in a new state.\<close>

type_synonym 'w writer = "byte list \<Rightarrow> 'w \<Rightarrow> unit res \<times> 'w"

definition vec_write :: "byte list writer" where
  "vec_write bs out = (Ok (), out @ bs)"

definition moq_write :: "'w writer \<Rightarrow> byte list \<Rightarrow> 'w \<Rightarrow> unit res \<times> 'w" where
  "moq_write wr bs out = (case wr bs out of
     (Ok u, out') \<Rightarrow> (Ok u, out') | (Err e, out') \<Rightarrow> (Err (''moq write failed: '' @ e), out') | (Panic, out') \<Rightarrow> (Panic, out'))"

definition push_u32 :: "'w writer \<Rightarrow> nat \<Rightarrow> 'w \<Rightarrow> unit res \<times> 'w" where
  "push_u32 wr v out = moq_write wr (le_bytes 4 v) out"

definition push_u64 :: "'w writer \<Rightarrow> nat \<Rightarrow> 'w \<Rightarrow> unit res \<times> 'w" where
  "push_u64 wr v out = moq_write wr (le_bytes 8 v) out"

definition then_write :: "unit res \<times> 'w \<Rightarrow> ('w \<Rightarrow> unit res \<times> 'w) \<Rightarrow> unit res \<times> 'w" where
  "then_write r f = (case r of (Ok u, w) \<Rightarrow> f w | (Err e, w) \<Rightarrow> (Err e, w) | (Panic, w) \<Rightarrow> (Panic, w))"

definition object_header_bytes :: "moq_object \<Rightarrow> byte list" where
  "object_header_bytes obj = (let h = mo_header obj in
     le_bytes 4 (mo_track_id h) @ le_bytes 8 (mo_group_sequence h) @ le_bytes 8 (mo_object_sequence h)
     @ [track_byte (mo_track_type h)] @ le_bytes 8 (mo_timestamp_ms h) @ le_bytes 4 (length (mo_payload obj)))"

fun encode_objects :: "'w writer \<Rightarrow> moq_object list \<Rightarrow> 'w \<Rightarrow> unit res \<times> 'w" where
  "encode_objects wr [] out = (Ok (), out)"
| "encode_objects wr (obj # objs) out =
     (if length (mo_payload obj) > MAX_OBJECT_PAYLOAD then (Err ''moq object oversized'', out)
      else if length (mo_payload obj) > U32_MAX then (Err ''payload too large'', out)
      else then_write (moq_write wr (object_header_bytes obj) out) (\<lambda>out.
        then_write (if mo_payload obj = [] then (Ok (), out) else moq_write wr (mo_payload obj) out) (\<lambda>out.
          encode_objects wr objs out)))"

definition encode_group_stream_to_writer_inner :: "'w writer \<Rightarrow> moq_group \<Rightarrow> 'w \<Rightarrow> unit res \<times> 'w" where
  "encode_group_stream_to_writer_inner wr g out =
     then_write (push_u64 wr (mg_group_sequence g) out) (\<lambda>out.
       then_write (push_u32 wr (length (mg_objects g)) out) (\<lambda>out. encode_objects wr (mg_objects g) out))"

definition total_payload :: "moq_group \<Rightarrow> nat" where
  "total_payload g = (\<Sum>obj\<leftarrow>mg_objects g. length (mo_payload obj))"

definition encode_group_stream_to_writer :: "'w writer \<Rightarrow> moq_group \<Rightarrow> 'w \<Rightarrow> unit res \<times> 'w" where
  "encode_group_stream_to_writer wr g out =
     (if length (mg_objects g) > MAX_GROUP_OBJECTS then (Err ''moq group too many objects'', out)
      else if total_payload g > U64_MAX then (Panic, out)
      else if total_payload g > MAX_GROUP_BYTES then (Err ''moq group oversized'', out)
      else encode_group_stream_to_writer_inner wr g out)"

definition encode_group_stream :: "moq_group \<Rightarrow> byte list res" where
  "encode_group_stream g =
     (if length (mg_objects g) > MAX_GROUP_OBJECTS then Err ''moq group too many objects''
      else if total_payload g > U64_MAX then Panic
      else if total_payload g > MAX_GROUP_BYTES then Err ''moq group oversized''
      else (case encode_group_stream_to_writer_inner vec_write g [] of (r, out) \<Rightarrow> and_then r (\<lambda>_. Ok out)))"

subsection \<open>The decoder\<close>

definition checked_end :: "nat \<Rightarrow> nat \<Rightarrow> nat res" where
  "checked_end pos n = (if pos + n \<le> U64_MAX then Ok (pos + n) else Err ''moq length overflow'')"

definition read_u8 :: "byte list \<Rightarrow> nat \<Rightarrow> (byte \<times> nat) res" where
  "read_u8 d pos = (if pos < length d then and_then (add_u64 pos 1) (\<lambda>p. Ok (d ! pos, p)) else Err ''moq truncated header'')"

definition mq_read_u32 :: "byte list \<Rightarrow> nat \<Rightarrow> (nat \<times> nat) res" where
  "mq_read_u32 d pos = and_then (checked_end pos 4) (\<lambda>e.
     if e \<le> length d then Ok (le_val (take 4 (drop pos d)), e) else Err ''moq truncated header'')"

definition mq_read_u64 :: "byte list \<Rightarrow> nat \<Rightarrow> (nat \<times> nat) res" where
  "mq_read_u64 d pos = and_then (checked_end pos 8) (\<lambda>e.
     if e \<le> length d then Ok (le_val (take 8 (drop pos d)), e) else Err ''moq truncated header'')"

definition track_of_byte :: "byte \<Rightarrow> moq_track_type res" where
  "track_of_byte b = (if b = 0 then Ok VideoKeyframe else if b = 1 then Ok VideoDelta else if b = 2 then Ok AudioDatagram
     else Err ''moq bad track type'')"

definition read_object :: "byte list \<Rightarrow> nat \<Rightarrow> (moq_object \<times> nat) res" where
  "read_object d pos =
     and_then (mq_read_u32 d pos) (\<lambda>(track, pos).
     and_then (mq_read_u64 d pos) (\<lambda>(gseq, pos).
     and_then (mq_read_u64 d pos) (\<lambda>(oseq, pos).
     and_then (read_u8 d pos) (\<lambda>(tb, pos).
     and_then (track_of_byte tb) (\<lambda>ty.
     and_then (mq_read_u64 d pos) (\<lambda>(ts, pos).
     and_then (mq_read_u32 d pos) (\<lambda>(n, pos).
       if n > MAX_OBJECT_PAYLOAD then Err ''moq object oversized''
       else and_then (checked_end pos n) (\<lambda>e.
         if e > length d then Err ''moq truncated payload''
         else Ok (\<lparr>mo_header = \<lparr>mo_track_id = track, mo_group_sequence = gseq, mo_object_sequence = oseq, mo_payload_size = n,
                     mo_track_type = ty, mo_timestamp_ms = ts\<rparr>,
                   mo_payload = take (e - pos) (drop pos d)\<rparr>, e)))))))))"

fun read_objects :: "nat \<Rightarrow> byte list \<Rightarrow> nat \<Rightarrow> moq_object list \<Rightarrow> (moq_object list \<times> nat) res" where
  "read_objects 0 d pos objects = Ok (objects, pos)"
| "read_objects (Suc n) d pos objects = and_then (read_object d pos) (\<lambda>(obj, pos). read_objects n d pos (objects @ [obj]))"

definition decode_group_stream_bytes :: "byte list \<Rightarrow> moq_group res" where
  "decode_group_stream_bytes d =
     (if length d > MAX_GROUP_BYTES then Err ''moq stream oversized''
      else and_then (mq_read_u64 d 0) (\<lambda>(gseq, pos).
        and_then (mq_read_u32 d pos) (\<lambda>(n, pos).
          if n > MAX_GROUP_OBJECTS then Err ''moq object count exceeds cap''
          else if n * 33 + pos > U64_MAX then Err ''moq length overflow''
          else if length d < n * 33 + pos then Err ''moq input truncated for declared object count''
          else and_then (read_objects n d pos []) (\<lambda>(objects, pos).
            if pos \<noteq> length d then Err ''moq trailing bytes''
            else Ok \<lparr>mg_group_sequence = gseq, mg_objects = objects\<rparr>))))"

definition decode_group_stream :: "byte list \<Rightarrow> moq_group res" where
  "decode_group_stream bytes = decode_group_stream_bytes bytes"

definition decode_group_stream_vec :: "byte list \<Rightarrow> moq_group res" where
  "decode_group_stream_vec bytes = decode_group_stream_bytes bytes"

subsection \<open>Publisher and subscriber\<close>

record moq_publisher =
  mp_stream_id :: string
  mp_publisher_pubkey :: string
  mp_group_seq :: nat
  mp_obj_seq :: nat
  mp_tracks :: "(nat, string) hmap"

definition publisher_new :: "string \<Rightarrow> string \<Rightarrow> moq_publisher" where
  "publisher_new sid pk = \<lparr>mp_stream_id = sid, mp_publisher_pubkey = pk, mp_group_seq = 0, mp_obj_seq = 0, mp_tracks = []\<rparr>"

definition register_track :: "nat \<Rightarrow> string \<Rightarrow> moq_publisher \<Rightarrow> moq_publisher" where
  "register_track tid nm p = p\<lparr>mp_tracks := hm_put tid nm (mp_tracks p)\<rparr>"

definition create_object :: "nat \<Rightarrow> moq_track_type \<Rightarrow> nat \<Rightarrow> byte list \<Rightarrow> moq_publisher \<Rightarrow> (moq_object \<times> moq_publisher) res" where
  "create_object tid ty ts payload p =
     and_then (if ty = VideoKeyframe then and_then (add_u64 (mp_group_seq p) 1) (\<lambda>g. Ok (p\<lparr>mp_group_seq := g, mp_obj_seq := 0\<rparr>))
               else Ok p) (\<lambda>p.
     and_then (add_u64 (mp_obj_seq p) 1) (\<lambda>n. let p = p\<lparr>mp_obj_seq := n\<rparr> in
       Ok (\<lparr>mo_header = \<lparr>mo_track_id = tid, mo_group_sequence = mp_group_seq p, mo_object_sequence = mp_obj_seq p,
               mo_payload_size = length payload mod 2 ^ 32, mo_track_type = ty, mo_timestamp_ms = ts\<rparr>,
             mo_payload = payload\<rparr>, p)))"

abbreviation MAX_SUBSCRIBER_BUFFER_BYTES :: nat where "MAX_SUBSCRIBER_BUFFER_BYTES \<equiv> 67108864"

record subscriber_buffer =
  sb_objects :: "moq_object list"
  sb_bytes :: nat

record moq_subscriber =
  ms_stream_id :: string
  ms_subscriber_pubkey :: string
  ms_buffer :: subscriber_buffer

definition subscriber_new :: "string \<Rightarrow> string \<Rightarrow> moq_subscriber" where
  "subscriber_new sid pk = \<lparr>ms_stream_id = sid, ms_subscriber_pubkey = pk, ms_buffer = \<lparr>sb_objects = [], sb_bytes = 0\<rparr>\<rparr>"

text \<open>The eviction loop; \<open>saturating_sub\<close> is subtraction of natural numbers.\<close>

fun sb_evict :: "moq_object list \<Rightarrow> nat \<Rightarrow> moq_object list \<times> nat" where
  "sb_evict [] b = ([], b)"
| "sb_evict (obj # objs) b =
     (if length (obj # objs) > 1000 \<or> b > MAX_SUBSCRIBER_BUFFER_BYTES then sb_evict objs (b - length (mo_payload obj))
      else (obj # objs, b))"

definition push_incoming_object :: "moq_object \<Rightarrow> moq_subscriber \<Rightarrow> moq_subscriber res" where
  "push_incoming_object obj s =
     and_then (add_u64 (sb_bytes (ms_buffer s)) (length (mo_payload obj))) (\<lambda>b.
       case sb_evict (sb_objects (ms_buffer s) @ [obj]) b of (objs, b) \<Rightarrow>
         Ok (s\<lparr>ms_buffer := \<lparr>sb_objects = objs, sb_bytes = b\<rparr>\<rparr>))"

definition drain_pending_objects :: "moq_subscriber \<Rightarrow> moq_object list \<times> moq_subscriber" where
  "drain_pending_objects s = (sb_objects (ms_buffer s), s\<lparr>ms_buffer := \<lparr>sb_objects = [], sb_bytes = 0\<rparr>\<rparr>)"

subsection \<open>Encodings\<close>

definition object_bytes :: "moq_object \<Rightarrow> byte list" where
  "object_bytes obj = object_header_bytes obj @ mo_payload obj"

definition group_bytes :: "moq_group \<Rightarrow> byte list" where
  "group_bytes g = le_bytes 8 (mg_group_sequence g) @ le_bytes 4 (length (mg_objects g)) @ concat (map object_bytes (mg_objects g))"

definition object_wf :: "moq_object \<Rightarrow> bool" where
  "object_wf obj \<longleftrightarrow> (let h = mo_header obj in
     mo_track_id h < 256 ^ 4 \<and> mo_group_sequence h < 256 ^ 8 \<and> mo_object_sequence h < 256 ^ 8 \<and> mo_timestamp_ms h < 256 ^ 8
     \<and> mo_payload_size h = length (mo_payload obj) \<and> length (mo_payload obj) \<le> MAX_OBJECT_PAYLOAD)"

definition group_wf :: "moq_group \<Rightarrow> bool" where
  "group_wf g \<longleftrightarrow> mg_group_sequence g < 256 ^ 8 \<and> length (mg_objects g) \<le> MAX_GROUP_OBJECTS \<and> list_all object_wf (mg_objects g)"

lemma length_object_header [simp]: "length (object_header_bytes obj) = 33"
  by (simp add: object_header_bytes_def Let_def)

lemma length_object_bytes [simp]: "length (object_bytes obj) = 33 + length (mo_payload obj)"
  by (simp add: object_bytes_def)

lemma length_object_concat:
  "length (concat (map object_bytes objs)) = 33 * length objs + (\<Sum>obj\<leftarrow>objs. length (mo_payload obj))"
  by (induction objs) simp_all

lemma length_group_bytes: "length (group_bytes g) = 12 + 33 * length (mg_objects g) + total_payload g"
  by (simp add: group_bytes_def total_payload_def length_object_concat)

lemma then_write_eq_Ok [simp]: "then_write r f = (Ok (), w') \<longleftrightarrow> (\<exists>w. r = (Ok (), w) \<and> f w = (Ok (), w'))"
  by (cases r, cases "fst r") (simp_all add: then_write_def)

lemma then_write_Ok [simp]: "then_write (Ok (), w) f = f w"
  by (simp add: then_write_def)

text \<open>What the encoder writes, for any writer that appends what it accepts.\<close>

locale byte_writer =
  fixes wr :: "byte list \<Rightarrow> 'w \<Rightarrow> unit res \<times> 'w"
    and written :: "'w \<Rightarrow> byte list"
  assumes write_ok: "wr bs w = (Ok (), w') \<Longrightarrow> written w' = written w @ bs"
begin

lemma moq_write_ok: "moq_write wr bs w = (Ok (), w') \<Longrightarrow> written w' = written w @ bs"
  by (auto simp: moq_write_def intro: write_ok split: prod.splits res.splits)

lemma encode_objects_ok:
  "encode_objects wr objs w = (Ok (), w') \<Longrightarrow>
     written w' = written w @ concat (map object_bytes objs) \<and> list_all (\<lambda>obj. length (mo_payload obj) \<le> MAX_OBJECT_PAYLOAD) objs"
proof (induction objs arbitrary: w)
  case (Cons obj objs)
  from Cons.prems obtain w1 w2
    where n: "length (mo_payload obj) \<le> MAX_OBJECT_PAYLOAD"
      and h: "moq_write wr (object_header_bytes obj) w = (Ok (), w1)"
      and p: "(if mo_payload obj = [] then (Ok (), w1) else moq_write wr (mo_payload obj) w1) = (Ok (), w2)"
      and rest: "encode_objects wr objs w2 = (Ok (), w')"
    by (cases "mo_payload obj = []"; cases "MAX_OBJECT_PAYLOAD < length (mo_payload obj)") auto
  have "written w2 = written w1 @ mo_payload obj"
    using p moq_write_ok by (cases "mo_payload obj = []") auto
  with moq_write_ok [OF h] have "written w2 = written w @ object_bytes obj" by (simp add: object_bytes_def)
  with Cons.IH [OF rest] n show ?case by simp
qed simp

lemma encode_inner_ok:
  assumes "encode_group_stream_to_writer_inner wr g w = (Ok (), w')"
  shows "written w' = written w @ group_bytes g" "list_all (\<lambda>obj. length (mo_payload obj) \<le> MAX_OBJECT_PAYLOAD) (mg_objects g)"
  using assms
  by (auto simp: encode_group_stream_to_writer_inner_def push_u64_def push_u32_def group_bytes_def
      dest!: moq_write_ok encode_objects_ok)

lemma encode_to_writer_ok:
  "encode_group_stream_to_writer wr g w = (Ok (), w') \<Longrightarrow> written w' = written w @ group_bytes g"
  by (auto simp: encode_group_stream_to_writer_def intro: encode_inner_ok(1) split: if_splits)

end

interpretation vec: byte_writer vec_write "\<lambda>w. w"
  by unfold_locales (auto simp: vec_write_def)

lemma vec_moq_write [simp]: "moq_write vec_write bs out = (Ok (), out @ bs)"
  by (simp add: moq_write_def vec_write_def)

lemma vec_encode_objects:
  "list_all (\<lambda>obj. length (mo_payload obj) \<le> MAX_OBJECT_PAYLOAD) objs \<Longrightarrow>
     encode_objects vec_write objs out = (Ok (), out @ concat (map object_bytes objs))"
  by (induction objs arbitrary: out) (auto simp: object_bytes_def)

lemma vec_encode_inner:
  "encode_group_stream_to_writer_inner vec_write g out =
     then_write (Ok (), out @ le_bytes 8 (mg_group_sequence g) @ le_bytes 4 (length (mg_objects g))) (encode_objects vec_write (mg_objects g))"
  by (simp add: encode_group_stream_to_writer_inner_def push_u64_def push_u32_def)

lemma encode_group_Ok_iff:
  "encode_group_stream g = Ok d \<longleftrightarrow> d = group_bytes g \<and> length (mg_objects g) \<le> MAX_GROUP_OBJECTS \<and> total_payload g \<le> MAX_GROUP_BYTES
     \<and> list_all (\<lambda>obj. length (mo_payload obj) \<le> MAX_OBJECT_PAYLOAD) (mg_objects g)" (is "?l \<longleftrightarrow> ?r")
proof
  assume l: ?l
  then obtain out where e: "encode_group_stream_to_writer_inner vec_write g [] = (Ok (), out)" and d: "d = out"
    by (auto simp: encode_group_stream_def split: if_splits prod.splits)
  show ?r using l vec.encode_inner_ok [OF e] d by (auto simp: encode_group_stream_def split: if_splits)
next
  assume ?r
  then show ?l
    by (simp add: encode_group_stream_def vec_encode_inner vec_encode_objects group_bytes_def)
qed

subsection \<open>The decoder accepts exactly the encodings\<close>

lemma drop_prefix: "drop pos d = a @ r \<Longrightarrow> drop (pos + length a) d = r"
  by (metis add.commute append_eq_conv_conj drop_drop)

lemma drop_fits:
  assumes "drop pos d = a @ r" "a \<noteq> []"
  shows "pos + length a \<le> length d"
proof -
  have "length d - pos = length a + length r" by (metis assms(1) length_append length_drop)
  moreover have "0 < length a" using assms(2) by simp
  ultimately show ?thesis by linarith
qed

lemma read_le_iff:
  assumes "length d \<le> U64_MAX" "0 < n"
  shows "pos + n \<le> U64_MAX \<and> pos + n \<le> length d \<and> v = le_val (take n (drop pos d)) \<longleftrightarrow>
     v < 256 ^ n \<and> (\<exists>r. drop pos d = le_bytes n v @ r)" (is "?l \<longleftrightarrow> ?r")
proof
  assume l: ?l
  then have "pos + n \<le> length d" by blast
  then have "length (take n (drop pos d)) = n" by simp
  then have "le_bytes n v = take n (drop pos d)" using l le_bytes_val_id by blast
  then have "drop pos d = le_bytes n v @ drop n (drop pos d)" by (simp only: append_take_drop_id)
  with l le_val_take show ?r by blast
next
  assume r: ?r
  then obtain r where d: "drop pos d = le_bytes n v @ r" by blast
  have ne: "le_bytes n v \<noteq> []" using assms(2) by (metis length_le_bytes list.size(3) less_numeral_extra(3))
  then have "pos + n \<le> length d" using drop_fits [OF d] by simp
  with d r assms(1) show ?l by simp
qed

lemma mq_read_u32_iff:
  "length d \<le> U64_MAX \<Longrightarrow> mq_read_u32 d pos = Ok (v, e) \<longleftrightarrow> e = pos + 4 \<and> v < 256 ^ 4 \<and> (\<exists>r. drop pos d = le_bytes 4 v @ r)"
  using read_le_iff [of d 4 pos v] by (auto simp: mq_read_u32_def checked_end_def split: if_splits)

lemma mq_read_u64_iff:
  "length d \<le> U64_MAX \<Longrightarrow> mq_read_u64 d pos = Ok (v, e) \<longleftrightarrow> e = pos + 8 \<and> v < 256 ^ 8 \<and> (\<exists>r. drop pos d = le_bytes 8 v @ r)"
  using read_le_iff [of d 8 pos v] by (auto simp: mq_read_u64_def checked_end_def split: if_splits)

lemma read_u8_iff:
  "length d \<le> U64_MAX \<Longrightarrow> read_u8 d pos = Ok (b, e) \<longleftrightarrow> e = pos + 1 \<and> (\<exists>r. drop pos d = [b] @ r)"
  by (auto simp: read_u8_def Cons_nth_drop_Suc [symmetric] split: if_splits)

lemma track_of_byte_iff: "track_of_byte b = Ok ty \<longleftrightarrow> b = track_byte ty"
  by (cases ty) (auto simp: track_of_byte_def)

lemma read_object_forward:
  assumes L: "length d \<le> U64_MAX" and R: "read_object d pos = Ok (obj, e)"
  shows "object_wf obj \<and> e = pos + length (object_bytes obj) \<and> (\<exists>r. drop pos d = object_bytes obj @ r)"
proof -
  from R obtain tid gs os tb ty ts n p1 p2 p3 p4 p5 p6 where
        1: "mq_read_u32 d pos = Ok (tid, p1)" and 2: "mq_read_u64 d p1 = Ok (gs, p2)" and 3: "mq_read_u64 d p2 = Ok (os, p3)"
    and 4: "read_u8 d p3 = Ok (tb, p4)" and 5: "track_of_byte tb = Ok ty" and 6: "mq_read_u64 d p4 = Ok (ts, p5)"
    and 7: "mq_read_u32 d p5 = Ok (n, p6)"
    and tail: "(if n > MAX_OBJECT_PAYLOAD then Err ''moq object oversized''
       else and_then (checked_end p6 n) (\<lambda>e.
         if e > length d then Err ''moq truncated payload''
         else Ok (\<lparr>mo_header = \<lparr>mo_track_id = tid, mo_group_sequence = gs, mo_object_sequence = os, mo_payload_size = n,
                     mo_track_type = ty, mo_timestamp_ms = ts\<rparr>,
                   mo_payload = take (e - p6) (drop p6 d)\<rparr>, e))) = Ok (obj, e)"
    unfolding read_object_def by (clarsimp split del: if_split)
  from tail have n: "n \<le> MAX_OBJECT_PAYLOAD" and fit: "p6 + n \<le> length d" and e: "e = p6 + n"
    and obj: "obj = \<lparr>mo_header = \<lparr>mo_track_id = tid, mo_group_sequence = gs, mo_object_sequence = os, mo_payload_size = n,
                     mo_track_type = ty, mo_timestamp_ms = ts\<rparr>, mo_payload = take n (drop p6 d)\<rparr>"
    by (auto simp: checked_end_def split: if_splits)
  note rs = 1 [unfolded mq_read_u32_iff [OF L]] 2 [unfolded mq_read_u64_iff [OF L]] 3 [unfolded mq_read_u64_iff [OF L]]
    4 [unfolded read_u8_iff [OF L]] 6 [unfolded mq_read_u64_iff [OF L]] 7 [unfolded mq_read_u32_iff [OF L]]
  obtain r1 r2 r3 r4 r6 r7 where
       d: "drop pos d = le_bytes 4 tid @ r1" "drop (pos + 4) d = le_bytes 8 gs @ r2" "drop (pos + 12) d = le_bytes 8 os @ r3"
          "drop (pos + 20) d = [tb] @ r4" "drop (pos + 21) d = le_bytes 8 ts @ r6" "drop (pos + 29) d = le_bytes 4 n @ r7"
    and p6: "p6 = pos + 33"
    using rs by (auto simp: ac_simps)
  have "r1 = le_bytes 8 gs @ r2" using drop_prefix [OF d(1)] d(2) by (simp add: ac_simps)
  moreover have "r2 = le_bytes 8 os @ r3" using drop_prefix [OF d(2)] d(3) by (simp add: ac_simps)
  moreover have "r3 = [tb] @ r4" using drop_prefix [OF d(3)] d(4) by (simp add: ac_simps)
  moreover have "r4 = le_bytes 8 ts @ r6" using drop_prefix [OF d(4)] d(5) by (simp add: ac_simps)
  moreover have "r6 = le_bytes 4 n @ r7" using drop_prefix [OF d(5)] d(6) by (simp add: ac_simps)
  moreover have r7: "r7 = drop p6 d" using drop_prefix [OF d(6)] p6 by (simp add: ac_simps)
  moreover have len: "length (take n (drop p6 d)) = n" using fit by simp
  ultimately have "drop pos d = object_header_bytes obj @ drop p6 d"
    using d(1) 5 by (simp add: object_header_bytes_def Let_def obj track_of_byte_iff)
  moreover have "drop p6 d = mo_payload obj @ drop n (drop p6 d)" unfolding obj by (simp only: moq_object.simps append_take_drop_id)
  ultimately have "drop pos d = object_bytes obj @ drop n (drop p6 d)" by (metis append.assoc object_bytes_def)
  moreover have "object_wf obj" using rs n len by (auto simp: object_wf_def obj)
  moreover have "e = pos + length (object_bytes obj)" using len by (simp add: e p6 obj)
  ultimately show ?thesis by blast
qed

lemma read_object_backward:
  assumes L: "length d \<le> U64_MAX" and W: "object_wf obj" and D: "drop pos d = object_bytes obj @ r"
  shows "read_object d pos = Ok (obj, pos + length (object_bytes obj))"
proof -
  let ?h = "mo_header obj" and ?n = "length (mo_payload obj)"
  have fit: "pos + 33 + ?n \<le> length d" using drop_fits [OF D] length_object_bytes [of obj]
    by (metis ab_semigroup_add_class.add_ac(1) add_eq_0_iff_both_eq_0 list.size(3) zero_neq_numeral)
  let ?t1 = "[track_byte (mo_track_type ?h)] @ le_bytes 8 (mo_timestamp_ms ?h) @ le_bytes 4 ?n @ mo_payload obj @ r"
  have d1: "drop pos d = le_bytes 4 (mo_track_id ?h) @ le_bytes 8 (mo_group_sequence ?h) @ le_bytes 8 (mo_object_sequence ?h) @ ?t1"
    using D by (simp add: object_bytes_def object_header_bytes_def Let_def)
  have d2: "drop (pos + 4) d = le_bytes 8 (mo_group_sequence ?h) @ le_bytes 8 (mo_object_sequence ?h) @ ?t1"
    using drop_prefix [OF d1] by (simp add: ac_simps)
  have d3: "drop (pos + 12) d = le_bytes 8 (mo_object_sequence ?h) @ ?t1"
    using drop_prefix [OF d2] by (simp add: ac_simps)
  have d4: "drop (pos + 20) d = ?t1"
    using drop_prefix [OF d3] by (simp add: ac_simps)
  have d5: "drop (pos + 21) d = le_bytes 8 (mo_timestamp_ms ?h) @ le_bytes 4 ?n @ mo_payload obj @ r"
    using drop_prefix [OF d4] by (simp add: ac_simps)
  have d6: "drop (pos + 29) d = le_bytes 4 ?n @ mo_payload obj @ r"
    using drop_prefix [OF d5] by (simp add: ac_simps)
  have d7: "drop (pos + 33) d = mo_payload obj @ r"
    using drop_prefix [OF d6] by (simp add: ac_simps)
  note w = W [unfolded object_wf_def Let_def]
  have "mq_read_u32 d pos = Ok (mo_track_id ?h, pos + 4)" using w d1 unfolding mq_read_u32_iff [OF L] by blast
  moreover have "mq_read_u64 d (pos + 4) = Ok (mo_group_sequence ?h, pos + 12)"
    using w d2 unfolding mq_read_u64_iff [OF L] by simp
  moreover have "mq_read_u64 d (pos + 12) = Ok (mo_object_sequence ?h, pos + 20)"
    using w d3 unfolding mq_read_u64_iff [OF L] by simp
  moreover have "read_u8 d (pos + 20) = Ok (track_byte (mo_track_type ?h), pos + 21)"
    using d4 unfolding read_u8_iff [OF L] by simp
  moreover have "track_of_byte (track_byte (mo_track_type ?h)) = Ok (mo_track_type ?h)"
    by (simp add: track_of_byte_iff)
  moreover have "mq_read_u64 d (pos + 21) = Ok (mo_timestamp_ms ?h, pos + 29)"
    using w d5 unfolding mq_read_u64_iff [OF L] by simp
  moreover have "mq_read_u32 d (pos + 29) = Ok (?n, pos + 33)"
    using w d6 unfolding mq_read_u32_iff [OF L] by simp
  moreover have "checked_end (pos + 33) ?n = Ok (pos + 33 + ?n)" using fit L by (simp add: checked_end_def)
  ultimately show ?thesis
    using w fit d7 by (simp add: read_object_def)
qed

lemma read_objects_iff:
  assumes L: "length d \<le> U64_MAX"
  shows "read_objects n d pos acc = Ok (objs, e) \<longleftrightarrow>
     (\<exists>os. objs = acc @ os \<and> length os = n \<and> list_all object_wf os \<and> e = pos + length (concat (map object_bytes os))
        \<and> (\<exists>r. drop pos d = concat (map object_bytes os) @ r))" (is "_ \<longleftrightarrow> ?r n pos acc")
proof (induction n arbitrary: pos acc)
  case 0
  then show ?case by auto
next
  case (Suc n)
  show ?case
  proof
    assume "read_objects (Suc n) d pos acc = Ok (objs, e)"
    then obtain ob p where 1: "read_object d pos = Ok (ob, p)" and 2: "read_objects n d p (acc @ [ob]) = Ok (objs, e)"
      by auto
    from 2 obtain os r where os: "objs = (acc @ [ob]) @ os" "length os = n" "list_all object_wf os"
        "e = p + length (concat (map object_bytes os))" "drop p d = concat (map object_bytes os) @ r"
      unfolding Suc.IH by blast
    from read_object_forward [OF L 1] obtain r' where ob: "object_wf ob" "p = pos + length (object_bytes ob)"
        "drop pos d = object_bytes ob @ r'" by blast
    from drop_prefix [OF ob(3)] os(5) ob(2) have "r' = concat (map object_bytes os) @ r" by simp
    then have "objs = acc @ ob # os" "length (ob # os) = Suc n" "list_all object_wf (ob # os)"
        "e = pos + length (concat (map object_bytes (ob # os)))" "drop pos d = concat (map object_bytes (ob # os)) @ r"
      using os ob by simp_all
    then show "?r (Suc n) pos acc" by blast
  next
    assume "?r (Suc n) pos acc"
    then obtain ob os r where os: "objs = acc @ ob # os" "length os = n" "list_all object_wf (ob # os)"
        "e = pos + length (concat (map object_bytes (ob # os)))" "drop pos d = object_bytes ob @ (concat (map object_bytes os) @ r)"
      by (auto simp: length_Suc_conv)
    have "read_object d pos = Ok (ob, pos + length (object_bytes ob))"
      using read_object_backward [OF L _ os(5)] os(3) by simp
    moreover have "?r n (pos + length (object_bytes ob)) (acc @ [ob])"
      using os drop_prefix [OF os(5)] by simp
    then have "read_objects n d (pos + length (object_bytes ob)) (acc @ [ob]) = Ok (objs, e)"
      unfolding Suc.IH .
    ultimately show "read_objects (Suc n) d pos acc = Ok (objs, e)" by simp
  qed
qed

lemma reads_no_panic [simp]:
  "mq_read_u32 d pos \<noteq> Panic" "mq_read_u64 d pos \<noteq> Panic" "checked_end pos n \<noteq> Panic" "track_of_byte b \<noteq> Panic"
  by (simp_all add: mq_read_u32_def mq_read_u64_def checked_end_def track_of_byte_def)

lemma read_u8_no_panic: "length d \<le> U64_MAX \<Longrightarrow> read_u8 d pos \<noteq> Panic"
  by (simp add: read_u8_def add_u64_def)

lemma read_object_no_panic: "length d \<le> U64_MAX \<Longrightarrow> read_object d pos \<noteq> Panic"
  by (auto simp: read_object_def read_u8_no_panic split: if_splits)

lemma read_objects_no_panic: "length d \<le> U64_MAX \<Longrightarrow> read_objects n d pos acc \<noteq> Panic"
  by (induction n arbitrary: pos acc) (auto simp: read_object_no_panic)

lemma decode_no_panic: "decode_group_stream d \<noteq> Panic"
  by (auto simp: decode_group_stream_def decode_group_stream_bytes_def read_objects_no_panic split: if_splits)

lemma decode_group_iff:
  "decode_group_stream d = Ok g \<longleftrightarrow> group_wf g \<and> encode_group_stream g = Ok d \<and> length d \<le> MAX_GROUP_BYTES" (is "?l \<longleftrightarrow> ?r")
proof
  assume ?l
  then obtain n objs where L: "length d \<le> MAX_GROUP_BYTES" and n: "n \<le> MAX_GROUP_OBJECTS"
    and 1: "mq_read_u64 d 0 = Ok (mg_group_sequence g, 8)" and 2: "mq_read_u32 d 8 = Ok (n, 12)"
    and 3: "read_objects n d 12 [] = Ok (mg_objects g, length d)"
    by (auto simp: decode_group_stream_def decode_group_stream_bytes_def mq_read_u64_def mq_read_u32_def checked_end_def split: if_splits)
  have U: "length d \<le> U64_MAX" using L by simp
  from 3 obtain r3 where os: "length (mg_objects g) = n" "list_all object_wf (mg_objects g)"
      "drop 12 d = concat (map object_bytes (mg_objects g)) @ r3" "length d = 12 + length (concat (map object_bytes (mg_objects g)))"
    unfolding read_objects_iff [OF U] by auto
  then have r3: "r3 = []" by (metis append.right_neutral append_eq_conv_conj drop_all drop_prefix length_drop order_refl)
  from 1 2 obtain r1 r2 where h: "d = le_bytes 8 (mg_group_sequence g) @ r1" "drop 8 d = le_bytes 4 n @ r2" "mg_group_sequence g < 256 ^ 8"
    unfolding mq_read_u64_iff [OF U] mq_read_u32_iff [OF U] by auto
  have "r1 = le_bytes 4 n @ r2" using h(1,2) by simp
  moreover have "r2 = drop 12 d" using drop_prefix [OF h(2)] by simp
  ultimately have d: "d = group_bytes g" using h(1) os(1,3) r3 by (simp add: group_bytes_def)
  then have "total_payload g \<le> MAX_GROUP_BYTES" using L by (simp add: length_group_bytes)
  moreover have "list_all (\<lambda>obj. length (mo_payload obj) \<le> MAX_OBJECT_PAYLOAD) (mg_objects g)"
    using os(2) by (auto simp: list_all_iff object_wf_def Let_def)
  ultimately show ?r using d L n os h(3) by (simp add: encode_group_Ok_iff group_wf_def)
next
  assume r: ?r
  let ?os = "mg_objects g"
  have d: "d = le_bytes 8 (mg_group_sequence g) @ le_bytes 4 (length ?os) @ concat (map object_bytes ?os)"
    and L: "length d = 12 + 33 * length ?os + total_payload g"
    using r by (simp_all add: encode_group_Ok_iff length_group_bytes) (simp add: group_bytes_def)
  have U: "length d \<le> U64_MAX" using r by simp
  have n: "length ?os \<le> MAX_GROUP_OBJECTS" "mg_group_sequence g < 256 ^ 8" "list_all object_wf ?os"
    using r by (simp_all add: group_wf_def)
  have 1: "mq_read_u64 d 0 = Ok (mg_group_sequence g, 8)"
    unfolding mq_read_u64_iff [OF U] using n d by simp
  have "drop 8 d = le_bytes 4 (length ?os) @ concat (map object_bytes ?os)" by (simp add: d)
  then have 2: "mq_read_u32 d 8 = Ok (length ?os, 12)"
    unfolding mq_read_u32_iff [OF U] using n by simp
  have "drop 12 d = concat (map object_bytes ?os)" by (simp add: d)
  then have 3: "read_objects (length ?os) d 12 [] = Ok (?os, length d)"
    unfolding read_objects_iff [OF U] using n L by (simp add: length_object_concat total_payload_def)
  show ?l using r n L by (simp add: decode_group_stream_def decode_group_stream_bytes_def 1 2 3)
qed

lemmas decode_encode = decode_group_iff [THEN iffD2, OF conjI, OF _ conjI]

text \<open>C24. The stream decoder and the encoder are inverse to each other: the decoder answers a group exactly if the bytes are what the
  encoder writes for a well-formed group and are at most 64 MiB. So it refuses every truncated, padded or inconsistent
  input, and never panics.
\<close>

theorem moq_stream_exact:
  "(decode_group_stream d = Ok g \<longleftrightarrow> group_wf g \<and> encode_group_stream g = Ok d \<and> length d \<le> MAX_GROUP_BYTES)
   \<and> decode_group_stream d \<noteq> Panic"
  using decode_group_iff decode_no_panic by blast

subsection \<open>Limits of the encoder\<close>

text \<open>
  The caps of the two sides differ: eight objects of 8 MiB pass both checks of the encoder, and its output is refused by
  the decoder.
\<close>

definition full_object :: moq_object where
  "full_object = \<lparr>mo_header = \<lparr>mo_track_id = 1, mo_group_sequence = 1, mo_object_sequence = 1, mo_payload_size = MAX_OBJECT_PAYLOAD,
     mo_track_type = VideoKeyframe, mo_timestamp_ms = 0\<rparr>, mo_payload = replicate MAX_OBJECT_PAYLOAD 0\<rparr>"

lemma moq_encoder_exceeds_decoder:
  "\<exists>d. encode_group_stream \<lparr>mg_group_sequence = 0, mg_objects = replicate 8 full_object\<rparr> = Ok d
     \<and> decode_group_stream d = Err ''moq stream oversized''"
proof -
  let ?g = "\<lparr>mg_group_sequence = 0, mg_objects = replicate 8 full_object\<rparr>"
  have p: "length (mo_payload full_object) = MAX_OBJECT_PAYLOAD" by (simp add: full_object_def)
  have t: "total_payload ?g = MAX_GROUP_BYTES" by (simp add: total_payload_def sum_list_replicate p)
  have "encode_group_stream ?g = Ok (group_bytes ?g)"
    by (simp add: encode_group_Ok_iff t p list_all_iff)
  moreover have "length (group_bytes ?g) > MAX_GROUP_BYTES" by (simp add: length_group_bytes t)
  ultimately show ?thesis by (simp add: decode_group_stream_def decode_group_stream_bytes_def)
qed

text \<open>An oversized object is noticed when its turn comes: the objects before it are already on the stream.\<close>

lemma moq_partial_write:
  assumes "list_all (\<lambda>obj. length (mo_payload obj) \<le> MAX_OBJECT_PAYLOAD) objs" "length (mo_payload big) > MAX_OBJECT_PAYLOAD"
    "length objs < MAX_GROUP_OBJECTS" "(\<Sum>obj\<leftarrow>objs. length (mo_payload obj)) + length (mo_payload big) \<le> MAX_GROUP_BYTES"
  shows "encode_group_stream_to_writer vec_write \<lparr>mg_group_sequence = gs, mg_objects = objs @ [big]\<rparr> out =
     (Err ''moq object oversized'',
      out @ le_bytes 8 gs @ le_bytes 4 (length objs + 1) @ concat (map object_bytes objs))"
proof -
  have "encode_objects vec_write (objs @ [big]) w = (Err ''moq object oversized'', w @ concat (map object_bytes objs))" for w
    using assms(1,2) by (induction objs arbitrary: w) (auto simp: object_bytes_def)
  with assms show ?thesis
    by (simp add: encode_group_stream_to_writer_def total_payload_def vec_encode_inner)
qed

subsection \<open>The subscriber\<close>

definition payload_sum :: "moq_object list \<Rightarrow> nat" where
  "payload_sum objs = (\<Sum>obj\<leftarrow>objs. length (mo_payload obj))"

definition buffer_fits :: "moq_object list \<Rightarrow> bool" where
  "buffer_fits objs \<longleftrightarrow> length objs \<le> 1000 \<and> payload_sum objs \<le> MAX_SUBSCRIBER_BUFFER_BYTES"

fun recent :: "moq_object list \<Rightarrow> moq_object list" where
  "recent [] = []"
| "recent (obj # objs) = (if buffer_fits (obj # objs) then obj # objs else recent objs)"

fun push_all :: "moq_object list \<Rightarrow> moq_subscriber \<Rightarrow> moq_subscriber res" where
  "push_all [] s = Ok s"
| "push_all (obj # objs) s = and_then (push_incoming_object obj s) (push_all objs)"

lemma payload_sum_simps [simp]:
  "payload_sum [] = 0" "payload_sum (obj # objs) = length (mo_payload obj) + payload_sum objs"
  "payload_sum (xs @ ys) = payload_sum xs + payload_sum ys"
  by (simp_all add: payload_sum_def)

lemma sb_evict_recent: "sb_evict objs (payload_sum objs) = (recent objs, payload_sum (recent objs))"
  by (induction objs) (simp_all add: buffer_fits_def not_le linorder_not_less [symmetric] del: linorder_not_less)

lemma recent_fits: "buffer_fits (recent objs)"
  by (induction objs) (simp_all add: buffer_fits_def)

lemma recent_snoc: "recent (recent xs @ [obj]) = recent (xs @ [obj])"
proof (induction xs)
  case (Cons x xs)
  have "\<not> buffer_fits (x # xs) \<Longrightarrow> \<not> buffer_fits (x # xs @ [obj])" by (auto simp: buffer_fits_def)
  with Cons show ?case by auto
qed simp

lemma recent_drop: "\<exists>k. recent objs = drop k objs \<and> list_all (\<lambda>j. \<not> buffer_fits (drop j objs)) [0..<k]"
proof (induction objs)
  case Nil
  show ?case by (rule exI [of _ 0]) simp
next
  case (Cons obj objs)
  show ?case
  proof (cases "buffer_fits (obj # objs)")
    case True
    then show ?thesis by (intro exI [of _ 0]) simp
  next
    case False
    from Cons obtain k where k: "recent objs = drop k objs" "list_all (\<lambda>j. \<not> buffer_fits (drop j objs)) [0..<k]" by blast
    have "list_all (\<lambda>j. \<not> buffer_fits (drop j (obj # objs))) [0..<Suc k]"
      using k(2) False by (simp add: list_all_iff upt_conv_Cons image_Suc_atLeastLessThan [symmetric] del: upt_Suc image_Suc_atLeastLessThan)
    with k(1) False show ?thesis by (intro exI [of _ "Suc k"]) simp
  qed
qed

lemma push_recent:
  assumes "sb_objects (ms_buffer s) = recent xs" "sb_bytes (ms_buffer s) = payload_sum (recent xs)"
    "length (mo_payload obj) \<le> nat I64_MAX"
  shows "push_incoming_object obj s = Ok (s\<lparr>ms_buffer := \<lparr>sb_objects = recent (xs @ [obj]), sb_bytes = payload_sum (recent (xs @ [obj]))\<rparr>\<rparr>)"
proof -
  have "payload_sum (recent xs) \<le> MAX_SUBSCRIBER_BUFFER_BYTES" using recent_fits [of xs] by (simp add: buffer_fits_def)
  then have "add_u64 (sb_bytes (ms_buffer s)) (length (mo_payload obj)) = Ok (payload_sum (recent xs @ [obj]))"
    using assms(2,3) by simp
  then show ?thesis
    using sb_evict_recent [of "recent xs @ [obj]"] by (simp add: push_incoming_object_def assms(1) recent_snoc)
qed

lemma push_all_recent:
  assumes "list_all (\<lambda>obj. length (mo_payload obj) \<le> nat I64_MAX) objs"
    "sb_objects (ms_buffer s) = recent xs" "sb_bytes (ms_buffer s) = payload_sum (recent xs)"
  shows "\<exists>s'. push_all objs s = Ok s' \<and> sb_objects (ms_buffer s') = recent (xs @ objs)
     \<and> sb_bytes (ms_buffer s') = payload_sum (recent (xs @ objs))"
  using assms
proof (induction objs arbitrary: s xs)
  case (Cons obj objs)
  let ?s = "s\<lparr>ms_buffer := \<lparr>sb_objects = recent (xs @ [obj]), sb_bytes = payload_sum (recent (xs @ [obj]))\<rparr>\<rparr>"
  have "push_incoming_object obj s = Ok ?s" by (rule push_recent) (use Cons.prems in simp_all)
  moreover have "\<exists>s'. push_all objs ?s = Ok s' \<and> sb_objects (ms_buffer s') = recent ((xs @ [obj]) @ objs)
     \<and> sb_bytes (ms_buffer s') = payload_sum (recent ((xs @ [obj]) @ objs))"
    by (rule Cons.IH) (use Cons.prems in simp_all)
  ultimately show ?case by simp
qed simp

text \<open>
  The buffer of a subscriber: whatever is pushed after a drain, the buffer is within both limits, its byte count is exact,
  and it holds the most recent objects, as many of them as the limits allow: only a prefix was dropped, and with one more
  object the limits would be exceeded. No push panics.
\<close>

theorem moq_subscriber_window:
  assumes "list_all (\<lambda>obj. length (mo_payload obj) \<le> nat I64_MAX) objs"
  shows "\<exists>s' k. push_all objs (snd (drain_pending_objects s)) = Ok s'
     \<and> sb_objects (ms_buffer s') = drop k objs \<and> buffer_fits (drop k objs)
     \<and> sb_bytes (ms_buffer s') = payload_sum (drop k objs)
     \<and> list_all (\<lambda>j. \<not> buffer_fits (drop j objs)) [0..<k]"
proof -
  obtain s' where "push_all objs (snd (drain_pending_objects s)) = Ok s'" "sb_objects (ms_buffer s') = recent objs"
      "sb_bytes (ms_buffer s') = payload_sum (recent objs)"
    using push_all_recent [OF assms, of "snd (drain_pending_objects s)" "[]"] by (auto simp: drain_pending_objects_def)
  moreover obtain k where "recent objs = drop k objs" "list_all (\<lambda>j. \<not> buffer_fits (drop j objs)) [0..<k]"
    using recent_drop by blast
  ultimately show ?thesis using recent_fits [of objs] by metis
qed

theorem moq_subscriber_window_witness:
  "\<exists>s' k. push_all (replicate 9 full_object) (snd (drain_pending_objects (subscriber_new ''s'' ''p''))) = Ok s'
     \<and> sb_objects (ms_buffer s') = drop k (replicate 9 full_object) \<and> buffer_fits (drop k (replicate 9 full_object))
     \<and> sb_bytes (ms_buffer s') = payload_sum (drop k (replicate 9 full_object))
     \<and> list_all (\<lambda>j. \<not> buffer_fits (drop j (replicate 9 full_object))) [0..<k]"
  by (rule moq_subscriber_window) (simp add: list_all_iff full_object_def)

subsection \<open>From the publisher to the subscriber\<close>

type_synonym media_request = "nat \<times> moq_track_type \<times> nat \<times> byte list"

fun publish_all :: "media_request list \<Rightarrow> moq_publisher \<Rightarrow> (moq_object list \<times> moq_publisher) res" where
  "publish_all [] p = Ok ([], p)"
| "publish_all ((tid, ty, ts, payload) # rs) p =
     and_then (create_object tid ty ts payload p) (\<lambda>(obj, p).
       and_then (publish_all rs p) (\<lambda>(objs, p). Ok (obj # objs, p)))"

definition request_ok :: "media_request \<Rightarrow> bool" where
  "request_ok = (\<lambda>(tid, ty, ts, payload). tid < 256 ^ 4 \<and> ts < 256 ^ 8 \<and> length payload \<le> MAX_OBJECT_PAYLOAD)"

definition request_payload :: "media_request \<Rightarrow> byte list" where
  "request_payload = (\<lambda>(tid, ty, ts, payload). payload)"

definition later :: "moq_object \<Rightarrow> moq_object \<Rightarrow> bool" where
  "later a b \<longleftrightarrow> mo_group_sequence (mo_header a) < mo_group_sequence (mo_header b)
     \<or> mo_group_sequence (mo_header a) = mo_group_sequence (mo_header b) \<and> mo_object_sequence (mo_header a) < mo_object_sequence (mo_header b)"

definition after :: "moq_publisher \<Rightarrow> moq_object \<Rightarrow> bool" where
  "after p b \<longleftrightarrow> mp_group_seq p < mo_group_sequence (mo_header b)
     \<or> mp_group_seq p = mo_group_sequence (mo_header b) \<and> mp_obj_seq p < mo_object_sequence (mo_header b)"

lemma create_object_spec:
  assumes "create_object tid ty ts payload p = Ok (obj, p')"
  shows "mo_payload obj = payload" "mo_track_type (mo_header obj) = ty" "mo_group_sequence (mo_header obj) = mp_group_seq p'"
    "mo_object_sequence (mo_header obj) = mp_obj_seq p'" "after p obj" "after p' b \<Longrightarrow> later obj b" "after p' b \<Longrightarrow> after p b"
    "mp_group_seq p \<le> U64_MAX \<Longrightarrow> request_ok (tid, ty, ts, payload) \<Longrightarrow> object_wf obj"
    "mp_group_seq p' \<le> mp_group_seq p + 1" "mp_obj_seq p' \<le> mp_obj_seq p + 1"
    "ty = VideoKeyframe \<Longrightarrow> mp_obj_seq p' = 1 \<and> mp_group_seq p' = mp_group_seq p + 1"
  using assms by (auto simp: create_object_def after_def later_def object_wf_def request_ok_def Let_def split: if_splits)

lemma create_object_total:
  assumes "mp_group_seq p < U64_MAX" "mp_obj_seq p < U64_MAX"
  shows "\<exists>obj p'. create_object tid ty ts payload p = Ok (obj, p')"
  using assms by (simp add: create_object_def add_u64_def Let_def)

lemma publish_all_spec:
  assumes "mp_group_seq p + length rs \<le> U64_MAX" "mp_obj_seq p + length rs \<le> U64_MAX"
  shows "\<exists>objs p'. publish_all rs p = Ok (objs, p') \<and> map mo_payload objs = map request_payload rs
     \<and> (list_all request_ok rs \<longrightarrow> list_all object_wf objs) \<and> sorted_wrt later objs \<and> list_all (after p) objs"
  using assms
proof (induction rs arbitrary: p)
  case (Cons r rs)
  obtain tid ty ts payload where r: "r = (tid, ty, ts, payload)" by (cases r) auto
  obtain obj p' where c: "create_object tid ty ts payload p = Ok (obj, p')"
    using create_object_total [of p] Cons.prems by force
  note spec = create_object_spec [OF c]
  obtain objs p'' where o: "publish_all rs p' = Ok (objs, p'')" "map mo_payload objs = map request_payload rs"
      "list_all request_ok rs \<longrightarrow> list_all object_wf objs" "sorted_wrt later objs" "list_all (after p') objs"
    using Cons.IH [of p'] Cons.prems spec(9,10) by auto
  have "publish_all (r # rs) p = Ok (obj # objs, p'')" by (simp add: r c o(1))
  moreover have "map mo_payload (obj # objs) = map request_payload (r # rs)" using spec(1) o(2) by (simp add: r request_payload_def)
  moreover have "list_all request_ok (r # rs) \<longrightarrow> list_all object_wf (obj # objs)" using spec(8) o(3) r Cons.prems(1) by simp
  moreover have "sorted_wrt later (obj # objs)" using spec(6) o(4,5) by (simp add: list_all_iff)
  moreover have "list_all (after p) (obj # objs)" using spec(5,7) o(5) by (simp add: list_all_iff)
  ultimately show ?case by blast
qed simp

lemma recent_all: "buffer_fits objs \<Longrightarrow> recent objs = objs"
  by (cases objs) simp_all

text \<open>A stream end to end: media handed to a new publisher, at most 1000 objects and 64 MiB with their headers, is
  numbered in strictly increasing order, encodes as one group, decodes to the same group, and is what the subscriber
  drains, payloads and order unchanged.
\<close>

theorem moq_end_to_end:
  assumes ok: "list_all request_ok rs" and n: "length rs \<le> 1000" and gs: "gs < 256 ^ 8"
    and size: "12 + 33 * length rs + (\<Sum>r\<leftarrow>rs. length (request_payload r)) \<le> MAX_GROUP_BYTES"
  shows "\<exists>objs p d s'. publish_all rs (publisher_new sid pk) = Ok (objs, p)
     \<and> map mo_payload objs = map request_payload rs \<and> sorted_wrt later objs
     \<and> encode_group_stream \<lparr>mg_group_sequence = gs, mg_objects = objs\<rparr> = Ok d
     \<and> decode_group_stream d = Ok \<lparr>mg_group_sequence = gs, mg_objects = objs\<rparr>
     \<and> push_all objs (subscriber_new sid me) = Ok s' \<and> fst (drain_pending_objects s') = objs"
proof -
  obtain objs p where o: "publish_all rs (publisher_new sid pk) = Ok (objs, p)" "map mo_payload objs = map request_payload rs"
      "list_all object_wf objs" "sorted_wrt later objs"
    using publish_all_spec [of "publisher_new sid pk" rs] ok n by (auto simp: publisher_new_def)
  let ?g = "\<lparr>mg_group_sequence = gs, mg_objects = objs\<rparr>"
  have len: "length objs = length rs" using o(2) by (metis length_map)
  have "map length (map mo_payload objs) = map length (map request_payload rs)" by (simp only: o(2))
  then have sum: "payload_sum objs = (\<Sum>r\<leftarrow>rs. length (request_payload r))" by (simp add: payload_sum_def comp_def)
  have small: "list_all (\<lambda>obj. length (mo_payload obj) \<le> MAX_OBJECT_PAYLOAD) objs"
    using o(3) by (auto simp: list_all_iff object_wf_def Let_def)
  have t: "total_payload ?g = payload_sum objs" by (simp add: total_payload_def payload_sum_def)
  have enc: "encode_group_stream ?g = Ok (group_bytes ?g)"
    using len n size sum small by (simp add: encode_group_Ok_iff t)
  have "length (group_bytes ?g) \<le> MAX_GROUP_BYTES" using size by (simp add: length_group_bytes t len sum)
  moreover have "group_wf ?g" using gs o(3) len n by (simp add: group_wf_def)
  ultimately have dec: "decode_group_stream (group_bytes ?g) = Ok ?g" using decode_encode enc by blast
  have "buffer_fits objs" using len n size sum by (simp add: buffer_fits_def)
  moreover have "list_all (\<lambda>obj. length (mo_payload obj) \<le> nat I64_MAX) objs" using small by (auto simp: list_all_iff)
  then obtain s' where "push_all objs (subscriber_new sid me) = Ok s'" "sb_objects (ms_buffer s') = recent ([] @ objs)"
    using push_all_recent [of objs "subscriber_new sid me" "[]"] by (auto simp: subscriber_new_def)
  ultimately have "push_all objs (subscriber_new sid me) = Ok s' \<and> fst (drain_pending_objects s') = objs"
    by (simp add: drain_pending_objects_def recent_all)
  with o enc dec show ?thesis by blast
qed

theorem moq_end_to_end_witness:
  "\<exists>objs p d s'. publish_all [(1, VideoKeyframe, 5, [1, 2]), (2, AudioDatagram, 6, [])] (publisher_new ''s'' ''pk'') = Ok (objs, p)
     \<and> map mo_payload objs = map request_payload [(1, VideoKeyframe, 5, [1, 2]), (2, AudioDatagram, 6, [])] \<and> sorted_wrt later objs
     \<and> encode_group_stream \<lparr>mg_group_sequence = 7, mg_objects = objs\<rparr> = Ok d
     \<and> decode_group_stream d = Ok \<lparr>mg_group_sequence = 7, mg_objects = objs\<rparr>
     \<and> push_all objs (subscriber_new ''s'' ''me'') = Ok s' \<and> fst (drain_pending_objects s') = objs"
  by (rule moq_end_to_end) (simp_all add: request_ok_def request_payload_def)

end
