(* ===== verification/SafeUrl.thy ===== *)
theory SafeUrl
  imports PrivateIp Text "HOL-Library.Sublist"
begin

section \<open>URL checks (common-core/src/url.rs)\<close>

text \<open>
  The checks that every media link, relay address and wallet address passes before the application connects to it.
  \<open>Url::parse\<close> belongs to the url package: it is an argument that answers the parts of a URL. A host name it answers is
  ASCII, so \<open>\d\<close> and the case-insensitive patterns are read on ASCII. The address parser of the standard library is written
  out. Shown: a relay URL that passes has a scheme of web sockets, no credentials and a host that is not an address literal;
  a media URL that passes names no private address; the IPv4 parser inverts printing.
\<close>

abbreviation MAX_URL_LENGTH :: nat where "MAX_URL_LENGTH \<equiv> 2048"
abbreviation MAX_EXTRACT_COUNT :: nat where "MAX_EXTRACT_COUNT \<equiv> 1024"

record url_parts =
  u_scheme :: string
  u_username :: string
  u_password :: "string option"
  u_host :: "string option"
  u_query :: "(string \<times> string) list"

type_synonym url_parser = "string \<Rightarrow> url_parts option"

subsection \<open>Address literals (the parser of std::net)\<close>

text \<open>A parser takes the text and answers a value and the rest, or fails and consumes nothing.\<close>

definition is_digit :: "char \<Rightarrow> bool" where
  "is_digit c \<longleftrightarrow> digit_val c \<noteq> None"

definition hex_val :: "char \<Rightarrow> nat option" where
  "hex_val c = (let n = (of_char c :: nat) in
     if 48 \<le> n \<and> n \<le> 57 then Some (n - 48) else if 97 \<le> n \<and> n \<le> 102 then Some (n - 87)
     else if 65 \<le> n \<and> n \<le> 70 then Some (n - 55) else None)"

definition hex_digit :: "char \<Rightarrow> bool" where
  "hex_digit c \<longleftrightarrow> hex_val c \<noteq> None"

definition read_char :: "char \<Rightarrow> string \<Rightarrow> string option" where
  "read_char c s = (case s of [] \<Rightarrow> None | d # r \<Rightarrow> if d = c then Some r else None)"

definition read_octet :: "string \<Rightarrow> (byte \<times> string) option" where
  "read_octet s = (let ds = takeWhile is_digit s in
     if ds = [] \<or> length ds > 3 \<or> length ds > 1 \<and> hd ds = CHR ''0'' then None
     else case parse_digits 0 ds of
       Some n \<Rightarrow> if n \<le> 255 then Some (word_of_nat n, dropWhile is_digit s) else None | None \<Rightarrow> None)"

definition read_hex16 :: "string \<Rightarrow> (16 word \<times> string) option" where
  "read_hex16 s = (let ds = takeWhile hex_digit s in
     if ds = [] \<or> length ds > 4 then None
     else Some (word_of_nat (foldl (\<lambda>a c. a * 16 + (case hex_val c of Some d \<Rightarrow> d | None \<Rightarrow> 0)) 0 ds), dropWhile hex_digit s))"

definition read_ipv4_addr :: "string \<Rightarrow> ((byte \<times> byte \<times> byte \<times> byte) \<times> string) option" where
  "read_ipv4_addr s =
     (case read_octet s of None \<Rightarrow> None | Some (a, s) \<Rightarrow> (case read_char CHR ''.'' s of None \<Rightarrow> None | Some s \<Rightarrow>
     (case read_octet s of None \<Rightarrow> None | Some (b, s) \<Rightarrow> (case read_char CHR ''.'' s of None \<Rightarrow> None | Some s \<Rightarrow>
     (case read_octet s of None \<Rightarrow> None | Some (c, s) \<Rightarrow> (case read_char CHR ''.'' s of None \<Rightarrow> None | Some s \<Rightarrow>
     (case read_octet s of None \<Rightarrow> None | Some (d, s) \<Rightarrow> Some ((a, b, c, d), s))))))))"

definition read_sep :: "nat \<Rightarrow> string \<Rightarrow> string option" where
  "read_sep i s = (if i = 0 then Some s else read_char CHR '':'' s)"

text \<open>\<open>read_groups\<close>: \<open>i\<close> groups are read, \<open>limit\<close> are wanted; an IPv4 address may stand for the last two.\<close>

fun read_groups :: "nat \<Rightarrow> nat \<Rightarrow> 16 word list \<Rightarrow> string \<Rightarrow> 16 word list \<times> bool \<times> string" where
  "read_groups 0 i gs s = (gs, False, s)"
| "read_groups (Suc left) i gs s =
     (case (if left = 0 then None else case read_sep i s of None \<Rightarrow> None | Some t \<Rightarrow> read_ipv4_addr t) of
        Some ((a, b, c, d), r) \<Rightarrow> (gs @ [word_of_nat (unat a * 256 + unat b), word_of_nat (unat c * 256 + unat d)], True, r)
      | None \<Rightarrow>
          (case (case read_sep i s of None \<Rightarrow> None | Some t \<Rightarrow> read_hex16 t) of
             Some (g, r) \<Rightarrow> read_groups left (Suc i) (gs @ [g]) r
           | None \<Rightarrow> (gs, False, s)))"

definition v6_of :: "16 word list \<Rightarrow> ip_addr" where
  "v6_of g = V6 (g ! 0) (g ! 1) (g ! 2) (g ! 3) (g ! 4) (g ! 5) (g ! 6) (g ! 7)"

definition read_ipv6_addr :: "string \<Rightarrow> (ip_addr \<times> string) option" where
  "read_ipv6_addr s =
     (case read_groups 8 0 [] s of (hd_groups, hd_ipv4, s) \<Rightarrow>
        if length hd_groups = 8 then Some (v6_of hd_groups, s)
        else if hd_ipv4 then None
        else case read_char CHR '':'' s of None \<Rightarrow> None | Some s \<Rightarrow> (case read_char CHR '':'' s of None \<Rightarrow> None | Some s \<Rightarrow>
          (case read_groups (8 - (length hd_groups + 1)) 0 [] s of (tl_groups, _, s) \<Rightarrow>
             Some (v6_of (hd_groups @ replicate (8 - length hd_groups - length tl_groups) 0 @ tl_groups), s))))"

definition parse_ipv6 :: "string \<Rightarrow> ip_addr option" where
  "parse_ipv6 s = (case read_ipv6_addr s of Some (a, []) \<Rightarrow> Some a | _ \<Rightarrow> None)"

definition parse_ip :: "string \<Rightarrow> ip_addr option" where
  "parse_ip s = (case read_ipv4_addr s of
      Some ((a, b, c, d), r) \<Rightarrow> if r = [] then Some (V4 a b c d) else None
    | None \<Rightarrow> parse_ipv6 s)"

subsection \<open>Hosts\<close>

definition strip_brackets :: "string \<Rightarrow> string" where
  "strip_brackets h = rev (dropWhile (\<lambda>c. c = CHR '']'') (rev (dropWhile (\<lambda>c. c = CHR ''['') (trim h))))"

definition is_private_ipv6_str :: "string \<Rightarrow> bool" where
  "is_private_ipv6_str host = (case parse_ipv6 (strip_brackets host) of
      Some (V6 s0 s1 s2 s3 s4 s5 s6 s7) \<Rightarrow> is_private_ipv6 s0 s1 s2 s3 s4 s5 s6 s7 | _ \<Rightarrow> False)"

definition is_private_ip_str :: "string \<Rightarrow> bool" where
  "is_private_ip_str host = (case parse_ip (strip_brackets host) of Some ip \<Rightarrow> is_private_ip ip | None \<Rightarrow> False)"

fun split_on :: "char \<Rightarrow> string \<Rightarrow> string list" where
  "split_on sep [] = [[]]"
| "split_on sep (c # s) = (if c = sep then [] # split_on sep s else (case split_on sep s of p # ps \<Rightarrow> (c # p) # ps | [] \<Rightarrow> [[c]]))"

fun ip_is_loopback :: "ip_addr \<Rightarrow> bool" where
  "ip_is_loopback (V4 a b c d) = (a = 127)"
| "ip_is_loopback (V6 s0 s1 s2 s3 s4 s5 s6 s7) = (s0 = 0 \<and> s1 = 0 \<and> s2 = 0 \<and> s3 = 0 \<and> s4 = 0 \<and> s5 = 0 \<and> s6 = 0 \<and> s7 = 1)"

definition is_loopback_host :: "string \<Rightarrow> bool" where
  "is_loopback_host host = (let host = strip_brackets host in
     if to_ascii_lowercase host = ''localhost'' then True
     else case parse_ip host of Some ip \<Rightarrow> ip_is_loopback ip
     | None \<Rightarrow> (case split_on CHR ''.'' host of
         first # rest \<Rightarrow> rest \<noteq> [] \<and> first = ''127'' \<and> length rest \<le> 3 | [] \<Rightarrow> False))"

subsection \<open>Patterns\<close>

definition re_digits_5 :: "string \<Rightarrow> bool" where
  "re_digits_5 h \<longleftrightarrow> length (takeWhile is_digit h) \<ge> 5"

definition re_hex_host :: "string \<Rightarrow> bool" where
  "re_hex_host h \<longleftrightarrow> prefix ''0x'' (to_ascii_lowercase h) \<and> length h > 2 \<and> list_all hex_digit (drop 2 h)"

definition re_digits_only :: "string \<Rightarrow> bool" where
  "re_digits_only h \<longleftrightarrow> h \<noteq> [] \<and> list_all is_digit h"

definition re_ipv4_host :: "string \<Rightarrow> bool" where
  "re_ipv4_host h \<longleftrightarrow> (let ps = split_on CHR ''.'' h in
     length ps = 4 \<and> list_all (\<lambda>p. 1 \<le> length p \<and> length p \<le> 3 \<and> list_all is_digit p) ps)"

definition octal_dot :: "string \<Rightarrow> bool" where
  "octal_dot h = (case h of [] \<Rightarrow> False | c # r \<Rightarrow>
     let oct = (\<lambda>c. \<exists>d \<in> set [0..<8]. digit_val c = Some d) in
     c = CHR ''0'' \<and> takeWhile oct r \<noteq> [] \<and> prefix ''.'' (dropWhile oct r))"

definition hex_dot :: "string \<Rightarrow> bool" where
  "hex_dot h \<longleftrightarrow> prefix ''0x'' (to_ascii_lowercase h) \<and> takeWhile hex_digit (drop 2 h) \<noteq> [] \<and> prefix ''.'' (dropWhile hex_digit (drop 2 h))"

definition rebind_suffixes :: "string list" where
  "rebind_suffixes = [''.nip.io'', ''.xip.io'', ''.sslip.io'', ''.localtest.me'', ''.loca.lt'', ''.customer.your-server.de'',
     ''.dns.to'', ''.traefik.me'']"

definition rebind_apexes :: "string list" where
  "rebind_apexes = [''nip.io'', ''xip.io'', ''sslip.io'', ''localtest.me'', ''loca.lt'']"

definition host_security_regex_set :: "string \<Rightarrow> bool" where
  "host_security_regex_set h = (let l = to_ascii_lowercase h in
     sublist ''localhost'' l \<or> sublist ''127.0.0.1'' h \<or> prefix ''127.'' h \<or> sublist ''0x7f'' l
   \<or> prefix ''169.254.'' h \<or> prefix ''192.168.'' h \<or> prefix ''10.'' h
   \<or> list_ex (\<lambda>n. prefix (''172.'' @ show_nat n @ ''.'') h) [16..<32]
   \<or> sublist ''::1'' h \<or> sublist ''fc00:'' l \<or> sublist ''fe80:'' l
   \<or> h = ''0.0.0.0'' \<or> h = ''0'' \<or> octal_dot h \<or> hex_dot h \<or> re_digits_5 h
   \<or> list_ex (\<lambda>d. suffix d l) rebind_suffixes \<or> l \<in> set rebind_apexes)"

subsection \<open>The checks\<close>

text \<open>\<open>find_iter\<close> of the URL pattern is an argument: the matches in order.\<close>

fun keep_new :: "string list \<Rightarrow> string list \<Rightarrow> string list" where
  "keep_new seen [] = []"
| "keep_new seen (m # ms) =
     (if length m \<le> MAX_URL_LENGTH \<and> m \<notin> set seen then m # keep_new (m # seen) ms else keep_new seen ms)"

definition extract_urls :: "(string \<Rightarrow> string list) \<Rightarrow> string \<Rightarrow> string list" where
  "extract_urls find_iter text = take MAX_EXTRACT_COUNT (keep_new [] (find_iter text))"

definition is_valid_url :: "url_parser \<Rightarrow> string \<Rightarrow> bool" where
  "is_valid_url parse u \<longleftrightarrow> parse u \<noteq> None"

definition domain_of :: "url_parser \<Rightarrow> string \<Rightarrow> string option" where
  "domain_of parse u = (case parse u of None \<Rightarrow> None | Some p \<Rightarrow> Some (case u_host p of None \<Rightarrow> [] | Some h \<Rightarrow> h))"

definition is_valid_media_url :: "url_parser \<Rightarrow> string \<Rightarrow> bool" where
  "is_valid_media_url parse url =
     (if length url > MAX_URL_LENGTH \<or> url = [] then False
      else case parse url of None \<Rightarrow> False | Some p \<Rightarrow>
        if \<not> (u_scheme p = ''http'' \<or> u_scheme p = ''https'') then False
        else let h = (case u_host p of None \<Rightarrow> [] | Some h \<Rightarrow> h) in
          if u_username p \<noteq> [] \<or> u_password p \<noteq> None then False
          else if is_private_ip_str h \<or> is_private_ipv6_str h then False
          else if host_security_regex_set h then False
          else if re_digits_5 h then False
          else if re_digits_only h then False
          else if re_hex_host h then False
          else True)"

definition sanitize_link_url :: "url_parser \<Rightarrow> string \<Rightarrow> string option" where
  "sanitize_link_url parse url = (if is_valid_media_url parse url then Some url else None)"

definition safe_href :: "url_parser \<Rightarrow> string \<Rightarrow> string option" where
  "safe_href parse url = sanitize_link_url parse url"

definition is_valid_relay_url :: "url_parser \<Rightarrow> string \<Rightarrow> bool \<times> bool" where
  "is_valid_relay_url parse url =
     (if url = [] \<or> length url > MAX_URL_LENGTH then (False, False)
      else case parse url of None \<Rightarrow> (False, False) | Some p \<Rightarrow>
        if \<not> (u_scheme p = ''ws'' \<or> u_scheme p = ''wss'') then (False, False)
        else if u_username p \<noteq> [] \<or> u_password p \<noteq> None then (False, False)
        else case u_host p of None \<Rightarrow> (False, False) | Some h \<Rightarrow>
          if h = [] then (False, False)
          else if CHR ''.'' \<notin> set h then (False, False)
          else if re_ipv4_host h \<or> CHR '':'' \<in> set h \<or> re_hex_host h \<or> re_digits_only h then (False, False)
          else if host_security_regex_set h then (False, False)
          else (True, prefix ''xn--'' h \<or> sublist ''.xn--'' h))"

definition is_valid_event_relay_url :: "url_parser \<Rightarrow> string \<Rightarrow> bool" where
  "is_valid_event_relay_url parse url = (if \<not> prefix ''wss://'' url then False else fst (is_valid_relay_url parse url))"

subsection \<open>Decimal text\<close>

lemma is_digit_digit_char [simp]: "d < 10 \<Longrightarrow> is_digit (digit_char d)"
  by (simp add: is_digit_def)

lemma show_nat_digits: "list_all is_digit (show_nat n)"
proof (induction n rule: show_nat.induct)
  case (1 n)
  then show ?case by (cases "n < 10") (simp_all add: show_nat.simps [of n])
qed

lemma show_nat_ne [simp]: "show_nat n \<noteq> []"
  using show_nat_hd [of n] by auto

lemma length_show_nat: "n < 10 ^ k \<Longrightarrow> 0 < k \<Longrightarrow> length (show_nat n) \<le> k"
proof (induction n arbitrary: k rule: show_nat.induct)
  case (1 n)
  show ?case
  proof (cases "n < 10")
    case True
    with 1(3) show ?thesis by (simp add: show_nat.simps [of n])
  next
    case False
    obtain k' where k: "k = Suc k'" using 1(3) by (cases k) auto
    have "0 < k'" using False 1(2) k by (cases k') auto
    moreover have "n div 10 < 10 ^ k'" using 1(2) by (simp add: k less_mult_imp_div_less mult.commute)
    ultimately have "length (show_nat (n div 10)) \<le> k'" using 1(1) False by blast
    with False k show ?thesis by (simp add: show_nat.simps [of n])
  qed
qed

lemma digit_char_zero: "d < 10 \<Longrightarrow> digit_char d = CHR ''0'' \<Longrightarrow> d = 0"
  using digit_val_digit_char [of d] by (auto simp: digit_val_def)

lemma show_nat_no_zero: "n \<noteq> 0 \<Longrightarrow> hd (show_nat n) \<noteq> CHR ''0''"
proof (induction n rule: show_nat.induct)
  case (1 n)
  then show ?case
    by (cases "n < 10") (auto simp: show_nat.simps [of n] dest: digit_char_zero)
qed

lemma show_nat_leading: "length (show_nat n) > 1 \<Longrightarrow> hd (show_nat n) \<noteq> CHR ''0''"
  using show_nat_no_zero [of n] by (cases "n = 0") (simp_all add: show_nat.simps)

lemma takeWhile_run: "list_all P xs \<Longrightarrow> ys = [] \<or> \<not> P (hd ys) \<Longrightarrow> takeWhile P (xs @ ys) = xs \<and> dropWhile P (xs @ ys) = ys"
  by (cases ys) (auto simp: list_all_iff takeWhile_append dropWhile_append takeWhile_tail dropWhile_append3)

lemma read_octet_show: "ys = [] \<or> \<not> is_digit (hd ys) \<Longrightarrow> read_octet (show_nat (unat a) @ ys) = Some (a, ys)"
  using takeWhile_run [OF show_nat_digits, of ys "unat a"] length_show_nat [of "unat a" 3] unat_byte_le [of a]
    show_nat_leading [of "unat a"] parse_show_nat [of "unat a"]
  by (auto simp: read_octet_def Let_def)

definition dotted :: "byte \<Rightarrow> byte \<Rightarrow> byte \<Rightarrow> byte \<Rightarrow> string" where
  "dotted a b c d = show_nat (unat a) @ ''.'' @ show_nat (unat b) @ ''.'' @ show_nat (unat c) @ ''.'' @ show_nat (unat d)"

lemma not_digit_sep: "\<not> is_digit CHR ''.''" "\<not> is_digit CHR '':''"
  by (simp_all add: is_digit_def digit_val_def)

lemma parse_ip_dotted: "parse_ip (dotted a b c d) = Some (V4 a b c d)"
  using read_octet_show [of "[]" d] by (simp add: parse_ip_def read_ipv4_addr_def dotted_def read_octet_show not_digit_sep read_char_def)

subsection \<open>Literals and patterns\<close>

lemma read_octet_run:
  assumes "read_octet s = Some (a, r)"
  shows "\<exists>ds. s = ds @ r \<and> 1 \<le> length ds \<and> length ds \<le> 3 \<and> list_all is_digit ds"
proof (intro exI conjI)
  show "s = takeWhile is_digit s @ r"
    using assms by (auto simp: read_octet_def Let_def split: if_splits option.splits)
qed (use assms in \<open>auto simp: read_octet_def Let_def list_all_iff Suc_le_eq dest: set_takeWhileD split: if_splits option.splits\<close>)

lemma split_on_none: "c \<notin> set a \<Longrightarrow> split_on c a = [a]"
  by (induction a) auto

lemma split_on_sep: "c \<notin> set a \<Longrightarrow> split_on c (a @ c # s) = a # split_on c s"
  by (induction a) auto

lemma split_on_digits: "list_all is_digit ds \<Longrightarrow> split_on CHR ''.'' ds = [ds]"
  "list_all is_digit ds \<Longrightarrow> split_on CHR ''.'' (ds @ CHR ''.'' # s) = ds # split_on CHR ''.'' s"
  using not_digit_sep(1) by (auto simp: list_all_iff intro!: split_on_none split_on_sep)

lemma read_char_Some [simp]: "read_char c s = Some r \<longleftrightarrow> s = c # r"
  by (auto simp: read_char_def split: list.splits)

lemma ipv4_literal_pattern:
  assumes "read_ipv4_addr h = Some (x, [])"
  shows "re_ipv4_host h"
proof -
  obtain a b c d r1 r2 r3 where
      "read_octet h = Some (a, CHR ''.'' # r1)" "read_octet r1 = Some (b, CHR ''.'' # r2)"
      "read_octet r2 = Some (c, CHR ''.'' # r3)" "read_octet r3 = Some (d, [])"
    using assms by (auto simp: read_ipv4_addr_def split: option.splits prod.splits)
  from this [THEN read_octet_run] show ?thesis
    by (clarsimp simp: re_ipv4_host_def split_on_digits)
qed

lemma read_hex16_set: "read_hex16 s = Some (g, r) \<Longrightarrow> set r \<subseteq> set s"
  by (auto simp: read_hex16_def Let_def dest: set_dropWhileD split: if_splits)

lemma read_groups_sep:
  "read_groups n (Suc i) gs s = (gs', v4, r) \<Longrightarrow> gs' \<noteq> gs \<Longrightarrow> CHR '':'' \<in> set s"
  by (cases n) (auto simp: read_sep_def split: option.splits if_splits)

lemma read_octet_set: "read_octet s = Some (a, r) \<Longrightarrow> set r \<subseteq> set s"
  using read_octet_run by fastforce

lemma read_ipv4_set: "read_ipv4_addr s = Some (x, r) \<Longrightarrow> set r \<subseteq> set s"
  by (clarsimp simp: read_ipv4_addr_def dest!: read_octet_set split: option.splits prod.splits) blast

lemma read_sep_set: "read_sep i s = Some t \<Longrightarrow> set t \<subseteq> set s"
  by (auto simp: read_sep_def split: if_splits)

lemma read_groups_set: "read_groups n i gs s = (gs', v4, r) \<Longrightarrow> set r \<subseteq> set s"
proof (induction n i gs s rule: read_groups.induct)
  case (2 m i gs s)
  let ?v4 = "if m = 0 then None else case read_sep i s of None \<Rightarrow> None | Some t \<Rightarrow> read_ipv4_addr t"
  let ?hex = "case read_sep i s of None \<Rightarrow> None | Some t \<Rightarrow> read_hex16 t"
  consider x r' where "?v4 = Some (x, r')" | g r' where "?v4 = None" "?hex = Some (g, r')" | "?v4 = None" "?hex = None"
    by (cases ?v4; cases ?hex) auto
  then show ?case
  proof cases
    case (1 x r')
    then show ?thesis using "2.prems"
      by (cases x) (auto dest!: read_ipv4_set read_sep_set split: option.splits if_splits)
  next
    case (2 g r')
    then have "set r' \<subseteq> set s" by (auto dest!: read_hex16_set read_sep_set split: option.splits)
    moreover have "set r \<subseteq> set r'" using "2.IH" [OF 2(1,2) refl] "2.prems" 2 by simp
    ultimately show ?thesis by blast
  next
    case 3
    then show ?thesis using "2.prems" by simp
  qed
qed simp

lemma read_groups_three:
  assumes "read_groups n 0 [] s = (gs', v4, r)" "2 < length gs'"
  shows "CHR '':'' \<in> set s"
proof (cases n)
  case (Suc m)
  have nov4: "(if m = 0 then None else read_ipv4_addr s) = None"
    using assms Suc by (auto simp: read_sep_def split: option.splits prod.splits)
  obtain g t where g: "read_hex16 s = Some (g, t)" "read_groups m (Suc 0) [g] t = (gs', v4, r)"
    using assms Suc nov4 by (auto simp: read_sep_def split: option.splits prod.splits)
  have "gs' \<noteq> [g]" using assms(2) by auto
  from read_groups_sep [OF g(2) this] read_hex16_set [OF g(1)] show ?thesis by blast
qed (use assms in simp)

lemma read_groups_nocolon:
  "read_groups n 0 [] s = (gs', v4, CHR '':'' # r) \<Longrightarrow> CHR '':'' \<in> set s"
  using read_groups_set by fastforce

lemma ipv6_literal_colon: "read_ipv6_addr h = Some (x, r) \<Longrightarrow> CHR '':'' \<in> set h"
  using read_groups_three
  by (fastforce simp: read_ipv6_addr_def split: prod.splits if_splits option.splits dest: read_groups_nocolon)

lemma literal_caught: "parse_ip h = Some ip \<Longrightarrow> re_ipv4_host h \<or> CHR '':'' \<in> set h"
  by (auto simp: parse_ip_def parse_ipv6_def split: option.splits prod.splits if_splits list.splits
      dest: ipv4_literal_pattern ipv6_literal_colon)

lemma dotted_chars: "list_all (\<lambda>c. is_digit c \<or> c = CHR ''.'') (dotted a b c d)"
  using show_nat_digits by (auto simp: dotted_def list_all_iff)

lemma digit_graphic:
  assumes "is_digit c \<or> c = CHR ''.''"
  shows "33 \<le> byte_of_char c \<and> byte_of_char c < 128" "c \<noteq> CHR ''[''" "c \<noteq> CHR '']''"
proof -
  have n: "33 \<le> (of_char c :: nat) \<and> (of_char c :: nat) < 90"
    using assms by (elim disjE) (simp_all add: is_digit_def digit_val_def split: if_splits)
  then show "33 \<le> byte_of_char c \<and> byte_of_char c < 128"
    by (simp add: byte_of_char_def word_le_nat_alt word_less_nat_alt unat_of_nat)
  show "c \<noteq> CHR ''[''" using n by (intro notI) simp
  show "c \<noteq> CHR '']''" using n by (intro notI) simp
qed

lemma dropWhile_none: "\<forall>x\<in>set xs. \<not> P x \<Longrightarrow> dropWhile P xs = xs"
  by (cases xs) simp_all

lemma strip_graphic:
  assumes h: "list_all (\<lambda>c. is_digit c \<or> c = CHR ''.'') h"
  shows "strip_brackets h = h"
proof -
  note ok = h [unfolded list_all_iff, rule_format]
  have "trim h = h"
  proof (rule trim_graphic, rule ballI)
    fix x assume "x \<in> set (bytes_of h)"
    then obtain c where c: "c \<in> set h" and x: "x = byte_of_char c" unfolding bytes_of_def by (metis imageE list.set_map)
    show "33 \<le> x \<and> x < 128" unfolding x by (rule digit_graphic(1) [OF ok [OF c]])
  qed
  moreover have "dropWhile (\<lambda>x. x = CHR ''['') h = h"
  proof (rule dropWhile_none, rule ballI)
    fix c assume c: "c \<in> set h"
    show "c \<noteq> CHR ''[''" by (rule digit_graphic(2) [OF ok [OF c]])
  qed
  moreover have "dropWhile (\<lambda>x. x = CHR '']'') (rev h) = rev h"
  proof (rule dropWhile_none, rule ballI)
    fix c assume "c \<in> set (rev h)"
    then have c: "c \<in> set h" by (simp only: set_rev)
    show "c \<noteq> CHR '']''" by (rule digit_graphic(3) [OF ok [OF c]])
  qed
  ultimately show ?thesis by (simp only: strip_brackets_def rev_rev_ident)
qed

lemmas trim_dotted = strip_graphic [OF dotted_chars]

text \<open>C29. The guard of outbound connections. A relay URL that passes names web sockets, carries no credentials, and its host is no
  address literal, IPv4 or IPv6. A media URL that passes is HTTP, carries no credentials, and if its host is an address
  literal, the address lies in none of the reserved IPv4 blocks; a host written as a dotted address of such a block is
  refused.
\<close>

theorem url_guard:
  assumes "parse url = Some p" "u_host p = Some h"
  shows "(fst (is_valid_relay_url parse url) \<longrightarrow>
        u_scheme p \<in> {''ws'', ''wss''} \<and> u_username p = [] \<and> u_password p = None \<and> CHR ''.'' \<in> set h \<and> parse_ip h = None)
    \<and> (is_valid_media_url parse url \<longrightarrow>
        u_scheme p \<in> {''http'', ''https''} \<and> u_username p = [] \<and> u_password p = None
        \<and> (case parse_ip (strip_brackets h) of
             Some (V4 a b c d) \<Rightarrow> \<not> list_ex (in_cidr (v4_num a b c d)) private_blocks
           | Some ip \<Rightarrow> \<not> is_private_ip ip | None \<Rightarrow> True))
    \<and> (h = dotted a b c d \<and> list_ex (in_cidr (v4_num a b c d)) private_blocks \<longrightarrow>
        \<not> is_valid_media_url parse url \<and> \<not> fst (is_valid_relay_url parse url))"
proof (intro conjI impI)
  assume r: "fst (is_valid_relay_url parse url)"
  show "u_scheme p \<in> {''ws'', ''wss''}" "u_username p = []" "u_password p = None" "CHR ''.'' \<in> set h"
    using r assms by (auto simp: is_valid_relay_url_def split: if_splits)
  show "parse_ip h = None"
    using r assms literal_caught [of h] by (cases "parse_ip h") (auto simp: is_valid_relay_url_def split: if_splits)
next
  assume m: "is_valid_media_url parse url"
  show "u_scheme p \<in> {''http'', ''https''}" "u_username p = []" "u_password p = None"
    using m assms by (auto simp: is_valid_media_url_def Let_def split: if_splits)
  show "case parse_ip (strip_brackets h) of
             Some (V4 a b c d) \<Rightarrow> \<not> list_ex (in_cidr (v4_num a b c d)) private_blocks
           | Some ip \<Rightarrow> \<not> is_private_ip ip | None \<Rightarrow> True"
    using m assms
    by (auto simp: is_valid_media_url_def is_private_ip_str_def Let_def private_ipv4_blocks [symmetric]
        split: if_splits option.splits ip_addr.splits)
next
  assume d: "h = dotted a b c d \<and> list_ex (in_cidr (v4_num a b c d)) private_blocks"
  then have "is_private_ip_str h" by (simp add: is_private_ip_str_def trim_dotted parse_ip_dotted private_ipv4_blocks)
  then show "\<not> is_valid_media_url parse url" using assms by (auto simp: is_valid_media_url_def Let_def)
  have "re_ipv4_host h \<or> CHR '':'' \<in> set h" using literal_caught d parse_ip_dotted by blast
  then show "\<not> fst (is_valid_relay_url parse url)" using assms by (auto simp: is_valid_relay_url_def)
qed

text \<open>A parser that answers fixed parts, and the guard at a private and at a public host.\<close>

definition sample_parts :: "string \<Rightarrow> string \<Rightarrow> url_parts" where
  "sample_parts sch h = \<lparr>u_scheme = sch, u_username = [], u_password = None, u_host = Some h, u_query = []\<rparr>"

lemma sample_relay_accepted: "is_valid_relay_url (\<lambda>_. Some (sample_parts ''wss'' ''a.io'')) ''u'' = (True, False)"
  by code_simp

theorem url_guard_witness:
  "u_scheme (sample_parts ''wss'' ''a.io'') \<in> {''ws'', ''wss''} \<and> parse_ip ''a.io'' = None
   \<and> \<not> is_valid_media_url (\<lambda>_. Some (sample_parts ''http'' (dotted 10 0 0 1))) ''u''"
proof -
  have "u_scheme (sample_parts ''wss'' ''a.io'') \<in> {''ws'', ''wss''} \<and> parse_ip ''a.io'' = None"
    using url_guard [of "\<lambda>_. Some (sample_parts ''wss'' ''a.io'')" "''u''" "sample_parts ''wss'' ''a.io''" "''a.io''"]
      sample_relay_accepted by (simp add: sample_parts_def)
  moreover have "list_ex (in_cidr (v4_num 10 0 0 1)) private_blocks"
    by (simp add: private_ipv4_blocks [symmetric] is_private_ipv4_def)
  then have "\<not> is_valid_media_url (\<lambda>_. Some (sample_parts ''http'' (dotted 10 0 0 1))) ''u''"
    using url_guard [of "\<lambda>_. Some (sample_parts ''http'' (dotted 10 0 0 1))" "''u''" "sample_parts ''http'' (dotted 10 0 0 1)"
        "dotted 10 0 0 1" 10 0 0 1] by (simp add: sample_parts_def)
  ultimately show ?thesis by blast
qed

subsection \<open>Extracted links\<close>

lemma keep_new_set: "set (keep_new seen ms) = {m \<in> set ms. length m \<le> MAX_URL_LENGTH \<and> m \<notin> set seen}"
  by (induction seen ms rule: keep_new.induct) auto

lemma keep_new_distinct: "distinct (keep_new seen ms)"
  by (induction seen ms rule: keep_new.induct) (auto simp: keep_new_set)

text \<open>Links of a text: at most 1024, without repetition, each a match of at most 2048 bytes; up to that number all of them.\<close>

lemma extract_urls_spec:
  "distinct (extract_urls find_iter text)" "length (extract_urls find_iter text) \<le> MAX_EXTRACT_COUNT"
  "set (extract_urls find_iter text) \<subseteq> {m \<in> set (find_iter text). length m \<le> MAX_URL_LENGTH}"
  "length (extract_urls find_iter text) < MAX_EXTRACT_COUNT \<Longrightarrow>
     set (extract_urls find_iter text) = {m \<in> set (find_iter text). length m \<le> MAX_URL_LENGTH}"
  using keep_new_set [of "[]" "find_iter text"] keep_new_distinct [of "[]" "find_iter text"] set_take_subset
  by (fastforce simp: extract_urls_def)+

end
