(* ===== verification/Zap.thy ===== *)
theory Zap
  imports SafeUrl
begin

section \<open>Lightning payments (zap-core/src/lib.rs, lnurl.rs, nwc.rs)\<close>

text \<open>
  Amounts and description hashes of BOLT-11 invoices, lightning addresses, the connection URI of a wallet, and the checks
  before a payment. \<open>bech32::decode\<close> and \<open>Url::parse\<close> are arguments; the exchange with the wallet is an argument of
  \<open>pay_invoice\<close>. Shown: an amount with a multiplier is read exactly and never exceeds the cap; an amount without a multiplier
  is read together with the separator that follows it; a description hash is the leading 256 bits of its field; the
  address of a lightning user keeps to one path segment; the daily cap holds over any sequence of payments. Messages that
  end with the cause of an error are cut before it.
\<close>

unbundle bit_operations_syntax

subsection \<open>Amounts\<close>

abbreviation MULT_M :: nat where "MULT_M \<equiv> 100000000"
abbreviation MULT_U :: nat where "MULT_U \<equiv> 100000"
abbreviation MULT_N :: nat where "MULT_N \<equiv> 100"
abbreviation MULT_DEFAULT :: nat where "MULT_DEFAULT \<equiv> 100000000000"
abbreviation MAX_PARSE_BOLT11_MSATS :: nat where "MAX_PARSE_BOLT11_MSATS \<equiv> 1000000000000"
abbreviation U128_MAX :: nat where "U128_MAX \<equiv> 340282366920938463463374607431768211455"

type_synonym bech32 = "string \<Rightarrow> (string \<times> byte list) option"

definition bolt11_checksum_valid :: "bech32 \<Rightarrow> string \<Rightarrow> bool" where
  "bolt11_checksum_valid bech32_decode bolt11 =
     (if bolt11 = [] \<or> length bolt11 > 4096 then False else bech32_decode (to_ascii_lowercase bolt11) \<noteq> None)"

definition bolt11_rest :: "string \<Rightarrow> string option" where
  "bolt11_rest s =
     (case strip_prefix ''lnbcrt'' s of Some r \<Rightarrow> Some r | None \<Rightarrow>
     (case strip_prefix ''lnbc'' s of Some r \<Rightarrow> Some r | None \<Rightarrow>
     (case strip_prefix ''lntb'' s of Some r \<Rightarrow> Some r | None \<Rightarrow> strip_prefix ''lnsb'' s)))"

text \<open>The loop over the leading digits, with the amount and the number of digits so far.\<close>

fun amount_digits :: "string \<Rightarrow> nat \<Rightarrow> nat \<Rightarrow> (nat \<times> nat) res" where
  "amount_digits [] amount n = Ok (amount, n)"
| "amount_digits (c # cs) amount n =
     (case digit_val c of
        None \<Rightarrow> Ok (amount, n)
      | Some d \<Rightarrow>
          if amount * 10 + d > U128_MAX then Err ''BOLT-11 amount overflow''
          else if n + 1 > 18 then Err ''BOLT-11 amount exceeds range''
          else amount_digits cs (amount * 10 + d) (n + 1))"

definition checked_amount :: "nat \<Rightarrow> nat \<Rightarrow> nat res" where
  "checked_amount amount mult = (if amount * mult > U128_MAX then Err ''BOLT-11 amount overflow'' else Ok (amount * mult))"

definition amount_msats :: "nat \<Rightarrow> char option \<Rightarrow> nat res" where
  "amount_msats amount unit =
     (if unit = Some CHR ''p'' then
        (if amount mod 10 \<noteq> 0 then Err ''BOLT-11 pico amount below msat resolution'' else Ok (amount div 10))
      else if unit = Some CHR ''n'' then checked_amount amount MULT_N
      else if unit = Some CHR ''u'' then checked_amount amount MULT_U
      else if unit = Some CHR ''m'' then checked_amount amount MULT_M
      else if unit = Some CHR ''1'' \<or> unit = None then checked_amount amount MULT_DEFAULT
      else Err ''invalid BOLT-11 multiplier'')"

definition parse_msats_from_bolt11 :: "string \<Rightarrow> nat res" where
  "parse_msats_from_bolt11 bolt11 =
     (if length bolt11 > 4096 \<or> bolt11 = [] then Ok 0
      else case bolt11_rest (to_ascii_lowercase bolt11) of
        None \<Rightarrow> Ok 0
      | Some rest \<Rightarrow>
          if rest = [] then Ok 0
          else and_then (amount_digits rest 0 0) (\<lambda>(amount, digit_len).
            if digit_len = 0 then Ok 0
            else and_then (amount_msats amount (if digit_len < length rest then Some (rest ! digit_len) else None)) (\<lambda>msats.
              if msats > U64_MAX then Err ''BOLT-11 amount exceeds u64 msat range''
              else if msats > MAX_PARSE_BOLT11_MSATS then Err ''BOLT-11 amount exceeds zap cap (1000000000000 msat)''
              else Ok msats)))"

abbreviation NWC_MAX_PAY_SATS :: nat where "NWC_MAX_PAY_SATS \<equiv> 1000000"
abbreviation NWC_DAILY_MAX_MSATS :: nat where "NWC_DAILY_MAX_MSATS \<equiv> 10000000"
abbreviation NWC_TOKEN_TTL_SECS :: nat where "NWC_TOKEN_TTL_SECS \<equiv> 300"

definition bolt11_amount_sats :: "string \<Rightarrow> nat option" where
  "bolt11_amount_sats invoice = (case parse_msats_from_bolt11 invoice of
      Ok m \<Rightarrow> (if m div 1000 = 0 then None else Some (m div 1000)) | _ \<Rightarrow> None)"

definition apply_daily_spend :: "nat \<Rightarrow> nat \<Rightarrow> nat res" where
  "apply_daily_spend spent_msats amount_sats =
     (let new_total = min U64_MAX (spent_msats + min U64_MAX (amount_sats * 1000)) in
      if new_total > NWC_DAILY_MAX_MSATS then Err ''daily NWC spend cap (10000 sats) reached'' else Ok new_total)"

subsection \<open>Description hashes\<close>

text \<open>
  The inner loop that moves whole bytes out of the bit buffer; a shift of a \<open>u32\<close> by 32 or more would panic. The buffer
  is a 32-bit word, whose left shift drops the high bits.
\<close>

function emit_bytes :: "32 word \<Rightarrow> nat \<Rightarrow> byte list \<Rightarrow> (nat \<times> byte list) res" where
  "emit_bytes bits bit_len out =
     (if bit_len \<ge> 8 \<and> length out < 32 then
        (if bit_len - 8 \<ge> 32 then Panic else emit_bytes bits (bit_len - 8) (out @ [ucast (drop_bit (bit_len - 8) bits)]))
      else Ok (bit_len, out))"
  by pat_completeness auto
termination by (relation "measure (\<lambda>(_, n, _). n)") auto

declare emit_bytes.simps [simp del]

fun regroup :: "byte list \<Rightarrow> 32 word \<Rightarrow> nat \<Rightarrow> byte list \<Rightarrow> byte list res" where
  "regroup [] bits bit_len out = Ok out"
| "regroup (w # ws) bits bit_len out =
     and_then (emit_bytes (push_bit 5 bits OR ucast w) (bit_len + 5) out) (\<lambda>(bit_len, out).
       regroup ws (push_bit 5 bits OR ucast w) bit_len out)"

function find_hash :: "byte list \<Rightarrow> nat \<Rightarrow> byte list option res" where
  "find_hash d i =
     (if i + 3 \<le> length d then
        (let field_type = unat (d ! i); field_len = unat (d ! (i + 1)) * 32 + unat (d ! (i + 2)); i = i + 3 in
         if i + field_len > U64_MAX then Ok None
         else if i + field_len > length d then Ok None
         else if field_type = 23 then
           and_then (regroup (take field_len (drop i d)) 0 0 []) (\<lambda>out. Ok (if length out \<ge> 32 then Some out else None))
         else find_hash d (i + field_len))
      else Ok None)"
  by pat_completeness auto
termination by (relation "measure (\<lambda>(d, i). length d - i)") auto

declare find_hash.simps [simp del]

definition bolt11_description_hash :: "bech32 \<Rightarrow> string \<Rightarrow> byte list option res" where
  "bolt11_description_hash bech32_decode bolt11 =
     (let normalized = to_ascii_lowercase (trim bolt11) in
      if normalized = [] \<or> length normalized > 4096 \<or> CHR ''1'' \<notin> set normalized then Ok None
      else case bech32_decode normalized of None \<Rightarrow> Ok None | Some (_, d) \<Rightarrow> find_hash d 8)"

subsection \<open>Lightning addresses\<close>

definition rsplit_once :: "char \<Rightarrow> string \<Rightarrow> (string \<times> string) option" where
  "rsplit_once c s = (if c \<in> set s then
      Some (rev (tl (dropWhile (\<lambda>x. x \<noteq> c) (rev s))), rev (takeWhile (\<lambda>x. x \<noteq> c) (rev s))) else None)"

definition is_alnum :: "char \<Rightarrow> bool" where
  "is_alnum c \<longleftrightarrow> (let n = (of_char c :: nat) in 48 \<le> n \<and> n \<le> 57 \<or> 65 \<le> n \<and> n \<le> 90 \<or> 97 \<le> n \<and> n \<le> 122)"

definition parse_lud16_url :: "string \<Rightarrow> (string \<times> string \<times> string) res" where
  "parse_lud16_url lud16 = (case rsplit_once CHR ''@'' lud16 of
      None \<Rightarrow> Err ''invalid lud16 format''
    | Some (user, domain) \<Rightarrow>
        if user = [] \<or> domain = [] then Err ''invalid lud16 user or domain''
        else Ok (user, domain, ''https://'' @ domain @ ''/.well-known/lnurlp/'' @ user))"

definition validate_lud16_parts :: "string \<Rightarrow> (string \<times> string) res" where
  "validate_lud16_parts lud16 = (case rsplit_once CHR ''@'' lud16 of
      None \<Rightarrow> Err ''invalid lud16''
    | Some (user, domain) \<Rightarrow>
        if user = [] \<or> domain = [] then Err ''invalid lud16''
        else if \<not> list_all (\<lambda>c. is_alnum c \<or> c \<in> {CHR ''-'', CHR ''_'', CHR ''.''}) user then
          Err ''invalid lud16: user part contains disallowed characters''
        else if length user > 64 then Err ''invalid lud16: user part too long''
        else if prefix ''.'' user \<or> suffix ''.'' user \<or> sublist ''..'' user then
          Err ''invalid lud16: user part cannot start or end with '.' or contain consecutive dots''
        else if \<not> list_all (\<lambda>c. is_alnum c \<or> c \<in> {CHR ''-'', CHR ''.'', CHR '':''}) domain then
          Err ''invalid lud16: domain contains disallowed characters''
        else if length domain > 255 \<or> prefix ''.'' domain \<or> suffix ''.'' domain \<or> sublist ''..'' domain then
          Err ''invalid lud16: domain invalid''
        else Ok (user, domain))"

definition parse_lud16_url_secure :: "url_parser \<Rightarrow> string \<Rightarrow> (string \<times> string \<times> string) res" where
  "parse_lud16_url_secure parse lud16 =
     and_then (validate_lud16_parts lud16) (\<lambda>(user, domain).
       let url = ''https://'' @ domain @ ''/.well-known/lnurlp/'' @ user in
       if \<not> is_valid_media_url parse url then Err ''invalid lud16: unsafe destination domain or URL''
       else Ok (user, domain, url))"

definition host_of :: "url_parser \<Rightarrow> string \<Rightarrow> string res" where
  "host_of parse url_str = ok_or ''url has no host'' (domain_of parse url_str)"

subsection \<open>Wallet connections\<close>

record nwc_connection_info =
  nwc_wallet_pubkey :: string
  nwc_relay_url :: string
  nwc_secret_hex :: string
  nwc_lud16 :: "string option"

text \<open>The loop over the query pairs: relay, secret and lightning address so far.\<close>

fun nwc_query :: "url_parser \<Rightarrow> (string \<times> string) list \<Rightarrow> string \<Rightarrow> string \<Rightarrow> string option \<Rightarrow> (string \<times> string \<times> string option) res" where
  "nwc_query parse [] relay secret lud16 = Ok (relay, secret, lud16)"
| "nwc_query parse ((k, v) # kvs) relay secret lud16 =
     (if k = ''relay'' then
        (if length v > 512 then Err ''NWC relay too long''
         else if \<not> prefix ''wss://'' v then Err ''NWC relay must be wss://''
         else if \<not> fst (is_valid_relay_url parse v) then Err ''invalid NWC relay''
         else nwc_query parse kvs v secret lud16)
      else if k = ''secret'' then nwc_query parse kvs relay v lud16
      else if k = ''lud16'' then
        (if v = [] then nwc_query parse kvs relay secret lud16
         else and_then (validate_lud16_parts v) (\<lambda>_. nwc_query parse kvs relay secret (Some v)))
      else nwc_query parse kvs relay secret lud16)"

definition parse_nwc_uri :: "url_parser \<Rightarrow> string \<Rightarrow> nwc_connection_info res" where
  "parse_nwc_uri parse uri =
     (if uri = [] \<or> length uri > 4096 then Err ''NWC URI too long''
      else case parse uri of None \<Rightarrow> Err ''invalid URI'' | Some p \<Rightarrow>
        if u_scheme p \<noteq> ''nostr+walletconnect'' then Err ''invalid scheme''
        else and_then (ok_or ''missing pubkey'' (u_host p)) (\<lambda>pk.
          if length pk \<noteq> 64 \<or> \<not> list_all is_ascii_hexdigit (bytes_of pk) then Err ''invalid pubkey in NWC URI''
          else and_then (nwc_query parse (u_query p) [] [] None) (\<lambda>(relay, secret, lud16).
            if relay = [] then Err ''missing relay in NWC URI''
            else if secret = [] \<or> length secret < 32 \<or> length secret > 128 \<or> \<not> list_all is_ascii_hexdigit (bytes_of secret)
            then Err ''invalid secret in NWC URI''
            else Ok \<lparr>nwc_wallet_pubkey = pk, nwc_relay_url = relay, nwc_secret_hex = secret, nwc_lud16 = lud16\<rparr>)))"

datatype nip47_request = MakeInvoice nat string | PayInvoice string | GetBalance

definition make_invoice_request :: "int \<Rightarrow> string \<Rightarrow> nip47_request res" where
  "make_invoice_request amount_sats description =
     (if amount_sats \<le> 0 \<or> amount_sats > 21000000000 then Err ''amount out of range''
      else if length description > 2048 then Err ''description too long (max 2048 chars)''
      else Ok (MakeInvoice (min U64_MAX (nat amount_sats * 1000)) description))"

definition pay_invoice_request :: "string \<Rightarrow> nip47_request" where
  "pay_invoice_request invoice = PayInvoice invoice"

definition get_balance_request :: nip47_request where
  "get_balance_request = GetBalance"

definition validate_pay_invoice :: "string \<Rightarrow> unit res" where
  "validate_pay_invoice invoice =
     (if invoice = [] \<or> length invoice > 4096 then Err ''invalid bolt11 invoice''
      else and_then (map_err ''invalid bolt11 invoice'' (parse_msats_from_bolt11 invoice)) (\<lambda>msats.
        if msats = 0 then Err ''invalid bolt11 invoice: missing or zero amount''
        else if msats > NWC_MAX_PAY_SATS * 1000 then Err ''payment exceeds 1000000-sat NWC cap''
        else Ok ()))"

text \<open>The exchange with the wallet is an argument; it answers the serialised response.\<close>

definition pay_invoice :: "(string \<Rightarrow> nip47_request \<Rightarrow> string res) \<Rightarrow> string \<Rightarrow> string \<Rightarrow> string res" where
  "pay_invoice nwc_send_request uri_str invoice =
     and_then (validate_pay_invoice invoice) (\<lambda>_. nwc_send_request uri_str (pay_invoice_request invoice))"

subsection \<open>Amounts are read exactly\<close>

lemma amount_digits_run:
  assumes "list_all is_digit ds" "ys = [] \<or> \<not> is_digit (hd ys)" "n + length ds \<le> 18" "a < 10 ^ n"
  shows "\<exists>v. parse_digits a ds = Some v \<and> amount_digits (ds @ ys) a n = Ok (v, n + length ds) \<and> v < 10 ^ (n + length ds)"
  using assms
proof (induction ds arbitrary: a n)
  case Nil
  then show ?case by (cases ys) (auto simp: is_digit_def)
next
  case (Cons c ds)
  obtain d where d: "digit_val c = Some d" and d9: "d \<le> 9"
    using Cons.prems(1) by (auto simp: is_digit_def digit_val_def split: if_splits)
  have b: "a * 10 + d < 10 ^ (n + 1)" using Cons.prems(4) d9 by simp
  also have "\<dots> \<le> 10 ^ 18" using Cons.prems(3) by (intro power_increasing) simp_all
  finally have s: "\<not> a * 10 + d > U128_MAX" by simp
  have "\<exists>v. parse_digits (a * 10 + d) ds = Some v \<and> amount_digits (ds @ ys) (a * 10 + d) (n + 1) = Ok (v, n + 1 + length ds)
      \<and> v < 10 ^ (n + 1 + length ds)"
    by (rule Cons.IH) (use Cons.prems b in simp_all)
  with d s Cons.prems(3) show ?case by auto
qed

lemma amount_digits_show:
  assumes "n < 10 ^ 18" "ys = [] \<or> \<not> is_digit (hd ys)"
  shows "amount_digits (show_nat n @ ys) 0 0 = Ok (n, length (show_nat n))"
  using amount_digits_run [OF show_nat_digits assms(2), of 0 n 0] length_show_nat [OF assms(1)] parse_show_nat [of n] by auto

lemma lower_append: "to_ascii_lowercase (s @ t) = to_ascii_lowercase s @ to_ascii_lowercase t"
  by (simp add: to_ascii_lowercase_def)

definition bolt11_prefixes :: "string list" where
  "bolt11_prefixes = [''lnbcrt'', ''lnbc'', ''lntb'', ''lnsb'']"

lemma digit_lower: "is_digit c \<Longrightarrow> to_ascii_lowercase [c] = [c]"
proof -
  assume "is_digit c"
  then have n: "(of_char c :: nat) \<le> 57" by (simp add: is_digit_def digit_val_def split: if_splits)
  then have "byte_of_char c \<le> 57" by (simp add: byte_of_char_def word_le_nat_alt unat_of_nat)
  then have "\<not> 65 \<le> byte_of_char c" by (simp add: word_le_nat_alt)
  then show ?thesis by (simp add: to_ascii_lowercase_def lower_byte_def str_of_def bytes_of_def)
qed

lemma lower_Cons: "to_ascii_lowercase (c # s) = to_ascii_lowercase [c] @ to_ascii_lowercase s"
  using lower_append [of "[c]" s] by simp

lemma digits_lower: "list_all is_digit ds \<Longrightarrow> to_ascii_lowercase ds = ds"
proof (induction ds)
  case (Cons c ds)
  then show ?case using lower_Cons [of c ds] digit_lower [of c] by simp
qed (simp add: to_ascii_lowercase_def str_of_def)

lemma digit_not_r: "is_digit c \<Longrightarrow> c \<noteq> CHR ''r''"
  by (auto simp: is_digit_def digit_val_def)

lemma bolt11_rest_digit:
  assumes "p \<in> set bolt11_prefixes" "is_digit c"
  shows "bolt11_rest (p @ c # cs) = Some (c # cs)"
  using assms(1) digit_not_r [OF assms(2)] by (auto simp: bolt11_prefixes_def bolt11_rest_def strip_prefix_def)

lemma prefixes_lower: "p \<in> set bolt11_prefixes \<Longrightarrow> to_ascii_lowercase p = p"
proof -
  have "list_all (\<lambda>p. to_ascii_lowercase p = p) bolt11_prefixes" by code_simp
  then show "p \<in> set bolt11_prefixes \<Longrightarrow> to_ascii_lowercase p = p" by (simp add: list_all_iff)
qed

lemma parse_digits_prefix:
  assumes p: "p \<in> set bolt11_prefixes" and n: "n < 10 ^ 18" and ys: "ys = [] \<or> \<not> is_digit (hd ys)"
    and ly: "to_ascii_lowercase s = ys" and len: "length p + length (show_nat n) + length s \<le> 4096"
  shows "parse_msats_from_bolt11 (p @ show_nat n @ s) =
     and_then (amount_msats n (if ys = [] then None else Some (hd ys))) (\<lambda>msats.
       if msats > U64_MAX then Err ''BOLT-11 amount exceeds u64 msat range''
       else if msats > MAX_PARSE_BOLT11_MSATS then Err ''BOLT-11 amount exceeds zap cap (1000000000000 msat)'' else Ok msats)"
proof -
  obtain c cs where c: "show_nat n = c # cs" "is_digit c" using show_nat_digits [of n] by (cases "show_nat n") auto
  have low: "to_ascii_lowercase (p @ show_nat n @ s) = p @ show_nat n @ ys"
    by (simp only: lower_append prefixes_lower [OF p] digits_lower [OF show_nat_digits] ly)
  have rest: "bolt11_rest (p @ show_nat n @ ys) = Some (show_nat n @ ys)"
    using bolt11_rest_digit [OF p c(2), of "cs @ ys"] c(1) by simp
  have unit: "(if length (show_nat n) < length (show_nat n @ ys) then Some ((show_nat n @ ys) ! length (show_nat n)) else None)
      = (if ys = [] then None else Some (hd ys))"
    by (cases ys) simp_all
  show ?thesis
    unfolding parse_msats_from_bolt11_def low rest
    using len amount_digits_show [OF n ys] unit by simp
qed

text \<open>Multipliers in units of a tenth of a millisatoshi, the value of one pico-bitcoin.\<close>

definition pico_mult :: "char \<Rightarrow> nat option" where
  "pico_mult u = (if u = CHR ''p'' then Some 1 else if u = CHR ''n'' then Some 1000 else if u = CHR ''u'' then Some 1000000
     else if u = CHR ''m'' then Some 1000000000 else None)"

lemma pico_mult_unit:
  assumes "pico_mult u = Some k"
  shows "to_ascii_lowercase [u] = [u]" "\<not> is_digit u"
proof -
  have "list_all (\<lambda>u. to_ascii_lowercase [u] = [u] \<and> \<not> is_digit u) ''pnum''" by code_simp
  moreover have "u \<in> set ''pnum''" using assms by (simp add: pico_mult_def split: if_splits)
  ultimately show "to_ascii_lowercase [u] = [u]" "\<not> is_digit u" by (simp_all only: list_all_iff) blast+
qed

lemma amount_msats_unit:
  "pico_mult u = Some k \<Longrightarrow> n < 10 ^ 18 \<Longrightarrow> amount_msats n (Some u) = Ok m \<longleftrightarrow> 10 * m = n * k"
  by (auto simp: pico_mult_def amount_msats_def checked_amount_def split: if_splits)

lemma parse_with_unit:
  assumes "p \<in> set bolt11_prefixes" "n < 10 ^ 18" "pico_mult u = Some k" "length p + length (show_nat n) + length s < 4096"
  shows "parse_msats_from_bolt11 (p @ show_nat n @ u # s) = Ok m \<longleftrightarrow> 10 * m = n * k \<and> m \<le> MAX_PARSE_BOLT11_MSATS"
proof -
  let ?ys = "u # to_ascii_lowercase s"
  have ly: "to_ascii_lowercase (u # s) = ?ys" using lower_Cons [of u s] pico_mult_unit(1) [OF assms(3)] by simp
  have nd: "?ys = [] \<or> \<not> is_digit (hd ?ys)" using pico_mult_unit(2) [OF assms(3)] by simp
  have len: "length p + length (show_nat n) + length (u # s) \<le> 4096" using assms(4) by simp
  have cap: "and_then (amount_msats n (Some u)) (\<lambda>msats.
       if msats > U64_MAX then Err ''BOLT-11 amount exceeds u64 msat range''
       else if msats > MAX_PARSE_BOLT11_MSATS then Err ''BOLT-11 amount exceeds zap cap (1000000000000 msat)'' else Ok msats) = Ok m
     \<longleftrightarrow> amount_msats n (Some u) = Ok m \<and> m \<le> MAX_PARSE_BOLT11_MSATS"
    by (cases "amount_msats n (Some u)") auto
  show ?thesis
    using parse_digits_prefix [OF assms(1,2) nd ly len] cap amount_msats_unit [OF assms(3,2), of m]
    by (simp only: list.sel(1) list.distinct(2) if_False)
qed

text \<open>C25. Amounts of invoices. For each of the four networks and each multiplier letter, an amount of at most 18 digits is read
  exactly: the result is the number of millisatoshi the text stands for, and there is a result exactly if this number is
  whole and within the cap.
\<close>

theorem zap_amount_exact:
  assumes "p \<in> set bolt11_prefixes" "n < 10 ^ 18" "pico_mult u = Some k" "length rest \<le> 4000"
  shows "parse_msats_from_bolt11 (p @ show_nat n @ u # rest) = Ok m \<longleftrightarrow> 10 * m = n * k \<and> m \<le> MAX_PARSE_BOLT11_MSATS"
proof (rule parse_with_unit [OF assms(1-3)])
  have "length p \<le> 6" using assms(1) by (auto simp: bolt11_prefixes_def)
  with length_show_nat [OF assms(2)] assms(4) show "length p + length (show_nat n) + length rest < 4096" by simp
qed

theorem zap_amount_exact_witness:
  "parse_msats_from_bolt11 (''lnbc'' @ show_nat 2500 @ CHR ''u'' # ''1pvjluez'') = Ok 250000000"
  using zap_amount_exact [of "''lnbc''" 2500 "CHR ''u''" 1000000 "''1pvjluez''" 250000000]
  by (simp add: bolt11_prefixes_def pico_mult_def)

lemma digit_char_1: "digit_char 1 = CHR ''1''"
  by code_simp

lemma show_nat_snoc1: "0 < n \<Longrightarrow> show_nat (10 * n + 1) = show_nat n @ ''1''"
proof -
  assume "0 < n"
  moreover have "(10 * n + 1) div 10 = n" "(10 * n + 1) mod 10 = 1" by simp_all
  ultimately show ?thesis using show_nat.simps [of "10 * n + 1"] digit_char_1 by simp
qed

lemma lnbc_prefix: "''lnbc'' \<in> set bolt11_prefixes"
  by (simp add: bolt11_prefixes_def)

text \<open>An amount without a multiplier is in bitcoin and is followed by the separator \<open>1\<close>. The loop over the digits takes the
  separator as a last digit and the first character of the data as the multiplier. An invoice of any number of bitcoin up to
  a million, whose data begins with \<open>n\<close>, is read as a thousand millisatoshi per bitcoin and passes the payment check, whose
  limit is a hundredth of a bitcoin. An invoice without an amount, whose data begins with \<open>p\<close> as it does for present dates,
  is an error and not the documented amount zero.
\<close>

theorem zap_bare_amount_misread:
  assumes "0 < n" "n < 10 ^ 6" "length rest \<le> 4000"
  shows "parse_msats_from_bolt11 (''lnbc'' @ show_nat n @ ''1n'' @ rest) = Ok (1000 * n + 100)
    \<and> validate_pay_invoice (''lnbc'' @ show_nat n @ ''1n'' @ rest) = Ok ()
    \<and> parse_msats_from_bolt11 (''lnbc1p'' @ rest) = Err ''BOLT-11 pico amount below msat resolution''"
proof -
  let ?s = "''lnbc'' @ show_nat n @ ''1n'' @ rest"
  have s: "?s = ''lnbc'' @ show_nat (10 * n + 1) @ CHR ''n'' # rest" using show_nat_snoc1 [OF assms(1)] by simp
  have l: "length (show_nat (10 * n + 1)) \<le> 18" by (rule length_show_nat) (use assms in simp_all)
  have amount: "parse_msats_from_bolt11 ?s = Ok (1000 * n + 100)"
  proof -
    have "10 * n + 1 < 10 ^ 18" "pico_mult CHR ''n'' = Some 1000" "length ''lnbc'' + length (show_nat (10 * n + 1)) + length rest < 4096"
      using assms l by (simp_all add: pico_mult_def)
    moreover have "10 * (1000 * n + 100) = (10 * n + 1) * 1000" "1000 * n + 100 \<le> MAX_PARSE_BOLT11_MSATS" using assms(2) by simp_all
    ultimately show ?thesis unfolding s using parse_with_unit [OF lnbc_prefix] by blast
  qed
  moreover have "validate_pay_invoice ?s = Ok ()"
    using l assms amount unfolding s by (simp add: validate_pay_invoice_def)
  moreover have "parse_msats_from_bolt11 (''lnbc1p'' @ rest) = Err ''BOLT-11 pico amount below msat resolution''"
  proof -
    have one: "''lnbc1p'' @ rest = ''lnbc'' @ show_nat 1 @ (CHR ''p'' # rest)" using digit_char_1 by (simp add: show_nat.simps)
    have u: "pico_mult CHR ''p'' = Some 1" by (simp add: pico_mult_def)
    have ly: "to_ascii_lowercase (CHR ''p'' # rest) = CHR ''p'' # to_ascii_lowercase rest"
      using lower_Cons [of "CHR ''p''" rest] pico_mult_unit(1) [OF u] by simp
    show ?thesis
      unfolding one by (subst parse_digits_prefix [OF lnbc_prefix _ _ ly])
        (use assms pico_mult_unit(2) [OF u] in \<open>simp_all add: show_nat.simps amount_msats_def\<close>)
  qed
  ultimately show ?thesis by blast
qed

theorem zap_bare_amount_misread_witness:
  "parse_msats_from_bolt11 (''lnbc'' @ show_nat 20 @ ''1n'' @ ''vjluez'') = Ok 20100
   \<and> validate_pay_invoice (''lnbc'' @ show_nat 20 @ ''1n'' @ ''vjluez'') = Ok ()
   \<and> parse_msats_from_bolt11 (''lnbc1p'' @ ''vjluez'') = Err ''BOLT-11 pico amount below msat resolution''"
  using zap_bare_amount_misread [of 20 "''vjluez''"] by simp

subsection \<open>The description hash is the leading part of its field\<close>

definition val32 :: "byte list \<Rightarrow> nat" where
  "val32 ws = foldl (\<lambda>a w. a * 32 + unat w) 0 ws"

lemma val32_snoc: "val32 (ws @ [w]) = val32 ws * 32 + unat w"
  by (simp add: val32_def)

lemma low_bits: "unat (w :: byte) < 32 \<Longrightarrow> 5 \<le> n \<Longrightarrow> \<not> bit (unat w) n"
proof -
  assume w: "unat w < 32" and n: "5 \<le> n"
  have "(2::nat) ^ 5 \<le> 2 ^ n" using n by (intro power_increasing) simp_all
  then have "unat w div 2 ^ n = 0" using w by simp
  then show ?thesis by (simp add: bit_iff_odd)
qed

lemma or_low:
  assumes "unat (w :: byte) < 32"
  shows "push_bit 5 x OR unat w = x * 32 + unat w"
proof -
  have "push_bit 5 x AND unat w = 0"
  proof (rule bit_eqI)
    fix n
    show "bit (push_bit 5 x AND unat w) n = bit (0 :: nat) n"
      using low_bits [OF assms, of n] by (cases "5 \<le> n") (simp_all add: bit_and_iff bit_push_bit_iff)
  qed
  then have "push_bit 5 x + unat w = push_bit 5 x OR unat w" by (rule disjunctive_add_eq_or)
  then show ?thesis by (simp add: push_bit_eq_mult)
qed

lemma or_disjoint:
  fixes w :: byte and bits :: "32 word"
  assumes "unat w < 32"
  shows "unat (push_bit 5 bits OR ucast w) = (unat bits * 32 + unat w) mod 2 ^ 32"
proof -
  have w: "take_bit 32 (unat w) = unat w" using unat_byte_le [of w] by (simp add: take_bit_nat_eq_self_iff)
  have "unat (push_bit 5 bits OR ucast w) = take_bit 32 (push_bit 5 (unat bits)) OR take_bit 32 (unat w)"
    unfolding unsigned_or_eq unsigned_push_bit_eq unsigned_ucast_eq by simp
  also have "\<dots> = take_bit 32 (push_bit 5 (unat bits) OR unat w)" by (simp only: take_bit_or)
  finally show ?thesis unfolding or_low [OF assms] by (simp add: take_bit_eq_mod)
qed

definition regroup_inv :: "byte list \<Rightarrow> 32 word \<Rightarrow> nat \<Rightarrow> byte list \<Rightarrow> bool" where
  "regroup_inv ws bits bit_len out \<longleftrightarrow> bit_len < 8 \<and> 8 * length out + bit_len = 5 * length ws
     \<and> be_val out * 2 ^ bit_len + unat bits mod 2 ^ bit_len = val32 ws"

lemma be_val_append1: "be_val (out @ [b]) = be_val out * 256 + unat b"
  by (simp add: be_val_def)

lemma mod_shift_in:
  fixes x w :: nat
  assumes "w < 32" "b \<le> 8"
  shows "((x * 32 + w) mod 2 ^ 32) mod 2 ^ (b + 5) = (x mod 2 ^ b) * 32 + w"
proof -
  have "(2::nat) ^ (b + 5) dvd 2 ^ 32" using assms(2) by (intro le_imp_power_dvd) simp
  then have "((x * 32 + w) mod 2 ^ 32) mod 2 ^ (b + 5) = (x * 32 + w) mod (32 * 2 ^ b)"
    by (simp add: mod_mod_cancel power_add mult.commute)
  also have "\<dots> = 32 * ((x * 32 + w) div 32 mod 2 ^ b) + (x * 32 + w) mod 32" by (rule mod_mult2_eq)
  finally show ?thesis using assms(1) by simp
qed

lemma emit_none: "bit_len < 8 \<or> 32 \<le> length out \<Longrightarrow> emit_bytes bits bit_len out = Ok (bit_len, out)"
  by (subst emit_bytes.simps) auto

lemma emit_one:
  assumes "8 \<le> bit_len" "bit_len < 16" "length out < 32"
  shows "emit_bytes bits bit_len out = Ok (bit_len - 8, out @ [ucast (drop_bit (bit_len - 8) bits)])"
proof -
  have "emit_bytes bits bit_len out = emit_bytes bits (bit_len - 8) (out @ [ucast (drop_bit (bit_len - 8) bits)])"
    using assms emit_bytes.simps [of bits bit_len out] by auto
  moreover have "bit_len - 8 < 8" using assms by linarith
  ultimately show ?thesis by (simp add: emit_none)
qed

lemma unat_top_byte: "unat (ucast (drop_bit k bits) :: byte) = (unat (bits :: 32 word) div 2 ^ k) mod 256"
proof -
  have "take_bit 32 (unat bits) = unat bits" using unsigned_less [of bits] by (simp add: take_bit_nat_eq_self_iff)
  then show ?thesis unfolding unsigned_ucast_eq unsigned_drop_bit_eq by (simp add: take_bit_eq_mod drop_bit_eq_div)
qed

lemma regroup_step:
  assumes inv: "regroup_inv ws bits bit_len out" and w: "unat w < 32" and short: "length out < 32"
  shows "\<exists>bl out'. emit_bytes (push_bit 5 bits OR ucast w) (bit_len + 5) out = Ok (bl, out')
     \<and> regroup_inv (ws @ [w]) (push_bit 5 bits OR ucast w) bl out' \<and> length out' \<le> 32"
proof -
  let ?bits = "push_bit 5 bits OR ucast w" and ?b = "bit_len + 5"
  have b: "bit_len < 8" and n: "8 * length out + bit_len = 5 * length ws"
    and v: "be_val out * 2 ^ bit_len + unat bits mod 2 ^ bit_len = val32 ws"
    using inv by (simp_all add: regroup_inv_def)
  have v': "be_val out * 2 ^ ?b + unat ?bits mod 2 ^ ?b = val32 (ws @ [w])"
  proof -
    have "unat ?bits mod 2 ^ ?b = (unat bits mod 2 ^ bit_len) * 32 + unat w"
      unfolding or_disjoint [OF w] by (rule mod_shift_in [OF w]) (use b in simp)
    moreover have "be_val out * 2 ^ ?b = be_val out * 2 ^ bit_len * 32" by (simp add: power_add)
    ultimately have "be_val out * 2 ^ ?b + unat ?bits mod 2 ^ ?b
        = (be_val out * 2 ^ bit_len + unat bits mod 2 ^ bit_len) * 32 + unat w"
      by (simp add: add_mult_distrib)
    then show ?thesis by (simp only: v val32_snoc)
  qed
  show ?thesis
  proof (cases "?b < 8")
    case True
    then have "regroup_inv (ws @ [w]) ?bits ?b out" using n v' by (simp add: regroup_inv_def)
    with True short show ?thesis by (intro exI [of _ ?b] exI [of _ out]) (simp add: emit_none)
  next
    case False
    then obtain k where k: "?b = k + 8" by (metis add.commute le_Suc_ex linorder_not_less)
    have k5: "k \<le> 4" using k b by simp
    let ?out = "out @ [ucast (drop_bit k ?bits)]"
    have "unat ?bits mod 2 ^ (k + 8) = (unat ?bits div 2 ^ k mod 256) * 2 ^ k + unat ?bits mod 2 ^ k"
      using mod_mult2_eq [of "unat ?bits" "2 ^ k" 256] by (simp add: power_add mult.commute)
    then have "be_val ?out * 2 ^ k + unat ?bits mod 2 ^ k = be_val out * 2 ^ (k + 8) + unat ?bits mod 2 ^ (k + 8)"
      unfolding be_val_append1 unat_top_byte by (simp add: power_add add_mult_distrib)
    then have "regroup_inv (ws @ [w]) ?bits k ?out"
      using v' n k k5 by (simp add: regroup_inv_def)
    moreover have "emit_bytes ?bits ?b out = Ok (k, ?out)"
      using emit_one [of ?b out ?bits] short k5 unfolding k by (simp del: drop_bit_or)
    ultimately show ?thesis using short by (intro exI [of _ k] exI [of _ ?out]) simp
  qed
qed

lemma regroup_full: "length out = 32 \<Longrightarrow> regroup ws bits bit_len out = Ok out"
  by (induction ws arbitrary: bits bit_len) (simp_all add: emit_none)

lemma regroup_prefix:
  assumes "regroup_inv pre bits bit_len out" "list_all (\<lambda>w. unat w < 32) ws" "length pre + length ws \<le> 52"
  shows "\<exists>bits' bl out'. regroup (ws @ rest) bits bit_len out = regroup rest bits' bl out' \<and> regroup_inv (pre @ ws) bits' bl out'"
  using assms
proof (induction ws arbitrary: pre bits bit_len out)
  case Nil
  then show ?case by auto
next
  case (Cons w ws)
  have "8 * length out + bit_len = 5 * length pre" using Cons.prems(1) by (simp add: regroup_inv_def)
  then have "length out < 32" using Cons.prems(3) by simp
  then obtain bl out' where e: "emit_bytes (push_bit 5 bits OR ucast w) (bit_len + 5) out = Ok (bl, out')"
      and i: "regroup_inv (pre @ [w]) (push_bit 5 bits OR ucast w) bl out'"
    using regroup_step [OF Cons.prems(1), of w] Cons.prems(2) by auto
  have "regroup ((w # ws) @ rest) bits bit_len out = regroup (ws @ rest) (push_bit 5 bits OR ucast w) bl out'"
    by (simp add: e)
  with Cons.IH [OF i] Cons.prems(2,3) show ?case by simp
qed

lemma regroup_spec:
  assumes "list_all (\<lambda>w. unat w < 32) ws"
  shows "\<exists>out. regroup ws 0 0 [] = Ok out \<and>
     (if length ws < 52 then length out < 32 else out = be_bytes 32 (val32 (take 52 ws) div 16))"
proof -
  let ?ws = "take 52 ws"
  have i0: "regroup_inv [] 0 0 []" by (simp add: regroup_inv_def be_val_def val32_def)
  have "list_all (\<lambda>w. unat w < 32) ?ws" using assms by (auto simp: list_all_iff dest: in_set_takeD)
  then obtain bits bl out where r: "regroup (?ws @ drop 52 ws) 0 0 [] = regroup (drop 52 ws) bits bl out"
      and i: "regroup_inv ([] @ ?ws) bits bl out"
    using regroup_prefix [OF i0, of ?ws "drop 52 ws"] by auto
  have b: "bl < 8" "8 * length out + bl = 5 * length ?ws" "be_val out * 2 ^ bl + unat bits mod 2 ^ bl = val32 ?ws"
    using i by (simp_all add: regroup_inv_def)
  show ?thesis
  proof (cases "length ws < 52")
    case True
    with b r show ?thesis by auto
  next
    case False
    then have len: "length out = 32" "bl = 4" using b(1,2) by (simp_all, presburger+)
    have "val32 ?ws div 16 = be_val out" unfolding b(3) [symmetric] len(2) by simp
    then have "be_bytes 32 (val32 ?ws div 16) = out" using be_bytes_val_id [of out] len(1) by simp
    with r regroup_full [OF len(1)] False show ?thesis by simp
  qed
qed

text \<open>A tagged field: its type, its length in two base-32 digits, its values.\<close>

definition enc_field :: "byte \<times> byte list \<Rightarrow> byte list" where
  "enc_field = (\<lambda>(ty, p). [ty, word_of_nat (length p div 32), word_of_nat (length p mod 32)] @ p)"

definition field_ok :: "byte \<times> byte list \<Rightarrow> bool" where
  "field_ok = (\<lambda>(ty, p). ty \<noteq> 23 \<and> length p < 1024)"

lemma find_hash_field:
  assumes d: "drop i d = enc_field (ty, p) @ rest" and n: "length p < 1024" and L: "length d \<le> U64_MAX"
  shows "find_hash d i = (if ty = 23 then and_then (regroup p 0 0 []) (\<lambda>out. Ok (if length out \<ge> 32 then Some out else None))
     else find_hash d (i + length (enc_field (ty, p))))"
proof -
  have len: "length d - i = 3 + length p + length rest" using arg_cong [OF d, of length] by (simp add: enc_field_def)
  then have i: "i + 3 \<le> length d" "i + 3 + length p \<le> length d" by simp_all
  have at: "d ! (i + k) = (enc_field (ty, p) @ rest) ! k" if "k < 3" for k
    using nth_drop [of i d k] i that d by (metis le_add1 le_trans)
  have h: "d ! i = ty" "d ! (i + 1) = word_of_nat (length p div 32)" "d ! (i + 2) = word_of_nat (length p mod 32)"
    using at [of 0] at [of 1] at [of 2] by (simp_all add: enc_field_def numeral_2_eq_2)
  have fl: "unat (d ! (i + 1)) * 32 + unat (d ! (i + 2)) = length p"
  proof -
    have "length p div 32 < 32" using n by simp
    then show ?thesis unfolding h by (simp add: unat_of_nat)
  qed
  have p: "take (length p) (drop (i + 3) d) = p" 
  proof -
    have "drop (i + 3) d = drop 3 (drop i d)" by (simp add: add.commute)
    also have "\<dots> = p @ rest" unfolding d by (simp add: enc_field_def)
    finally show ?thesis by simp
  qed
  have t: "unat ty = 23 \<longleftrightarrow> ty = 23" using word_unat_eq_iff [of ty 23] by simp
  have "length (enc_field (ty, p)) = 3 + length p" by (simp add: enc_field_def)
  then show ?thesis
    using i L by (subst find_hash.simps) (simp only: fl h(1) Let_def p t if_True if_False add.assoc, simp)
qed

lemma find_hash_fields:
  assumes "list_all field_ok fs" "drop i d = concat (map enc_field fs) @ enc_field (23, p) @ rest" "length p < 1024"
    "length d \<le> U64_MAX"
  shows "find_hash d i = and_then (regroup p 0 0 []) (\<lambda>out. Ok (if length out \<ge> 32 then Some out else None))"
  using assms
proof (induction fs arbitrary: i)
  case Nil
  then show ?case using find_hash_field [of i d 23 p rest] by simp
next
  case (Cons f fs)
  obtain ty q where f: "f = (ty, q)" by (cases f)
  have d: "drop i d = enc_field (ty, q) @ (concat (map enc_field fs) @ enc_field (23, p) @ rest)" using Cons.prems(2) f by simp
  have "find_hash d i = find_hash d (i + length (enc_field (ty, q)))"
    using find_hash_field [OF d _ Cons.prems(4)] Cons.prems(1) f by (simp add: field_ok_def)
  also have "drop (i + length (enc_field (ty, q))) d = concat (map enc_field fs) @ enc_field (23, p) @ rest"
    using arg_cong [OF d, of "drop (length (enc_field (ty, q)))"] by (simp add: add.commute)
  then have "find_hash d (i + length (enc_field (ty, q))) = and_then (regroup p 0 0 []) (\<lambda>out. Ok (if length out \<ge> 32 then Some out else None))"
    using Cons.IH Cons.prems by simp
  finally show ?case .
qed

text \<open>
  The description hash of an invoice: when the decoded data consists of eight leading values and tagged fields, the result is
  the first 256 bits of the first field of type 23, read as 5-bit values, and nothing if this field has fewer than 52 values;
  fields before it are skipped, whatever follows it is ignored, and the code does not panic.
\<close>

theorem zap_description_hash:
  assumes inv: "let s = to_ascii_lowercase (trim invoice) in s \<noteq> [] \<and> length s \<le> 4096 \<and> CHR ''1'' \<in> set s
      \<and> bech32_decode s = Some (hrp, hdr @ concat (map enc_field fs) @ enc_field (23, p) @ rest)"
    and hdr: "length hdr = 8" and fs: "list_all field_ok fs" and p: "length p < 1024" "list_all (\<lambda>w. unat w < 32) p"
    and L: "length (hdr @ concat (map enc_field fs) @ enc_field (23, p) @ rest) \<le> U64_MAX"
  shows "bolt11_description_hash bech32_decode invoice =
     Ok (if length p < 52 then None else Some (be_bytes 32 (val32 (take 52 p) div 16)))"
proof -
  let ?d = "hdr @ concat (map enc_field fs) @ enc_field (23, p) @ rest"
  have "bolt11_description_hash bech32_decode invoice = find_hash ?d 8"
  proof -
    note i = inv [unfolded Let_def]
    have "\<not> (to_ascii_lowercase (trim invoice) = [] \<or> length (to_ascii_lowercase (trim invoice)) > 4096
        \<or> CHR ''1'' \<notin> set (to_ascii_lowercase (trim invoice)))"
      using i by (simp only: not_less de_Morgan_disj simp_thms)
    moreover have "bech32_decode (to_ascii_lowercase (trim invoice)) = Some (hrp, ?d)" using i by (elim conjE)
    ultimately show ?thesis unfolding bolt11_description_hash_def Let_def by (simp only: if_False option.case prod.case)
  qed
  also have "\<dots> = and_then (regroup p 0 0 []) (\<lambda>out. Ok (if length out \<ge> 32 then Some out else None))"
    by (rule find_hash_fields [OF fs _ p(1) L]) (use hdr in simp)
  also have "\<dots> = Ok (if length p < 52 then None else Some (be_bytes 32 (val32 (take 52 p) div 16)))"
  proof -
    obtain out where o: "regroup p 0 0 [] = Ok out"
        "if length p < 52 then length out < 32 else out = be_bytes 32 (val32 (take 52 p) div 16)"
      using regroup_spec [OF p(2)] by blast
    show ?thesis
    proof (cases "length p < 52")
      case True
      with o(2) have "\<not> length out \<ge> 32" by simp
      then show ?thesis by (simp only: o(1) and_then.simps True if_True if_False)
    next
      case False
      with o(2) have "out = be_bytes 32 (val32 (take 52 p) div 16)" by (simp only: if_False)
      moreover from this have "length out = 32" by (simp only: length_be_bytes)
      ultimately show ?thesis using False by (simp only: o(1) and_then.simps if_True if_False order_refl)
    qed
  qed
  finally show ?thesis .
qed

theorem zap_description_hash_witness:
  "bolt11_description_hash
     (\<lambda>_. Some (''lnbc'', replicate 8 0 @ concat (map enc_field [(1, [5, 6])]) @ enc_field (23, replicate 52 1) @ [])) ''lnbc1p'' =
   Ok (Some (be_bytes 32 (val32 (replicate 52 1) div 16)))"
proof -
  have s: "to_ascii_lowercase (trim ''lnbc1p'') = ''lnbc1p''" by code_simp
  have "bolt11_description_hash
     (\<lambda>_. Some (''lnbc'', replicate 8 0 @ concat (map enc_field [(1, [5, 6])]) @ enc_field (23, replicate 52 1) @ [])) ''lnbc1p'' =
     Ok (if length (replicate 52 (1::byte)) < 52 then None else Some (be_bytes 32 (val32 (take 52 (replicate 52 1)) div 16)))"
    by (rule zap_description_hash [where hrp = "''lnbc''" and hdr = "replicate 8 0" and fs = "[(1, [5, 6])]" and rest = "[]"])
      (simp_all add: s Let_def field_ok_def enc_field_def list_all_iff)
  then show ?thesis by simp
qed

subsection \<open>Payments and addresses\<close>

text \<open>A day of payments: those within the cap are made and counted, the others are refused.\<close>

fun spend_day :: "nat list \<Rightarrow> nat \<Rightarrow> nat list \<times> nat" where
  "spend_day [] spent = ([], spent)"
| "spend_day (a # as) spent = (case apply_daily_spend spent a of
      Ok tot \<Rightarrow> (case spend_day as tot of (made, final) \<Rightarrow> (a # made, final))
    | _ \<Rightarrow> spend_day as spent)"

lemma apply_daily_spend_Ok:
  "apply_daily_spend spent a = Ok tot \<longleftrightarrow> tot = spent + 1000 * a \<and> spent + 1000 * a \<le> NWC_DAILY_MAX_MSATS"
  by (auto simp: apply_daily_spend_def Let_def min_def mult.commute split: if_splits)

lemma spend_day_spec:
  "spent \<le> NWC_DAILY_MAX_MSATS \<Longrightarrow> spend_day as spent = (made, final) \<Longrightarrow>
     final = spent + 1000 * sum_list made \<and> final \<le> NWC_DAILY_MAX_MSATS \<and> list_all (\<lambda>a. a \<le> 10000) made"
proof (induction as arbitrary: spent made final)
  case (Cons a as)
  show ?case
  proof (cases "apply_daily_spend spent a")
    case (Ok tot)
    then have t: "tot = spent + 1000 * a" "spent + 1000 * a \<le> NWC_DAILY_MAX_MSATS" by (simp_all add: apply_daily_spend_Ok)
    obtain m where m: "spend_day as tot = (m, final)" "made = a # m"
      using Cons.prems(2) Ok by (auto split: prod.splits)
    from Cons.IH [of tot m final] m t show ?thesis by auto
  qed (use Cons in simp_all)
qed simp

text \<open>The daily limit: over any sequence of payment requests of a day, the counter is what was paid, the total stays within
  10,000 sats and the payments made are at most that; so a payment above it is refused although the check of a single
  payment admits a million sats.
\<close>

theorem zap_daily_cap:
  "case spend_day requests 0 of (made, final) \<Rightarrow>
     final = 1000 * sum_list made \<and> final \<le> NWC_DAILY_MAX_MSATS \<and> list_all (\<lambda>a. a \<le> 10000) made"
  using spend_day_spec [of 0 requests] by (auto split: prod.splits)

lemma rsplit_once_Some: "rsplit_once c s = Some (a, b) \<Longrightarrow> s = a @ c # b \<and> c \<notin> set b"
proof -
  assume r: "rsplit_once c s = Some (a, b)"
  let ?r = "rev s"
  have c: "c \<in> set ?r" using r by (auto simp: rsplit_once_def split: if_splits)
  have ab: "rev a = tl (dropWhile (\<lambda>x. x \<noteq> c) ?r)" "rev b = takeWhile (\<lambda>x. x \<noteq> c) ?r"
    using r by (auto simp: rsplit_once_def split: if_splits)
  obtain t where t: "dropWhile (\<lambda>x. x \<noteq> c) ?r = c # t"
    using c by (metis (mono_tags, lifting) dropWhile_eq_Nil_conv hd_dropWhile list.collapse)
  have "?r = rev b @ c # rev a" using takeWhile_dropWhile_id [of "\<lambda>x. x \<noteq> c" ?r] ab t by simp
  then have "s = a @ c # b" by (metis append.assoc append_Cons append_Nil rev.simps(2) rev_append rev_rev_ident)
  moreover have "c \<notin> set (rev b)" unfolding ab(2) using set_takeWhileD by fastforce
  ultimately show ?thesis by simp
qed

lemma no_slash: "list_all (\<lambda>c. is_alnum c \<or> c \<in> {CHR ''-'', CHR ''_'', CHR ''.''}) u \<Longrightarrow> CHR ''/'' \<notin> set u"
  "list_all (\<lambda>c. is_alnum c \<or> c \<in> {CHR ''-'', CHR ''.'', CHR '':''}) d \<Longrightarrow> CHR ''/'' \<notin> set d"
  by (auto simp: list_all_iff is_alnum_def)

lemma validate_lud16_Ok:
  assumes "validate_lud16_parts l = Ok (u, d)"
  shows "l = u @ CHR ''@'' # d" "CHR ''@'' \<notin> set d" "u \<noteq> []" "d \<noteq> []" "length u \<le> 64" "length d \<le> 255"
    "CHR ''/'' \<notin> set u" "CHR ''/'' \<notin> set d" "\<not> sublist ''..'' u" "\<not> prefix ''.'' u"
proof -
  obtain u' d' where rs: "rsplit_once CHR ''@'' l = Some (u', d')"
    using assms by (auto simp: validate_lud16_parts_def split: option.splits)
  note a = assms [unfolded validate_lud16_parts_def rs option.case prod.case]
  have ud: "u' = u" "d' = d" using a by (simp_all split: if_splits)
  show "l = u @ CHR ''@'' # d" "CHR ''@'' \<notin> set d" using rsplit_once_Some [OF rs] ud by simp_all
  show "u \<noteq> []" "d \<noteq> []" "length u \<le> 64" "length d \<le> 255" "\<not> sublist ''..'' u" "\<not> prefix ''.'' u"
    using a unfolding ud by (simp_all split: if_splits)
  have "list_all (\<lambda>c. is_alnum c \<or> c \<in> {CHR ''-'', CHR ''_'', CHR ''.''}) u"
    "list_all (\<lambda>c. is_alnum c \<or> c \<in> {CHR ''-'', CHR ''.'', CHR '':''}) d"
    using a unfolding ud by (simp_all split: if_splits)
  then show "CHR ''/'' \<notin> set u" "CHR ''/'' \<notin> set d" using no_slash by blast+
qed

text \<open>
  The address of a lightning user stays within its directory: when the strict parser accepts, the address is the user and the
  domain joined by one at sign, and the URL has exactly the path segments \<open>.well-known\<close>, \<open>lnurlp\<close> and the user, which
  is not a dot segment; the URL has passed the check of media URLs. The deprecated parser lets a user climb.
\<close>

theorem lud16_one_segment:
  assumes "parse_lud16_url_secure parse l = Ok (u, d, url)"
  shows "l = u @ CHR ''@'' # d \<and> CHR ''@'' \<notin> set d
    \<and> split_on CHR ''/'' url = [''https:'', '''', d, ''.well-known'', ''lnurlp'', u]
    \<and> u \<noteq> ''.'' \<and> u \<noteq> ''..'' \<and> is_valid_media_url parse url
    \<and> parse_lud16_url ''../a@d'' = Ok (''../a'', ''d'', ''https://d/.well-known/lnurlp/../a'')"
proof -
  have v: "validate_lud16_parts l = Ok (u, d)" and url: "url = ''https://'' @ d @ ''/.well-known/lnurlp/'' @ u"
    and m: "is_valid_media_url parse url"
    using assms by (auto simp: parse_lud16_url_secure_def Let_def split: if_splits)
  note ok = validate_lud16_Ok [OF v]
  have "split_on CHR ''/'' (''/.well-known/lnurlp/'' @ u) = ['''', ''.well-known'', ''lnurlp'', u]"
    by (simp add: split_on_none [OF ok(7)])
  then have t: "split_on CHR ''/'' (''.well-known/lnurlp/'' @ u) = [''.well-known'', ''lnurlp'', u]" by simp
  have "split_on CHR ''/'' (d @ CHR ''/'' # ''.well-known/lnurlp/'' @ u) = [d, ''.well-known'', ''lnurlp'', u]"
    by (simp only: split_on_sep [OF ok(8)] t)
  then have "split_on CHR ''/'' url = [''https:'', '''', d, ''.well-known'', ''lnurlp'', u]" unfolding url by simp
  moreover have "u \<noteq> ''.''" "u \<noteq> ''..''" using ok(10) by auto
  moreover have "parse_lud16_url ''../a@d'' = Ok (''../a'', ''d'', ''https://d/.well-known/lnurlp/../a'')" by code_simp
  ultimately show ?thesis using ok(1,2) m by blast
qed

theorem lud16_one_segment_witness:
  "split_on CHR ''/'' ''https://a.io/.well-known/lnurlp/bob'' = [''https:'', '''', ''a.io'', ''.well-known'', ''lnurlp'', ''bob'']"
proof -
  have "parse_lud16_url_secure (\<lambda>_. Some (sample_parts ''https'' ''a.io'')) ''bob@a.io'' =
      Ok (''bob'', ''a.io'', ''https://a.io/.well-known/lnurlp/bob'')" by code_simp
  from lud16_one_segment [OF this] show ?thesis by blast
qed

lemma nwc_query_relays:
  "nwc_query parse kvs relay secret lud16 = Ok (relay', secret', lud16') \<Longrightarrow>
     list_all (\<lambda>(k, v). k = ''relay'' \<longrightarrow> prefix ''wss://'' v \<and> length v \<le> 512 \<and> fst (is_valid_relay_url parse v)) kvs
     \<and> (relay' = relay \<or> (''relay'', relay') \<in> set kvs) \<and> (secret' = secret \<or> (''secret'', secret') \<in> set kvs)"
proof (induction parse kvs relay secret lud16 rule: nwc_query.induct)
  case (2 parse k v kvs relay secret lud16)
  consider "k = ''relay''" | "k = ''secret''" | "k = ''lud16''" | "k \<notin> {''relay'', ''secret'', ''lud16''}" by blast
  then show ?case
  proof cases
    case 1
    then show ?thesis using "2.IH"(1) "2.prems" by (auto split: if_splits)
  next
    case 2
    then show ?thesis using "2.IH"(2) "2.prems" by (auto split: if_splits)
  next
    case 3
    then show ?thesis using "2.IH"(3,4) "2.prems" by (auto split: if_splits)
  next
    case 4
    then show ?thesis using "2.IH"(5) "2.prems" by (auto split: if_splits)
  qed
qed simp

text \<open>
  What a wallet connection may name: every relay of the URI, not only the one that is kept, is a valid secure web socket
  whose host is no address literal; the wallet key has 64 and the secret 32 to 128 hexadecimal digits, as given in the URI.
\<close>

theorem nwc_uri_guard:
  assumes "parse_nwc_uri parse uri = Ok info" "parse uri = Some p"
  shows "u_scheme p = ''nostr+walletconnect'' \<and> u_host p = Some (nwc_wallet_pubkey info) \<and> length (nwc_wallet_pubkey info) = 64
    \<and> list_all (\<lambda>(k, v). k = ''relay'' \<longrightarrow> prefix ''wss://'' v \<and> length v \<le> 512 \<and> fst (is_valid_relay_url parse v)) (u_query p)
    \<and> (''relay'', nwc_relay_url info) \<in> set (u_query p) \<and> (''secret'', nwc_secret_hex info) \<in> set (u_query p)
    \<and> 32 \<le> length (nwc_secret_hex info) \<and> length (nwc_secret_hex info) \<le> 128
    \<and> list_all is_ascii_hexdigit (bytes_of (nwc_secret_hex info))"
proof -
  obtain pk relay secret lud16 where q: "nwc_query parse (u_query p) [] [] None = Ok (relay, secret, lud16)"
      and i: "info = \<lparr>nwc_wallet_pubkey = pk, nwc_relay_url = relay, nwc_secret_hex = secret, nwc_lud16 = lud16\<rparr>"
      and c: "u_scheme p = ''nostr+walletconnect''" "u_host p = Some pk" "length pk = 64" "relay \<noteq> []" "secret \<noteq> []"
        "32 \<le> length secret" "length secret \<le> 128" "list_all is_ascii_hexdigit (bytes_of secret)"
    using assms by (auto simp: parse_nwc_uri_def split: if_splits)
  show ?thesis using nwc_query_relays [OF q] c by (simp add: i)
qed

definition sample_nwc :: url_parts where
  "sample_nwc = \<lparr>u_scheme = ''nostr+walletconnect'', u_username = [], u_password = None, u_host = Some (replicate 64 CHR ''a''),
     u_query = [(''relay'', ''wss://a.io''), (''secret'', replicate 32 CHR ''b'')]\<rparr>"

definition sample_parser :: url_parser where
  "sample_parser u = (if u = ''n'' then Some sample_nwc else Some (sample_parts ''wss'' ''a.io''))"

theorem nwc_uri_guard_witness: "fst (is_valid_relay_url sample_parser ''wss://a.io'')"
proof -
  have "parse_nwc_uri sample_parser ''n'' = Ok \<lparr>nwc_wallet_pubkey = replicate 64 CHR ''a'', nwc_relay_url = ''wss://a.io'',
      nwc_secret_hex = replicate 32 CHR ''b'', nwc_lud16 = None\<rparr>" by code_simp
  moreover have "sample_parser ''n'' = Some sample_nwc" by (simp add: sample_parser_def)
  ultimately show ?thesis using nwc_uri_guard [of sample_parser "''n''"] by (fastforce simp: sample_nwc_def)
qed

end
