(* ===== verification/Ble.thy ===== *)
theory Ble
  imports Instance Compress SafeUrl "HOL-Library.Multiset"
begin

section \<open>Offline synchronisation over Bluetooth (mesh-core/src/ble.rs, pqc-core/src/dsa.rs)\<close>

text \<open>
  Device names, the chunks of a payload, and the encrypted envelope on top of compression, the hybrid KEM and NIP-44.
  The signature scheme and the JSON of the envelope belong to other packages: they are the fields of \<open>ble_env\<close>, with what is
  used of them in \<open>ble_env_ok\<close>. A \<open>char\<close> of a string is a byte with the continuation bytes after it. Shown: the chunks of
  a payload give it back in every order of arrival, and an incomplete or repeated set does not; an envelope is opened by its
  addressee; a name gives the fragment of the key.
\<close>

definition DEVICE_NAME_PREFIX :: string where "DEVICE_NAME_PREFIX = ''SOSHAL_''"
abbreviation DEVICE_NAME_PUBKEY_CHARS :: nat where "DEVICE_NAME_PUBKEY_CHARS \<equiv> 12"
abbreviation DEFAULT_MTU :: nat where "DEFAULT_MTU \<equiv> 23"
abbreviation MAX_MTU :: nat where "MAX_MTU \<equiv> 512"
abbreviation BLE_MAX_PAYLOAD_BYTES :: nat where "BLE_MAX_PAYLOAD_BYTES \<equiv> 65536"
definition SYNC_CONTEXT :: string where "SYNC_CONTEXT = ''soshal-ble-sync-v1''"

subsection \<open>Device names\<close>

function chars_bytes :: "byte list \<Rightarrow> byte list list" where
  "chars_bytes [] = []"
| "chars_bytes (a # r) = (a # takeWhile utf8_cont r) # chars_bytes (dropWhile utf8_cont r)"
  by pat_completeness auto
termination by (relation "measure length") (simp_all add: le_imp_less_Suc length_dropWhile_le)

definition chars :: "string \<Rightarrow> string list" where
  "chars s = map str_of (chars_bytes (bytes_of s))"

definition device_name :: "string \<Rightarrow> string" where
  "device_name pubkey =
     DEVICE_NAME_PREFIX @ concat (take DEVICE_NAME_PUBKEY_CHARS (chars (to_ascii_lowercase (trim pubkey))))"

definition pubkey_fragment_from_device_name :: "string \<Rightarrow> string option" where
  "pubkey_fragment_from_device_name name =
     (if \<not> prefix DEVICE_NAME_PREFIX name then None
      else let frag = drop (length DEVICE_NAME_PREFIX) name in
        if frag = [] \<or> \<not> list_all is_ascii_hexdigit (bytes_of frag) then None
        else Some (to_ascii_lowercase frag))"

subsection \<open>Chunks\<close>

definition chunk_size :: "nat \<Rightarrow> nat" where
  "chunk_size mtu = (let mtu = max DEFAULT_MTU (min MAX_MTU mtu) in max (mtu - 3) 20)"

definition chunk_line :: "nat \<Rightarrow> nat \<Rightarrow> string \<Rightarrow> string" where
  "chunk_line i n piece = show_nat i @ '':'' @ show_nat n @ '':'' @ piece"

definition split_pieces :: "string \<Rightarrow> nat \<Rightarrow> string list" where
  "split_pieces payload mtu = map concat (chunks_of (chunk_size mtu) (chars payload))"

definition split_chunks :: "prims \<Rightarrow> string \<Rightarrow> nat \<Rightarrow> string list" where
  "split_chunks P payload mtu =
     (let size = chunk_size mtu; n = (length (chars payload) + size - 1) div size in
      map (\<lambda>(i, piece). p_base64_encode P (bytes_of (chunk_line i n piece))) (enumerate 0 (split_pieces payload mtu)))"

definition split_once :: "char \<Rightarrow> string \<Rightarrow> (string \<times> string) option" where
  "split_once c s = (if c \<in> set s then Some (takeWhile (\<lambda>x. x \<noteq> c) s, tl (dropWhile (\<lambda>x. x \<noteq> c) s)) else None)"

definition parse_usize :: "string \<Rightarrow> nat option" where
  "parse_usize s =
     (case parse_nat (case s of c # cs \<Rightarrow> (if c = CHR ''+'' then cs else s) | [] \<Rightarrow> []) of
        Some n \<Rightarrow> (if n \<le> U64_MAX then Some n else None) | None \<Rightarrow> None)"

text \<open>\<open>splitn(3, ':')\<close>: index, count and the rest of the line.\<close>

definition parse_line :: "prims \<Rightarrow> string \<Rightarrow> (nat \<times> nat \<times> string) option" where
  "parse_line P line =
     (if length line > MAX_MTU * 4 then None
      else case p_base64_decode P line of None \<Rightarrow> None | Some decoded \<Rightarrow>
        (case from_utf8 decoded of None \<Rightarrow> None | Some s \<Rightarrow>
          (case split_once CHR '':'' s of None \<Rightarrow> None | Some (p1, r) \<Rightarrow>
            (case split_once CHR '':'' r of None \<Rightarrow> None | Some (p2, d) \<Rightarrow>
              (case parse_usize p1 of None \<Rightarrow> None | Some i \<Rightarrow>
                (case parse_usize p2 of None \<Rightarrow> None | Some n \<Rightarrow>
                  if n = 0 \<or> n > 4096 then None else if length d > MAX_MTU then None else Some (i, n, d)))))))"

fun collect_chunks :: "prims \<Rightarrow> string list \<Rightarrow> (nat, string) hmap \<Rightarrow> nat option \<Rightarrow> nat \<Rightarrow> ((nat, string) hmap \<times> nat option) option" where
  "collect_chunks P [] m declared total_len = Some (m, declared)"
| "collect_chunks P (line # lines) m declared total_len =
     (case parse_line P line of None \<Rightarrow> None | Some (i, n, d) \<Rightarrow>
        if declared \<noteq> None \<and> declared \<noteq> Some n then None
        else if total_len + length d > BLE_MAX_PAYLOAD_BYTES * 2 then None
        else if hm_has i m then None
        else collect_chunks P lines (hm_put i d m) (Some n) (total_len + length d))"

definition reassemble_chunks :: "prims \<Rightarrow> string list \<Rightarrow> string option" where
  "reassemble_chunks P lines =
     (case collect_chunks P lines [] None 0 of
        None \<Rightarrow> None
      | Some (m, None) \<Rightarrow> None
      | Some (m, Some n) \<Rightarrow>
          if n = 0 \<or> length m \<noteq> n then None
          else map_option concat (those (map (map_of m) [0..<n])))"

subsection \<open>Signatures and envelopes\<close>

record sync_envelope =
  se_pqc_ct :: string
  se_inner :: string
  se_sender_pubkey :: string
  se_dsa_sig :: string

record ble_env =
  be_json_encode :: "sync_envelope \<Rightarrow> string"
  be_json_decode :: "string \<Rightarrow> sync_envelope option"
  be_sign :: "byte list \<Rightarrow> byte list \<Rightarrow> byte list option"
  be_verify :: "byte list \<Rightarrow> byte list \<Rightarrow> byte list \<Rightarrow> bool"

definition dsa_sign :: "prims \<Rightarrow> ble_env \<Rightarrow> byte list \<Rightarrow> string \<Rightarrow> string option" where
  "dsa_sign P E msg sk_hex = (case p_hex_decode P sk_hex of None \<Rightarrow> None | Some sk \<Rightarrow>
     map_option (p_hex_encode P) (be_sign E msg sk))"

definition dsa_verify :: "prims \<Rightarrow> ble_env \<Rightarrow> byte list \<Rightarrow> byte list \<Rightarrow> string \<Rightarrow> bool" where
  "dsa_verify P E sig msg pk_hex = (case p_hex_decode P pk_hex of None \<Rightarrow> False | Some pk \<Rightarrow> be_verify E sig msg pk)"

definition dsa_verify_hex :: "prims \<Rightarrow> ble_env \<Rightarrow> string \<Rightarrow> byte list \<Rightarrow> string \<Rightarrow> bool" where
  "dsa_verify_hex P E sig_hex msg pk_hex =
     (case p_hex_decode P sig_hex of None \<Rightarrow> False | Some sig \<Rightarrow> dsa_verify P E sig msg pk_hex)"

definition hex_to_key32 :: "prims \<Rightarrow> string \<Rightarrow> byte list option" where
  "hex_to_key32 P hex_str = (case p_hex_decode P hex_str of None \<Rightarrow> None | Some raw \<Rightarrow> if length raw \<noteq> 32 then None else Some raw)"

definition sign_msg :: "string \<Rightarrow> byte list" where
  "sign_msg ct = bytes_of (ct @ '':'' @ SYNC_CONTEXT)"

text \<open>The draws of the KEM and the nonce are arguments; the conversation-key cache of NIP-44 is threaded through.\<close>

definition encrypt_envelope ::
  "prims \<Rightarrow> ble_env \<Rightarrow> byte list option \<Rightarrow> nat \<Rightarrow> byte list option \<Rightarrow> string \<Rightarrow> string \<Rightarrow> string \<Rightarrow> string \<Rightarrow> ck_cache option
     \<Rightarrow> string res \<times> ck_cache option" where
  "encrypt_envelope P E er mr nonce payload peer_pk_hex dsa_sk_hex sender_pubkey guard =
     (if length payload > BLE_MAX_PAYLOAD_BYTES then (Err ''payload exceeds 65536 bytes'', guard)
      else let compressed = content_compress_json P payload in
        case hybrid_encapsulate P er mr peer_pk_hex (bytes_of SYNC_CONTEXT) of
          Err e \<Rightarrow> (Err (''kem encapsulate: '' @ e), guard)
        | Panic \<Rightarrow> (Panic, guard)
        | Ok (ct, ss_hex) \<Rightarrow>
            (case hex_to_key32 P ss_hex of
               None \<Rightarrow> (Err ''kem shared secret decode'', guard)
             | Some key \<Rightarrow>
                 (case nip44_encrypt P nonce (bytes_of compressed) key guard of (r, guard) \<Rightarrow>
                    (case r of
                       Err e \<Rightarrow> (Err (''nip44: '' @ e), guard)
                     | Panic \<Rightarrow> (Panic, guard)
                     | Ok inner \<Rightarrow>
                         (case dsa_sign P E (sign_msg ct) dsa_sk_hex of
                            None \<Rightarrow> (Err ''dsa sign'', guard)
                          | Some sig \<Rightarrow>
                              (Ok (be_json_encode E \<lparr>se_pqc_ct = ct, se_inner = inner, se_sender_pubkey = sender_pubkey,
                                 se_dsa_sig = sig\<rparr>), guard))))))"

definition decrypt_envelope ::
  "prims \<Rightarrow> ble_env \<Rightarrow> string \<Rightarrow> string \<Rightarrow> string option \<Rightarrow> ck_cache option \<Rightarrow> string res \<times> ck_cache option" where
  "decrypt_envelope P E envelope_json own_sk_hex sender_dsa_pk_hex guard =
     (if length envelope_json > 256 * 1024 then (Err ''envelope JSON too large (max 256KB)'', guard)
      else case be_json_decode E envelope_json of None \<Rightarrow> (Err ''envelope parse'', guard) | Some env \<Rightarrow>
        if length (se_pqc_ct env) \<noteq> HYBRID_CT_LEN * 2 \<or> \<not> prefix ''01'' (se_pqc_ct env)
        then (Err ''invalid hybrid ciphertext'', guard)
        else if (case sender_dsa_pk_hex of None \<Rightarrow> False
                 | Some pk \<Rightarrow> \<not> dsa_verify_hex P E (se_dsa_sig env) (sign_msg (se_pqc_ct env)) pk)
        then (Err ''sender signature verification failed'', guard)
        else (case hybrid_decapsulate P (se_pqc_ct env) own_sk_hex (bytes_of SYNC_CONTEXT) of
            Err e \<Rightarrow> (Err (''kem decapsulate: '' @ e), guard)
          | Panic \<Rightarrow> (Panic, guard)
          | Ok ss \<Rightarrow>
              (case hex_to_key32 P ss of
                 None \<Rightarrow> (Err ''kem shared secret decode'', guard)
               | Some key \<Rightarrow>
                   (case nip44_decrypt P (se_inner env) key guard of (r, guard) \<Rightarrow>
                      (case r of
                         Err e \<Rightarrow> (Err (''nip44: '' @ e), guard)
                       | Panic \<Rightarrow> (Panic, guard)
                       | Ok inner \<Rightarrow>
                           (case from_utf8 inner of
                              None \<Rightarrow> (Err ''inner utf8'', guard)
                            | Some inner_str \<Rightarrow>
                                let payload = content_decompress_json P inner_str in
                                if payload = [] then (Err ''payload decompress failed'', guard) else (Ok payload, guard)))))))"

subsection \<open>Characters and pieces\<close>

lemma concat_chars_bytes: "concat (chars_bytes bs) = bs"
  by (induction bs rule: chars_bytes.induct) simp_all

lemma str_of_concat: "concat (map str_of bss) = str_of (concat bss)"
  by (induction bss) (simp_all add: str_of_def)

lemma concat_chars: "concat (chars s) = s"
  by (simp add: chars_def str_of_concat concat_chars_bytes)

lemma utf8_no_cont_first: "utf8_valid (a # r) \<Longrightarrow> \<not> utf8_cont a"
proof
  assume v: "utf8_valid (a # r)" and c: "utf8_cont a"
  have "128 \<le> unat a" "unat a \<le> 191" using c by (simp_all add: utf8_cont_def word_le_nat_alt)
  then have "\<not> a < 0x80" "\<not> 0xC2 \<le> a" "\<not> 0xE0 \<le> a" "\<not> 0xF0 \<le> a"
    by (simp_all add: word_le_nat_alt word_less_nat_alt)
  with v show False by (simp only: utf8_valid.simps(2) if_False simp_thms)
qed

lemma chars_valid: "utf8_valid bs \<Longrightarrow> list_all utf8_valid (chars_bytes bs)"
proof (induction bs rule: chars_bytes.induct)
  case (2 a r)
  obtain t rest where t: "r = t @ rest" "\<forall>b\<in>set t. utf8_cont b" "utf8_valid rest" "\<forall>x. utf8_valid (a # t @ x) = utf8_valid x"
    using utf8_first [OF 2(2)] by blast
  have "rest = [] \<or> \<not> utf8_cont (hd rest)" using t(3) utf8_no_cont_first by (cases rest) auto
  then have "takeWhile utf8_cont r = t" "dropWhile utf8_cont r = rest"
    using t(1,2) takeWhile_run [of utf8_cont t rest] by (simp_all add: list_all_iff)
  moreover have "utf8_valid (a # t)" using t(4) [rule_format, of "[]"] by simp
  ultimately show ?case using 2(1) t(3) by simp
qed simp

lemma chunks_of_set: "x \<in> set (chunks_of n xs) \<Longrightarrow> set x \<subseteq> set xs"
proof (induction n xs rule: chunks_of.induct)
  case (1 n xs)
  then show ?case
    by (cases "n = 0 \<or> xs = []") (auto simp: chunks_of.simps [of n xs] dest: in_set_takeD in_set_dropD)
qed

lemma chunks_of_Nil [simp]: "chunks_of n [] = []"
  by (subst chunks_of.simps) simp

lemma length_chunks_of: "0 < n \<Longrightarrow> length (chunks_of n xs) = (length xs + n - 1) div n"
proof (induction n xs rule: chunks_of.induct)
  case (1 n xs)
  show ?case
  proof (cases "xs = []")
    case True
    with 1(2) show ?thesis by simp
  next
    case False
    then have e: "length (chunks_of n xs) = Suc (length (chunks_of n (drop n xs)))"
      using 1(2) by (subst chunks_of.simps) simp
    obtain k where k: "length xs = Suc k" using False by (cases xs) auto
    have "length (chunks_of n (drop n xs)) = (length xs - n + n - 1) div n" using 1 False by simp
    also have "\<dots> = k div n"
    proof (cases "n \<le> length xs")
      case True
      then show ?thesis using k by simp
    next
      case False
      then show ?thesis using k 1(2) by simp
    qed
    finally show ?thesis using e k 1(2) div_add_self2 [of n k] by simp
  qed
qed

lemma chunk_size_pos: "0 < chunk_size mtu"
  by (simp add: chunk_size_def Let_def)

lemma concat_pieces: "concat (split_pieces payload mtu) = payload"
proof -
  have "concat (map concat xss) = concat (concat xss)" for xss :: "char list list list" by (induction xss) simp_all
  then show ?thesis by (simp add: split_pieces_def concat_chunks_of chunk_size_pos concat_chars)
qed

lemma length_pieces: "length (split_pieces payload mtu) = (length (chars payload) + chunk_size mtu - 1) div chunk_size mtu"
  by (simp add: split_pieces_def length_chunks_of chunk_size_pos)

lemma utf8_concat: "list_all utf8_valid bss \<Longrightarrow> utf8_valid (concat bss)"
  by (induction bss) (simp_all add: utf8_append)

lemma pieces_valid:
  assumes "utf8_valid (bytes_of payload)" "piece \<in> set (split_pieces payload mtu)"
  shows "utf8_valid (bytes_of piece)"
proof -
  obtain cs where cs: "cs \<in> set (chunks_of (chunk_size mtu) (chars payload))" "piece = concat cs"
    using assms(2) by (auto simp: split_pieces_def)
  have "list_all utf8_valid (map bytes_of (chars payload))"
    using chars_valid [OF assms(1)] by (simp add: chars_def comp_def list.pred_map)
  then have "list_all utf8_valid (map bytes_of cs)"
    using chunks_of_set [OF cs(1)] by (auto simp: list_all_iff)
  moreover have "bytes_of (concat cs) = concat (map bytes_of cs)" by (induction cs) simp_all
  ultimately show ?thesis using utf8_concat cs(2) by metis
qed

subsection \<open>Lines\<close>

lemma split_once_first: "c \<notin> set a \<Longrightarrow> split_once c (a @ c # b) = Some (a, b)"
  by (induction a) (auto simp: split_once_def)

lemma show_nat_no_colon: "CHR '':'' \<notin> set (show_nat n)"
  using show_nat_digits [of n] not_digit_sep(2) by (auto simp: list_all_iff)

lemma parse_usize_show: "n \<le> U64_MAX \<Longrightarrow> parse_usize (show_nat n) = Some n"
proof -
  assume n: "n \<le> U64_MAX"
  obtain d cs where "show_nat n = digit_char d # cs" "d < 10" using show_nat_hd by blast
  then show ?thesis using n digit_char_sign [of d] parse_nat_show [of n] by (simp add: parse_usize_def)
qed

lemma ascii_show_nat: "ascii (show_nat n)"
proof -
  have "of_char c < (128 :: nat)" if "is_digit c" for c
    using that by (simp add: is_digit_def digit_val_def split: if_splits)
  then show ?thesis using show_nat_digits [of n] by (simp add: ascii_def list_all_iff)
qed

lemma utf8_ascii_append: "ascii a \<Longrightarrow> utf8_valid (bytes_of (a @ b)) = utf8_valid (bytes_of b)"
  using utf8_append [OF utf8_valid_ascii] by simp

lemma ascii_colon: "ascii '':''"
  by (simp add: ascii_def)

definition line_at :: "prims \<Rightarrow> string list \<Rightarrow> nat \<Rightarrow> string" where
  "line_at P pieces i = p_base64_encode P (bytes_of (chunk_line i (length pieces) (pieces ! i)))"

lemma split_chunks_nth:
  assumes "i < length (split_pieces payload mtu)"
  shows "split_chunks P payload mtu ! i = line_at P (split_pieces payload mtu) i"
  using assms length_pieces [of payload mtu] by (simp add: split_chunks_def Let_def line_at_def nth_enumerate_eq)

lemma length_split_chunks: "length (split_chunks P payload mtu) = length (split_pieces payload mtu)"
  by (simp add: split_chunks_def Let_def)

definition piece_ok :: "string \<Rightarrow> bool" where
  "piece_ok p \<longleftrightarrow> utf8_valid (bytes_of p) \<and> length p \<le> MAX_MTU"

lemma parse_line_at:
  assumes P: "ratchet_prims_ok P" and i: "i < length ps" and n: "length ps \<le> 4096" and ok: "piece_ok (ps ! i)"
  shows "parse_line P (line_at P ps i) = Some (i, length ps, ps ! i)"
proof -
  let ?l = "chunk_line i (length ps) (ps ! i)"
  have "length (show_nat i) \<le> 4" "length (show_nat (length ps)) \<le> 4" by (rule length_show_nat; use i n in simp)+
  then have len: "length ?l \<le> 522" using ok by (simp add: chunk_line_def piece_ok_def)
  have "length (line_at P ps i) = 4 * ((length ?l + 2) div 3)"
    using P by (simp add: line_at_def ratchet_prims_ok_def)
  also have "\<dots> \<le> 4 * ((522 + 2) div 3)" using len by (intro mult_le_mono div_le_mono) simp_all
  finally have size: "\<not> length (line_at P ps i) > MAX_MTU * 4" by simp
  have dec: "p_base64_decode P (line_at P ps i) = Some (bytes_of ?l)"
    using P by (simp add: line_at_def ratchet_prims_ok_def nip44_prims_ok_def)
  have "utf8_valid (bytes_of ?l)"
    unfolding chunk_line_def using ok
    by (simp only: utf8_ascii_append [OF ascii_show_nat] utf8_ascii_append [OF ascii_colon] piece_ok_def)
  then have utf: "from_utf8 (bytes_of ?l) = Some ?l" by simp
  have s1: "split_once CHR '':'' ?l = Some (show_nat i, show_nat (length ps) @ CHR '':'' # ps ! i)"
    using split_once_first [OF show_nat_no_colon] by (simp add: chunk_line_def)
  have s2: "split_once CHR '':'' (show_nat (length ps) @ CHR '':'' # ps ! i) = Some (show_nat (length ps), ps ! i)"
    by (rule split_once_first [OF show_nat_no_colon])
  have u: "parse_usize (show_nat i) = Some i" "parse_usize (show_nat (length ps)) = Some (length ps)"
    by (rule parse_usize_show; use i n in simp)+
  have c: "\<not> (length ps = 0 \<or> length ps > 4096)" "\<not> length (ps ! i) > MAX_MTU" using i n ok by (auto simp: piece_ok_def)
  show ?thesis unfolding parse_line_def dec
    by (simp only: size utf s1 s2 u c option.case prod.case if_False)
qed

lemma collect_lines:
  assumes P: "ratchet_prims_ok P" and n: "length ps \<le> 4096" and ok: "list_all piece_ok ps"
    and idx: "distinct is" "set is \<subseteq> {0..<length ps}" and m: "hm_wf m" "set is \<inter> set (map fst m) = {}"
    and dec: "declared = None \<or> declared = Some (length ps)"
    and tl: "tot + (\<Sum>i\<leftarrow>is. length (ps ! i)) \<le> BLE_MAX_PAYLOAD_BYTES * 2"
  shows "\<exists>m'. collect_chunks P (map (line_at P ps) is) m declared tot = Some (m', if is = [] then declared else Some (length ps))
     \<and> length m' = length m + length is \<and> (\<forall>i. map_of m' i = (if i \<in> set is then Some (ps ! i) else map_of m i))"
  using idx m dec tl
proof (induction "is" arbitrary: m declared tot)
  case (Cons i js)
  have i: "i < length ps" "i \<notin> set (map fst m)" using Cons.prems by auto
  have pl: "parse_line P (line_at P ps i) = Some (i, length ps, ps ! i)"
    by (rule parse_line_at [OF P i(1) n]) (use ok i(1) in \<open>simp add: list_all_length\<close>)
  have "\<exists>m'. collect_chunks P (map (line_at P ps) js) (hm_put i (ps ! i) m) (Some (length ps)) (tot + length (ps ! i))
        = Some (m', if js = [] then Some (length ps) else Some (length ps))
     \<and> length m' = length (hm_put i (ps ! i) m) + length js
     \<and> (\<forall>k. map_of m' k = (if k \<in> set js then Some (ps ! k) else map_of (hm_put i (ps ! i) m) k))"
    by (rule Cons.IH) (use Cons.prems i in \<open>auto simp: add.assoc\<close>)
  then obtain m' where m': "collect_chunks P (map (line_at P ps) js) (hm_put i (ps ! i) m) (Some (length ps)) (tot + length (ps ! i))
        = Some (m', Some (length ps))" "length m' = length m + length (i # js)"
      "\<forall>k. map_of m' k = (if k \<in> set js then Some (ps ! k) else map_of (hm_put i (ps ! i) m) k)"
    using i(2) map_of_eq_None_iff [of m i] by auto
  have "collect_chunks P (map (line_at P ps) (i # js)) m declared tot = Some (m', Some (length ps))"
    using Cons.prems(5,6) i(2) m'(1) by (auto simp: pl hm_has_def)
  with m'(2,3) show ?case by (intro exI [of _ m']) auto
qed simp

lemma those_map_Some: "list_all (\<lambda>x. f x = Some (g x)) xs \<Longrightarrow> those (map f xs) = Some (map g xs)"
  by (induction xs) simp_all

lemma perm_pieces:
  assumes perm: "mset is = mset [0..<length ps]"
  shows "distinct is" "set is = {0..<length ps}" "length is = length ps" "(\<Sum>i\<leftarrow>is. length (ps ! i)) = length (concat ps)"
proof -
  show "distinct is" "set is = {0..<length ps}" "length is = length ps"
    using perm mset_eq_imp_distinct_iff [OF perm] mset_eq_setD [OF perm] mset_eq_length [OF perm] by simp_all
  have "(\<Sum>i\<leftarrow>is. length (ps ! i)) = (\<Sum>i\<leftarrow>[0..<length ps]. length (ps ! i))"
    using arg_cong [OF perm, of "image_mset (\<lambda>i. length (ps ! i))"]
    by (simp only: mset_map [symmetric] sum_mset_sum_list [symmetric])
  also have "map (\<lambda>i. length (ps ! i)) [0..<length ps] = map length ps" by (rule nth_equalityI) simp_all
  then have "(\<Sum>i\<leftarrow>[0..<length ps]. length (ps ! i)) = length (concat ps)" by (simp add: length_concat)
  finally show "(\<Sum>i\<leftarrow>is. length (ps ! i)) = length (concat ps)" .
qed

lemma reassemble_lines:
  assumes P: "ratchet_prims_ok P" and n: "ps \<noteq> []" "length ps \<le> 4096" and ok: "list_all piece_ok ps"
    and size: "length (concat ps) \<le> BLE_MAX_PAYLOAD_BYTES * 2" and perm: "mset is = mset [0..<length ps]"
  shows "reassemble_chunks P (map (line_at P ps) is) = Some (concat ps)"
proof -
  note idx = perm_pieces [OF perm]
  from idx(4) have sum: "0 + (\<Sum>i\<leftarrow>is. length (ps ! i)) \<le> BLE_MAX_PAYLOAD_BYTES * 2" using size by simp
  obtain m where m: "collect_chunks P (map (line_at P ps) is) [] None 0 = Some (m, if is = [] then None else Some (length ps))"
      "length m = length ps" "\<forall>i. map_of m i = (if i \<in> set is then Some (ps ! i) else None)"
    using collect_lines [OF P n(2) ok idx(1) eq_refl [OF idx(2)] hm_wf_Nil _ _ sum, of None] idx(3) by auto
  have "those (map (map_of m) [0..<length ps]) = Some (map ((!) ps) [0..<length ps])"
    by (rule those_map_Some) (use m(3) idx(2) in \<open>simp add: list_all_iff\<close>)
  moreover have "is \<noteq> []" "length ps \<noteq> 0" using n(1) idx(3) by auto
  ultimately show ?thesis using m(1,2) by (simp add: reassemble_chunks_def map_nth)
qed

lemma incomplete_lines:
  assumes P: "ratchet_prims_ok P" and n: "length ps \<le> 4096" and ok: "list_all piece_ok ps"
    and size: "length (concat ps) \<le> BLE_MAX_PAYLOAD_BYTES * 2" and perm: "mset is = mset [0..<length ps]" and k: "k < length ps"
  shows "reassemble_chunks P (map (line_at P ps) (take k is)) = None"
proof -
  note idx = perm_pieces [OF perm]
  have "(\<Sum>i\<leftarrow>is. length (ps ! i)) = (\<Sum>i\<leftarrow>take k is. length (ps ! i)) + (\<Sum>i\<leftarrow>drop k is. length (ps ! i))"
    using sum_list_append [of "map (\<lambda>i. length (ps ! i)) (take k is)"] append_take_drop_id [of k "is"] by (metis map_append)
  then have sum: "0 + (\<Sum>i\<leftarrow>take k is. length (ps ! i)) \<le> BLE_MAX_PAYLOAD_BYTES * 2" using size idx(4) by simp
  have sub: "distinct (take k is)" "set (take k is) \<subseteq> {0..<length ps}" using idx(1,2) set_take_subset [of k "is"] by simp_all
  obtain m where "collect_chunks P (map (line_at P ps) (take k is)) [] None 0 = Some (m, if take k is = [] then None else Some (length ps))"
      "length m = k"
    using collect_lines [OF P n ok sub hm_wf_Nil _ _ sum, of None] idx(3) k by auto
  then show ?thesis using k by (auto simp: reassemble_chunks_def)
qed

lemma pieces_ok:
  "utf8_valid (bytes_of payload) \<Longrightarrow> list_all (\<lambda>p. length p \<le> MAX_MTU) (split_pieces payload mtu) \<Longrightarrow>
     list_all piece_ok (split_pieces payload mtu)"
  using pieces_valid by (auto simp: list_all_iff piece_ok_def)

lemma map_split_chunks:
  "set is \<subseteq> {0..<length (split_pieces payload mtu)} \<Longrightarrow>
     map ((!) (split_chunks P payload mtu)) is = map (line_at P (split_pieces payload mtu)) is"
  by (auto simp: split_chunks_nth)

text \<open>Chunks survive any order of arrival: the lines of a payload of at most 4096 pieces of at most 512 bytes and 128 KiB
  together, received in any order, give the payload back, and while one of them is missing there is no result.
\<close>

theorem ble_chunks_round_trip:
  assumes P: "ratchet_prims_ok P" and p: "utf8_valid (bytes_of payload)" "payload \<noteq> []" "length payload \<le> BLE_MAX_PAYLOAD_BYTES * 2"
    and n: "length (split_pieces payload mtu) \<le> 4096" "list_all (\<lambda>p. length p \<le> MAX_MTU) (split_pieces payload mtu)"
    and perm: "mset is = mset [0..<length (split_chunks P payload mtu)]" and k: "k < length is"
  shows "reassemble_chunks P (map ((!) (split_chunks P payload mtu)) is) = Some payload
    \<and> reassemble_chunks P (map ((!) (split_chunks P payload mtu)) (take k is)) = None"
proof -
  let ?ps = "split_pieces payload mtu"
  have perm': "mset is = mset [0..<length ?ps]" using perm by (simp only: length_split_chunks)
  have idx: "set is = {0..<length ?ps}" "length is = length ?ps"
    using mset_eq_setD [OF perm'] mset_eq_length [OF perm'] by simp_all
  have lines: "map ((!) (split_chunks P payload mtu)) is = map (line_at P ?ps) is"
    "map ((!) (split_chunks P payload mtu)) (take k is) = map (line_at P ?ps) (take k is)"
    using idx(1) set_take_subset [of k "is"] by (intro map_split_chunks; simp)+
  have ne: "?ps \<noteq> []" using concat_pieces [of payload mtu] p(2) by auto
  have size: "length (concat ?ps) \<le> BLE_MAX_PAYLOAD_BYTES * 2" using p(3) by (simp only: concat_pieces)
  note ok = pieces_ok [OF p(1) n(2)]
  show ?thesis
    unfolding lines using reassemble_lines [OF P ne n(1) ok size perm'] incomplete_lines [OF P n(1) ok size perm'] k idx(2)
    by (simp only: concat_pieces simp_thms)
qed

text \<open>Text of one-byte characters is cut into pieces of at most 509 bytes, at least 20 of them per piece.\<close>

lemma chars_ascii: "ascii s \<Longrightarrow> chars s = map (\<lambda>c. [c]) s"
proof (induction s)
  case (Cons c s)
  then have a: "of_char c < (128 :: nat)" "ascii s" by (simp_all add: ascii_def)
  have nc: "\<not> utf8_cont (byte_of_char d)" if "d \<in> set (c # s)" for d
  proof -
    have "(of_char d :: nat) < 128" using Cons.prems that by (auto simp: ascii_def)
    then have "byte_of_char d < 0x80" by (rule byte_of_char_less)
    then show ?thesis by (simp add: utf8_cont_def not_le)
  qed
  have "takeWhile utf8_cont (bytes_of s) = []" "dropWhile utf8_cont (bytes_of s) = bytes_of s"
    using nc by (cases s; simp add: bytes_of_def)+
  then show ?case using Cons.IH [OF a(2)] by (simp add: chars_def bytes_of_def str_of_def)
qed (simp add: chars_def)

theorem ble_chunks_round_trip_witness:
  "reassemble_chunks sample_prims (map ((!) (split_chunks sample_prims ''a:234567890123456789012345'' 23)) [1, 0]) = Some ''a:234567890123456789012345''
   \<and> reassemble_chunks sample_prims (map ((!) (split_chunks sample_prims ''a:234567890123456789012345'' 23)) (take 1 [1, 0])) = None"
proof -
  have ps: "split_pieces ''a:234567890123456789012345'' 23 = [''a:234567890123456789'', ''012345'']" by code_simp
  show ?thesis
    by (rule ble_chunks_round_trip [OF sample_ratchet_ok])
      (simp_all add: ps length_split_chunks utf8_valid_ascii ascii_def upt_rec)
qed

text \<open>A line whose piece is longer than 512 bytes, as happens for text of wide characters, is refused, and with it the set.\<close>

lemma wide_piece_refused:
  assumes P: "ratchet_prims_ok P" and wide: "length (ps ! i) > MAX_MTU"
  shows "reassemble_chunks P (line_at P ps i # lines) = None"
proof -
  have dec: "p_base64_decode P (line_at P ps i) = Some (bytes_of (chunk_line i (length ps) (ps ! i)))"
    using P by (simp add: line_at_def ratchet_prims_ok_def nip44_prims_ok_def)
  have s: "split_once CHR '':'' (chunk_line i (length ps) (ps ! i)) = Some (show_nat i, show_nat (length ps) @ CHR '':'' # ps ! i)"
    "split_once CHR '':'' (show_nat (length ps) @ CHR '':'' # ps ! i) = Some (show_nat (length ps), ps ! i)"
    using split_once_first [OF show_nat_no_colon] by (simp_all add: chunk_line_def)
  have "parse_line P (line_at P ps i) = None"
    using wide by (auto simp: parse_line_def dec s from_utf8_def split: option.splits)
  then show ?thesis by (simp add: reassemble_chunks_def)
qed

subsection \<open>Envelopes\<close>

definition hex_version_ok :: "prims \<Rightarrow> bool" where
  "hex_version_ok P \<longleftrightarrow> (\<forall>b. prefix ''01'' (p_hex_encode P (HYBRID_VERSION # b)))"

definition ble_env_ok :: "prims \<Rightarrow> ble_env \<Rightarrow> string \<Rightarrow> string \<Rightarrow> bool" where
  "ble_env_ok P E sk_hex pk_hex \<longleftrightarrow> (\<forall>env. be_json_decode E (be_json_encode E env) = Some env)
     \<and> (\<exists>sk pk. p_hex_decode P sk_hex = Some sk \<and> p_hex_decode P pk_hex = Some pk
          \<and> (\<forall>msg. \<exists>sig. be_sign E msg sk = Some sig \<and> be_verify E sig msg pk))"

lemma encapsulate_version:
  "hex_version_ok P \<Longrightarrow> hybrid_encapsulate P er mr pk dm = Ok (ct, ss) \<Longrightarrow> prefix ''01'' ct"
  by (auto simp: hybrid_encapsulate_def hybrid_encapsulate_bytes_def hex_version_ok_def Let_def split: if_splits prod.splits)

lemma compress_json_round_trip:
  assumes P: "ratchet_prims_ok P" and d: "utf8_valid (bytes_of payload)" "length payload \<le> BLE_MAX_PAYLOAD_BYTES"
    "length (p_deflate P (bytes_of payload)) \<le> 2 ^ 20" "p_deflate P (bytes_of payload) \<noteq> []"
  shows "content_compress_json P payload \<noteq> []" "ascii (content_compress_json P payload)"
    "length (content_compress_json P payload) < 2 ^ 22"
    "content_decompress_json P (content_compress_json P payload) = payload"
proof -
  let ?c = "p_deflate P (bytes_of payload)"
  have c: "compress P (bytes_of payload) = Ok ?c" using d(2) by (simp add: compress_def MAX_COMPRESS_BYTES_def)
  then have j: "content_compress_json P payload = p_base64_encode P ?c" by (simp add: content_compress_json_def)
  have len: "length (p_base64_encode P ?c) = 4 * ((length ?c + 2) div 3)" and "ascii (p_base64_encode P ?c)"
    using P by (simp_all add: ratchet_prims_ok_def)
  then show "ascii (content_compress_json P payload)" by (simp add: j)
  have "1 \<le> (length ?c + 2) div 3" using d(4) by (cases ?c) auto
  then have "0 < length (p_base64_encode P ?c)" unfolding len by linarith
  then show "content_compress_json P payload \<noteq> []" by (auto simp: j)
  have "(length ?c + 2) div 3 \<le> (2 ^ 20 + 2) div 3" using d(3) by (intro div_le_mono) simp
  then show short: "length (content_compress_json P payload) < 2 ^ 22" unfolding j len by simp
  have "decompress_limited P ?c MAX_DECOMPRESS_BYTES = Ok (bytes_of payload)"
    by (rule decompress_compress [OF _ c]) (use P d(2) in \<open>simp_all add: ratchet_prims_ok_def MAX_DECOMPRESS_BYTES_def\<close>)
  moreover have "p_base64_decode P (p_base64_encode P ?c) = Some ?c"
    using P by (simp add: ratchet_prims_ok_def nip44_prims_ok_def)
  moreover have f: "from_utf8 (bytes_of payload) = Some payload" using d(1) by simp
  ultimately show "content_decompress_json P (content_compress_json P payload) = payload"
    using short by (simp add: content_decompress_json_def j MAX_DECOMPRESS_BYTES_def decompress_def) (simp only: f option.case)
qed

text \<open>C27. An envelope is opened by its addressee: with a key pair of the hybrid KEM and a signing key pair, a non-empty payload of at
  most 64 KiB is encrypted, and if the JSON stays within 256 KiB the holder of the secret key gets the payload back, whether
  or not the signature is checked; a longer JSON is refused. The sender's name in the envelope is not covered by the
  signature: any other name is accepted as well.
\<close>

theorem ble_envelope_round_trip:
  assumes P: "ratchet_prims_ok P" "hex_version_ok P" "ble_env_ok P E dsk dpk" and pair: "hybrid_pair P pk sk"
    and draws: "length e = 32" "length nonce = 32" and g: "ck_cache_ok P g" "ck_cache_ok P g'"
    and p: "utf8_valid (bytes_of payload)" "payload \<noteq> []" "length payload \<le> BLE_MAX_PAYLOAD_BYTES"
    and z: "length (p_deflate P (bytes_of payload)) \<le> 2 ^ 20" "p_deflate P (bytes_of payload) \<noteq> []"
  shows "\<exists>env. fst (encrypt_envelope P E (Some e) mr (Some nonce) payload pk dsk sender g) = Ok (be_json_encode E env)
    \<and> se_sender_pubkey env = sender
    \<and> fst (decrypt_envelope P E (be_json_encode E (env\<lparr>se_sender_pubkey := other\<rparr>)) sk (if check then Some dpk else None) g') =
        (if length (be_json_encode E (env\<lparr>se_sender_pubkey := other\<rparr>)) > 256 * 1024
         then Err ''envelope JSON too large (max 256KB)'' else Ok payload)"
proof -
  let ?dm = "bytes_of SYNC_CONTEXT" and ?z = "content_compress_json P payload"
  have kem: "kem_prims_ok P" "nip44_prims_ok P" using P(1) by (simp_all add: ratchet_prims_ok_def)
  have "length ?dm \<le> 1024" by (simp add: SYNC_CONTEXT_def)
  then obtain ct ss where kr: "hybrid_encapsulate P (Some e) mr pk ?dm = Ok (ct, p_hex_encode P ss)"
      "length ct = 2 * HYBRID_CT_LEN" "length ss = SS_LEN" "hybrid_decapsulate P ct sk ?dm = Ok (p_hex_encode P ss)"
    using hybrid_round_trip [OF kem(1) pair draws(1)] by blast
  have key: "hex_to_key32 P (p_hex_encode P ss) = Some ss"
    using hex_decode_encode [OF kem_hex [OF kem(1)]] kr(3) by (simp add: hex_to_key32_def)
  note zz = compress_json_round_trip [OF P(1) p(1,3) z]
  obtain inner g1 g2 where nip: "nip44_encrypt P (Some nonce) (bytes_of ?z) ss g = (Ok inner, g1)"
      "nip44_decrypt P inner ss g' = (Ok (bytes_of ?z), g2)"
    using nip44_pair [OF kem(2) g draws(2), of "bytes_of ?z" ss] zz(1,3) by auto
  obtain dsk_b dpk_b sig where dsa: "p_hex_decode P dsk = Some dsk_b" "p_hex_decode P dpk = Some dpk_b"
      "be_sign E (sign_msg ct) dsk_b = Some sig" "be_verify E sig (sign_msg ct) dpk_b"
    using P(3) unfolding ble_env_ok_def by blast
  have json: "be_json_decode E (be_json_encode E env) = Some env" for env using P(3) by (simp add: ble_env_ok_def)
  have sign: "dsa_sign P E (sign_msg ct) dsk = Some (p_hex_encode P sig)" by (simp add: dsa_sign_def dsa)
  have ver: "dsa_verify_hex P E (p_hex_encode P sig) (sign_msg ct) dpk"
    by (simp add: dsa_verify_hex_def dsa_verify_def dsa hex_decode_encode [OF kem_hex [OF kem(1)]])
  let ?env = "\<lparr>se_pqc_ct = ct, se_inner = inner, se_sender_pubkey = sender, se_dsa_sig = p_hex_encode P sig\<rparr>"
  have "fst (encrypt_envelope P E (Some e) mr (Some nonce) payload pk dsk sender g) = Ok (be_json_encode E ?env)"
    using p(3) by (simp add: encrypt_envelope_def Let_def kr(1) key nip(1) sign)
  moreover have "fst (decrypt_envelope P E (be_json_encode E (?env\<lparr>se_sender_pubkey := other\<rparr>)) sk (if check then Some dpk else None) g') =
        (if length (be_json_encode E (?env\<lparr>se_sender_pubkey := other\<rparr>)) > 256 * 1024
         then Err ''envelope JSON too large (max 256KB)'' else Ok payload)"
    using kr(2) encapsulate_version [OF P(2) kr(1)] ver p(2) zz(2,4)
    by (auto simp: decrypt_envelope_def json kr(4) key nip(2) Let_def)
  ultimately show ?thesis by (intro exI [of _ ?env]) simp
qed

text \<open>An instance: fields in hexadecimal separated by commas, and a signature that is the key itself.\<close>

definition hex_field :: "string \<Rightarrow> string" where
  "hex_field s = sample_hex_encode (bytes_of s)"

definition unhex_field :: "string \<Rightarrow> string option" where
  "unhex_field s = map_option str_of (sample_hex_decode s)"

definition sample_ble_env :: ble_env where
  "sample_ble_env = \<lparr>be_json_encode = (\<lambda>e. hex_field (se_pqc_ct e) @ CHR '','' # hex_field (se_inner e) @ CHR '','' #
        hex_field (se_sender_pubkey e) @ CHR '','' # hex_field (se_dsa_sig e)),
     be_json_decode = (\<lambda>s. case map unhex_field (split_on CHR '','' s) of [Some a, Some b, Some c, Some d] \<Rightarrow>
        Some \<lparr>se_pqc_ct = a, se_inner = b, se_sender_pubkey = c, se_dsa_sig = d\<rparr> | _ \<Rightarrow> None),
     be_sign = (\<lambda>msg sk. Some sk), be_verify = (\<lambda>sig msg pk. sig = pk)\<rparr>"

lemma hex_field_facts: "unhex_field (hex_field s) = Some s" "CHR '','' \<notin> set (hex_field s)"
proof -
  show "unhex_field (hex_field s) = Some s" by (simp add: hex_field_def unhex_field_def sample_hex_round_trip)
  have "CHR '','' \<notin> set ''0123456789abcdef''" by simp
  moreover have "is_hex (hex_field s)" unfolding hex_field_def using sample_hex_facts ..
  ultimately show "CHR '','' \<notin> set (hex_field s)" unfolding is_hex_def by metis
qed

lemma sample_ble_env_ok: "ble_env_ok sample_prims sample_ble_env ''01'' ''01''"
proof -
  have "be_json_decode sample_ble_env (be_json_encode sample_ble_env env) = Some env" for env
    by (simp add: sample_ble_env_def split_on_sep split_on_none hex_field_facts)
  moreover have "sample_hex_decode ''01'' = Some [1]" by code_simp
  ultimately show ?thesis by (simp add: ble_env_ok_def sample_ble_env_def)
qed

lemma sample_hex_version: "hex_version_ok sample_prims"
proof -
  have "sample_hex_encode [1] = ''01''" by code_simp
  then have "sample_hex_encode (1 # b) = ''01'' @ sample_hex_encode b" for b by simp
  then show ?thesis by (simp add: hex_version_ok_def)
qed

theorem ble_envelope_round_trip_witness:
  "\<exists>env. fst (encrypt_envelope sample_prims sample_ble_env (Some (replicate 32 3)) 7 (Some (replicate 32 9)) ''hi'' (sample_pk 2) ''01''
        ''me'' None) = Ok (be_json_encode sample_ble_env env)
    \<and> se_sender_pubkey env = ''me''
    \<and> fst (decrypt_envelope sample_prims sample_ble_env (be_json_encode sample_ble_env (env\<lparr>se_sender_pubkey := ''you''\<rparr>)) (sample_sk 2)
          (if True then Some ''01'' else None) None) =
        (if length (be_json_encode sample_ble_env (env\<lparr>se_sender_pubkey := ''you''\<rparr>)) > 256 * 1024
         then Err ''envelope JSON too large (max 256KB)'' else Ok ''hi'')"
  by (rule ble_envelope_round_trip [OF sample_ratchet_ok sample_hex_version sample_ble_env_ok sample_pair])
    (simp_all add: ck_cache_ok_def utf8_valid_ascii ascii_def)

subsection \<open>Names\<close>

lemma hexdigit_range:
  assumes "is_ascii_hexdigit b"
  shows "33 \<le> b \<and> b < 128" "is_ascii_hexdigit (lower_byte b)"
proof -
  have r: "48 \<le> unat b \<and> unat b \<le> 57 \<or> 65 \<le> unat b \<and> unat b \<le> 70 \<or> 97 \<le> unat b \<and> unat b \<le> 102"
    using assms by (simp add: is_ascii_hexdigit_def word_le_nat_alt)
  then show "33 \<le> b \<and> b < 128" by (auto simp: word_le_nat_alt word_less_nat_alt)
  show "is_ascii_hexdigit (lower_byte b)"
  proof (cases "65 \<le> b \<and> b \<le> 90")
    case True
    then have u: "65 \<le> unat b \<and> unat b \<le> 70" using r by (auto simp: word_le_nat_alt)
    then have "unat (b + 32) = unat b + 32" by (simp add: unat_word_ariths)
    with True u show ?thesis by (simp add: lower_byte_def is_ascii_hexdigit_def word_le_nat_alt)
  qed (use assms in \<open>auto simp: lower_byte_def\<close>)
qed

lemma device_name_fragment:
  assumes h: "list_all is_ascii_hexdigit (bytes_of pk)" and ne: "pk \<noteq> []"
  shows "pubkey_fragment_from_device_name (device_name pk) = Some (take 12 (to_ascii_lowercase pk))"
proof -
  let ?l = "to_ascii_lowercase pk"
  have "trim pk = pk" by (rule trim_graphic) (use h hexdigit_range(1) in \<open>auto simp: list_all_iff\<close>)
  have hl: "list_all is_ascii_hexdigit (bytes_of ?l)"
    using h hexdigit_range(2) by (auto simp: to_ascii_lowercase_def list_all_iff)
  have "ascii ?l"
    unfolding ascii_def
  proof
    fix c assume "c \<in> set ?l"
    then have "is_ascii_hexdigit (byte_of_char c)" using hl by (simp add: list_all_iff bytes_of_def)
    then have "byte_of_char c < 128" using hexdigit_range(1) by blast
    then show "of_char c < (128 :: nat)" by (simp add: byte_of_char_def word_less_nat_alt unat_of_nat)
  qed
  then have "device_name pk = DEVICE_NAME_PREFIX @ take 12 ?l"
    by (simp add: device_name_def \<open>trim pk = pk\<close> chars_ascii take_map)
  moreover have "list_all is_ascii_hexdigit (bytes_of (take 12 ?l))"
    using hl by (auto simp: list_all_iff bytes_of_def dest: in_set_takeD)
  moreover have "to_ascii_lowercase (take 12 ?l) = take 12 ?l"
    by (simp add: to_ascii_lowercase_def str_of_def take_map [symmetric] bytes_of_def comp_def)
  moreover have "take 12 ?l \<noteq> []" using ne by simp
  ultimately show ?thesis by (simp add: pubkey_fragment_from_device_name_def Let_def)
qed

end
