(* ===== verification/Chunking.thy ===== *)
theory Chunking
  imports Text Tables
begin

section \<open>Chunk manifests (src/media-core/src/chunking.rs)\<close>

text \<open>
  A blob is cut into chunks; the manifest lists their digests, offsets and lengths. The cutting itself is the FastCDC package:
  the iterator \<open>StreamCDC::new(reader, min, avg, max)\<close> is the parameter \<open>cdc\<close>, the list of its items, which are errors of the
  reader or an offset with the bytes. BLAKE3 with its hexadecimal form is the parameter \<open>b3\<close>; the rolling hasher is the hash
  of the bytes fed to it. The theorems say that the manifest of a blob is valid, that a valid manifest tiles its blob, and that
  the variants of the chunker agree.
\<close>

type_synonym digest = "byte list \<Rightarrow> string"

definition MIN_CHUNK :: nat where "MIN_CHUNK = 64 * 1024"
definition AVG_CHUNK :: nat where "AVG_CHUNK = 256 * 1024"
definition MAX_CHUNK :: nat where "MAX_CHUNK = 1024 * 1024"

record chunking_params =
  cp_min :: nat
  cp_avg :: nat
  cp_max :: nat

definition default_params :: chunking_params where
  "default_params = \<lparr>cp_min = MIN_CHUNK, cp_avg = AVG_CHUNK, cp_max = MAX_CHUNK\<rparr>"

definition for_mime :: "string \<Rightarrow> chunking_params" where
  "for_mime mime =
     (if strip_prefix ''video/'' mime \<noteq> None then \<lparr>cp_min = 1024 * 1024, cp_avg = 4 * 1024 * 1024, cp_max = 16 * 1024 * 1024\<rparr>
      else if strip_prefix ''audio/'' mime \<noteq> None then \<lparr>cp_min = 32 * 1024, cp_avg = 128 * 1024, cp_max = 512 * 1024\<rparr>
      else default_params)"

record chunk_ref =
  cr_blake3 :: string
  cr_offset :: nat
  cr_len :: nat

record chunk_manifest =
  cm_blob_hash :: string
  cm_total_size :: nat
  cm_chunks :: "chunk_ref list"

text \<open>The loop of \<open>is_valid\<close> with its early returns; \<open>next\<close> saturates.\<close>

fun valid_from :: "nat \<Rightarrow> nat \<Rightarrow> chunk_ref list \<Rightarrow> nat option" where
  "valid_from sz nxt [] = Some nxt"
| "valid_from sz nxt (c # cs) =
     (if cr_offset c \<noteq> nxt \<or> cr_len c = 0 \<or> length (cr_blake3 c) \<noteq> 64 then None
      else if \<not> list_all is_ascii_hexdigit (bytes_of (cr_blake3 c)) then None
      else let nxt' = sat_add U64_MAX (cr_offset c) (cr_len c) in
        if nxt' > sz then None else valid_from sz nxt' cs)"

definition manifest_valid :: "chunk_manifest \<Rightarrow> bool" where
  "manifest_valid m = (if cm_total_size m = 0 then cm_chunks m = []
     else valid_from (cm_total_size m) 0 (cm_chunks m) = Some (cm_total_size m))"

subsection \<open>Chunking a reader\<close>

type_synonym 'r cdc = "chunking_params \<Rightarrow> 'r \<Rightarrow> (nat \<times> byte list) res list"

definition chunk_ref_of :: "digest \<Rightarrow> nat \<times> byte list \<Rightarrow> chunk_ref" where
  "chunk_ref_of b3 item = \<lparr>cr_blake3 = b3 (snd item), cr_offset = fst item, cr_len = length (snd item)\<rparr>"

text \<open>\<open>chunks.last().map(|c| c.offset + c.len).unwrap_or(0)\<close>, the sum checked\<close>

definition total_of :: "chunk_ref list \<Rightarrow> nat res" where
  "total_of cs = (if cs = [] then Ok 0 else add_u64 (cr_offset (last cs)) (cr_len (last cs)))"

fun data_loop :: "digest \<Rightarrow> (nat \<times> byte list) res list \<Rightarrow> byte list \<Rightarrow> (chunk_ref \<times> byte list) list
    \<Rightarrow> (byte list \<times> (chunk_ref \<times> byte list) list) res" where
  "data_loop b3 [] hashed acc = Ok (hashed, acc)"
| "data_loop b3 (Ok item # items) hashed acc =
     data_loop b3 items (hashed @ snd item) (acc @ [(chunk_ref_of b3 item, snd item)])"
| "data_loop b3 (Err e # items) hashed acc = Err (''FastCDC chunking failed: '' @ e)"
| "data_loop b3 (Panic # items) hashed acc = Panic"

definition chunk_reader_with_data_params ::
    "digest \<Rightarrow> 'r cdc \<Rightarrow> 'r \<Rightarrow> chunking_params \<Rightarrow> (chunk_manifest \<times> (chunk_ref \<times> byte list) list) res" where
  "chunk_reader_with_data_params b3 cdc reader params =
     and_then (data_loop b3 (cdc params reader) [] []) (\<lambda>(hashed, chunks).
     and_then (total_of (map fst chunks)) (\<lambda>n.
       Ok (\<lparr>cm_blob_hash = b3 hashed, cm_total_size = n, cm_chunks = map fst chunks\<rparr>, chunks)))"

definition chunk_reader_with_data ::
    "digest \<Rightarrow> 'r cdc \<Rightarrow> 'r \<Rightarrow> (chunk_manifest \<times> (chunk_ref \<times> byte list) list) res" where
  "chunk_reader_with_data b3 cdc reader = chunk_reader_with_data_params b3 cdc reader default_params"

fun ref_loop :: "digest \<Rightarrow> (nat \<times> byte list) res list \<Rightarrow> byte list \<Rightarrow> chunk_ref list \<Rightarrow> (byte list \<times> chunk_ref list) res" where
  "ref_loop b3 [] hashed acc = Ok (hashed, acc)"
| "ref_loop b3 (Ok item # items) hashed acc = ref_loop b3 items (hashed @ snd item) (acc @ [chunk_ref_of b3 item])"
| "ref_loop b3 (Err e # items) hashed acc = Err (''FastCDC chunking failed: '' @ e)"
| "ref_loop b3 (Panic # items) hashed acc = Panic"

definition chunk_reader :: "digest \<Rightarrow> 'r cdc \<Rightarrow> 'r \<Rightarrow> chunk_manifest res" where
  "chunk_reader b3 cdc reader =
     and_then (ref_loop b3 (cdc default_params reader) [] []) (\<lambda>(hashed, chunks).
     and_then (total_of chunks) (\<lambda>n.
       Ok \<lparr>cm_blob_hash = b3 hashed, cm_total_size = n, cm_chunks = chunks\<rparr>))"

definition chunk_bytes :: "digest \<Rightarrow> byte list cdc \<Rightarrow> byte list \<Rightarrow> chunk_manifest res" where
  "chunk_bytes b3 cdc data = chunk_reader b3 cdc data"

text \<open>The writer of \<open>store_reader_with_data\<close> is a closure over a state.\<close>

fun store_loop :: "digest \<Rightarrow> (chunk_ref \<Rightarrow> byte list \<Rightarrow> 's \<Rightarrow> unit res \<times> 's) \<Rightarrow> (nat \<times> byte list) res list
    \<Rightarrow> byte list \<Rightarrow> chunk_ref list \<Rightarrow> 's \<Rightarrow> (byte list \<times> chunk_ref list) res \<times> 's" where
  "store_loop b3 write [] hashed acc s = (Ok (hashed, acc), s)"
| "store_loop b3 write (Ok item # items) hashed acc s =
     (case write (chunk_ref_of b3 item) (snd item) s of
        (Ok _, s') \<Rightarrow> store_loop b3 write items (hashed @ snd item) (acc @ [chunk_ref_of b3 item]) s'
      | (Err e, s') \<Rightarrow> (Err e, s')
      | (Panic, s') \<Rightarrow> (Panic, s'))"
| "store_loop b3 write (Err e # items) hashed acc s = (Err (''FastCDC chunking failed: '' @ e), s)"
| "store_loop b3 write (Panic # items) hashed acc s = (Panic, s)"

definition store_reader_with_data ::
    "digest \<Rightarrow> 'r cdc \<Rightarrow> (chunk_ref \<Rightarrow> byte list \<Rightarrow> 's \<Rightarrow> unit res \<times> 's) \<Rightarrow> 'r \<Rightarrow> 's \<Rightarrow> chunk_manifest res \<times> 's" where
  "store_reader_with_data b3 cdc write reader s =
     (case store_loop b3 write (cdc default_params reader) [] [] s of
        (r, s') \<Rightarrow> (and_then r (\<lambda>(hashed, chunks). and_then (total_of chunks) (\<lambda>n.
          Ok \<lparr>cm_blob_hash = b3 hashed, cm_total_size = n, cm_chunks = chunks\<rparr>)), s'))"

subsection \<open>Valid manifests tile their blob\<close>

definition hash_shape :: "string \<Rightarrow> bool" where
  "hash_shape h \<longleftrightarrow> length h = 64 \<and> list_all is_ascii_hexdigit (bytes_of h)"

definition b3_ok :: "digest \<Rightarrow> bool" where
  "b3_ok b3 \<longleftrightarrow> (\<forall>x. hash_shape (b3 x) \<and> to_ascii_lowercase (b3 x) = b3 x)"

fun refs_tile :: "nat \<Rightarrow> chunk_ref list \<Rightarrow> bool" where
  "refs_tile n [] = True"
| "refs_tile n (c # cs) \<longleftrightarrow> cr_offset c = n \<and> 0 < cr_len c \<and> hash_shape (cr_blake3 c) \<and> refs_tile (n + cr_len c) cs"

definition refs_len :: "chunk_ref list \<Rightarrow> nat" where
  "refs_len cs = sum_list (map cr_len cs)"

lemma refs_len_simps [simp]: "refs_len [] = 0" "refs_len (c # cs) = cr_len c + refs_len cs" "refs_len (cs @ ds) = refs_len cs + refs_len ds"
  by (simp_all add: refs_len_def)

lemma valid_from_iff:
  "sz < U64_MAX \<Longrightarrow> valid_from sz n cs = Some k \<longleftrightarrow> refs_tile n cs \<and> k = n + refs_len cs \<and> (cs = [] \<or> k \<le> sz)"
proof (induction cs arbitrary: n)
  case (Cons c cs)
  have "valid_from sz (n + cr_len c) cs = Some k \<longleftrightarrow> refs_tile (n + cr_len c) cs \<and> k = n + cr_len c + refs_len cs
      \<and> (cs = [] \<or> k \<le> sz)" using Cons by (simp add: add.assoc)
  moreover have "sat_add U64_MAX n (cr_len c) > sz \<longleftrightarrow> n + cr_len c > sz" using Cons.prems by (auto simp: sat_add_def)
  moreover have "sat_add U64_MAX n (cr_len c) = n + cr_len c" if "n + cr_len c \<le> sz"
    using that Cons.prems by (simp add: sat_add_def)
  ultimately show ?case by (cases "n + cr_len c \<le> sz") (auto simp: hash_shape_def Let_def)
qed auto

lemma manifest_valid_iff:
  "cm_total_size m < U64_MAX \<Longrightarrow>
     manifest_valid m \<longleftrightarrow> refs_tile 0 (cm_chunks m) \<and> refs_len (cm_chunks m) = cm_total_size m"
  using valid_from_iff [of "cm_total_size m" 0 "cm_chunks m" "cm_total_size m"]
  by (cases "cm_chunks m") (auto simp: manifest_valid_def)

lemma refs_tile_append: "refs_tile n (cs @ ds) \<longleftrightarrow> refs_tile n cs \<and> refs_tile (n + refs_len cs) ds"
  by (induction cs arbitrary: n) (auto simp: add.assoc)

lemma refs_tile_nth:
  assumes "refs_tile n cs" "i < length cs"
  shows "cr_offset (cs ! i) = n + refs_len (take i cs)" "0 < cr_len (cs ! i)" "hash_shape (cr_blake3 (cs ! i))"
    "cr_offset (cs ! i) + cr_len (cs ! i) \<le> n + refs_len cs"
proof -
  have "cs = take i cs @ cs ! i # drop (Suc i) cs" using assms(2) by (simp add: id_take_nth_drop)
  then have "refs_tile n (take i cs @ cs ! i # drop (Suc i) cs)" "refs_len cs = refs_len (take i cs @ cs ! i # drop (Suc i) cs)"
    using assms(1) by simp_all
  then show "cr_offset (cs ! i) = n + refs_len (take i cs)" "0 < cr_len (cs ! i)" "hash_shape (cr_blake3 (cs ! i))"
    "cr_offset (cs ! i) + cr_len (cs ! i) \<le> n + refs_len cs" by (simp_all add: refs_tile_append)
qed

subsection \<open>The manifest of a blob\<close>

text \<open>What the cutter is documented to do: the pieces are not empty, follow each other, and are the bytes of the reader.\<close>

fun items_tile :: "nat \<Rightarrow> (nat \<times> byte list) list \<Rightarrow> bool" where
  "items_tile n [] = True"
| "items_tile n (x # xs) \<longleftrightarrow> fst x = n \<and> snd x \<noteq> [] \<and> items_tile (n + length (snd x)) xs"

definition cdc_ok :: "'r cdc \<Rightarrow> chunking_params \<Rightarrow> 'r \<Rightarrow> byte list \<Rightarrow> bool" where
  "cdc_ok cdc params reader data \<longleftrightarrow>
     (\<exists>items. cdc params reader = map Ok items \<and> items_tile 0 items \<and> concat (map snd items) = data)"

lemma data_loop_Ok: "data_loop b3 (map Ok items) hashed acc
    = Ok (hashed @ concat (map snd items), acc @ map (\<lambda>x. (chunk_ref_of b3 x, snd x)) items)"
  by (induction items arbitrary: hashed acc) simp_all

lemma ref_loop_Ok: "ref_loop b3 (map Ok items) hashed acc
    = Ok (hashed @ concat (map snd items), acc @ map (chunk_ref_of b3) items)"
  by (induction items arbitrary: hashed acc) simp_all

lemma items_refs:
  "b3_ok b3 \<Longrightarrow> items_tile n items \<Longrightarrow> refs_tile n (map (chunk_ref_of b3) items)
     \<and> refs_len (map (chunk_ref_of b3) items) = length (concat (map snd items))"
  by (induction items arbitrary: n) (auto simp: b3_ok_def chunk_ref_of_def)

lemma total_of_tile:
  "refs_tile 0 cs \<Longrightarrow> refs_len cs \<le> U64_MAX \<Longrightarrow> total_of cs = Ok (refs_len cs)"
proof (cases cs rule: rev_cases)
  case (snoc ds d)
  assume "refs_tile 0 cs" "refs_len cs \<le> U64_MAX"
  then show ?thesis using snoc by (simp add: total_of_def refs_tile_append add_u64_def)
qed (simp add: total_of_def)

text \<open>\<open>describes b3 m data\<close>: the manifest \<open>m\<close> is of the blob \<open>data\<close>: it is valid, has its hash and size, and each chunk the
  hash of its part of the blob.\<close>

definition part :: "byte list \<Rightarrow> chunk_ref \<Rightarrow> byte list" where
  "part data c = take (cr_len c) (drop (cr_offset c) data)"

definition describes :: "digest \<Rightarrow> chunk_manifest \<Rightarrow> byte list \<Rightarrow> bool" where
  "describes b3 m data \<longleftrightarrow> manifest_valid m \<and> cm_blob_hash m = b3 data \<and> cm_total_size m = length data
     \<and> length data < U64_MAX \<and> (\<forall>c\<in>set (cm_chunks m). cr_blake3 c = b3 (part data c))"

lemma items_part:
  "items_tile (length pre) items \<Longrightarrow> x \<in> set items \<Longrightarrow> part (pre @ concat (map snd items)) (chunk_ref_of b3 x) = snd x"
proof (induction items arbitrary: pre)
  case (Cons y items)
  show ?case
  proof (cases "x = y")
    case True
    then show ?thesis using Cons.prems by (simp add: part_def chunk_ref_of_def)
  next
    case False
    then show ?thesis using Cons.IH [of "pre @ snd y"] Cons.prems by simp
  qed
qed simp

text \<open>
  Chunking a reader gives a manifest of its bytes, and the three variants agree: with the parts, without them, and handing
  each part to a writer, which sees exactly the parts in order.
\<close>

definition record_write :: "chunk_ref \<Rightarrow> byte list \<Rightarrow> (chunk_ref \<times> byte list) list \<Rightarrow> unit res \<times> (chunk_ref \<times> byte list) list" where
  "record_write c d log = (Ok (), log @ [(c, d)])"

lemma store_loop_record:
  "store_loop b3 record_write (map Ok items) hashed acc log
     = (Ok (hashed @ concat (map snd items), acc @ map (chunk_ref_of b3) items), log @ map (\<lambda>x. (chunk_ref_of b3 x, snd x)) items)"
  by (induction items arbitrary: hashed acc log) (simp_all add: record_write_def)

lemma chunk_items_facts:
  assumes "b3_ok b3" "cdc_ok cdc params reader data" "length data < U64_MAX"
  obtains items m where "cdc params reader = map Ok items" "concat (map snd items) = data"
    "total_of (map (chunk_ref_of b3) items) = Ok (length data)"
    "m = \<lparr>cm_blob_hash = b3 data, cm_total_size = length data, cm_chunks = map (chunk_ref_of b3) items\<rparr>" "describes b3 m data"
    "map snd items = map (part data) (cm_chunks m)"
proof -
  obtain items where i: "cdc params reader = map Ok items" "items_tile 0 items" "concat (map snd items) = data"
    using assms(2) by (auto simp: cdc_ok_def)
  let ?m = "\<lparr>cm_blob_hash = b3 data, cm_total_size = length data, cm_chunks = map (chunk_ref_of b3) items\<rparr>"
  have r: "refs_tile 0 (map (chunk_ref_of b3) items)" "refs_len (map (chunk_ref_of b3) items) = length data"
    using items_refs [OF assms(1) i(2)] i(3) by simp_all
  have p: "part data (chunk_ref_of b3 x) = snd x" if "x \<in> set items" for x
    using items_part [of "[]" items x b3] i that by simp
  have "describes b3 ?m data"
    using r assms(3) p by (auto simp: describes_def manifest_valid_iff chunk_ref_of_def)
  moreover have "total_of (map (chunk_ref_of b3) items) = Ok (length data)" using total_of_tile r assms(3) by simp
  moreover have "map snd items = map (part data) (cm_chunks ?m)" using p by simp
  ultimately show ?thesis using that i by blast
qed

theorem chunk_manifest_exact:
  assumes "b3_ok b3" "cdc_ok cdc default_params reader data" "length data < U64_MAX"
  shows "\<exists>m. chunk_reader b3 cdc reader = Ok m \<and> describes b3 m data \<and> concat (map (part data) (cm_chunks m)) = data
    \<and> chunk_reader_with_data b3 cdc reader = Ok (m, map (\<lambda>c. (c, part data c)) (cm_chunks m))
    \<and> store_reader_with_data b3 cdc record_write reader [] = (Ok m, map (\<lambda>c. (c, part data c)) (cm_chunks m))"
proof -
  obtain items m where i: "cdc default_params reader = map Ok items" "concat (map snd items) = data"
    "total_of (map (chunk_ref_of b3) items) = Ok (length data)"
    "m = \<lparr>cm_blob_hash = b3 data, cm_total_size = length data, cm_chunks = map (chunk_ref_of b3) items\<rparr>" "describes b3 m data"
    "map snd items = map (part data) (cm_chunks m)"
    using chunk_items_facts [OF assms] by blast
  have pairs: "map (\<lambda>x. (chunk_ref_of b3 x, snd x)) items = map (\<lambda>c. (c, part data c)) (cm_chunks m)"
    using i(4,6) by auto
  have "chunk_reader b3 cdc reader = Ok m"
    using i(1,2,3,4) by (simp add: chunk_reader_def ref_loop_Ok)
  moreover have "chunk_reader_with_data b3 cdc reader = Ok (m, map (\<lambda>c. (c, part data c)) (cm_chunks m))"
    using i(1,2,3,4) pairs by (simp add: chunk_reader_with_data_def chunk_reader_with_data_params_def data_loop_Ok comp_def)
  moreover have "store_reader_with_data b3 cdc record_write reader [] = (Ok m, map (\<lambda>c. (c, part data c)) (cm_chunks m))"
    using i(1,2,3,4) pairs by (simp add: store_reader_with_data_def store_loop_record)
  moreover have "concat (map (part data) (cm_chunks m)) = data" using i(2,6) by simp
  ultimately show ?thesis using i(5) by blast
qed

subsection \<open>Digests without collisions\<close>

definition seg :: "'a list \<Rightarrow> nat \<Rightarrow> nat \<Rightarrow> 'a list" where
  "seg xs a b = take (b - a) (drop a xs)"

lemma seg_append: "a \<le> b \<Longrightarrow> b \<le> c \<Longrightarrow> seg xs a b @ seg xs b c = seg xs a c"
proof -
  assume "a \<le> b" "b \<le> c"
  then obtain i j where "b = a + i" "c = a + i + j" by (metis le_Suc_ex)
  then show ?thesis by (simp add: seg_def take_add add.commute)
qed

lemma seg_empty [simp]: "b \<le> a \<Longrightarrow> seg xs a b = []"
  by (simp add: seg_def)

text \<open>No other bytes have the digest of a part of the blob.\<close>

definition collision_free :: "digest \<Rightarrow> byte list \<Rightarrow> bool" where
  "collision_free b3 data \<longleftrightarrow> (\<forall>a b x. b3 x = b3 (seg data a b) \<longrightarrow> x = seg data a b)"

definition unique_parts :: "digest \<Rightarrow> chunk_manifest \<Rightarrow> byte list \<Rightarrow> bool" where
  "unique_parts b3 m data \<longleftrightarrow> (\<forall>c\<in>set (cm_chunks m). \<forall>x. eq_ignore_ascii_case (b3 x) (cr_blake3 c) \<longrightarrow> x = part data c)"

lemma part_seg: "part data c = seg data (cr_offset c) (cr_offset c + cr_len c)"
  by (simp add: part_def seg_def)

lemma collision_free_parts: "b3_ok b3 \<Longrightarrow> collision_free b3 data \<Longrightarrow> describes b3 m data \<Longrightarrow> unique_parts b3 m data"
  unfolding unique_parts_def collision_free_def describes_def eq_ignore_ascii_case_def b3_ok_def part_seg by metis

text \<open>A digest and a cutter for the examples: the digest tells the segments of a blob of three bytes apart, the cutter
  cuts pieces of two bytes.\<close>

definition sample_segs :: "byte list list" where
  "sample_segs = [[], [1], [2], [3], [1, 2], [2, 3], [1, 2, 3]]"

definition sample_b3 :: digest where
  "sample_b3 x = (let k = length (takeWhile (\<lambda>y. y \<noteq> x) sample_segs) in
     if k < length sample_segs then replicate k CHR ''1'' @ replicate (64 - k) CHR ''0'' else replicate 64 CHR ''f'')"

fun pairs_from :: "nat \<Rightarrow> byte list \<Rightarrow> (nat \<times> byte list) list" where
  "pairs_from n (a # b # xs) = (n, [a, b]) # pairs_from (n + 2) xs"
| "pairs_from n [a] = [(n, [a])]"
| "pairs_from n [] = []"

definition sample_cdc :: "byte list cdc" where
  "sample_cdc params data = map Ok (pairs_from 0 data)"

lemma sample_b3_ok: "b3_ok sample_b3"
proof -
  have d: "is_ascii_hexdigit (byte_of_char CHR ''0'')" "is_ascii_hexdigit (byte_of_char CHR ''1'')" "is_ascii_hexdigit (byte_of_char CHR ''f'')"
    "lower_byte (byte_of_char CHR ''0'') = byte_of_char CHR ''0''" "lower_byte (byte_of_char CHR ''1'') = byte_of_char CHR ''1''"
    "lower_byte (byte_of_char CHR ''f'') = byte_of_char CHR ''f''"
    by code_simp+
  have "length sample_segs = 7" by (simp add: sample_segs_def)
  then show ?thesis
    by (simp add: b3_ok_def hash_shape_def sample_b3_def Let_def list_all_iff to_ascii_lowercase_def bytes_of_def str_of_def d in_set_replicate
        map_replicate_const)
qed

lemma sample_b3_inj: "y \<in> set sample_segs \<Longrightarrow> sample_b3 x = sample_b3 y \<Longrightarrow> x = y"
proof -
  assume y: "y \<in> set sample_segs" and eq: "sample_b3 x = sample_b3 y"
  let ?k = "\<lambda>z. length (takeWhile (\<lambda>y. y \<noteq> z) sample_segs)"
  have lt: "?k z < length sample_segs \<longleftrightarrow> z \<in> set sample_segs" for z
  proof
    assume "?k z < length sample_segs"
    then show "z \<in> set sample_segs" using nth_length_takeWhile [of "\<lambda>y. y \<noteq> z" sample_segs] nth_mem [of "?k z" sample_segs] by simp
  next
    assume "z \<in> set sample_segs"
    then have "takeWhile (\<lambda>y. y \<noteq> z) sample_segs \<noteq> sample_segs" by (auto simp: takeWhile_eq_all_conv)
    then show "?k z < length sample_segs" by (metis length_takeWhile_le nat_less_le takeWhile_eq_take take_all_iff order_refl)
  qed
  have at: "sample_segs ! ?k z = z" if "z \<in> set sample_segs" for z
    using nth_length_takeWhile [of "\<lambda>y. y \<noteq> z" sample_segs] lt that by simp
  have hd_f: "CHR ''f'' \<in> set (sample_b3 z) \<longleftrightarrow> z \<notin> set sample_segs" for z using lt by (auto simp: sample_b3_def Let_def in_set_replicate)
  then have x: "x \<in> set sample_segs" using y eq by metis
  have ones: "length (filter (\<lambda>c. c = CHR ''1'') (sample_b3 z)) = ?k z" if "z \<in> set sample_segs" for z
    using that lt by (simp add: sample_b3_def Let_def filter_replicate)
  have "?k x = ?k y" using ones x y eq by metis
  then show "x = y" using at x y by metis
qed

lemma sample_segs_closed: "seg [1, 2, 3] a b \<in> set sample_segs"
proof -
  have "seg [1, 2, 3] a b = take (min (b - a) 3) (drop (min a 3) [1, 2, 3])" by (simp add: seg_def min_def)
  moreover have "min a 3 \<in> {0, 1, 2, 3}" "min (b - a) 3 \<in> {0, 1, 2, 3}" by auto
  ultimately show ?thesis by (auto simp: sample_segs_def)
qed

lemma sample_collision_free: "collision_free sample_b3 [1, 2, 3]"
  using sample_b3_inj sample_segs_closed unfolding collision_free_def by blast

lemma sample_cdc_ok: "cdc_ok sample_cdc params data data"
proof -
  have "items_tile n (pairs_from n data) \<and> concat (map snd (pairs_from n data)) = data" for n
    by (induction n data rule: pairs_from.induct) simp_all
  then show ?thesis by (auto simp: cdc_ok_def sample_cdc_def)
qed

theorem chunk_manifest_exact_witness:
  "\<exists>m. chunk_reader sample_b3 sample_cdc [1, 2, 3] = Ok m \<and> describes sample_b3 m [1, 2, 3]
    \<and> concat (map (part [1, 2, 3]) (cm_chunks m)) = [1, 2, 3]"
  using chunk_manifest_exact [OF sample_b3_ok sample_cdc_ok, of "[1, 2, 3]"] by auto

end
