(* ===== verification/Lru.thy ===== *)
theory Lru
  imports Tables
begin

section \<open>The caches of the chunk store (src/media-core/src/cas.rs, \<open>FifoCache\<close>)\<close>

text \<open>
  A map from keys to values stamped with the epoch of their last use, and the set of stamps ordered by epoch. The epoch is a
  \<open>u64\<close> that grows by one per access; the model counts it as a natural number. The theorem: the cache refines the list of its
  entries in order of last use, of which the first is dropped when the capacity is reached.
\<close>

record 'v lru =
  lru_order :: "(nat \<times> string) list"
  lru_map :: "(string, nat \<times> 'v) hmap"
  lru_cap :: nat
  lru_next :: nat

definition lru_new :: "nat \<Rightarrow> 'v lru" where
  "lru_new cap = \<lparr>lru_order = [], lru_map = [], lru_cap = cap, lru_next = 0\<rparr>"

definition order_insert :: "nat \<times> string \<Rightarrow> (nat \<times> string) list \<Rightarrow> (nat \<times> string) list" where
  "order_insert p order = (if p \<in> set order then order else insort_key fst p order)"

definition order_remove :: "nat \<times> string \<Rightarrow> (nat \<times> string) list \<Rightarrow> (nat \<times> string) list" where
  "order_remove p order = filter (\<lambda>q. q \<noteq> p) order"

definition lru_get :: "string \<Rightarrow> 'v lru \<Rightarrow> 'v option \<times> 'v lru" where
  "lru_get key c = (case map_of (lru_map c) key of
       None \<Rightarrow> (None, c)
     | Some (old, v) \<Rightarrow> let e = lru_next c + 1 in
         (Some v, c\<lparr>lru_next := e, lru_map := hm_put key (e, v) (lru_map c),
                   lru_order := order_insert (e, key) (order_remove (old, key) (lru_order c))\<rparr>))"

definition lru_put :: "string \<Rightarrow> 'v \<Rightarrow> 'v lru \<Rightarrow> 'v lru" where
  "lru_put key v c = (let e = lru_next c + 1; c = c\<lparr>lru_next := e\<rparr> in
     case map_of (lru_map c) key of
       Some (old, _) \<Rightarrow> c\<lparr>lru_map := hm_put key (e, v) (lru_map c),
                         lru_order := order_insert (e, key) (order_remove (old, key) (lru_order c))\<rparr>
     | None \<Rightarrow>
         let c = (if lru_cap c > 0 \<and> length (lru_map c) \<ge> lru_cap c
                  then (case lru_order c of [] \<Rightarrow> c
                        | p # ps \<Rightarrow> c\<lparr>lru_order := ps, lru_map := hm_del (snd p) (lru_map c)\<rparr>)
                  else c) in
         c\<lparr>lru_order := order_insert (e, key) (lru_order c), lru_map := hm_put key (e, v) (lru_map c)\<rparr>)"

definition lru_invalidate :: "string \<Rightarrow> 'v lru \<Rightarrow> 'v lru" where
  "lru_invalidate key c = (case map_of (lru_map c) key of
       None \<Rightarrow> c
     | Some (e, v) \<Rightarrow> c\<lparr>lru_map := hm_del key (lru_map c), lru_order := order_remove (e, key) (lru_order c)\<rparr>)"

subsection \<open>The entries in order of last use\<close>

definition lru_ok :: "'v lru \<Rightarrow> bool" where
  "lru_ok c \<longleftrightarrow> hm_wf (lru_map c) \<and> sorted_wrt (<) (map fst (lru_order c)) \<and> distinct (map snd (lru_order c))
     \<and> (\<forall>e k. (e, k) \<in> set (lru_order c) \<longleftrightarrow> (\<exists>v. map_of (lru_map c) k = Some (e, v)))
     \<and> (\<forall>p\<in>set (lru_order c). fst p \<le> lru_next c) \<and> (0 < lru_cap c \<longrightarrow> length (lru_order c) \<le> lru_cap c)"

definition lru_abs :: "'v lru \<Rightarrow> (string \<times> 'v) list" where
  "lru_abs c = map (\<lambda>p. (snd p, snd (the (map_of (lru_map c) (snd p))))) (lru_order c)"

lemma order_insert_last:
  "\<forall>q\<in>set order. fst q < fst p \<Longrightarrow> order_insert p order = order @ [p]"
  by (induction order) (auto simp: order_insert_def insort_is_Cons)

lemma lru_length: "lru_ok c \<Longrightarrow> length (lru_map c) = length (lru_order c)"
proof -
  assume ok: "lru_ok c"
  have "set (map fst (lru_map c)) = set (map snd (lru_order c))"
  proof (intro equalityI subsetI)
    fix k assume "k \<in> set (map fst (lru_map c))"
    then obtain e v where "map_of (lru_map c) k = Some (e, v)" by (metis list.set_map map_of_eq_None_iff not_None_eq old.prod.exhaust)
    then have "(e, k) \<in> set (lru_order c)" using ok unfolding lru_ok_def by blast
    then show "k \<in> set (map snd (lru_order c))" by force
  next
    fix k assume "k \<in> set (map snd (lru_order c))"
    then obtain e where "(e, k) \<in> set (lru_order c)" by auto
    then obtain v where "map_of (lru_map c) k = Some (e, v)" using ok unfolding lru_ok_def by blast
    then show "k \<in> set (map fst (lru_map c))" by (metis list.set_map map_of_eq_None_iff option.distinct(1))
  qed
  then show ?thesis using ok by (metis distinct_card hm_wf_def length_map lru_ok_def)
qed

lemma lru_bound: "lru_ok c \<Longrightarrow> 0 < lru_cap c \<Longrightarrow> length (lru_map c) \<le> lru_cap c"
  using lru_length [of c] by (simp add: lru_ok_def)

lemma map_of_lru_abs: "lru_ok c \<Longrightarrow> map_of (lru_abs c) k = map_option snd (map_of (lru_map c) k)"
proof -
  assume ok: "lru_ok c"
  have keys: "map fst (lru_abs c) = map snd (lru_order c)" by (simp add: lru_abs_def comp_def)
  show ?thesis
  proof (cases "map_of (lru_map c) k")
    case None
    then have "k \<notin> set (map snd (lru_order c))" using ok by (force simp: lru_ok_def)
    then show ?thesis using None keys by (metis list.set_map map_of_eq_None_iff option.simps(8))
  next
    case (Some p)
    then have "(fst p, k) \<in> set (lru_order c)" using ok unfolding lru_ok_def by (metis prod.collapse)
    then have "(k, snd p) \<in> set (lru_abs c)" using Some by (force simp: lru_abs_def)
    then have "map_of (lru_abs c) k = Some (snd p)" using keys ok by (intro map_of_is_SomeI) (simp_all add: lru_ok_def)
    then show ?thesis using Some by simp
  qed
qed

lemma order_remove_key:
  "lru_ok c \<Longrightarrow> map_of (lru_map c) k = Some (e, v) \<Longrightarrow> order_remove (e, k) (lru_order c) = filter (\<lambda>p. snd p \<noteq> k) (lru_order c)"
  unfolding order_remove_def by (rule filter_cong) (force simp: lru_ok_def)+

lemma lru_drop_key:
  assumes ok: "lru_ok c"
  shows "lru_ok (c\<lparr>lru_map := hm_del k (lru_map c), lru_order := filter (\<lambda>p. snd p \<noteq> k) (lru_order c)\<rparr>)"
    "lru_abs (c\<lparr>lru_map := hm_del k (lru_map c), lru_order := filter (\<lambda>p. snd p \<noteq> k) (lru_order c)\<rparr>)
      = filter (\<lambda>p. fst p \<noteq> k) (lru_abs c)"
proof -
  have "sorted_wrt (<) (map fst (filter (\<lambda>p. snd p \<noteq> k) (lru_order c)))"
    using ok by (simp add: lru_ok_def sorted_wrt_map sorted_wrt_filter)
  moreover have "distinct (map snd (filter (\<lambda>p. snd p \<noteq> k) (lru_order c)))"
    using ok by (simp add: lru_ok_def distinct_map_filter)
  ultimately show "lru_ok (c\<lparr>lru_map := hm_del k (lru_map c), lru_order := filter (\<lambda>p. snd p \<noteq> k) (lru_order c)\<rparr>)"
    using ok le_trans [OF length_filter_le, of "lru_order c"] by (auto simp: lru_ok_def)
  show "lru_abs (c\<lparr>lru_map := hm_del k (lru_map c), lru_order := filter (\<lambda>p. snd p \<noteq> k) (lru_order c)\<rparr>)
      = filter (\<lambda>p. fst p \<noteq> k) (lru_abs c)"
    by (auto simp: lru_abs_def filter_map comp_def)
qed

lemma lru_add_key:
  assumes ok: "lru_ok c" and new: "map_of (lru_map c) k = None" and room: "0 < lru_cap c \<longrightarrow> length (lru_order c) < lru_cap c"
    and e: "lru_next c < e"
  shows "lru_ok (c\<lparr>lru_next := e, lru_map := hm_put k (e, v) (lru_map c), lru_order := lru_order c @ [(e, k)]\<rparr>)"
    "lru_abs (c\<lparr>lru_next := e, lru_map := hm_put k (e, v) (lru_map c), lru_order := lru_order c @ [(e, k)]\<rparr>) = lru_abs c @ [(k, v)]"
proof -
  have less: "\<forall>p\<in>set (lru_order c). fst p < e" using ok e by (force simp: lru_ok_def)
  have fresh: "k \<notin> snd ` set (lru_order c)" using ok new by (force simp: lru_ok_def)
  have "(x, y) \<in> set (lru_order c) \<or> x = e \<and> y = k \<longleftrightarrow> (\<exists>w. ((map_of (lru_map c))(k \<mapsto> (e, v))) y = Some (x, w))" for x y
    using ok new by (auto simp: lru_ok_def)
  then show "lru_ok (c\<lparr>lru_next := e, lru_map := hm_put k (e, v) (lru_map c), lru_order := lru_order c @ [(e, k)]\<rparr>)"
    using ok new room less fresh by (auto simp: lru_ok_def sorted_wrt_append)
  show "lru_abs (c\<lparr>lru_next := e, lru_map := hm_put k (e, v) (lru_map c), lru_order := lru_order c @ [(e, k)]\<rparr>) = lru_abs c @ [(k, v)]"
    using fresh by (auto simp: lru_abs_def)
qed

lemma lru_restamp:
  fixes c :: "'v lru" and v :: 'v
  assumes ok: "lru_ok c" and old: "map_of (lru_map c) k = Some (e0, v0)"
  defines "c' \<equiv> c\<lparr>lru_next := lru_next c + 1, lru_map := hm_put k (lru_next c + 1, v) (lru_map c),
      lru_order := order_insert (lru_next c + 1, k) (order_remove (e0, k) (lru_order c))\<rparr>"
  shows "lru_ok c'" "lru_abs c' = filter (\<lambda>p. fst p \<noteq> k) (lru_abs c) @ [(k, v)]"
proof -
  let ?d = "c\<lparr>lru_map := hm_del k (lru_map c), lru_order := filter (\<lambda>p. snd p \<noteq> k) (lru_order c)\<rparr>"
  let ?a = "?d\<lparr>lru_next := lru_next c + 1, lru_map := hm_put k (lru_next c + 1, v) (lru_map ?d), lru_order := lru_order ?d @ [(lru_next c + 1, k)]\<rparr>"
  have "(e0, k) \<in> set (lru_order c)" using ok old by (auto simp: lru_ok_def)
  then have "length (lru_order ?d) < length (lru_order c)" by (auto simp: length_filter_less)
  then have room: "0 < lru_cap ?d \<longrightarrow> length (lru_order ?d) < lru_cap ?d" using ok by (auto simp: lru_ok_def)
  have a: "lru_ok ?a" "lru_abs ?a = filter (\<lambda>p. fst p \<noteq> k) (lru_abs c) @ [(k, v)]"
    using lru_add_key [OF lru_drop_key(1) [OF ok], of k k "lru_next c + 1" v] room lru_drop_key(2) [OF ok, of k] by simp_all
  have "\<forall>q\<in>set (order_remove (e0, k) (lru_order c)). fst q < fst (lru_next c + 1, k)"
    using ok by (auto simp: order_remove_def lru_ok_def less_Suc_eq_le)
  then have o: "lru_order c' = lru_order ?a"
    unfolding c'_def using order_insert_last order_remove_key [OF ok old] by fastforce
  have m: "map_of (lru_map c') = map_of (lru_map ?a)" "hm_wf (lru_map c')" "lru_next c' = lru_next ?a" "lru_cap c' = lru_cap ?a"
    using ok by (simp_all add: c'_def lru_ok_def)
  show "lru_ok c'" using a(1) o m unfolding lru_ok_def by metis
  show "lru_abs c' = filter (\<lambda>p. fst p \<noteq> k) (lru_abs c) @ [(k, v)]" using a(2) o m(1) by (simp add: lru_abs_def)
qed

lemma lru_fresh_put:
  fixes c :: "'v lru" and v :: 'v
  assumes ok: "lru_ok c" and new: "map_of (lru_map c) k = None" and room: "0 < lru_cap c \<longrightarrow> length (lru_order c) < lru_cap c"
    and next': "lru_next c < e"
  defines "c' \<equiv> c\<lparr>lru_next := e, lru_order := order_insert (e, k) (lru_order c), lru_map := hm_put k (e, v) (lru_map c)\<rparr>"
  shows "lru_ok c'" "lru_abs c' = lru_abs c @ [(k, v)]"
proof -
  have "order_insert (e, k) (lru_order c) = lru_order c @ [(e, k)]"
    by (rule order_insert_last) (use ok next' in \<open>force simp: lru_ok_def\<close>)
  then have "c' = c\<lparr>lru_next := e, lru_map := hm_put k (e, v) (lru_map c), lru_order := lru_order c @ [(e, k)]\<rparr>"
    by (cases c) (simp add: c'_def)
  then show "lru_ok c'" "lru_abs c' = lru_abs c @ [(k, v)]" using lru_add_key [OF ok new room next', of v] by simp_all
qed

lemma lru_drop_first:
  assumes ok: "lru_ok c" and o: "lru_order c = p # ps"
  shows "lru_ok (c\<lparr>lru_order := ps, lru_map := hm_del (snd p) (lru_map c)\<rparr>)"
    "lru_abs (c\<lparr>lru_order := ps, lru_map := hm_del (snd p) (lru_map c)\<rparr>) = tl (lru_abs c)"
proof -
  have "snd p \<notin> snd ` set ps" using ok o by (simp add: lru_ok_def)
  then have f: "filter (\<lambda>q. snd q \<noteq> snd p) (lru_order c) = ps" using o by (auto simp: filter_id_conv image_iff)
  have eq: "c\<lparr>lru_order := ps, lru_map := hm_del (snd p) (lru_map c)\<rparr> = c\<lparr>lru_map := hm_del (snd p) (lru_map c), lru_order := ps\<rparr>"
    by (cases c) simp
  show "lru_ok (c\<lparr>lru_order := ps, lru_map := hm_del (snd p) (lru_map c)\<rparr>)" unfolding eq using lru_drop_key(1) [OF ok, of "snd p"] f by simp
  show "lru_abs (c\<lparr>lru_order := ps, lru_map := hm_del (snd p) (lru_map c)\<rparr>) = tl (lru_abs c)"
    using \<open>snd p \<notin> snd ` set ps\<close> o by (auto simp: lru_abs_def image_iff)
qed

subsection \<open>Refinement\<close>

datatype 'v lru_op = Get string | Put string 'v | Invalidate string

fun lru_exec :: "'v lru_op \<Rightarrow> 'v lru \<Rightarrow> 'v lru" where
  "lru_exec (Get k) c = snd (lru_get k c)"
| "lru_exec (Put k v) c = lru_put k v c"
| "lru_exec (Invalidate k) c = lru_invalidate k c"

fun recent_exec :: "nat \<Rightarrow> 'v lru_op \<Rightarrow> (string \<times> 'v) list \<Rightarrow> (string \<times> 'v) list" where
  "recent_exec cap (Get k) q = (case map_of q k of None \<Rightarrow> q | Some v \<Rightarrow> filter (\<lambda>p. fst p \<noteq> k) q @ [(k, v)])"
| "recent_exec cap (Put k v) q =
     (if map_of q k \<noteq> None then filter (\<lambda>p. fst p \<noteq> k) q
      else if 0 < cap \<and> length q = cap then tl q else q) @ [(k, v)]"
| "recent_exec cap (Invalidate k) q = filter (\<lambda>p. fst p \<noteq> k) q"

lemma lru_get_refines:
  assumes "lru_ok c"
  shows "fst (lru_get k c) = map_of (lru_abs c) k" "lru_ok (snd (lru_get k c))"
    "lru_abs (snd (lru_get k c)) = recent_exec cap (Get k) (lru_abs c)" "lru_cap (snd (lru_get k c)) = lru_cap c"
  using assms lru_restamp [OF assms] by (auto simp: lru_get_def map_of_lru_abs Let_def split: option.split prod.split)

lemma lru_put_refines:
  assumes ok: "lru_ok c"
  shows "lru_ok (lru_put k v c)" "lru_abs (lru_put k v c) = recent_exec (lru_cap c) (Put k v) (lru_abs c)"
    "lru_cap (lru_put k v c) = lru_cap c"
proof -
  have len: "length (lru_abs c) = length (lru_map c)" using lru_length [OF ok] by (simp add: lru_abs_def)
  have "lru_ok (lru_put k v c) \<and> lru_abs (lru_put k v c) = recent_exec (lru_cap c) (Put k v) (lru_abs c) \<and> lru_cap (lru_put k v c) = lru_cap c"
  proof (cases "map_of (lru_map c) k")
    case (Some p)
    then obtain e0 v0 where p: "map_of (lru_map c) k = Some (e0, v0)" by (cases p) simp
    then have "lru_put k v c = c\<lparr>lru_next := lru_next c + 1, lru_map := hm_put k (lru_next c + 1, v) (lru_map c),
      lru_order := order_insert (lru_next c + 1, k) (order_remove (e0, k) (lru_order c))\<rparr>" by (simp add: lru_put_def)
    then show ?thesis using lru_restamp [OF ok p, of v] p by (simp add: map_of_lru_abs [OF ok])
  next
    case None
    note put = lru_put_def [of k v c] None
    show ?thesis
    proof (cases "lru_cap c > 0 \<and> length (lru_map c) \<ge> lru_cap c")
      case full: True
      then obtain q qs where q: "lru_order c = q # qs" using lru_length [OF ok] by (cases "lru_order c") auto
      let ?d = "c\<lparr>lru_order := qs, lru_map := hm_del (snd q) (lru_map c)\<rparr>"
      note d = lru_drop_first [OF ok q]
      have cap: "length (lru_map c) = lru_cap c" using full ok lru_length [OF ok] by (auto simp: lru_ok_def)
      then have room: "0 < lru_cap ?d \<longrightarrow> length (lru_order ?d) < lru_cap ?d" using q full lru_length [OF ok] by auto
      have n: "map_of (lru_map ?d) k = None" using None by simp
      have "lru_put k v c = ?d\<lparr>lru_next := lru_next c + 1, lru_order := order_insert (lru_next c + 1, k) (lru_order ?d),
          lru_map := hm_put k (lru_next c + 1, v) (lru_map ?d)\<rparr>" using put q full by (cases c) (simp add: Let_def)
      then show ?thesis using lru_fresh_put [OF d(1) n room, of "lru_next c + 1" v] d(2) None full cap len
        by (simp add: map_of_lru_abs [OF ok])
    next
      case False
      then have room: "0 < lru_cap c \<longrightarrow> length (lru_order c) < lru_cap c" using lru_length [OF ok] by auto
      have "lru_put k v c = c\<lparr>lru_next := lru_next c + 1, lru_order := order_insert (lru_next c + 1, k) (lru_order c),
          lru_map := hm_put k (lru_next c + 1, v) (lru_map c)\<rparr>" using put False by (auto simp: Let_def)
      then show ?thesis using lru_fresh_put [OF ok None room, of "lru_next c + 1" v] None False len
        by (auto simp: map_of_lru_abs [OF ok])
    qed
  qed
  then show "lru_ok (lru_put k v c)" "lru_abs (lru_put k v c) = recent_exec (lru_cap c) (Put k v) (lru_abs c)"
    "lru_cap (lru_put k v c) = lru_cap c" by simp_all
qed

lemma lru_invalidate_refines:
  assumes ok: "lru_ok c"
  shows "lru_ok (lru_invalidate k c)" "lru_abs (lru_invalidate k c) = filter (\<lambda>p. fst p \<noteq> k) (lru_abs c)"
    "lru_cap (lru_invalidate k c) = lru_cap c"
proof -
  have "filter (\<lambda>p. fst p \<noteq> k) (lru_abs c) = lru_abs c" if "map_of (lru_map c) k = None"
  proof -
    have "map_of (lru_abs c) k = None" using that map_of_lru_abs [OF ok, of k] by simp
    then have "k \<notin> fst ` set (lru_abs c)" unfolding map_of_eq_None_iff .
    then show ?thesis by (auto simp: filter_id_conv image_iff)
  qed
  then show "lru_ok (lru_invalidate k c)" "lru_abs (lru_invalidate k c) = filter (\<lambda>p. fst p \<noteq> k) (lru_abs c)"
    "lru_cap (lru_invalidate k c) = lru_cap c"
    using ok lru_drop_key [OF ok, of k] order_remove_key [OF ok, of k]
    by (auto simp: lru_invalidate_def split: option.split)
qed

lemma lru_exec_refines:
  assumes "lru_ok c"
  shows "lru_ok (lru_exec opn c) \<and> lru_cap (lru_exec opn c) = lru_cap c
    \<and> lru_abs (lru_exec opn c) = recent_exec (lru_cap c) opn (lru_abs c)"
proof (cases opn)
  case (Get k)
  then show ?thesis using lru_get_refines [OF assms] by simp
next
  case (Put k v)
  then show ?thesis using lru_put_refines [OF assms, of k v] by simp
next
  case (Invalidate k)
  then show ?thesis using lru_invalidate_refines [OF assms, of k] by simp
qed

lemma lru_new_ok [simp]: "lru_ok (lru_new cap)" "lru_abs (lru_new cap) = []" "lru_cap (lru_new cap) = cap"
  by (simp_all add: lru_ok_def lru_new_def lru_abs_def)

text \<open>The values of the entries change under the cache, which holds references to them.\<close>

definition lru_written :: "(string \<Rightarrow> 'v \<Rightarrow> 'v) \<Rightarrow> 'v lru \<Rightarrow> 'v lru" where
  "lru_written w c = c\<lparr>lru_map := map (\<lambda>(k, e, v). (k, e, w k v)) (lru_map c)\<rparr>"

lemma map_of_lru_written: "map_of (lru_map (lru_written w c)) k = map_option (\<lambda>(e, v). (e, w k v)) (map_of (lru_map c) k)"
proof -
  have "map_of (map (\<lambda>(k, e, v). (k, e, w k v)) m) k = map_option (\<lambda>(e, v). (e, w k v)) (map_of m k)" for m :: "(string, nat \<times> 'a) hmap"
    by (induction m) auto
  then show ?thesis by (simp add: lru_written_def)
qed

lemma lru_written_ok: "lru_ok c \<Longrightarrow> lru_ok (lru_written w c)" "lru_cap (lru_written w c) = lru_cap c"
proof -
  have keys: "map fst (lru_map (lru_written w c)) = map fst (lru_map c)" by (simp add: lru_written_def case_prod_beta comp_def)
  have frame: "lru_order (lru_written w c) = lru_order c" "lru_next (lru_written w c) = lru_next c" "lru_cap (lru_written w c) = lru_cap c"
    by (simp_all add: lru_written_def)
  then show "lru_cap (lru_written w c) = lru_cap c" by simp
  assume "lru_ok c"
  then show "lru_ok (lru_written w c)" by (simp add: lru_ok_def frame hm_wf_def keys map_of_lru_written)
qed

text \<open>C36. The cache refines the list of its entries in order of last use: after any operations its entries are those of the list
  with the same operations, a look-up answers what the list holds, and with a positive capacity there are at most that many.
\<close>

theorem lru_refines:
  "let c = fold lru_exec ops (lru_new cap); q = fold (recent_exec cap) ops [] in
     lru_abs c = q \<and> fst (lru_get k c) = map_of q k \<and> (0 < cap \<longrightarrow> length (lru_map c) \<le> cap)"
proof -
  define c where "c = fold lru_exec ops (lru_new cap :: 'a lru)"
  have "lru_ok c \<and> lru_cap c = cap \<and> lru_abs c = fold (recent_exec cap) ops []"
    unfolding c_def
  proof (induction ops rule: rev_induct)
    case (snoc opn ops)
    let ?c = "fold lru_exec ops (lru_new cap :: 'a lru)"
    show ?case using lru_exec_refines [of ?c opn] snoc by simp
  qed simp
  then show ?thesis using lru_get_refines(1) [of c k] lru_length [of c]
    by (auto simp: c_def [symmetric] Let_def lru_ok_def)
qed

theorem lru_refines_witness:
  "let c = fold lru_exec [Put ''a'' (1::nat), Put ''b'' 2, Get ''a'', Put ''c'' 3] (lru_new 2) in lru_abs c = [(''a'', 1), (''c'', 3)]"
  using lru_refines [of "[Put ''a'' (1::nat), Put ''b'' 2, Get ''a'', Put ''c'' 3]" 2 "''a''"] by (simp add: Let_def)

end
