(* ===== verification/Cas.thy ===== *)
theory Cas
  imports Chunking Lru
begin

section \<open>The content-addressed chunk store (src/media-core/src/cas.rs)\<close>

text \<open>
  Chunks are files named after their BLAKE3 digest, manifests are JSON files next to them. The directory below the root is
  an association list from paths to contents and modification times; its order stands for that of directory listings. A file
  that cannot be read counts as missing; how a write ends is the argument \<open>write_io\<close>. A cached mapping is
  what the mapped file holds now: a file that is renamed over or removed keeps its mapping, one that is written in place shows
  through it (\<open>step_in_place\<close>), as a mapping is not hashed again; the
  hashing of a mapping in \<open>get_mmap\<close> and the copy in \<open>get\<close> are one step. \<open>blob_slice\<close> resolves its chunks in manifest order (in the code
  four or more in parallel; only the order of the cache updates depends on it). The theorems say that whatever happens to the
  files, \<open>get\<close> returns only bytes with the right digest, and so do the mappings and ranges as long as no file is written in place, that
  a stored blob is served completely, that the quota is kept, and what
  remains after a clear.
\<close>

subsection \<open>State\<close>

record cas_file =
  cf_data :: "byte list"
  cf_mtime :: nat

type_synonym cas_files = "(string list, cas_file) hmap"

type_synonym chunk_index = "(string, (string \<times> nat) list) hmap"

record cas_env =
  ce_b3 :: digest
  ce_to_json :: "chunk_manifest \<Rightarrow> string"
  ce_from_json :: "string \<Rightarrow> chunk_manifest option"

record chunk_store =
  st_files :: cas_files
  st_index :: "chunk_index option"
  st_verified :: "(string, nat \<times> nat option) hmap"
  st_manifests :: "chunk_manifest lru"
  st_mmaps :: "byte list lru"

definition cas_new :: "cas_files \<Rightarrow> chunk_store" where
  "cas_new files = \<lparr>st_files = files, st_index = None, st_verified = [], st_manifests = lru_new 64, st_mmaps = lru_new 64\<rparr>"

definition is_valid_hash :: "string \<Rightarrow> bool" where
  "is_valid_hash h \<longleftrightarrow> length h = 64 \<and> list_all is_ascii_hexdigit (bytes_of h)"

subsection \<open>Paths\<close>

definition is_ascii_alnum :: "char \<Rightarrow> bool" where
  "is_ascii_alnum c \<longleftrightarrow> (let n = (of_char c :: nat) in 48 \<le> n \<and> n \<le> 57 \<or> 65 \<le> n \<and> n \<le> 90 \<or> 97 \<le> n \<and> n \<le> 122)"

definition chunk_path :: "string \<Rightarrow> string list" where
  "chunk_path hash =
     (if \<not> is_valid_hash hash
      then let safe = (if length hash \<ge> 2 then filter is_ascii_alnum hash else ''invalid'');
               pre = (if length safe \<ge> 2 then take 2 safe else ''00'')
           in [''invalid'', pre, safe @ ''.chunk'']
      else let h = to_ascii_lowercase hash in [take 2 h, drop 2 h @ ''.chunk''])"

definition manifest_path :: "string \<Rightarrow> string list" where
  "manifest_path h = (if \<not> is_valid_hash h then [''invalid_manifests'', filter is_ascii_alnum h @ ''.json'']
     else [''manifests'', h @ ''.json''])"

subsection \<open>Writing files\<close>

text \<open>A temporary name is \<open>path.with_extension("tmp")\<close>, or the path with the first free number appended.\<close>

definition tmp_name :: "string \<Rightarrow> string \<Rightarrow> string \<Rightarrow> nat \<Rightarrow> string list" where
  "tmp_name dir stem ext n = [dir, if n = 0 then stem @ ''.tmp'' else stem @ ext @ ''.'' @ show_nat n]"

definition first_free :: "(nat \<Rightarrow> string list) \<Rightarrow> cas_files \<Rightarrow> nat" where
  "first_free name files = (case filter (\<lambda>n. \<not> hm_has (name n) files) [0..<Suc (length files)] of n # _ \<Rightarrow> n | [] \<Rightarrow> 0)"

datatype write_io = Io_ok | Io_no_dir | Io_failed "byte list option"

text \<open>Create, write and rename. A failure leaves at most a part of the data in the temporary file.\<close>

definition write_via_tmp :: "write_io \<Rightarrow> nat \<Rightarrow> (nat \<Rightarrow> string list) \<Rightarrow> string list \<Rightarrow> byte list \<Rightarrow> cas_files \<Rightarrow> bool \<times> cas_files" where
  "write_via_tmp io now name path data files =
     (let tmp = name (first_free name files) in
      case io of
        Io_no_dir \<Rightarrow> (False, files)
      | Io_failed None \<Rightarrow> (False, files)
      | Io_failed (Some d) \<Rightarrow> (False, hm_put tmp \<lparr>cf_data = d, cf_mtime = now\<rparr> files)
      | Io_ok \<Rightarrow> (True, hm_put path \<lparr>cf_data = data, cf_mtime = now\<rparr> (hm_del tmp (hm_put tmp \<lparr>cf_data = data, cf_mtime = now\<rparr> files))))"

definition put_trusted :: "write_io \<Rightarrow> nat \<Rightarrow> string \<Rightarrow> byte list \<Rightarrow> chunk_store \<Rightarrow> bool \<times> chunk_store" where
  "put_trusted io now hash data s =
     (if \<not> is_valid_hash hash then (False, s)
      else if hm_has (chunk_path hash) (st_files s) then (False, s)
      else let h = to_ascii_lowercase hash in
        case write_via_tmp io now (tmp_name (take 2 h) (drop 2 h) ''.chunk'') (chunk_path hash) data (st_files s) of
          (b, files) \<Rightarrow> (b, s\<lparr>st_files := files\<rparr>))"

definition cas_put :: "cas_env \<Rightarrow> write_io \<Rightarrow> nat \<Rightarrow> byte list \<Rightarrow> chunk_store \<Rightarrow> bool \<times> chunk_store" where
  "cas_put E io now data s = put_trusted io now (ce_b3 E data) data s"

definition put_verified :: "cas_env \<Rightarrow> write_io \<Rightarrow> nat \<Rightarrow> string \<Rightarrow> byte list \<Rightarrow> chunk_store \<Rightarrow> bool \<times> chunk_store" where
  "put_verified E io now expected data s =
     (if length expected \<noteq> 64 \<or> \<not> eq_ignore_ascii_case expected (ce_b3 E data) then (False, s)
      else put_trusted io now expected data s)"

text \<open>\<open>store_reader\<close>: the writer ignores the result of \<open>put_trusted\<close>; the outcomes of its writes are a list.\<close>

definition store_write :: "nat \<Rightarrow> chunk_ref \<Rightarrow> byte list \<Rightarrow> write_io list \<times> chunk_store \<Rightarrow> unit res \<times> write_io list \<times> chunk_store" where
  "store_write now c d = (\<lambda>(ios, s). (Ok (), tl ios, snd (put_trusted (case ios of io # _ \<Rightarrow> io | [] \<Rightarrow> Io_ok) now (cr_blake3 c) d s)))"

definition store_reader :: "cas_env \<Rightarrow> 'r cdc \<Rightarrow> write_io list \<Rightarrow> nat \<Rightarrow> 'r \<Rightarrow> chunk_store \<Rightarrow> chunk_manifest res \<times> chunk_store" where
  "store_reader E cdc ios now reader s =
     (case store_reader_with_data (ce_b3 E) cdc (store_write now) reader (ios, s) of (r, _, s') \<Rightarrow> (r, s'))"

definition store_file :: "cas_env \<Rightarrow> 'r cdc \<Rightarrow> write_io list \<Rightarrow> nat \<Rightarrow> 'r res \<Rightarrow> chunk_store \<Rightarrow> chunk_manifest res \<times> chunk_store" where
  "store_file E cdc ios now opened s = (case opened of
       Ok reader \<Rightarrow> store_reader E cdc ios now reader s
     | Err e \<Rightarrow> (Err e, s)
     | Panic \<Rightarrow> (Panic, s))"

subsection \<open>Reading chunks\<close>

definition cas_contains :: "string \<Rightarrow> chunk_store \<Rightarrow> bool" where
  "cas_contains hash s \<longleftrightarrow> is_valid_hash hash \<and> hm_has (chunk_path hash) (st_files s)"

definition mark_verified :: "string \<Rightarrow> nat \<Rightarrow> nat option \<Rightarrow> chunk_store \<Rightarrow> chunk_store" where
  "mark_verified hash sz mtime s =
     (let v = st_verified s;
          v = (if \<not> hm_has hash v \<and> length v \<ge> 256 then (case v of [] \<Rightarrow> v | p # _ \<Rightarrow> hm_del (fst p) v) else v)
      in s\<lparr>st_verified := hm_put hash (sz, mtime) v\<rparr>)"

definition get_mmap :: "cas_env \<Rightarrow> string \<Rightarrow> chunk_store \<Rightarrow> byte list option \<times> chunk_store" where
  "get_mmap E hash s =
     (if \<not> is_valid_hash hash then (None, s)
      else case map_of (st_files s) (chunk_path hash) of
        None \<Rightarrow> (None, s)
      | Some f \<Rightarrow>
          if cf_data f = [] then (None, s)
          else if \<not> eq_ignore_ascii_case (ce_b3 E (cf_data f)) hash then (None, s)
          else (Some (cf_data f), mark_verified hash (length (cf_data f)) (Some (cf_mtime f)) s))"

definition cas_get :: "cas_env \<Rightarrow> string \<Rightarrow> chunk_store \<Rightarrow> byte list option \<times> chunk_store" where
  "cas_get E hash s =
     (if \<not> is_valid_hash hash then (None, s)
      else case map_of (st_files s) (chunk_path hash) of
        None \<Rightarrow> (None, s)
      | Some f \<Rightarrow>
          if cf_data f = [] then (if ce_b3 E [] = hash then Some [] else None, s)
          else get_mmap E hash s)"

definition get_mmap_cached :: "cas_env \<Rightarrow> string \<Rightarrow> chunk_store \<Rightarrow> byte list option \<times> chunk_store" where
  "get_mmap_cached E hash s =
     (if length hash \<noteq> 64 then (None, s)
      else case lru_get hash (st_mmaps s) of
        (Some m, c) \<Rightarrow> (Some m, s\<lparr>st_mmaps := c\<rparr>)
      | (None, c) \<Rightarrow>
          (case get_mmap E hash (s\<lparr>st_mmaps := c\<rparr>) of
             (None, s) \<Rightarrow> (None, s)
           | (Some m, s) \<Rightarrow> (Some m, s\<lparr>st_mmaps := lru_put hash m (st_mmaps s)\<rparr>)))"

definition write_chunk_to :: "cas_env \<Rightarrow> chunk_ref \<Rightarrow> (byte list \<Rightarrow> 'w \<Rightarrow> unit res \<times> 'w) \<Rightarrow> 'w \<Rightarrow> chunk_store
    \<Rightarrow> unit res \<times> 'w \<times> chunk_store" where
  "write_chunk_to E c write w s = (case get_mmap_cached E (cr_blake3 c) s of
       (Some d, s) \<Rightarrow> (case write d w of
          (Err e, w) \<Rightarrow> (Err (''chunk write: '' @ e), w, s)
        | (r, w) \<Rightarrow> (r, w, s))
     | (None, s) \<Rightarrow> (Err (''chunk '' @ cr_blake3 c @ '' missing''), w, s))"

subsection \<open>Size and quota\<close>

definition walk_store :: "chunk_store \<Rightarrow> (string list \<times> nat \<times> nat) list" where
  "walk_store s = map (\<lambda>(p, f). (p, length (cf_data f), cf_mtime f)) (filter (\<lambda>(p, f). length p \<le> 2) (st_files s))"

definition total_bytes :: "chunk_store \<Rightarrow> nat" where
  "total_bytes s = (\<Sum>(p, sz, t)\<leftarrow>walk_store s. sz)"

text \<open>\<open>ChunkIndex\<close>\<close>

definition index_ingest :: "chunk_manifest \<Rightarrow> chunk_index \<Rightarrow> chunk_index" where
  "index_ingest m idx = fold (\<lambda>c idx.
     hm_put (cr_blake3 c) ((case map_of idx (cr_blake3 c) of None \<Rightarrow> [] | Some l \<Rightarrow> l) @ [(cm_blob_hash m, cr_offset c)]) idx)
     (cm_chunks m) idx"

definition has_json_ext :: "string \<Rightarrow> bool" where
  "has_json_ext name \<longleftrightarrow> length name > 5 \<and> drop (length name - 5) name = ''.json''"

definition read_manifest :: "cas_env \<Rightarrow> cas_file \<Rightarrow> chunk_manifest option" where
  "read_manifest E f = (case from_utf8 (cf_data f) of None \<Rightarrow> None | Some raw \<Rightarrow> ce_from_json E raw)"

definition index_build :: "cas_env \<Rightarrow> cas_files \<Rightarrow> chunk_index" where
  "index_build E files = fold (\<lambda>(p, f) idx.
     case p of
       [dir, name] \<Rightarrow>
         if dir = ''manifests'' \<and> has_json_ext name
         then (case read_manifest E f of
                 None \<Rightarrow> idx
               | Some m \<Rightarrow> if manifest_valid m then index_ingest m idx else idx)
         else idx
     | _ \<Rightarrow> idx) files []"

definition cas_index :: "cas_env \<Rightarrow> chunk_store \<Rightarrow> chunk_index \<times> chunk_store" where
  "cas_index E s = (case st_index s of
       Some idx \<Rightarrow> (idx, s)
     | None \<Rightarrow> let idx = index_build E (st_files s) in (idx, s\<lparr>st_index := Some idx\<rparr>))"

definition refresh_index :: "cas_env \<Rightarrow> chunk_store \<Rightarrow> chunk_store" where
  "refresh_index E s = s\<lparr>st_index := Some (index_build E (st_files s))\<rparr>"

text \<open>The loop of \<open>enforce_cache_quota\<close>; \<open>removable\<close> says which files the system lets it remove.\<close>

fun quota_loop :: "(string list \<Rightarrow> bool) \<Rightarrow> nat \<Rightarrow> (string list \<times> nat \<times> nat) list \<Rightarrow> nat \<Rightarrow> nat \<Rightarrow> cas_files \<Rightarrow> nat \<times> cas_files" where
  "quota_loop removable max_bytes [] remaining reclaimed files = (reclaimed, files)"
| "quota_loop removable max_bytes ((path, sz, t) # rest) remaining reclaimed files =
     (if remaining \<le> max_bytes then (reclaimed, files)
      else if removable path then quota_loop removable max_bytes rest (remaining - sz) (reclaimed + sz) (hm_del path files)
      else quota_loop removable max_bytes rest remaining reclaimed files)"

definition enforce_cache_quota :: "cas_env \<Rightarrow> (string list \<Rightarrow> bool) \<Rightarrow> nat \<Rightarrow> chunk_store \<Rightarrow> nat \<times> chunk_store" where
  "enforce_cache_quota E removable max_bytes s =
     (let files = walk_store s; current = (\<Sum>(p, sz, t)\<leftarrow>files. sz) in
      if current \<le> max_bytes then (0, s)
      else case quota_loop removable max_bytes (sort_key (\<lambda>(p, sz, t). t) files) current 0 (st_files s) of
        (reclaimed, fs) \<Rightarrow>
          let s = s\<lparr>st_files := fs\<rparr> in (reclaimed, if reclaimed > 0 then refresh_index E s else s))"

text \<open>\<open>clear\<close>; \<open>stays\<close> says which files could not be removed. The map of the mapped chunks is not touched.\<close>

definition cas_clear :: "(string list \<Rightarrow> bool) \<Rightarrow> chunk_store \<Rightarrow> chunk_store" where
  "cas_clear stays s = s\<lparr>st_files := hm_retain (\<lambda>p f. stays p) (st_files s), st_index := None, st_verified := [],
     st_manifests := (st_manifests s)\<lparr>lru_map := [], lru_order := []\<rparr>\<rparr>"

subsection \<open>Manifests\<close>

text \<open>Messages of system errors are left out of the error texts.\<close>

definition save_manifest :: "cas_env \<Rightarrow> write_io \<Rightarrow> nat \<Rightarrow> chunk_manifest \<Rightarrow> chunk_store \<Rightarrow> unit res \<times> chunk_store" where
  "save_manifest E io now m s =
     (if \<not> is_valid_hash (cm_blob_hash m) \<or> \<not> manifest_valid m then (Err ''invalid manifest or blob_hash'', s)
      else if io = Io_no_dir then (Err ''manifest dir'', s)
      else
        let s = s\<lparr>st_manifests := lru_invalidate (cm_blob_hash m) (st_manifests s)\<rparr> in
        case write_via_tmp io now (tmp_name ''manifests'' (cm_blob_hash m) ''.json'') (manifest_path (cm_blob_hash m))
               (bytes_of (ce_to_json E m)) (st_files s) of
          (False, files) \<Rightarrow> (Err ''manifest write'', s\<lparr>st_files := files\<rparr>)
        | (True, files) \<Rightarrow>
            let idx = (case st_index s of Some idx \<Rightarrow> idx | None \<Rightarrow> index_build E files) in
            (Ok (), s\<lparr>st_files := files, st_index := Some (index_ingest m idx)\<rparr>))"

definition load_manifest :: "cas_env \<Rightarrow> string \<Rightarrow> chunk_store \<Rightarrow> chunk_manifest option \<times> chunk_store" where
  "load_manifest E h s =
     (if \<not> is_valid_hash h then (None, s)
      else case lru_get h (st_manifests s) of
        (Some m, c) \<Rightarrow> (Some m, s\<lparr>st_manifests := c\<rparr>)
      | (None, c) \<Rightarrow>
          (let s = s\<lparr>st_manifests := c\<rparr> in
           case map_of (st_files s) (manifest_path h) of
             None \<Rightarrow> (None, s)
           | Some f \<Rightarrow>
               (case read_manifest E f of
                  None \<Rightarrow> (None, s)
                | Some m \<Rightarrow> if cm_blob_hash m = h \<and> manifest_valid m
                            then (Some m, s\<lparr>st_manifests := lru_put h m (st_manifests s)\<rparr>)
                            else (None, s))))"

fun first_manifest :: "cas_env \<Rightarrow> (string \<times> nat) list \<Rightarrow> chunk_store \<Rightarrow> chunk_manifest option \<times> chunk_store" where
  "first_manifest E [] s = (None, s)"
| "first_manifest E ((h, off) # rest) s =
     (case load_manifest E h s of (Some m, s) \<Rightarrow> (Some m, s) | (None, s) \<Rightarrow> first_manifest E rest s)"

definition find_manifest_containing_chunk :: "cas_env \<Rightarrow> string \<Rightarrow> chunk_store \<Rightarrow> chunk_manifest option \<times> chunk_store" where
  "find_manifest_containing_chunk E hash s =
     (if length hash \<noteq> 64 then (None, s)
      else case cas_index E s of (idx, s) \<Rightarrow>
        (case map_of idx hash of None \<Rightarrow> (None, s) | Some cands \<Rightarrow> first_manifest E cands s))"

subsection \<open>Ranges of a blob\<close>

text \<open>The sums of \<open>usize\<close> do not overflow for a valid manifest of a blob below \<open>2^64 - 1\<close> bytes.\<close>

definition blob_range_mapped :: "cas_env \<Rightarrow> chunk_manifest \<Rightarrow> nat \<Rightarrow> nat \<Rightarrow> chunk_store \<Rightarrow> (byte list \<times> nat \<times> nat) option \<times> chunk_store" where
  "blob_range_mapped E m offset len s =
     (if \<not> manifest_valid m \<or> len = 0 then (None, s)
      else if offset + len > U64_MAX then (None, s)
      else let fin = offset + len in
        if fin > cm_total_size m then (None, s)
        else case find (\<lambda>c. cr_offset c \<le> offset \<and> fin \<le> cr_offset c + cr_len c) (cm_chunks m) of
          None \<Rightarrow> (None, s)
        | Some c \<Rightarrow>
            (case get_mmap_cached E (cr_blake3 c) s of
               (None, s) \<Rightarrow> (None, s)
             | (Some d, s) \<Rightarrow>
                 let til = min (fin - cr_offset c) (length d); from = offset - cr_offset c in
                 (if from > til then None else Some (d, from, til), s)))"

definition resolve_window :: "cas_env \<Rightarrow> nat \<Rightarrow> nat \<Rightarrow> chunk_ref \<Rightarrow> chunk_store \<Rightarrow> (byte list \<times> nat \<times> nat) option \<times> chunk_store" where
  "resolve_window E offset fin c s = (case get_mmap_cached E (cr_blake3 c) s of
       (None, s) \<Rightarrow> (None, s)
     | (Some d, s) \<Rightarrow>
         (if cr_offset c + cr_len c \<le> offset \<or> cr_offset c \<ge> fin then Some (d, 0, 0)
          else let from = offset - cr_offset c; til = min (fin - cr_offset c) (length d) in
            if from > til then None else Some (d, from, til), s))"

fun resolve_windows :: "cas_env \<Rightarrow> nat \<Rightarrow> nat \<Rightarrow> chunk_ref list \<Rightarrow> chunk_store \<Rightarrow> (byte list \<times> nat \<times> nat) option list \<times> chunk_store" where
  "resolve_windows E offset fin [] s = ([], s)"
| "resolve_windows E offset fin (c # cs) s =
     (case resolve_window E offset fin c s of (w, s) \<Rightarrow>
      case resolve_windows E offset fin cs s of (ws, s) \<Rightarrow> (w # ws, s))"

definition window_bytes :: "byte list \<times> nat \<times> nat \<Rightarrow> byte list" where
  "window_bytes w = (case w of (d, from, til) \<Rightarrow> take (til - from) (drop from d))"

definition overlapping :: "nat \<Rightarrow> nat \<Rightarrow> chunk_ref list \<Rightarrow> chunk_ref list" where
  "overlapping offset fin cs = filter (\<lambda>c. cr_offset c + cr_len c > offset) (takeWhile (\<lambda>c. cr_offset c < fin) cs)"

definition blob_slice :: "cas_env \<Rightarrow> chunk_manifest \<Rightarrow> nat \<Rightarrow> nat \<Rightarrow> chunk_store \<Rightarrow> byte list option \<times> chunk_store" where
  "blob_slice E m offset len s =
     (if \<not> manifest_valid m \<or> len = 0 then (None, s)
      else if offset + len > U64_MAX then (None, s)
      else let fin = offset + len in
        if fin > cm_total_size m then (None, s)
        else let cs = overlapping offset fin (cm_chunks m) in
          if cs = [] then (None, s)
          else case resolve_windows E offset fin cs s of (ws, s) \<Rightarrow>
            (case those ws of
               None \<Rightarrow> (None, s)
             | Some ws \<Rightarrow>
                 if (\<Sum>(d, from, til)\<leftarrow>ws. til - from) \<noteq> len then (None, s)
                 else (Some (concat (map window_bytes ws)), s)))"

fun manifest_bytes_loop :: "cas_env \<Rightarrow> chunk_ref list \<Rightarrow> byte list \<Rightarrow> chunk_store \<Rightarrow> byte list \<times> chunk_store" where
  "manifest_bytes_loop E [] out s = (out, s)"
| "manifest_bytes_loop E (c # cs) out s =
     (case get_mmap_cached E (cr_blake3 c) s of
        (Some d, s) \<Rightarrow> manifest_bytes_loop E cs (out @ d) s
      | (None, s) \<Rightarrow> manifest_bytes_loop E cs out s)"

definition manifest_bytes :: "cas_env \<Rightarrow> chunk_manifest \<Rightarrow> chunk_store \<Rightarrow> byte list \<times> chunk_store" where
  "manifest_bytes E m s = manifest_bytes_loop E (cm_chunks m) [] s"

subsection \<open>Segments of a blob\<close>

lemma window_seg:
  assumes "cr_offset c + cr_len c \<le> length data" "cr_offset c < fin" "offset < cr_offset c + cr_len c"
  shows "window_bytes (part data c, offset - cr_offset c, min (fin - cr_offset c) (length (part data c)))
    = seg data (max offset (cr_offset c)) (min fin (cr_offset c + cr_len c))"
proof -
  have len: "length (part data c) = cr_len c" using assms(1) by (simp add: part_def)
  have "max offset (cr_offset c) = offset - cr_offset c + cr_offset c"
    "min fin (cr_offset c + cr_len c) - max offset (cr_offset c) = min (fin - cr_offset c) (cr_len c) - (offset - cr_offset c)"
    using assms by (auto simp: max_def min_def)
  moreover have "min (min (fin - cr_offset c) (cr_len c) - (offset - cr_offset c)) (cr_len c - (offset - cr_offset c))
    = min (fin - cr_offset c) (cr_len c) - (offset - cr_offset c)" by auto
  ultimately show ?thesis by (simp add: len window_bytes_def seg_def) (simp add: part_def drop_take ac_simps)
qed

lemma overlapping_segs:
  "refs_tile n cs \<Longrightarrow> n + refs_len cs \<le> length data \<Longrightarrow>
     concat (map (\<lambda>c. seg data (max offset (cr_offset c)) (min fin (cr_offset c + cr_len c))) (overlapping offset fin cs))
       = seg data (max offset n) (min fin (n + refs_len cs))"
proof (induction cs arbitrary: n)
  case (Cons c cs)
  let ?k = "n + cr_len c"
  have IH: "concat (map (\<lambda>c. seg data (max offset (cr_offset c)) (min fin (cr_offset c + cr_len c))) (overlapping offset fin cs))
      = seg data (max offset ?k) (min fin (?k + refs_len cs))" using Cons.IH [of ?k] Cons.prems by simp
  have off: "cr_offset c = n" using Cons.prems by simp
  show ?case
  proof (cases "n < fin")
    case False
    then show ?thesis using off by (simp add: overlapping_def)
  next
    case in': True
    show ?thesis
    proof (cases "offset < ?k")
      case False
      then have "max offset n = max offset ?k" by simp
      then show ?thesis using IH off in' False by (simp add: overlapping_def add.assoc)
    next
      case True
      have "overlapping offset fin (c # cs) = c # overlapping offset fin cs" using off in' True by (simp add: overlapping_def)
      moreover have "seg data (max offset n) (min fin ?k) @ seg data (max offset ?k) (min fin (?k + refs_len cs))
          = seg data (max offset n) (min fin (?k + refs_len cs))"
      proof (cases "fin \<le> ?k")
        case True
        then show ?thesis by simp
      next
        case False
        have "max offset ?k = ?k" using True by simp
        moreover have "max offset n \<le> ?k" using True by simp
        ultimately show ?thesis using False seg_append [of "max offset n" ?k "min fin (?k + refs_len cs)" data] by (simp add: min_def)
      qed
      ultimately show ?thesis using IH off by (simp add: add.assoc)
    qed
  qed
qed (simp add: overlapping_def min_def max_def)

subsection \<open>What the caches hold\<close>

text \<open>\<open>kept\<close> says that no mapped file has been written in place: then the mappings still hold the bytes that were hashed.\<close>

definition cas_inv :: "bool \<Rightarrow> cas_env \<Rightarrow> chunk_store \<Rightarrow> bool" where
  "cas_inv kept E s \<longleftrightarrow> lru_ok (st_mmaps s) \<and> lru_ok (st_manifests s) \<and> lru_cap (st_mmaps s) = 64 \<and> lru_cap (st_manifests s) = 64
     \<and> (kept \<longrightarrow> (\<forall>(k, d)\<in>set (lru_abs (st_mmaps s)). eq_ignore_ascii_case (ce_b3 E d) k))
     \<and> (\<forall>(h, m)\<in>set (lru_abs (st_manifests s)). cm_blob_hash m = h \<and> manifest_valid m)
     \<and> length (st_verified s) \<le> 256"

lemma cas_inv_new: "cas_inv kept E (cas_new files)"
  by (simp add: cas_inv_def cas_new_def)

lemma cas_inv_files [simp]: "cas_inv kept E (s\<lparr>st_files := fs\<rparr>) = cas_inv kept E s" "cas_inv kept E (s\<lparr>st_index := i\<rparr>) = cas_inv kept E s"
  by (simp_all add: cas_inv_def)

lemma recent_set: "set (recent_exec cap opn q) \<subseteq> set q \<union> (case opn of Put k v \<Rightarrow> {(k, v)} | _ \<Rightarrow> {})"
  by (cases opn) (auto split: option.split dest: map_of_SomeD list.set_sel(2) [rotated])

lemma length_mark: "length (st_verified s) \<le> 256 \<Longrightarrow> length (st_verified (mark_verified h n t s)) \<le> 256"
proof -
  assume a: "length (st_verified s) \<le> 256"
  have del: "length (hm_del (fst p) (p # ps)) \<le> length ps" for p and ps :: "(string, nat \<times> nat option) hmap"
    by (simp add: hm_del_def)
  have put: "length (hm_put h (n, t) m) \<le> Suc (length m)" for m by simp
  show ?thesis
  proof (cases "\<not> hm_has h (st_verified s) \<and> length (st_verified s) \<ge> 256")
    case True
    then obtain p ps where v: "st_verified s = p # ps" by (cases "st_verified s") auto
    then have "length (hm_del (fst p) (st_verified s)) \<le> 255" using del [of p ps] a by simp
    then show ?thesis using True v put [of "hm_del (fst p) (st_verified s)"] by (simp add: mark_verified_def Let_def del: length_hm_put)
  next
    case False
    then have "st_verified (mark_verified h n t s) = hm_put h (n, t) (st_verified s)" by (auto simp: mark_verified_def Let_def)
    then show ?thesis using False a by (auto simp: hm_has_iff)
  qed
qed

lemma mark_verified_frame [simp]: "st_files (mark_verified h n t s) = st_files s" "st_mmaps (mark_verified h n t s) = st_mmaps s"
  "st_manifests (mark_verified h n t s) = st_manifests s" "st_index (mark_verified h n t s) = st_index s"
  by (simp_all add: mark_verified_def Let_def)

lemma cas_inv_mark: "cas_inv kept E s \<Longrightarrow> cas_inv kept E (mark_verified h n t s)"
  using length_mark by (auto simp: cas_inv_def)

lemma get_mmap_spec:
  assumes "get_mmap E h s = (r, s')"
  shows "st_files s' = st_files s" "st_mmaps s' = st_mmaps s" "cas_inv kept E s \<Longrightarrow> cas_inv kept E s'"
    "r = (if is_valid_hash h then case map_of (st_files s) (chunk_path h) of
            Some f \<Rightarrow> if cf_data f \<noteq> [] \<and> eq_ignore_ascii_case (ce_b3 E (cf_data f)) h then Some (cf_data f) else None | None \<Rightarrow> None
          else None)"
  using assms cas_inv_mark by (auto simp: get_mmap_def split: if_splits option.splits)

lemma cas_inv_mmaps:
  assumes "cas_inv kept E s" "lru_ok c" "lru_cap c = 64" "kept \<longrightarrow> (\<forall>(k, d)\<in>set (lru_abs c). eq_ignore_ascii_case (ce_b3 E d) k)"
  shows "cas_inv kept E (s\<lparr>st_mmaps := c\<rparr>)"
  using assms by (simp add: cas_inv_def)

lemma get_mmap_cached_spec:
  assumes inv: "cas_inv kept E s" and g: "get_mmap_cached E h s = (r, s')"
  shows "cas_inv kept E s'" "st_files s' = st_files s" "kept \<Longrightarrow> r = Some d \<Longrightarrow> eq_ignore_ascii_case (ce_b3 E d) h"
    "r = None \<Longrightarrow> fst (get_mmap E h s) = None \<or> length h \<noteq> 64"
proof -
  obtain v c where c: "lru_get h (st_mmaps s) = (v, c)" by fastforce
  have ok: "lru_ok (st_mmaps s)" "lru_cap (st_mmaps s) = 64" "kept \<longrightarrow> (\<forall>(k, d)\<in>set (lru_abs (st_mmaps s)). eq_ignore_ascii_case (ce_b3 E d) k)"
    using inv by (simp_all add: cas_inv_def)
  note lg = lru_get_refines [OF ok(1), of h]
  have cset: "kept \<longrightarrow> (\<forall>(k, d)\<in>set (lru_abs c). eq_ignore_ascii_case (ce_b3 E d) k)"
    using lg(3) [of 0] c recent_set [of 0 "Get h" "lru_abs (st_mmaps s)"] ok(3) by auto
  have inv1: "cas_inv kept E (s\<lparr>st_mmaps := c\<rparr>)" by (rule cas_inv_mmaps [OF inv]) (use lg c ok(2) cset in simp_all)
  have v: "v = map_of (lru_abs (st_mmaps s)) h" using lg(1) c by simp
  obtain w t where w: "get_mmap E h (s\<lparr>st_mmaps := c\<rparr>) = (w, t)" by fastforce
  note gm = get_mmap_spec [OF w]
  have same: "w = fst (get_mmap E h s)" using gm(4) get_mmap_spec(4) [of E h s "fst (get_mmap E h s)"] by (simp add: prod_eq_iff)
  have put: "cas_inv kept E (t\<lparr>st_mmaps := lru_put h m (st_mmaps t)\<rparr>)" if m: "w = Some m" for m
  proof (rule cas_inv_mmaps)
    show "cas_inv kept E t" using gm(3) inv1 .
    then have okt: "lru_ok (st_mmaps t)" "lru_cap (st_mmaps t) = 64" "kept \<longrightarrow> (\<forall>(k, d)\<in>set (lru_abs (st_mmaps t)). eq_ignore_ascii_case (ce_b3 E d) k)"
      by (simp_all add: cas_inv_def)
    note lp = lru_put_refines [OF okt(1), of h m]
    show "lru_ok (lru_put h m (st_mmaps t))" "lru_cap (lru_put h m (st_mmaps t)) = 64" using lp okt(2) by simp_all
    have "eq_ignore_ascii_case (ce_b3 E m) h" using gm(4) m by (auto split: if_splits option.splits)
    then show "kept \<longrightarrow> (\<forall>(k, d)\<in>set (lru_abs (lru_put h m (st_mmaps t))). eq_ignore_ascii_case (ce_b3 E d) k)"
      using recent_set [of "lru_cap (st_mmaps t)" "Put h m" "lru_abs (st_mmaps t)"] okt(3) lp(2) by fastforce
  qed
  have "eq_ignore_ascii_case (ce_b3 E x) h" if "v = Some x" kept for x
    using that v ok(3) map_of_SomeD [of "lru_abs (st_mmaps s)" h x] by auto
  moreover have "eq_ignore_ascii_case (ce_b3 E x) h" if "w = Some x" for x using gm(4) that by (auto split: if_splits option.splits)
  moreover have "st_files t = st_files s" using gm(1) by simp
  ultimately show "cas_inv kept E s'" "st_files s' = st_files s" "kept \<Longrightarrow> r = Some d \<Longrightarrow> eq_ignore_ascii_case (ce_b3 E d) h"
    "r = None \<Longrightarrow> fst (get_mmap E h s) = None \<or> length h \<noteq> 64"
    using g c w inv1 put same gm(3) inv by (auto simp: get_mmap_cached_def split: if_splits option.splits)
qed

subsection \<open>Ranges come from the blob\<close>

definition intact :: "chunk_store \<Rightarrow> chunk_manifest \<Rightarrow> byte list \<Rightarrow> bool" where
  "intact s m data \<longleftrightarrow> (\<forall>c\<in>set (cm_chunks m). \<exists>f. map_of (st_files s) (chunk_path (cr_blake3 c)) = Some f \<and> cf_data f = part data c)"

lemma hash_shape_valid: "hash_shape h = is_valid_hash h"
  by (simp add: hash_shape_def is_valid_hash_def)

lemma described_chunk:
  assumes "describes b3 m data" "c \<in> set (cm_chunks m)"
  shows "cr_blake3 c = b3 (part data c)" "is_valid_hash (cr_blake3 c)" "length (cr_blake3 c) = 64" "cr_offset c + cr_len c \<le> length data"
    "length (part data c) = cr_len c" "part data c \<noteq> []"
proof -
  have t: "refs_tile 0 (cm_chunks m)" "refs_len (cm_chunks m) = length data" and n: "length data < U64_MAX"
    using assms(1) manifest_valid_iff [of m] by (auto simp: describes_def)
  obtain i where i: "i < length (cm_chunks m)" "cm_chunks m ! i = c" using assms(2) by (auto simp: in_set_conv_nth)
  note r = refs_tile_nth [OF t(1) i(1)]
  show "cr_blake3 c = b3 (part data c)" using assms by (simp add: describes_def)
  show "is_valid_hash (cr_blake3 c)" using r(3) i(2) by (simp add: hash_shape_valid)
  then show "length (cr_blake3 c) = 64" by (simp add: is_valid_hash_def)
  show off: "cr_offset c + cr_len c \<le> length data" using r(4) i(2) t(2) by simp
  then show len: "length (part data c) = cr_len c" by (simp add: part_def)
  show "part data c \<noteq> []" using len r(2) i(2) by auto
qed

lemma mmap_is_part:
  assumes inv: "cas_inv True E s" and d: "describes (ce_b3 E) m data" "unique_parts (ce_b3 E) m data" and c: "c \<in> set (cm_chunks m)"
    and g: "get_mmap_cached E (cr_blake3 c) s = (r, s')"
  shows "r \<in> {None, Some (part data c)}" "intact s m data \<Longrightarrow> r = Some (part data c)"
proof -
  have "x = part data c" if "r = Some x" for x
    using get_mmap_cached_spec(3) [OF inv g _ that] d(2) c unfolding unique_parts_def by blast
  then show r: "r \<in> {None, Some (part data c)}" by (cases r) auto
  assume "intact s m data"
  then obtain f where f: "map_of (st_files s) (chunk_path (cr_blake3 c)) = Some f" "cf_data f = part data c"
    using c by (auto simp: intact_def)
  note dc = described_chunk [OF d(1) c]
  have "fst (get_mmap E (cr_blake3 c) s) = Some (part data c)"
    using f dc(2,6) by (simp add: get_mmap_def eq_ignore_ascii_case_def flip: dc(1))
  then show "r = Some (part data c)" using get_mmap_cached_spec(4) [OF inv g] r dc(3) by auto
qed

lemma resolve_windows_spec:
  assumes "cas_inv True E s" "describes (ce_b3 E) m data" "unique_parts (ce_b3 E) m data" "set cs \<subseteq> set (cm_chunks m)"
    "offset < fin" "\<forall>c\<in>set cs. cr_offset c < fin \<and> offset < cr_offset c + cr_len c" "resolve_windows E offset fin cs s = (ws, s')"
  shows "cas_inv True E s' \<and> st_files s' = st_files s
    \<and> list_all2 (\<lambda>c w. w = None \<or> w = Some (part data c, offset - cr_offset c, min (fin - cr_offset c) (length (part data c)))) cs ws
    \<and> (intact s m data \<longrightarrow> None \<notin> set ws)"
  using assms
proof (induction cs arbitrary: s ws s')
  case (Cons c cs)
  obtain r s1 where g: "get_mmap_cached E (cr_blake3 c) s = (r, s1)" by fastforce
  obtain w where w: "resolve_window E offset fin c s = (w, s1)" using g by (cases r) (auto simp: resolve_window_def)
  obtain ws2 s2 where rest: "resolve_windows E offset fin cs s1 = (ws2, s2)" by fastforce
  then have eq: "ws = w # ws2" "s' = s2" using Cons.prems(7) w by simp_all
  note gs = get_mmap_cached_spec [OF Cons.prems(1) g]
  have cm: "c \<in> set (cm_chunks m)" using Cons.prems(4) by simp
  note part' = mmap_is_part [OF Cons.prems(1-3) cm g]
  note dc = described_chunk [OF Cons.prems(2) cm]
  have "w = None \<or> w = Some (part data c, offset - cr_offset c, min (fin - cr_offset c) (length (part data c)))"
    using w g part'(1) Cons.prems(6) by (auto simp: resolve_window_def Let_def split: if_splits)
  moreover have "w \<noteq> None" if "intact s m data"
  proof -
    have "offset - cr_offset c \<le> min (fin - cr_offset c) (length (part data c))" "\<not> cr_offset c \<ge> fin" "\<not> cr_offset c + cr_len c \<le> offset"
      using Cons.prems(5,6) dc(5) by auto
    then show ?thesis using w g part'(2) [OF that] by (auto simp: resolve_window_def Let_def)
  qed
  moreover have "intact s1 m data = intact s m data" using gs(2) by (simp add: intact_def)
  ultimately show ?case using Cons.IH [OF gs(1) Cons.prems(2,3) _ Cons.prems(5) _ rest] Cons.prems(4,6) gs(2) eq by auto
qed simp

lemma those_Some: "those ws = Some xs \<longleftrightarrow> ws = map Some xs"
  by (induction ws arbitrary: xs) (auto split: option.splits)

lemma those_None: "those ws = None \<longleftrightarrow> None \<in> set ws"
  by (induction ws) (auto split: option.splits)

lemma overlapping_set:
  "c \<in> set (overlapping offset fin cs) \<Longrightarrow> c \<in> set cs \<and> cr_offset c < fin \<and> offset < cr_offset c + cr_len c"
  by (auto simp: overlapping_def dest: set_takeWhileD)

lemma blob_slice_spec:
  assumes inv: "cas_inv True E s" and d: "describes (ce_b3 E) m data" "unique_parts (ce_b3 E) m data" and b: "blob_slice E m offset len s = (r, s')"
  shows "cas_inv True E s'" "st_files s' = st_files s"
    "r = None \<or> 0 < len \<and> offset + len \<le> length data \<and> r = Some (seg data offset (offset + len))"
    "intact s m data \<Longrightarrow> 0 < len \<Longrightarrow> offset + len \<le> length data \<Longrightarrow> r = Some (seg data offset (offset + len))"
proof -
  have m: "manifest_valid m" "cm_total_size m = length data" "length data < U64_MAX" using d(1) by (simp_all add: describes_def)
  then have t: "refs_tile 0 (cm_chunks m)" "refs_len (cm_chunks m) = length data" using manifest_valid_iff [of m] by auto
  let ?cs = "overlapping offset (offset + len) (cm_chunks m)"
  have "cas_inv True E s' \<and> st_files s' = st_files s
    \<and> (r = None \<or> 0 < len \<and> offset + len \<le> length data \<and> r = Some (seg data offset (offset + len)))
    \<and> (intact s m data \<and> 0 < len \<and> offset + len \<le> length data \<longrightarrow> r = Some (seg data offset (offset + len)))"
  proof (cases "0 < len \<and> offset + len \<le> length data")
    case False
    then show ?thesis using b m inv by (auto simp: blob_slice_def Let_def split: if_splits)
  next
    case True
    obtain ws s1 where w: "resolve_windows E offset (offset + len) ?cs s = (ws, s1)" by fastforce
    have in': "\<forall>c\<in>set ?cs. cr_offset c < offset + len \<and> offset < cr_offset c + cr_len c" "set ?cs \<subseteq> set (cm_chunks m)"
      using overlapping_set by blast+
    note rs = resolve_windows_spec [OF inv d in'(2) _ in'(1) w]
    have segs: "concat (map (\<lambda>c. seg data (max offset (cr_offset c)) (min (offset + len) (cr_offset c + cr_len c))) ?cs)
        = seg data offset (offset + len)"
      using overlapping_segs [OF t(1), of data offset "offset + len"] t(2) True by simp
    have ne: "?cs \<noteq> []" using segs True by (auto simp: seg_def)
    have sum: "(\<Sum>(d, from, til)\<leftarrow>xs. til - from) = length (concat (map window_bytes xs))"
      if "list_all2 (\<lambda>c w. w = (part data c, offset - cr_offset c, min (offset + len - cr_offset c) (length (part data c)))) cs xs" for cs xs
      using that by (induction rule: list_all2_induct) (auto simp: window_bytes_def)
    have win: "concat (map window_bytes xs) = seg data offset (offset + len)" if "ws = map Some xs" for xs
    proof -
      have "list_all2 (\<lambda>c w. w = (part data c, offset - cr_offset c, min (offset + len - cr_offset c) (length (part data c)))) ?cs xs"
        using rs that True by (auto simp: list_all2_conv_all_nth)
      then have "map window_bytes xs = map (\<lambda>c. seg data (max offset (cr_offset c)) (min (offset + len) (cr_offset c + cr_len c))) ?cs"
        using in' described_chunk(4) [OF d(1)] window_seg
        by (auto simp: list_all2_conv_all_nth list_eq_iff_nth_eq subset_eq)
      then show ?thesis using segs by simp
    qed
    have sum': "(\<Sum>(d, from, til)\<leftarrow>xs. til - from) = len" if "ws = map Some xs" for xs
    proof -
      have "list_all2 (\<lambda>c w. w = (part data c, offset - cr_offset c, min (offset + len - cr_offset c) (length (part data c)))) ?cs xs"
        using rs that True by (auto simp: list_all2_conv_all_nth)
      then have "(\<Sum>(d, from, til)\<leftarrow>xs. til - from) = length (seg data offset (offset + len))" using sum win [OF that] by simp
      moreover have "length (seg data offset (offset + len)) = len" using True by (auto simp: seg_def)
      ultimately show ?thesis by simp
    qed
    have "blob_slice E m offset len s = (case those ws of None \<Rightarrow> None | Some xs \<Rightarrow>
        if (\<Sum>(d, from, til)\<leftarrow>xs. til - from) \<noteq> len then None else Some (concat (map window_bytes xs)), s1)"
      using True m ne w by (simp add: blob_slice_def Let_def split: option.split)
    then have "s' = s1" "r = None \<and> None \<in> set ws \<or> r = Some (seg data offset (offset + len))"
      using b win sum' by (auto simp: those_Some those_None split: option.splits)
    then show ?thesis using rs True by auto
  qed
  then show "cas_inv True E s'" "st_files s' = st_files s"
    "r = None \<or> 0 < len \<and> offset + len \<le> length data \<and> r = Some (seg data offset (offset + len))"
    "intact s m data \<Longrightarrow> 0 < len \<Longrightarrow> offset + len \<le> length data \<Longrightarrow> r = Some (seg data offset (offset + len))" by blast+
qed

subsection \<open>Storing a blob\<close>

lemma show_nat_chars: "set (show_nat n) \<subseteq> digit_char ` {0..<10}"
proof (induction n rule: show_nat.induct)
  case (1 n)
  then show ?case by (subst show_nat.simps) auto
qed

lemma tmp_name_inj: "inj (tmp_name dir stem ext)"
proof (rule injI)
  have sh: "show_nat a = show_nat b \<Longrightarrow> a = b" for a b by (metis option.inject parse_nat_show)
  fix a b assume eq: "tmp_name dir stem ext a = tmp_name dir stem ext b"
  have tmp: "''.tmp'' \<noteq> ext @ CHR ''.'' # show_nat n" for n
  proof
    assume e: "''.tmp'' = ext @ CHR ''.'' # show_nat n"
    have ne: "show_nat n \<noteq> []" using show_nat_hd [of n] by auto
    then have "last (show_nat n) = last ''.tmp''" unfolding e by simp
    then have "CHR ''p'' \<in> set (show_nat n)" using last_in_set [OF ne] by simp
    then have "CHR ''p'' \<in> digit_char ` {0..<10}" using show_nat_chars by blast
    moreover have "CHR ''p'' \<notin> digit_char ` {0..<10}" by code_simp
    ultimately show False by blast
  qed
  show "a = b" using eq tmp [of a] tmp [of b] sh [of a b] by (auto simp: tmp_name_def split: if_splits)
qed

lemma first_free_free:
  assumes "inj name"
  shows "\<not> hm_has (name (first_free name files)) files"
proof -
  have "\<exists>n\<in>set [0..<Suc (length files)]. \<not> hm_has (name n) files"
  proof (rule ccontr)
    assume "\<not> ?thesis"
    then have "name ` {0..<Suc (length files)} \<subseteq> set (map fst files)" by (auto simp: hm_has_def simp del: upt_Suc)
    then have "card (name ` {0..<Suc (length files)}) \<le> card (set (map fst files))" by (intro card_mono) simp_all
    moreover have "card (name ` {0..<Suc (length files)}) = Suc (length files)"
      using assms by (simp add: card_image inj_on_subset [OF assms])
    moreover have "card (set (map fst files)) \<le> length files" using card_length [of "map fst files"] by simp
    ultimately show False by simp
  qed
  then have "filter (\<lambda>n. \<not> hm_has (name n) files) [0..<Suc (length files)] \<noteq> []" by (simp add: filter_empty_conv)
  then obtain n ns where f: "filter (\<lambda>n. \<not> hm_has (name n) files) [0..<Suc (length files)] = n # ns" by (cases "filter (\<lambda>n. \<not> hm_has (name n) files) [0..<Suc (length files)]") auto
  then have "n \<in> set (filter (\<lambda>n. \<not> hm_has (name n) files) [0..<Suc (length files)])" by (metis list.set_intros(1))
  then have "\<not> hm_has (name n) files" by (simp del: upt_Suc)
  then show ?thesis using f by (simp add: first_free_def del: upt_Suc)
qed

lemma write_via_tmp_Ok:
  assumes "inj name"
  shows "\<exists>fs. write_via_tmp Io_ok now name path data files = (True, fs) \<and> map_of fs = (map_of files)(path \<mapsto> \<lparr>cf_data = data, cf_mtime = now\<rparr>)"
proof -
  have "map_of files (name (first_free name files)) = None" using first_free_free [OF assms, of files] by (simp add: hm_has_iff)
  then show ?thesis by (auto simp: write_via_tmp_def Let_def fun_eq_iff)
qed

definition holds :: "cas_files \<Rightarrow> string \<Rightarrow> byte list \<Rightarrow> bool" where
  "holds fs h d \<longleftrightarrow> (\<exists>f. map_of fs (chunk_path h) = Some f \<and> cf_data f = d)"

lemma put_trusted_Ok:
  assumes "is_valid_hash h"
  shows "\<exists>b fs. put_trusted Io_ok now h d s = (b, s\<lparr>st_files := fs\<rparr>)
    \<and> map_of fs = (if map_of (st_files s) (chunk_path h) = None then (map_of (st_files s))(chunk_path h \<mapsto> \<lparr>cf_data = d, cf_mtime = now\<rparr>)
                   else map_of (st_files s))"
proof (cases "hm_has (chunk_path h) (st_files s)")
  case True
  then show ?thesis using assms by (intro exI [of _ False] exI [of _ "st_files s"]) (auto simp: put_trusted_def hm_has_iff)
next
  case False
  then show ?thesis
    using assms write_via_tmp_Ok [OF tmp_name_inj, of now "take 2 (to_ascii_lowercase h)" "drop 2 (to_ascii_lowercase h)" "''.chunk''" "chunk_path h" d "st_files s"]
    by (auto simp: put_trusted_def hm_has_iff Let_def)
qed

lemma chunk_path_eq:
  assumes "is_valid_hash h" "is_valid_hash h'" "chunk_path h = chunk_path h'"
  shows "eq_ignore_ascii_case h h'"
proof -
  have "take 2 (to_ascii_lowercase h) @ drop 2 (to_ascii_lowercase h) = take 2 (to_ascii_lowercase h') @ drop 2 (to_ascii_lowercase h')"
    using assms by (simp add: chunk_path_def Let_def del: append_take_drop_id)
  then show ?thesis by (simp add: eq_ignore_ascii_case_def)
qed

text \<open>Writing a list of pieces, when the slots hold nothing or the right bytes\<close>

lemma store_pieces:
  assumes "b3_ok b3" "\<forall>x\<in>set items. \<forall>y. b3 y = b3 (snd x) \<longrightarrow> y = snd x"
    "\<forall>x\<in>set items. map_of (st_files s) (chunk_path (b3 (snd x))) = None \<or> holds (st_files s) (b3 (snd x)) (snd x)"
  shows "\<exists>fs. store_loop b3 (store_write now) (map Ok items) hashed acc ([], s)
      = (Ok (hashed @ concat (map snd items), acc @ map (chunk_ref_of b3) items), [], s\<lparr>st_files := fs\<rparr>)
    \<and> (\<forall>x\<in>set items. holds fs (b3 (snd x)) (snd x)) \<and> (\<forall>p. map_of (st_files s) p \<noteq> None \<longrightarrow> map_of fs p = map_of (st_files s) p)"
  using assms(2,3)
proof (induction items arbitrary: hashed acc s)
  case Nil
  then show ?case by (intro exI [of _ "st_files s"]) simp
next
  case (Cons x items)
  have valid: "is_valid_hash (b3 y)" "to_ascii_lowercase (b3 y) = b3 y" for y using assms(1) by (simp_all add: b3_ok_def hash_shape_valid)
  have path: "chunk_path (b3 y) = chunk_path (b3 (snd z)) \<Longrightarrow> y = snd z" if "z \<in> set (x # items)" for y z
    using chunk_path_eq [OF valid(1) valid(1), of y "snd z"] valid(2) Cons.prems(1) that by (auto simp: eq_ignore_ascii_case_def)
  obtain b fs where p: "put_trusted Io_ok now (b3 (snd x)) (snd x) s = (b, s\<lparr>st_files := fs\<rparr>)"
    "map_of fs = (if map_of (st_files s) (chunk_path (b3 (snd x))) = None
       then (map_of (st_files s))(chunk_path (b3 (snd x)) \<mapsto> \<lparr>cf_data = snd x, cf_mtime = now\<rparr>) else map_of (st_files s))"
    using put_trusted_Ok [OF valid(1)] by blast
  have keep: "\<forall>p. map_of (st_files s) p \<noteq> None \<longrightarrow> map_of fs p = map_of (st_files s) p" using p(2) by auto
  have hx: "holds fs (b3 (snd x)) (snd x)" using p(2) Cons.prems(2) by (auto simp: holds_def)
  have rest: "\<forall>z\<in>set items. map_of fs (chunk_path (b3 (snd z))) = None \<or> holds fs (b3 (snd z)) (snd z)"
  proof
    fix z assume z: "z \<in> set items"
    show "map_of fs (chunk_path (b3 (snd z))) = None \<or> holds fs (b3 (snd z)) (snd z)"
    proof (cases "chunk_path (b3 (snd z)) = chunk_path (b3 (snd x))")
      case True
      then have "snd z = snd x" using path [of x "snd z"] by simp
      then show ?thesis using hx by simp
    next
      case False
      then show ?thesis using p(2) Cons.prems(2) z by (auto simp: holds_def)
    qed
  qed
  obtain gs where g: "store_loop b3 (store_write now) (map Ok items) (hashed @ snd x) (acc @ [chunk_ref_of b3 x]) ([], s\<lparr>st_files := fs\<rparr>)
      = (Ok ((hashed @ snd x) @ concat (map snd items), (acc @ [chunk_ref_of b3 x]) @ map (chunk_ref_of b3) items), [], s\<lparr>st_files := gs\<rparr>)"
    "\<forall>z\<in>set items. holds gs (b3 (snd z)) (snd z)" "\<forall>p. map_of fs p \<noteq> None \<longrightarrow> map_of gs p = map_of fs p"
    using Cons.IH [of "s\<lparr>st_files := fs\<rparr>" "hashed @ snd x" "acc @ [chunk_ref_of b3 x]"] Cons.prems(1) rest by auto
  have "store_write now (chunk_ref_of b3 x) (snd x) ([], s) = (Ok (), [], s\<lparr>st_files := fs\<rparr>)"
    using p(1) by (simp add: store_write_def chunk_ref_of_def)
  moreover have "holds gs (b3 (snd x)) (snd x)" using hx g(3) by (auto simp: holds_def)
  ultimately show ?case using g keep by (intro exI [of _ gs]) auto
qed

definition json_ok :: "cas_env \<Rightarrow> bool" where
  "json_ok E \<longleftrightarrow> (\<forall>m. ce_from_json E (ce_to_json E m) = Some m \<and> utf8_valid (bytes_of (ce_to_json E m)))"

lemma manifest_not_chunk: "is_valid_hash h \<Longrightarrow> is_valid_hash h' \<Longrightarrow> manifest_path h \<noteq> chunk_path h'"
proof
  assume v: "is_valid_hash h" "is_valid_hash h'" and "manifest_path h = chunk_path h'"
  then have "''manifests'' = take 2 (to_ascii_lowercase h')" by (simp add: manifest_path_def chunk_path_def Let_def)
  then have "length ''manifests'' = length (take 2 (to_ascii_lowercase h'))" by metis
  then show False by simp
qed

lemma save_load_manifest:
  assumes inv: "cas_inv True E s" and m: "is_valid_hash (cm_blob_hash m)" "manifest_valid m" and J: "json_ok E"
  shows "\<exists>s2 s3. save_manifest E Io_ok now m s = (Ok (), s2) \<and> load_manifest E (cm_blob_hash m) s2 = (Some m, s3) \<and> cas_inv True E s3
    \<and> st_files s3 = st_files s2 \<and> (\<forall>p. p \<noteq> manifest_path (cm_blob_hash m) \<longrightarrow> map_of (st_files s2) p = map_of (st_files s) p)"
proof -
  let ?h = "cm_blob_hash m" and ?c = "lru_invalidate (cm_blob_hash m) (st_manifests s)"
  obtain fs where w: "write_via_tmp Io_ok now (tmp_name ''manifests'' ?h ''.json'') (manifest_path ?h) (bytes_of (ce_to_json E m)) (st_files s) = (True, fs)"
    "map_of fs = (map_of (st_files s))(manifest_path ?h \<mapsto> \<lparr>cf_data = bytes_of (ce_to_json E m), cf_mtime = now\<rparr>)"
    using write_via_tmp_Ok [OF tmp_name_inj] by blast
  define idx where "idx = index_ingest m (case st_index s of Some idx \<Rightarrow> idx | None \<Rightarrow> index_build E fs)"
  define s2 where "s2 = s\<lparr>st_manifests := ?c, st_files := fs, st_index := Some idx\<rparr>"
  have sv: "save_manifest E Io_ok now m s = (Ok (), s2)"
    using m w(1) by (simp add: save_manifest_def Let_def s2_def idx_def)
  have ok: "lru_ok (st_manifests s)" "lru_cap (st_manifests s) = 64" "\<forall>(h, m)\<in>set (lru_abs (st_manifests s)). cm_blob_hash m = h \<and> manifest_valid m"
    using inv by (simp_all add: cas_inv_def)
  note iv = lru_invalidate_refines [OF ok(1), of ?h]
  have none: "lru_get ?h ?c = (None, ?c)"
  proof -
    have "map_of (filter (\<lambda>p. fst p \<noteq> ?h) (lru_abs (st_manifests s))) ?h = None" by (auto simp: map_of_eq_None_iff)
    then have "map_of (lru_map ?c) ?h = None" using map_of_lru_abs [OF iv(1), of ?h] iv(2) by simp
    then show ?thesis by (simp add: lru_get_def)
  qed
  have rd: "read_manifest E \<lparr>cf_data = bytes_of (ce_to_json E m), cf_mtime = now\<rparr> = Some m"
    using J by (simp add: read_manifest_def json_ok_def from_utf8_def)
  have ld: "load_manifest E ?h s2 = (Some m, s2\<lparr>st_manifests := lru_put ?h m ?c\<rparr>)"
    using m none w(2) rd by (simp add: load_manifest_def s2_def Let_def)
  note pt = lru_put_refines [OF iv(1), of ?h m]
  have "set (lru_abs (lru_put ?h m ?c)) \<subseteq> set (lru_abs (st_manifests s)) \<union> {(?h, m)}"
    using recent_set [of "lru_cap ?c" "Put ?h m" "lru_abs ?c"] pt(2) iv(2) by auto
  then have "cas_inv True E (s2\<lparr>st_manifests := lru_put ?h m ?c\<rparr>)"
    using inv pt iv m ok by (fastforce simp: cas_inv_def s2_def)
  moreover have "\<forall>p. p \<noteq> manifest_path ?h \<longrightarrow> map_of (st_files s2) p = map_of (st_files s) p" using w(2) by (simp add: s2_def)
  ultimately show ?thesis using sv ld by auto
qed

definition undamaged :: "cas_env \<Rightarrow> chunk_store \<Rightarrow> bool" where
  "undamaged E s \<longleftrightarrow> (\<forall>h f. is_valid_hash h \<and> map_of (st_files s) (chunk_path h) = Some f \<longrightarrow> eq_ignore_ascii_case (ce_b3 E (cf_data f)) h)"

lemma undamaged_slot:
  assumes "undamaged E s" "b3_ok (ce_b3 E)" "\<forall>y. ce_b3 E y = ce_b3 E d \<longrightarrow> y = d"
  shows "map_of (st_files s) (chunk_path (ce_b3 E d)) = None \<or> holds (st_files s) (ce_b3 E d) d"
proof (cases "map_of (st_files s) (chunk_path (ce_b3 E d))")
  case (Some f)
  have valid: "is_valid_hash (ce_b3 E y)" "to_ascii_lowercase (ce_b3 E y) = ce_b3 E y" for y
    using assms(2) by (simp_all add: b3_ok_def hash_shape_valid)
  then have "eq_ignore_ascii_case (ce_b3 E (cf_data f)) (ce_b3 E d)" using Some assms(1) by (auto simp: undamaged_def)
  then have "ce_b3 E (cf_data f) = ce_b3 E d" by (simp add: eq_ignore_ascii_case_def valid(2))
  then show ?thesis using Some assms(3) by (auto simp: holds_def)
qed simp

lemma store_reader_intact:
  assumes E: "b3_ok (ce_b3 E)" "collision_free (ce_b3 E) data" and c: "cdc_ok cdc default_params reader data" "length data < U64_MAX"
    and s: "undamaged E s"
  shows "\<exists>m fs. store_reader E cdc [] now reader s = (Ok m, s\<lparr>st_files := fs\<rparr>) \<and> describes (ce_b3 E) m data \<and> intact (s\<lparr>st_files := fs\<rparr>) m data"
proof -
  obtain items m where i: "cdc default_params reader = map Ok items" "concat (map snd items) = data"
    "total_of (map (chunk_ref_of (ce_b3 E)) items) = Ok (length data)"
    "m = \<lparr>cm_blob_hash = ce_b3 E data, cm_total_size = length data, cm_chunks = map (chunk_ref_of (ce_b3 E)) items\<rparr>"
    "describes (ce_b3 E) m data" "map snd items = map (part data) (cm_chunks m)"
    using chunk_items_facts [OF E(1) c] by blast
  have piece: "\<exists>a b. snd x = seg data a b" if "x \<in> set items" for x
  proof -
    have "snd x \<in> set (map (part data) (cm_chunks m))" using i(6) that by (metis imageI list.set_map)
    then show ?thesis by (auto simp: part_seg)
  qed
  have un: "\<forall>x\<in>set items. \<forall>y. ce_b3 E y = ce_b3 E (snd x) \<longrightarrow> y = snd x" using E(2) piece unfolding collision_free_def by metis
  then have slots: "\<forall>x\<in>set items. map_of (st_files s) (chunk_path (ce_b3 E (snd x))) = None \<or> holds (st_files s) (ce_b3 E (snd x)) (snd x)"
    using undamaged_slot [OF s E(1)] by blast
  obtain fs where st: "store_loop (ce_b3 E) (store_write now) (map Ok items) [] [] ([], s)
      = (Ok (concat (map snd items), map (chunk_ref_of (ce_b3 E)) items), [], s\<lparr>st_files := fs\<rparr>)"
    "\<forall>x\<in>set items. holds fs (ce_b3 E (snd x)) (snd x)"
    using store_pieces [OF E(1) un slots, of now "[]" "[]"] by auto
  have "store_reader E cdc [] now reader s = (Ok m, s\<lparr>st_files := fs\<rparr>)"
    using i(1-4) st(1) by (simp add: store_reader_def store_reader_with_data_def)
  moreover have "\<exists>f. map_of fs (chunk_path (cr_blake3 ch)) = Some f \<and> cf_data f = part data ch" if ch: "ch \<in> set (cm_chunks m)" for ch
  proof -
    obtain x where x: "x \<in> set items" "ch = chunk_ref_of (ce_b3 E) x" using i(4) ch by auto
    have "ce_b3 E (part data ch) = ce_b3 E (snd x)" using described_chunk(1) [OF i(5) ch] x(2) by (simp add: chunk_ref_of_def)
    then have "part data ch = snd x" using un x(1) by blast
    then show ?thesis using st(2) x by (auto simp: holds_def chunk_ref_of_def)
  qed
  ultimately show ?thesis using i(5) by (auto simp: intact_def)
qed

text \<open>C12. A stored blob is served: a reader is chunked and stored, its manifest saved and loaded again, and every range of the blob is
  then read back exactly; a range that is empty or passes the end is refused. The store may hold any other files and caches,
  as long as its chunk files are not damaged.
\<close>

theorem cas_store_round_trip:
  assumes E: "b3_ok (ce_b3 E)" "json_ok E" "collision_free (ce_b3 E) data" and c: "cdc_ok cdc default_params reader data" "length data < U64_MAX"
    and s: "cas_inv True E s" "undamaged E s"
  shows "\<exists>m s1 s2 s3. store_reader E cdc [] now reader s = (Ok m, s1) \<and> describes (ce_b3 E) m data
    \<and> save_manifest E Io_ok now m s1 = (Ok (), s2) \<and> load_manifest E (ce_b3 E data) s2 = (Some m, s3)
    \<and> (\<forall>offset len. fst (blob_slice E m offset len s3)
         = (if 0 < len \<and> offset + len \<le> length data then Some (take len (drop offset data)) else None))"
proof -
  obtain m fs where r: "store_reader E cdc [] now reader s = (Ok m, s\<lparr>st_files := fs\<rparr>)" "describes (ce_b3 E) m data"
    "intact (s\<lparr>st_files := fs\<rparr>) m data" using store_reader_intact [OF E(1,3) c s(2)] by blast
  have valid: "is_valid_hash (ce_b3 E y)" for y using E(1) by (simp add: b3_ok_def hash_shape_valid)
  have m: "cm_blob_hash m = ce_b3 E data" "manifest_valid m" using r(2) by (simp_all add: describes_def)
  obtain s2 s3 where sl: "save_manifest E Io_ok now m (s\<lparr>st_files := fs\<rparr>) = (Ok (), s2)" "load_manifest E (ce_b3 E data) s2 = (Some m, s3)"
    "cas_inv True E s3" "st_files s3 = st_files s2" "\<forall>p. p \<noteq> manifest_path (ce_b3 E data) \<longrightarrow> map_of (st_files s2) p = map_of fs p"
    using save_load_manifest [of E "s\<lparr>st_files := fs\<rparr>" m now] s(1) m valid E(2) by auto
  have "map_of (st_files s3) (chunk_path (cr_blake3 ch)) = map_of fs (chunk_path (cr_blake3 ch))" if "ch \<in> set (cm_chunks m)" for ch
    using sl(4,5) manifest_not_chunk [OF valid [of data] described_chunk(2) [OF r(2) that]] by auto
  then have "intact s3 m data" using r(3) by (simp add: intact_def)
  then have "fst (blob_slice E m offset len s3)
      = (if 0 < len \<and> offset + len \<le> length data then Some (take len (drop offset data)) else None)" for offset len
    using blob_slice_spec(3,4) [OF sl(3) r(2) collision_free_parts [OF E(1,3) r(2)], of offset len "fst (blob_slice E m offset len s3)" "snd (blob_slice E m offset len s3)"]
    by (auto simp: seg_def)
  then show ?thesis using r(1,2) sl(1,2) by blast
qed

subsection \<open>Any sequence of operations, and any change of the files\<close>

text \<open>
  \<open>step_outside\<close>: other programs create, rename and remove files; a mapping keeps the file it was made of. \<open>step_in_place\<close>, only with
  \<open>kept = False\<close>: they write into files, and the mappings show it.
\<close>

inductive cas_step :: "bool \<Rightarrow> cas_env \<Rightarrow> chunk_store \<Rightarrow> chunk_store \<Rightarrow> bool" for kept E where
  step_put: "put_trusted io now h d s = (b, s') \<Longrightarrow> cas_step kept E s s'"
| step_store: "store_reader E (cdc :: byte list cdc) ios now reader s = (r, s') \<Longrightarrow> cas_step kept E s s'"
| step_get: "cas_get E h s = (r, s') \<Longrightarrow> cas_step kept E s s'"
| step_mapped: "get_mmap_cached E h s = (r, s') \<Longrightarrow> cas_step kept E s s'"
| step_slice: "blob_slice E m offset len s = (r, s') \<Longrightarrow> cas_step kept E s s'"
| step_range: "blob_range_mapped E m offset len s = (w, s') \<Longrightarrow> cas_step kept E s s'"
| step_bytes: "manifest_bytes E m s = (d, s') \<Longrightarrow> cas_step kept E s s'"
| step_save: "save_manifest E io now m s = (u, s') \<Longrightarrow> cas_step kept E s s'"
| step_load: "load_manifest E h s = (mo, s') \<Longrightarrow> cas_step kept E s s'"
| step_find: "find_manifest_containing_chunk E h s = (mo, s') \<Longrightarrow> cas_step kept E s s'"
| step_refresh: "cas_step kept E s (refresh_index E s)"
| step_quota: "enforce_cache_quota E removable n s = (k, s') \<Longrightarrow> cas_step kept E s s'"
| step_clear: "cas_step kept E s (cas_clear stays s)"
| step_outside: "cas_step kept E s (s\<lparr>st_files := files\<rparr>)"
| step_in_place: "\<not> kept \<Longrightarrow> cas_step kept E s (s\<lparr>st_files := files, st_mmaps := lru_written w (st_mmaps s)\<rparr>)"

lemma put_trusted_files: "\<exists>fs. snd (put_trusted io now h d s) = s\<lparr>st_files := fs\<rparr>"
proof -
  have "\<exists>fs. s = s\<lparr>st_files := fs\<rparr>" by (rule exI [of _ "st_files s"]) simp
  then show ?thesis by (auto simp: put_trusted_def Let_def split: prod.split)
qed

lemma store_loop_inv: "cas_inv kept E (snd st) \<Longrightarrow> cas_inv kept E (snd (snd (store_loop b3 (store_write now) items hashed acc st)))"
proof (induction items arbitrary: hashed acc st)
  case (Cons x items)
  show ?case
  proof (cases x)
    case (Ok item)
    obtain ios s where st: "st = (ios, s)" by fastforce
    obtain fs where "snd (put_trusted (case ios of io # _ \<Rightarrow> io | [] \<Rightarrow> Io_ok) now (b3 (snd item)) (snd item) s) = s\<lparr>st_files := fs\<rparr>"
      using put_trusted_files by blast
    then show ?thesis using Cons.IH [of "(tl ios, s\<lparr>st_files := fs\<rparr>)"] Cons.prems Ok st by (simp add: store_write_def chunk_ref_of_def)
  qed (use Cons in simp_all)
qed simp

lemma load_manifest_inv: "cas_inv kept E s \<Longrightarrow> load_manifest E h s = (r, s') \<Longrightarrow> cas_inv kept E s'"
proof -
  assume inv: "cas_inv kept E s" and l: "load_manifest E h s = (r, s')"
  have ok: "lru_ok (st_manifests s)" "lru_cap (st_manifests s) = 64" "\<forall>(h, m)\<in>set (lru_abs (st_manifests s)). cm_blob_hash m = h \<and> manifest_valid m"
    using inv by (simp_all add: cas_inv_def)
  obtain v c where c: "lru_get h (st_manifests s) = (v, c)" by fastforce
  note lg = lru_get_refines [OF ok(1), of h]
  have cok: "lru_ok c" "lru_cap c = 64" using lg(2,4) c ok(2) by simp_all
  have cset: "\<forall>(h, m)\<in>set (lru_abs c). cm_blob_hash m = h \<and> manifest_valid m"
    using lg(3) [of 0] c recent_set [of 0 "Get h" "lru_abs (st_manifests s)"] ok(3) by auto
  have inv1: "cas_inv kept E (s\<lparr>st_manifests := c\<rparr>)" using inv cok cset by (simp add: cas_inv_def)
  have put: "cas_inv kept E (s\<lparr>st_manifests := lru_put h m c\<rparr>)" if "cm_blob_hash m = h" "manifest_valid m" for m
    using inv lru_put_refines [OF cok(1), of h m] cok(2) cset that recent_set [of 64 "Put h m" "lru_abs c"] by (fastforce simp: cas_inv_def)
  show ?thesis using l inv inv1 put c by (auto simp: load_manifest_def Let_def split: if_splits option.splits)
qed

lemma first_manifest_inv: "cas_inv kept E s \<Longrightarrow> cas_inv kept E (snd (first_manifest E cands s))"
  by (induction E cands s rule: first_manifest.induct) (auto dest: load_manifest_inv split: prod.split option.split)

lemma resolve_windows_inv: "cas_inv kept E s \<Longrightarrow> cas_inv kept E (snd (resolve_windows E offset fin cs s))"
proof (induction cs arbitrary: s)
  case (Cons c cs)
  have "cas_inv kept E (snd (resolve_window E offset fin c s))"
    using get_mmap_cached_spec(1) [OF Cons.prems] by (auto simp: resolve_window_def Let_def split: prod.split option.split)
  then have "cas_inv kept E (snd (resolve_windows E offset fin cs (snd (resolve_window E offset fin c s))))" by (rule Cons.IH)
  then show ?case by (simp add: case_prod_beta)
qed simp

lemma manifest_bytes_inv: "cas_inv kept E s \<Longrightarrow> cas_inv kept E (snd (manifest_bytes_loop E cs d s))"
proof (induction cs arbitrary: d s)
  case (Cons c cs)
  obtain r s1 where g: "get_mmap_cached E (cr_blake3 c) s = (r, s1)" by fastforce
  then show ?case using Cons.IH get_mmap_cached_spec(1) [OF Cons.prems g] by (cases r) auto
qed simp

lemma cas_inv_step:
  assumes inv: "cas_inv kept E s" and st: "cas_step kept E s s'"
  shows "cas_inv kept E s'"
  using st
proof cases
  case (step_put io now h d b)
  then show ?thesis using put_trusted_files [of io now h d s] inv by auto
next
  case (step_store cdc ios now reader r)
  then show ?thesis using store_loop_inv [of kept E "(ios, s)"] inv
    by (auto simp: store_reader_def store_reader_with_data_def split: prod.splits) (metis snd_conv)
next
  case (step_get h r)
  then show ?thesis using inv get_mmap_spec(3) by (auto simp: cas_get_def split: if_splits option.splits)
next
  case (step_mapped h r)
  then show ?thesis using get_mmap_cached_spec(1) [OF inv] by blast
next
  case (step_slice m offset len r)
  then show ?thesis using inv resolve_windows_inv [OF inv, of offset "offset + len" "overlapping offset (offset + len) (cm_chunks m)"]
    by (auto simp: blob_slice_def Let_def split: if_splits prod.splits option.splits)
next
  case (step_range m offset len w)
  then show ?thesis using inv get_mmap_cached_spec(1) [OF inv]
    by (auto simp: blob_range_mapped_def Let_def split: if_splits prod.splits option.splits)
next
  case (step_bytes m d)
  then show ?thesis using manifest_bytes_inv [OF inv, of "cm_chunks m" "[]"] by (simp add: manifest_bytes_def)
next
  case (step_save io now m u)
  have ok: "lru_ok (st_manifests s)" "lru_cap (st_manifests s) = 64" using inv by (simp_all add: cas_inv_def)
  have "cas_inv kept E (s\<lparr>st_manifests := lru_invalidate (cm_blob_hash m) (st_manifests s)\<rparr>)"
    using inv lru_invalidate_refines [OF ok(1), of "cm_blob_hash m"] by (auto simp: cas_inv_def)
  then show ?thesis using step_save inv by (auto simp: save_manifest_def Let_def split: if_splits prod.splits bool.splits)
next
  case (step_load h mo)
  then show ?thesis using load_manifest_inv [OF inv] by blast
next
  case (step_find h mo)
  have "cas_inv kept E (snd (cas_index E s))" using inv by (auto simp: cas_index_def Let_def split: option.split)
  then show ?thesis using step_find inv first_manifest_inv [of kept E "snd (cas_index E s)"]
    by (auto simp: find_manifest_containing_chunk_def split: if_splits prod.splits option.splits) (metis snd_conv)
next
  case step_refresh
  then show ?thesis using inv by (simp add: refresh_index_def)
next
  case (step_quota removable n k)
  then show ?thesis using inv by (auto simp: enforce_cache_quota_def Let_def refresh_index_def split: if_splits prod.splits)
next
  case (step_clear stays)
  have "lru_ok ((st_manifests s)\<lparr>lru_map := [], lru_order := []\<rparr>)" "lru_abs ((st_manifests s)\<lparr>lru_map := [], lru_order := []\<rparr>) = []"
    by (simp_all add: lru_ok_def lru_abs_def)
  then show ?thesis using step_clear inv by (simp add: cas_clear_def cas_inv_def)
next
  case (step_outside files)
  then show ?thesis using inv by simp
next
  case (step_in_place files w)
  then show ?thesis using inv by (simp add: cas_inv_def lru_written_ok)
qed

interpretation cas: safe_machine "\<lambda>s. \<exists>files. s = cas_new files" "cas_step kept E" "cas_inv kept E" for kept E
  by unfold_locales (use cas_inv_new cas_inv_step in blast)+

lemma mapped_stays:
  assumes "get_mmap_cached E h s = (Some d, s')"
  shows "length h = 64 \<and> (\<exists>e. map_of (lru_map (st_mmaps s')) h = Some (e, d))"
  using assms
  by (auto simp: get_mmap_cached_def lru_get_def lru_put_def Let_def split: option.splits prod.splits if_splits list.splits)

text \<open>C13. Whatever sequence of operations the store sees and whatever is done to its files in between, also writing into them, a chunk
  that \<open>get\<close> returns has the digest asked for, and the caches keep their bounds. As long as files are created, renamed and removed
  but not written in place, the same holds of the mapped chunks, and a range is only returned with the bytes of the blob the
  manifest describes.
\<close>

theorem cas_never_corrupt:
  assumes "(cas_step kept E)\<^sup>*\<^sup>* (cas_new files) s"
  shows "(fst (cas_get E h s) = Some d \<longrightarrow> eq_ignore_ascii_case (ce_b3 E d) h)
    \<and> (kept \<and> fst (get_mmap_cached E h s) = Some d \<longrightarrow> eq_ignore_ascii_case (ce_b3 E d) h)
    \<and> (kept \<and> b3_ok (ce_b3 E) \<and> collision_free (ce_b3 E) data \<and> describes (ce_b3 E) m data \<longrightarrow>
         fst (blob_slice E m offset len s) \<in> {None, Some (take len (drop offset data))})
    \<and> length (lru_map (st_mmaps s)) \<le> 64 \<and> length (lru_map (st_manifests s)) \<le> 64 \<and> length (st_verified s) \<le> 256"
proof -
  have inv: "cas_inv kept E s" using cas.reachable_inv assms by blast
  have get: "eq_ignore_ascii_case (ce_b3 E d) h" if "fst (cas_get E h s) = Some d"
    using that get_mmap_spec(4) [of E h s "fst (get_mmap E h s)" "snd (get_mmap E h s)"]
    by (auto simp: cas_get_def eq_ignore_ascii_case_def split: if_splits option.splits)
  have mapped: "eq_ignore_ascii_case (ce_b3 E d) h" if kept "fst (get_mmap_cached E h s) = Some d"
    using get_mmap_cached_spec(3) [OF inv prod.collapse [symmetric] that] .
  have slice: "fst (blob_slice E m offset len s) \<in> {None, Some (take len (drop offset data))}"
    if kept "b3_ok (ce_b3 E)" "collision_free (ce_b3 E) data" "describes (ce_b3 E) m data"
  proof -
    have "cas_inv True E s" using inv that(1) by simp
    from blob_slice_spec(3) [OF this that(4) collision_free_parts [OF that(2-4)], of offset len "fst (blob_slice E m offset len s)" "snd (blob_slice E m offset len s)"]
    show ?thesis by (auto simp: seg_def)
  qed
  have "length (lru_map (st_mmaps s)) \<le> 64 \<and> length (lru_map (st_manifests s)) \<le> 64 \<and> length (st_verified s) \<le> 256"
    using inv lru_bound [of "st_mmaps s"] lru_bound [of "st_manifests s"] by (simp add: cas_inv_def)
  then show ?thesis using get mapped slice by blast
qed

text \<open>
  A file that is written in place while it is mapped is served as it is written, without another look at its digest: after any
  chunk was served from a mapping, a write can make the store serve any bytes in its place.
\<close>

theorem cas_in_place_served:
  assumes "get_mmap_cached E h s = (Some d, s1)"
  shows "\<exists>s2. cas_step False E s1 s2 \<and> fst (get_mmap_cached E h s2) = Some d'"
proof -
  note m = mapped_stays [OF assms]
  have "fst (get_mmap_cached E h (s1\<lparr>st_mmaps := lru_written (\<lambda>_ _. d') (st_mmaps s1)\<rparr>)) = Some d'"
    using m by (auto simp: get_mmap_cached_def lru_get_def map_of_lru_written Let_def)
  moreover have "cas_step False E s1 (s1\<lparr>st_files := st_files s1, st_mmaps := lru_written (\<lambda>_ _. d') (st_mmaps s1)\<rparr>)"
    by (rule step_in_place) simp
  ultimately show ?thesis by (intro exI [of _ "s1\<lparr>st_mmaps := lru_written (\<lambda>_ _. d') (st_mmaps s1)\<rparr>"]) simp
qed

subsection \<open>Examples of the environment\<close>

text \<open>A writing of manifests as numbers in unary, in place of JSON\<close>

fun unary :: "nat list \<Rightarrow> string" where
  "unary [] = []"
| "unary (n # ns) = replicate n CHR ''a'' @ CHR ''b'' # unary ns"

fun read_unary :: "nat \<Rightarrow> string \<Rightarrow> nat list" where
  "read_unary k [] = []"
| "read_unary k (c # cs) = (if c = CHR ''b'' then k # read_unary 0 cs else read_unary (Suc k) cs)"

definition put_str :: "string \<Rightarrow> nat list" where
  "put_str s = length s # map of_char s"

fun take_ref :: "nat \<Rightarrow> nat list \<Rightarrow> chunk_ref list" where
  "take_ref (Suc k) (n # xs) = (case drop n xs of a # b # ys \<Rightarrow>
      \<lparr>cr_blake3 = map char_of (take n xs), cr_offset = a, cr_len = b\<rparr> # take_ref k ys | _ \<Rightarrow> [])"
| "take_ref k xs = []"

definition sample_to_json :: "chunk_manifest \<Rightarrow> string" where
  "sample_to_json m = unary (cm_total_size m # length (cm_chunks m) # put_str (cm_blob_hash m)
     @ concat (map (\<lambda>c. put_str (cr_blake3 c) @ [cr_offset c, cr_len c]) (cm_chunks m)))"

definition sample_from_json :: "string \<Rightarrow> chunk_manifest option" where
  "sample_from_json s = (case read_unary 0 s of
      t # k # n # xs \<Rightarrow> Some \<lparr>cm_blob_hash = map char_of (take n xs), cm_total_size = t, cm_chunks = take_ref k (drop n xs)\<rparr>
    | _ \<Rightarrow> None)"

definition sample_cas_env :: cas_env where
  "sample_cas_env = \<lparr>ce_b3 = sample_b3, ce_to_json = sample_to_json, ce_from_json = sample_from_json\<rparr>"

lemma read_unary_run: "read_unary k (replicate n CHR ''a'' @ CHR ''b'' # s) = (k + n) # read_unary 0 s"
  by (induction n arbitrary: k) simp_all

lemma read_unary_id: "read_unary 0 (unary ns) = ns"
  by (induction ns) (simp_all add: read_unary_run)

lemma char_of_chars [simp]: "map char_of (map of_char s :: nat list) = s"
  by (induction s) simp_all

lemma take_ref_id: "take_ref (length cs) (concat (map (\<lambda>c. put_str (cr_blake3 c) @ [cr_offset c, cr_len c]) cs)) = cs"
  by (induction cs) (simp_all add: put_str_def)

lemma sample_cas_ok: "json_ok sample_cas_env" "b3_ok (ce_b3 sample_cas_env)" "collision_free (ce_b3 sample_cas_env) [1, 2, 3]"
proof -
  have "ascii (unary ns)" for ns by (induction ns) (auto simp: ascii_def)
  then have "utf8_valid (bytes_of (sample_to_json m))" for m unfolding sample_to_json_def by (rule utf8_valid_ascii)
  moreover have "sample_from_json (sample_to_json m) = Some m" for m
    by (cases m) (simp add: sample_from_json_def sample_to_json_def read_unary_id put_str_def take_ref_id [unfolded put_str_def, simplified]
        del: unary.simps)
  ultimately show "json_ok sample_cas_env" by (simp add: json_ok_def sample_cas_env_def)
  show "b3_ok (ce_b3 sample_cas_env)" "collision_free (ce_b3 sample_cas_env) [1, 2, 3]"
    by (simp_all add: sample_cas_env_def sample_b3_ok sample_collision_free)
qed

theorem cas_store_round_trip_witness:
  "\<exists>m s1 s2 s3. store_reader sample_cas_env sample_cdc [] 7 [1, 2, 3] (cas_new []) = (Ok m, s1)
    \<and> save_manifest sample_cas_env Io_ok 7 m s1 = (Ok (), s2) \<and> load_manifest sample_cas_env (sample_b3 [1, 2, 3]) s2 = (Some m, s3)
    \<and> fst (blob_slice sample_cas_env m 1 2 s3) = Some [2, 3] \<and> fst (blob_slice sample_cas_env m 2 2 s3) = None"
proof -
  have "undamaged sample_cas_env (cas_new [])" by (simp add: undamaged_def cas_new_def)
  moreover have "length [1, 2, 3 :: byte] < U64_MAX" by simp
  ultimately obtain m s1 s2 s3 where r: "store_reader sample_cas_env sample_cdc [] 7 [1, 2, 3] (cas_new []) = (Ok m, s1)"
    "save_manifest sample_cas_env Io_ok 7 m s1 = (Ok (), s2)" "load_manifest sample_cas_env (ce_b3 sample_cas_env [1, 2, 3]) s2 = (Some m, s3)"
    "\<forall>offset len. fst (blob_slice sample_cas_env m offset len s3)
         = (if 0 < len \<and> offset + len \<le> length [1, 2, 3 :: byte] then Some (take len (drop offset [1, 2, 3])) else None)"
    using cas_store_round_trip [OF sample_cas_ok(2,1,3) sample_cdc_ok _ cas_inv_new, of "[]" 7] by blast
  have "fst (blob_slice sample_cas_env m 1 2 s3) = Some [2, 3]" "fst (blob_slice sample_cas_env m 2 2 s3) = None"
    using r(4) by (simp_all add: numeral_2_eq_2)
  then show ?thesis using r(1-3) by (auto simp: sample_cas_env_def)
qed

theorem cas_never_corrupt_witness:
  "fst (cas_get sample_cas_env (sample_b3 [1, 2, 3]) ((cas_new [])\<lparr>st_files := [(chunk_path (sample_b3 [1, 2, 3]), \<lparr>cf_data = [9], cf_mtime = 0\<rparr>)]\<rparr>)) = None"
proof (rule ccontr)
  let ?h = "sample_b3 [1, 2, 3]" and ?s = "(cas_new [])\<lparr>st_files := [(chunk_path (sample_b3 [1, 2, 3]), \<lparr>cf_data = [9], cf_mtime = 0\<rparr>)]\<rparr>"
  assume "fst (cas_get sample_cas_env ?h ?s) \<noteq> None"
  then obtain d where d: "fst (cas_get sample_cas_env ?h ?s) = Some d" by blast
  have "(cas_step True sample_cas_env)\<^sup>*\<^sup>* (cas_new []) ?s" by (rule r_into_rtranclp, rule step_outside)
  from cas_never_corrupt [OF this, of ?h d] d have e: "eq_ignore_ascii_case (sample_b3 d) ?h" by (simp add: sample_cas_env_def)
  have "d = [9]" using d by (simp add: cas_get_def get_mmap_def cas_new_def split: if_splits)
  moreover have "\<not> eq_ignore_ascii_case (sample_b3 [9]) ?h" by code_simp
  ultimately show False using e by simp
qed

subsection \<open>Quota and clearing\<close>

definition weight :: "(string list \<times> nat \<times> nat) list \<Rightarrow> nat" where
  "weight ws = (\<Sum>(p, sz, t)\<leftarrow>ws. sz)"

definition walk_files :: "cas_files \<Rightarrow> (string list \<times> nat \<times> nat) list" where
  "walk_files fs = map (\<lambda>(p, f). (p, length (cf_data f), cf_mtime f)) (filter (\<lambda>(p, f). length p \<le> 2) fs)"

lemma walk_store_files: "walk_store s = walk_files (st_files s)"
  by (simp add: walk_store_def walk_files_def)

lemma weight_simps [simp]: "weight [] = 0" "weight (w # ws) = fst (snd w) + weight ws" "weight (us @ ws) = weight us + weight ws"
  by (simp_all add: weight_def case_prod_beta)

lemma weight_insort: "weight (insort_key f w ws) = fst (snd w) + weight ws"
  by (induction ws) simp_all

lemma weight_sort [simp]: "weight (sort_key f ws) = weight ws"
  by (induction ws) (simp_all add: weight_insort)

lemma walk_del: "walk_files (hm_del p fs) = filter (\<lambda>w. fst w \<noteq> p) (walk_files fs)"
  by (induction fs) (auto simp: walk_files_def hm_del_def)

lemma weight_filter_key:
  "distinct (map fst ws) \<Longrightarrow> w \<in> set ws \<Longrightarrow> weight (filter (\<lambda>u. fst u \<noteq> fst w) ws) + fst (snd w) = weight ws"
proof (induction ws)
  case (Cons u ws)
  show ?case
  proof (cases "u = w")
    case True
    then have "filter (\<lambda>u. fst u \<noteq> fst w) ws = ws" using Cons.prems by (auto simp: filter_id_conv image_iff)
    then show ?thesis using True by simp
  next
    case False
    then have "w \<in> set ws" "fst u \<noteq> fst w" using Cons.prems by auto
    then show ?thesis using Cons by simp
  qed
qed simp

lemma walk_distinct: "hm_wf fs \<Longrightarrow> distinct (map fst (walk_files fs))"
  by (simp add: walk_files_def hm_wf_def comp_def case_prod_beta distinct_map_filter)

text \<open>The loop removes a prefix of the sorted list and stops as soon as the rest fits.\<close>

lemma quota_loop_spec:
  assumes "distinct (map fst (walk_files fs))" "distinct (map fst ws)" "set ws \<subseteq> set (walk_files fs)" "remaining = weight (walk_files fs)"
    "weight (walk_files fs) \<le> n + weight ws"
  shows "\<exists>k gs. quota_loop (\<lambda>_. True) n ws remaining reclaimed fs = (reclaimed + weight (take k ws), gs)
    \<and> walk_files gs = filter (\<lambda>w. fst w \<notin> fst ` set (take k ws)) (walk_files fs)
    \<and> weight (walk_files gs) \<le> n \<and> weight (walk_files gs) + weight (take k ws) = weight (walk_files fs)"
  using assms
proof (induction ws arbitrary: remaining reclaimed fs)
  case Nil
  then show ?case by (intro exI [of _ 0] exI [of _ fs]) simp
next
  case (Cons w ws)
  obtain p sz t where w: "w = (p, sz, t)" by (cases w)
  have wm: "w \<in> set (walk_files fs)" using Cons.prems(3) by simp
  show ?case
  proof (cases "remaining \<le> n")
    case True
    then show ?thesis using w Cons.prems(4) by (intro exI [of _ 0] exI [of _ fs]) simp
  next
    case False
    let ?gs = "hm_del p fs"
    have wf: "walk_files ?gs = filter (\<lambda>u. fst u \<noteq> fst w) (walk_files fs)" using w by (simp add: walk_del)
    have wt: "weight (walk_files ?gs) + sz = weight (walk_files fs)" using weight_filter_key [OF Cons.prems(1) wm] wf w by simp
    have pre: "distinct (map fst (walk_files ?gs))" "distinct (map fst ws)" "remaining - sz = weight (walk_files ?gs)"
      "weight (walk_files ?gs) \<le> n + weight ws"
      using Cons.prems wf wt w by (simp_all add: distinct_map_filter)
    have "set ws \<subseteq> set (walk_files ?gs)" using Cons.prems(2,3) wf by (auto simp: image_iff)
    then obtain k hs where k: "quota_loop (\<lambda>_. True) n ws (remaining - sz) (reclaimed + sz) ?gs = (reclaimed + sz + weight (take k ws), hs)"
      "walk_files hs = filter (\<lambda>w. fst w \<notin> fst ` set (take k ws)) (walk_files ?gs)" "weight (walk_files hs) \<le> n"
      "weight (walk_files hs) + weight (take k ws) = weight (walk_files ?gs)"
      using Cons.IH [OF pre(1,2) _ pre(3,4), of "reclaimed + sz"] by blast
    show ?thesis using k w False wf wt by (intro exI [of _ "Suc k"] exI [of _ hs]) (auto intro: filter_cong)
  qed
qed

lemma key_split:
  assumes "distinct (map fst ws)" "G \<subseteq> set ws"
  shows "set ws = set (filter (\<lambda>w. fst w \<notin> fst ` G) ws) \<union> G"
proof -
  have "w \<in> G" if "w \<in> set ws" "v \<in> G" "fst w = fst v" for w v
    using that assms by (metis distinct_map inj_onD subsetD)
  then show ?thesis using assms(2) by auto
qed

lemma sorted_take:
  assumes "a \<in> set (take k (sort_key f xs))" "b \<in> set xs" "b \<notin> set (take k (sort_key f xs))"
  shows "f a \<le> f b"
proof -
  have "sorted (map f (take k (sort_key f xs)) @ map f (drop k (sort_key f xs)))"
    unfolding map_append [symmetric] append_take_drop_id by simp
  moreover have "b \<in> set (drop k (sort_key f xs))" using assms(2,3) by (metis Un_iff append_take_drop_id set_append set_sort)
  ultimately show ?thesis using assms(1,3) unfolding sorted_append by auto
qed

text \<open>
  The quota: when every file can be removed, afterwards the store is within the limit, the reported number is what was
  reclaimed, nothing is removed while the store fits, and a removed file is not newer than a file that is kept.
\<close>

theorem cas_quota:
  assumes "hm_wf (st_files s)" "enforce_cache_quota E (\<lambda>_. True) n s = (reclaimed, s')"
  shows "total_bytes s' \<le> n \<and> total_bytes s' + reclaimed = total_bytes s \<and> (total_bytes s \<le> n \<longrightarrow> s' = s)
    \<and> (\<exists>gone. set (walk_store s) = set (walk_store s') \<union> gone \<and> (\<forall>(p, a, t)\<in>gone. \<forall>(q, b, u)\<in>set (walk_store s'). t \<le> u))"
proof -
  let ?ws = "walk_files (st_files s)" and ?key = "\<lambda>w :: string list \<times> nat \<times> nat. snd (snd w)"
  have tot: "total_bytes u = weight (walk_files (st_files u))" for u by (simp add: total_bytes_def weight_def walk_store_files)
  have cur: "(\<Sum>(p, sz, t)\<leftarrow>walk_store s. sz) = weight ?ws" by (simp add: weight_def walk_store_files)
  have dist: "distinct (map fst ?ws)" using assms(1) by (rule walk_distinct)
  show ?thesis
  proof (cases "weight ?ws \<le> n")
    case True
    then show ?thesis using assms(2) cur tot by (auto simp: enforce_cache_quota_def Let_def)
  next
    case False
    let ?srt = "sort_key ?key ?ws"
    have srt: "distinct (map fst ?srt)" "set ?srt \<subseteq> set ?ws" using dist by (simp_all add: distinct_map)
    obtain k gs where k: "quota_loop (\<lambda>_. True) n ?srt (weight ?ws) 0 (st_files s) = (weight (take k ?srt), gs)"
      "walk_files gs = filter (\<lambda>w. fst w \<notin> fst ` set (take k ?srt)) ?ws" "weight (walk_files gs) \<le> n"
      "weight (walk_files gs) + weight (take k ?srt) = weight ?ws"
      using quota_loop_spec [OF dist srt refl, of n 0] by auto
    have eq: "reclaimed = weight (take k ?srt)" "st_files s' = gs"
      using assms(2) False k(1) cur by (auto simp: enforce_cache_quota_def Let_def walk_store_files refresh_index_def case_prod_beta' split: if_splits)
    let ?gone = "set (take k ?srt)"
    have parts: "set ?ws = set (walk_files gs) \<union> ?gone"
      unfolding k(2) by (rule key_split [OF dist]) (use in_set_takeD [of _ k ?srt] in auto)
    have older: "?key a \<le> ?key b" if "a \<in> ?gone" "b \<in> set (walk_files gs)" for a b
      by (rule sorted_take [OF that(1)]) (use that(2) k(2) in auto)
    have "\<forall>(p, a, t)\<in>?gone. \<forall>(q, b, u)\<in>set (walk_files gs). t \<le> u" using older by fastforce
    then have "\<exists>gone. set (walk_store s) = set (walk_store s') \<union> gone \<and> (\<forall>(p, a, t)\<in>gone. \<forall>(q, b, u)\<in>set (walk_store s'). t \<le> u)"
      unfolding walk_store_files eq(2) using parts by blast
    then show ?thesis using k(3,4) eq tot False by simp
  qed
qed

text \<open>
  Clearing leaves the mapped chunks: a chunk that was mapped before is still served afterwards, although the store contains no
  file for it.
\<close>

theorem cas_clear_serves_mapped:
  assumes "get_mmap_cached E h s = (Some d, s')"
  shows "\<not> cas_contains h (cas_clear (\<lambda>_. False) s') \<and> fst (get_mmap_cached E h (cas_clear (\<lambda>_. False) s')) = Some d"
proof -
  have "fst (lru_get h (st_mmaps s')) = Some d" using mapped_stays [OF assms] by (auto simp: lru_get_def Let_def)
  then have "fst (get_mmap_cached E h (cas_clear (\<lambda>_. False) s')) = Some d"
    using mapped_stays [OF assms] by (auto simp: get_mmap_cached_def cas_clear_def split: prod.split)
  then show ?thesis by (simp add: cas_contains_def cas_clear_def hm_has_def hm_retain_def)
qed

end
