(* ===== verification/Swarm.thy ===== *)
theory Swarm
  imports Chunking
begin

section \<open>Parallel swarm downloads (src/network-core/src/swarm.rs)\<close>

text \<open>
  Workers share a cursor over the chunks of a manifest, a memory-mapped file and the set of the chunks written. Each worker
  claims the next chunk, asks up to two peers for it, checks the digest and copies the bytes to their place. A worker is a state
  between two accesses to what is shared; an event lets one worker make its next access, with the answer of the network if it is waiting
  for one, or sets the abort flag, so a list of events is an interleaving. What the fetch gives (QUIC or TCP, with its timeout) is
  in the event; how an answer from the wire is judged is \<open>fetch_chunk_range\<close> and \<open>exchange_chunk\<close>. Offsets are \<open>u64\<close> and sizes \<open>usize\<close> of the same width.

  The theorems: every chunk is claimed once and the workers end after a bounded number of accesses; a download without failures
  leaves exactly the blob, whatever the interleaving and whatever wrong bytes peers send; with a correct second answer for each chunk
  nothing fails; and what the missing check of the blob's digest lets through.
\<close>

subsection \<open>The target file\<close>

datatype target = Not_found | Symlink | Regular "byte list" | Stat_error

record target_path =
  tp_has_parent :: bool
  tp_canonical :: bool
  tp_file_name :: "string option"
  tp_parent_link :: bool

definition has_dotdot :: "string \<Rightarrow> bool" where
  "has_dotdot s \<longleftrightarrow> list_ex (\<lambda>i. take 2 (drop i s) = ''..'') [0..<length s]"

definition validate_out_path :: "target_path \<Rightarrow> unit res" where
  "validate_out_path p =
     (if \<not> tp_has_parent p then Err ''out_path has no parent''
      else if \<not> tp_canonical p then Err ''parent canonicalize''
      else case tp_file_name p of
        None \<Rightarrow> Err ''out_path has no file name''
      | Some name \<Rightarrow>
          if CHR ''/'' \<in> set name \<or> CHR 0x5C \<in> set name \<or> has_dotdot name then Err ''out_path file name invalid''
          else if tp_parent_link p then Err ''out_path parent is a symlink''
          else Ok ())"

definition resize :: "nat \<Rightarrow> byte list \<Rightarrow> byte list" where
  "resize n d = take n d @ replicate (n - length d) 0"

text \<open>\<open>prepare_target\<close>: the result is the mapping, and what is at the path afterwards. The outcomes of opening, resizing and
  mapping are the three flags.\<close>

definition prepare_target :: "target_path \<Rightarrow> bool \<Rightarrow> bool \<Rightarrow> bool \<Rightarrow> nat \<Rightarrow> target \<Rightarrow> byte list res \<times> target" where
  "prepare_target p can_open can_resize can_map n t =
     (case validate_out_path p of
        Err e \<Rightarrow> (Err (''invalid out_path: '' @ e), t)
      | Panic \<Rightarrow> (Panic, t)
      | Ok _ \<Rightarrow>
          (case t of
             Symlink \<Rightarrow> (Err ''refusing symlink out_path'', t)
           | Stat_error \<Rightarrow> (Err ''stat'', t)
           | _ \<Rightarrow>
               let old = (case t of Regular d \<Rightarrow> d | _ \<Rightarrow> []) in
               if \<not> can_open then (Err ''open'', t)
               else if \<not> can_resize then (Err ''sparse set_len'', Regular old)
               else if \<not> can_map then (Err ''mmap failed'', Regular (resize n old))
               else (Ok (resize n old), Regular (resize n old))))"

subsection \<open>Workers\<close>

datatype fetch = Fetched "byte list" | Fetch_error | Timed_out

datatype worker = W_idle | W_claim | W_try nat nat | W_wait nat nat | W_store nat "byte list" | W_mark nat | W_end

record swarm =
  sw_map :: "byte list"
  sw_done :: "nat list"
  sw_next :: nat
  sw_abort :: bool
  sw_workers :: "worker list"

text \<open>\<open>blake3::Hash::from_hex(&chr.blake3).is_ok_and(|h| h == blake3::hash(&data))\<close>\<close>

definition hash_matches :: "digest \<Rightarrow> string \<Rightarrow> byte list \<Rightarrow> bool" where
  "hash_matches b3 h d \<longleftrightarrow> hash_shape h \<and> to_ascii_lowercase h = b3 d"

text \<open>The copy into the mapping, with the checks before it: \<open>None\<close> skips the chunk.\<close>

definition copy_chunk :: "nat \<Rightarrow> chunk_ref \<Rightarrow> byte list \<Rightarrow> byte list \<Rightarrow> byte list option" where
  "copy_chunk n c d m =
     (let fin = cr_offset c + length d in
      if fin > U64_MAX then None
      else if fin > n then None
      else if fin > length m then None
      else Some (take (cr_offset c) m @ d @ drop fin m))"

definition set_worker :: "nat \<Rightarrow> worker \<Rightarrow> swarm \<Rightarrow> swarm" where
  "set_worker w x s = s\<lparr>sw_workers := (sw_workers s)[w := x]\<rparr>"

definition worker_act :: "digest \<Rightarrow> chunk_ref list \<Rightarrow> nat \<Rightarrow> nat \<Rightarrow> fetch \<Rightarrow> swarm \<Rightarrow> swarm" where
  "worker_act b3 chunks n w answer s =
     (case sw_workers s ! w of
        W_idle \<Rightarrow> set_worker w (if sw_abort s then W_end else W_claim) s
      | W_claim \<Rightarrow>
          let idx = sw_next s in
          set_worker w (if idx \<ge> length chunks then W_end else W_try idx 0) (s\<lparr>sw_next := idx + 1\<rparr>)
      | W_try idx attempt \<Rightarrow>
          set_worker w (if attempt \<ge> 2 then W_idle else if sw_abort s then W_idle else W_wait idx attempt) s
      | W_wait idx attempt \<Rightarrow>
          (case answer of
             Fetched d \<Rightarrow> set_worker w (if hash_matches b3 (cr_blake3 (chunks ! idx)) d then W_store idx d else W_try idx (attempt + 1)) s
           | _ \<Rightarrow> set_worker w (W_try idx (attempt + 1)) s)
      | W_store idx d \<Rightarrow>
          (case copy_chunk n (chunks ! idx) d (sw_map s) of
             None \<Rightarrow> set_worker w W_idle s
           | Some m \<Rightarrow> set_worker w (W_mark idx) (s\<lparr>sw_map := m\<rparr>))
      | W_mark idx \<Rightarrow> set_worker w W_idle (s\<lparr>sw_done := hs_insert idx (sw_done s)\<rparr>)
      | W_end \<Rightarrow> s)"

datatype swarm_event = Act nat fetch | Abort

definition swarm_event_step :: "digest \<Rightarrow> chunk_ref list \<Rightarrow> nat \<Rightarrow> swarm_event \<Rightarrow> swarm \<Rightarrow> swarm" where
  "swarm_event_step b3 chunks n e s = (case e of
       Abort \<Rightarrow> s\<lparr>sw_abort := True\<rparr>
     | Act w answer \<Rightarrow> if w < length (sw_workers s) then worker_act b3 chunks n w answer s else s)"

subsection \<open>Requests\<close>

record 'a swarm_config =
  sc_manifest :: chunk_manifest
  sc_peers :: "'a list"
  sc_quic_ports :: "nat option list"
  sc_max_parallel :: nat

record lan_chunk_request =
  lr_hash :: string
  lr_offset :: nat
  lr_length :: nat
  lr_want_manifest :: bool

definition peer_index :: "'a swarm_config \<Rightarrow> nat \<Rightarrow> nat \<Rightarrow> nat \<Rightarrow> nat" where
  "peer_index cfg w idx attempt = (w + idx + attempt) mod length (sc_peers cfg)"

text \<open>What a worker asks: the peer, its QUIC port if it has one, and the request.\<close>

definition swarm_request :: "'a swarm_config \<Rightarrow> nat \<Rightarrow> nat \<Rightarrow> nat \<Rightarrow> 'a \<times> nat option \<times> lan_chunk_request" where
  "swarm_request cfg w idx attempt =
     (let i = peer_index cfg w idx attempt; c = cm_chunks (sc_manifest cfg) ! idx in
      (sc_peers cfg ! i, if i < length (sc_quic_ports cfg) then sc_quic_ports cfg ! i else None,
       \<lparr>lr_hash = cr_blake3 c, lr_offset = cr_offset c, lr_length = cr_len c, lr_want_manifest = False\<rparr>))"

text \<open>A response is its kind and its bytes; an error is one of the connection. \<open>lan_transport::fetch_chunk_range\<close> and the end of
  \<open>quic::exchange_chunk\<close>:\<close>

abbreviation LAN_MAX_FRAME_BYTES :: nat where "LAN_MAX_FRAME_BYTES \<equiv> 16777216"

type_synonym wire_answer = "(nat \<times> byte list) res"

definition fetch_chunk_range :: "wire_answer \<Rightarrow> lan_chunk_request \<Rightarrow> byte list res" where
  "fetch_chunk_range answer req =
     (if lr_want_manifest req then Err ''use fetch_manifest for manifest requests''
      else if length (lr_hash req) \<noteq> 64 \<or> lr_length req = 0 \<or> lr_length req > LAN_MAX_FRAME_BYTES then Err ''bad chunk request''
      else and_then answer (\<lambda>(kind, data).
        if kind = 0 then (if length data = lr_length req then Ok data else Err ''short chunk response'')
        else if kind = 1 then Err ''chunk not found on peer''
        else if kind = 2 then Err ''peer seeding denied (power state)''
        else Err ''bad response kind''))"

definition exchange_chunk :: "wire_answer \<Rightarrow> lan_chunk_request \<Rightarrow> byte list res" where
  "exchange_chunk answer req =
     and_then answer (\<lambda>(kind, data).
       if length data > LAN_MAX_FRAME_BYTES then Err ''oversized response''
       else if kind = 0 then (if lr_want_manifest req \<or> length data = lr_length req then Ok data else Err ''short chunk response'')
       else if kind = 1 then Err ''chunk not found on peer''
       else if kind = 2 then Err ''peer seeding denied (power state)''
       else Err ''bad response kind'')"

definition worker_count :: "'a swarm_config \<Rightarrow> nat" where
  "worker_count cfg = max (min (max (sc_max_parallel cfg) 1) (length (sc_peers cfg) * 2)) 1"

subsection \<open>The download\<close>

record swarm_report =
  rp_verified_chunks :: nat
  rp_bytes_downloaded :: nat
  rp_failures :: nat
  rp_failed_hashes :: "string list"
  rp_cancelled :: bool

definition failed :: "chunk_ref list \<Rightarrow> swarm_report" where
  "failed chunks = \<lparr>rp_verified_chunks = 0, rp_bytes_downloaded = 0, rp_failures = length chunks,
     rp_failed_hashes = map cr_blake3 chunks, rp_cancelled = False\<rparr>"

definition MAX_BLOB_FETCH_BYTES :: nat where "MAX_BLOB_FETCH_BYTES = 512 * 1024 * 1024"

definition swarm_report_of :: "chunk_ref list \<Rightarrow> swarm \<Rightarrow> swarm_report" where
  "swarm_report_of chunks s =
     \<lparr>rp_verified_chunks = length (sw_done s),
      rp_bytes_downloaded = (\<Sum>i\<leftarrow>sw_done s. cr_len (chunks ! i)),
      rp_failures = length chunks - length (sw_done s),
      rp_failed_hashes = map (\<lambda>i. cr_blake3 (chunks ! i)) (filter (\<lambda>i. i \<notin> set (sw_done s)) [0..<length chunks]),
      rp_cancelled = sw_abort s\<rparr>"

definition swarm_start :: "'a swarm_config \<Rightarrow> byte list \<Rightarrow> swarm" where
  "swarm_start cfg m = \<lparr>sw_map = m, sw_done = [], sw_next = 0, sw_abort = False, sw_workers = replicate (worker_count cfg) W_idle\<rparr>"

text \<open>\<open>download\<close> over the events until the workers have ended: the report and what is at the path afterwards; \<open>None\<close> while a worker
  runs. The argument \<open>prepare\<close> is \<open>prepare_target\<close> with the path and the outcomes of its system calls. An abort set before the
  start is an event at the beginning; the removal of the file at the end is taken to succeed.\<close>

definition download :: "digest \<Rightarrow> 'a swarm_config \<Rightarrow> (nat \<Rightarrow> target \<Rightarrow> byte list res \<times> target) \<Rightarrow> target \<Rightarrow> swarm_event list
    \<Rightarrow> (swarm_report \<times> target) option" where
  "download b3 cfg prepare t events =
     (let n = cm_total_size (sc_manifest cfg); chunks = cm_chunks (sc_manifest cfg) in
      if n > MAX_BLOB_FETCH_BYTES then Some (failed chunks, t)
      else if chunks = [] \<or> sc_peers cfg = [] then Some (failed chunks, t)
      else case prepare n t of
        (Ok m, t) \<Rightarrow>
          let s = fold (swarm_event_step b3 chunks n) events (swarm_start cfg m); report = swarm_report_of chunks s in
          if \<not> list_all (\<lambda>x. x = W_end) (sw_workers s) then None
          else Some (report, if rp_failures report > 0 \<or> rp_cancelled report then Not_found else Regular (sw_map s))
      | (_, t) \<Rightarrow> Some (failed chunks, t))"

subsection \<open>Every chunk is claimed once\<close>

fun held :: "worker \<Rightarrow> nat list" where
  "held (W_try i a) = [i]"
| "held (W_wait i a) = [i]"
| "held (W_store i d) = [i]"
| "held (W_mark i) = [i]"
| "held _ = []"

definition owned :: "swarm \<Rightarrow> nat list" where
  "owned s = concat (map held (sw_workers s)) @ sw_done s"

definition swarm_inv :: "chunk_ref list \<Rightarrow> nat \<Rightarrow> swarm \<Rightarrow> bool" where
  "swarm_inv chunks n s \<longleftrightarrow> distinct (owned s) \<and> (\<forall>i\<in>set (owned s). i < sw_next s \<and> i < length chunks) \<and> length (sw_map s) = n"

lemma set_worker_split:
  assumes "w < length (sw_workers s)"
  obtains A B where "sw_workers s = A @ sw_workers s ! w # B" "\<And>x s'. sw_workers s' = sw_workers s \<Longrightarrow> sw_workers (set_worker w x s') = A @ x # B"
proof
  show "sw_workers s = take w (sw_workers s) @ sw_workers s ! w # drop (Suc w) (sw_workers s)"
    using assms by (simp add: id_take_nth_drop)
  show "sw_workers (set_worker w x s') = take w (sw_workers s) @ x # drop (Suc w) (sw_workers s)" if "sw_workers s' = sw_workers s" for x s'
    using assms that by (simp add: set_worker_def upd_conv_take_nth_drop)
qed

lemma set_worker_simps [simp]: "sw_map (set_worker w x s) = sw_map s" "sw_done (set_worker w x s) = sw_done s"
  "sw_next (set_worker w x s) = sw_next s" "sw_abort (set_worker w x s) = sw_abort s"
  by (simp_all add: set_worker_def)

lemma copy_chunk_length: "copy_chunk n c d m = Some m' \<Longrightarrow> length m' = length m"
  by (auto simp: copy_chunk_def Let_def split: if_splits)

lemma swarm_inv_act:
  assumes inv: "swarm_inv chunks n s" and w: "w < length (sw_workers s)"
  shows "swarm_inv chunks n (worker_act b3 chunks n w answer s)"
proof -
  obtain A B where ws: "sw_workers s = A @ sw_workers s ! w # B"
    "\<And>x s'. sw_workers s' = sw_workers s \<Longrightarrow> sw_workers (set_worker w x s') = A @ x # B"
    using set_worker_split [OF w] by blast
  define x0 P Q where "x0 = sw_workers s ! w" and "P = concat (map held A)" and "Q = concat (map held B)"
  have own: "owned s = P @ held x0 @ Q @ sw_done s"
    unfolding owned_def by (subst ws(1)) (simp add: x0_def P_def Q_def)
  have own': "owned (set_worker w x s') = P @ held x @ Q @ sw_done s'" if "sw_workers s' = sw_workers s" for x s'
    using ws(2) [OF that] by (simp add: owned_def P_def Q_def)
  have d: "distinct (P @ held x0 @ Q @ sw_done s)" "\<forall>i\<in>set (P @ held x0 @ Q @ sw_done s). i < sw_next s \<and> i < length chunks" "length (sw_map s) = n"
    using inv unfolding swarm_inv_def own by blast+
  have upd: "swarm_inv chunks n (set_worker w x s')" if "sw_workers s' = sw_workers s" "distinct (P @ held x @ Q @ sw_done s')"
    "\<forall>i\<in>set (P @ held x @ Q @ sw_done s'). i < sw_next s' \<and> i < length chunks" "length (sw_map s') = n" for x s'
    using that own' [OF that(1)] by (simp add: swarm_inv_def)
  have keep: "swarm_inv chunks n (set_worker w x s)" if "set (held x) \<subseteq> set (held x0)" "distinct (held x)" for x
    by (rule upd) (use d that in auto)
  show ?thesis
  proof (cases x0)
    case W_claim
    have "swarm_inv chunks n (set_worker w (if sw_next s \<ge> length chunks then W_end else W_try (sw_next s) 0) (s\<lparr>sw_next := sw_next s + 1\<rparr>))"
      by (rule upd) (use d W_claim in \<open>auto simp: less_Suc_eq\<close>)
    then show ?thesis using W_claim by (simp add: worker_act_def x0_def [symmetric] Let_def)
  next
    case (W_store i data)
    have "swarm_inv chunks n (set_worker w (W_mark i) (s\<lparr>sw_map := m\<rparr>))" if "copy_chunk n (chunks ! i) data (sw_map s) = Some m" for m
      by (rule upd) (use d W_store copy_chunk_length [OF that] in auto)
    then show ?thesis using W_store keep [of W_idle] by (auto simp: worker_act_def x0_def [symmetric] split: option.split)
  next
    case (W_mark i)
    have "swarm_inv chunks n (set_worker w W_idle (s\<lparr>sw_done := hs_insert i (sw_done s)\<rparr>))"
      by (rule upd) (use d W_mark in \<open>auto simp: hs_insert_def\<close>)
    then show ?thesis using W_mark by (simp add: worker_act_def x0_def [symmetric])
  next
    case (W_wait i a)
    then show ?thesis using keep by (simp add: worker_act_def x0_def [symmetric] split: fetch.split)
  next
    case (W_try i a)
    then show ?thesis using keep by (simp add: worker_act_def x0_def [symmetric])
  qed (use keep inv in \<open>simp_all add: worker_act_def x0_def [symmetric]\<close>)
qed

lemma swarm_inv_event: "swarm_inv chunks n s \<Longrightarrow> swarm_inv chunks n (swarm_event_step b3 chunks n e s)"
  using swarm_inv_act by (auto simp: swarm_event_step_def split: swarm_event.split) (auto simp: swarm_inv_def owned_def)

lemma swarm_inv_start: "length m = n \<Longrightarrow> swarm_inv chunks n (swarm_start cfg m)"
  by (simp add: swarm_inv_def owned_def swarm_start_def map_replicate_const)

interpretation swarm: safe_machine "\<lambda>s. \<exists>m. length m = n \<and> s = swarm_start cfg m" "\<lambda>s s'. \<exists>e. s' = swarm_event_step b3 chunks n e s"
  "swarm_inv chunks n" for b3 chunks n cfg
  by unfold_locales (auto intro: swarm_inv_start swarm_inv_event)

subsection \<open>What is written is the blob\<close>

lemma refs_len_take_mono: "i \<le> j \<Longrightarrow> refs_len (take i cs) \<le> refs_len (take j cs)"
  by (metis le_add1 le_Suc_ex refs_len_simps(3) take_add)

lemma tile_order:
  assumes "refs_tile n cs" "i < j" "j < length cs"
  shows "cr_offset (cs ! i) + cr_len (cs ! i) \<le> cr_offset (cs ! j)"
proof -
  have "refs_len (take (Suc i) cs) = refs_len (take i cs) + cr_len (cs ! i)" using assms by (simp add: take_Suc_conv_app_nth)
  then show ?thesis using refs_tile_nth(1) [OF assms(1)] refs_len_take_mono [of "Suc i" j cs] assms by simp
qed

lemma part_splice_other:
  assumes "cr_offset c + length d \<le> length m" "cr_offset e + cr_len e \<le> cr_offset c \<or> cr_offset c + length d \<le> cr_offset e"
  shows "part (take (cr_offset c) m @ d @ drop (cr_offset c + length d) m) e = part m e"
  using assms(2)
proof
  assume "cr_offset e + cr_len e \<le> cr_offset c"
  then have "take (cr_offset e + cr_len e) (take (cr_offset c) m @ d @ drop (cr_offset c + length d) m) = take (cr_offset e + cr_len e) m"
    using assms(1) by (simp add: min_absorb1)
  then show ?thesis unfolding part_def take_drop by (simp only: add.commute [of "cr_len e"])
next
  assume le: "cr_offset c + length d \<le> cr_offset e"
  then have "drop (cr_offset e) (take (cr_offset c) m @ d @ drop (cr_offset c + length d) m)
      = drop (cr_offset e - cr_offset c - length d) (drop (cr_offset c + length d) m)" using assms(1) by simp
  also have "\<dots> = drop (cr_offset e) m" using le by simp
  finally show ?thesis by (simp add: part_def)
qed

lemma part_splice_same:
  "cr_offset c + length d \<le> length m \<Longrightarrow> length d = cr_len c \<Longrightarrow> part (take (cr_offset c) m @ d @ drop (cr_offset c + length d) m) c = d"
  by (simp add: part_def)

lemma tiled_eq:
  assumes "refs_tile n cs" "\<forall>c\<in>set cs. part a c = part b c"
  shows "seg a n (n + refs_len cs) = seg b n (n + refs_len cs)"
  using assms
proof (induction cs arbitrary: n)
  case (Cons c cs)
  have "seg x n (n + refs_len (c # cs)) = part x c @ seg x (n + cr_len c) (n + cr_len c + refs_len cs)" for x
    using seg_append [of n "n + cr_len c" "n + cr_len c + refs_len cs" x] Cons.prems(1) by (simp add: part_seg add.assoc)
  then show ?case using Cons by simp
qed simp

definition worker_good :: "chunk_ref list \<Rightarrow> byte list \<Rightarrow> byte list \<Rightarrow> worker \<Rightarrow> bool" where
  "worker_good chunks data mp x = (case x of W_store i d \<Rightarrow> d = part data (chunks ! i)
     | W_mark i \<Rightarrow> part mp (chunks ! i) = part data (chunks ! i) | _ \<Rightarrow> True)"

definition content_ok :: "chunk_ref list \<Rightarrow> byte list \<Rightarrow> swarm \<Rightarrow> bool" where
  "content_ok chunks data s \<longleftrightarrow> (\<forall>i\<in>set (sw_done s). part (sw_map s) (chunks ! i) = part data (chunks ! i))
     \<and> (\<forall>x\<in>set (sw_workers s). worker_good chunks data (sw_map s) x)"

lemma worker_good_simps [simp]: "worker_good chunks data mp W_idle" "worker_good chunks data mp W_claim" "worker_good chunks data mp W_end"
  "worker_good chunks data mp (W_try i a)" "worker_good chunks data mp (W_wait i a)"
  "worker_good chunks data mp (W_store i d) \<longleftrightarrow> d = part data (chunks ! i)"
  "worker_good chunks data mp (W_mark i) \<longleftrightarrow> part mp (chunks ! i) = part data (chunks ! i)"
  by (simp_all add: worker_good_def)

lemma content_set_worker: "content_ok chunks data s \<Longrightarrow> worker_good chunks data (sw_map s) x \<Longrightarrow> content_ok chunks data (set_worker w x s)"
  using set_update_subset_insert [of "sw_workers s" w x] by (auto simp: content_ok_def set_worker_def)

lemma hash_matches_part:
  assumes "unique_parts b3 m data" "b3_ok b3" "c \<in> set (cm_chunks m)" "hash_matches b3 (cr_blake3 c) d"
  shows "d = part data c"
proof -
  have "eq_ignore_ascii_case (b3 d) (cr_blake3 c)" using assms(2,4) by (simp add: hash_matches_def eq_ignore_ascii_case_def b3_ok_def)
  then show ?thesis using assms(1,3) unfolding unique_parts_def by blast
qed

lemma copy_described:
  assumes "describes b3 m data" "i < length (cm_chunks m)" "length mp = length data"
  shows "copy_chunk (length data) (cm_chunks m ! i) (part data (cm_chunks m ! i)) mp
    = Some (take (cr_offset (cm_chunks m ! i)) mp @ part data (cm_chunks m ! i)
        @ drop (cr_offset (cm_chunks m ! i) + length (part data (cm_chunks m ! i))) mp)"
    "cr_offset (cm_chunks m ! i) + length (part data (cm_chunks m ! i)) \<le> length mp"
    "length (part data (cm_chunks m ! i)) = cr_len (cm_chunks m ! i)"
proof -
  have t: "refs_tile 0 (cm_chunks m)" "refs_len (cm_chunks m) = length data" "length data < U64_MAX"
    using assms(1) manifest_valid_iff [of m] by (auto simp: describes_def)
  have off: "cr_offset (cm_chunks m ! i) + cr_len (cm_chunks m ! i) \<le> length data" using refs_tile_nth(4) [OF t(1) assms(2)] t(2) by simp
  then show len: "length (part data (cm_chunks m ! i)) = cr_len (cm_chunks m ! i)" by (simp add: part_def)
  show le: "cr_offset (cm_chunks m ! i) + length (part data (cm_chunks m ! i)) \<le> length mp" using off len assms(3) by simp
  then show "copy_chunk (length data) (cm_chunks m ! i) (part data (cm_chunks m ! i)) mp
    = Some (take (cr_offset (cm_chunks m ! i)) mp @ part data (cm_chunks m ! i)
        @ drop (cr_offset (cm_chunks m ! i) + length (part data (cm_chunks m ! i))) mp)"
    using t(3) assms(3) by (simp add: copy_chunk_def Let_def)
qed

lemma other_part_kept:
  assumes d: "describes b3 m data" and i: "i < length (cm_chunks m)" and j: "j < length (cm_chunks m)" "j \<noteq> i" and mp: "length mp = length data"
  shows "part (take (cr_offset (cm_chunks m ! i)) mp @ part data (cm_chunks m ! i)
        @ drop (cr_offset (cm_chunks m ! i) + length (part data (cm_chunks m ! i))) mp) (cm_chunks m ! j) = part mp (cm_chunks m ! j)"
proof (rule part_splice_other [OF copy_described(2) [OF d i mp]])
  have t: "refs_tile 0 (cm_chunks m)" using d manifest_valid_iff [of m] by (auto simp: describes_def)
  show "cr_offset (cm_chunks m ! j) + cr_len (cm_chunks m ! j) \<le> cr_offset (cm_chunks m ! i)
      \<or> cr_offset (cm_chunks m ! i) + length (part data (cm_chunks m ! i)) \<le> cr_offset (cm_chunks m ! j)"
    using tile_order [OF t, of j i] tile_order [OF t, of i j] copy_described(3) [OF d i mp] i j by linarith
qed

text \<open>Writing a chunk touches neither a chunk already written nor one another worker has just written.\<close>

lemma content_store:
  assumes d: "describes b3 m data" and inv: "swarm_inv (cm_chunks m) (length data) s" and c: "content_ok (cm_chunks m) data s"
    and w: "w < length (sw_workers s)" "sw_workers s ! w = W_store i dd"
  shows "content_ok (cm_chunks m) data (set_worker w (W_mark i)
    (s\<lparr>sw_map := take (cr_offset (cm_chunks m ! i)) (sw_map s) @ dd @ drop (cr_offset (cm_chunks m ! i) + length dd) (sw_map s)\<rparr>))"
    (is "content_ok ?cs data (set_worker w (W_mark i) (s\<lparr>sw_map := ?mp\<rparr>))")
proof -
  obtain A B where ws: "sw_workers s = A @ sw_workers s ! w # B"
    "\<And>x s'. sw_workers s' = sw_workers s \<Longrightarrow> sw_workers (set_worker w x s') = A @ x # B"
    using set_worker_split [OF w(1)] by blast
  have "set (sw_workers s) = set (A @ sw_workers s ! w # B)" using arg_cong [OF ws(1), of set] .
  then have sub: "set A \<union> set B \<subseteq> set (sw_workers s)" by auto
  have "W_store i dd \<in> set (sw_workers s)" using nth_mem [OF w(1)] w(2) by simp
  then have "worker_good ?cs data (sw_map s) (W_store i dd)" using c unfolding content_ok_def by blast
  then have dd: "dd = part data (?cs ! i)" by simp
  have own: "owned s = concat (map held A) @ i # concat (map held B) @ sw_done s"
    unfolding owned_def by (subst ws(1)) (simp add: w(2))
  have inv': "distinct (owned s)" "\<forall>j\<in>set (owned s). j < length ?cs" "length (sw_map s) = length data" using inv by (simp_all add: swarm_inv_def)
  then have i: "i < length ?cs" using own by simp
  have keep: "part ?mp (?cs ! j) = part (sw_map s) (?cs ! j)" if "j < length ?cs" "j \<noteq> i" for j
    unfolding dd by (rule other_part_kept [OF d i that inv'(3)])
  have other: "j < length ?cs \<and> j \<noteq> i" if "j \<in> set (sw_done s) \<or> (\<exists>x\<in>set A \<union> set B. j \<in> set (held x))" for j
    using that inv'(1,2) own by auto
  have same: "part ?mp (?cs ! i) = part data (?cs ! i)"
    unfolding dd using part_splice_same copy_described(2,3) [OF d i inv'(3)] by blast
  have "worker_good ?cs data ?mp x" if x: "x \<in> set A \<union> set B" for x
  proof -
    have g: "worker_good ?cs data (sw_map s) x" using c x sub unfolding content_ok_def by blast
    show ?thesis
    proof (cases x)
      case (W_mark j)
      then have "j \<in> set (held x)" by simp
      then have "j < length ?cs \<and> j \<noteq> i" using other [of j] x by blast
      then show ?thesis using W_mark g keep by simp
    qed (use g in simp_all)
  qed
  then have "\<forall>x\<in>set (A @ W_mark i # B). worker_good ?cs data ?mp x" using same by auto
  moreover have "\<forall>j\<in>set (sw_done s). part ?mp (?cs ! j) = part data (?cs ! j)"
  proof
    fix j assume j: "j \<in> set (sw_done s)"
    then have "part (sw_map s) (?cs ! j) = part data (?cs ! j)" using c unfolding content_ok_def by blast
    then show "part ?mp (?cs ! j) = part data (?cs ! j)" using keep [of j] other [of j] j by simp
  qed
  ultimately show ?thesis unfolding content_ok_def set_worker_simps using ws(2) [of "s\<lparr>sw_map := ?mp\<rparr>" "W_mark i"] by simp
qed

lemma content_act:
  assumes d: "describes b3 m data" "b3_ok b3" "collision_free b3 data" and inv: "swarm_inv (cm_chunks m) (length data) s"
    and c: "content_ok (cm_chunks m) data s" and w: "w < length (sw_workers s)"
  shows "content_ok (cm_chunks m) data (worker_act b3 (cm_chunks m) (length data) w answer s)"
proof -
  let ?cs = "cm_chunks m"
  define x0 where "x0 = sw_workers s ! w"
  have x0: "x0 \<in> set (sw_workers s)" using w by (simp add: x0_def)
  have own: "i < length ?cs" if "i \<in> set (held x0)" for i using inv x0 that by (auto simp: swarm_inv_def owned_def)
  show ?thesis
  proof (cases x0)
    case (W_wait i a)
    have "?cs ! i \<in> set ?cs" using own W_wait by simp
    then have "d' = part data (?cs ! i)" if "hash_matches b3 (cr_blake3 (?cs ! i)) d'" for d'
      using hash_matches_part [OF collision_free_parts [OF d(2,3,1)] d(2) _ that] by blast
    then show ?thesis using W_wait c by (simp add: worker_act_def x0_def [symmetric] content_set_worker split: fetch.split)
  next
    case (W_store i dd)
    then have dd: "dd = part data (?cs ! i)" using c x0 unfolding content_ok_def by fastforce
    have i: "i < length ?cs" using own W_store by simp
    have "length (sw_map s) = length data" using inv by (simp add: swarm_inv_def)
    then show ?thesis using content_store [OF d(1) inv c w, of i dd] copy_described(1) [OF d(1) i] W_store dd
      by (simp add: worker_act_def x0_def [symmetric])
  next
    case (W_mark i)
    then have "part (sw_map s) (?cs ! i) = part data (?cs ! i)" using c x0 unfolding content_ok_def by fastforce
    then have "content_ok ?cs data (s\<lparr>sw_done := hs_insert i (sw_done s)\<rparr>)" using c by (simp add: content_ok_def)
    then show ?thesis using W_mark by (simp add: worker_act_def x0_def [symmetric] content_set_worker)
  next
    case W_claim
    have "content_ok ?cs data (s\<lparr>sw_next := k\<rparr>)" for k using c by (simp add: content_ok_def)
    then show ?thesis using W_claim by (simp add: worker_act_def x0_def [symmetric] Let_def content_set_worker)
  qed (use c in \<open>simp_all add: worker_act_def x0_def [symmetric] content_set_worker\<close>)
qed

definition swarm_run :: "digest \<Rightarrow> chunk_ref list \<Rightarrow> nat \<Rightarrow> swarm_event list \<Rightarrow> swarm \<Rightarrow> swarm" where
  "swarm_run b3 chunks n events s = fold (swarm_event_step b3 chunks n) events s"

lemma swarm_run_inv: "swarm_inv chunks n s \<Longrightarrow> swarm_inv chunks n (swarm_run b3 chunks n events s)"
  unfolding swarm_run_def by (induction events arbitrary: s) (simp_all add: swarm_inv_event)

lemma swarm_run_content:
  assumes "describes b3 m data" "b3_ok b3" "collision_free b3 data" "swarm_inv (cm_chunks m) (length data) s" "content_ok (cm_chunks m) data s"
  shows "content_ok (cm_chunks m) data (swarm_run b3 (cm_chunks m) (length data) events s)"
  using assms(4,5) unfolding swarm_run_def
proof (induction events arbitrary: s)
  case (Cons e events)
  have "content_ok (cm_chunks m) data (swarm_event_step b3 (cm_chunks m) (length data) e s)"
    using content_act [OF assms(1-3) Cons.prems] Cons.prems(2)
    by (auto simp: swarm_event_step_def split: swarm_event.split) (simp add: content_ok_def)
  then show ?case using Cons.IH swarm_inv_event Cons.prems(1) by simp
qed simp

lemma content_start: "content_ok chunks data (swarm_start cfg mp)"
  by (simp add: content_ok_def swarm_start_def)

lemma length_resize [simp]: "length (resize n d) = n"
  by (simp add: resize_def min_def)

lemma prepare_length: "prepare_target p a b c n t = (Ok mp, t') \<Longrightarrow> length mp = n"
  by (auto simp: prepare_target_def Let_def split: res.splits target.splits if_splits)

text \<open>What a finished set of workers has written\<close>

lemma all_done_blob:
  assumes "describes b3 m data" "content_ok (cm_chunks m) data s" "length (sw_map s) = length data" "{0..<length (cm_chunks m)} \<subseteq> set (sw_done s)"
  shows "sw_map s = data"
proof -
  have t: "refs_tile 0 (cm_chunks m)" "refs_len (cm_chunks m) = length data" using assms(1) manifest_valid_iff [of m] by (auto simp: describes_def)
  have "\<forall>c\<in>set (cm_chunks m). part (sw_map s) c = part data c"
    using assms(2,4) by (auto simp: content_ok_def in_set_conv_nth subset_eq)
  then have "seg (sw_map s) 0 (length data) = seg data 0 (length data)" using tiled_eq [OF t(1)] t(2) by simp
  then show ?thesis using assms(3) by (simp add: seg_def)
qed

lemma report_zero:
  assumes "swarm_inv chunks n s" "rp_failures (swarm_report_of chunks s) = 0"
  shows "set (sw_done s) = {0..<length chunks}" "length (sw_done s) = length chunks" "distinct (sw_done s)"
proof -
  have d: "distinct (sw_done s)" "set (sw_done s) \<subseteq> {0..<length chunks}" using assms(1) by (auto simp: swarm_inv_def owned_def)
  then have "length (sw_done s) \<le> length chunks" using card_mono [OF _ d(2)] distinct_card [OF d(1)] by simp
  then show l: "length (sw_done s) = length chunks" using assms(2) by (simp add: swarm_report_of_def)
  show "set (sw_done s) = {0..<length chunks}" by (rule card_subset_eq) (use d l distinct_card [OF d(1)] in simp_all)
  show "distinct (sw_done s)" by (rule d(1))
qed

lemma bytes_of_all: "distinct is \<Longrightarrow> set is = {0..<length cs} \<Longrightarrow> (\<Sum>i\<leftarrow>is. cr_len (cs ! i)) = refs_len cs"
proof -
  assume "distinct is" "set is = {0..<length cs}"
  then have "(\<Sum>i\<leftarrow>is. cr_len (cs ! i)) = (\<Sum>i\<in>{0..<length cs}. cr_len (cs ! i))" by (metis sum_list_distinct_conv_sum_set)
  also have "\<dots> = refs_len cs" unfolding refs_len_def by (simp add: sum_list_sum_nth)
  finally show ?thesis .
qed

lemma failures_count:
  assumes "swarm_inv chunks n s"
  shows "length (rp_failed_hashes (swarm_report_of chunks s)) = rp_failures (swarm_report_of chunks s)"
proof -
  have d: "distinct (sw_done s)" "set (sw_done s) \<subseteq> {0..<length chunks}" using assms by (auto simp: swarm_inv_def owned_def)
  have "length (filter (\<lambda>i. i \<notin> set (sw_done s)) [0..<length chunks]) = card ({0..<length chunks} - set (sw_done s))"
    by (subst distinct_card [symmetric]) (auto intro: arg_cong [of _ _ card])
  also have "\<dots> = length chunks - length (sw_done s)" using d distinct_card [OF d(1)] by (simp add: card_Diff_subset)
  finally show ?thesis by (simp add: swarm_report_of_def)
qed

text \<open>C10. A download that reports no failure has the blob: for every interleaving of the workers and every sequence of answers, wrong ones
  among them, the file is exactly the blob of the manifest and the byte count is its size; otherwise there are as many failed hashes
  as failures, and no file is left of a download that was started.
\<close>

theorem swarm_download_exact:
  assumes m: "describes b3 (sc_manifest cfg) data" "b3_ok b3" "collision_free b3 data"
    and start: "length data \<le> MAX_BLOB_FETCH_BYTES" "cm_chunks (sc_manifest cfg) \<noteq> []" "sc_peers cfg \<noteq> []"
    and prep: "prepare_target p can_open can_resize can_map (length data) t = (Ok mp, t1)"
    and d: "download b3 cfg (prepare_target p can_open can_resize can_map) t events = Some (report, t')"
  shows "(if rp_failures report = 0 \<and> \<not> rp_cancelled report
          then t' = Regular data \<and> rp_bytes_downloaded report = length data \<and> rp_verified_chunks report = length (cm_chunks (sc_manifest cfg))
          else t' = Not_found)
    \<and> length (rp_failed_hashes report) = rp_failures report"
proof -
  let ?cs = "cm_chunks (sc_manifest cfg)"
  define s where "s = swarm_run b3 ?cs (length data) events (swarm_start cfg mp)"
  have n: "cm_total_size (sc_manifest cfg) = length data" using m(1) by (simp add: describes_def)
  have eq: "report = swarm_report_of ?cs s" "t' = (if rp_failures report > 0 \<or> rp_cancelled report then Not_found else Regular (sw_map s))"
    using d start prep n by (auto simp: download_def Let_def s_def swarm_run_def split: if_splits)
  have inv: "swarm_inv ?cs (length data) s"
    unfolding s_def by (intro swarm_run_inv swarm_inv_start prepare_length [OF prep])
  have con: "content_ok ?cs data s"
    unfolding s_def by (rule swarm_run_content [OF m swarm_inv_start [OF prepare_length [OF prep]] content_start])
  have t: "refs_len ?cs = length data" using m(1) manifest_valid_iff [of "sc_manifest cfg"] by (auto simp: describes_def)
  have "sw_map s = data \<and> rp_bytes_downloaded report = length data \<and> rp_verified_chunks report = length ?cs" if "rp_failures report = 0"
    using all_done_blob [OF m(1) con] report_zero [OF inv] that inv bytes_of_all [of "sw_done s" ?cs] t
    by (simp add: eq(1) swarm_inv_def) (simp add: swarm_report_of_def)
  then show ?thesis using eq failures_count [OF inv] by auto
qed

subsection \<open>The workers end\<close>

fun work_left :: "worker \<Rightarrow> nat" where
  "work_left W_end = 0"
| "work_left W_claim = 1"
| "work_left W_idle = 2"
| "work_left (W_mark i) = 3"
| "work_left (W_store i d) = 4"
| "work_left (W_try i a) = 8 - 2 * min a 2"
| "work_left (W_wait i a) = 7 - 2 * min a 1"

definition potential :: "chunk_ref list \<Rightarrow> swarm \<Rightarrow> nat" where
  "potential chunks s = 10 * (length chunks - sw_next s) + sum_list (map work_left (sw_workers s))"

definition is_live :: "swarm_event \<Rightarrow> swarm \<Rightarrow> bool" where
  "is_live e s = (case e of Abort \<Rightarrow> False | Act w _ \<Rightarrow> w < length (sw_workers s) \<and> sw_workers s ! w \<noteq> W_end)"

fun live_acts :: "digest \<Rightarrow> chunk_ref list \<Rightarrow> nat \<Rightarrow> swarm_event list \<Rightarrow> swarm \<Rightarrow> nat" where
  "live_acts b3 chunks n [] s = 0"
| "live_acts b3 chunks n (e # events) s =
     (if is_live e s then 1 else 0) + live_acts b3 chunks n events (swarm_event_step b3 chunks n e s)"

text \<open>A worker waits for a first or a second answer only.\<close>

definition attempts_ok :: "swarm \<Rightarrow> bool" where
  "attempts_ok s \<longleftrightarrow> (\<forall>x\<in>set (sw_workers s). case x of W_wait i a \<Rightarrow> a \<le> 1 | _ \<Rightarrow> True)"

lemma attempts_set_worker: "attempts_ok s \<Longrightarrow> (\<forall>i a. x = W_wait i a \<longrightarrow> a \<le> 1) \<Longrightarrow> attempts_ok (set_worker w x s)"
  using set_update_subset_insert [of "sw_workers s" w x] by (force simp: attempts_ok_def set_worker_def split: worker.split)

lemma attempts_event: "attempts_ok s \<Longrightarrow> attempts_ok (swarm_event_step b3 chunks n e s)"
proof -
  assume a: "attempts_ok s"
  have b: "attempts_ok (s\<lparr>sw_next := k\<rparr>)" "attempts_ok (s\<lparr>sw_map := mp\<rparr>)" "attempts_ok (s\<lparr>sw_done := ds\<rparr>)" "attempts_ok (s\<lparr>sw_abort := q\<rparr>)" for k mp ds q
    using a by (simp_all add: attempts_ok_def)
  show ?thesis
    by (auto simp: swarm_event_step_def worker_act_def Let_def a b intro!: attempts_set_worker
        split: swarm_event.split worker.split fetch.split option.split)
qed

lemma sum_work_update:
  assumes "w < length ws"
  shows "sum_list (map work_left (ws[w := x])) + work_left (ws ! w) = sum_list (map work_left ws) + work_left x"
proof -
  have "ws = take w ws @ ws ! w # drop (Suc w) ws" "ws[w := x] = take w ws @ x # drop (Suc w) ws"
    using assms by (simp_all add: id_take_nth_drop upd_conv_take_nth_drop)
  then have "map work_left ws = map work_left (take w ws) @ work_left (ws ! w) # map work_left (drop (Suc w) ws)"
    "map work_left (ws[w := x]) = map work_left (take w ws) @ work_left x # map work_left (drop (Suc w) ws)"
    by (metis list.simps(9) map_append)+
  then show ?thesis by simp
qed

lemma potential_decreases:
  assumes "attempts_ok s" "is_live e s"
  shows "potential chunks (swarm_event_step b3 chunks n e s) < potential chunks s"
proof -
  obtain w answer where e: "e = Act w answer" and w: "w < length (sw_workers s)" "sw_workers s ! w \<noteq> W_end"
    using assms(2) by (auto simp: is_live_def split: swarm_event.splits)
  have a: "a \<le> 1" if "sw_workers s ! w = W_wait i a" for i a using assms(1) nth_mem [OF w(1)] that by (force simp: attempts_ok_def)
  have pot: "potential chunks (set_worker w x s') < potential chunks s"
    if "sw_workers s' = sw_workers s" "work_left x + 10 * (length chunks - sw_next s') < work_left (sw_workers s ! w) + 10 * (length chunks - sw_next s)" for x s'
    using that sum_work_update [OF w(1), of x] by (simp add: potential_def set_worker_def)
  have "potential chunks (worker_act b3 chunks n w answer s) < potential chunks s"
    using w(2) a by (cases "sw_workers s ! w") (auto simp: worker_act_def Let_def intro!: pot split: fetch.split option.split)
  then show ?thesis using e w(1) by (simp add: swarm_event_step_def)
qed

lemma potential_event: "\<not> is_live e s \<Longrightarrow> potential chunks (swarm_event_step b3 chunks n e s) = potential chunks s"
  by (auto simp: is_live_def swarm_event_step_def worker_act_def potential_def split: swarm_event.splits)

lemma live_acts_bound: "attempts_ok s \<Longrightarrow> live_acts b3 chunks n events s + potential chunks (swarm_run b3 chunks n events s) \<le> potential chunks s"
  unfolding swarm_run_def
proof (induction events arbitrary: s)
  case (Cons e events)
  let ?s = "swarm_event_step b3 chunks n e s"
  have "live_acts b3 chunks n events ?s + potential chunks (fold (swarm_event_step b3 chunks n) events ?s) \<le> potential chunks ?s"
    by (rule Cons.IH [OF attempts_event [OF Cons.prems]])
  then show ?case using potential_decreases [OF Cons.prems, of e chunks b3 n] potential_event [of e s chunks b3 n]
    by (cases "is_live e s") simp_all
qed simp

text \<open>C34. The workers end: in any sequence of events at most ten accesses per chunk and two per worker are made by workers that have not
  ended, whatever the peers answer. So every schedule that keeps letting such a worker act ends.
\<close>

theorem swarm_ends:
  "live_acts b3 chunks n events (swarm_start cfg mp) \<le> 10 * length chunks + 2 * worker_count cfg"
proof -
  have "attempts_ok (swarm_start cfg mp)" by (simp add: attempts_ok_def swarm_start_def)
  from live_acts_bound [OF this, of b3 chunks n events]
  show ?thesis by (simp add: potential_def swarm_start_def sum_list_replicate)
qed

subsection \<open>Nothing fails when second answers are right\<close>

fun answered :: "digest \<Rightarrow> chunk_manifest \<Rightarrow> byte list \<Rightarrow> swarm_event list \<Rightarrow> swarm \<Rightarrow> bool" where
  "answered b3 m data [] s = True"
| "answered b3 m data (e # events) s \<longleftrightarrow>
     (case e of Abort \<Rightarrow> False
      | Act w answer \<Rightarrow> w < length (sw_workers s) \<longrightarrow>
          (case sw_workers s ! w of W_wait i a \<Rightarrow> a = 1 \<longrightarrow> answer = Fetched (part data (cm_chunks m ! i)) | _ \<Rightarrow> True))
     \<and> answered b3 m data events (swarm_event_step b3 (cm_chunks m) (length data) e s)"

text \<open>No chunk is given up: every claimed one is held by a worker or written, and a worker ends only when all are claimed.\<close>

definition none_lost :: "chunk_ref list \<Rightarrow> swarm \<Rightarrow> bool" where
  "none_lost chunks s \<longleftrightarrow> \<not> sw_abort s \<and> (\<forall>i. i < sw_next s \<and> i < length chunks \<longrightarrow> i \<in> set (owned s))
     \<and> (\<forall>x\<in>set (sw_workers s). (\<forall>i a. x = W_try i a \<longrightarrow> a \<le> 1) \<and> (x = W_end \<longrightarrow> length chunks \<le> sw_next s))"

lemma none_lost_update:
  assumes l: "none_lost chunks s" and w: "w < length (sw_workers s)" and s': "sw_workers s' = sw_workers s" "sw_abort s' = sw_abort s"
    and own: "\<forall>i. i < sw_next s' \<and> i < length chunks \<longrightarrow> i \<in> set (held x) \<union> set (sw_done s') \<or> i < sw_next s \<and> i \<notin> set (held (sw_workers s ! w))"
    and dn: "set (sw_done s) \<subseteq> set (sw_done s')" "sw_next s \<le> sw_next s'"
    and x: "\<forall>i a. x = W_try i a \<longrightarrow> a \<le> 1" "x = W_end \<longrightarrow> length chunks \<le> sw_next s'"
  shows "none_lost chunks (set_worker w x s')"
proof -
  obtain A B where ws: "sw_workers s = A @ sw_workers s ! w # B"
    "\<And>x s'. sw_workers s' = sw_workers s \<Longrightarrow> sw_workers (set_worker w x s') = A @ x # B"
    using set_worker_split [OF w] by blast
  define P where "P = set (concat (map held A)) \<union> set (concat (map held B))"
  have o: "set (owned s) = P \<union> set (held (sw_workers s ! w)) \<union> set (sw_done s)"
    unfolding owned_def P_def by (subst ws(1)) auto
  have o': "set (owned (set_worker w x s')) = P \<union> set (held x) \<union> set (sw_done s')"
    using ws(2) [OF s'(1), of x] by (auto simp: owned_def P_def)
  have "i \<in> set (owned (set_worker w x s'))" if "i < sw_next s'" "i < length chunks" for i
  proof (cases "i \<in> set (held x) \<union> set (sw_done s')")
    case False
    then have "i < sw_next s" "i \<notin> set (held (sw_workers s ! w))" using own that by blast+
    then have "i \<in> P \<union> set (sw_done s)" using l that(2) o unfolding none_lost_def by blast
    then show ?thesis using o' dn(1) by blast
  qed (use o' in blast)
  moreover have "(\<forall>i a. y = W_try i a \<longrightarrow> a \<le> 1) \<and> (y = W_end \<longrightarrow> length chunks \<le> sw_next s')" if "y \<in> set (sw_workers (set_worker w x s'))" for y
  proof (cases "y = x")
    case False
    then have "y \<in> set (sw_workers s)"
      using that set_update_subset_insert [of "sw_workers s" w x] s'(1) by (auto simp: set_worker_def)
    then have "(\<forall>i a. y = W_try i a \<longrightarrow> a \<le> 1) \<and> (y = W_end \<longrightarrow> length chunks \<le> sw_next s)" using l unfolding none_lost_def by blast
    then show ?thesis using dn(2) by (auto intro: le_trans)
  qed (use x in simp)
  moreover have "\<not> sw_abort s'" using l s'(2) by (simp add: none_lost_def)
  ultimately show ?thesis by (simp add: none_lost_def)
qed

lemma none_lost_act:
  assumes d: "describes b3 m data" "b3_ok b3" and l: "none_lost (cm_chunks m) s" and w: "w < length (sw_workers s)"
    and inv: "swarm_inv (cm_chunks m) (length data) s" and c: "content_ok (cm_chunks m) data s" and at: "attempts_ok s"
    and ans: "\<forall>i. sw_workers s ! w = W_wait i 1 \<longrightarrow> answer = Fetched (part data (cm_chunks m ! i))"
  shows "none_lost (cm_chunks m) (worker_act b3 (cm_chunks m) (length data) w answer s)"
proof -
  let ?cs = "cm_chunks m"
  define x0 where "x0 = sw_workers s ! w"
  have x0: "x0 \<in> set (sw_workers s)" using w by (simp add: x0_def)
  have keep: "none_lost ?cs (set_worker w x s)" if "held x = held x0" "\<forall>i a. x = W_try i a \<longrightarrow> a \<le> 1" "x \<noteq> W_end" for x
    by (rule none_lost_update [OF l w]) (use that l in \<open>auto simp: x0_def none_lost_def\<close>)
  have own: "i < length ?cs" if "i \<in> set (held x0)" for i using inv x0 that by (auto simp: swarm_inv_def owned_def)
  have na: "\<not> sw_abort s" using l by (simp add: none_lost_def)
  show ?thesis
  proof (cases x0)
    case W_idle
    then show ?thesis using keep [of W_claim] na by (simp add: worker_act_def x0_def [symmetric])
  next
    case W_claim
    have "none_lost ?cs (set_worker w (if sw_next s \<ge> length ?cs then W_end else W_try (sw_next s) 0) (s\<lparr>sw_next := sw_next s + 1\<rparr>))"
      by (rule none_lost_update [OF l w]) (use W_claim in \<open>auto simp: x0_def less_Suc_eq\<close>)
    then show ?thesis using W_claim by (simp add: worker_act_def x0_def [symmetric] Let_def)
  next
    case (W_try i a)
    then have "a \<le> 1" using l x0 unfolding none_lost_def by blast
    then show ?thesis using keep [of "W_wait i a"] W_try na by (simp add: worker_act_def x0_def [symmetric])
  next
    case (W_wait i a)
    then have a: "a \<le> 1" using at x0 by (force simp: attempts_ok_def)
    have hm: "hash_matches b3 (cr_blake3 (?cs ! i)) (part data (?cs ! i))"
    proof -
      have "?cs ! i \<in> set ?cs" using own W_wait by simp
      then have "cr_blake3 (?cs ! i) = b3 (part data (?cs ! i))" using d(1) unfolding describes_def by blast
      then show ?thesis using d(2) by (simp add: hash_matches_def b3_ok_def)
    qed
    have st: "none_lost ?cs (set_worker w (W_store i dd) s)" for dd using keep [of "W_store i dd"] W_wait by simp
    have tr: "none_lost ?cs (set_worker w (W_try i (a + 1)) s)" if "a = 0" using keep [of "W_try i (a + 1)"] W_wait that by simp
    show ?thesis
    proof (cases "a = 0")
      case True
      then show ?thesis using W_wait st tr by (simp add: worker_act_def x0_def [symmetric] split: fetch.split)
    next
      case False
      then have "a = 1" using a by simp
      then have "answer = Fetched (part data (?cs ! i))" using ans W_wait by (simp add: x0_def)
      then show ?thesis using W_wait st hm by (simp add: worker_act_def x0_def [symmetric])
    qed
  next
    case (W_store i dd)
    then have dd: "dd = part data (?cs ! i)" using c x0 unfolding content_ok_def by fastforce
    have mp: "length (sw_map s) = length data" using inv by (simp add: swarm_inv_def)
    obtain mp' where mp': "copy_chunk (length data) (?cs ! i) dd (sw_map s) = Some mp'"
      using copy_described(1) [OF d(1) _ mp, of i] own W_store dd by auto
    have "none_lost ?cs (set_worker w (W_mark i) (s\<lparr>sw_map := mp'\<rparr>))"
      by (rule none_lost_update [OF l w]) (use W_store in \<open>auto simp: x0_def\<close>)
    then show ?thesis using W_store mp' by (simp add: worker_act_def x0_def [symmetric])
  next
    case (W_mark i)
    have "none_lost ?cs (set_worker w W_idle (s\<lparr>sw_done := hs_insert i (sw_done s)\<rparr>))"
      by (rule none_lost_update [OF l w]) (use W_mark in \<open>auto simp: x0_def\<close>)
    then show ?thesis using W_mark by (simp add: worker_act_def x0_def [symmetric])
  next
    case W_end
    then show ?thesis using l by (simp add: worker_act_def x0_def [symmetric])
  qed
qed

lemma none_lost_run:
  assumes d: "describes b3 m data" "b3_ok b3" "collision_free b3 data"
    and "none_lost (cm_chunks m) s" "swarm_inv (cm_chunks m) (length data) s" "content_ok (cm_chunks m) data s" "attempts_ok s" "answered b3 m data events s"
  shows "none_lost (cm_chunks m) (swarm_run b3 (cm_chunks m) (length data) events s)"
  using assms(4-8) unfolding swarm_run_def
proof (induction events arbitrary: s)
  case (Cons e events)
  let ?s = "swarm_event_step b3 (cm_chunks m) (length data) e s"
  have "none_lost (cm_chunks m) ?s"
  proof (cases e)
    case (Act w answer)
    have "\<forall>i. sw_workers s ! w = W_wait i 1 \<longrightarrow> answer = Fetched (part data (cm_chunks m ! i))" if "w < length (sw_workers s)"
      using Cons.prems(5) that Act by auto
    then show ?thesis using none_lost_act [OF d(1,2) Cons.prems(1) _ Cons.prems(2-4)] Cons.prems(1) Act by (simp add: swarm_event_step_def)
  qed (use Cons.prems(5) in simp)
  moreover have "content_ok (cm_chunks m) data ?s" using swarm_run_content [OF d Cons.prems(2,3), of "[e]"] by (simp add: swarm_run_def)
  moreover have "answered b3 m data events ?s" using Cons.prems(5) by simp
  ultimately show ?case using Cons.IH swarm_inv_event [OF Cons.prems(2)] attempts_event [OF Cons.prems(4)] by simp
qed simp

lemma swarm_event_workers: "length (sw_workers (swarm_event_step b3 chunks n e s)) = length (sw_workers s)"
proof (cases e)
  case (Act w answer)
  have "length (sw_workers (worker_act b3 chunks n w answer s)) = length (sw_workers s)"
    by (cases "sw_workers s ! w") (simp_all add: worker_act_def set_worker_def Let_def split: fetch.split option.split)
  then show ?thesis using Act by (simp add: swarm_event_step_def)
qed (simp add: swarm_event_step_def)

lemma swarm_run_workers: "length (sw_workers (swarm_run b3 chunks n events s)) = length (sw_workers s)"
  unfolding swarm_run_def by (induction events arbitrary: s) (simp_all add: swarm_event_workers)

text \<open>C33. A download succeeds if the second peer asked for a chunk answers correctly: whatever the first answers are and however the
  workers interleave, without an abort, once all workers have ended the file is the blob and nothing failed.
\<close>

theorem swarm_download_completes:
  assumes m: "describes b3 (sc_manifest cfg) data" "b3_ok b3" "collision_free b3 data"
    and start: "length data \<le> MAX_BLOB_FETCH_BYTES" "cm_chunks (sc_manifest cfg) \<noteq> []" "sc_peers cfg \<noteq> []"
    and prep: "prepare_target p can_open can_resize can_map (length data) t = (Ok mp, t1)"
    and d: "download b3 cfg (prepare_target p can_open can_resize can_map) t events = Some (report, t')"
    and ans: "answered b3 (sc_manifest cfg) data events (swarm_start cfg mp)"
  shows "rp_failures report = 0 \<and> rp_failed_hashes report = [] \<and> t' = Regular data"
proof -
  let ?cs = "cm_chunks (sc_manifest cfg)"
  define s0 s where "s0 = swarm_start cfg mp" and "s = swarm_run b3 ?cs (length data) events s0"
  have n: "cm_total_size (sc_manifest cfg) = length data" using m(1) by (simp add: describes_def)
  have eq: "report = swarm_report_of ?cs s" "t' = (if rp_failures report > 0 \<or> rp_cancelled report then Not_found else Regular (sw_map s))"
    and fin: "\<forall>x\<in>set (sw_workers s). x = W_end"
    using d start prep n by (auto simp: download_def Let_def s_def s0_def swarm_run_def list_all_iff split: if_splits)
  have i0: "swarm_inv ?cs (length data) s0" unfolding s0_def by (rule swarm_inv_start [OF prepare_length [OF prep]])
  have c0: "content_ok ?cs data s0" unfolding s0_def by (rule content_start)
  have l0: "none_lost ?cs s0" "attempts_ok s0" by (simp_all add: none_lost_def attempts_ok_def s0_def swarm_start_def)
  have inv: "swarm_inv ?cs (length data) s" and con: "content_ok ?cs data s" and l: "none_lost ?cs s"
    unfolding s_def using swarm_run_inv [OF i0] swarm_run_content [OF m i0 c0] none_lost_run [OF m l0(1) i0 c0 l0(2)] ans
    by (simp_all add: s0_def)
  have "0 < length (sw_workers s)" unfolding s_def swarm_run_workers s0_def by (simp add: swarm_start_def worker_count_def)
  then have "length ?cs \<le> sw_next s" using fin l by (cases "sw_workers s") (auto simp: none_lost_def)
  then have all: "{0..<length ?cs} \<subseteq> set (owned s)" using l by (auto simp: none_lost_def)
  moreover have "owned s = sw_done s" using fin by (auto simp: owned_def)
  ultimately have "{0..<length ?cs} = set (sw_done s)" "distinct (sw_done s)" using inv by (auto simp: swarm_inv_def)
  then have "length (sw_done s) = length ?cs" using distinct_card by (metis card_atLeastLessThan diff_zero)
  then have z: "rp_failures report = 0" "\<not> rp_cancelled report" using eq(1) l by (simp_all add: swarm_report_of_def none_lost_def)
  have "sw_map s = data" by (rule all_done_blob [OF m(1) con]) (use inv \<open>{0..<length ?cs} = set (sw_done s)\<close> in \<open>simp_all add: swarm_inv_def\<close>)
  then show ?thesis using z eq failures_count [OF inv] by simp
qed

text \<open>With two peers or more, the second attempt asks another peer than the first.\<close>

lemma second_peer_differs: "2 \<le> length (sc_peers cfg) \<Longrightarrow> peer_index cfg w idx 1 \<noteq> peer_index cfg w idx 0"
proof
  assume n: "2 \<le> length (sc_peers cfg)" and eq: "peer_index cfg w idx 1 = peer_index cfg w idx 0"
  let ?n = "length (sc_peers cfg)"
  have "(w + idx + 1) mod ?n = (w + idx) mod ?n" using eq by (simp add: peer_index_def)
  then have "?n dvd 1" by (metis add_diff_cancel_left' mod_eq_dvd_iff_nat le_add1)
  then show False using n by simp
qed

subsection \<open>Examples, and what is not checked\<close>

definition sample_manifest :: chunk_manifest where
  "sample_manifest = \<lparr>cm_blob_hash = sample_b3 [1, 2, 3], cm_total_size = 3,
     cm_chunks = [\<lparr>cr_blake3 = sample_b3 [1, 2], cr_offset = 0, cr_len = 2\<rparr>, \<lparr>cr_blake3 = sample_b3 [3], cr_offset = 2, cr_len = 1\<rparr>]\<rparr>"

definition sample_swarm :: "chunk_manifest \<Rightarrow> string swarm_config" where
  "sample_swarm m = \<lparr>sc_manifest = m, sc_peers = [''peer''], sc_quic_ports = [None], sc_max_parallel = 1\<rparr>"

definition sample_path :: target_path where
  "sample_path = \<lparr>tp_has_parent = True, tp_canonical = True, tp_file_name = Some ''out'', tp_parent_link = False\<rparr>"

definition sample_swarm_events :: "swarm_event list" where
  "sample_swarm_events = map (Act 0) [Timed_out, Timed_out, Timed_out, Fetched [9], Timed_out, Fetched [1, 2], Timed_out, Timed_out,
     Timed_out, Timed_out, Timed_out, Fetched [3], Timed_out, Timed_out, Timed_out, Timed_out]"

lemma sample_match: "y \<in> set sample_segs \<Longrightarrow> hash_matches sample_b3 (sample_b3 y) d \<longleftrightarrow> d = y"
  using sample_b3_ok sample_b3_inj [of y d] by (auto simp: hash_matches_def b3_ok_def)

lemma sample_shape [simp]: "hash_shape (sample_b3 x)"
  using sample_b3_ok by (simp add: b3_ok_def)

lemma sample_describes: "describes sample_b3 sample_manifest [1, 2, 3]"
proof -
  have "manifest_valid sample_manifest" by (simp add: manifest_valid_iff sample_manifest_def)
  then show ?thesis by (simp add: describes_def) (simp add: sample_manifest_def part_def)
qed

lemma sample_prepare: "prepare_target sample_path True True True (length [1, 2, 3 :: byte]) Not_found = (Ok [0, 0, 0], Regular [0, 0, 0])"
  by code_simp

lemmas sample_run_defs = swarm_start_def sample_swarm_def worker_count_def swarm_event_step_def worker_act_def set_worker_def Let_def
  sample_match sample_segs_def copy_chunk_def hs_insert_def

lemma sample_download:
  "\<exists>report t'. download sample_b3 (sample_swarm sample_manifest) (prepare_target sample_path True True True) Not_found sample_swarm_events = Some (report, t')"
proof -
  have "prepare_target sample_path True True True 3 Not_found = (Ok [0, 0, 0], Regular [0, 0, 0])" by code_simp
  then show ?thesis by (simp add: download_def sample_swarm_events_def sample_run_defs sample_manifest_def MAX_BLOB_FETCH_BYTES_def)
qed

theorem swarm_download_exact_witness:
  "\<exists>report t'. download sample_b3 (sample_swarm sample_manifest) (prepare_target sample_path True True True) Not_found sample_swarm_events = Some (report, t')
     \<and> (t' = Regular [1, 2, 3] \<or> t' = Not_found) \<and> length (rp_failed_hashes report) = rp_failures report"
proof -
  obtain report t' where d: "download sample_b3 (sample_swarm sample_manifest) (prepare_target sample_path True True True) Not_found sample_swarm_events = Some (report, t')"
    using sample_download by blast
  have c: "sc_manifest (sample_swarm sample_manifest) = sample_manifest" "sc_peers (sample_swarm sample_manifest) \<noteq> []"
    "cm_chunks (sc_manifest (sample_swarm sample_manifest)) \<noteq> []" "length [1, 2, 3 :: byte] \<le> MAX_BLOB_FETCH_BYTES"
    by (simp_all add: sample_swarm_def sample_manifest_def MAX_BLOB_FETCH_BYTES_def)
  have "describes sample_b3 (sc_manifest (sample_swarm sample_manifest)) [1, 2, 3]" using sample_describes c(1) by simp
  from swarm_download_exact [OF this sample_b3_ok sample_collision_free c(4,3,2) sample_prepare d]
  show ?thesis using d by (auto split: if_splits)
qed

theorem swarm_download_completes_witness:
  "\<exists>report. download sample_b3 (sample_swarm sample_manifest) (prepare_target sample_path True True True) Not_found sample_swarm_events
     = Some (report, Regular [1, 2, 3]) \<and> rp_failures report = 0"
proof -
  obtain report t' where d: "download sample_b3 (sample_swarm sample_manifest) (prepare_target sample_path True True True) Not_found sample_swarm_events = Some (report, t')"
    using sample_download by blast
  have c: "sc_manifest (sample_swarm sample_manifest) = sample_manifest" "sc_peers (sample_swarm sample_manifest) \<noteq> []"
    "cm_chunks (sc_manifest (sample_swarm sample_manifest)) \<noteq> []" "length [1, 2, 3 :: byte] \<le> MAX_BLOB_FETCH_BYTES"
    by (simp_all add: sample_swarm_def sample_manifest_def MAX_BLOB_FETCH_BYTES_def)
  have a: "answered sample_b3 (sc_manifest (sample_swarm sample_manifest)) [1, 2, 3] sample_swarm_events (swarm_start (sample_swarm sample_manifest) [0, 0, 0])"
    by (simp add: sample_swarm_events_def sample_run_defs sample_manifest_def part_def)
  have "describes sample_b3 (sc_manifest (sample_swarm sample_manifest)) [1, 2, 3]" using sample_describes c(1) by simp
  from swarm_download_completes [OF this sample_b3_ok sample_collision_free c(4,3,2) sample_prepare d a]
  show ?thesis using d by simp
qed

text \<open>
  The digest of the whole blob is not checked: a manifest that passes \<open>is_valid\<close> and names another digest than its chunks make up is
  downloaded without a failure, and the file has another digest than the one asked for. The answer has the length asked for.
\<close>

definition mislabelled_manifest :: chunk_manifest where
  "mislabelled_manifest = \<lparr>cm_blob_hash = sample_b3 [1, 2], cm_total_size = 1,
     cm_chunks = [\<lparr>cr_blake3 = sample_b3 [3], cr_offset = 0, cr_len = 1\<rparr>]\<rparr>"

definition mislabelled_events :: "swarm_event list" where
  "mislabelled_events = map (Act 0) [Timed_out, Timed_out, Timed_out, Fetched [3], Timed_out, Timed_out, Timed_out, Timed_out]"

theorem swarm_blob_hash_unchecked:
  "manifest_valid mislabelled_manifest
   \<and> (case download sample_b3 (sample_swarm mislabelled_manifest) (prepare_target sample_path True True True) Not_found mislabelled_events of
        Some (report, Regular d) \<Rightarrow> rp_failures report = 0 \<and> d = [3] \<and> sample_b3 d \<noteq> cm_blob_hash mislabelled_manifest
      | _ \<Rightarrow> False)"
proof -
  have "prepare_target sample_path True True True 1 Not_found = (Ok [0], Regular [0])" by code_simp
  moreover have "sample_b3 [3] \<noteq> sample_b3 [1, 2]" using sample_b3_inj [of "[1, 2]" "[3]"] by (auto simp: sample_segs_def)
  moreover have "manifest_valid mislabelled_manifest" by (simp add: manifest_valid_iff mislabelled_manifest_def)
  ultimately show ?thesis
    by (simp add: download_def mislabelled_events_def sample_run_defs mislabelled_manifest_def MAX_BLOB_FETCH_BYTES_def swarm_report_of_def)
qed

end
