(* ===== verification/BlobGrab.thy ===== *)
theory BlobGrab
  imports "HOL-Library.Multiset" Cas Swarm PrivateIp
begin

section \<open>Fetching a blob from a peer (src/network-core/src/blob_grab.rs)\<close>

text \<open>
  A blob is fetched by its digest: the manifest is asked for and checked, workers fetch the chunks and send them over a channel in the
  order in which they finish, and one consumer stores, writes and hashes them in the order of the manifest. The channel is the list of
  what it delivers until it is disconnected; the responses of the peer over QUIC and TCP are arguments (those of the last attempt, where a stale connection is tried again), and so
  are the outcomes of writes.

  A fetch that never returns is the value \<open>None\<close>. The receiver is borrowed by the closure given to \<open>thread::scope\<close> and lives until the
  scope has joined its workers, so a consumer that gives up leaves them sending into a channel with one slot that nobody reads: with
  two or more bodies outstanding one of them waits for ever.

  The theorems: the order of delivery does not matter to a fetch that succeeds, a good peer's blob is fetched, a fetch that succeeds has
  written bytes with the digest asked for, one that reports an error leaves the chunk store as it was, and a failing first chunk of a
  blob of three or more makes the fetch hang.
\<close>

definition QUIC_MAX_CHUNK :: nat where "QUIC_MAX_CHUNK = 16 * 1024 * 1024"

subsection \<open>Chunks of one peer\<close>

text \<open>\<open>lan_transport::fetch_verified_chunk\<close> over the response to its request\<close>

definition range_request :: "chunk_ref \<Rightarrow> lan_chunk_request" where
  "range_request c = \<lparr>lr_hash = cr_blake3 c, lr_offset = cr_offset c, lr_length = cr_len c, lr_want_manifest = False\<rparr>"

definition fetch_verified_chunk :: "digest \<Rightarrow> wire_answer \<Rightarrow> chunk_ref \<Rightarrow> byte list res" where
  "fetch_verified_chunk b3 tcp c =
     (if length (cr_blake3 c) \<noteq> 64 then Err ''invalid chunk hash''
      else and_then (fetch_chunk_range tcp (range_request c))
             (\<lambda>d. if eq_ignore_ascii_case (b3 d) (cr_blake3 c) then Ok d else Err ''chunk hash mismatch after transfer''))"

definition fetch_chunk_bytes :: "digest \<Rightarrow> wire_answer option \<Rightarrow> wire_answer \<Rightarrow> chunk_ref \<Rightarrow> byte list res" where
  "fetch_chunk_bytes b3 quic tcp c =
     (case quic of
        Some answer \<Rightarrow>
          let qres = (if cr_len c = 0 \<or> cr_len c > QUIC_MAX_CHUNK then Err ''bad chunk request''
                      else and_then (exchange_chunk answer (range_request c))
                             (\<lambda>d. if b3 d = cr_blake3 c then Ok d else Err ''chunk hash mismatch after transfer''))
          in (case qres of
                Ok d \<Rightarrow> Ok d
              | Panic \<Rightarrow> Panic
              | Err e \<Rightarrow> (case fetch_verified_chunk b3 tcp c of
                           Err te \<Rightarrow> Err (''quic: '' @ e @ ''; tcp: '' @ te)
                         | r \<Rightarrow> r))
      | None \<Rightarrow> (case fetch_verified_chunk b3 tcp c of Err e \<Rightarrow> Err (''tcp: '' @ e) | r \<Rightarrow> r))"

subsection \<open>Chunks in order\<close>

type_synonym delivery = "nat \<times> byte list res"

fun recv_until :: "delivery list \<Rightarrow> (nat, byte list res) hmap \<Rightarrow> nat \<Rightarrow> byte list res res \<times> delivery list \<times> (nat, byte list res) hmap" where
  "recv_until [] pending want = (Err ''chunk thread panic'', [], pending)"
| "recv_until ((idx, r) # rx) pending want =
     (if idx = want then (Ok r, rx, pending) else recv_until rx (hm_put idx r pending) want)"

definition take_in_order :: "delivery list \<Rightarrow> (nat, byte list res) hmap \<Rightarrow> nat \<Rightarrow> byte list res res \<times> delivery list \<times> (nat, byte list res) hmap" where
  "take_in_order rx pending want = (case map_of pending want of
       Some r \<Rightarrow> (Ok r, rx, hm_del want pending)
     | None \<Rightarrow> recv_until rx pending want)"

text \<open>What the consumer has done: the store, the digests it stored newly, and the bytes written, which are also the bytes hashed.\<close>

record grab =
  gb_store :: chunk_store
  gb_new :: "string list"
  gb_file :: "byte list"

text \<open>One chunk of the loop. The outcomes of the write into the store and of the write into the file are \<open>io\<close>.\<close>

definition absorb :: "nat \<Rightarrow> write_io \<times> bool \<Rightarrow> chunk_ref \<Rightarrow> byte list \<Rightarrow> grab \<Rightarrow> unit res \<times> grab" where
  "absorb now io c d g =
     (if length d \<noteq> cr_len c then (Err ''chunk short'', g)
      else case put_trusted (fst io) now (cr_blake3 c) d (gb_store g) of (stored, st) \<Rightarrow>
        let g = g\<lparr>gb_store := st\<rparr> in
        if stored \<or> cas_contains (cr_blake3 c) st
        then let g = (if stored then g\<lparr>gb_new := gb_new g @ [cr_blake3 c]\<rparr> else g) in
          if snd io then (Ok (), g\<lparr>gb_file := gb_file g @ d\<rparr>) else (Err ''write'', g)
        else (Err ''chunk store failed'', g))"

fun grab_loop :: "nat \<Rightarrow> (nat \<Rightarrow> write_io \<times> bool) \<Rightarrow> nat \<Rightarrow> chunk_ref list \<Rightarrow> delivery list \<Rightarrow> (nat, byte list res) hmap \<Rightarrow> grab
    \<Rightarrow> unit res \<times> grab \<times> delivery list" where
  "grab_loop now ios bi [] rx pending g = (Ok (), g, rx)"
| "grab_loop now ios bi (c # cs) rx pending g =
     (case take_in_order rx pending bi of
        (Ok (Ok d), rx, pending) \<Rightarrow>
          (case absorb now (ios bi) c d g of
             (Ok _, g) \<Rightarrow> grab_loop now ios (Suc bi) cs rx pending g
           | (Err e, g) \<Rightarrow> (Err e, g, rx)
           | (Panic, g) \<Rightarrow> (Panic, g, rx))
      | (Ok (Err e), rx, _) \<Rightarrow> (Err e, g, rx)
      | (Err e, rx, _) \<Rightarrow> (Err e, g, rx)
      | (_, rx, _) \<Rightarrow> (Panic, g, rx))"

text \<open>What the workers send: each index once, with what \<open>fetch_chunk_bytes\<close> gives for it, in the order in which they finish.\<close>

definition chunk_deliveries :: "digest \<Rightarrow> bool \<Rightarrow> (nat \<Rightarrow> wire_answer) \<Rightarrow> (nat \<Rightarrow> wire_answer) \<Rightarrow> chunk_ref list \<Rightarrow> nat list \<Rightarrow> delivery list" where
  "chunk_deliveries b3 has_quic quic tcp chunks order =
     map (\<lambda>i. (i, fetch_chunk_bytes b3 (if has_quic then Some (quic i) else None) (tcp i) (chunks ! i))) order"

subsection \<open>The fetch\<close>

record grab_io =
  gi_create :: bool
  gi_panicked :: bool
  gi_chunks :: "nat \<Rightarrow> write_io \<times> bool"
  gi_rename :: bool
  gi_manifest :: write_io
  gi_removable :: "string \<Rightarrow> bool"

record lan_peer =
  lp_ip :: ip_addr
  lp_quic :: bool

text \<open>\<open>manifest_quic\<close> and \<open>manifest_tcp\<close> are the responses to the manifest requests, \<open>rx\<close> what the channel delivers, \<open>out\<close> the content of the
  target file. The result has the store and the target file afterwards. The numbers of bytes are \<open>u64\<close> below the cap of 512 MiB.\<close>

definition fetch_manifest :: "string \<Rightarrow> wire_answer \<Rightarrow> string res" where
  "fetch_manifest blob_hash answer =
     (if length blob_hash \<noteq> 64 then Err ''invalid blob hash''
      else and_then answer (\<lambda>(kind, data).
        if kind = 0 then (case from_utf8 data of Some s \<Rightarrow> Ok s | None \<Rightarrow> Err ''manifest is not utf8'')
        else if kind = 1 then Err ''blob manifest not found on peer''
        else if kind = 2 then Err ''peer seeding denied (power state)''
        else Err ''bad response kind''))"

definition fetch_quic_manifest :: "string \<Rightarrow> wire_answer \<Rightarrow> string res" where
  "fetch_quic_manifest blob_hash answer =
     (if length blob_hash \<noteq> 64 then Err ''invalid blob hash''
      else and_then (exchange_chunk answer \<lparr>lr_hash = blob_hash, lr_offset = 0, lr_length = 0, lr_want_manifest = True\<rparr>)
             (\<lambda>data. case from_utf8 data of Some s \<Rightarrow> Ok s | None \<Rightarrow> Err ''manifest is not utf8''))"

definition crawl_manifest :: "lan_peer \<Rightarrow> string \<Rightarrow> wire_answer \<Rightarrow> wire_answer \<Rightarrow> string res" where
  "crawl_manifest peer blob_hash manifest_quic manifest_tcp =
     (if lp_quic peer then
        (case fetch_quic_manifest blob_hash manifest_quic of
           Err e \<Rightarrow> (case fetch_manifest blob_hash manifest_tcp of Err te \<Rightarrow> Err (''quic: '' @ e @ ''; tcp: '' @ te) | r \<Rightarrow> r)
         | r \<Rightarrow> r)
      else (case fetch_manifest blob_hash manifest_tcp of Err e \<Rightarrow> Err (''tcp: '' @ e) | r \<Rightarrow> r))"

definition check_manifest :: "cas_env \<Rightarrow> string \<Rightarrow> string \<Rightarrow> chunk_manifest res" where
  "check_manifest E blob_hash json = (case ce_from_json E json of
       None \<Rightarrow> Err ''hostile manifest json''
     | Some m \<Rightarrow>
         if cm_blob_hash m \<noteq> blob_hash then Err ''manifest hash mismatch''
         else if cm_total_size m > MAX_BLOB_FETCH_BYTES then Err ''blob too large''
         else if \<not> manifest_valid m then Err ''hostile manifest structure''
         else Ok m)"

definition grab_chunks :: "cas_env \<Rightarrow> nat \<Rightarrow> grab_io \<Rightarrow> string \<Rightarrow> chunk_manifest \<Rightarrow> delivery list \<Rightarrow> chunk_store \<Rightarrow> byte list option
    \<Rightarrow> (nat res \<times> grab \<times> byte list option) option" where
  "grab_chunks E now io blob_hash m rx s out =
     (let g = \<lparr>gb_store = s, gb_new = [], gb_file = []\<rparr> in
      if \<not> gi_create io then Some (Err ''write'', g, out)
      else case grab_loop now (gi_chunks io) 0 (cm_chunks m) rx [] g of (r, g, rest) \<Rightarrow>
        if gi_panicked io then Some (Panic, g, out)
        else case r of
          Err e \<Rightarrow> if length rest > 1 then None else Some (Err e, g, out)
        | Panic \<Rightarrow> Some (Panic, g, out)
        | Ok _ \<Rightarrow>
          Some (if ce_b3 E (gb_file g) \<noteq> blob_hash then (Err ''blob hash mismatch after transfer'', g, out)
          else if \<not> gi_rename io then (Err ''atomic rename'', g, out)
          else (case save_manifest E (gi_manifest io) now m (gb_store g) of
                  (Ok _, st) \<Rightarrow> (Ok (length (gb_file g)), g\<lparr>gb_store := st\<rparr>, Some (gb_file g))
                | (Err e, st) \<Rightarrow> (Err (''manifest persist: '' @ e), g\<lparr>gb_store := st\<rparr>, Some (gb_file g))
                | (Panic, st) \<Rightarrow> (Panic, g\<lparr>gb_store := st\<rparr>, Some (gb_file g)))))"

text \<open>The result of a removal is ignored: \<open>removable\<close> says for which chunks it succeeds.\<close>

definition remove_chunks :: "(string \<Rightarrow> bool) \<Rightarrow> string list \<Rightarrow> chunk_store \<Rightarrow> chunk_store" where
  "remove_chunks removable hs s = s\<lparr>st_files := fold (\<lambda>h. if removable h then hm_del (chunk_path h) else (\<lambda>fs. fs)) hs (st_files s)\<rparr>"

text \<open>The checks before the first chunk: of the arguments and of the manifest.\<close>

definition agreed_manifest :: "cas_env \<Rightarrow> lan_peer \<Rightarrow> target_path \<Rightarrow> string \<Rightarrow> wire_answer \<Rightarrow> wire_answer \<Rightarrow> chunk_manifest res" where
  "agreed_manifest E peer path blob_hash manifest_quic manifest_tcp =
     (if length blob_hash \<noteq> 64 then Err ''invalid blob hash''
      else if \<not> is_private_ip (lp_ip peer) then Err ''refusing non-private LAN peer''
      else and_then (validate_out_path path) (\<lambda>_. and_then (crawl_manifest peer blob_hash manifest_quic manifest_tcp) (check_manifest E blob_hash)))"

definition fetch_blob_from_peer :: "cas_env \<Rightarrow> nat \<Rightarrow> grab_io \<Rightarrow> lan_peer \<Rightarrow> target_path \<Rightarrow> string \<Rightarrow> wire_answer \<Rightarrow> wire_answer \<Rightarrow> delivery list
    \<Rightarrow> cas_files \<Rightarrow> byte list option \<Rightarrow> (nat res \<times> cas_files \<times> byte list option) option" where
  "fetch_blob_from_peer E now io peer path blob_hash manifest_quic manifest_tcp rx files out =
     (case agreed_manifest E peer path blob_hash manifest_quic manifest_tcp of
        Err e \<Rightarrow> Some (Err e, files, out)
      | Panic \<Rightarrow> Some (Panic, files, out)
      | Ok m \<Rightarrow>
          map_option (\<lambda>(r, g, out). (r, st_files (case r of Err e \<Rightarrow> remove_chunks (gi_removable io) (gb_new g) (gb_store g) | _ \<Rightarrow> gb_store g), out))
            (grab_chunks E now io blob_hash m rx (cas_new files) out))"

subsection \<open>The order of delivery does not matter\<close>

fun grab_table :: "nat \<Rightarrow> (nat \<Rightarrow> write_io \<times> bool) \<Rightarrow> nat \<Rightarrow> chunk_ref list \<Rightarrow> (nat \<Rightarrow> byte list res option) \<Rightarrow> grab \<Rightarrow> unit res \<times> grab" where
  "grab_table now ios bi [] tbl g = (Ok (), g)"
| "grab_table now ios bi (c # cs) tbl g =
     (case tbl bi of
        Some (Ok d) \<Rightarrow>
          (case absorb now (ios bi) c d g of
             (Ok _, g) \<Rightarrow> grab_table now ios (Suc bi) cs tbl g
           | (Err e, g) \<Rightarrow> (Err e, g)
           | (Panic, g) \<Rightarrow> (Panic, g))
      | Some (Err e) \<Rightarrow> (Err e, g)
      | Some Panic \<Rightarrow> (Panic, g)
      | None \<Rightarrow> (Err ''chunk thread panic'', g))"

definition channel_ok :: "delivery list \<Rightarrow> (nat, byte list res) hmap \<Rightarrow> bool" where
  "channel_ok rx pending \<longleftrightarrow> distinct (map fst rx) \<and> fst ` set rx \<inter> fst ` set pending = {}"

lemma recv_until_spec:
  assumes "channel_ok rx pending" "map_of pending want = None"
  shows "\<exists>rx' pending'. recv_until rx pending want = ((case map_of rx want of None \<Rightarrow> Err ''chunk thread panic'' | Some r \<Rightarrow> Ok r), rx', pending')
    \<and> channel_ok rx' pending' \<and> (\<forall>i. i \<noteq> want \<longrightarrow> map_of (pending' @ rx') i = map_of (pending @ rx) i)"
  using assms
proof (induction rx pending want rule: recv_until.induct)
  case (2 idx r rx pending want)
  show ?case
  proof (cases "idx = want")
    case True
    then have "channel_ok rx pending" "map_of rx want = None" using 2 by (auto simp: channel_ok_def map_of_eq_None_iff)
    then show ?thesis using True by (intro exI [of _ rx] exI [of _ pending]) (auto simp: map_add_def split: option.split)
  next
    case False
    have "channel_ok rx (hm_put idx r pending)" "map_of (hm_put idx r pending) want = None"
      using 2(2,3) False by (auto simp: channel_ok_def)
    then obtain rx' pending' where h: "recv_until rx (hm_put idx r pending) want
        = ((case map_of rx want of None \<Rightarrow> Err ''chunk thread panic'' | Some r \<Rightarrow> Ok r), rx', pending')" "channel_ok rx' pending'"
      "\<forall>i. i \<noteq> want \<longrightarrow> map_of (pending' @ rx') i = map_of (hm_put idx r pending @ rx) i"
      using 2(1) [OF False] by auto
    have "map_of (hm_put idx r pending @ rx) i = map_of (pending @ (idx, r) # rx) i" for i
    proof -
      have "map_of pending idx = None" "map_of rx idx = None" using 2(2) by (auto simp: channel_ok_def map_of_eq_None_iff)
      then show ?thesis by (auto simp: map_add_def split: option.split)
    qed
    then show ?thesis using h False by (intro exI [of _ rx'] exI [of _ pending']) auto
  qed
qed simp

lemma take_in_order_spec:
  assumes "channel_ok rx pending"
  shows "\<exists>rx' pending'. take_in_order rx pending want = ((case map_of (pending @ rx) want of None \<Rightarrow> Err ''chunk thread panic'' | Some r \<Rightarrow> Ok r), rx', pending')
    \<and> channel_ok rx' pending' \<and> (\<forall>i. i \<noteq> want \<longrightarrow> map_of (pending' @ rx') i = map_of (pending @ rx) i)"
proof (cases "map_of pending want")
  case None
  then show ?thesis using recv_until_spec [OF assms None] by (auto simp: take_in_order_def map_add_def)
next
  case (Some r)
  then have "map_of rx want = None"
    using assms by (metis channel_ok_def disjoint_iff domI dom_map_of_conv_image_fst map_of_eq_None_iff)
  moreover have "channel_ok rx (hm_del want pending)" using assms by (auto simp: channel_ok_def set_hm_del)
  ultimately show ?thesis using Some by (intro exI [of _ rx] exI [of _ "hm_del want pending"]) (simp add: take_in_order_def map_add_def)
qed

lemma grab_table_cong: "(\<And>i. bi \<le> i \<Longrightarrow> t i = t' i) \<Longrightarrow> grab_table now ios bi cs t g = grab_table now ios bi cs t' g"
  by (induction cs arbitrary: bi g) (auto split: option.split res.split prod.split)

lemma grab_loop_table:
  "channel_ok rx pending \<Longrightarrow> \<exists>rest. grab_loop now ios bi cs rx pending g
     = (fst (grab_table now ios bi cs (map_of (pending @ rx)) g), snd (grab_table now ios bi cs (map_of (pending @ rx)) g), rest)"
proof (induction cs arbitrary: bi rx pending g)
  case (Cons c cs)
  obtain rx' pending' where t: "take_in_order rx pending bi = ((case map_of (pending @ rx) bi of None \<Rightarrow> Err ''chunk thread panic'' | Some r \<Rightarrow> Ok r), rx', pending')"
    "channel_ok rx' pending'" "\<forall>i. i \<noteq> bi \<longrightarrow> map_of (pending' @ rx') i = map_of (pending @ rx) i"
    using take_in_order_spec [OF Cons.prems] by blast
  define tbl where "tbl = map_of (pending @ rx)"
  have "\<exists>rest. grab_loop now ios (Suc bi) cs rx' pending' g' = (fst (grab_table now ios (Suc bi) cs tbl g'), snd (grab_table now ios (Suc bi) cs tbl g'), rest)" for g'
    unfolding tbl_def using Cons.IH [OF t(2), of "Suc bi" g'] grab_table_cong [of "Suc bi" "map_of (pending' @ rx')" "map_of (pending @ rx)"] t(3) by simp
  then show ?case using t(1) unfolding tbl_def [symmetric] by (cases "tbl bi") (simp_all split: res.split prod.split)
qed simp

text \<open>The result of a fetch as the consumer sees it, apart from whether the workers can be joined.\<close>

definition grab_result :: "cas_env \<Rightarrow> nat \<Rightarrow> grab_io \<Rightarrow> string \<Rightarrow> chunk_manifest \<Rightarrow> (nat \<Rightarrow> byte list res option) \<Rightarrow> chunk_store \<Rightarrow> byte list option
    \<Rightarrow> nat res \<times> grab \<times> byte list option" where
  "grab_result E now io h m tbl s out =
     (let g = \<lparr>gb_store = s, gb_new = [], gb_file = []\<rparr> in
      if \<not> gi_create io then (Err ''write'', g, out)
      else case grab_table now (gi_chunks io) 0 (cm_chunks m) tbl g of (r, g) \<Rightarrow>
        if gi_panicked io then (Panic, g, out)
        else case r of
          Err e \<Rightarrow> (Err e, g, out)
        | Panic \<Rightarrow> (Panic, g, out)
        | Ok _ \<Rightarrow>
          if ce_b3 E (gb_file g) \<noteq> h then (Err ''blob hash mismatch after transfer'', g, out)
          else if \<not> gi_rename io then (Err ''atomic rename'', g, out)
          else (case save_manifest E (gi_manifest io) now m (gb_store g) of
                  (Ok _, st) \<Rightarrow> (Ok (length (gb_file g)), g\<lparr>gb_store := st\<rparr>, Some (gb_file g))
                | (Err e, st) \<Rightarrow> (Err (''manifest persist: '' @ e), g\<lparr>gb_store := st\<rparr>, Some (gb_file g))
                | (Panic, st) \<Rightarrow> (Panic, g\<lparr>gb_store := st\<rparr>, Some (gb_file g))))"

lemma grab_chunks_result:
  assumes "distinct (map fst rx)"
  shows "grab_chunks E now io h m rx s out = Some (grab_result E now io h m (map_of rx) s out)
    \<or> grab_chunks E now io h m rx s out = None \<and> (\<exists>e g. grab_result E now io h m (map_of rx) s out = (Err e, g, out))"
proof -
  let ?g = "\<lparr>gb_store = s, gb_new = [], gb_file = []\<rparr>"
  let ?T = "grab_table now (gi_chunks io) 0 (cm_chunks m) (map_of rx) ?g"
  obtain rest where "grab_loop now (gi_chunks io) 0 (cm_chunks m) rx [] ?g = (fst ?T, snd ?T, rest)"
    using grab_loop_table [of rx "[]" now "gi_chunks io" 0 "cm_chunks m" ?g] assms by (auto simp: channel_ok_def)
  then show ?thesis by (cases "?T"; cases "fst ?T") (auto simp: grab_chunks_def grab_result_def Let_def)
qed

text \<open>C35. The order in which the workers finish does not matter to what a fetch does: for two orders of the same deliveries, no index twice, two
  fetches that return have the same result, the same store and the same file, and if one succeeds then so does the other. (Whether a
  fetch that fails returns at all does depend on the order.)
\<close>

theorem blob_fetch_any_order:
  assumes "mset rx = mset rx'" "distinct (map fst rx)"
    and "fetch_blob_from_peer E now io peer path h mq mt rx files out = Some (r, files', out')"
  shows "fetch_blob_from_peer E now io peer path h mq mt rx' files out = Some (r, files', out')
    \<or> (\<exists>e. r = Err e) \<and> fetch_blob_from_peer E now io peer path h mq mt rx' files out = None"
proof -
  have d: "distinct (map fst rx')" using assms by (metis mset_eq_imp_distinct_iff mset_map)
  have t: "map_of rx = map_of rx'" using map_of_inject_set [OF assms(2) d] mset_eq_setD [OF assms(1)] by simp
  show ?thesis
  proof (cases "agreed_manifest E peer path h mq mt")
    case (Ok m)
    note f = fetch_blob_from_peer_def Ok
    from grab_chunks_result [OF d, of E now io h m "cas_new files" out] show ?thesis
    proof
      assume "grab_chunks E now io h m rx' (cas_new files) out = Some (grab_result E now io h m (map_of rx') (cas_new files) out)"
      then show ?thesis using grab_chunks_result [OF assms(2), of E now io h m "cas_new files" out] assms(3) t
        by (auto simp: f)
    next
      assume "grab_chunks E now io h m rx' (cas_new files) out = None \<and> (\<exists>e g. grab_result E now io h m (map_of rx') (cas_new files) out = (Err e, g, out))"
      then show ?thesis using grab_chunks_result [OF assms(2), of E now io h m "cas_new files" out] assms(3) t
        by (auto simp: f)
    qed
  qed (use assms(3) in \<open>simp_all add: fetch_blob_from_peer_def\<close>)
qed

subsection \<open>Success and failure\<close>

definition clean_io :: "write_io \<Rightarrow> bool" where
  "clean_io io \<longleftrightarrow> (case io of Io_failed (Some d) \<Rightarrow> False | _ \<Rightarrow> True)"

lemma put_trusted_clean:
  assumes "clean_io io" "put_trusted io now h d s = (b, s')"
  shows "if b then map_of (st_files s) (chunk_path h) = None
           \<and> map_of (st_files s') = (map_of (st_files s))(chunk_path h \<mapsto> \<lparr>cf_data = d, cf_mtime = now\<rparr>)
         else st_files s' = st_files s"
proof (cases "is_valid_hash h \<and> \<not> hm_has (chunk_path h) (st_files s)")
  case True
  then have h: "is_valid_hash h" "map_of (st_files s) (chunk_path h) = None" by (simp_all add: hm_has_iff)
  show ?thesis
  proof (cases io)
    case Io_ok
    let ?l = "to_ascii_lowercase h"
    obtain fs where "write_via_tmp Io_ok now (tmp_name (take 2 ?l) (drop 2 ?l) ''.chunk'') (chunk_path h) d (st_files s) = (True, fs)"
      "map_of fs = (map_of (st_files s))(chunk_path h \<mapsto> \<lparr>cf_data = d, cf_mtime = now\<rparr>)"
      using write_via_tmp_Ok [OF tmp_name_inj] by blast
    then show ?thesis using assms(2) True h Io_ok by (auto simp: put_trusted_def Let_def)
  next
    case Io_no_dir
    then show ?thesis using assms(2) True by (auto simp: put_trusted_def Let_def write_via_tmp_def)
  next
    case (Io_failed left)
    then show ?thesis using assms True by (cases left) (auto simp: put_trusted_def Let_def write_via_tmp_def clean_io_def)
  qed
qed (use assms(2) in \<open>auto simp: put_trusted_def split: if_splits\<close>)

text \<open>The files are those of the start and the chunks stored newly, each under its own path.\<close>

definition grown_from :: "cas_files \<Rightarrow> grab \<Rightarrow> bool" where
  "grown_from files g \<longleftrightarrow> (\<forall>h\<in>set (gb_new g). map_of files (chunk_path h) = None)
     \<and> (\<forall>p. p \<notin> chunk_path ` set (gb_new g) \<longrightarrow> map_of (st_files (gb_store g)) p = map_of files p)"

lemma absorb_grown:
  assumes "clean_io (fst io)" "grown_from files g" "absorb now io c d g = (r, g')"
  shows "grown_from files g'"
proof -
  obtain b s' where p: "put_trusted (fst io) now (cr_blake3 c) d (gb_store g) = (b, s')" by fastforce
  note pc = put_trusted_clean [OF assms(1) p]
  have "map_of files (chunk_path (cr_blake3 c)) = None" if b
  proof (cases "chunk_path (cr_blake3 c) \<in> chunk_path ` set (gb_new g)")
    case True
    then show ?thesis using assms(2) by (auto simp: grown_from_def)
  next
    case False
    then show ?thesis using assms(2) pc that by (simp add: grown_from_def)
  qed
  then show ?thesis using assms(2,3) p pc by (auto simp: absorb_def Let_def grown_from_def split: if_splits)
qed

lemma grab_table_grown:
  assumes "\<forall>i. clean_io (fst (ios i))" "grown_from files g"
  shows "grown_from files (snd (grab_table now ios bi cs tbl g))"
  using assms(2)
proof (induction cs arbitrary: bi g)
  case (Cons c cs)
  have "grown_from files (snd (absorb now (ios bi) c d g))" for d
    using absorb_grown [of "ios bi" files g now c d "fst (absorb now (ios bi) c d g)" "snd (absorb now (ios bi) c d g)"] assms(1) Cons.prems by simp
  then show ?case using Cons.IH Cons.prems by (auto split: option.split res.split prod.split) (metis snd_conv)+
qed simp

lemma map_of_removed:
  "map_of (fold (\<lambda>h. if ok h then hm_del (chunk_path h) else (\<lambda>fs. fs)) hs fs) p
     = (if p \<in> chunk_path ` {h \<in> set hs. ok h} then None else map_of fs p)"
  by (induction hs arbitrary: fs) (auto simp: map_of_hm_del)

lemma removed_chunks:
  assumes "grown_from files g" "p \<notin> chunk_path ` {h. \<not> ok h}"
  shows "map_of (st_files (remove_chunks ok (gb_new g) (gb_store g))) p = map_of files p"
proof (cases "p \<in> chunk_path ` set (gb_new g)")
  case True
  then obtain h where h: "p = chunk_path h" "h \<in> set (gb_new g)" by blast
  then have "p \<in> chunk_path ` {h \<in> set (gb_new g). ok h}" using assms(2) by blast
  moreover have "map_of files p = None" using assms(1) h by (simp add: grown_from_def)
  ultimately show ?thesis by (simp add: remove_chunks_def map_of_removed)
next
  case False
  then show ?thesis using assms(1) by (auto simp: remove_chunks_def map_of_removed grown_from_def)
qed

lemma save_manifest_failed:
  "clean_io io \<Longrightarrow> save_manifest E io now m s = (Err e, s') \<Longrightarrow> st_files s' = st_files s"
  by (cases io; cases "case io of Io_failed left \<Rightarrow> left | _ \<Rightarrow> None")
    (auto simp: save_manifest_def write_via_tmp_def clean_io_def Let_def split: if_splits option.splits)

lemma grab_result_outcome:
  assumes "\<forall>i. clean_io (fst (gi_chunks io i))" "clean_io (gi_manifest io)"
    and "grab_result E now io h m tbl (cas_new files) out = (r, g, out')"
  shows "(\<forall>n. r = Ok n \<longrightarrow> (\<exists>d. out' = Some d \<and> ce_b3 E d = h \<and> length d = n))
    \<and> (\<forall>e. r = Err e \<longrightarrow> grown_from files g \<and> (out' = out \<or> (\<exists>d. out' = Some d \<and> ce_b3 E d = h)))"
proof -
  let ?g0 = "\<lparr>gb_store = cas_new files, gb_new = [], gb_file = []\<rparr>"
  have g0: "grown_from files ?g0" by (simp add: grown_from_def cas_new_def)
  obtain r1 g1 where t: "grab_table now (gi_chunks io) 0 (cm_chunks m) tbl ?g0 = (r1, g1)" by fastforce
  have g1: "grown_from files g1" using grab_table_grown [OF assms(1) g0, of now 0 "cm_chunks m" tbl] t by simp
  obtain r2 st where sv: "save_manifest E (gi_manifest io) now m (gb_store g1) = (r2, st)" by fastforce
  have "grown_from files (g1\<lparr>gb_store := st\<rparr>)" if "r2 = Err e" for e
    using save_manifest_failed [OF assms(2) sv [unfolded that]] g1 by (simp add: grown_from_def)
  then show ?thesis using assms(3) t sv g0 g1
    by (cases "gi_create io"; cases "gi_panicked io"; cases r1; cases r2) (auto simp: grab_result_def Let_def split: if_splits)
qed

text \<open>C14. What a fetch that returns has done. On success the file holds bytes with the digest asked for, and their number is returned. On an
  error every chunk this fetch stored has been removed again: the chunk store is what it was (when no write was cut short), apart from
  the chunks whose removal failed, and the file is what it was or, when only the manifest could not be kept, holds bytes with the digest asked for.
\<close>

theorem blob_fetch_outcome:
  assumes "distinct (map fst rx)" "\<forall>i. clean_io (fst (gi_chunks io i))" "clean_io (gi_manifest io)"
    and "fetch_blob_from_peer E now io peer path h mq mt rx files out = Some (r, files', out')"
  shows "(\<forall>n. r = Ok n \<longrightarrow> (\<exists>d. out' = Some d \<and> ce_b3 E d = h \<and> length d = n))
    \<and> (\<forall>e. r = Err e \<longrightarrow> (\<forall>p. p \<notin> chunk_path ` {h. \<not> gi_removable io h} \<longrightarrow> map_of files' p = map_of files p) \<and> (out' = out \<or> (\<exists>d. out' = Some d \<and> ce_b3 E d = h)))"
proof (cases "agreed_manifest E peer path h mq mt")
  case (Ok m)
  obtain r1 g out1 where g: "grab_result E now io h m (map_of rx) (cas_new files) out = (r1, g, out1)" by (metis prod_cases3)
  have "r = r1 \<and> out' = out1 \<and> files' = st_files (case r1 of Err e \<Rightarrow> remove_chunks (gi_removable io) (gb_new g) (gb_store g) | _ \<Rightarrow> gb_store g)"
    using assms(4) grab_chunks_result [OF assms(1), of E now io h m "cas_new files" out] g Ok by (auto simp: fetch_blob_from_peer_def)
  then show ?thesis using grab_result_outcome [OF assms(2,3) g] removed_chunks [of files g] by auto
qed (use assms(4) in \<open>auto simp: fetch_blob_from_peer_def\<close>)

subsection \<open>A fetch that hangs\<close>

text \<open>C37. When the first body to arrive is the failure of chunk 0 and two or more other bodies are still to be sent, the fetch does not return:
  the consumer has given up, the receiver is alive, and the workers are never joined. Peers that fail chunk 0 of a blob of three chunks
  or more thus stop the caller for good, where \<open>tx.send(..).is_err()\<close> is written to let the workers end.
\<close>

theorem blob_fetch_hangs:
  assumes "agreed_manifest E peer path h mq mt = Ok m" "gi_create io" "\<not> gi_panicked io"
    and "chunk_deliveries (ce_b3 E) (lp_quic peer) quic tcp (cm_chunks m) order = (0, Err e) # rest" "length (cm_chunks m) \<ge> 3"
    and "mset order = mset [0..<length (cm_chunks m)]"
  shows "fetch_blob_from_peer E now io peer path h mq mt (chunk_deliveries (ce_b3 E) (lp_quic peer) quic tcp (cm_chunks m) order) files out = None"
proof -
  have "length order = length (cm_chunks m)" using arg_cong [OF assms(6), of size] by simp
  moreover have "length order = Suc (length rest)" using arg_cong [OF assms(4), of length] by (simp add: chunk_deliveries_def)
  ultimately have "length rest > 1" using assms(5) by simp
  moreover obtain c cs where "cm_chunks m = c # cs" using assms(5) by (cases "cm_chunks m") auto
  ultimately show ?thesis unfolding assms(4)
    using assms(1-3) by (simp add: fetch_blob_from_peer_def grab_chunks_def Let_def take_in_order_def)
qed

subsection \<open>A fetch that completes\<close>

lemma parts_of_tile: "refs_tile n cs \<Longrightarrow> n + refs_len cs \<le> length data \<Longrightarrow> concat (map (part data) cs) = seg data n (n + refs_len cs)"
proof (induction cs arbitrary: n)
  case (Cons c cs)
  then have "concat (map (part data) cs) = seg data (n + cr_len c) (n + cr_len c + refs_len cs)" using Cons.IH [of "n + cr_len c"] by simp
  moreover have "part data c = seg data n (n + cr_len c)" using Cons.prems by (simp add: Chunking.part_def seg_def)
  ultimately show ?case using seg_append [of n "n + cr_len c" "n + cr_len c + refs_len cs" data] by (simp add: add.assoc)
qed (simp add: seg_def)

lemma described_parts: "describes b3 m data \<Longrightarrow> concat (map (part data) (cm_chunks m)) = data"
  using parts_of_tile [of 0 "cm_chunks m" data] manifest_valid_iff [of m] by (auto simp: describes_def seg_def)

lemma absorb_Ok:
  assumes "is_valid_hash (cr_blake3 c)" "length d = cr_len c"
  shows "\<exists>g'. absorb now (Io_ok, True) c d g = (Ok (), g') \<and> gb_file g' = gb_file g @ d"
proof -
  obtain b s' where p: "put_trusted Io_ok now (cr_blake3 c) d (gb_store g) = (b, s')" by fastforce
  then have "b \<or> cas_contains (cr_blake3 c) s'"
    using assms(1) by (auto simp: put_trusted_def cas_contains_def write_via_tmp_def Let_def split: if_splits)
  then show ?thesis using p assms(2) by (auto simp: absorb_def Let_def)
qed

lemma grab_table_Ok:
  assumes "\<forall>i<length cs. tbl (bi + i) = Some (Ok (f (cs ! i))) \<and> is_valid_hash (cr_blake3 (cs ! i)) \<and> length (f (cs ! i)) = cr_len (cs ! i)"
    and "\<forall>i. ios i = (Io_ok, True)"
  shows "\<exists>g'. grab_table now ios bi cs tbl g = (Ok (), g') \<and> gb_file g' = gb_file g @ concat (map f cs)"
  using assms(1)
proof (induction cs arbitrary: bi g)
  case (Cons c cs)
  have c: "tbl bi = Some (Ok (f c))" "is_valid_hash (cr_blake3 c)" "length (f c) = cr_len c" using Cons.prems by auto
  have "\<forall>i<length cs. tbl (Suc bi + i) = Some (Ok (f (cs ! i))) \<and> is_valid_hash (cr_blake3 (cs ! i)) \<and> length (f (cs ! i)) = cr_len (cs ! i)"
    using Cons.prems by (metis Suc_mono add_Suc_shift length_Cons nth_Cons_Suc)
  moreover obtain g1 where "absorb now (Io_ok, True) c (f c) g = (Ok (), g1)" "gb_file g1 = gb_file g @ f c" using absorb_Ok [OF c(2,3)] by blast
  ultimately show ?case using Cons.IH [of "Suc bi" g1] c(1) assms(2) by auto
qed simp

lemma save_manifest_Ok:
  assumes "is_valid_hash (cm_blob_hash m)" "manifest_valid m"
  shows "\<exists>s'. save_manifest E Io_ok now m s = (Ok (), s')"
  using assms by (auto simp: save_manifest_def write_via_tmp_def Let_def)

lemma check_manifest_hash: "check_manifest E h json = Ok m \<Longrightarrow> cm_blob_hash m = h"
  by (simp add: check_manifest_def split: option.splits if_splits)

lemma agreed_manifest_hash:
  assumes "agreed_manifest E peer path h mq mt = Ok m"
  shows "cm_blob_hash m = h"
proof -
  obtain json where "check_manifest E h json = Ok m"
    using assms unfolding agreed_manifest_def and_then_eq_Ok by (metis and_then_eq_Ok res.distinct(1))
  then show ?thesis by (rule check_manifest_hash)
qed

text \<open>A chunk whose TCP answer is good is fetched, whatever QUIC answers.\<close>

lemma fetch_chunk_good:
  assumes "b3_ok b3" "describes b3 m data" "collision_free b3 data" "c \<in> set (cm_chunks m)"
    and "quic \<noteq> Some Panic" "tcp = Ok (0, part data c)" "cr_len c \<le> LAN_MAX_FRAME_BYTES"
  shows "fetch_chunk_bytes b3 quic tcp c = Ok (part data c)"
proof -
  have u: "d = part data c" if "b3 d = cr_blake3 c" for d
    using collision_free_parts [OF assms(1,3,2)] assms(4) that unfolding unique_parts_def by (simp add: eq_ignore_ascii_case_def)
  note d = described_chunk(1,3,5,6) [OF assms(2,4)]
  have "fetch_chunk_range tcp (range_request c) = Ok (part data c)"
    using d(2,3,4) assms(6,7) by (simp add: fetch_chunk_range_def range_request_def flip: d(3))
  then have "fetch_verified_chunk b3 tcp c = Ok (part data c)"
    using d(1,2) by (simp add: fetch_verified_chunk_def eq_ignore_ascii_case_def)
  moreover have "exchange_chunk a (range_request c) \<noteq> Panic" if "quic = Some a" for a
    using assms(5) that by (auto simp: exchange_chunk_def split: if_splits prod.splits)
  ultimately show ?thesis using u by (auto simp: fetch_chunk_bytes_def Let_def split: option.split res.split if_splits)
qed

text \<open>C11. A blob that a peer has is fetched: if the manifest describes the data, the chunks fit into frames, the peer answers every chunk request over
  TCP, and the local writes succeed, then whatever QUIC answers and in whatever order the workers finish, the fetch returns the length of the data and the
  file holds it.
\<close>

theorem blob_fetch_completes:
  assumes E: "b3_ok (ce_b3 E)" "collision_free (ce_b3 E) data"
    and m: "agreed_manifest E peer path h mq mt = Ok m" "describes (ce_b3 E) m data"
    and io: "gi_create io" "\<not> gi_panicked io" "\<forall>i. gi_chunks io i = (Io_ok, True)" "gi_rename io" "gi_manifest io = Io_ok"
    and order: "mset order = mset [0..<length (cm_chunks m)]"
    and answers: "\<forall>i<length (cm_chunks m). quic i \<noteq> Panic \<and> tcp i = Ok (0, part data (cm_chunks m ! i))"
    and frames: "\<forall>c\<in>set (cm_chunks m). cr_len c \<le> LAN_MAX_FRAME_BYTES"
  shows "\<exists>files'. fetch_blob_from_peer E now io peer path h mq mt
      (chunk_deliveries (ce_b3 E) (lp_quic peer) quic tcp (cm_chunks m) order) files out = Some (Ok (length data), files', Some data)"
proof -
  let ?rx = "chunk_deliveries (ce_b3 E) (lp_quic peer) quic tcp (cm_chunks m) order" and ?cs = "cm_chunks m"
  let ?g0 = "\<lparr>gb_store = cas_new files, gb_new = [], gb_file = []\<rparr>"
  have fst: "map fst ?rx = order" by (simp add: chunk_deliveries_def comp_def)
  have d: "distinct (map fst ?rx)" unfolding fst using order by (metis distinct_upt mset_eq_imp_distinct_iff)
  have tbl: "map_of ?rx i = Some (Ok (part data (?cs ! i)))" if i: "i < length ?cs" for i
  proof -
    have "i \<in> set order" using i mset_eq_setD [OF order] by simp
    moreover have "fetch_chunk_bytes (ce_b3 E) (if lp_quic peer then Some (quic i) else None) (tcp i) (?cs ! i) = Ok (part data (?cs ! i))"
      using fetch_chunk_good [OF E(1) m(2) E(2) nth_mem [OF i]] answers frames i by auto
    ultimately have "(i, Ok (part data (?cs ! i))) \<in> set ?rx" by (force simp: chunk_deliveries_def)
    then show ?thesis using d by simp
  qed
  have "\<forall>i<length ?cs. map_of ?rx (0 + i) = Some (Ok (part data (?cs ! i))) \<and> is_valid_hash (cr_blake3 (?cs ! i)) \<and> length (part data (?cs ! i)) = cr_len (?cs ! i)"
    using tbl described_chunk(2,5) [OF m(2) nth_mem] by simp
  from grab_table_Ok [OF this io(3), of now ?g0] obtain g where t: "grab_table now (gi_chunks io) 0 ?cs (map_of ?rx) ?g0 = (Ok (), g)" "gb_file g = data"
    using described_parts [OF m(2)] by auto
  have h: "ce_b3 E data = h" "is_valid_hash (cm_blob_hash m)" "manifest_valid m"
    using agreed_manifest_hash [OF m(1)] m(2) E(1) by (auto simp: describes_def b3_ok_def hash_shape_valid)
  obtain st where "save_manifest E Io_ok now m (gb_store g) = (Ok (), st)" using save_manifest_Ok [OF h(2,3)] by blast
  then have "grab_result E now io h m (map_of ?rx) (cas_new files) out = (Ok (length data), g\<lparr>gb_store := st\<rparr>, Some data)"
    using t h(1) io by (simp add: grab_result_def Let_def)
  then have "grab_chunks E now io h m ?rx (cas_new files) out = Some (Ok (length data), g\<lparr>gb_store := st\<rparr>, Some data)"
    using grab_chunks_result [OF d, of E now io h m "cas_new files" out] by simp
  then show ?thesis using m(1) by (simp add: fetch_blob_from_peer_def)
qed

subsection \<open>Examples\<close>

definition sample_io :: grab_io where
  "sample_io = \<lparr>gi_create = True, gi_panicked = False, gi_chunks = (\<lambda>i. (Io_ok, True)), gi_rename = True, gi_manifest = Io_ok, gi_removable = (\<lambda>_. True)\<rparr>"

definition sample_lan_peer :: lan_peer where
  "sample_lan_peer = \<lparr>lp_ip = V4 10 0 0 1, lp_quic = True\<rparr>"

definition thirds_manifest :: chunk_manifest where
  "thirds_manifest = \<lparr>cm_blob_hash = sample_b3 [1, 2, 3], cm_total_size = 3,
     cm_chunks = map (\<lambda>i. \<lparr>cr_blake3 = sample_b3 [of_nat (Suc i)], cr_offset = i, cr_len = 1\<rparr>) [0, 1, 2]\<rparr>"

lemma sample_agreed:
  assumes "m = sample_manifest \<or> m = thirds_manifest"
  shows "agreed_manifest sample_cas_env sample_lan_peer sample_path (sample_b3 [1, 2, 3]) (Err []) (Ok (0, bytes_of (ce_to_json sample_cas_env m))) = Ok m"
proof -
  have v: "validate_out_path sample_path = Ok ()" "is_private_ip (V4 10 0 0 1)" by code_simp+
  have l: "length (sample_b3 x) = 64" "hash_shape (sample_b3 x)" for x
    using sample_b3_ok by (simp_all add: b3_ok_def hash_shape_valid is_valid_hash_def)
  have "manifest_valid m" using assms l by (auto simp: manifest_valid_iff sample_manifest_def thirds_manifest_def)
  moreover have "cm_blob_hash m = sample_b3 [1, 2, 3]" "cm_total_size m \<le> MAX_BLOB_FETCH_BYTES"
    using assms by (auto simp: sample_manifest_def thirds_manifest_def MAX_BLOB_FETCH_BYTES_def)
  moreover have j: "ce_from_json sample_cas_env (ce_to_json sample_cas_env m) = Some m" "utf8_valid (bytes_of (ce_to_json sample_cas_env m))"
    using sample_cas_ok(1) by (simp_all add: json_ok_def)
  ultimately have "check_manifest sample_cas_env (sample_b3 [1, 2, 3]) (ce_to_json sample_cas_env m) = Ok m" by (simp add: check_manifest_def)
  moreover have "crawl_manifest sample_lan_peer (sample_b3 [1, 2, 3]) (Err []) (Ok (0, bytes_of (ce_to_json sample_cas_env m))) = Ok (ce_to_json sample_cas_env m)"
    using l j(2) by (simp add: crawl_manifest_def fetch_quic_manifest_def fetch_manifest_def exchange_chunk_def from_utf8_def sample_lan_peer_def)
  ultimately show ?thesis using v l by (simp add: agreed_manifest_def sample_lan_peer_def)
qed

lemma sample_failing_fetch:
  "\<exists>files'. fetch_blob_from_peer sample_cas_env 7 sample_io sample_lan_peer sample_path (sample_b3 [1, 2, 3]) (Err []) (Ok (0, bytes_of (ce_to_json sample_cas_env sample_manifest)))
     [(0, Ok [1, 2]), (1, Err ''gone'')] [] None = Some (Err ''gone'', files', None)"
proof -
  let ?g = "\<lparr>gb_store = cas_new [], gb_new = [], gb_file = []\<rparr>"
  have "is_valid_hash (sample_b3 [1, 2])" using sample_b3_ok by (simp add: b3_ok_def hash_shape_valid)
  then obtain g where "absorb 7 (Io_ok, True) \<lparr>cr_blake3 = sample_b3 [1, 2], cr_offset = 0, cr_len = 2\<rparr> [1, 2] ?g = (Ok (), g)"
    using absorb_Ok [of "\<lparr>cr_blake3 = sample_b3 [1, 2], cr_offset = 0, cr_len = 2\<rparr>" "[1, 2]" 7 ?g] by auto
  then show ?thesis using sample_agreed [of sample_manifest]
    by (simp add: fetch_blob_from_peer_def grab_chunks_def Let_def take_in_order_def sample_io_def)
      (simp add: sample_manifest_def take_in_order_def)
qed

theorem blob_fetch_outcome_witness:
  "\<exists>files'. fetch_blob_from_peer sample_cas_env 7 sample_io sample_lan_peer sample_path (sample_b3 [1, 2, 3]) (Err []) (Ok (0, bytes_of (ce_to_json sample_cas_env sample_manifest)))
     [(0, Ok [1, 2]), (1, Err ''gone'')] [] None = Some (Err ''gone'', files', None) \<and> files' = []"
proof -
  obtain files' where f: "fetch_blob_from_peer sample_cas_env 7 sample_io sample_lan_peer sample_path (sample_b3 [1, 2, 3]) (Err []) (Ok (0, bytes_of (ce_to_json sample_cas_env sample_manifest)))
     [(0, Ok [1, 2]), (1, Err ''gone'')] [] None = Some (Err ''gone'', files', None)" using sample_failing_fetch by blast
  have "map_of files' = map_of []" using blob_fetch_outcome [OF _ _ _ f] by (simp add: sample_io_def clean_io_def fun_eq_iff)
  then show ?thesis using f by simp
qed

theorem blob_fetch_any_order_witness:
  "\<exists>files'. fetch_blob_from_peer sample_cas_env 7 sample_io sample_lan_peer sample_path (sample_b3 [1, 2, 3]) (Err []) (Ok (0, bytes_of (ce_to_json sample_cas_env sample_manifest)))
     [(1, Err ''gone''), (0, Ok [1, 2])] [] None \<in> {Some (Err ''gone'', files', None), None}"
proof -
  obtain files' where f: "fetch_blob_from_peer sample_cas_env 7 sample_io sample_lan_peer sample_path (sample_b3 [1, 2, 3]) (Err []) (Ok (0, bytes_of (ce_to_json sample_cas_env sample_manifest)))
     [(0, Ok [1, 2]), (1, Err ''gone'')] [] None = Some (Err ''gone'', files', None)" using sample_failing_fetch by blast
  show ?thesis using blob_fetch_any_order [OF _ _ f, of "[(1, Err ''gone''), (0, Ok [1, 2])]"] by auto
qed

theorem blob_fetch_hangs_witness:
  "fetch_blob_from_peer sample_cas_env 7 sample_io sample_lan_peer sample_path (sample_b3 [1, 2, 3]) (Err []) (Ok (0, bytes_of (ce_to_json sample_cas_env thirds_manifest)))
     (chunk_deliveries (ce_b3 sample_cas_env) (lp_quic sample_lan_peer) (\<lambda>i. Err ''q'') (\<lambda>i. Err ''t'') (cm_chunks thirds_manifest) [0, 1, 2]) [] None = None"
proof -
  have l: "length (sample_b3 x) = 64" for x using sample_b3_ok by (simp add: b3_ok_def hash_shape_valid is_valid_hash_def)
  have "\<exists>e. fetch_chunk_bytes b3 (Some (Err ''q'')) (Err ''t'') c = Err e" if "length (cr_blake3 c) = 64" for b3 c
    using that by (auto simp: fetch_chunk_bytes_def fetch_verified_chunk_def fetch_chunk_range_def exchange_chunk_def range_request_def Let_def)
  then have "\<exists>e rest. chunk_deliveries (ce_b3 sample_cas_env) (lp_quic sample_lan_peer) (\<lambda>i. Err ''q'') (\<lambda>i. Err ''t'') (cm_chunks thirds_manifest) [0, 1, 2] = (0, Err e) # rest"
    by (simp add: chunk_deliveries_def sample_lan_peer_def thirds_manifest_def l)
  then obtain e rest where d: "chunk_deliveries (ce_b3 sample_cas_env) (lp_quic sample_lan_peer) (\<lambda>i. Err ''q'') (\<lambda>i. Err ''t'') (cm_chunks thirds_manifest) [0, 1, 2] = (0, Err e) # rest" by blast
  have "mset [0, 1, 2] = mset [0..<length (cm_chunks thirds_manifest)]" "3 \<le> length (cm_chunks thirds_manifest)"
    by (simp_all add: thirds_manifest_def upt_rec)
  then show ?thesis using blob_fetch_hangs [OF sample_agreed [of thirds_manifest] _ _ d] by (simp add: sample_io_def)
qed

theorem blob_fetch_completes_witness:
  "\<exists>files'. fetch_blob_from_peer sample_cas_env 7 sample_io sample_lan_peer sample_path (sample_b3 [1, 2, 3]) (Err []) (Ok (0, bytes_of (ce_to_json sample_cas_env sample_manifest)))
     (chunk_deliveries (ce_b3 sample_cas_env) (lp_quic sample_lan_peer) (\<lambda>i. Ok (0, [9])) (\<lambda>i. Ok (0, part [1, 2, 3] (cm_chunks sample_manifest ! i))) (cm_chunks sample_manifest) [1, 0]) [] None
     = Some (Ok 3, files', Some [1, 2, 3])"
proof -
  have "describes (ce_b3 sample_cas_env) sample_manifest [1, 2, 3]" using sample_describes by (simp add: sample_cas_env_def)
  moreover have "mset [1, 0] = mset [0..<length (cm_chunks sample_manifest)]" "\<forall>c\<in>set (cm_chunks sample_manifest). cr_len c \<le> LAN_MAX_FRAME_BYTES"
    by (simp_all add: sample_manifest_def upt_rec)
  ultimately show ?thesis
    using blob_fetch_completes [OF sample_cas_ok(2,3) sample_agreed [of sample_manifest], where order = "[1, 0]" and now = 7 and io = sample_io
        and quic = "\<lambda>i. Ok (0, [9])" and tcp = "\<lambda>i. Ok (0, part [1, 2, 3] (cm_chunks sample_manifest ! i))" and files = "[]" and out = None]
    by (simp add: sample_io_def numeral_3_eq_3)
qed

end
