(* ===== verification/Spec2Isabelle.thy ===== *)
theory Spec2Isabelle
  imports Crypto_Theorems Mesh_Theorems Compress PlumTree Ring RateLimit P2pFrame TxGraph Outbox GossipBridge Prolly
    Relay_Props LocalStore Backends Wot HashRouting Skademlia Moq Zap Ble Cas Swarm BlobGrab
begin

text \<open>
  A verification of the core of Soshal, a peer-to-peer social application in Rust. The modelled part is the
  core that runs without a user interface: what protects messages, what frames, routes and spreads them, whom and which addresses
  they trust, how payments are checked, and how media are stored and fetched.

  \<^bold>\<open>The program's parts and their models.\<close>

  \<^item> crypto-core/src/nip44.rs: authenticated encryption with padding and a conversation-key cache
    (\<^theory_text>\<open>Nip44\<close>). content-core/src/compress.rs: size-limited decompression (\<^theory_text>\<open>Compress\<close>).
    pqc-core/src/hybrid.rs: the hybrid key encapsulation (\<^theory_text>\<open>Hybrid\<close>).
  \<^item> crypto-core/src/pqc\_ratchet: the double ratchet on top of the three (\<^theory_text>\<open>Ratchet\<close>; its invariants and the
    conversation lemmas in \<^theory_text>\<open>Ratchet_Props\<close>).
  \<^item> mesh-core/src/pqc\_link.rs: ratchet sessions per peer, their handshake and frames (\<^theory_text>\<open>PqcLink\<close>).
  \<^item> mesh-core/src/reticulum: SLIP framing (\<^theory_text>\<open>Slip\<close>), addresses, packets and interfaces (\<^theory_text>\<open>Packet\<close>), the path
    table (\<^theory_text>\<open>Routing\<close>), links over ratchet sessions (\<^theory_text>\<open>Link\<close>), the node that ties them together
    (\<^theory_text>\<open>Node\<close>, lemmas in \<^theory_text>\<open>Node_Props\<close>). common-core/src/url.rs: its source address filter (\<^theory_text>\<open>PrivateIp\<close>).
  \<^item> common-core/src/bounded.rs: capped collections (\<^theory_text>\<open>Bounded\<close>); network-core/src/plumtree.rs: gossip over them
    (\<^theory_text>\<open>PlumTree\<close>); network-core/src/rate\_limit.rs: the limiter of login attempts (\<^theory_text>\<open>RateLimit\<close>).
  \<^item> mesh-core/src/p2p\_frame.rs: payloads cut into checked chunks (\<^theory_text>\<open>P2pFrame\<close>). telemetry-core/src/ring.rs: the
    shared-memory event ring (\<^theory_text>\<open>Ring\<close>).
  \<^item> sync-core/src/tx.rs and revert.rs: the graph of optimistic actions and its rollback (\<^theory_text>\<open>TxGraph\<close>).
    sync-core/src/gossip.rs: the bridge between the mesh, the gossip node and ingestion (\<^theory_text>\<open>GossipBridge\<close>);
    prolly\_tree.rs and prolly\_sync.rs: comparison of stores (\<^theory_text>\<open>Prolly\<close>). sync-core/src/outbox.rs with the replay of engine.rs: the queue of actions to be sent (\<^theory_text>\<open>Outbox\<close>).
    sync-core/src/hash\_routing.rs: partitions and the consistent-hash ring (\<^theory_text>\<open>HashRouting\<close>).
  \<^item> relay-core: the wire envelope (\<^theory_text>\<open>Envelope\<close>), the flood relay with its duplicate filters (\<^theory_text>\<open>Relay\<close>, lemmas in
    \<^theory_text>\<open>Relay_Props\<close>), the I2P and Freenet adapters behind it (\<^theory_text>\<open>Backends\<close>), the local event store
    (\<^theory_text>\<open>LocalStore\<close>). The relay verifies events through the cache of nostr-core/src/models.rs (\<^theory_text>\<open>VerifyCache\<close>) and
    picks transports by network-core/src/transport.rs (\<^theory_text>\<open>Transport\<close>).
  \<^item> identity-core/src/wot.rs: distances in the follow graph (\<^theory_text>\<open>Wot\<close>). network-core/src/skademlia.rs: the routing table whose
    ids cost work (\<^theory_text>\<open>Skademlia\<close>). common-core/src/url.rs: the checks of links and relay addresses (\<^theory_text>\<open>SafeUrl\<close> on \<^theory_text>\<open>PrivateIp\<close>).
    zap-core: invoices, lightning addresses and the checks before a payment (\<^theory_text>\<open>Zap\<close>). mesh-core/src/ble.rs: offline
    synchronisation over Bluetooth (\<^theory_text>\<open>Ble\<close>). streaming-core/src/moq.rs: media groups on a stream (\<^theory_text>\<open>Moq\<close>).
  \<^item> media-core/src/chunking.rs: manifests (\<^theory_text>\<open>Chunking\<close>); media-core/src/cas.rs: the content-addressed chunk store (\<^theory_text>\<open>Cas\<close>) and its
    caches (\<^theory_text>\<open>Lru\<close>). network-core/src/swarm.rs: the parallel download from several peers (\<^theory_text>\<open>Swarm\<close>);
    network-core/src/blob\_grab.rs: the fetch of a blob from one peer into file and store (\<^theory_text>\<open>BlobGrab\<close>). Both rest on \<^theory_text>\<open>Chunking\<close>,
    the latter also on \<^theory_text>\<open>Cas\<close>.

  \<^bold>\<open>How the code is modelled.\<close> A struct is a record, an enum a datatype, a hash map an association list with distinct
  keys, a hash set a list without repetitions (\<^theory_text>\<open>Tables\<close>; nothing depends on their order). A method takes the state and
  returns the new one. A fallible function returns \<open>res\<close>: \<open>Ok\<close>, \<open>Err\<close> with the message, or \<open>Panic\<close>; the release profile
  of the workspace checks overflow and aborts, so checked arithmetic is a \<open>Panic\<close> (\<^theory_text>\<open>Prelude\<close>). Strings are their
  UTF-8 bytes. A database table is an association list keyed by its primary key and a statement its documented effect. Clocks, random draws and outcomes of system calls are arguments. Cryptographic primitives, codecs and the
  JSON of headers are code of other packages: they are the fields of the record \<open>prims\<close> (and \<open>serde\<close>, \<open>env\<close>), and
  what is used of them is stated as the hypotheses \<open>nip44_prims_ok\<close>, \<open>kem_prims_ok\<close>, \<open>deflate_prims_ok\<close>,
  \<open>zstd_prims_ok\<close>, \<open>ratchet_prims_ok\<close>, \<open>serde_ok\<close>. \<^theory_text>\<open>Instance\<close> gives primitives with all these properties (real hex
  and base64 codecs among them); the witnesses run on them. Locks make the operations of a component atomic; the
  interleavings of a component are the sequences of its operations. A replay of the outbox, which awaits between fetching and marking, and
  a handshake, whose random draws succeed, are one operation each.

  \<^bold>\<open>Interfaces.\<close> Locale \<open>table\<close> (lookup after update, sizes), \<open>safe_machine\<close> (a component as initial states, steps and
  an invariant), \<open>fifo\<close> (queues that drop their oldest element), \<open>dedup\<close> (a window of recent keys) and \<open>byte_writer\<close> (what an
  encoder needs of a \<open>Write\<close>). \<open>table\<close> is interpreted on the hash tables; \<open>safe_machine\<close> on the ratchet state, the session store, the
  link manager, the node, the gossip node, the gossip bridge, the outbox, the flood relay, the I2P and Freenet adapters, the chunk store
  and the swarm; \<open>fifo\<close> on the queues of the node and of the I2P adapter; \<open>dedup\<close> on \<open>BoundedSet\<close>; \<open>byte_writer\<close> on \<open>Vec\<close>.

  \<^bold>\<open>What is shown.\<close> \<^theory_text>\<open>Crypto_Theorems\<close>: conversations over the ratchet are delivered, in any order within an epoch;
  replays are refused; buffers are bounded; keys are adopted only from authenticated headers; NIP-44, the KEM and the
  compressors invert; and the failures found (crossing first messages, oversize payloads, counter overflow).
  \<^theory_text>\<open>Mesh_Theorems\<close>: the handshake and the frames of a link from empty stores to a conversation; the invariants of
  store, manager and node; deduplication and forwarding; and the failures found (asymmetric contexts, truncated keys,
  stop, statistics). The theories of the remaining components end with their own
  properties: chunks decode in any order of arrival (\<^theory_text>\<open>P2pFrame\<close>), a drain of the ring hands over exactly what was
  written and ends on any content (\<^theory_text>\<open>Ring\<close>), the limiter holds its limit (\<^theory_text>\<open>RateLimit\<close>), a rollback reverts
  exactly the dependents of a failed action, dependents first (\<^theory_text>\<open>TxGraph\<close>), and the outbox loses no action, gives up
  after ten attempts and returns what was enqueued up to one mebibyte (\<^theory_text>\<open>Outbox\<close>); the bridge passes only events that the
  verification cache vouches for and its batch entry point is equivalent to the single one (\<^theory_text>\<open>GossipBridge\<close>); what the comparison of stores finds and
  what it misses (\<^theory_text>\<open>Prolly\<close>). The relay delivers a payload at most once and no flood passes its hop limit
  (\<^theory_text>\<open>Relay_Props\<close>), the envelope decoder inverts the encoder (\<^theory_text>\<open>Envelope\<close>), a query of the local store is exact (\<^theory_text>\<open>LocalStore\<close>);
  the distances of the web of trust are the shortest paths (\<^theory_text>\<open>Wot\<close>), a lookup gives the closest peers (\<^theory_text>\<open>Skademlia\<close>), a link
  that passes names no private host (\<^theory_text>\<open>SafeUrl\<close>), amounts of invoices are read exactly (\<^theory_text>\<open>Zap\<close>), an envelope over Bluetooth
  is opened by its addressee (\<^theory_text>\<open>Ble\<close>). The manifest of a blob tiles it (\<^theory_text>\<open>Chunking\<close>), the caches refine lists in order of use
  (\<^theory_text>\<open>Lru\<close>), the chunk store returns only bytes with the right digest whatever happens to its files, through its mappings as long as no file is
  written in place, and gives back what it stored
  (\<^theory_text>\<open>Cas\<close>), a download writes the blob or reports failure for every interleaving of its workers and every answer of the peers (\<^theory_text>\<open>Swarm\<close>), and a
  fetch gives the same result in every order of arrival, undoes a failure, and hangs when a body fails early (\<^theory_text>\<open>BlobGrab\<close>).

  \<^bold>\<open>Bounds and fuel.\<close> Every function of the model is total. The receive loop of the node runs for as long as its thread
  does and is modelled over the list of the events it consumes: \<open>None\<close> says that the loop is still running after them. The statement that \<open>stop\<close>
  does not return is about every such list. A download of the swarm is modelled over the events of its workers in the same way, and a fetch
  that cannot join its workers is \<open>None\<close> as well.

  \<^bold>\<open>Not modelled.\<close> The FFI bridge (generated), the repositories of the database layer, event ingestion, media and audio codecs, the sockets
  of the transports (QUIC, LAN, the SAM session of I2P, the Freenet node: what they answer is an argument), user-interface feature crates, floating-point
  scores, and the zeroisation of secrets.
\<close>

end
